(* ===== verification/Prelude.thy ===== *)
theory Prelude
  imports Main "HOL-Library.Word"
begin

text \<open>
  Prelude of the xv6 development.  It holds what every component shares: the C integer types of
  \<^verbatim>\<open>kernel/types.h\<close> as words, the constants of \<^verbatim>\<open>kernel/param.h\<close>, the names of the kernel
  objects that locks and sleep channels point at, the result type of kernel functions with its
  bind and loop combinators, and generic facts on lists, functions and words.

  A kernel function is modelled by explicit state passing.  Its result is one of
    \<^item> \<open>Ok x s\<close>: it returned \<open>x\<close> in state \<open>s\<close>;
    \<^item> \<open>Panic msg\<close>: it called \<^verbatim>\<open>panic(msg)\<close>, which never returns;
    \<^item> \<open>Spin l\<close>: it waits in \<^verbatim>\<open>acquire\<close> for the spinlock \<open>l\<close>, held by another CPU;
    \<^item> \<open>Switch s\<close>: it left through \<^verbatim>\<open>swtch\<close> in \<^verbatim>\<open>sched()\<close>, with the machine in state \<open>s\<close>.
\<close>

unbundle bit_operations_syntax

section \<open>Integer types and constants\<close>

type_synonym u8 = "8 word"
type_synonym u16 = "16 word"
type_synonym u32 = "32 word"
type_synonym u64 = "64 word"

abbreviation NUL :: char where
  "NUL \<equiv> CHR 0x00"

definition NPROC :: nat where "NPROC = 64"
definition NCPU :: nat where "NCPU = 8"
definition NOFILE :: nat where "NOFILE = 16"
definition NFILE :: nat where "NFILE = 100"
definition NINODE :: nat where "NINODE = 50"
definition NDEV :: nat where "NDEV = 10"
definition ROOTDEV :: u32 where "ROOTDEV = 1"
definition MAXARG :: nat where "MAXARG = 32"
definition MAXOPBLOCKS :: nat where "MAXOPBLOCKS = 10"
definition LOGBLOCKS :: nat where "LOGBLOCKS = MAXOPBLOCKS * 3"
definition NBUF :: nat where "NBUF = MAXOPBLOCKS * 3"
definition FSSIZE :: nat where "FSSIZE = 2000"
definition MAXPATH :: nat where "MAXPATH = 128"
definition USERSTACK :: nat where "USERSTACK = 1"

section \<open>Kernel objects that pointers name\<close>

text \<open>
  A spinlock is named by the object it lives in: \<open>LProc i\<close> is \<^verbatim>\<open>proc[i].lock\<close>, \<open>LPipe a\<close> the lock
  of the \<^verbatim>\<open>struct pipe\<close> at address \<open>a\<close>, \<open>LSleep\<close> the spinlock inside a sleep lock (of buffer \<open>i\<close> of the
  buffer cache, or of entry \<open>i\<close> of the inode table), the others are the kernel's global locks.
\<close>

datatype sleepid = SBuf nat | SInode nat

datatype lockid =
    LProc nat | LPid | LWait | LLlm | LTicks | LKmem | LPr | LCons | LUartTx | LFtable | LItable
  | LPipe u64 | LSleep sleepid | LBcache | LLog | LVdisk

text \<open>
  A sleep channel is the address of some kernel object; only equality of channels matters.
  \<open>ChNull\<close> is the null pointer, which no thread sleeps on.
\<close>

datatype chan =
    ChNull | ChProc nat | ChTicks | ChPipeRead u64 | ChPipeWrite u64 | ChConsR | ChUartTx
  | ChSleep sleepid | ChLog | ChVdisk | ChBuf nat

section \<open>Results of kernel functions\<close>

datatype ('a, 's) res = Ok 'a 's | Panic string | Spin lockid | Switch 's

primrec kbind :: "('a, 's) res \<Rightarrow> ('a \<Rightarrow> 's \<Rightarrow> ('b, 's) res) \<Rightarrow> ('b, 's) res" where
  "kbind (Ok x s) f = f x s"
| "kbind (Panic m) f = Panic m"
| "kbind (Spin l) f = Spin l"
| "kbind (Switch s) f = Switch s"

text \<open>\<open>kfor\<close> is a C \<^verbatim>\<open>for\<close> loop without early exit; \<open>kscan\<close> one whose body may leave the loop with
  a value (\<open>Some r\<close>, a \<^verbatim>\<open>return\<close> or \<^verbatim>\<open>goto\<close>) or go on (\<open>None\<close>).\<close>

primrec kfor :: "('i \<Rightarrow> 's \<Rightarrow> (unit, 's) res) \<Rightarrow> 'i list \<Rightarrow> 's \<Rightarrow> (unit, 's) res" where
  "kfor f [] s = Ok () s"
| "kfor f (i # is) s = kbind (f i s) (\<lambda>_ s. kfor f is s)"

primrec kscan :: "('i \<Rightarrow> 's \<Rightarrow> ('a option, 's) res) \<Rightarrow> 'i list \<Rightarrow> 's \<Rightarrow> ('a option, 's) res" where
  "kscan f [] s = Ok None s"
| "kscan f (i # is) s =
     kbind (f i s) (\<lambda>r s. case r of None \<Rightarrow> kscan f is s | Some x \<Rightarrow> Ok (Some x) s)"

text \<open>\<open>no_panic r\<close>: the call did not panic; \<open>result_state\<close> is the state it left behind.\<close>

primrec no_panic :: "('a, 's) res \<Rightarrow> bool" where
  "no_panic (Ok x s) = True"
| "no_panic (Panic m) = False"
| "no_panic (Spin l) = True"
| "no_panic (Switch s) = True"

primrec result_state :: "('a, 's) res \<Rightarrow> 's option" where
  "result_state (Ok x s) = Some s"
| "result_state (Panic m) = None"
| "result_state (Spin l) = None"
| "result_state (Switch s) = Some s"

text \<open>\<open>no_switch r\<close>: the call kept the CPU.\<close>

primrec no_switch :: "('a, 's) res \<Rightarrow> bool" where
  "no_switch (Ok x s) = True"
| "no_switch (Panic m) = True"
| "no_switch (Spin l) = True"
| "no_switch (Switch s) = False"

named_theorems kdefs \<open>definitions of kernel operations that proofs unfold\<close>

lemma kbind_assoc: "kbind (kbind m f) g = kbind m (\<lambda>x s. kbind (f x s) g)"
  by (cases m) auto

lemma kbind_OkE:
  assumes "kbind m f = Ok y t"
  obtains x s where "m = Ok x s" and "f x s = Ok y t"
  using assms by (cases m) auto

lemma kbind_Ok_iff: "kbind m f = Ok y t \<longleftrightarrow> (\<exists>x s. m = Ok x s \<and> f x s = Ok y t)"
  by (cases m) auto

lemma kfor_append: "kfor f (xs @ ys) s = kbind (kfor f xs s) (\<lambda>_ s. kfor f ys s)"
  by (induction xs arbitrary: s) (auto simp: kbind_assoc)

text \<open>A loop whose body always succeeds with a pure update under an invariant is a fold.\<close>

lemma kfor_fold:
  assumes "\<And>i s. i \<in> set is \<Longrightarrow> P s \<Longrightarrow> f i s = Ok () (g i s) \<and> P (g i s)"
    and "P s"
  shows "kfor f is s = Ok () (fold g is s) \<and> P (fold g is s)"
  using assms
proof (induction "is" arbitrary: s)
  case Nil
  then show ?case by simp
next
  case (Cons i "is")
  then have "f i s = Ok () (g i s)" and "P (g i s)" by auto
  with Cons show ?case by simp
qed

lemma kfor_invariant:
  assumes "kfor f is s = Ok () t"
    and "\<And>i s t. i \<in> set is \<Longrightarrow> P s \<Longrightarrow> f i s = Ok () t \<Longrightarrow> P t"
    and "P s"
  shows "P t"
  using assms
proof (induction "is" arbitrary: s)
  case Nil
  then show ?case by simp
next
  case (Cons i "is")
  from Cons.prems(1) obtain s1 where f: "f i s = Ok () s1" and k: "kfor f is s1 = Ok () t"
    by (auto elim: kbind_OkE)
  from f Cons.prems(2,3) have "P s1" by auto
  with Cons.IH [OF k] Cons.prems(2) show ?case by auto
qed

text \<open>
  \<open>kpost Q m\<close>: if the call returns or switches to another thread, the state it leaves satisfies \<open>Q\<close> (the
  partial-correctness reading; what must return is stated by equations to \<open>Ok\<close>).  \<open>kkeeps g v m\<close>: then \<open>g\<close> of that
  state is \<open>v\<close>.
\<close>

primrec kpost :: "('s \<Rightarrow> bool) \<Rightarrow> ('a, 's) res \<Rightarrow> bool" where
  "kpost Q (Ok x s) \<longleftrightarrow> Q s"
| "kpost Q (Panic m) \<longleftrightarrow> True"
| "kpost Q (Spin l) \<longleftrightarrow> True"
| "kpost Q (Switch s) \<longleftrightarrow> Q s"

definition kkeeps :: "('s \<Rightarrow> 'b) \<Rightarrow> 'b \<Rightarrow> ('a, 's) res \<Rightarrow> bool" where
  "kkeeps g v m \<longleftrightarrow> kpost (\<lambda>s. g s = v) m"

named_theorems frame \<open>rules that a call keeps a part of the state\<close>

lemma kkeeps_simps [simp]:
  "kkeeps g v (Ok x s) \<longleftrightarrow> g s = v" "kkeeps g v (Panic e)" "kkeeps g v (Spin l)" "kkeeps g v (Switch s) \<longleftrightarrow> g s = v"
  by (simp_all add: kkeeps_def)

lemma kkeeps_bind [frame]:
  assumes "kkeeps g v m" and "\<And>x s. g s = v \<Longrightarrow> kkeeps g v (f x s)"
  shows "kkeeps g v (kbind m f)"
  using assms by (cases m) auto

lemma kkeeps_kfor [frame]:
  assumes "g s = v" and "\<And>i s. g s = v \<Longrightarrow> kkeeps g v (f i s)"
  shows "kkeeps g v (kfor f is s)"
  using assms by (induction "is" arbitrary: s) (auto intro!: kkeeps_bind)

lemma kkeeps_kscan [frame]:
  assumes "g s = v" and "\<And>i s. g s = v \<Longrightarrow> kkeeps g v (f i s)"
  shows "kkeeps g v (kscan f is s)"
  using assms by (induction "is" arbitrary: s) (auto intro!: kkeeps_bind split: option.splits)

text \<open>The same rules for an invariant \<open>P\<close> that every call keeps.\<close>

lemma kpost_bind:
  assumes "kpost P m" and "\<And>x s. P s \<Longrightarrow> kpost P (f x s)"
  shows "kpost P (kbind m f)"
  using assms by (cases m) auto

lemma kpost_kfor:
  assumes "P s" and "\<And>i s. P s \<Longrightarrow> kpost P (f i s)"
  shows "kpost P (kfor f is s)"
  using assms by (induction "is" arbitrary: s) (auto intro!: kpost_bind)

lemma kpost_kscan:
  assumes "P s" and "\<And>i s. P s \<Longrightarrow> kpost P (f i s)"
  shows "kpost P (kscan f is s)"
  using assms by (induction "is" arbitrary: s) (auto intro!: kpost_bind split: option.splits)

lemma kpost_result: "kpost P m \<Longrightarrow> result_state m = Some t \<Longrightarrow> P t"
  by (cases m) auto

text \<open>\<open>kspec Q R m\<close>: if the call returns \<open>x\<close> in state \<open>s\<close> then \<open>Q x s\<close>; if it gives up the CPU in state \<open>s\<close> then \<open>R s\<close>.\<close>

primrec kspec :: "('a \<Rightarrow> 's \<Rightarrow> bool) \<Rightarrow> ('s \<Rightarrow> bool) \<Rightarrow> ('a, 's) res \<Rightarrow> bool" where
  "kspec Q R (Ok x s) \<longleftrightarrow> Q x s"
| "kspec Q R (Panic m) \<longleftrightarrow> True"
| "kspec Q R (Spin l) \<longleftrightarrow> True"
| "kspec Q R (Switch s) \<longleftrightarrow> R s"

lemma kspec_bind:
  assumes "kspec Q' R m" and "\<And>x s. Q' x s \<Longrightarrow> kspec Q R (f x s)"
  shows "kspec Q R (kbind m f)"
  using assms by (cases m) auto

lemma kspec_mono:
  assumes "kspec Q' R' m" and "\<And>x s. Q' x s \<Longrightarrow> Q x s" and "\<And>s. R' s \<Longrightarrow> R s"
  shows "kspec Q R m"
  using assms by (cases m) auto

lemma kspec_no_switch: "kpost P m \<Longrightarrow> no_switch m \<Longrightarrow> kspec (\<lambda>_. P) (\<lambda>_. False) m"
  by (cases m) auto

named_theorems noswitch \<open>calls that keep the CPU\<close>

lemma no_switch_bind [noswitch]: "no_switch m \<Longrightarrow> (\<And>x s. no_switch (f x s)) \<Longrightarrow> no_switch (kbind m f)"
  by (cases m) auto

lemma no_switch_kfor [noswitch]: "(\<And>i s. no_switch (f i s)) \<Longrightarrow> no_switch (kfor f is s)"
  by (induction "is" arbitrary: s) (auto intro!: no_switch_bind)

lemma no_switch_kscan [noswitch]: "(\<And>i s. no_switch (f i s)) \<Longrightarrow> no_switch (kscan f is s)"
  by (induction "is" arbitrary: s) (auto intro!: no_switch_bind split: option.splits)

lemma kpost_kspec: "kpost P m \<longleftrightarrow> kspec (\<lambda>_. P) P m"
  by (cases m) auto

lemma kkeeps_OkD: "kkeeps g v m \<Longrightarrow> m = Ok x t \<Longrightarrow> g t = v"
  by simp

text \<open>A scan that skips a prefix and stops at the first hit.\<close>

lemma kscan_append:
  "kscan f (xs @ ys) s =
     kbind (kscan f xs s) (\<lambda>r s. case r of None \<Rightarrow> kscan f ys s | Some x \<Rightarrow> Ok (Some x) s)"
  by (induction xs arbitrary: s) (auto simp: kbind_assoc intro!: arg_cong2 [where f = kbind] ext split: option.splits)

lemma kscan_none:
  assumes "\<And>i. i \<in> set is \<Longrightarrow> f i s = Ok None s"
  shows "kscan f is s = Ok None s"
  using assms by (induction "is") auto

lemma kscan_first:
  assumes "\<And>i. i \<in> set xs \<Longrightarrow> f i s = Ok None s" and "f k s = Ok (Some r) t"
  shows "kscan f (xs @ k # ys) s = Ok (Some r) t"
  using assms by (simp add: kscan_append kscan_none)

section \<open>Lists and functions\<close>

lemma upt_split: "k < n \<Longrightarrow> [0..<n] = [0..<k] @ k # [Suc k..<n]"
  by (metis le0 less_imp_le_nat upt_add_eq_append upt_conv_Cons le_add_diff_inverse)

lemma least_index_exists:
  assumes "P k" and "k < n"
  obtains j where "j \<le> k" and "P j" and "\<forall>i<j. \<not> P (i::nat)"
  using assms by (metis LeastI Least_le not_less_Least)

lemma find_first:
  assumes "P k" and "k < n"
  shows "\<exists>i. find P [0..<n] = Some i \<and> P i \<and> i \<le> k"
proof -
  have "find P [0..<n] \<noteq> None" using assms by (auto simp: find_None_iff)
  then obtain i where i: "find P [0..<n] = Some i" by auto
  then have "P i" and "\<forall>j<i. \<not> P j" by (auto simp: find_Some_iff)
  with i assms(1) show ?thesis by (meson not_less)
qed

lemma fun_upd_lookup_same: "f x = y \<Longrightarrow> f(x := y) = f"
  by auto

section \<open>Signed readings of machine words\<close>

lemma mod_shift:
  assumes "(h :: int) \<le> x" and "x < 2 * h"
  shows "(x + h) mod (2 * h) = x - h"
proof -
  have "(x + h) mod (2 * h) = (x - h) mod (2 * h)"
    using mod_add_self2 [of "x - h" "2 * h"] by (simp add: algebra_simps)
  also have "\<dots> = x - h" using assms by (intro mod_pos_pos_trivial) auto
  finally show ?thesis .
qed

lemma sint64: "sint (x :: u64) = (if uint x < 2 ^ 63 then uint x else uint x - 2 ^ 64)"
  using uint_lt2p [of x] mod_shift [of "2 ^ 63" "uint x"]
  by (simp add: sint_uint signed_take_bit_eq_take_bit_shift take_bit_eq_mod)

lemma sint32: "sint (x :: u32) = (if uint x < 2 ^ 31 then uint x else uint x - 2 ^ 32)"
  using uint_lt2p [of x] mod_shift [of "2 ^ 31" "uint x"]
  by (simp add: sint_uint signed_take_bit_eq_take_bit_shift take_bit_eq_mod)

lemma sint64_unat: "sint (x :: u64) = (if unat x < 2 ^ 63 then int (unat x) else int (unat x) - 2 ^ 64)"
proof -
  have "int (unat x) = uint x" by simp
  then have "unat x < 2 ^ 63 \<longleftrightarrow> uint x < 2 ^ 63"
    using of_nat_less_iff [of "unat x" "2 ^ 63", where 'a = int] by simp
  with \<open>int (unat x) = uint x\<close> show ?thesis unfolding sint64 by simp
qed

lemma sint32_unat: "sint (x :: u32) = (if unat x < 2 ^ 31 then int (unat x) else int (unat x) - 2 ^ 32)"
proof -
  have "int (unat x) = uint x" by simp
  then have "unat x < 2 ^ 31 \<longleftrightarrow> uint x < 2 ^ 31"
    using of_nat_less_iff [of "unat x" "2 ^ 31", where 'a = int] by simp
  with \<open>int (unat x) = uint x\<close> show ?thesis unfolding sint32 by simp
qed

lemma unat_bound64: "unat (x :: u64) < 2 ^ 64"
  using unsigned_less [where 'a = nat and w = x] by simp

lemma unat_bound32: "unat (x :: u32) < 2 ^ 32"
  using unsigned_less [where 'a = nat and w = x] by simp

lemma unat_bound8: "unat (x :: u8) < 2 ^ 8"
  using unsigned_less [where 'a = nat and w = x] by simp

lemma sint32_nonneg:
  assumes "0 \<le> sint (n :: u32)"
  shows "unat n < 2 ^ 31 \<and> sint n = int (unat n) \<and> nat (sint n) = unat n \<and> (scast n :: u64) = of_nat (unat n)"
proof -
  have "int (unat n) < 2 ^ 32" using of_nat_less_iff [of "unat n" "2 ^ 32", where 'a = int] unat_bound32 [of n] by simp
  with assms have n: "unat n < 2 ^ 31" and s: "sint n = int (unat n)"
    unfolding sint32_unat by (auto split: if_splits simp del: of_nat_unat)
  have "(scast n :: u64) = of_int (sint n)" by (rule scast_eq)
  then have "(scast n :: u64) = of_nat (unat n)" unfolding s by (simp only: of_int_of_nat_eq)
  then show ?thesis using n s by simp
qed

lemma unat_neg64:
  assumes "sint (x :: u64) < 0"
  shows "int (unat (- x)) = - sint x"
proof -
  from assms have "2 ^ 63 \<le> uint x" and "uint x < 2 ^ 64" and "sint x = uint x - 2 ^ 64"
    using uint_lt2p [of x] by (auto simp: sint64 split: if_splits)
  moreover from this have "(- uint x) mod 2 ^ 64 = 2 ^ 64 - uint x"
    by (simp add: zmod_zminus1_eq_if)
  ultimately show ?thesis by (simp add: uint_word_ariths)
qed

end
