(* ===== verification/Spinlock.thy ===== *)
theory Spinlock
  imports Prelude
begin

text \<open>
  The spinlocks of \<^verbatim>\<open>kernel/spinlock.c\<close> and the per-CPU interrupt bookkeeping of \<^verbatim>\<open>struct cpu\<close>.
  \<open>kspin\<close> is the bottom of the chain of kernel state records: the CPUs, their supervisor interrupt
  enable bits, and the locks.  Every later component extends it.  The hart that executes a function
  (what \<^verbatim>\<open>r_tp()\<close> reads) is the argument \<open>h\<close>.

  The first part is the sequential behaviour of the operations; the second the lock as a protocol
  between CPUs, with the test-and-set and the store to \<^verbatim>\<open>lk->cpu\<close> as separate steps.
\<close>

section \<open>State\<close>

record cpu =
  c_proc :: "nat option"
  c_noff :: int
  c_intena :: bool

record spinlock =
  lk_locked :: bool
  lk_name :: string
  lk_cpu :: "nat option"

record kspin =
  cpus :: "nat \<Rightarrow> cpu"
  sie :: "nat \<Rightarrow> bool"
  locks :: "lockid \<Rightarrow> spinlock"

abbreviation noff :: "nat \<Rightarrow> 'a kspin_scheme \<Rightarrow> int" where
  "noff h s \<equiv> c_noff (cpus s h)"

abbreviation intena :: "nat \<Rightarrow> 'a kspin_scheme \<Rightarrow> bool" where
  "intena h s \<equiv> c_intena (cpus s h)"

section \<open>Operations\<close>

definition intr_get :: "nat \<Rightarrow> 'a kspin_scheme \<Rightarrow> bool" where
  "intr_get h s = sie s h"

definition intr_on :: "nat \<Rightarrow> 'a kspin_scheme \<Rightarrow> 'a kspin_scheme" where
  "intr_on h s = s\<lparr>sie := (sie s)(h := True)\<rparr>"

definition intr_off :: "nat \<Rightarrow> 'a kspin_scheme \<Rightarrow> 'a kspin_scheme" where
  "intr_off h s = s\<lparr>sie := (sie s)(h := False)\<rparr>"

definition initlock :: "lockid \<Rightarrow> string \<Rightarrow> 'a kspin_scheme \<Rightarrow> 'a kspin_scheme" where
  "initlock l name s =
     s\<lparr>locks := (locks s)(l := \<lparr>lk_locked = False, lk_name = name, lk_cpu = None\<rparr>)\<rparr>"

definition push_off :: "nat \<Rightarrow> 'a kspin_scheme \<Rightarrow> 'a kspin_scheme" where
  "push_off h s =
     (let old = intr_get h s;
          s = intr_off h s;
          s = (if noff h s = 0 then s\<lparr>cpus := (cpus s)(h := (cpus s h)\<lparr>c_intena := old\<rparr>)\<rparr> else s)
      in s\<lparr>cpus := (cpus s)(h := (cpus s h)\<lparr>c_noff := noff h s + 1\<rparr>)\<rparr>)"

definition pop_off :: "nat \<Rightarrow> 'a kspin_scheme \<Rightarrow> (unit, 'a kspin_scheme) res" where
  "pop_off h s =
     (if intr_get h s then Panic ''pop_off - interruptible''
      else if noff h s < 1 then Panic ''pop_off''
      else let s = s\<lparr>cpus := (cpus s)(h := (cpus s h)\<lparr>c_noff := noff h s - 1\<rparr>)\<rparr>
           in Ok () (if noff h s = 0 \<and> intena h s then intr_on h s else s))"

definition holding :: "nat \<Rightarrow> lockid \<Rightarrow> 'a kspin_scheme \<Rightarrow> bool" where
  "holding h l s \<longleftrightarrow> lk_locked (locks s l) \<and> lk_cpu (locks s l) = Some h"

definition acquire :: "nat \<Rightarrow> lockid \<Rightarrow> 'a kspin_scheme \<Rightarrow> (unit, 'a kspin_scheme) res" where
  "acquire h l s =
     (let s = push_off h s
      in if holding h l s then Panic ''acquire''
         else if lk_locked (locks s l) then Spin l
         else Ok () (s\<lparr>locks := (locks s)(l := (locks s l)\<lparr>lk_locked := True, lk_cpu := Some h\<rparr>)\<rparr>))"

definition release :: "nat \<Rightarrow> lockid \<Rightarrow> 'a kspin_scheme \<Rightarrow> (unit, 'a kspin_scheme) res" where
  "release h l s =
     (if \<not> holding h l s then Panic ''release''
      else pop_off h (s\<lparr>locks := (locks s)(l := (locks s l)\<lparr>lk_cpu := None, lk_locked := False\<rparr>)\<rparr>))"

definition myproc :: "nat \<Rightarrow> 'a kspin_scheme \<Rightarrow> (nat option, 'a kspin_scheme) res" where
  "myproc h s =
     (let s = push_off h s; p = c_proc (cpus s h)
      in kbind (pop_off h s) (\<lambda>_ s. Ok p s))"

section \<open>Interrupt nesting\<close>

text \<open>
  \<open>cpu_wf h s\<close> is the invariant of the bookkeeping: the depth is not negative, and inside a
  \<^verbatim>\<open>push_off\<close> the interrupts are off.  \<open>settle h s\<close> is \<open>s\<close> with the saved enable bit refreshed at
  depth zero, which is all that a matched pair leaves behind.
\<close>

definition cpu_wf :: "nat \<Rightarrow> 'a kspin_scheme \<Rightarrow> bool" where
  "cpu_wf h s \<longleftrightarrow> 0 \<le> noff h s \<and> (0 < noff h s \<longrightarrow> \<not> sie s h)"

definition settle :: "nat \<Rightarrow> 'a kspin_scheme \<Rightarrow> 'a kspin_scheme" where
  "settle h s =
     (if noff h s = 0 then s\<lparr>cpus := (cpus s)(h := (cpus s h)\<lparr>c_intena := sie s h\<rparr>)\<rparr> else s)"

definition lock_free :: "lockid \<Rightarrow> 'a kspin_scheme \<Rightarrow> bool" where
  "lock_free l s \<longleftrightarrow> \<not> lk_locked (locks s l) \<and> lk_cpu (locks s l) = None"

lemma settle_simps [simp]:
  "sie (settle h s) = sie s" "locks (settle h s) = locks s"
  "noff h' (settle h s) = noff h' s" "c_proc (cpus (settle h s) h') = c_proc (cpus s h')"
  "kspin.more (settle h s) = kspin.more s"
  "lock_free l (settle h s) = lock_free l s" "holding h' l (settle h s) = holding h' l s"
  "cpu_wf h' (settle h s) = cpu_wf h' s"
  by (auto simp: settle_def lock_free_def holding_def cpu_wf_def)

lemma settle_settle [simp]: "settle h (settle h s) = settle h s"
  by (cases s) (auto simp: settle_def)

lemma settle_depth: "0 < noff h s \<Longrightarrow> settle h s = s"
  by (simp add: settle_def)

lemma push_off_wf: "cpu_wf h s \<Longrightarrow> cpu_wf h (push_off h s)"
  by (auto simp: cpu_wf_def push_off_def Let_def intr_off_def)

lemma push_off_simps [simp]:
  "locks (push_off h s) = locks s" "noff h (push_off h s) = noff h s + 1"
  "\<not> sie (push_off h s) h" "c_proc (cpus (push_off h s) h') = c_proc (cpus s h')"
  "kspin.more (push_off h s) = kspin.more s"
  by (auto simp: push_off_def Let_def intr_off_def)

lemma push_pop:
  assumes "cpu_wf h s"
  shows "pop_off h (push_off h s) = Ok () (settle h s)"
proof (cases "noff h s = 0")
  case True
  then show ?thesis
    by (cases s)
       (auto simp: push_off_def pop_off_def Let_def intr_get_def intr_off_def intr_on_def settle_def
             intro!: ext split: if_splits)
next
  case False
  with assms have "0 < noff h s" and "\<not> sie s h"
    by (auto simp: cpu_wf_def)
  then show ?thesis
    by (cases s)
       (auto simp: push_off_def pop_off_def Let_def intr_get_def intr_off_def intr_on_def settle_def
             intro!: ext split: if_splits)
qed

lemma myproc_settle: "cpu_wf h s \<Longrightarrow> myproc h s = Ok (c_proc (cpus s h)) (settle h s)"
  by (simp add: myproc_def push_pop)

section \<open>Critical sections\<close>

text \<open>
  \<open>entered h l s\<close> is the state just after \<open>h\<close> took the free lock \<open>l\<close> in state \<open>s\<close>.  A section
  that touches only later components' fields commutes with it, so releasing the lock leaves the
  section's effect on \<open>settle h s\<close>.
\<close>

definition entered :: "nat \<Rightarrow> lockid \<Rightarrow> 'a kspin_scheme \<Rightarrow> 'a kspin_scheme" where
  "entered h l s =
     (push_off h s)\<lparr>locks := (locks s)(l := (locks s l)\<lparr>lk_locked := True, lk_cpu := Some h\<rparr>)\<rparr>"

lemma entered_simps [simp]:
  "noff h (entered h l s) = noff h s + 1" "\<not> sie (entered h l s) h"
  "c_proc (cpus (entered h l s) h') = c_proc (cpus s h')"
  "kspin.more (entered h l s) = kspin.more s"
  "holding h l (entered h l s)"
  "l \<noteq> l' \<Longrightarrow> holding h' l' (entered h l s) = holding h' l' s"
  "l \<noteq> l' \<Longrightarrow> lock_free l' (entered h l s) = lock_free l' s"
  "\<not> lock_free l (entered h l s)"
  by (auto simp: entered_def holding_def lock_free_def settle_def)

lemma entered_wf [simp]: "cpu_wf h s \<Longrightarrow> cpu_wf h (entered h l s)"
  by (auto simp: cpu_wf_def)

lemma settle_entered [simp]: "cpu_wf h s \<Longrightarrow> settle h (entered h l s) = entered h l s"
  by (simp add: settle_depth cpu_wf_def)

lemma entered_settle [simp]: "entered h l (settle h s) = entered h l s"
  by (cases s) (auto simp: entered_def settle_def push_off_def Let_def intr_get_def intr_off_def)

lemma entered_more:
  "kspin.more_update f (entered h l s) = entered h l (kspin.more_update f s)"
  by (cases s) (simp add: entered_def push_off_def Let_def intr_get_def intr_off_def)

lemma acquire_free: "lock_free l s \<Longrightarrow> acquire h l s = Ok () (entered h l s)"
  by (simp add: acquire_def entered_def lock_free_def holding_def Let_def)

lemma acquire_self: "holding h l s \<Longrightarrow> acquire h l s = Panic ''acquire''"
  by (simp add: acquire_def holding_def Let_def)

lemma acquire_other:
  "lk_locked (locks s l) \<Longrightarrow> \<not> holding h l s \<Longrightarrow> acquire h l s = Spin l"
  by (simp add: acquire_def holding_def Let_def)

lemma release_not_held: "\<not> holding h l s \<Longrightarrow> release h l s = Panic ''release''"
  by (simp add: release_def)

lemma unlock_free:
  "lock_free l s \<Longrightarrow> (locks s l)\<lparr>lk_locked := False, lk_cpu := None\<rparr> = locks s l"
  "lock_free l s \<Longrightarrow> (locks s l)\<lparr>lk_cpu := None, lk_locked := False\<rparr> = locks s l"
  by (cases "locks s l"; auto simp: lock_free_def)+

definition unlocked :: "lockid \<Rightarrow> 'a kspin_scheme \<Rightarrow> 'a kspin_scheme" where
  "unlocked l s = s\<lparr>locks := (locks s)(l := (locks s l)\<lparr>lk_cpu := None, lk_locked := False\<rparr>)\<rparr>"

lemma unlocked_entered:
  assumes "lock_free l s"
  shows "unlocked l (entered h l s) = push_off h s"
  using unlock_free(2) [OF assms]
  by (cases s)
     (simp add: unlocked_def entered_def push_off_def Let_def intr_get_def intr_off_def
       fun_upd_lookup_same)

lemma unlocked_under:
  assumes "l \<noteq> l2"
  shows "unlocked l (entered h l2 s) = entered h l2 (unlocked l s)"
  using assms
  by (cases s)
     (simp add: unlocked_def entered_def push_off_def Let_def intr_get_def intr_off_def fun_upd_twist)

lemma release_held: "holding h l s \<Longrightarrow> release h l s = pop_off h (unlocked l s)"
  by (simp add: release_def unlocked_def)

lemma release_entered:
  assumes "cpu_wf h s" and "lock_free l s"
  shows "release h l (entered h l s) = Ok () (settle h s)"
  using assms by (simp add: release_held unlocked_entered push_pop)

text \<open>Releasing a lock that is held, whatever happened since it was taken.\<close>

lemma release_holding:
  assumes "holding h l s" and "1 \<le> noff h s" and "\<not> sie s h"
  shows "\<exists>t. release h l s = Ok () t \<and> cpu_wf h t \<and> lock_free l t \<and> noff h t = noff h s - 1 \<and>
    (\<forall>l'. l' \<noteq> l \<longrightarrow> locks t l' = locks s l') \<and> (\<forall>h'. c_proc (cpus t h') = c_proc (cpus s h')) \<and>
    kspin.more t = kspin.more s"
  using assms
  by (auto simp: release_held unlocked_def pop_off_def intr_get_def Let_def cpu_wf_def lock_free_def
      intr_on_def)

text \<open>Hand-over-hand: \<open>l\<close> is released while \<open>l2\<close>, taken after it, is kept.\<close>

lemma pop_under:
  assumes "cpu_wf h s"
  shows "pop_off h (entered h l (push_off h s)) = Ok () (entered h l s)"
proof (cases "noff h s = 0")
  case True
  then show ?thesis
    by (cases s)
       (simp add: pop_off_def entered_def push_off_def Let_def intr_get_def intr_off_def)
next
  case False
  with assms have "0 < noff h s" by (simp add: cpu_wf_def)
  with False show ?thesis
    by (cases s)
       (simp add: pop_off_def entered_def push_off_def Let_def intr_get_def intr_off_def add.commute)
qed

lemma release_under:
  assumes "cpu_wf h s" and "lock_free l s" and "l \<noteq> l2"
  shows "release h l (entered h l2 (entered h l s)) = Ok () (entered h l2 s)"
  using assms by (simp add: release_held unlocked_under unlocked_entered pop_under)

section \<open>The interface a lock offers its clients\<close>

text \<open>
  A mutual-exclusion lock, seen from one thread: taking it when it is free succeeds, and giving it
  back after a section that keeps the lock's own state yields the settled state.
\<close>

locale mutex =
  fixes acq rel :: "'s \<Rightarrow> (unit, 's) res"
    and avail :: "'s \<Rightarrow> bool"
    and inside settled :: "'s \<Rightarrow> 's"
  assumes acq_avail: "avail s \<Longrightarrow> acq s = Ok () (inside s)"
    and rel_inside: "avail s \<Longrightarrow> rel (inside s) = Ok () (settled s)"
    and avail_settled: "avail s \<Longrightarrow> avail (settled s)"
begin

lemma critical_section:
  assumes "avail s" and "f (inside s) = Ok x (inside t)" and "avail t"
  shows "kbind (acq s) (\<lambda>_ s. kbind (f s) (\<lambda>x s. kbind (rel s) (\<lambda>_ s. Ok x s))) = Ok x (settled t)"
  using assms by (simp add: acq_avail rel_inside)

lemma reacquire:
  assumes "avail s"
  shows "kbind (acq s) (\<lambda>_ s. kbind (rel s) (\<lambda>_ s. acq s)) = Ok () (inside (settled s))"
  using assms by (simp add: acq_avail rel_inside avail_settled)

end

interpretation spin: mutex "acquire h l" "release h l" "\<lambda>s. cpu_wf h s \<and> lock_free l s"
  "entered h l" "settle h"
  by unfold_locales (auto simp: acquire_free release_entered)

section \<open>Balanced nesting\<close>

text \<open>Any properly nested run of \<^verbatim>\<open>push_off\<close> and \<^verbatim>\<open>pop_off\<close> on one CPU.\<close>

datatype nest = Nest "nest list"

fun run_nest :: "nat \<Rightarrow> nest \<Rightarrow> 'a kspin_scheme \<Rightarrow> (unit, 'a kspin_scheme) res"
  and run_nests :: "nat \<Rightarrow> nest list \<Rightarrow> 'a kspin_scheme \<Rightarrow> (unit, 'a kspin_scheme) res" where
  "run_nest h (Nest ns) s = kbind (run_nests h ns (push_off h s)) (\<lambda>_ s. pop_off h s)"
| "run_nests h [] s = Ok () s"
| "run_nests h (n # ns) s = kbind (run_nest h n s) (\<lambda>_ s. run_nests h ns s)"

lemma run_nests_settles:
  "cpu_wf h s \<Longrightarrow> run_nest h n s = Ok () (settle h s)"
  "cpu_wf h s \<Longrightarrow> run_nests h ns s = Ok () (if ns = [] then s else settle h s)"
proof (induction h n s and h ns s rule: run_nest_run_nests.induct)
  case (1 h ns s)
  then have "settle h (push_off h s) = push_off h s"
    by (simp add: settle_depth cpu_wf_def)
  with 1 show ?case by (simp add: push_off_wf push_pop)
qed (auto)

text \<open>
  properly nested \<^verbatim>\<open>push_off\<close>/\<^verbatim>\<open>pop_off\<close> pairs, of any depth and number, never panic; they
  leave the interrupt enable bit and the nesting depth as they found them.
\<close>

theorem nested_push_off_restores:
  assumes "cpu_wf h s"
  shows "\<exists>t. run_nest h n s = Ok () t \<and> sie t = sie s \<and> noff h t = noff h s \<and> locks t = locks s"
  using run_nests_settles(1) [OF assms, of n] by auto

definition calm :: kspin where
  "calm =
     \<lparr>cpus = \<lambda>_. \<lparr>c_proc = None, c_noff = 0, c_intena = False\<rparr>, sie = \<lambda>_. True,
      locks = \<lambda>_. \<lparr>lk_locked = False, lk_name = [], lk_cpu = None\<rparr>\<rparr>"

theorem nested_push_off_restores_witness:
  "\<exists>t. run_nest 0 (Nest [Nest [], Nest [Nest []]]) calm = Ok () t \<and> sie t 0"
  using nested_push_off_restores [of 0 calm "Nest [Nest [], Nest [Nest []]]"]
  by (auto simp: calm_def cpu_wf_def)

section \<open>Mutual exclusion between CPUs\<close>

text \<open>
  One lock seen by all harts.  \<open>lpc\<close> says where each hart stands in \<^verbatim>\<open>acquire\<close>/\<^verbatim>\<open>release\<close>:
  \<open>Won\<close> is between the successful test-and-set and the store to \<^verbatim>\<open>lk->cpu\<close>, \<open>Leaving\<close> between
  the store of zero to \<^verbatim>\<open>lk->cpu\<close> and the release of \<^verbatim>\<open>lk->locked\<close>.
\<close>

datatype lpc = Outside | Spinning | Won | Inside | Leaving

record lsys =
  lpcs :: "nat \<Rightarrow> lpc"
  llock :: spinlock

definition held_by :: "nat \<Rightarrow> spinlock \<Rightarrow> bool" where
  "held_by h lk \<longleftrightarrow> lk_locked lk \<and> lk_cpu lk = Some h"

inductive lock_step :: "lsys \<Rightarrow> lsys \<Rightarrow> bool" where
  enter: "lpcs s h = Outside \<Longrightarrow> \<not> held_by h (llock s) \<Longrightarrow>
     lock_step s (s\<lparr>lpcs := (lpcs s)(h := Spinning)\<rparr>)"
| swap_busy: "lpcs s h = Spinning \<Longrightarrow> lk_locked (llock s) \<Longrightarrow>
     lock_step s (s\<lparr>llock := (llock s)\<lparr>lk_locked := True\<rparr>\<rparr>)"
| swap_win: "lpcs s h = Spinning \<Longrightarrow> \<not> lk_locked (llock s) \<Longrightarrow>
     lock_step s (s\<lparr>lpcs := (lpcs s)(h := Won), llock := (llock s)\<lparr>lk_locked := True\<rparr>\<rparr>)"
| record_cpu: "lpcs s h = Won \<Longrightarrow>
     lock_step s (s\<lparr>lpcs := (lpcs s)(h := Inside), llock := (llock s)\<lparr>lk_cpu := Some h\<rparr>\<rparr>)"
| clear_cpu: "lpcs s h = Inside \<Longrightarrow> held_by h (llock s) \<Longrightarrow>
     lock_step s (s\<lparr>lpcs := (lpcs s)(h := Leaving), llock := (llock s)\<lparr>lk_cpu := None\<rparr>\<rparr>)"
| unlock: "lpcs s h = Leaving \<Longrightarrow>
     lock_step s (s\<lparr>lpcs := (lpcs s)(h := Outside), llock := (llock s)\<lparr>lk_locked := False\<rparr>\<rparr>)"

inductive lock_reach :: "lsys \<Rightarrow> bool" where
  init: "lock_reach \<lparr>lpcs = \<lambda>_. Outside, llock = \<lparr>lk_locked = False, lk_name = nm, lk_cpu = None\<rparr>\<rparr>"
| step: "lock_reach s \<Longrightarrow> lock_step s t \<Longrightarrow> lock_reach t"

definition owns :: "lpc \<Rightarrow> bool" where
  "owns p \<longleftrightarrow> p = Won \<or> p = Inside \<or> p = Leaving"

text \<open>\<open>owner_is s w\<close>: \<open>w\<close> is the one hart that owns the lock, if any; \<^verbatim>\<open>lk->locked\<close> says whether
  there is one, and \<^verbatim>\<open>lk->cpu\<close> names it exactly while it is inside.\<close>

definition owner_is :: "lsys \<Rightarrow> nat option \<Rightarrow> bool" where
  "owner_is s w \<longleftrightarrow>
     (\<forall>i. owns (lpcs s i) \<longleftrightarrow> w = Some i) \<and> (lk_locked (llock s) \<longleftrightarrow> w \<noteq> None) \<and>
     (\<forall>i. lk_cpu (llock s) = Some i \<longleftrightarrow> lpcs s i = Inside)"

definition lock_inv :: "lsys \<Rightarrow> bool" where
  "lock_inv s \<longleftrightarrow> (\<exists>w. owner_is s w)"

lemma lock_step_inv: "lock_step s t \<Longrightarrow> lock_inv s \<Longrightarrow> lock_inv t"
proof (induction rule: lock_step.induct)
  case (enter s h)
  then obtain w where w: "owner_is s w" by (auto simp: lock_inv_def)
  then have "owns (lpcs s h) \<longleftrightarrow> w = Some h" by (simp add: owner_is_def)
  with w enter have "owner_is (s\<lparr>lpcs := (lpcs s)(h := Spinning)\<rparr>) w"
    by (auto simp: owner_is_def owns_def held_by_def)
  then show ?case by (auto simp: lock_inv_def)
next
  case (swap_busy s h)
  then obtain w where w: "owner_is s w" by (auto simp: lock_inv_def)
  with swap_busy have "owner_is (s\<lparr>llock := (llock s)\<lparr>lk_locked := True\<rparr>\<rparr>) w"
    by (auto simp: owner_is_def owns_def held_by_def)
  then show ?case by (auto simp: lock_inv_def)
next
  case (swap_win s h)
  then obtain w where w: "owner_is s w" by (auto simp: lock_inv_def)
  with swap_win have "owner_is (s\<lparr>lpcs := (lpcs s)(h := Won), llock := (llock s)\<lparr>lk_locked := True\<rparr>\<rparr>) (Some h)"
    by (auto simp: owner_is_def owns_def held_by_def)
  then show ?case by (auto simp: lock_inv_def)
next
  case (record_cpu s h)
  then obtain w where w: "owner_is s w" by (auto simp: lock_inv_def)
  with record_cpu have "w = Some h" by (auto simp: owner_is_def owns_def)
  with w record_cpu have "owner_is (s\<lparr>lpcs := (lpcs s)(h := Inside), llock := (llock s)\<lparr>lk_cpu := Some h\<rparr>\<rparr>) (Some h)"
    by (auto simp: owner_is_def owns_def held_by_def)
  then show ?case by (auto simp: lock_inv_def)
next
  case (clear_cpu s h)
  then obtain w where w: "owner_is s w" by (auto simp: lock_inv_def)
  with clear_cpu have "w = Some h" by (auto simp: owner_is_def owns_def)
  with w clear_cpu have "owner_is (s\<lparr>lpcs := (lpcs s)(h := Leaving), llock := (llock s)\<lparr>lk_cpu := None\<rparr>\<rparr>) (Some h)"
    by (auto simp: owner_is_def owns_def held_by_def)
  then show ?case by (auto simp: lock_inv_def)
next
  case (unlock s h)
  then obtain w where w: "owner_is s w" by (auto simp: lock_inv_def)
  with unlock have "w = Some h" by (auto simp: owner_is_def owns_def)
  with w unlock have "owner_is (s\<lparr>lpcs := (lpcs s)(h := Outside), llock := (llock s)\<lparr>lk_locked := False\<rparr>\<rparr>) None"
    by (auto simp: owner_is_def owns_def held_by_def)
  then show ?case by (auto simp: lock_inv_def)
qed

lemma lock_reach_inv: "lock_reach s \<Longrightarrow> lock_inv s"
proof (induction rule: lock_reach.induct)
  case (init nm)
  have "owner_is \<lparr>lpcs = \<lambda>_. Outside, llock = \<lparr>lk_locked = False, lk_name = nm, lk_cpu = None\<rparr>\<rparr> None"
    by (simp add: owner_is_def owns_def)
  then show ?case by (auto simp: lock_inv_def)
next
  case (step s t)
  then show ?case by (blast intro: lock_step_inv)
qed

text \<open>
  C6: in every state the CPUs can reach, at most one of them is between winning the
  test-and-set and clearing \<^verbatim>\<open>lk->locked\<close>, and \<^verbatim>\<open>holding()\<close> is true on a CPU exactly while that CPU is
  inside its critical section: so \<^verbatim>\<open>acquire\<close> never panics on a CPU outside, nor \<^verbatim>\<open>release\<close> inside.
\<close>

theorem spinlock_mutual_exclusion:
  assumes "lock_reach s"
  shows "(owns (lpcs s i) \<longrightarrow> owns (lpcs s j) \<longrightarrow> i = j) \<and>
         (held_by i (llock s) \<longleftrightarrow> lpcs s i = Inside)"
proof -
  from lock_reach_inv [OF assms] obtain w where w: "owner_is s w"
    by (auto simp: lock_inv_def)
  then have "held_by i (llock s) \<longleftrightarrow> lpcs s i = Inside"
    by (auto simp: owner_is_def owns_def held_by_def)
  with w show ?thesis by (auto simp: owner_is_def)
qed

definition two_contenders :: lsys where
  "two_contenders =
     \<lparr>lpcs = (\<lambda>_. Outside)(0 := Inside, 1 := Spinning),
      llock = \<lparr>lk_locked = True, lk_name = ''kmem'', lk_cpu = Some 0\<rparr>\<rparr>"

lemma two_contenders_reach: "lock_reach two_contenders"
proof -
  let ?lk = "\<lambda>b c. \<lparr>lk_locked = b, lk_name = ''kmem'', lk_cpu = c\<rparr>"
  have "lock_reach \<lparr>lpcs = \<lambda>_. Outside, llock = ?lk False None\<rparr>" by (rule lock_reach.init)
  from lock_reach.step [OF this lock_step.enter [of _ 0]]
  have "lock_reach \<lparr>lpcs = (\<lambda>_. Outside)(0 := Spinning), llock = ?lk False None\<rparr>"
    by (simp add: held_by_def)
  from lock_reach.step [OF this lock_step.swap_win [of _ 0]]
  have "lock_reach \<lparr>lpcs = (\<lambda>_. Outside)(0 := Won), llock = ?lk True None\<rparr>" by simp
  from lock_reach.step [OF this lock_step.record_cpu [of _ 0]]
  have "lock_reach \<lparr>lpcs = (\<lambda>_. Outside)(0 := Inside), llock = ?lk True (Some 0)\<rparr>" by simp
  from lock_reach.step [OF this lock_step.enter [of _ 1]]
  show ?thesis by (simp add: held_by_def two_contenders_def)
qed

theorem spinlock_mutual_exclusion_witness:
  "held_by 0 (llock two_contenders) \<and> \<not> held_by 1 (llock two_contenders)"
  using spinlock_mutual_exclusion [OF two_contenders_reach, of 0 0]
    spinlock_mutual_exclusion [OF two_contenders_reach, of 1 1]
  by (simp add: two_contenders_def)

end
