(* ===== verification/CString.thy ===== *)
theory CString
  imports Prelude
begin

text \<open>
  The memory and string routines of \<^verbatim>\<open>kernel/string.c\<close>.

  The \<^verbatim>\<open>mem*\<close> routines work on byte memory, a function from 64-bit addresses to bytes, because their
  arguments may overlap.  The \<^verbatim>\<open>str*\<close> routines work on character arrays given as lists; an array
  stands for what a pointer to its first element can read, with the terminating NUL past its end.
\<close>

type_synonym mem = "u64 \<Rightarrow> u8"

section \<open>Byte memory\<close>

primrec memset_loop :: "u64 \<Rightarrow> u8 \<Rightarrow> nat \<Rightarrow> mem \<Rightarrow> mem" where
  "memset_loop dst c 0 m = m"
| "memset_loop dst c (Suc n) m = (memset_loop dst c n m)(dst + of_nat n := c)"

definition memset :: "u64 \<Rightarrow> u8 \<Rightarrow> nat \<Rightarrow> mem \<Rightarrow> mem" where
  "memset dst c n m = memset_loop dst c n m"

primrec memcmp :: "mem \<Rightarrow> u64 \<Rightarrow> u64 \<Rightarrow> nat \<Rightarrow> int" where
  "memcmp m s1 s2 0 = 0"
| "memcmp m s1 s2 (Suc n) =
     (if m s1 \<noteq> m s2 then uint (m s1) - uint (m s2) else memcmp m (s1 + 1) (s2 + 1) n)"

primrec copy_up :: "u64 \<Rightarrow> u64 \<Rightarrow> nat \<Rightarrow> mem \<Rightarrow> mem" where
  "copy_up d s 0 m = m"
| "copy_up d s (Suc n) m = copy_up (d + 1) (s + 1) n (m(d := m s))"

primrec copy_down :: "u64 \<Rightarrow> u64 \<Rightarrow> nat \<Rightarrow> mem \<Rightarrow> mem" where
  "copy_down d s 0 m = m"
| "copy_down d s (Suc n) m = copy_down (d - 1) (s - 1) n (m(d - 1 := m (s - 1)))"

definition memmove :: "u64 \<Rightarrow> u64 \<Rightarrow> nat \<Rightarrow> mem \<Rightarrow> mem" where
  "memmove dst src n m =
     (if n = 0 then m
      else if src < dst \<and> src + of_nat n > dst
      then copy_down (dst + of_nat n) (src + of_nat n) n m
      else copy_up dst src n m)"

definition memcpy :: "u64 \<Rightarrow> u64 \<Rightarrow> nat \<Rightarrow> mem \<Rightarrow> mem" where
  "memcpy dst src n m = memmove dst src n m"

section \<open>Character arrays\<close>

definition chd :: "string \<Rightarrow> char" where
  "chd s = (case s of [] \<Rightarrow> NUL | c # _ \<Rightarrow> c)"

definition cstr :: "string \<Rightarrow> string" where
  "cstr s = takeWhile (\<lambda>c. c \<noteq> NUL) s"

definition uchar :: "char \<Rightarrow> int" where
  "uchar c = of_char c"

primrec strncmp :: "string \<Rightarrow> string \<Rightarrow> nat \<Rightarrow> int" where
  "strncmp p q 0 = 0"
| "strncmp p q (Suc n) =
     (if chd p \<noteq> NUL \<and> chd p = chd q then strncmp (tl p) (tl q) n
      else uchar (chd p) - uchar (chd q))"

primrec strncpy_loop :: "nat \<Rightarrow> string \<Rightarrow> string" where
  "strncpy_loop 0 t = []"
| "strncpy_loop (Suc n) t =
     (if chd t \<noteq> NUL then chd t # strncpy_loop n (tl t) else NUL # replicate n NUL)"

definition strncpy :: "string \<Rightarrow> string \<Rightarrow> nat \<Rightarrow> string" where
  "strncpy s t n = strncpy_loop n t @ drop n s"

primrec safestrcpy_loop :: "nat \<Rightarrow> string \<Rightarrow> string" where
  "safestrcpy_loop 0 t = [NUL]"
| "safestrcpy_loop (Suc k) t =
     (if chd t \<noteq> NUL then chd t # safestrcpy_loop k (tl t) else [NUL, NUL])"

definition safestrcpy :: "string \<Rightarrow> string \<Rightarrow> int \<Rightarrow> string" where
  "safestrcpy s t n =
     (if n \<le> 0 then s
      else let w = safestrcpy_loop (nat (n - 1)) t in w @ drop (length w) s)"

fun strlen :: "string \<Rightarrow> nat" where
  "strlen [] = 0"
| "strlen (c # s) = (if c = NUL then 0 else Suc (strlen s))"

section \<open>Facts on memory\<close>

text \<open>\<open>in_range d n a\<close>: \<open>a\<close> is one of the \<open>n\<close> bytes from \<open>d\<close> on.\<close>

definition in_range :: "u64 \<Rightarrow> nat \<Rightarrow> u64 \<Rightarrow> bool" where
  "in_range d n a \<longleftrightarrow> unat (a - d) < n"

lemma in_range_0 [simp]: "\<not> in_range d 0 a"
  by (simp add: in_range_def)

lemma unat_plus_of_nat:
  "unat (d :: u64) + n < 2 ^ 64 \<Longrightarrow> unat (d + of_nat n) = unat d + n"
  by (simp add: unat_word_ariths unat_of_nat)

lemma in_range_Suc:
  assumes "n < 2 ^ 64"
  shows "in_range d (Suc n) a \<longleftrightarrow> a = d \<or> in_range (d + 1) n a"
proof (cases "a = d")
  case True
  then show ?thesis by (simp add: in_range_def)
next
  case False
  then have "a - d \<noteq> 0" by simp
  then have "unat (a - (d + 1)) = unat (a - d) - 1"
    by (metis diff_diff_eq unat_minus_one)
  moreover have "unat (a - d) > 0"
    using \<open>a - d \<noteq> 0\<close> by (simp add: unat_gt_0)
  ultimately show ?thesis
    using False by (auto simp: in_range_def)
qed

lemma unat_diff_eq_iff:
  assumes "n < 2 ^ 64"
  shows "unat ((a :: u64) - d) = n \<longleftrightarrow> a = d + of_nat n"
proof
  assume "unat (a - d) = n"
  then have "of_nat n = a - d" by auto
  then show "a = d + of_nat n" by simp
next
  assume "a = d + of_nat n"
  with assms show "unat (a - d) = n" by (simp add: unat_of_nat)
qed

lemma in_range_last:
  assumes "n < 2 ^ 64"
  shows "in_range d (Suc n) a \<longleftrightarrow> a = d + of_nat n \<or> in_range d n a"
  using unat_diff_eq_iff [OF assms, of a d] by (auto simp: in_range_def)

lemma memset_loop_apply:
  "n \<le> 2 ^ 64 \<Longrightarrow> memset_loop d c n m a = (if in_range d n a then c else m a)"
  by (induction n) (auto simp: in_range_last)

lemma memset_apply: "n \<le> 2 ^ 64 \<Longrightarrow> memset d c n m a = (if in_range d n a then c else m a)"
  by (simp add: memset_def memset_loop_apply)

text \<open>An ascending copy is right when no source byte lies in the part already written.\<close>

lemma copy_up_apply:
  assumes "n \<le> 2 ^ 64" and "\<And>i j. i < j \<Longrightarrow> j < n \<Longrightarrow> s + of_nat j \<noteq> d + of_nat i"
  shows "copy_up d s n m a = (if in_range d n a then m (s + (a - d)) else m a)"
  using assms
proof (induction n arbitrary: d s m)
  case 0
  then show ?case by simp
next
  case (Suc n)
  have sep: "s + 1 + of_nat j \<noteq> d + 1 + of_nat i" if "i < j" "j < n" for i j
    using Suc.prems(2) [of "Suc i" "Suc j"] that by (simp add: algebra_simps)
  have IH: "copy_up (d + 1) (s + 1) n (m(d := m s)) a =
      (if in_range (d + 1) n a then (m(d := m s)) (s + 1 + (a - (d + 1))) else (m(d := m s)) a)"
    using Suc.IH [OF _ sep] Suc.prems(1) by simp
  show ?case
  proof (cases "in_range (d + 1) n a")
    case True
    define k where "k = unat (a - (d + 1))"
    from True have k: "k < n" by (simp add: in_range_def k_def)
    have a: "a = d + of_nat (Suc k)"
      by (simp add: k_def)
    have "s + of_nat (Suc k) \<noteq> d + of_nat 0"
      using Suc.prems(2) [of 0 "Suc k"] k by simp
    with True IH Suc.prems(1) a show ?thesis
      by (simp add: in_range_Suc algebra_simps)
  next
    case False
    with IH Suc.prems(1) show ?thesis by (auto simp: in_range_Suc)
  qed
qed

text \<open>A descending copy is right when no source byte lies in the part already written.\<close>

lemma copy_down_apply:
  assumes "n \<le> 2 ^ 64" and "\<And>i j. i < j \<Longrightarrow> j < n \<Longrightarrow> s + of_nat i \<noteq> d + of_nat j"
  shows "copy_down (d + of_nat n) (s + of_nat n) n m a =
           (if in_range d n a then m (s + (a - d)) else m a)"
  using assms
proof (induction n arbitrary: m)
  case 0
  then show ?case by simp
next
  case (Suc n)
  let ?m = "m(d + of_nat n := m (s + of_nat n))"
  have IH: "copy_down (d + of_nat n) (s + of_nat n) n ?m a =
      (if in_range d n a then ?m (s + (a - d)) else ?m a)"
    using Suc.IH Suc.prems by simp
  have step: "copy_down (d + of_nat (Suc n)) (s + of_nat (Suc n)) (Suc n) m a =
      copy_down (d + of_nat n) (s + of_nat n) n ?m a"
    by simp
  show ?case
  proof (cases "in_range d n a")
    case True
    define k where "k = unat (a - d)"
    from True have k: "k < n" by (simp add: in_range_def k_def)
    have a: "a - d = of_nat k" by (simp add: k_def)
    have "s + of_nat k \<noteq> d + of_nat n"
      using Suc.prems(2) [of k n] k by simp
    with True IH step Suc.prems(1) a show ?thesis
      by (simp add: in_range_last)
  next
    case False
    with IH step Suc.prems(1) show ?thesis by (auto simp: in_range_last)
  qed
qed

lemma memmove_apply:
  assumes "unat src + n \<le> 2 ^ 64 - 1" and "unat dst + n \<le> 2 ^ 64 - 1"
  shows "memmove dst src n m a = (if in_range dst n a then m (src + (a - dst)) else m a)"
proof -
  have at: "unat (p + of_nat k :: u64) = unat p + k" if "k \<le> n" "p = src \<or> p = dst" for p k
    using assms that by (intro unat_plus_of_nat) auto
  have le: "n \<le> 2 ^ 64" using assms by simp
  show ?thesis
  proof (cases "src < dst \<and> src + of_nat n > dst")
    case True
    have "src + of_nat i \<noteq> dst + of_nat j" if "i < j" "j < n" for i j
    proof
      assume "src + of_nat i = dst + of_nat j"
      then have "unat src + i = unat dst + j" using that by (metis at less_imp_le order.strict_trans)
      with True that show False by (simp add: word_less_nat_alt)
    qed
    then show ?thesis
      using True le by (simp add: memmove_def copy_down_apply)
  next
    case False
    have "src + of_nat j \<noteq> dst + of_nat i" if "i < j" "j < n" for i j
    proof
      assume "src + of_nat j = dst + of_nat i"
      then have "unat src + j = unat dst + i" using that by (metis at less_imp_le order.strict_trans)
      moreover have "unat (src + of_nat n) = unat src + n" by (simp add: at)
      ultimately show False using False that by (auto simp: word_less_nat_alt)
    qed
    then show ?thesis
      using False le by (auto simp: memmove_def copy_up_apply)
  qed
qed

text \<open>
  \<^verbatim>\<open>memmove\<close> copies \<open>n\<close> bytes from \<open>src\<close> to \<open>dst\<close> and changes nothing else, also when the two
  regions overlap in either direction, as long as neither wraps around the address space.
\<close>

theorem memmove_correct:
  assumes "unat src + n \<le> 2 ^ 64 - 1" and "unat dst + n \<le> 2 ^ 64 - 1"
  shows "memmove dst src n m a = (if in_range dst n a then m (src + (a - dst)) else m a)"
  using assms by (rule memmove_apply)

theorem memmove_correct_witness:
  "memmove 0x1001 0x1000 4 (\<lambda>a. ucast a) 0x1003 = (2 :: u8)"
  by (simp add: memmove_correct in_range_def)

lemma memcmp_eq_0_iff:
  "n \<le> 2 ^ 64 \<Longrightarrow> memcmp m a b n = 0 \<longleftrightarrow> (\<forall>i<n. m (a + of_nat i) = m (b + of_nat i))"
proof (induction n arbitrary: a b)
  case 0
  then show ?case by simp
next
  case (Suc n)
  have "(\<forall>i<Suc n. m (a + of_nat i) = m (b + of_nat i)) \<longleftrightarrow>
      m a = m b \<and> (\<forall>i<n. m (a + 1 + of_nat i) = m (b + 1 + of_nat i))"
    by (simp add: All_less_Suc2 algebra_simps)
  with Suc show ?case by (auto simp: word_uint_eq_iff)
qed

section \<open>Facts on character arrays\<close>

lemma cstr_simps [simp]:
  "cstr [] = []" "cstr (c # s) = (if c = NUL then [] else c # cstr s)"
  by (simp_all add: cstr_def)

lemma chd_simps [simp]: "chd [] = NUL" "chd (c # s) = c"
  by (simp_all add: chd_def)

lemma cstr_unfold: "cstr s = (if chd s = NUL then [] else chd s # cstr (tl s))"
  by (cases s) auto

lemma cstr_no_NUL: "NUL \<notin> set (cstr s)"
  by (induction s) auto

lemma strlen_cstr: "strlen s = length (cstr s)"
  by (induction s) auto

lemma uchar_eq_iff [simp]: "uchar a = uchar b \<longleftrightarrow> a = b"
  by (simp add: uchar_def)

lemma cstr_replicate_NUL [simp]: "cstr (replicate n NUL) = []" "cstr (replicate n NUL @ s) = (if n = 0 then cstr s else [])"
  by (cases n; simp)+

lemma strncpy_loop_length [simp]: "length (strncpy_loop n t) = n"
  by (induction n arbitrary: t) auto

lemma cstr_strncpy_loop: "cstr (strncpy_loop n t) = take n (cstr t)"
proof (induction n arbitrary: t)
  case (Suc n)
  then show ?case by (cases t) auto
qed simp

text \<open>\<^verbatim>\<open>strncmp\<close> returns zero exactly when the strings agree up to \<open>n\<close> characters.\<close>

lemma strncmp_eq_0_iff: "strncmp p q n = 0 \<longleftrightarrow> take n (cstr p) = take n (cstr q)"
proof (induction n arbitrary: p q)
  case 0
  then show ?case by simp
next
  case (Suc n)
  show ?case
    using Suc by (cases p; cases q) auto
qed

lemma cstr_safestrcpy_loop: "cstr (safestrcpy_loop k t @ u) = take k (cstr t)"
proof (induction k arbitrary: t)
  case (Suc k)
  then show ?case by (cases t) auto
qed simp

lemma safestrcpy_loop_length: "length (safestrcpy_loop k t) \<le> Suc k"
  by (induction k arbitrary: t) auto

text \<open>
  \<^verbatim>\<open>safestrcpy(s, t, n)\<close> with a positive \<open>n\<close> no larger than the array leaves in \<open>s\<close> the first
  \<open>n - 1\<close> characters of \<open>t\<close>, NUL-terminated inside the array, and does not grow the array.
\<close>

theorem safestrcpy_correct:
  assumes "0 < n" and "n \<le> int (length s)"
  shows "cstr (safestrcpy s t n) = take (nat n - 1) (cstr t) \<and>
         length (safestrcpy s t n) = length s \<and> strlen (safestrcpy s t n) < nat n"
proof -
  have w: "length (safestrcpy_loop (nat (n - 1)) t) \<le> length s"
    using safestrcpy_loop_length [of "nat (n - 1)" t] assms by linarith
  have "cstr (safestrcpy s t n) = take (nat n - 1) (cstr t)"
    using assms by (simp add: safestrcpy_def Let_def cstr_safestrcpy_loop nat_diff_distrib)
  with w assms show ?thesis
    by (auto simp: safestrcpy_def Let_def strlen_cstr)
qed

theorem safestrcpy_correct_witness:
  "cstr (safestrcpy (replicate 16 NUL) ''llmhelper-with-a-long-name'' 16) = ''llmhelper-with-''"
  using safestrcpy_correct [of 16 "replicate 16 NUL" "''llmhelper-with-a-long-name''"] by simp

end
