(* ===== verification/Printf.thy ===== *)
theory Printf
  imports Spinlock CString
begin

text \<open>
  Formatted output: \<^verbatim>\<open>kernel/printf.c\<close> with \<^verbatim>\<open>consputc\<close> and \<^verbatim>\<open>uartputc_sync\<close> below it, and the user
  library's \<^verbatim>\<open>user/printf.c\<close>.  The pure part is which characters a format and its arguments give;
  \<open>None\<close> stands for arguments that do not fit the format, which C leaves undefined.  The kernel part
  appends them to the UART's output under \<^verbatim>\<open>pr.lock\<close>.  A panic ends the model's run, so
  \<^verbatim>\<open>panicking\<close> and \<^verbatim>\<open>panicked\<close> are zero in every modelled state.
\<close>

section \<open>Numbers\<close>

text \<open>The loop of \<^verbatim>\<open>printint\<close>: the digits in the order they enter \<^verbatim>\<open>buf\<close>, least significant first.
  The base is 10 or 16; bases below 2 are never used (the C loop would not end).\<close>

function buf_digits :: "string \<Rightarrow> nat \<Rightarrow> nat \<Rightarrow> string" where
  "buf_digits ds b x =
     (ds ! (x mod b)) # (if x div b = 0 \<or> b < 2 then [] else buf_digits ds b (x div b))"
  by pat_completeness auto
termination
proof (relation "measure (\<lambda>(ds, b, x). x)")
  fix ds :: string and b x :: nat
  assume "\<not> (x div b = 0 \<or> b < 2)"
  moreover from this have "0 < x" by (cases x) auto
  ultimately show "((ds, b, x div b), ds, b, x) \<in> measure (\<lambda>(ds, b, x). x)" by simp
qed simp

declare buf_digits.simps [simp del]

definition printint_buf :: "string \<Rightarrow> u64 \<Rightarrow> nat \<Rightarrow> bool \<Rightarrow> string" where
  "printint_buf ds xx b sign =
     (let neg = sign \<and> sint xx < 0;
          x = (if neg then - xx else xx)
      in buf_digits ds b (unat x) @ (if neg then ''-'' else ''''))"

definition printint :: "string \<Rightarrow> u64 \<Rightarrow> nat \<Rightarrow> bool \<Rightarrow> string" where
  "printint ds xx b sign = rev (printint_buf ds xx b sign)"

primrec hex_digits :: "string \<Rightarrow> nat \<Rightarrow> u64 \<Rightarrow> string" where
  "hex_digits ds 0 x = []"
| "hex_digits ds (Suc n) x = (ds ! unat (drop_bit 60 x)) # hex_digits ds n (push_bit 4 x)"

definition printptr :: "string \<Rightarrow> u64 \<Rightarrow> string" where
  "printptr ds x = ''0x'' @ hex_digits ds 16 x"

definition kdigits :: string where
  "kdigits = ''0123456789abcdef''"

definition udigits :: string where
  "udigits = ''0123456789ABCDEF''"

section \<open>Formats\<close>

datatype arg = AWord u64 | AStr "string option"

text \<open>\<open>va_arg\<close> as a signed int, an unsigned 32-bit and a 64-bit value.\<close>

definition arg_int :: "u64 \<Rightarrow> u64" where
  "arg_int w = scast (ucast w :: u32)"

definition arg_uint32 :: "u64 \<Rightarrow> u64" where
  "arg_uint32 w = ucast (ucast w :: u32)"

definition arg_string :: "string option \<Rightarrow> string" where
  "arg_string s = (case s of None \<Rightarrow> ''(null)'' | Some t \<Rightarrow> cstr t)"

definition consputc :: "u32 \<Rightarrow> string" where
  "consputc c =
     (if c = 0x100 then [char_of (8 :: nat), CHR '' '', char_of (8 :: nat)]
      else [char_of (unat (ucast c :: u8))])"

datatype conv = CInt | CLong nat bool | CUint nat | CPtr | CChar | CStr | CPercent | CUnknown

text \<open>The conversion a \<^verbatim>\<open>%\<close> is followed by, and how many characters of the format it takes.
  \<open>CLong b sign\<close> covers \<^verbatim>\<open>%ld %lld %lu %llu %lx %llx\<close>.\<close>

definition classify :: "char \<Rightarrow> char \<Rightarrow> char \<Rightarrow> conv \<times> nat" where
  "classify c0 c1 c2 =
     (if c0 = CHR ''d'' then (CInt, 1)
      else if c0 = CHR ''l'' \<and> c1 = CHR ''d'' then (CLong 10 True, 2)
      else if c0 = CHR ''l'' \<and> c1 = CHR ''l'' \<and> c2 = CHR ''d'' then (CLong 10 True, 3)
      else if c0 = CHR ''u'' then (CUint 10, 1)
      else if c0 = CHR ''l'' \<and> c1 = CHR ''u'' then (CLong 10 False, 2)
      else if c0 = CHR ''l'' \<and> c1 = CHR ''l'' \<and> c2 = CHR ''u'' then (CLong 10 False, 3)
      else if c0 = CHR ''x'' then (CUint 16, 1)
      else if c0 = CHR ''l'' \<and> c1 = CHR ''x'' then (CLong 16 False, 2)
      else if c0 = CHR ''l'' \<and> c1 = CHR ''l'' \<and> c2 = CHR ''x'' then (CLong 16 False, 3)
      else if c0 = CHR ''p'' then (CPtr, 1)
      else if c0 = CHR ''c'' then (CChar, 1)
      else if c0 = CHR ''s'' then (CStr, 1)
      else if c0 = CHR ''%'' then (CPercent, 1)
      else (CUnknown, 1))"


text \<open>What a conversion prints, and the arguments it leaves.  \<open>put\<close> is the character output routine.\<close>

fun convert :: "string \<Rightarrow> (u32 \<Rightarrow> string) \<Rightarrow> char \<Rightarrow> conv \<Rightarrow> arg list \<Rightarrow> (string \<times> arg list) option" where
  "convert ds put c0 CInt (AWord w # as) = Some (printint ds (arg_int w) 10 True, as)"
| "convert ds put c0 (CLong b sign) (AWord w # as) = Some (printint ds w b sign, as)"
| "convert ds put c0 (CUint b) (AWord w # as) = Some (printint ds (arg_uint32 w) b False, as)"
| "convert ds put c0 CPtr (AWord w # as) = Some (printptr ds w, as)"
| "convert ds put c0 CChar (AWord w # as) = Some (put (ucast w), as)"
| "convert ds put c0 CStr (AStr s # as) = Some (arg_string s, as)"
| "convert ds put c0 CPercent as = Some (''%'', as)"
| "convert ds put c0 CUnknown as = Some ([CHR ''%'', c0], as)"
| "convert ds put c0 _ _ = None"

definition emit :: "string \<Rightarrow> string option \<Rightarrow> string option" where
  "emit out rest = map_option (\<lambda>r. out @ r) rest"

text \<open>The kernel's \<^verbatim>\<open>printf\<close>: one pass with two characters of lookahead.\<close>

function printf_fmt :: "string \<Rightarrow> string \<Rightarrow> arg list \<Rightarrow> string option" where
  "printf_fmt ds fmt as =
     (if chd fmt = NUL then Some []
      else if chd fmt \<noteq> CHR ''%'' then emit (consputc (of_char (chd fmt))) (printf_fmt ds (tl fmt) as)
      else
        let rest = tl fmt;
            c0 = chd rest;
            c1 = (if c0 \<noteq> NUL then chd (tl rest) else NUL);
            c2 = (if c1 \<noteq> NUL then chd (tl (tl rest)) else NUL)
        in if c0 = NUL then Some []
           else case classify c0 c1 c2 of (cv, k) \<Rightarrow>
             (case convert ds consputc c0 cv as of
                None \<Rightarrow> None
              | Some (out, as') \<Rightarrow> emit out (printf_fmt ds (drop k rest) as')))"
  by pat_completeness auto
termination
proof (relation "measure (\<lambda>(ds, fmt, as). length fmt)", goal_cases)
  case 1
  then show ?case by simp
next
  case (2 ds fmt as)
  then show ?case by (cases fmt) auto
next
  case (3 ds fmt as)
  then show ?case by (cases fmt) auto
qed

declare printf_fmt.simps [simp del]

text \<open>The user library's \<^verbatim>\<open>vprintf\<close>: a two-state machine (\<open>pct\<close>: the last character was an
  unhandled \<^verbatim>\<open>%\<close>) that skips the extra letters of long conversions.\<close>

definition uputc :: "u32 \<Rightarrow> string" where
  "uputc c = [char_of (unat (ucast c :: u8))]"

function vprintf_fmt :: "string \<Rightarrow> bool \<Rightarrow> string \<Rightarrow> arg list \<Rightarrow> string option" where
  "vprintf_fmt ds pct fmt as =
     (if chd fmt = NUL then Some []
      else
        let c0 = chd fmt; rest = tl fmt
        in if \<not> pct
           then (if c0 = CHR ''%'' then vprintf_fmt ds True rest as
                 else emit (uputc (of_char c0)) (vprintf_fmt ds False rest as))
           else
             let c1 = chd rest;
                 c2 = (if c1 \<noteq> NUL then chd (tl rest) else NUL)
             in case classify c0 c1 c2 of (cv, k) \<Rightarrow>
                  (case convert ds uputc c0 cv as of
                     None \<Rightarrow> None
                   | Some (out, as') \<Rightarrow> emit out (vprintf_fmt ds False (drop (k - 1) rest) as')))"
  by pat_completeness auto
termination
proof (relation "measure (\<lambda>(ds, pct, fmt, as). length fmt)", goal_cases)
  case 1
  then show ?case by simp
next
  case (2 ds pct fmt as)
  then show ?case by (cases fmt) auto
next
  case (3 ds pct fmt as)
  then show ?case by (cases fmt) auto
next
  case (4 ds pct fmt as)
  then show ?case by (cases fmt) auto
qed

declare vprintf_fmt.simps [simp del]

section \<open>The kernel's printf\<close>

record kuart = kspin +
  uart_out :: string

definition uartputc_sync :: "nat \<Rightarrow> char \<Rightarrow> 'a kuart_scheme \<Rightarrow> (unit, 'a kuart_scheme) res" where
  "uartputc_sync h c s =
     (let s = push_off h s
      in pop_off h (s\<lparr>uart_out := uart_out s @ [c]\<rparr>))"

definition putstr :: "nat \<Rightarrow> string \<Rightarrow> 'a kuart_scheme \<Rightarrow> (unit, 'a kuart_scheme) res" where
  "putstr h out s = kfor (uartputc_sync h) out s"

definition printf :: "nat \<Rightarrow> string \<Rightarrow> arg list \<Rightarrow> 'a kuart_scheme \<Rightarrow> (unit, 'a kuart_scheme) res" where
  "printf h fmt as s =
     kbind (acquire h LPr s) (\<lambda>_ s.
     (case printf_fmt kdigits fmt as of
        None \<Rightarrow> Panic ''printf: undefined va_arg''
      | Some out \<Rightarrow> kbind (putstr h out s) (\<lambda>_ s. release h LPr s)))"

section \<open>Properties\<close>

lemma buf_digits_length:
  "2 \<le> b \<Longrightarrow> x < b ^ Suc k \<Longrightarrow> length (buf_digits ds b x) \<le> Suc k"
proof (induction k arbitrary: x)
  case 0
  then show ?case by (subst buf_digits.simps) simp
next
  case (Suc k)
  have "x div b < b ^ Suc k"
    using Suc.prems by (simp add: div_less_iff_less_mult mult.commute)
  with Suc have "length (buf_digits ds b (x div b)) \<le> Suc k" by simp
  then show ?case by (subst buf_digits.simps) auto
qed

text \<open>
  for every 64-bit value, base 10 or 16, signed or not, \<^verbatim>\<open>printint\<close> puts at most 20 characters
  into its 20-byte buffer, sign included.
\<close>

theorem printint_buffer_fits:
  assumes "b = 10 \<or> b = 16"
  shows "length (printint_buf ds xx b sign) \<le> 20"
proof -
  have b: "2 \<le> b" and lo: "2 ^ 63 < b ^ Suc 18" and hi: "2 ^ 64 \<le> b ^ Suc 19"
    using assms by auto
  have "unat xx < b ^ Suc 19" using unat_bound64 [of xx] hi by simp
  then have pos: "length (buf_digits ds b (unat xx)) \<le> 20"
    using buf_digits_length [OF b, of "unat xx" 19 ds] by simp
  have neg: "length (buf_digits ds b (unat (- xx))) \<le> 19" if "sint xx < 0"
  proof -
    have "int (unat (- xx)) \<le> int (2 ^ 63)"
      using unat_neg64 [OF that] sint_greater_eq [of xx] by simp
    then have "unat (- xx) \<le> 2 ^ 63" by (simp only: of_nat_le_iff)
    then have "unat (- xx) < b ^ Suc 18" using lo by linarith
    then show ?thesis using buf_digits_length [OF b, of "unat (- xx)" 18 ds] by simp
  qed
  from pos neg show ?thesis by (auto simp: printint_buf_def Let_def)
qed

theorem printint_buffer_fits_witness:
  "length (printint_buf kdigits (- (2 ^ 63)) 10 True) \<le> 20"
  by (rule printint_buffer_fits) simp

definition plain_args :: "arg list \<Rightarrow> bool" where
  "plain_args as \<longleftrightarrow> list_all (\<lambda>a. case a of AWord w \<Rightarrow> ucast w \<noteq> (0x100 :: u32) | AStr s \<Rightarrow> True) as"

lemma consputc_uputc: "c \<noteq> 0x100 \<Longrightarrow> consputc c = uputc c"
  by (simp add: consputc_def uputc_def)

lemma char_not_backspace: "(of_char c :: u32) \<noteq> 0x100"
proof
  assume "(of_char c :: u32) = 0x100"
  then have "(of_nat (of_char c) :: u32) = of_nat 256" by (simp only: of_nat_of_char) simp
  then have "unat (of_nat (of_char c) :: u32) = unat (of_nat 256 :: u32)" by simp
  moreover have "(of_char c :: nat) < 256" by simp
  ultimately show False by (simp add: unat_of_nat)
qed

lemma convert_plain:
  assumes "plain_args as"
  shows "convert ds consputc c0 cv as = convert ds uputc c0 cv as"
  using assms
  by (cases cv; cases as; cases "hd as") (auto simp: plain_args_def consputc_uputc)

lemma convert_plain_rest:
  assumes "convert ds put c0 cv as = Some (out, as')" and "plain_args as"
  shows "plain_args as'"
  using assms
  by (cases cv; cases as; cases "hd as") (auto simp: plain_args_def)

lemma classify_pos: "classify c0 c1 c2 = (cv, k) \<Longrightarrow> 1 \<le> k"
  by (auto simp: classify_def split: if_splits)

text \<open>
  the kernel's one-pass \<^verbatim>\<open>printf\<close> and the user library's state machine \<^verbatim>\<open>vprintf\<close> print the same
  characters for every format and arguments, with the same table of digits, as long as no \<^verbatim>\<open>%c\<close>
  argument is the console's \<^verbatim>\<open>BACKSPACE\<close> code 0x100.
\<close>

theorem printf_agrees_with_vprintf:
  assumes "plain_args as"
  shows "printf_fmt ds fmt as = vprintf_fmt ds False fmt as"
  using assms
proof (induction ds fmt as rule: printf_fmt.induct)
  case (1 ds fmt as)
  show ?case
  proof (cases "chd fmt = CHR ''%'' \<and> chd (tl fmt) \<noteq> NUL")
    case False
    with 1(1) [OF _ _ 1(3)] show ?thesis
      by (subst printf_fmt.simps, subst vprintf_fmt.simps)
         (auto simp: Let_def consputc_uputc char_not_backspace vprintf_fmt.simps [of ds True])
  next
    case True
    let ?r = "tl fmt"
    let ?c1 = "chd (tl ?r)" and ?c2 = "if chd (tl ?r) \<noteq> NUL then chd (tl (tl ?r)) else NUL"
    obtain cv k where c: "classify (chd ?r) ?c1 ?c2 = (cv, k)" by fastforce
    have k: "drop (k - 1) (tl ?r) = drop k ?r"
      using classify_pos [OF c] by (cases k) (auto simp: drop_Suc)
    have "vprintf_fmt ds False fmt as = vprintf_fmt ds True ?r as"
      using True by (subst vprintf_fmt.simps) simp
    moreover have "printf_fmt ds (drop k ?r) as' = vprintf_fmt ds False (drop k ?r) as'"
      if "convert ds consputc (chd ?r) cv as = Some (out, as')" for out as'
      using 1(2) [OF _ _ refl refl refl refl, of cv k "(out, as')" out as'] True c that
        convert_plain_rest [OF that 1(3)] by simp
    ultimately show ?thesis
      using True c k convert_plain [OF 1(3), of ds "chd ?r" cv]
      by (subst printf_fmt.simps, simp, subst vprintf_fmt.simps)
         (auto simp: Let_def split: option.splits)
  qed
qed

theorem printf_agrees_with_vprintf_witness:
  "vprintf_fmt kdigits False ''pid %d: %s'' [AWord 7, AStr (Some ''sh'')] = Some ''pid 7: sh''"
proof -
  have "printf_fmt kdigits ''pid %d: %s'' [AWord 7, AStr (Some ''sh'')] = Some ''pid 7: sh''"
    by code_simp
  then show ?thesis
    using printf_agrees_with_vprintf [of "[AWord 7, AStr (Some ''sh'')]" kdigits "''pid %d: %s''"]
    by (simp add: plain_args_def)
qed

text \<open>Rules that run \<^verbatim>\<open>printf\<close> on a literal format.\<close>

lemma consputc_char [simp]: "consputc (of_char c) = [c]"
proof -
  have "unat (ucast (of_char c :: u32) :: u8) = of_char c"
  proof -
    have "(of_char c :: u32) = of_nat (of_char c)" by (simp only: of_nat_of_char)
    moreover have "(of_char c :: nat) < 256" by simp
    ultimately show ?thesis by (simp add: unsigned_ucast_eq unat_of_nat take_bit_eq_mod mod_mod_cancel)
  qed
  then show ?thesis by (simp only: consputc_def char_not_backspace if_False char_of_char)
qed

lemma printf_lit:
  "c \<noteq> NUL \<Longrightarrow> c \<noteq> CHR ''%'' \<Longrightarrow> printf_fmt ds (c # r) as = emit [c] (printf_fmt ds r as)"
  by (subst printf_fmt.simps) simp

lemma printf_end: "printf_fmt ds [] as = Some []"
  by (simp add: printf_fmt.simps)

lemma printf_pct:
  assumes "c0 \<noteq> NUL"
    and "classify c0 (chd r) (if chd r \<noteq> NUL then chd (tl r) else NUL) = (cv, k)"
    and "convert ds consputc c0 cv as = Some (out, as')"
  shows "printf_fmt ds (CHR ''%'' # c0 # r) as = emit out (printf_fmt ds (drop k (c0 # r)) as')"
  using assms by (subst printf_fmt.simps) (simp add: Let_def split: if_splits)

lemma printf_d:
  "printf_fmt ds (CHR ''%'' # CHR ''d'' # r) (AWord w # as) =
     emit (printint ds (arg_int w) 10 True) (printf_fmt ds r as)"
  by (rule printf_pct [where k = 1, simplified]) (auto simp: classify_def)

lemma printf_u:
  "printf_fmt ds (CHR ''%'' # CHR ''u'' # r) (AWord w # as) =
     emit (printint ds (arg_uint32 w) 10 False) (printf_fmt ds r as)"
  by (rule printf_pct [where k = 1, simplified]) (auto simp: classify_def)

lemma printf_s:
  "printf_fmt ds (CHR ''%'' # CHR ''s'' # r) (AStr t # as) =
     emit (arg_string t) (printf_fmt ds r as)"
  by (rule printf_pct [where k = 1, simplified]) (auto simp: classify_def)

lemma emit_simps [simp]: "emit a (emit b r) = emit (a @ b) r" "emit a (Some b) = Some (a @ b)"
  by (auto simp: emit_def option.map_comp comp_def)

lemmas printf_rules = printf_lit printf_end printf_d printf_u printf_s

text \<open>The output side: each character goes through one interrupt-safe register write.\<close>

lemma uart_out_settle [simp]: "uart_out (settle h s) = uart_out s"
  by (simp add: settle_def)

lemma uart_out_entered [simp]: "uart_out (entered h l s) = uart_out s"
  by (simp add: entered_def push_off_def Let_def intr_off_def)

lemma uart_out_wf [simp]:
  "cpu_wf h (s\<lparr>uart_out := x\<rparr>) = cpu_wf h s" "lock_free l (s\<lparr>uart_out := x\<rparr>) = lock_free l s"
  "entered h l (s\<lparr>uart_out := x\<rparr>) = (entered h l s)\<lparr>uart_out := x\<rparr>"
  "settle h (s\<lparr>uart_out := x\<rparr>) = (settle h s)\<lparr>uart_out := x\<rparr>"
  by (auto simp: cpu_wf_def lock_free_def entered_def settle_def push_off_def Let_def intr_off_def
      intr_get_def)

lemma uartputc_sync_appends:
  assumes "cpu_wf h s"
  shows "uartputc_sync h c s = Ok () (settle h (s\<lparr>uart_out := uart_out s @ [c]\<rparr>))"
proof -
  have "(push_off h s)\<lparr>uart_out := uart_out (push_off h s) @ [c]\<rparr> =
        push_off h (s\<lparr>uart_out := uart_out s @ [c]\<rparr>)"
    by (simp add: push_off_def Let_def intr_off_def intr_get_def)
  with assms show ?thesis by (simp add: uartputc_sync_def push_pop)
qed

lemma putstr_appends:
  assumes "cpu_wf h s" and "0 < noff h s"
  shows "putstr h out s = Ok () (s\<lparr>uart_out := uart_out s @ out\<rparr>)"
  using assms unfolding putstr_def
  by (induction out arbitrary: s) (simp_all add: uartputc_sync_appends settle_depth)

lemma printf_ok:
  assumes "cpu_wf h s" and "lock_free LPr s" and "printf_fmt kdigits fmt as = Some out"
  shows "printf h fmt as s = Ok () (settle h (s\<lparr>uart_out := uart_out s @ out\<rparr>))"
proof -
  have "0 < noff h (entered h LPr s)" using assms by (simp add: cpu_wf_def)
  with assms have "putstr h out (entered h LPr s) =
      Ok () (entered h LPr (s\<lparr>uart_out := uart_out s @ out\<rparr>))"
    by (simp add: putstr_appends)
  moreover have "release h LPr (entered h LPr (s\<lparr>uart_out := uart_out s @ out\<rparr>)) =
      Ok () (settle h (s\<lparr>uart_out := uart_out s @ out\<rparr>))"
    using assms by (intro release_entered) simp_all
  ultimately show ?thesis using assms by (simp add: printf_def acquire_free)
qed

text \<open>
  when \<^verbatim>\<open>pr.lock\<close> is free and the arguments fit the format, the kernel's \<^verbatim>\<open>printf\<close> returns with the
  lock free again and the interrupt state as before; the UART has received exactly the formatted
  characters, in order, and nothing else changed.
\<close>

theorem printf_writes_formatted:
  assumes "cpu_wf h s" and "lock_free LPr s" and "printf_fmt kdigits fmt as = Some out"
  shows "printf h fmt as s = Ok () (settle h (s\<lparr>uart_out := uart_out s @ out\<rparr>))"
  using assms by (rule printf_ok)

definition quiet_uart :: kuart where
  "quiet_uart =
     \<lparr>cpus = \<lambda>_. \<lparr>c_proc = None, c_noff = 0, c_intena = False\<rparr>, sie = \<lambda>_. True,
      locks = \<lambda>_. \<lparr>lk_locked = False, lk_name = [], lk_cpu = None\<rparr>, uart_out = []\<rparr>"

theorem printf_writes_formatted_witness:
  "printf 0 ''%d ticks'' [AWord (- 5)] quiet_uart = Ok () (settle 0 (quiet_uart\<lparr>uart_out := ''-5 ticks''\<rparr>))"
proof -
  have "printf_fmt kdigits ''%d ticks'' [AWord (- 5)] = Some ''-5 ticks''" by code_simp
  moreover have "cpu_wf 0 quiet_uart" "lock_free LPr quiet_uart" "uart_out quiet_uart = []"
    by (simp_all add: quiet_uart_def cpu_wf_def lock_free_def)
  ultimately show ?thesis using printf_writes_formatted by fastforce
qed

end
