(* ===== verification/Ulib.thy ===== *)
theory Ulib
  imports Printf
begin

text \<open>
  The user library \<^verbatim>\<open>user/ulib.c\<close>.  Strings are character lists with the terminating NUL past their end, memory
  is a function from addresses to bytes, both as for the kernel's routines.  \<^verbatim>\<open>read(0, &c, 1)\<close> in \<open>gets\<close> takes
  the next character of the input list, and fails at its end.  A C \<^verbatim>\<open>int\<close> is a 32-bit word read with \<open>sint\<close>.
\<close>

section \<open>Strings\<close>

fun strcpy_loop :: "string \<Rightarrow> string" where
  "strcpy_loop [] = [NUL]"
| "strcpy_loop (c # t) = (if c = NUL then [NUL] else c # strcpy_loop t)"

definition strcpy :: "string \<Rightarrow> string \<Rightarrow> string" where
  "strcpy s t = (let w = strcpy_loop t in w @ drop (length w) s)"

fun strcmp :: "string \<Rightarrow> string \<Rightarrow> int" where
  "strcmp [] q = uchar NUL - uchar (chd q)"
| "strcmp (c # p) q =
     (if c \<noteq> NUL \<and> c = chd q then strcmp p (tl q) else uchar c - uchar (chd q))"

fun ulib_strlen_loop :: "string \<Rightarrow> u32 \<Rightarrow> u32" where
  "ulib_strlen_loop [] n = n"
| "ulib_strlen_loop (c # s) n = (if c = NUL then n else ulib_strlen_loop s (n + 1))"

definition ulib_strlen :: "string \<Rightarrow> u32" where
  "ulib_strlen s = ulib_strlen_loop s 0"

text \<open>The result is the suffix the returned pointer points at.\<close>

fun strchr :: "string \<Rightarrow> char \<Rightarrow> string option" where
  "strchr [] c = None"
| "strchr (d # s) c = (if d = NUL then None else if d = c then Some (d # s) else strchr s c)"

text \<open>\<open>gets_loop k inp\<close>: at most \<open>k\<close> more characters fit; the line read and the input left.\<close>

fun gets_loop :: "nat \<Rightarrow> string \<Rightarrow> string \<times> string" where
  "gets_loop 0 inp = ([], inp)"
| "gets_loop (Suc k) [] = ([], [])"
| "gets_loop (Suc k) (c # inp) =
     (if c = CHR 0x0A \<or> c = CHR 0x0D then ([c], inp)
      else case gets_loop k inp of (l, rest) \<Rightarrow> (c # l, rest))"

definition gets :: "string \<Rightarrow> int \<Rightarrow> string \<Rightarrow> string \<times> string" where
  "gets buf mx inp =
     (case gets_loop (nat (mx - 1)) inp of (l, rest) \<Rightarrow> (l @ NUL # drop (Suc (length l)) buf, rest))"

definition is_digit :: "char \<Rightarrow> bool" where
  "is_digit c \<longleftrightarrow> (48 :: nat) \<le> of_char c \<and> of_char c \<le> (57 :: nat)"

fun atoi_loop :: "string \<Rightarrow> u32 \<Rightarrow> u32" where
  "atoi_loop [] n = n"
| "atoi_loop (c # s) n = (if is_digit c then atoi_loop s (n * 10 + of_char c - 48) else n)"

definition atoi :: "string \<Rightarrow> int" where
  "atoi s = sint (atoi_loop s 0)"

section \<open>Memory\<close>

primrec ulib_memset_loop :: "u64 \<Rightarrow> u8 \<Rightarrow> nat \<Rightarrow> nat \<Rightarrow> mem \<Rightarrow> mem" where
  "ulib_memset_loop dst c i 0 m = m"
| "ulib_memset_loop dst c i (Suc k) m = ulib_memset_loop dst c (Suc i) k (m(dst + of_nat i := c))"

definition ulib_memset :: "u64 \<Rightarrow> u8 \<Rightarrow> nat \<Rightarrow> mem \<Rightarrow> mem" where
  "ulib_memset dst c n m = ulib_memset_loop dst c 0 n m"

definition ulib_memmove :: "u64 \<Rightarrow> u64 \<Rightarrow> u32 \<Rightarrow> mem \<Rightarrow> mem" where
  "ulib_memmove dst src n m =
     (if src > dst then copy_up dst src (nat (sint n)) m
      else copy_down (dst + scast n) (src + scast n) (nat (sint n)) m)"

primrec ulib_memcmp :: "mem \<Rightarrow> u64 \<Rightarrow> u64 \<Rightarrow> nat \<Rightarrow> int" where
  "ulib_memcmp m s1 s2 0 = 0"
| "ulib_memcmp m s1 s2 (Suc n) =
     (if m s1 \<noteq> m s2 then uint (m s1) - uint (m s2) else ulib_memcmp m (s1 + 1) (s2 + 1) n)"

definition ulib_memcpy :: "u64 \<Rightarrow> u64 \<Rightarrow> u32 \<Rightarrow> mem \<Rightarrow> mem" where
  "ulib_memcpy dst src n m = ulib_memmove dst src n m"

section \<open>Facts on strings\<close>

lemma strcpy_loop_cstr: "strcpy_loop t = cstr t @ [NUL]"
  by (induction t) auto

lemma cstr_append_NUL: "cstr (cstr t @ NUL # u) = cstr t"
  by (induction t) auto

lemma strcpy_copies: "cstr (strcpy s t) = cstr t"
  by (simp add: strcpy_def strcpy_loop_cstr Let_def cstr_append_NUL)

lemma strcmp_eq_0_iff: "strcmp p q = 0 \<longleftrightarrow> cstr p = cstr q"
proof (induction p q rule: strcmp.induct)
  case (1 q)
  then show ?case by (cases q) auto
next
  case (2 c p q)
  then show ?case by (cases q) auto
qed

lemma ulib_strlen_loop: "ulib_strlen_loop s n = n + of_nat (length (cstr s))"
  by (induction s arbitrary: n) (auto simp: algebra_simps)

lemma ulib_strlen_strlen: "ulib_strlen s = of_nat (CString.strlen s)"
  by (simp add: ulib_strlen_def ulib_strlen_loop strlen_cstr)

lemma strchr_None_iff: "c \<noteq> NUL \<Longrightarrow> strchr s c = None \<longleftrightarrow> c \<notin> set (cstr s)"
  by (induction s) auto

lemma strchr_Some:
  "strchr s c = Some t \<Longrightarrow> \<exists>l. s = l @ t \<and> c \<notin> set l \<and> NUL \<notin> set l \<and> (\<exists>u. t = c # u)"
proof (induction s)
  case (Cons d s)
  show ?case
  proof (cases "d = c")
    case True
    with Cons.prems show ?thesis by (auto split: if_splits)
  next
    case False
    with Cons obtain l u where "s = l @ t" "c \<notin> set l" "NUL \<notin> set l" "t = c # u" "d \<noteq> NUL"
      by (auto split: if_splits)
    with False show ?thesis by (intro exI [of _ "d # l"]) auto
  qed
qed simp

definition line_end :: "char \<Rightarrow> bool" where
  "line_end c \<longleftrightarrow> c = CHR 0x0A \<or> c = CHR 0x0D"

lemma gets_loop_append: "gets_loop k inp = (l, rest) \<Longrightarrow> inp = l @ rest \<and> length l \<le> k"
  by (induction k inp arbitrary: l rest rule: gets_loop.induct)
    (auto split: if_splits prod.splits)

lemma gets_loop_stop:
  assumes "gets_loop k inp = (l, rest)"
  shows "(length l < k \<longrightarrow> rest = [] \<or> (l \<noteq> [] \<and> line_end (last l))) \<and>
         (\<forall>c\<in>set (butlast l). \<not> line_end c)"
  using assms
proof (induction k inp arbitrary: l rest rule: gets_loop.induct)
  case (3 k c inp)
  show ?case
  proof (cases "line_end c")
    case True
    with 3(2) show ?thesis by (auto simp: line_end_def)
  next
    case False
    then obtain l' where l': "gets_loop k inp = (l', rest)" "l = c # l'"
      using 3(2) by (auto simp: line_end_def split: prod.splits)
    have "(length l' < k \<longrightarrow> rest = [] \<or> (l' \<noteq> [] \<and> line_end (last l'))) \<and>
          (\<forall>c\<in>set (butlast l'). \<not> line_end c)"
      by (rule 3(1) [OF _ l'(1)]) (use False line_end_def in blast)
    then show ?thesis using False l'(2) by (cases "l' = []") auto
  qed
qed simp_all

section \<open>Decimal numbers\<close>

lemma digit_char: "k < 10 \<Longrightarrow> is_digit (kdigits ! k) \<and> of_char (kdigits ! k) = (of_nat (48 + k) :: u32)"
  by (auto simp: kdigits_def is_digit_def less_Suc_eq numeral_eq_Suc)

lemma atoi_loop_append:
  "\<forall>c\<in>set xs. is_digit c \<Longrightarrow> atoi_loop (xs @ ys) n = atoi_loop ys (atoi_loop xs n)"
  by (induction xs arbitrary: n) auto

lemma buf_digits_digits: "\<forall>c\<in>set (buf_digits kdigits 10 x). is_digit c"
proof (induction x rule: less_induct)
  case (less x)
  have "\<forall>c\<in>set (buf_digits kdigits 10 (x div 10)). is_digit c" if "x div 10 \<noteq> 0"
    using less.IH [of "x div 10"] that by (cases x) auto
  moreover have "is_digit (kdigits ! (x mod 10))" by (simp add: digit_char)
  ultimately show ?case by (subst buf_digits.simps) auto
qed

lemma atoi_loop_buf_digits: "atoi_loop (rev (buf_digits kdigits 10 x)) 0 = of_nat x"
proof (induction x rule: less_induct)
  case (less x)
  let ?d = "kdigits ! (x mod 10)"
  have d: "is_digit ?d" "(of_char ?d :: u32) = of_nat (48 + x mod 10)"
    using digit_char [of "x mod 10"] by auto
  show ?case
  proof (cases "x div 10 = 0")
    case True
    then have "x mod 10 = x" by simp
    with True d show ?thesis by (subst buf_digits.simps) simp
  next
    case False
    then have "atoi_loop (rev (buf_digits kdigits 10 (x div 10))) 0 = (of_nat (x div 10) :: u32)"
      using less.IH [of "x div 10"] by (cases x) auto
    moreover have "(of_nat (x div 10) * 10 + of_nat (48 + x mod 10) - 48 :: u32) = of_nat x"
    proof -
      have "(of_nat (x div 10) * 10 + of_nat (x mod 10) :: u32) = of_nat (x div 10 * 10 + x mod 10)"
        by (simp only: of_nat_add of_nat_mult of_nat_numeral)
      then show ?thesis by (simp only: div_mult_mod_eq) simp
    qed
    moreover have "buf_digits kdigits 10 x = ?d # buf_digits kdigits 10 (x div 10)"
      using False by (subst buf_digits.simps) simp
    ultimately show ?thesis
      using d buf_digits_digits [of "x div 10"] by (simp add: atoi_loop_append)
  qed
qed

definition digit_free :: "string \<Rightarrow> bool" where
  "digit_free r \<longleftrightarrow> \<not> is_digit (chd r)"

lemma atoi_loop_stop: "digit_free r \<Longrightarrow> atoi_loop r n = n"
  by (cases r) (auto simp: digit_free_def)

lemma printint_nonneg:
  assumes "0 \<le> sint n"
  shows "printint kdigits (scast (n :: u32)) 10 True = rev (buf_digits kdigits 10 (unat n))"
proof -
  have n: "unat n < 2 ^ 31" and "(scast n :: u64) = of_nat (unat n)" using sint32_nonneg [OF assms] by auto
  moreover have "unat (of_nat (unat n) :: u64) = unat n" using n by (simp only: unat_of_nat) simp
  moreover have "0 \<le> sint (of_nat (unat n) :: u64)" using n calculation(3) by (simp add: sint64_unat)
  ultimately show ?thesis by (simp add: printint_def printint_buf_def)
qed

text \<open>
  \<^verbatim>\<open>atoi\<close> reads back what \<^verbatim>\<open>printf("%d", n)\<close> prints: for every non-negative 32-bit \<open>n\<close>, printing it and
  converting the text, followed by anything that does not start with a digit, gives \<open>n\<close> again.
\<close>

theorem atoi_reads_printint:
  assumes "0 \<le> sint (n :: u32)" and "digit_free rest"
  shows "atoi (printint kdigits (scast n) 10 True @ rest) = sint n"
  using assms(2)
  by (simp add: printint_nonneg [OF assms(1)] atoi_def atoi_loop_append buf_digits_digits
      atoi_loop_buf_digits atoi_loop_stop)

theorem atoi_reads_printint_witness: "atoi (printint kdigits (scast (2047 :: u32)) 10 True @ '' RUNNING'') = 2047"
proof -
  have "sint (2047 :: u32) = 2047" by (simp add: sint32)
  then show ?thesis
    using atoi_reads_printint [of 2047 "'' RUNNING''"] by (simp add: digit_free_def is_digit_def)
qed

text \<open>
  \<^verbatim>\<open>gets(buf, max)\<close> consumes a prefix of the input of at most \<open>max - 1\<close> characters, stores exactly that
  prefix with a NUL after it, inside the buffer, and stops early only after a line end or at the end of
  the input; no line end is swallowed in the middle.
\<close>

theorem gets_reads_line:
  assumes "0 < mx" and "mx \<le> int (length buf)" and "gets buf mx inp = (buf', rest)"
  shows "\<exists>l. inp = l @ rest \<and> take (length l) buf' = l \<and> buf' ! length l = NUL \<and>
             length buf' = length buf \<and> int (length l) < mx \<and>
             (int (length l) < mx - 1 \<longrightarrow> rest = [] \<or> (l \<noteq> [] \<and> line_end (last l))) \<and>
             (\<forall>c\<in>set (butlast l). \<not> line_end c)"
proof -
  obtain l where l: "gets_loop (nat (mx - 1)) inp = (l, rest)" and b: "buf' = l @ NUL # drop (Suc (length l)) buf"
    using assms(3) by (auto simp: gets_def split: prod.splits)
  have "inp = l @ rest" "length l \<le> nat (mx - 1)" using gets_loop_append [OF l] by auto
  moreover from this b assms have "length buf' = length buf" "int (length l) < mx" by auto
  moreover have "take (length l) buf' = l" "buf' ! length l = NUL" using b by auto
  moreover have "int (length l) < mx - 1 \<longleftrightarrow> length l < nat (mx - 1)" by auto
  ultimately show ?thesis using gets_loop_stop [OF l] by (intro exI [of _ l]) (simp add: line_end_def)
qed

theorem gets_reads_line_witness:
  "\<exists>l. ''ls'' @ [CHR 0x0A] @ ''cd'' = l @ ''cd'' \<and> take (length l) (''ls'' @ [CHR 0x0A, NUL] @ replicate 4 NUL) = l"
proof -
  have "gets (replicate 8 NUL) 8 (''ls'' @ [CHR 0x0A] @ ''cd'') = (''ls'' @ [CHR 0x0A, NUL] @ replicate 4 NUL, ''cd'')"
    by code_simp
  from gets_reads_line [OF _ _ this] show ?thesis by auto
qed

section \<open>Memory routines\<close>

lemma ulib_memset_loop_apply:
  "i + k \<le> 2 ^ 64 \<Longrightarrow>
   ulib_memset_loop d c i k m a = (if i \<le> unat (a - d) \<and> unat (a - d) < i + k then c else m a)"
proof (induction k arbitrary: i m)
  case 0
  then show ?case by auto
next
  case (Suc k)
  have "a = d + of_nat i \<longleftrightarrow> unat (a - d) = i" using unat_diff_eq_iff [of i a d] Suc.prems by auto
  then show ?case using Suc.IH [of "Suc i" "m(d + of_nat i := c)"] Suc.prems
    by (simp del: fun_upd_apply) (auto simp: fun_upd_apply)
qed

lemma ulib_memset_memset: "n \<le> 2 ^ 64 \<Longrightarrow> ulib_memset d c n m = memset d c n m"
  by (rule ext) (simp add: ulib_memset_def ulib_memset_loop_apply memset_apply in_range_def)

lemma ulib_memcmp_memcmp: "ulib_memcmp m a b n = memcmp m a b n"
  by (induction n arbitrary: a b) auto

text \<open>
  the user library's \<^verbatim>\<open>memmove\<close>, which picks its direction by comparing the two pointers only, and the
  kernel's, which tests for an overlap, have the same effect for every length a non-negative \<^verbatim>\<open>int\<close> can
  give, wherever the regions lie as long as neither wraps around the address space.
\<close>

theorem ulib_memmove_agrees:
  assumes "0 \<le> sint n" and "unat src + unat n \<le> 2 ^ 64 - 1" and "unat dst + unat n \<le> 2 ^ 64 - 1"
  shows "ulib_memmove dst src n m = memmove dst src (unat n) m"
proof
  fix a
  let ?n = "unat n"
  have sn: "nat (sint n) = ?n" "(scast n :: u64) = of_nat ?n"
    using sint32_nonneg [OF assms(1)] by auto
  have at: "unat (p + of_nat k :: u64) = unat p + k" if "k \<le> ?n" "p = src \<or> p = dst" for p k
    using assms(2,3) that by (intro unat_plus_of_nat) auto
  have le: "?n \<le> 2 ^ 64" using assms by simp
  have "ulib_memmove dst src n m a = (if in_range dst ?n a then m (src + (a - dst)) else m a)"
  proof (cases "src > dst")
    case True
    have "src + of_nat j \<noteq> dst + of_nat i" if "i < j" "j < ?n" for i j
    proof
      assume "src + of_nat j = dst + of_nat i"
      then have "unat src + j = unat dst + i" using that by (metis at less_imp_le order.strict_trans)
      with True that show False by (simp add: word_less_nat_alt)
    qed
    then show ?thesis using True le by (simp add: ulib_memmove_def sn copy_up_apply)
  next
    case False
    have "src + of_nat i \<noteq> dst + of_nat j" if "i < j" "j < ?n" for i j
    proof
      assume "src + of_nat i = dst + of_nat j"
      then have "unat src + i = unat dst + j" using that by (metis at less_imp_le order.strict_trans)
      with False that show False by (simp add: word_less_nat_alt)
    qed
    then have "copy_down (dst + of_nat ?n) (src + of_nat ?n) ?n m a = (if in_range dst ?n a then m (src + (a - dst)) else m a)"
      using le by (intro copy_down_apply) auto
    with False show ?thesis by (simp only: ulib_memmove_def sn if_False)
  qed
  then show "ulib_memmove dst src n m a = memmove dst src ?n m a"
    using memmove_apply [OF assms(2,3)] by simp
qed

theorem ulib_memmove_agrees_witness:
  "ulib_memmove 0x1001 0x1000 4 (\<lambda>a. ucast a) = memmove 0x1001 0x1000 4 (\<lambda>a. ucast a :: u8)"
  using ulib_memmove_agrees [of 4 "0x1000" "0x1001" "\<lambda>a. ucast a"] by (simp add: sint32)

end
