(* ===== verification/Lines.thy ===== *)
theory Lines
  imports CString
begin

text \<open>
  Lines of a character stream, the specification side of the programs that cut their input into lines
  (\<^verbatim>\<open>user/init.c\<close>, \<^verbatim>\<open>user/llmhelper.c\<close>, \<^verbatim>\<open>user/grep.c\<close>): the complete lines of a stream and the unfinished
  rest, given the characters of the current line seen so far.
\<close>

abbreviation NL :: char where
  "NL \<equiv> CHR 0x0A"

fun lines_from :: "string \<Rightarrow> string \<Rightarrow> string list" where
  "lines_from acc [] = []"
| "lines_from acc (c # cs) = (if c = NL then acc # lines_from [] cs else lines_from (acc @ [c]) cs)"

fun rest_from :: "string \<Rightarrow> string \<Rightarrow> string" where
  "rest_from acc [] = acc"
| "rest_from acc (c # cs) = (if c = NL then rest_from [] cs else rest_from (acc @ [c]) cs)"

abbreviation lines_of :: "string \<Rightarrow> string list" where
  "lines_of \<equiv> lines_from []"

definition unlines :: "string list \<Rightarrow> string" where
  "unlines ls = concat (map (\<lambda>l. l @ [NL]) ls)"

lemma lines_from_append: "lines_from acc (xs @ ys) = lines_from acc xs @ lines_from (rest_from acc xs) ys"
  by (induction xs arbitrary: acc) auto

lemma rest_from_append: "rest_from acc (xs @ ys) = rest_from (rest_from acc xs) ys"
  by (induction xs arbitrary: acc) auto

lemma no_newline_lines: "NL \<notin> set xs \<Longrightarrow> lines_from acc xs = [] \<and> rest_from acc xs = acc @ xs"
  by (induction xs arbitrary: acc) auto

lemma rest_no_newline: "NL \<notin> set acc \<Longrightarrow> NL \<notin> set (rest_from acc xs)"
  by (induction xs arbitrary: acc) auto

lemma lines_no_newline: "NL \<notin> set acc \<Longrightarrow> \<forall>l\<in>set (lines_from acc xs). NL \<notin> set l"
proof (induction xs arbitrary: acc)
  case (Cons c cs)
  from Cons.IH [of "[]"] Cons.IH [of "acc @ [c]"] Cons.prems show ?case by auto
qed simp

text \<open>Nothing is lost: the stream is its lines and the rest.\<close>

lemma unlines_lines_from: "acc @ xs = unlines (lines_from acc xs) @ rest_from acc xs"
proof (induction xs arbitrary: acc)
  case (Cons c cs)
  show ?case
  proof (cases "c = NL")
    case True
    with Cons [of "[]"] show ?thesis by (simp add: unlines_def)
  next
    case False
    with Cons [of "acc @ [c]"] show ?thesis by simp
  qed
qed (simp add: unlines_def)

lemma lines_of_unlines: "\<forall>l\<in>set ls. NL \<notin> set l \<Longrightarrow> lines_of (unlines ls) = ls \<and> rest_from [] (unlines ls) = []"
  by (induction ls) (auto simp: unlines_def lines_from_append rest_from_append no_newline_lines)

text \<open>\<open>line_bound n acc xs\<close>: no line, and not the rest either, is longer than \<open>n\<close>.\<close>

definition line_bound :: "nat \<Rightarrow> string \<Rightarrow> string \<Rightarrow> bool" where
  "line_bound n acc xs \<longleftrightarrow>
     (\<forall>l\<in>set (lines_from acc xs). length l \<le> n) \<and> length (rest_from acc xs) \<le> n"

lemma line_bound_acc: "line_bound n acc xs \<Longrightarrow> length acc \<le> n"
proof (induction xs arbitrary: acc)
  case (Cons c cs)
  show ?case
  proof (cases "c = NL")
    case True
    with Cons.prems show ?thesis by (simp add: line_bound_def)
  next
    case False
    with Cons.prems have "line_bound n (acc @ [c]) cs" by (simp add: line_bound_def)
    from Cons.IH [OF this] show ?thesis by simp
  qed
qed (simp add: line_bound_def)

lemma line_bound_append: "line_bound n acc (xs @ ys) \<Longrightarrow> line_bound n (rest_from acc xs) ys"
  by (auto simp: line_bound_def lines_from_append rest_from_append)

lemma lines_from_acc:
  "NL \<notin> set acc \<Longrightarrow> lines_from acc xs = lines_of (acc @ xs) \<and> rest_from acc xs = rest_from [] (acc @ xs)"
  by (simp add: lines_from_append rest_from_append no_newline_lines)

text \<open>Input as \<^verbatim>\<open>read\<close> delivers it: a list of chunks, of which a call takes at most \<open>k\<close> bytes of the first.\<close>

definition read_chunk :: "nat \<Rightarrow> string list \<Rightarrow> string \<times> string list" where
  "read_chunk k cs =
     (case cs of [] \<Rightarrow> ([], [])
      | c # cs \<Rightarrow> (take k c, if drop k c = [] then cs else drop k c # cs))"

lemma read_chunk_concat: "read_chunk k cs = (d, cs') \<Longrightarrow> concat cs = d @ concat cs'"
proof (cases cs)
  case (Cons c r)
  assume "read_chunk k cs = (d, cs')"
  with Cons have d: "d = take k c" and cs': "cs' = (if drop k c = [] then r else drop k c # r)"
    by (auto simp: read_chunk_def)
  have "c = take k c @ concat (if drop k c = [] then [] else [drop k c])" by simp
  then show ?thesis
    using Cons d cs' by (metis append.assoc concat.simps(1) concat.simps(2) concat_append append_Nil2 append_take_drop_id)
qed (simp add: read_chunk_def)

lemma read_chunk_nonempty:
  assumes "read_chunk k cs = (d, cs')" and "[] \<notin> set cs" and "0 < k"
  shows "[] \<notin> set cs' \<and> (d = [] \<longleftrightarrow> cs = [])"
  using assms by (auto simp: read_chunk_def split: list.splits if_splits)

lemma read_chunk_length: "read_chunk k cs = (d, cs') \<Longrightarrow> length d \<le> k"
  by (auto simp: read_chunk_def split: list.splits)

end
