(* ===== verification/Grep.thy ===== *)
theory Grep
  imports Ulib Lines
begin

text \<open>
  The regular-expression matcher and the line loop of \<^verbatim>\<open>user/grep.c\<close>.  The matcher is proved equal to a
  declarative reading of its patterns: literals, \<^verbatim>\<open>.\<close>, \<^verbatim>\<open>c*\<close>, a leading \<^verbatim>\<open>^\<close> and a final \<^verbatim>\<open>$\<close>.
\<close>

section \<open>The matcher\<close>

text \<open>\<open>matchhere\<close> and the \<^verbatim>\<open>do\<close> loop of \<open>matchstar\<close> call each other; the pattern gets shorter from \<open>matchhere\<close> to
  \<open>matchstar\<close>, the text inside \<open>matchstar\<close>.\<close>

function (sequential) matchhere :: "string \<Rightarrow> string \<Rightarrow> bool"
  and matchstar :: "char \<Rightarrow> string \<Rightarrow> string \<Rightarrow> bool" where
  "matchhere re tx =
     (if chd re = NUL then True
      else if chd (tl re) = CHR ''*'' then matchstar (chd re) (tl (tl re)) tx
      else if chd re = CHR ''$'' \<and> chd (tl re) = NUL then chd tx = NUL
      else if chd tx \<noteq> NUL \<and> (chd re = CHR ''.'' \<or> chd re = chd tx)
      then matchhere (tl re) (tl tx)
      else False)"
| "matchstar c re tx =
     (if matchhere re tx then True
      else if chd tx \<noteq> NUL \<and> (chd tx = c \<or> c = CHR ''.'') then matchstar c re (tl tx)
      else False)"
  by pat_completeness auto
termination
proof (relation "measures [\<lambda>x. case x of Inl (re, tx) \<Rightarrow> length re | Inr (c, re, tx) \<Rightarrow> length re,
    \<lambda>x. case x of Inl (re, tx) \<Rightarrow> length tx | Inr (c, re, tx) \<Rightarrow> length tx,
    \<lambda>x. case x of Inl (re, tx) \<Rightarrow> 0 | Inr (c, re, tx) \<Rightarrow> 1]", goal_cases)
  case 1
  then show ?case by simp
next
  case (2 re t)
  then show ?case by (cases re) auto
next
  case (3 re t)
  then show ?case by (cases re) auto
next
  case (4 c re t)
  then show ?case by simp
next
  case (5 c re t)
  then show ?case by (cases t) auto
qed

declare matchhere.simps [simp del] matchstar.simps [simp del]

fun match_loop :: "string \<Rightarrow> string \<Rightarrow> bool" where
  "match_loop re [] = matchhere re []"
| "match_loop re (c # tx) =
     (if matchhere re (c # tx) then True else if c \<noteq> NUL then match_loop re tx else False)"

definition match :: "string \<Rightarrow> string \<Rightarrow> bool" where
  "match re tx =
     (if chd re = CHR ''^'' then matchhere (tl re) tx else match_loop re tx)"

section \<open>What patterns mean\<close>

datatype item = One char | Star char

fun parse_re :: "string \<Rightarrow> item list \<times> bool" where
  "parse_re [] = ([], False)"
| "parse_re (c # r) =
     (if chd r = CHR ''*'' then (case parse_re (tl r) of (is, e) \<Rightarrow> (Star c # is, e))
      else if c = CHR ''$'' \<and> r = [] then ([], True)
      else case parse_re r of (is, e) \<Rightarrow> (One c # is, e))"

definition accepts :: "char \<Rightarrow> char \<Rightarrow> bool" where
  "accepts c x \<longleftrightarrow> c = CHR ''.'' \<or> c = x"

primrec lang :: "item list \<Rightarrow> string set" where
  "lang [] = {[]}"
| "lang (i # is) = (case i of
     One c \<Rightarrow> {x # u | x u. accepts c x \<and> u \<in> lang is}
   | Star c \<Rightarrow> {v @ u | v u. (\<forall>x\<in>set v. accepts c x) \<and> u \<in> lang is})"

definition here :: "item list \<times> bool \<Rightarrow> string \<Rightarrow> bool" where
  "here p tx \<longleftrightarrow> (\<exists>u v. tx = u @ v \<and> u \<in> lang (fst p) \<and> (snd p \<longrightarrow> v = []))"

lemma hereI: "u \<in> lang is \<Longrightarrow> e \<longrightarrow> v = [] \<Longrightarrow> here (is, e) (u @ v)"
  unfolding here_def fst_conv snd_conv by blast

lemma lang_skip: "u \<in> lang is \<Longrightarrow> u \<in> lang (Star c # is)"
  unfolding lang.simps item.case mem_Collect_eq by (intro exI [of _ "[]"] exI [of _ u]) simp

lemma here_empty: "here ([], e) tx \<longleftrightarrow> (e \<longrightarrow> tx = [])"
  by (auto simp: here_def)

lemma here_one: "here (One c # is, e) tx \<longleftrightarrow> (\<exists>x t. tx = x # t \<and> accepts c x \<and> here (is, e) t)"
proof
  assume "here (One c # is, e) tx"
  then obtain w v where w: "tx = w @ v" "w \<in> lang (One c # is)" and e: "e \<longrightarrow> v = []"
    by (auto simp: here_def)
  then obtain x u where "w = x # u" "accepts c x" and u: "u \<in> lang is" by auto
  moreover have "here (is, e) (u @ v)" using u e unfolding here_def by auto
  ultimately show "\<exists>x t. tx = x # t \<and> accepts c x \<and> here (is, e) t" using w(1) by auto
next
  assume "\<exists>x t. tx = x # t \<and> accepts c x \<and> here (is, e) t"
  then obtain x u v where "tx = (x # u) @ v" "accepts c x" "u \<in> lang is" "e \<longrightarrow> v = []"
    by (auto simp: here_def)
  then show "here (One c # is, e) tx" unfolding here_def by (intro exI [of _ "x # u"] exI [of _ v]) auto
qed

lemma here_star:
  "here (Star c # is, e) tx \<longleftrightarrow>
     here (is, e) tx \<or> (\<exists>x t. tx = x # t \<and> accepts c x \<and> here (Star c # is, e) t)"
proof
  assume "here (Star c # is, e) tx"
  then obtain wu v where wu: "tx = wu @ v" "wu \<in> lang (Star c # is)" "e \<longrightarrow> v = []"
    by (auto simp: here_def)
  then obtain w u where "wu = w @ u" "\<forall>x\<in>set w. accepts c x" "u \<in> lang is" by auto
  with wu have w: "tx = w @ u @ v" "\<forall>x\<in>set w. accepts c x" "u \<in> lang is" "e \<longrightarrow> v = []" by auto
  show "here (is, e) tx \<or> (\<exists>x t. tx = x # t \<and> accepts c x \<and> here (Star c # is, e) t)"
  proof (cases w)
    case Nil
    with w show ?thesis by (auto simp: here_def)
  next
    case (Cons x w')
    have "w' @ u \<in> lang (Star c # is)" using w Cons by auto
    then have "here (Star c # is, e) ((w' @ u) @ v)" using w(4) by (rule hereI)
    then show ?thesis using w Cons by auto
  qed
next
  assume "here (is, e) tx \<or> (\<exists>x t. tx = x # t \<and> accepts c x \<and> here (Star c # is, e) t)"
  then show "here (Star c # is, e) tx"
  proof
    assume "here (is, e) tx"
    then obtain u v where "tx = ([] @ u) @ v" "u \<in> lang is" "e \<longrightarrow> v = []" by (auto simp: here_def)
    then show ?thesis 
      using hereI [OF lang_skip, of u "is" e v c] by simp
  next
    assume "\<exists>x t. tx = x # t \<and> accepts c x \<and> here (Star c # is, e) t"
    then obtain x t wu v where t: "tx = x # t" "accepts c x" "t = wu @ v" "wu \<in> lang (Star c # is)" "e \<longrightarrow> v = []"
      unfolding here_def fst_conv snd_conv by blast
    then obtain w u where "wu = w @ u" "\<forall>x\<in>set w. accepts c x" "u \<in> lang is" by auto
    with t have w: "tx = ((x # w) @ u) @ v" "accepts c x" "\<forall>x\<in>set w. accepts c x"
      "u \<in> lang is" "e \<longrightarrow> v = []" by auto
    have "(x # w) @ u \<in> lang (Star c # is)" 
      unfolding lang.simps item.case mem_Collect_eq using w by (intro exI [of _ "x # w"] exI [of _ u]) simp
    from hereI [OF this w(5)] show ?thesis using w(1) by simp
  qed
qed

section \<open>The matcher implements the meaning\<close>

lemma chd_NUL_iff: "NUL \<notin> set s \<Longrightarrow> chd s = NUL \<longleftrightarrow> s = []"
  by (cases s) auto

lemma chd_tl_NUL: "NUL \<notin> set s \<Longrightarrow> NUL \<notin> set (tl s)"
  by (cases s) auto

lemma match_meaning:
  assumes "NUL \<notin> set re" and "NUL \<notin> set tx"
  shows "matchhere re tx = here (parse_re re) tx"
    and "matchstar c re tx = here (Star c # fst (parse_re re), snd (parse_re re)) tx"
  using assms
proof (induction re tx and c re tx rule: matchhere_matchstar.induct)
  case (1 re t)
  show ?case
  proof (cases re)
    case Nil
    then show ?thesis by (simp add: matchhere.simps here_empty)
  next
    case (Cons c r)
    with 1(3) have c: "c \<noteq> NUL" and r: "NUL \<notin> set r" by auto
    obtain its e where p: "parse_re r = (its, e)" by (cases "parse_re r")
    obtain its' e' where p': "parse_re (tl r) = (its', e')" by (cases "parse_re (tl r)")
    consider (star) "chd r = CHR ''*''" | (dollar) "chd r \<noteq> CHR ''*''" "c = CHR ''$''" "r = []"
      | (one) "chd r \<noteq> CHR ''*''" "\<not> (c = CHR ''$'' \<and> r = [])" by blast
    then show ?thesis
    proof cases
      case star
      with 1(1) 1(4) Cons c r p' show ?thesis
        by (simp add: matchhere.simps [of "c # r"] chd_tl_NUL)
    next
      case dollar
      with Cons 1(4) show ?thesis by (simp add: matchhere.simps here_empty chd_NUL_iff)
    next
      case one
      have "matchhere (c # r) t = (t \<noteq> [] \<and> accepts c (hd t) \<and> matchhere r (tl t))"
        using one c r 1(4) by (subst matchhere.simps) (cases t; auto simp: accepts_def chd_NUL_iff)
      moreover have "here (parse_re (c # r)) t = (t \<noteq> [] \<and> accepts c (hd t) \<and> here (its, e) (tl t))"
        using one p by (cases t) (auto simp: here_one)
      moreover have "matchhere r (tl t) = here (its, e) (tl t)" if "t \<noteq> []" "accepts c (hd t)"
        using 1(2) that one c r 1(4) Cons p by (cases t) (auto simp: accepts_def chd_NUL_iff)
      ultimately show ?thesis using Cons by auto
    qed
  qed
next
  case (2 c re t)
  obtain its e where p: "parse_re re = (its, e)" by (cases "parse_re re")
  have m: "matchhere re t = here (its, e) t" using 2 p by simp
  show ?case
  proof (cases "t \<noteq> [] \<and> accepts c (hd t) \<and> \<not> matchhere re t")
    case True
    then have "matchstar c re (tl t) = here (Star c # its, e) (tl t)"
      using 2 p by (cases t) (auto simp: accepts_def)
    with True m p 2(4) show ?thesis
      by (subst matchstar.simps, subst here_star) (cases t; auto simp: accepts_def)
  next
    case False
    with m p show ?thesis
      by (subst matchstar.simps, subst here_star) (cases t; auto simp: accepts_def)
  qed
qed

lemma match_loop_meaning:
  assumes "NUL \<notin> set re" and "NUL \<notin> set tx"
  shows "match_loop re tx \<longleftrightarrow> (\<exists>pre post. tx = pre @ post \<and> here (parse_re re) post)"
  using assms(2)
proof (induction tx)
  case Nil
  then show ?case using match_meaning(1) [OF assms(1), of "[]"] by simp
next
  case (Cons c t)
  have "(\<exists>pre post. c # t = pre @ post \<and> here (parse_re re) post) \<longleftrightarrow>
      here (parse_re re) (c # t) \<or> (\<exists>pre post. t = pre @ post \<and> here (parse_re re) post)"
    by (auto simp: Cons_eq_append_conv)
  with Cons match_meaning(1) [OF assms(1), of "c # t"] show ?case by auto
qed

text \<open>
  C37: the matcher of \<^verbatim>\<open>grep\<close> decides the meaning of its pattern: \<open>match re text\<close> holds exactly when the text (from
  its start if the pattern begins with \<^verbatim>\<open>^\<close>, from some position otherwise) begins with a string of the
  pattern's language, reaching the end of the text if the pattern ends in \<^verbatim>\<open>$\<close>.
\<close>

theorem match_decides_pattern:
  assumes "NUL \<notin> set re" and "NUL \<notin> set tx"
  shows "match re tx \<longleftrightarrow>
     (if chd re = CHR ''^'' then here (parse_re (tl re)) tx
      else \<exists>pre post. tx = pre @ post \<and> here (parse_re re) post)"
  using match_meaning(1) [of "tl re" tx] match_loop_meaning [of re tx] assms chd_tl_NUL [OF assms(1)]
  by (simp add: match_def)

theorem match_decides_pattern_witness:
  "match ''P.D=1*$'' ''ADVICE:PID=11'' \<longleftrightarrow>
     (\<exists>pre post. ''ADVICE:PID=11'' = pre @ post \<and> here (parse_re ''P.D=1*$'') post)"
  using match_decides_pattern [of "''P.D=1*$''" "''ADVICE:PID=11''"] by (simp add: chd_def)

section \<open>The line loop\<close>

text \<open>The inner \<^verbatim>\<open>while\<close>: \<open>p\<close> is the text from the pointer \<^verbatim>\<open>p\<close> to the end of the data.  The result is what is
  written to file descriptor 1 and the text \<^verbatim>\<open>p\<close> points at when no newline is left.\<close>

function grep_lines :: "string \<Rightarrow> string \<Rightarrow> string \<times> string" where
  "grep_lines pat p =
     (case strchr p NL of
        None \<Rightarrow> ([], p)
      | Some q \<Rightarrow>
          let line = take (length p - length q) p;
              out = (if match pat line then line @ [NL] else [])
          in case grep_lines pat (tl q) of (o', r) \<Rightarrow> (out @ o', r))"
  by pat_completeness auto
termination
proof (relation "measure (\<lambda>(pat, p). length p)", goal_cases)
  case (2 pat p q)
  then show ?case by (auto dest!: strchr_Some)
qed simp

declare grep_lines.simps [simp del]

definition GREP_BUF :: nat where
  "GREP_BUF = 1024"

text \<open>The outer loop: \<open>pend\<close> are the first \<^verbatim>\<open>m\<close> bytes of \<^verbatim>\<open>buf\<close>; it ends at the first \<^verbatim>\<open>read\<close> that delivers nothing.\<close>

function grep :: "string \<Rightarrow> string \<Rightarrow> string list \<Rightarrow> string" where
  "grep pat pend inp =
     (case read_chunk (GREP_BUF - length pend - 1) inp of (d, inp') \<Rightarrow>
        if d = [] then []
        else case grep_lines pat (pend @ d) of (out, p) \<Rightarrow> out @ grep pat p inp')"
  by pat_completeness auto
termination
proof (relation "measure (\<lambda>(pat, pend, inp). length (concat inp))", goal_cases)
  case (2 pat pend inp d inp' out p)
  then have "concat inp = d @ concat inp'" using read_chunk_concat by auto
  with 2 show ?case by simp
qed simp

declare grep.simps [simp del]

definition select_lines :: "string \<Rightarrow> string list \<Rightarrow> string" where
  "select_lines pat ls = unlines (filter (match pat) ls)"

lemma select_lines_simps [simp]:
  "select_lines pat [] = []"
  "select_lines pat (l # ls) = (if match pat l then l @ [NL] else []) @ select_lines pat ls"
  "select_lines pat (ks @ ls) = select_lines pat ks @ select_lines pat ls"
  by (simp_all add: select_lines_def unlines_def)

lemma grep_lines_select:
  "NUL \<notin> set p \<Longrightarrow> grep_lines pat p = (select_lines pat (lines_of p), rest_from [] p)"
proof (induction pat p rule: grep_lines.induct)
  case (1 pat p)
  have cs: "cstr p = p" using 1(2) by (simp add: cstr_def takeWhile_eq_all_conv) metis
  show ?case
  proof (cases "strchr p NL")
    case None
    then have "NL \<notin> set p" using cs strchr_None_iff [of NL p] by simp
    with None show ?thesis by (simp add: grep_lines.simps [of pat p] no_newline_lines)
  next
    case (Some q)
    then obtain l u where l: "p = l @ q" "NL \<notin> set l" "q = NL # u" using strchr_Some by blast
    have "grep_lines pat (tl q) = (select_lines pat (lines_of u), rest_from [] u)"
      using 1(1) [OF Some, of l "if match pat l then l @ [NL] else []"] 1(2) l by auto
    then show ?thesis
      using Some l by (simp add: grep_lines.simps [of pat "l @ NL # u"] lines_from_append rest_from_append no_newline_lines)
  qed
qed

text \<open>
  \<^verbatim>\<open>grep\<close> prints exactly the matching lines, in order, each with its newline, however \<^verbatim>\<open>read\<close> cuts the input into
  chunks, as long as no line (nor the unfinished rest) exceeds 1022 characters.  An unfinished last
  line is never printed, matching or not.
\<close>

theorem grep_selects_lines:
  assumes "NUL \<notin> set (concat inp)" and "[] \<notin> set inp" and "line_bound 1022 [] (concat inp)"
  shows "grep pat [] inp = select_lines pat (lines_of (concat inp))"
proof -
  have "grep pat pend inp = select_lines pat (lines_from pend (concat inp))"
    if "NUL \<notin> set (concat inp)" "[] \<notin> set inp" "line_bound 1022 pend (concat inp)"
      "NL \<notin> set pend" "NUL \<notin> set pend" for pend inp
    using that
  proof (induction pat pend inp rule: grep.induct)
    case (1 pat pend inp)
    obtain d inp' where rc: "read_chunk (GREP_BUF - length pend - 1) inp = (d, inp')" by fastforce
    have k: "0 < GREP_BUF - length pend - 1" using line_bound_acc [OF 1(4)] by (simp add: GREP_BUF_def)
    have cc: "concat inp = d @ concat inp'" by (rule read_chunk_concat [OF rc])
    note ne = read_chunk_nonempty [OF rc 1(3) k]
    show ?case
    proof (cases "d = []")
      case True
      with ne rc show ?thesis by (simp add: grep.simps [of pat pend "[]"])
    next
      case False
      let ?p = "rest_from pend d"
      have gl: "grep_lines pat (pend @ d) = (select_lines pat (lines_from pend d), ?p)"
        using grep_lines_select [of "pend @ d" pat] lines_from_acc [OF 1(5)] 1(2,6) cc by auto
      have "set ?p \<subseteq> set (pend @ d)"
        using unlines_lines_from [of pend d] by (metis set_append sup_ge2)
      then have "grep pat ?p inp' = select_lines pat (lines_from ?p (concat inp'))"
        using 1(1) [OF rc [symmetric] False gl [symmetric]] 1(2,4,5,6) ne cc
        by (auto simp: rest_no_newline line_bound_append)
      then show ?thesis
        using False rc gl by (simp add: grep.simps [of pat pend inp] cc lines_from_append)
    qed
  qed
  from this [OF assms] show ?thesis by simp
qed

theorem grep_selects_lines_witness:
  "grep ''PID'' [] [''a P'', ''ID'' @ [NL] @ ''b'', [NL] @ ''c''] =
     select_lines ''PID'' (lines_of (concat [''a P'', ''ID'' @ [NL] @ ''b'', [NL] @ ''c'']))"
  by (rule grep_selects_lines) (simp_all add: line_bound_def)

end
