(* ===== verification/Llmhelper.thy ===== *)
theory Llmhelper
  imports Ulib Lines
begin

text \<open>
  \<^verbatim>\<open>user/llmhelper.c\<close>: the process that reads advice lines from its standard input and passes the pids to the
  system call \<^verbatim>\<open>set_llm_advice\<close>.  The system call is a parameter, a function on the state \<open>'s\<close> behind it; what the
  program prints is collected beside that state.  The buffer is the 512-character array with the two indices
  of \<^verbatim>\<open>main\<close>; input arrives in chunks.
\<close>

section \<open>One line\<close>

type_synonym 's advise = "u32 \<Rightarrow> 's \<Rightarrow> int \<times> 's"

definition uprintf :: "string \<Rightarrow> arg list \<Rightarrow> string" where
  "uprintf fmt as = (case vprintf_fmt udigits False fmt as of None \<Rightarrow> [] | Some t \<Rightarrow> t)"

fun skip_blanks :: "string \<Rightarrow> string" where
  "skip_blanks [] = []"
| "skip_blanks (c # l) = (if c = CHR '' '' \<or> c = CHR 0x09 then skip_blanks l else c # l)"

primrec has_prefix :: "string \<Rightarrow> string \<Rightarrow> bool" where
  "has_prefix [] l = True"
| "has_prefix (p # ps) l = (if chd l \<noteq> p then False else has_prefix ps (tl l))"

definition advice_prefix :: string where
  "advice_prefix = ''ADVICE:PID=''"

fun pid_loop :: "string \<Rightarrow> u32 \<Rightarrow> u32" where
  "pid_loop [] pid = pid"
| "pid_loop (c # p) pid = (if is_digit c then pid_loop p (pid * 10 + (of_char c - 48)) else pid)"

text \<open>The guards of \<^verbatim>\<open>handle_line\<close>: the pid it is going to pass on, if any.\<close>

definition parse_advice :: "string \<Rightarrow> u32 option" where
  "parse_advice line =
     (let line = skip_blanks line in
      if \<not> has_prefix advice_prefix line then None
      else let p = drop 11 line in
        if \<not> is_digit (chd p) then None
        else let pid = pid_loop p 0 in if sint pid \<le> 0 then None else Some pid)"

definition handle_line :: "'s advise \<Rightarrow> string \<Rightarrow> 's \<times> string \<Rightarrow> 's \<times> string" where
  "handle_line set_llm_advice line = (\<lambda>(s, out).
     case parse_advice line of
       None \<Rightarrow> (s, out)
     | Some pid \<Rightarrow>
         (case set_llm_advice pid s of (r, s) \<Rightarrow>
            (s, out @ (if r < 0 then uprintf (''llmhelper: set_llm_advice(%d) failed'' @ [NL]) [AWord (scast pid)]
                       else uprintf (''llmhelper: applied advice for pid %d'' @ [NL]) [AWord (scast pid)]))))"

section \<open>The buffer loop\<close>

definition BUF_SZ :: nat where
  "BUF_SZ = 512"

record llm_buf =
  lb_buf :: string
  lb_start :: nat
  lb_end :: nat

definition llm_drop :: "llm_buf \<Rightarrow> llm_buf" where
  "llm_drop b = (if lb_end b \<ge> BUF_SZ - 1 \<and> lb_start b = 0 then b\<lparr>lb_end := 0\<rparr> else b)"

text \<open>The bytes that \<^verbatim>\<open>read\<close> stored, and the NUL after them.\<close>

definition llm_store :: "string \<Rightarrow> llm_buf \<Rightarrow> llm_buf" where
  "llm_store d b =
     (let e = lb_end b + length d;
          buf = take (lb_end b) (lb_buf b) @ d @ drop e (lb_buf b)
      in b\<lparr>lb_buf := buf[e := NUL], lb_end := e\<rparr>)"

text \<open>The scan: \<open>k\<close> indices from \<open>i\<close> on are left.\<close>

primrec llm_scan :: "'s advise \<Rightarrow> nat \<Rightarrow> nat \<Rightarrow> llm_buf \<Rightarrow> 's \<times> string \<Rightarrow> llm_buf \<times> 's \<times> string" where
  "llm_scan adv 0 i b x = (b, x)"
| "llm_scan adv (Suc k) i b x =
     (if lb_buf b ! i = NL
      then let b = b\<lparr>lb_buf := (lb_buf b)[i := NUL]\<rparr>;
               x = handle_line adv (drop (lb_start b) (lb_buf b)) x
           in llm_scan adv k (Suc i) (b\<lparr>lb_start := Suc i\<rparr>) x
      else llm_scan adv k (Suc i) b x)"

definition llm_compact :: "llm_buf \<Rightarrow> llm_buf" where
  "llm_compact b =
     (if lb_start b = lb_end b then b\<lparr>lb_start := 0, lb_end := 0\<rparr>
      else if lb_start b > 0 then
        let r = lb_end b - lb_start b;
            buf = take r (drop (lb_start b) (lb_buf b)) @ drop r (lb_buf b)
        in b\<lparr>lb_buf := buf[r := NUL], lb_start := 0, lb_end := r\<rparr>
      else b)"

function llm_loop :: "'s advise \<Rightarrow> llm_buf \<Rightarrow> string list \<Rightarrow> 's \<times> string \<Rightarrow> 's \<times> string" where
  "llm_loop adv b inp x =
     (let b = llm_drop b in
      case read_chunk (BUF_SZ - 1 - lb_end b) inp of (d, inp') \<Rightarrow>
        if d = [] then x
        else let b = llm_store d b in
          case llm_scan adv (lb_end b - lb_start b) (lb_start b) b x of (b, x) \<Rightarrow>
            llm_loop adv (llm_compact b) inp' x)"
  by pat_completeness auto
termination
proof (relation "measure (\<lambda>(adv, b, inp, x). length (concat inp))", goal_cases)
  case (2 adv b inp x b1 d inp' b2 b3 x3)
  then have "concat inp = d @ concat inp'" using read_chunk_concat [of _ inp d inp'] by auto
  with 2 show ?case by simp
qed simp

declare llm_loop.simps [simp del]

definition llm_main :: "'s advise \<Rightarrow> string list \<Rightarrow> 's \<Rightarrow> 's \<times> string" where
  "llm_main adv inp s =
     (case llm_loop adv \<lparr>lb_buf = replicate BUF_SZ NUL, lb_start = 0, lb_end = 0\<rparr> inp
             (s, ''llmhelper: started, waiting for LLM advice on stdin...'' @ [NL]) of
        (s, out) \<Rightarrow> (s, out @ ''llmhelper: exiting (input closed)'' @ [NL]))"

section \<open>A line is read up to its NUL\<close>

lemma skip_blanks_cstr: "cstr (skip_blanks l) = skip_blanks (cstr l)"
  by (induction l) auto

lemma has_prefix_cstr: "NUL \<notin> set ps \<Longrightarrow> has_prefix ps (cstr l) = has_prefix ps l"
proof (induction ps arbitrary: l)
  case (Cons p ps)
  then show ?case by (cases l) auto
qed simp

lemma has_prefix_iff: "NUL \<notin> set ps \<Longrightarrow> has_prefix ps l \<longleftrightarrow> (\<exists>r. l = ps @ r)"
proof (induction ps arbitrary: l)
  case (Cons p ps)
  then show ?case by (cases l) auto
qed simp

lemma pid_loop_cstr: "pid_loop (cstr p) n = pid_loop p n"
  by (induction p arbitrary: n) (auto simp: is_digit_def)

lemma pid_loop_atoi: "pid_loop p n = atoi_loop p n"
  by (induction p arbitrary: n) (auto simp: algebra_simps)

lemma chd_cstr: "chd (cstr p) = chd p"
  by (cases p) auto

lemma cstr_append: "NUL \<notin> set a \<Longrightarrow> cstr (a @ b) = a @ cstr b"
  by (induction a) auto

lemma parse_advice_cstr: "parse_advice (cstr l) = parse_advice l"
proof -
  let ?m = "skip_blanks l"
  have eq: "skip_blanks (cstr l) = cstr ?m" by (simp add: skip_blanks_cstr)
  have nz: "NUL \<notin> set advice_prefix" by (simp add: advice_prefix_def)
  show ?thesis
  proof (cases "has_prefix advice_prefix ?m")
    case False
    then show ?thesis using has_prefix_cstr [OF nz] eq by (simp add: parse_advice_def Let_def)
  next
    case True
    then obtain r where r: "?m = advice_prefix @ r" using has_prefix_iff [OF nz] by auto
    have "length advice_prefix = 11" by (simp add: advice_prefix_def)
    then have "drop 11 (cstr ?m) = cstr (drop 11 ?m)" using r cstr_append [OF nz] by simp
    then show ?thesis using True has_prefix_cstr [OF nz] eq
      by (simp add: parse_advice_def Let_def chd_cstr pid_loop_cstr)
  qed
qed

lemma handle_line_cut: "handle_line adv (l @ NUL # r) = handle_line adv l"
proof -
  have "cstr (l @ NUL # r) = cstr l" by (induction l) auto
  then have "parse_advice (l @ NUL # r) = parse_advice l" using parse_advice_cstr by metis
  then show ?thesis by (simp add: handle_line_def)
qed

section \<open>The loop handles each line once\<close>

lemma llm_scan_lines:
  assumes "lb_buf b = pre @ seg @ tx @ post" and "lb_start b = length pre"
  shows "\<exists>pre'. llm_scan adv (length tx) (length pre + length seg) b x =
           (b\<lparr>lb_buf := pre' @ rest_from seg tx @ post, lb_start := length pre'\<rparr>,
            fold (handle_line adv) (lines_from seg tx) x) \<and>
           length pre' + length (rest_from seg tx) = length pre + length seg + length tx"
  using assms
proof (induction tx arbitrary: b pre seg x)
  case Nil
  then show ?case by (intro exI [of _ pre]) (cases b, simp)
next
  case (Cons c tx)
  have at: "lb_buf b ! (length pre + length seg) = c"
    using Cons.prems(1) by (simp add: nth_append)
  show ?case
  proof (cases "c = NL")
    case False
    with Cons.IH [of b pre "seg @ [c]" x] Cons.prems at show ?thesis by simp
  next
    case True
    let ?b = "b\<lparr>lb_buf := (pre @ seg @ [NUL]) @ [] @ tx @ post, lb_start := Suc (length pre + length seg)\<rparr>"
    have upd: "(lb_buf b)[length pre + length seg := NUL] = (pre @ seg @ [NUL]) @ [] @ tx @ post"
      using Cons.prems(1) by (simp add: list_update_append)
    have line: "handle_line adv (drop (lb_start b) ((pre @ seg @ [NUL]) @ [] @ tx @ post)) = handle_line adv seg"
      using Cons.prems(2) by (simp add: handle_line_cut)
    have "llm_scan adv (length (c # tx)) (length pre + length seg) b x =
        llm_scan adv (length tx) (Suc (length pre + length seg)) ?b (handle_line adv seg x)"
      using at True upd line by (simp add: Let_def)
    moreover note Cons.IH [of ?b "pre @ seg @ [NUL]" "[]" "handle_line adv seg x"]
    ultimately show ?thesis using True by (cases b) auto
  qed
qed

definition llm_wf :: "string \<Rightarrow> llm_buf \<Rightarrow> bool" where
  "llm_wf p b \<longleftrightarrow> lb_start b = 0 \<and> length (lb_buf b) = BUF_SZ \<and> lb_end b = length p \<and>
     take (length p) (lb_buf b) = p \<and> length p \<le> 510"

lemma llm_store_wf:
  assumes "llm_wf p b" and "length p + length d \<le> 511"
  shows "\<exists>post. lb_buf (llm_store d b) = [] @ [] @ (p @ d) @ post \<and> length post = BUF_SZ - length (p @ d) \<and>
    lb_start (llm_store d b) = 0 \<and> lb_end (llm_store d b) = length (p @ d)"
proof -
  let ?e = "length p + length d"
  have "lb_buf (llm_store d b) = ((p @ d) @ drop ?e (lb_buf b))[?e := NUL]"
    using assms by (simp add: llm_store_def llm_wf_def Let_def)
  also have "\<dots> = (p @ d) @ (drop ?e (lb_buf b))[0 := NUL]"
    by (simp add: list_update_append)
  finally show ?thesis using assms by (auto simp: llm_store_def llm_wf_def Let_def)
qed

lemma llm_compact_wf:
  assumes "lb_buf b = pre @ r @ post" and "lb_start b = length pre" and "lb_end b = length (pre @ r)"
    and "length (lb_buf b) = BUF_SZ" and "length r \<le> 510"
  shows "llm_wf r (llm_compact b)"
proof -
  consider "r = []" | "r \<noteq> []" "pre = []" | "r \<noteq> []" "pre \<noteq> []" by blast
  then show ?thesis
  proof cases
    case 1
    with assms show ?thesis by (simp add: llm_compact_def llm_wf_def)
  next
    case 2
    with assms show ?thesis by (simp add: llm_compact_def llm_wf_def)
  next
    case 3
    have "length r < length (lb_buf b)" using assms 3 by (simp add: BUF_SZ_def)
    with assms 3 show ?thesis
      by (simp add: llm_compact_def llm_wf_def Let_def list_update_append BUF_SZ_def)
  qed
qed

lemma llm_loop_lines:
  assumes "llm_wf p b" and "NL \<notin> set p" and "[] \<notin> set inp" and "line_bound 510 p (concat inp)"
  shows "llm_loop adv b inp x = fold (handle_line adv) (lines_from p (concat inp)) x"
  using assms
proof (induction "length (concat inp)" arbitrary: b inp x p rule: less_induct)
  case less
  have dropb: "llm_drop b = b" using less.prems(1) by (auto simp: llm_drop_def llm_wf_def BUF_SZ_def)
  have e: "lb_end b = length p" using less.prems(1) by (simp add: llm_wf_def)
  obtain d inp' where rc: "read_chunk (BUF_SZ - 1 - lb_end b) inp = (d, inp')" by fastforce
  have k: "0 < BUF_SZ - 1 - lb_end b" using less.prems(1) by (simp add: llm_wf_def BUF_SZ_def)
  have cc: "concat inp = d @ concat inp'" by (rule read_chunk_concat [OF rc])
  note ne = read_chunk_nonempty [OF rc less.prems(3) k]
  show ?case
  proof (cases "d = []")
    case True
    with ne rc dropb show ?thesis by (simp add: llm_loop.simps [of adv b "[]"] Let_def)
  next
    case False
    let ?b = "llm_store d b" and ?r = "rest_from p d"
    have "length p + length d \<le> 511" using read_chunk_length [OF rc] e less.prems(1)
      by (simp add: llm_wf_def BUF_SZ_def) linarith
    from llm_store_wf [OF less.prems(1) this] obtain post where
      st: "lb_buf ?b = [] @ [] @ (p @ d) @ post" "length post = BUF_SZ - length (p @ d)"
        "lb_start ?b = 0" "lb_end ?b = length (p @ d)" by blast
    have pd: "lines_from [] (p @ d) = lines_from p d" "rest_from [] (p @ d) = ?r"
      using lines_from_acc [OF less.prems(2)] by auto
    obtain pre' where sc: "llm_scan adv (length (p @ d)) 0 ?b x =
        (?b\<lparr>lb_buf := pre' @ ?r @ post, lb_start := length pre'\<rparr>, fold (handle_line adv) (lines_from p d) x)"
      and len: "length pre' + length ?r = length (p @ d)"
      using llm_scan_lines [of ?b "[]" "[]" "p @ d" post adv x] st pd by auto
    let ?b' = "?b\<lparr>lb_buf := pre' @ ?r @ post, lb_start := length pre'\<rparr>"
    have bound: "line_bound 510 ?r (concat inp')" using less.prems(4) cc line_bound_append by metis
    have "length (lb_buf ?b) = BUF_SZ" using less.prems(1) by (simp add: llm_wf_def llm_store_def Let_def BUF_SZ_def)
        (use \<open>length p + length d \<le> 511\<close> in linarith)
    then have "llm_wf ?r (llm_compact ?b')"
      using st len line_bound_acc [OF bound] by (intro llm_compact_wf [of _ pre' _ post]) auto
    then have "llm_loop adv (llm_compact ?b') inp' (fold (handle_line adv) (lines_from p d) x) =
        fold (handle_line adv) (lines_from ?r (concat inp')) (fold (handle_line adv) (lines_from p d) x)"
      using less.hyps [of inp' ?r "llm_compact ?b'"] False cc less.prems(2) ne bound
      by (simp add: rest_no_newline)
    moreover have "llm_loop adv b inp x = llm_loop adv (llm_compact ?b') inp' (fold (handle_line adv) (lines_from p d) x)"
      using False rc dropb st sc by (simp add: llm_loop.simps [of adv b inp] Let_def)
    ultimately show ?thesis by (simp add: cc lines_from_append)
  qed
qed


text \<open>A system call that records the pids it is given, for concrete runs.\<close>

definition record_pid :: "u32 list advise" where
  "record_pid pid s = (0, s @ [pid])"


section \<open>What a line means\<close>

lemma skip_blanks_append: "\<forall>c\<in>set w. c = CHR '' '' \<or> c = CHR 0x09 \<Longrightarrow> skip_blanks (w @ l) = skip_blanks l"
  by (induction w) auto

lemma buf_digits_nonempty: "buf_digits ds b x \<noteq> []"
  by (subst buf_digits.simps) simp

lemma parse_advice_line:
  assumes "\<forall>c\<in>set w. c = CHR '' '' \<or> c = CHR 0x09" and "0 < sint (n :: u32)" and "digit_free rest"
  shows "parse_advice (w @ advice_prefix @ printint kdigits (scast n) 10 True @ rest) = Some n"
proof -
  let ?num = "printint kdigits (scast n) 10 True" and ?l = "advice_prefix @ printint kdigits (scast n) 10 True @ rest"
  have nz: "NUL \<notin> set advice_prefix" by (simp add: advice_prefix_def)
  have "skip_blanks ?l = ?l" by (simp add: advice_prefix_def)
  then have sk: "skip_blanks (w @ ?l) = ?l" using skip_blanks_append [OF assms(1)] by simp
  have pre: "has_prefix advice_prefix ?l" using has_prefix_iff [OF nz] by blast
  have dr: "drop 11 ?l = ?num @ rest" by (simp add: advice_prefix_def)
  have num: "?num = rev (buf_digits kdigits 10 (unat n))" using printint_nonneg [of n] assms(2) by simp
  have "pid_loop (?num @ rest) 0 = of_nat (unat n)"
    unfolding num pid_loop_atoi using assms(3)
    by (simp add: atoi_loop_append buf_digits_digits atoi_loop_buf_digits atoi_loop_stop)
  then have pid: "pid_loop (?num @ rest) 0 = n" by simp
  have "\<forall>c\<in>set ?num. is_digit c" and "?num \<noteq> []"
    unfolding num using buf_digits_digits [of "unat n"] buf_digits_nonempty by auto
  then have dig: "is_digit (chd (?num @ rest))" by (cases ?num) auto
  show ?thesis
    using sk pre dr pid dig assms(2) by (simp add: parse_advice_def Let_def)
qed

text \<open>
  a line \<^verbatim>\<open>ADVICE:PID=<n>\<close>, with blanks before it and anything but a digit after the number, is parsed to
  exactly the pid that \<^verbatim>\<open>%d\<close> printed, for every positive pid.
\<close>

theorem parse_advice_correct:
  assumes "\<forall>c\<in>set w. c = CHR '' '' \<or> c = CHR 0x09" and "0 < sint (n :: u32)" and "digit_free rest"
  shows "parse_advice (w @ advice_prefix @ printint kdigits (scast n) 10 True @ rest) = Some n"
  using assms by (rule parse_advice_line)

theorem parse_advice_correct_witness:
  "parse_advice ('' '' @ advice_prefix @ printint kdigits (scast (42 :: u32)) 10 True @ '' TS=9 V=1'') = Some 42"
  using parse_advice_correct [of "'' ''" 42 "'' TS=9 V=1''"] by (simp add: sint32 digit_free_def is_digit_def)

text \<open>
  a line of 511 characters or more before its newline never reaches the system call: \<^verbatim>\<open>llmhelper\<close> fills its buffer,
  drops it, and sees only what follows, here the empty line.  The router truncates long lines to exactly
  511 characters, so an advice line of that length is lost although the router delivered it.
\<close>

theorem llm_main_drops_full_line:
  assumes "length l = 511" and "NL \<notin> set l"
  shows "fst (llm_main adv [l @ [NL]] s) = s"
proof -
  let ?b0 = "\<lparr>lb_buf = replicate BUF_SZ NUL, lb_start = 0, lb_end = 0\<rparr>"
  let ?b1 = "\<lparr>lb_buf = l @ [NUL], lb_start = 0, lb_end = 511\<rparr>"
  let ?b2 = "\<lparr>lb_buf = (NL # NUL # drop 2 (l @ [NUL])), lb_start = 0, lb_end = 1\<rparr>"
  have ne: "l \<noteq> []" using assms(1) by auto
  have st1: "llm_store l ?b0 = ?b1"
    using assms(1) by (simp add: llm_store_def Let_def BUF_SZ_def list_update_append)
  have sc1: "llm_scan adv 511 0 ?b1 x = (?b1, x)" for x
    using llm_scan_lines [of ?b1 "[]" "[]" l "[NUL]" adv x] assms no_newline_lines [OF assms(2), of "[]"]
    by auto
  have st2: "llm_store [NL] \<lparr>lb_buf = l @ [NUL], lb_start = 0, lb_end = 0\<rparr> = ?b2"
    using assms(1) by (cases l; cases "tl l") (auto simp: llm_store_def Let_def)
  have blank: "handle_line adv [] = id"
    by (auto simp: handle_line_def parse_advice_def advice_prefix_def Let_def split: prod.splits)
  have loop: "llm_loop adv ?b0 [l @ [NL]] x = x" for x
  proof -
    have "llm_loop adv ?b0 [l @ [NL]] x = llm_loop adv (llm_compact ?b1) [[NL]] x"
      using assms(1) ne st1 sc1 by (subst llm_loop.simps) (simp add: Let_def llm_drop_def read_chunk_def BUF_SZ_def)
    also have "llm_compact ?b1 = ?b1" by (simp add: llm_compact_def)
    also have "llm_loop adv ?b1 [[NL]] x = llm_loop adv (llm_compact (?b2\<lparr>lb_buf := (lb_buf ?b2)[0 := NUL], lb_start := 1\<rparr>)) [] x"
      using st2 blank handle_line_cut [of adv "[]" "NUL # drop 2 (l @ [NUL])"]
      by (subst llm_loop.simps) (simp add: Let_def llm_drop_def read_chunk_def BUF_SZ_def)
    also have "\<dots> = x" by (subst llm_loop.simps) (simp add: read_chunk_def Let_def)
    finally show ?thesis .
  qed
  show ?thesis unfolding llm_main_def loop by simp
qed

theorem llm_main_drops_full_line_witness:
  "fst (llm_main record_pid [(''ADVICE:PID=7 '' @ replicate 498 CHR ''x'') @ [NL]] []) = []"
  by (rule llm_main_drops_full_line) simp_all

end
