(* ===== verification/Utils.thy ===== *)
theory Utils
  imports Grep Llmhelper
begin

text \<open>
  The utilities \<^verbatim>\<open>user/cat.c\<close>, \<^verbatim>\<open>user/wc.c\<close> and \<^verbatim>\<open>user/echo.c\<close> and the main program of \<^verbatim>\<open>user/grep.c\<close>.  What \<^verbatim>\<open>read\<close> will deliver on a descriptor is a list of results, \<open>None\<close> for
  an error; a file that can be opened has such a list.  A function either returns or has called \<^verbatim>\<open>exit\<close> with a status.
\<close>

section \<open>Reading\<close>

type_synonym reads = "string option list"

record io =
  u_out :: string
  u_err :: string

definition read_res :: "nat \<Rightarrow> reads \<Rightarrow> string option \<times> reads" where
  "read_res k rs =
     (case rs of
        [] \<Rightarrow> (Some [], [])
      | None # rs \<Rightarrow> (None, rs)
      | Some c # rs \<Rightarrow> (Some (take k c), if drop k c = [] then rs else Some (drop k c) # rs))"

definition left_of :: "reads \<Rightarrow> nat" where
  "left_of rs = length (concat (map (\<lambda>r. case r of None \<Rightarrow> [] | Some c \<Rightarrow> c) rs))"

lemma read_res_shorter: "read_res k rs = (Some d, rs') \<Longrightarrow> d \<noteq> [] \<Longrightarrow> left_of rs' < left_of rs"
proof (cases rs)
  case (Cons r rest)
  assume r: "read_res k rs = (Some d, rs')" "d \<noteq> []"
  then obtain c where "r = Some c" "d = take k c" "rs' = (if drop k c = [] then rest else Some (drop k c) # rest)"
    using Cons by (auto simp: read_res_def split: option.splits)
  then show ?thesis using Cons r(2) by (auto simp: left_of_def)
qed (auto simp: read_res_def)

definition say_out :: "string \<Rightarrow> io \<Rightarrow> io" where
  "say_out t s = s\<lparr>u_out := u_out s @ t\<rparr>"

definition say_err :: "string \<Rightarrow> io \<Rightarrow> io" where
  "say_err t s = s\<lparr>u_err := u_err s @ t\<rparr>"

section \<open>cat\<close>

text \<open>\<open>wr d\<close> is the number of bytes of \<open>d\<close> that \<^verbatim>\<open>write\<close> accepts, negative for an error.\<close>

function cat :: "(string \<Rightarrow> int) \<Rightarrow> reads \<Rightarrow> io \<Rightarrow> int option \<times> io" where
  "cat wr rs s =
     (case read_res 512 rs of
        (None, _) \<Rightarrow> (Some 1, say_err (''cat: read error'' @ [NL]) s)
      | (Some d, rs') \<Rightarrow>
          if d = [] then (None, s)
          else if wr d \<noteq> int (length d) then (Some 1, say_err (''cat: write error'' @ [NL]) (say_out (take (nat (wr d)) d) s))
          else cat wr rs' (say_out d s))"
  by pat_completeness auto
termination
  by (relation "measure (\<lambda>(wr, rs, s). left_of rs)") (auto intro: read_res_shorter [OF sym])

declare cat.simps [simp del]

primrec cat_files :: "(string \<Rightarrow> int) \<Rightarrow> (string \<Rightarrow> reads option) \<Rightarrow> string list \<Rightarrow> io \<Rightarrow> int \<times> io" where
  "cat_files wr files [] s = (0, s)"
| "cat_files wr files (f # fs) s =
     (case files f of
        None \<Rightarrow> (1, say_err (''cat: cannot open '' @ f @ [NL]) s)
      | Some rs \<Rightarrow> (case cat wr rs s of (Some e, s) \<Rightarrow> (e, s) | (None, s) \<Rightarrow> cat_files wr files fs s))"

definition cat_main :: "(string \<Rightarrow> int) \<Rightarrow> (string \<Rightarrow> reads option) \<Rightarrow> reads \<Rightarrow> string list \<Rightarrow> io \<Rightarrow> int \<times> io" where
  "cat_main wr files inp args s =
     (if args = [] then (case cat wr inp s of (Some e, s) \<Rightarrow> (e, s) | (None, s) \<Rightarrow> (0, s))
      else cat_files wr files args s)"

section \<open>wc\<close>

record counts =
  n_l :: u32
  n_w :: u32
  n_c :: u32
  n_in :: bool

definition wc_space :: "char \<Rightarrow> bool" where
  "wc_space c \<longleftrightarrow> strchr [CHR '' '', CHR 0x0D, CHR 0x09, CHR 0x0A, CHR 0x0B] c \<noteq> None"

definition wc_char :: "char \<Rightarrow> counts \<Rightarrow> counts" where
  "wc_char ch n =
     (let n = n\<lparr>n_c := n_c n + 1\<rparr>;
          n = (if ch = NL then n\<lparr>n_l := n_l n + 1\<rparr> else n)
      in if wc_space ch then n\<lparr>n_in := False\<rparr>
         else if \<not> n_in n then n\<lparr>n_w := n_w n + 1, n_in := True\<rparr> else n)"

function wc_loop :: "reads \<Rightarrow> counts \<Rightarrow> counts option" where
  "wc_loop rs n =
     (case read_res 512 rs of
        (None, _) \<Rightarrow> None
      | (Some d, rs') \<Rightarrow> if d = [] then Some n else wc_loop rs' (fold wc_char d n))"
  by pat_completeness auto
termination
  by (relation "measure (\<lambda>(rs, n). left_of rs)") (auto intro: read_res_shorter [OF sym])

declare wc_loop.simps [simp del]

definition wc :: "reads \<Rightarrow> string \<Rightarrow> io \<Rightarrow> int option \<times> io" where
  "wc rs name s =
     (case wc_loop rs \<lparr>n_l = 0, n_w = 0, n_c = 0, n_in = False\<rparr> of
        None \<Rightarrow> (Some 1, say_out (''wc: read error'' @ [NL]) s)
      | Some n \<Rightarrow> (None, say_out (uprintf (''%d %d %d %s'' @ [NL]) [AWord (scast (n_l n)), AWord (scast (n_w n)), AWord (scast (n_c n)), AStr (Some name)]) s))"

primrec wc_files :: "(string \<Rightarrow> reads option) \<Rightarrow> string list \<Rightarrow> io \<Rightarrow> int \<times> io" where
  "wc_files files [] s = (0, s)"
| "wc_files files (f # fs) s =
     (case files f of
        None \<Rightarrow> (1, say_out (''wc: cannot open '' @ f @ [NL]) s)
      | Some rs \<Rightarrow> (case wc rs f s of (Some e, s) \<Rightarrow> (e, s) | (None, s) \<Rightarrow> wc_files files fs s))"

definition wc_main :: "(string \<Rightarrow> reads option) \<Rightarrow> reads \<Rightarrow> string list \<Rightarrow> io \<Rightarrow> int \<times> io" where
  "wc_main files inp args s =
     (if args = [] then (case wc inp [] s of (Some e, s) \<Rightarrow> (e, s) | (None, s) \<Rightarrow> (0, s)) else wc_files files args s)"

section \<open>echo\<close>

fun echo_main :: "string list \<Rightarrow> io \<Rightarrow> io" where
  "echo_main [] s = s"
| "echo_main [a] s = say_out [NL] (say_out a s)"
| "echo_main (a # as) s = echo_main as (say_out '' '' (say_out a s))"

section \<open>grep\<close>

text \<open>\<^verbatim>\<open>grep\<close> itself takes no notice of read errors: a chunk list is what it gets to see.\<close>

primrec grep_files :: "string \<Rightarrow> (string \<Rightarrow> string list option) \<Rightarrow> string list \<Rightarrow> io \<Rightarrow> int \<times> io" where
  "grep_files pat files [] s = (0, s)"
| "grep_files pat files (f # fs) s =
     (case files f of
        None \<Rightarrow> (1, say_out (''grep: cannot open '' @ f @ [NL]) s)
      | Some inp \<Rightarrow> grep_files pat files fs (say_out (grep pat [] inp) s))"

definition grep_main :: "(string \<Rightarrow> string list option) \<Rightarrow> string list \<Rightarrow> string list \<Rightarrow> io \<Rightarrow> int \<times> io" where
  "grep_main files inp args s =
     (case args of
        [] \<Rightarrow> (1, say_err (''usage: grep pattern [file ...]'' @ [NL]) s)
      | [pat] \<Rightarrow> (0, say_out (grep pat [] inp) s)
      | pat # fs \<Rightarrow> grep_files pat files fs s)"

section \<open>What they compute\<close>

definition contents :: "reads \<Rightarrow> string" where
  "contents rs = concat (map (\<lambda>r. case r of None \<Rightarrow> [] | Some c \<Rightarrow> c) rs)"

definition clean :: "reads \<Rightarrow> bool" where
  "clean rs \<longleftrightarrow> (\<forall>r\<in>set rs. r \<noteq> None \<and> r \<noteq> Some [])"

lemma read_res_clean:
  assumes "clean rs" and "0 < k"
  obtains d rs' where "read_res k rs = (Some d, rs')" and "contents rs = d @ contents rs'" and "clean rs'" and "d = [] \<longleftrightarrow> rs = []"
proof (cases rs)
  case Nil
  then show thesis using that [of "[]" "[]"] by (simp add: read_res_def contents_def clean_def)
next
  case (Cons r rest)
  obtain c where c: "r = Some c" "c \<noteq> []" using assms(1) Cons by (auto simp: clean_def)
  let ?rs = "if drop k c = [] then rest else Some (drop k c) # rest"
  show thesis
  proof (rule that [of "take k c" ?rs])
    show "contents rs = take k c @ contents ?rs" using c Cons by (auto simp: contents_def)
    show "clean ?rs" using assms(1) Cons by (auto simp: clean_def)
  qed (use c Cons assms(2) in \<open>auto simp: read_res_def\<close>)
qed

function words_of :: "string \<Rightarrow> string list" where
  "words_of [] = []"
| "words_of (c # s) =
     (if wc_space c then words_of s
      else (c # takeWhile (\<lambda>c. \<not> wc_space c) s) # words_of (dropWhile (\<lambda>c. \<not> wc_space c) s))"
  by pat_completeness auto
termination
  by (relation "measure length") (auto simp: less_Suc_eq_le length_dropWhile_le)

primrec word_starts :: "bool \<Rightarrow> string \<Rightarrow> nat" where
  "word_starts b [] = 0"
| "word_starts b (c # s) = (if wc_space c then word_starts False s else (if b then 0 else 1) + word_starts True s)"

lemma word_starts_in: "word_starts True s = word_starts False (dropWhile (\<lambda>c. \<not> wc_space c) s)"
  by (induction s) auto

lemma word_starts_words: "word_starts False s = length (words_of s)"
  by (induction s rule: words_of.induct) (auto simp: word_starts_in)

lemma fold_wc_char:
  "n_l (fold wc_char s n) = n_l n + of_nat (length (filter (\<lambda>c. c = NL) s)) \<and>
   n_w (fold wc_char s n) = n_w n + of_nat (word_starts (n_in n) s) \<and> n_c (fold wc_char s n) = n_c n + of_nat (length s)"
proof (induction s arbitrary: n)
  case (Cons c s)
  have "wc_space NL" by (simp add: wc_space_def)
  then show ?case using Cons [of "wc_char c n"] by (auto simp: wc_char_def Let_def)
qed simp

lemma wc_loop_clean: "clean rs \<Longrightarrow> wc_loop rs n = Some (fold wc_char (contents rs) n)"
proof (induction rs n rule: wc_loop.induct)
  case (1 rs n)
  obtain d rs' where d: "read_res 512 rs = (Some d, rs')" "contents rs = d @ contents rs'" "clean rs'" "d = [] \<longleftrightarrow> rs = []"
    using read_res_clean [OF "1.prems", of 512] by auto
  show ?case
  proof (cases "d = []")
    case True
    then show ?thesis using d by (simp add: wc_loop.simps [of "[]"] contents_def)
  next
    case False
    then show ?thesis using d "1.IH" [OF d(1) [symmetric] refl False d(3)] by (simp add: wc_loop.simps [of rs])
  qed
qed

text \<open>
  \<^verbatim>\<open>wc\<close> counts lines, words and characters.  However \<^verbatim>\<open>read\<close> cuts the file into chunks, and so also when it cuts
  a word in two, \<^verbatim>\<open>wc\<close> prints the number of newlines, of maximal runs without blanks, and of characters of the
  whole file, each as a 32-bit number.
\<close>

theorem wc_counts:
  assumes "clean rs"
  shows "wc rs name s = (None, say_out (uprintf (''%d %d %d %s'' @ [NL])
    [AWord (scast (of_nat (length (filter (\<lambda>c. c = NL) (contents rs))) :: u32)), AWord (scast (of_nat (length (words_of (contents rs))) :: u32)),
     AWord (scast (of_nat (length (contents rs)) :: u32)), AStr (Some name)]) s)"
  using fold_wc_char [of "contents rs" "\<lparr>n_l = 0, n_w = 0, n_c = 0, n_in = False\<rparr>"]
  by (simp add: wc_def wc_loop_clean [OF assms] word_starts_words)

theorem wc_counts_witness:
  "wc [Some (''to b''), Some (''e or'' @ [NL])] ''f'' \<lparr>u_out = [], u_err = []\<rparr> = (None, \<lparr>u_out = ''1 3 9 f'' @ [NL], u_err = []\<rparr>)"
proof -
  have "clean [Some (''to b''), Some (''e or'' @ [NL])]" by (simp add: clean_def)
  from wc_counts [OF this, of "''f''" "\<lparr>u_out = [], u_err = []\<rparr>"] show ?thesis
    by (simp add: contents_def wc_space_def say_out_def) code_simp
qed

lemma cat_clean: "clean rs \<Longrightarrow> \<forall>d. wr d = int (length d) \<Longrightarrow> cat wr rs s = (None, say_out (contents rs) s)"
proof (induction wr rs s rule: cat.induct)
  case (1 wr rs s)
  obtain d rs' where d: "read_res 512 rs = (Some d, rs')" "contents rs = d @ contents rs'" "clean rs'" "d = [] \<longleftrightarrow> rs = []"
    using read_res_clean [OF "1.prems"(1), of 512] by auto
  show ?case
  proof (cases "d = []")
    case True
    then show ?thesis using d by (simp add: cat.simps [of wr "[]"] contents_def say_out_def)
  next
    case False
    have w: "wr d = int (length d)" using "1.prems"(2) by blast
    then have "cat wr rs' (say_out d s) = (None, say_out (contents rs') (say_out d s))"
      using "1.IH" [OF d(1) [symmetric] refl False _ d(3)] "1.prems"(2) by blast
    then show ?thesis using d(1,2) w False by (subst cat.simps) (simp add: say_out_def)
  qed
qed

text \<open>\<^verbatim>\<open>cat\<close> writes the contents of its files one after the other, if they can all be opened, read and written.\<close>

theorem cat_concatenates:
  assumes "\<forall>f\<in>set args. \<exists>rs. files f = Some rs \<and> clean rs" and "\<forall>d. wr d = int (length d)" and "args \<noteq> []"
  shows "cat_main wr files inp args s = (0, say_out (concat (map (\<lambda>f. contents (the (files f))) args)) s)"
proof -
  have "cat_files wr files fs s = (0, say_out (concat (map (\<lambda>f. contents (the (files f))) fs)) s)" if "set fs \<subseteq> set args" for fs s
    using that
  proof (induction fs arbitrary: s)
    case (Cons f fs)
    obtain rs where "files f = Some rs" "clean rs" using assms(1) Cons.prems by auto
    then show ?case using Cons cat_clean [OF _ assms(2)] by (simp add: say_out_def)
  qed (simp add: say_out_def)
  then show ?thesis using assms(3) by (simp add: cat_main_def)
qed

theorem cat_concatenates_witness:
  "cat_main (\<lambda>d. int (length d)) [''a'' \<mapsto> [Some ''hel'', Some ''lo''], ''b'' \<mapsto> [Some ''!'']] [] [''a'', ''b''] \<lparr>u_out = [], u_err = []\<rparr> =
     (0, \<lparr>u_out = ''hello!'', u_err = []\<rparr>)"
  by (subst cat_concatenates) (auto simp: clean_def contents_def say_out_def)

end
