(* ===== verification/Init.thy ===== *)
theory Init
  imports Llmhelper
begin

text \<open>
  The input router of \<^verbatim>\<open>user/init.c\<close>: the process that reads the console and forwards each line to the shell's pipe
  or to the pipe of \<^verbatim>\<open>llmhelper\<close>.  The input is the list of characters that \<^verbatim>\<open>read(0, &c, 1)\<close> delivers; the bytes
  written to the two pipes are collected.  The characters collected so far are the first \<^verbatim>\<open>n\<close> of the line buffer.
\<close>

definition LINE_BUF :: nat where
  "LINE_BUF = 512"

definition is_advice_line :: "string \<Rightarrow> bool" where
  "is_advice_line s = has_prefix ''ADVICE:PID='' s"

record router =
  rt_buf :: string
  rt_sh :: string
  rt_llm :: string

definition router_line :: "int \<Rightarrow> int \<Rightarrow> router \<Rightarrow> router" where
  "router_line sh_fd llm_fd r =
     (let line = rt_buf r @ [NUL];
          r' = (if length (rt_buf r) > 0 \<and> is_advice_line line
                then (if llm_fd \<ge> 0 then r\<lparr>rt_llm := rt_llm r @ rt_buf r @ [NL]\<rparr> else r)
                else (if sh_fd \<ge> 0 then r\<lparr>rt_sh := rt_sh r @ rt_buf r @ [NL]\<rparr> else r))
      in r'\<lparr>rt_buf := []\<rparr>)"

definition router_char :: "int \<Rightarrow> int \<Rightarrow> char \<Rightarrow> router \<Rightarrow> router" where
  "router_char sh_fd llm_fd c r =
     (let c = (if c = CHR 0x0D then NL else c) in
      if c = NL then router_line sh_fd llm_fd r
      else if length (rt_buf r) < LINE_BUF - 1 then r\<lparr>rt_buf := rt_buf r @ [c]\<rparr>
      else r)"

text \<open>The loop ends, by \<^verbatim>\<open>exit(0)\<close>, when the console has no more input.\<close>

primrec router_loop :: "int \<Rightarrow> int \<Rightarrow> string \<Rightarrow> router \<Rightarrow> router" where
  "router_loop sh_fd llm_fd [] r = r"
| "router_loop sh_fd llm_fd (c # inp) r = router_loop sh_fd llm_fd inp (router_char sh_fd llm_fd c r)"

section \<open>The router sorts lines\<close>

definition enter_to_newline :: "string \<Rightarrow> string" where
  "enter_to_newline = map (\<lambda>c. if c = CHR 0x0D then NL else c)"

definition advice_line :: "string \<Rightarrow> bool" where
  "advice_line l \<longleftrightarrow> (\<exists>r. l = advice_prefix @ r)"

lemma router_line_test:
  "length l > 0 \<and> is_advice_line (l @ [NUL]) \<longleftrightarrow> advice_line l"
proof -
  have p: "NUL \<notin> set ''ADVICE:PID=''" by simp
  have "has_prefix ''ADVICE:PID='' (l @ [NUL]) \<longleftrightarrow> has_prefix ''ADVICE:PID='' l"
  proof -
    have "cstr (l @ [NUL]) = cstr l" by (induction l) auto
    then show ?thesis using has_prefix_cstr [OF p] by metis
  qed
  also have "\<dots> \<longleftrightarrow> advice_line l"
    using has_prefix_iff [OF p] by (simp add: advice_line_def advice_prefix_def)
  finally show ?thesis by (auto simp: is_advice_line_def advice_line_def advice_prefix_def)
qed

lemma router_loop_sorts:
  assumes "0 \<le> sh_fd" and "0 \<le> llm_fd" and "rt_buf r = take 511 acc"
  shows "router_loop sh_fd llm_fd inp r =
    (let ls = map (take 511) (lines_from acc (enter_to_newline inp)) in
     \<lparr>rt_buf = take 511 (rest_from acc (enter_to_newline inp)),
      rt_sh = rt_sh r @ unlines (filter (\<lambda>l. \<not> advice_line l) ls),
      rt_llm = rt_llm r @ unlines (filter advice_line ls)\<rparr>)"
  using assms(3)
proof (induction inp arbitrary: acc r)
  case Nil
  then show ?case by (simp add: enter_to_newline_def unlines_def)
next
  case (Cons c inp)
  let ?c = "if c = CHR 0x0D then NL else c"
  show ?case
  proof (cases "?c = NL")
    case True
    then have "router_char sh_fd llm_fd c r =
        (if advice_line (rt_buf r) then r\<lparr>rt_llm := rt_llm r @ rt_buf r @ [NL], rt_buf := []\<rparr>
         else r\<lparr>rt_sh := rt_sh r @ rt_buf r @ [NL], rt_buf := []\<rparr>)"
      using assms(1,2) router_line_test [of "rt_buf r"]
      by (simp add: router_char_def router_line_def Let_def split: if_splits)
    with True Cons.IH [of "router_char sh_fd llm_fd c r" "[]"] Cons.prems show ?thesis
      by (auto simp: enter_to_newline_def unlines_def Let_def)
  next
    case False
    then have "router_char sh_fd llm_fd c r = r\<lparr>rt_buf := take 511 (acc @ [?c])\<rparr>"
      using Cons.prems by (cases r) (auto simp: router_char_def Let_def LINE_BUF_def)
    with False Cons.IH [of "r\<lparr>rt_buf := take 511 (acc @ [?c])\<rparr>" "acc @ [?c]"] show ?thesis
      by (simp add: enter_to_newline_def)
  qed
qed



end
