(* ===== verification/Riscv.thy ===== *)
theory Riscv
  imports CString
begin

text \<open>
  The macros of \<^verbatim>\<open>kernel/riscv.h\<close> and \<^verbatim>\<open>kernel/memlayout.h\<close>: page rounding, page-table entries,
  virtual address fields and the address map; and 64-bit and 32-bit little-endian accesses to the
  byte memory.  The lemmas give each macro its arithmetic meaning.
\<close>

section \<open>Address map\<close>

definition PGSIZE :: u64 where "PGSIZE = 4096"
definition KERNBASE :: u64 where "KERNBASE = 0x80000000"
definition PHYSTOP :: u64 where "PHYSTOP = KERNBASE + 128 * 1024 * 1024"
definition UART0 :: u64 where "UART0 = 0x10000000"
definition VIRTIO0 :: u64 where "VIRTIO0 = 0x10001000"
definition PLIC :: u64 where "PLIC = 0x0c000000"
definition MAXVA :: u64 where "MAXVA = push_bit (9 + 9 + 9 + 12 - 1) 1"
definition TRAMPOLINE :: u64 where "TRAMPOLINE = MAXVA - PGSIZE"
definition KSTACK :: "nat \<Rightarrow> u64" where "KSTACK p = TRAMPOLINE - (of_nat p + 1) * 2 * PGSIZE"
definition TRAPFRAME :: u64 where "TRAPFRAME = TRAMPOLINE - PGSIZE"

section \<open>Pages and page-table entries\<close>

definition PGROUNDUP :: "u64 \<Rightarrow> u64" where
  "PGROUNDUP sz = (sz + PGSIZE - 1) AND NOT (PGSIZE - 1)"

definition PGROUNDDOWN :: "u64 \<Rightarrow> u64" where
  "PGROUNDDOWN a = a AND NOT (PGSIZE - 1)"

definition PTE_V :: u64 where "PTE_V = push_bit 0 1"
definition PTE_R :: u64 where "PTE_R = push_bit 1 1"
definition PTE_W :: u64 where "PTE_W = push_bit 2 1"
definition PTE_X :: u64 where "PTE_X = push_bit 3 1"
definition PTE_U :: u64 where "PTE_U = push_bit 4 1"

definition PA2PTE :: "u64 \<Rightarrow> u64" where "PA2PTE pa = push_bit 10 (drop_bit 12 pa)"
definition PTE2PA :: "u64 \<Rightarrow> u64" where "PTE2PA pte = push_bit 12 (drop_bit 10 pte)"
definition PTE_FLAGS :: "u64 \<Rightarrow> u64" where "PTE_FLAGS pte = pte AND 0x3FF"

definition PX :: "nat \<Rightarrow> u64 \<Rightarrow> u64" where
  "PX level va = drop_bit (12 + 9 * level) va AND 0x1FF"

definition SATP_SV39 :: u64 where "SATP_SV39 = push_bit 60 8"
definition MAKE_SATP :: "u64 \<Rightarrow> u64" where "MAKE_SATP pt = SATP_SV39 OR drop_bit 12 pt"

section \<open>Multi-byte accesses\<close>

primrec load_le :: "nat \<Rightarrow> mem \<Rightarrow> u64 \<Rightarrow> u64" where
  "load_le 0 m a = 0"
| "load_le (Suc n) m a = ucast (m a) OR push_bit 8 (load_le n m (a + 1))"

primrec store_le :: "nat \<Rightarrow> u64 \<Rightarrow> u64 \<Rightarrow> mem \<Rightarrow> mem" where
  "store_le 0 a v m = m"
| "store_le (Suc n) a v m = store_le n (a + 1) (drop_bit 8 v) (m(a := ucast v))"

abbreviation load64 :: "mem \<Rightarrow> u64 \<Rightarrow> u64" where "load64 \<equiv> load_le 8"
abbreviation store64 :: "u64 \<Rightarrow> u64 \<Rightarrow> mem \<Rightarrow> mem" where "store64 \<equiv> store_le 8"

definition load32 :: "mem \<Rightarrow> u64 \<Rightarrow> u32" where "load32 m a = ucast (load_le 4 m a)"
definition store32 :: "u64 \<Rightarrow> u32 \<Rightarrow> mem \<Rightarrow> mem" where "store32 a v = store_le 4 a (ucast v)"

lemma store_le_other:
  "n < 2 ^ 64 \<Longrightarrow> \<not> in_range a n b \<Longrightarrow> store_le n a v m b = m b"
  by (induction n arbitrary: a v m) (auto simp: in_range_Suc)

lemma not_in_range_next: "n < 2 ^ 64 \<Longrightarrow> \<not> in_range (a + 1) n a"
  using unat_diff_eq_iff [of "2 ^ 64 - 1" "a" "a + 1"] by (simp add: in_range_def)

lemma load_le_cong:
  assumes "\<And>b. in_range a n b \<Longrightarrow> m b = m' b" and "n < 2 ^ 64"
  shows "load_le n m a = load_le n m' a"
  using assms
proof (induction n arbitrary: a)
  case (Suc n)
  then have "m a = m' a" by (simp add: in_range_def)
  with Suc show ?case by (auto simp: in_range_Suc)
qed simp

lemma load_store_le:
  "n < 2 ^ 64 \<Longrightarrow> load_le n (store_le n a v m) a = take_bit (8 * n) v"
proof (induction n arbitrary: a v m)
  case (Suc n)
  then have "load_le (Suc n) (store_le (Suc n) a v m) a =
      ucast (ucast v :: u8) OR push_bit 8 (take_bit (8 * n) (drop_bit 8 v))"
    by (simp add: store_le_other not_in_range_next)
  also have "\<dots> = take_bit (8 * Suc n) v"
    by (rule bit_eqI) (auto simp: bit_simps)
  finally show ?case .
qed simp

lemma load_store64 [simp]: "load64 (store64 a v m) a = v"
proof -
  have "take_bit 64 v = v" by (rule bit_eqI) (auto simp: bit_simps)
  then show ?thesis by (simp add: load_store_le)
qed

lemma load_store32 [simp]: "load32 (store32 a v m) a = v"
  unfolding load32_def store32_def
  by (simp add: load_store_le) (rule bit_eqI, auto simp: bit_simps)

section \<open>Arithmetic meaning of the macros\<close>

lemma PGROUNDDOWN_shift: "PGROUNDDOWN a = push_bit 12 (drop_bit 12 a)"
proof -
  have m: "PGSIZE - 1 = mask 12" by (simp add: mask_eq_exp_minus_1 PGSIZE_def)
  show ?thesis unfolding PGROUNDDOWN_def m by (rule bit_eqI) (auto simp: bit_simps)
qed

lemma unat_PGROUNDDOWN: "unat (PGROUNDDOWN a) = unat a div 4096 * 4096"
proof -
  have "unat (push_bit 12 (drop_bit 12 a)) = (unat a div 4096 * 4096) mod 2 ^ 64"
    by (simp add: push_bit_eq_mult drop_bit_eq_div unat_word_ariths unat_div mod_mult_left_eq)
  also have "\<dots> = unat a div 4096 * 4096"
    using unat_bound64 [of a] by (intro mod_less) (meson div_times_less_eq_dividend le_less_trans)
  finally show ?thesis by (simp add: PGROUNDDOWN_shift)
qed

lemma PGROUNDUP_down: "PGROUNDUP sz = PGROUNDDOWN (sz + 4095)"
  by (simp add: PGROUNDUP_def PGROUNDDOWN_def PGSIZE_def algebra_simps)

lemma unat_PGROUNDUP:
  assumes "unat sz + 4095 < 2 ^ 64"
  shows "unat (PGROUNDUP sz) = (unat sz + 4095) div 4096 * 4096"
  using assms by (simp add: PGROUNDUP_down unat_PGROUNDDOWN unat_word_ariths)

lemma PX_less: "unat (PX l va) < 512"
proof -
  have "unat (PX l va) = unat (take_bit 9 (drop_bit (12 + 9 * l) va))"
    by (simp add: PX_def take_bit_eq_mask mask_eq_exp_minus_1)
  also have "\<dots> < 2 ^ 9"
    unfolding unsigned_take_bit_eq by (rule take_bit_nat_less_exp)
  finally show ?thesis by simp
qed

text \<open>Below \<^verbatim>\<open>MAXVA\<close> the page number of a virtual address is exactly its three indices.\<close>

lemma PX_bits: "bit (PX l va) n \<longleftrightarrow> n < 9 \<and> bit va (12 + 9 * l + n)"
proof -
  have "PX l va = take_bit 9 (drop_bit (12 + 9 * l) va)"
    by (simp add: PX_def take_bit_eq_mask mask_eq_exp_minus_1)
  then show ?thesis by (auto simp: bit_simps bit_imp_le_length)
qed

lemma small_no_high_bits: "unat (a :: u64) < 2 ^ k \<Longrightarrow> k \<le> n \<Longrightarrow> \<not> bit a n"
proof -
  assume a: "unat a < 2 ^ k" and n: "k \<le> n"
  then have "unat a < 2 ^ n" using power_increasing [of k n "2 :: nat"] by linarith
  then have "\<not> bit (unat a) n" by (simp add: bit_iff_odd)
  then show ?thesis by (auto simp: bit_unsigned_iff)
qed

lemma page_bits_eqI:
  assumes "PX 0 a = PX 0 b" and "PX 1 a = PX 1 b" and "PX 2 a = PX 2 b"
    and "unat a < 2 ^ 38" and "unat b < 2 ^ 38"
  shows "PGROUNDDOWN a = PGROUNDDOWN b"
proof -
  have same: "bit a (12 + 9 * l + i) \<longleftrightarrow> bit b (12 + 9 * l + i)"
    if "l < 3" and "i < 9" for l i
  proof -
    have "l = 0 \<or> l = 1 \<or> l = 2" using that by auto
    then have "PX l a = PX l b" using assms(1,2,3) by auto
    then show ?thesis using PX_bits [of l a i] PX_bits [of l b i] that by simp
  qed
  have "bit a n \<longleftrightarrow> bit b n" if "12 \<le> n" for n
  proof (cases "n < 39")
    case True
    let ?l = "(n - 12) div 9" and ?i = "(n - 12) mod 9"
    have "12 + 9 * ?l + ?i = n" using that by simp
    moreover have "?l < 3" and "?i < 9" using True that by auto
    ultimately show ?thesis using same by metis
  next
    case False
    then show ?thesis using small_no_high_bits [OF assms(4)] small_no_high_bits [OF assms(5)] by auto
  qed
  then show ?thesis unfolding PGROUNDDOWN_shift by (intro bit_eqI) (auto simp: bit_simps)
qed

lemma PTE2PA_PA2PTE:
  assumes "PGROUNDDOWN pa = pa" and "unat pa < 2 ^ 56" and "unat fl < 2 ^ 10"
  shows "PTE2PA (PA2PTE pa OR fl) = pa" and "PTE_FLAGS (PA2PTE pa OR fl) = fl"
proof -
  have al: "push_bit 12 (drop_bit 12 pa) = pa"
    using assms(1) by (simp add: PGROUNDDOWN_shift)
  note hi = small_no_high_bits [OF assms(2)] and fl = small_no_high_bits [OF assms(3)]
  have "PTE2PA (PA2PTE pa OR fl) = push_bit 12 (drop_bit 12 pa)"
    by (rule bit_eqI) (use hi fl in \<open>auto simp: PTE2PA_def PA2PTE_def bit_simps\<close>)
  then show "PTE2PA (PA2PTE pa OR fl) = pa" by (simp only: al)
  have m: "(0x3FF :: u64) = mask 10" by (simp add: mask_eq_exp_minus_1)
  show "PTE_FLAGS (PA2PTE pa OR fl) = fl"
    unfolding PTE_FLAGS_def m PA2PTE_def
    by (rule bit_eqI) (use fl linorder_not_less in \<open>auto simp: bit_simps\<close>)
qed

section \<open>Aligned pages\<close>

abbreviation aligned :: "u64 \<Rightarrow> bool" where
  "aligned p \<equiv> PGROUNDDOWN p = p"

lemma aligned_iff: "aligned p \<longleftrightarrow> unat p mod 4096 = 0"
proof -
  have "aligned p \<longleftrightarrow> unat p div 4096 * 4096 = unat p"
    by (metis unat_PGROUNDDOWN word_unat_eq_iff)
  also have "\<dots> \<longleftrightarrow> unat p mod 4096 = 0"
    using div_mult_mod_eq [of "unat p" 4096] by linarith
  finally show ?thesis .
qed

lemma aligned_mod: "p mod PGSIZE = 0 \<longleftrightarrow> aligned p"
proof -
  have "p mod PGSIZE = 0 \<longleftrightarrow> unat (p mod PGSIZE) = 0" by (simp add: unat_eq_0)
  also have "\<dots> \<longleftrightarrow> unat p mod 4096 = 0" by (simp add: unat_mod PGSIZE_def)
  finally show ?thesis by (simp only: aligned_iff)
qed

lemma aligned_room: "aligned p \<Longrightarrow> unat p + 4096 \<le> 2 ^ 64"
proof -
  assume "aligned p"
  then obtain k where k: "unat p = 4096 * k" by (auto simp: aligned_iff)
  with unat_bound64 [of p] have "k < 2 ^ 52" by simp
  then have "k + 1 \<le> 2 ^ 52" by simp
  then have "4096 * (k + 1) \<le> 4096 * 2 ^ 52" by (rule mult_le_mono2)
  with k show ?thesis by simp
qed

lemma PGROUNDDOWN_aligned [simp]: "aligned (PGROUNDDOWN a)"
  by (simp add: aligned_iff unat_PGROUNDDOWN)

lemma PGROUNDDOWN_le: "unat (PGROUNDDOWN a) \<le> unat a" "unat a < unat (PGROUNDDOWN a) + 4096"
  unfolding unat_PGROUNDDOWN using div_mult_mod_eq [of "unat a" 4096] mod_less_divisor [of 4096 "unat a"]
  by linarith+

lemma in_range_unat:
  assumes "unat p + n \<le> 2 ^ 64"
  shows "in_range p n a \<longleftrightarrow> unat p \<le> unat a \<and> unat a < unat p + n"
proof -
  have "unat (a - p) = (if unat p \<le> unat a then unat a - unat p else 2 ^ 64 + unat a - unat p)"
    by (auto simp: unat_word_ariths uint_word_ariths unat_sub_if_size word_size)
  then show ?thesis using assms unat_bound64 [of a] by (auto simp: in_range_def)
qed

lemma in_page: "aligned p \<Longrightarrow> in_range p 4096 a \<longleftrightarrow> PGROUNDDOWN a = p"
proof -
  assume p: "aligned p"
  then have "in_range p 4096 a \<longleftrightarrow> unat p \<le> unat a \<and> unat a < unat p + 4096"
    using in_range_unat [OF aligned_room] by blast
  also have "\<dots> \<longleftrightarrow> unat a div 4096 * 4096 = unat p"
  proof -
    from p obtain k where k: "unat p = 4096 * k" by (auto simp: aligned_iff)
    have "4096 * k \<le> n \<and> n < 4096 * k + 4096 \<longleftrightarrow> n div 4096 = k" for n
      using div_mult_mod_eq [of n 4096] mod_less_divisor [of 4096 n]
      by (auto intro!: div_nat_eqI)
    with k show ?thesis by auto
  qed
  also have "\<dots> \<longleftrightarrow> PGROUNDDOWN a = p" by (metis unat_PGROUNDDOWN word_unat_eq_iff)
  finally show ?thesis .
qed

lemma pages_disjoint:
  "aligned p \<Longrightarrow> aligned q \<Longrightarrow> p \<noteq> q \<Longrightarrow> in_range p 4096 a \<Longrightarrow> \<not> in_range q 4096 a"
  by (simp add: in_page)

lemma no_high_bits_small:
  assumes "\<And>n. k \<le> n \<Longrightarrow> \<not> bit (a :: u64) n"
  shows "unat a < 2 ^ k"
proof -
  have "take_bit k a = a"
    by (rule bit_eqI) (use assms in \<open>auto simp: bit_take_bit_iff not_le intro: ccontr\<close>)
  then have "unat a = take_bit k (unat a)" by (metis unsigned_take_bit_eq)
  then show ?thesis by (metis take_bit_nat_less_exp)
qed

end
