(* ===== verification/Kalloc.thy ===== *)
theory Kalloc
  imports Printf Riscv
begin

text \<open>
  The physical page allocator, \<^verbatim>\<open>kernel/kalloc.c\<close>.  Memory is bytes; the free list is threaded
  through the free pages themselves (the first eight bytes of a free page are \<^verbatim>\<open>struct run\<close>'s
  \<^verbatim>\<open>next\<close>), as in the code.  \<open>free_list\<close> relates the memory to the list of free pages, and the
  operations refine a stack of pages.  \<open>k_end\<close> is the linker's symbol \<^verbatim>\<open>end\<close>.
\<close>

record kmem = kuart +
  pmem :: mem
  freelist :: u64
  k_end :: u64

section \<open>Operations\<close>

definition kfree :: "nat \<Rightarrow> u64 \<Rightarrow> 'a kmem_scheme \<Rightarrow> (unit, 'a kmem_scheme) res" where
  "kfree h pa s =
     (if pa mod PGSIZE \<noteq> 0 \<or> pa < k_end s \<or> PHYSTOP \<le> pa then Panic ''kfree''
      else
        let s = s\<lparr>pmem := memset pa 1 4096 (pmem s)\<rparr>
        in kbind (acquire h LKmem s) (\<lambda>_ s.
           release h LKmem (s\<lparr>pmem := store64 pa (freelist s) (pmem s), freelist := pa\<rparr>)))"

definition kalloc :: "nat \<Rightarrow> 'a kmem_scheme \<Rightarrow> (u64, 'a kmem_scheme) res" where
  "kalloc h s =
     kbind (acquire h LKmem s) (\<lambda>_ s.
     let r = freelist s;
         s = (if r \<noteq> 0 then s\<lparr>freelist := load64 (pmem s) r\<rparr> else s)
     in kbind (release h LKmem s) (\<lambda>_ s.
        Ok r (if r \<noteq> 0 then s\<lparr>pmem := memset r 5 4096 (pmem s)\<rparr> else s)))"

text \<open>The loop bound is written without wrap-around: C leaves overflow of the pointer undefined.\<close>

function freerange_from :: "nat \<Rightarrow> u64 \<Rightarrow> u64 \<Rightarrow> 'a kmem_scheme \<Rightarrow> (unit, 'a kmem_scheme) res" where
  "freerange_from h p pa_end s =
     (if unat p + unat PGSIZE \<le> unat pa_end
      then kbind (kfree h p s) (\<lambda>_ s. freerange_from h (p + PGSIZE) pa_end s)
      else Ok () s)"
  by pat_completeness auto
termination
proof (relation "measure (\<lambda>(h, p, e, s). unat e - unat p)", goal_cases)
  case (2 h p pa_end s x xa)
  then have "unat (p + PGSIZE) = unat p + 4096"
    using unat_bound64 [of pa_end] by (simp add: PGSIZE_def unat_word_ariths)
  with 2 show ?case by (simp add: PGSIZE_def)
qed simp

declare freerange_from.simps [simp del]

definition freerange :: "nat \<Rightarrow> u64 \<Rightarrow> u64 \<Rightarrow> 'a kmem_scheme \<Rightarrow> (unit, 'a kmem_scheme) res" where
  "freerange h pa_start pa_end s = freerange_from h (PGROUNDUP pa_start) pa_end s"

definition kinit :: "nat \<Rightarrow> 'a kmem_scheme \<Rightarrow> (unit, 'a kmem_scheme) res" where
  "kinit h s = freerange h (k_end s) PHYSTOP (initlock LKmem ''kmem'' s)"

section \<open>The abstract free list\<close>

text \<open>\<open>page_ok e p\<close> is the complement of the guard of \<^verbatim>\<open>kfree\<close>: a page the allocator may own.\<close>

definition page_ok :: "u64 \<Rightarrow> u64 \<Rightarrow> bool" where
  "page_ok e p \<longleftrightarrow> p mod PGSIZE = 0 \<and> e \<le> p \<and> p < PHYSTOP"

primrec run_list :: "mem \<Rightarrow> u64 \<Rightarrow> u64 list \<Rightarrow> bool" where
  "run_list m r [] \<longleftrightarrow> r = 0"
| "run_list m r (p # ps) \<longleftrightarrow> r = p \<and> p \<noteq> 0 \<and> run_list m (load64 m p) ps"

definition free_list :: "'a kmem_scheme \<Rightarrow> u64 list \<Rightarrow> bool" where
  "free_list s ps \<longleftrightarrow>
     run_list (pmem s) (freelist s) ps \<and> distinct ps \<and> (\<forall>p\<in>set ps. page_ok (k_end s) p) \<and>
     0 < k_end s"

lemma page_ok_aligned: "page_ok e p \<Longrightarrow> aligned p"
  by (simp add: page_ok_def aligned_mod)

lemma in_range_mono: "in_range p n a \<Longrightarrow> n \<le> k \<Longrightarrow> in_range p k a"
  by (simp add: in_range_def)

lemma run_list_cong:
  assumes "\<And>p b. p \<in> set ps \<Longrightarrow> in_range p 8 b \<Longrightarrow> m b = m' b"
  shows "run_list m r ps = run_list m' r ps"
  using assms
proof (induction ps arbitrary: r)
  case (Cons p ps)
  then have "load64 m p = load64 m' p" by (intro load_le_cong) auto
  with Cons show ?case by auto
qed simp

lemma run_list_other_page:
  assumes "\<forall>q\<in>set ps. aligned q" and "aligned p" and "p \<notin> set ps"
    and "\<And>b. \<not> in_range p 4096 b \<Longrightarrow> m' b = m b"
  shows "run_list m' r ps = run_list m r ps"
proof (rule run_list_cong)
  fix q b
  assume "q \<in> set ps" and "in_range q 8 b"
  then have "in_range q 4096 b" and "q \<noteq> p" and "aligned q"
    using assms(1,3) by (auto intro: in_range_mono)
  then show "m' b = m b" using assms(2,4) pages_disjoint by blast
qed

section \<open>The operations as pure updates\<close>

definition kfree_upd :: "u64 \<Rightarrow> 'a kmem_scheme \<Rightarrow> 'a kmem_scheme" where
  "kfree_upd pa s =
     s\<lparr>pmem := store64 pa (freelist s) (memset pa 1 4096 (pmem s)), freelist := pa\<rparr>"

definition kalloc_upd :: "'a kmem_scheme \<Rightarrow> 'a kmem_scheme" where
  "kalloc_upd s =
     (let r = freelist s
      in if r = 0 then s
         else s\<lparr>freelist := load64 (pmem s) r, pmem := memset r 5 4096 (pmem s)\<rparr>)"

lemma kmem_settle [simp]:
  "pmem (settle h s) = pmem s" "freelist (settle h s) = freelist s" "k_end (settle h s) = k_end s"
  by (simp_all add: settle_def)

lemma kmem_entered [simp]:
  "pmem (entered h l s) = pmem s" "freelist (entered h l s) = freelist s"
  "k_end (entered h l s) = k_end s"
  by (simp_all add: entered_def push_off_def Let_def intr_off_def)

lemma kmem_update_spin [simp]:
  "cpu_wf h (s\<lparr>pmem := m\<rparr>) = cpu_wf h s" "lock_free l (s\<lparr>pmem := m\<rparr>) = lock_free l s"
  "cpu_wf h (s\<lparr>freelist := f\<rparr>) = cpu_wf h s" "lock_free l (s\<lparr>freelist := f\<rparr>) = lock_free l s"
  "entered h l (s\<lparr>pmem := m\<rparr>) = (entered h l s)\<lparr>pmem := m\<rparr>"
  "entered h l (s\<lparr>freelist := f\<rparr>) = (entered h l s)\<lparr>freelist := f\<rparr>"
  "settle h (s\<lparr>pmem := m\<rparr>) = (settle h s)\<lparr>pmem := m\<rparr>"
  "settle h (s\<lparr>freelist := f\<rparr>) = (settle h s)\<lparr>freelist := f\<rparr>"
  by (auto simp: cpu_wf_def lock_free_def entered_def settle_def push_off_def Let_def intr_off_def
      intr_get_def)

lemma kfree_upd_spin [simp]:
  "cpu_wf h (kfree_upd p s) = cpu_wf h s" "lock_free l (kfree_upd p s) = lock_free l s"
  "cpu_wf h (kalloc_upd s) = cpu_wf h s" "lock_free l (kalloc_upd s) = lock_free l s"
  "k_end (kfree_upd p s) = k_end s" "k_end (kalloc_upd s) = k_end s"
  by (auto simp: kfree_upd_def kalloc_upd_def Let_def)

lemma kfree_ok:
  assumes "cpu_wf h s" and "lock_free LKmem s" and "page_ok (k_end s) pa"
  shows "kfree h pa s = Ok () (settle h (kfree_upd pa s))"
proof -
  have "release h LKmem (entered h LKmem (kfree_upd pa s)) = Ok () (settle h (kfree_upd pa s))"
    using assms by (intro release_entered) simp_all
  then show ?thesis
    using assms by (simp add: kfree_def kfree_upd_def page_ok_def acquire_free not_less not_le)
qed

lemma kalloc_ok:
  assumes "cpu_wf h s" and "lock_free LKmem s"
  shows "kalloc h s = Ok (freelist s) (settle h (kalloc_upd s))"
proof -
  have rel: "release h LKmem (entered h LKmem s) = Ok () (settle h s)"
    using assms by (intro release_entered) simp_all
  have "release h LKmem (entered h LKmem (s\<lparr>freelist := f\<rparr>)) = Ok () (settle h (s\<lparr>freelist := f\<rparr>))" for f
    using assms by (intro release_entered) simp_all
  with rel show ?thesis
    using assms by (simp add: kalloc_def kalloc_upd_def Let_def acquire_free)
qed

section \<open>Refinement: a stack of pages\<close>

lemma memset_page:
  "memset p c 4096 m b = (if in_range p 4096 b then c else m b)"
  by (simp add: memset_apply)

lemma kfree_upd_pmem: "\<not> in_range p 4096 b \<Longrightarrow> pmem (kfree_upd p s) b = pmem s b"
proof -
  assume b: "\<not> in_range p 4096 b"
  then have "\<not> in_range p 8 b" by (auto simp: in_range_def)
  with b show ?thesis by (simp add: kfree_upd_def store_le_other memset_page)
qed

lemma kalloc_upd_pmem: "\<not> in_range (freelist s) 4096 b \<Longrightarrow> pmem (kalloc_upd s) b = pmem s b"
  by (auto simp: kalloc_upd_def Let_def memset_page)

lemma free_list_empty: "free_list s [] \<Longrightarrow> freelist s = 0 \<and> kalloc_upd s = s"
  by (auto simp: free_list_def kalloc_upd_def Let_def)

lemma free_list_kalloc:
  assumes "free_list s (p # ps)"
  shows "freelist s = p" and "p \<noteq> 0" and "free_list (kalloc_upd s) ps"
proof -
  show p: "freelist s = p" and "p \<noteq> 0" using assms by (auto simp: free_list_def)
  have "run_list (pmem (kalloc_upd s)) (load64 (pmem s) p) ps = run_list (pmem s) (load64 (pmem s) p) ps"
    using assms p
    by (intro run_list_other_page [of _ p] kalloc_upd_pmem) (auto simp: free_list_def dest: page_ok_aligned)
  with assms p show "free_list (kalloc_upd s) ps"
    by (auto simp: free_list_def) (simp add: kalloc_upd_def Let_def)
qed

lemma free_list_kfree:
  assumes "free_list s ps" and "page_ok (k_end s) p" and "p \<notin> set ps"
  shows "free_list (kfree_upd p s) (p # ps)"
proof -
  have "p \<noteq> 0" using assms by (auto simp: page_ok_def free_list_def)
  moreover have "load64 (pmem (kfree_upd p s)) p = freelist s" and "freelist (kfree_upd p s) = p"
    by (simp_all add: kfree_upd_def)
  moreover have "run_list (pmem (kfree_upd p s)) (freelist s) ps = run_list (pmem s) (freelist s) ps"
    using assms by (intro run_list_other_page [of _ p] kfree_upd_pmem) (auto simp: free_list_def dest: page_ok_aligned)
  ultimately show ?thesis using assms by (auto simp: free_list_def)
qed

lemma free_list_settle [simp]: "free_list (settle h s) ps = free_list s ps"
  by (simp add: free_list_def)

lemma free_list_unique: "run_list m r xs \<Longrightarrow> run_list m r ys \<Longrightarrow> xs = ys"
proof (induction xs arbitrary: r ys)
  case Nil
  then show ?case by (cases ys) auto
next
  case (Cons x xs)
  then show ?case by (cases ys) auto
qed

text \<open>
  The contract between the allocator and its clients (\<^verbatim>\<open>uvmalloc\<close>, \<^verbatim>\<open>walk\<close>, \<^verbatim>\<open>pipealloc\<close>,
  \<^verbatim>\<open>allocproc\<close>): a pool of distinct pages, from which \<open>alloc\<close> takes one and to which \<open>free\<close> gives one
  back.  \<open>ready\<close> is what a caller must provide (the lock can be taken).
\<close>

locale page_pool =
  fixes alloc :: "'s \<Rightarrow> (u64, 's) res"
    and free :: "u64 \<Rightarrow> 's \<Rightarrow> (unit, 's) res"
    and ready :: "'s \<Rightarrow> bool"
    and pool :: "'s \<Rightarrow> u64 list \<Rightarrow> bool"
    and may_own :: "'s \<Rightarrow> u64 \<Rightarrow> bool"
  assumes alloc_empty: "ready s \<Longrightarrow> pool s [] \<Longrightarrow> \<exists>t. alloc s = Ok 0 t \<and> ready t \<and> pool t []"
    and alloc_page: "ready s \<Longrightarrow> pool s (p # ps) \<Longrightarrow>
      \<exists>t. alloc s = Ok p t \<and> ready t \<and> pool t ps \<and> may_own t = may_own s"
    and free_page: "ready s \<Longrightarrow> pool s ps \<Longrightarrow> may_own s p \<Longrightarrow> p \<notin> set ps \<Longrightarrow>
      \<exists>t. free p s = Ok () t \<and> ready t \<and> pool t (p # ps) \<and> may_own t = may_own s"
    and pool_distinct: "pool s ps \<Longrightarrow> distinct ps \<and> 0 \<notin> set ps \<and> (\<forall>p\<in>set ps. may_own s p)"
begin

text \<open>A freed page is the next one allocated.\<close>

lemma alloc_after_free:
  assumes "ready s" and "pool s ps" and "may_own s p" and "p \<notin> set ps"
  shows "\<exists>t. kbind (free p s) (\<lambda>_ s. alloc s) = Ok p t \<and> ready t \<and> pool t ps"
proof -
  from free_page [OF assms] obtain t where t: "free p s = Ok () t" "ready t" "pool t (p # ps)" by auto
  from alloc_page [OF t(2,3)] show ?thesis using t(1) by auto
qed

text \<open>\<open>n\<close> allocations in a row hand out the first \<open>n\<close> pages of the pool, then null pointers.\<close>

primrec alloc_many :: "nat \<Rightarrow> 's \<Rightarrow> (u64 list, 's) res" where
  "alloc_many 0 s = Ok [] s"
| "alloc_many (Suc n) s = kbind (alloc s) (\<lambda>p s. kbind (alloc_many n s) (\<lambda>ps s. Ok (p # ps) s))"

lemma alloc_many_pages:
  assumes "ready s" and "pool s ps"
  shows "\<exists>t. alloc_many n s = Ok (take n ps @ replicate (n - length ps) 0) t \<and> ready t \<and> pool t (drop n ps)"
  using assms
proof (induction n arbitrary: s ps)
  case 0
  then show ?case by simp
next
  case (Suc n)
  show ?case
  proof (cases ps)
    case Nil
    with Suc.prems obtain t where t: "alloc s = Ok 0 t" "ready t" "pool t []"
      using alloc_empty by blast
    from Suc.IH [OF t(2,3)] t(1) Nil show ?thesis by auto
  next
    case (Cons p qs)
    with Suc.prems obtain t where t: "alloc s = Ok p t" "ready t" "pool t qs"
      using alloc_page by blast
    from Suc.IH [OF t(2,3)] t(1) Cons show ?thesis by auto
  qed
qed

end

interpretation pages: page_pool "kalloc h" "kfree h" "\<lambda>s. cpu_wf h s \<and> lock_free LKmem s"
  free_list "\<lambda>s. page_ok (k_end s)"
proof unfold_locales
  fix s :: "'a kmem_scheme"
  assume "cpu_wf h s \<and> lock_free LKmem s" and "free_list s []"
  then show "\<exists>t. kalloc h s = Ok 0 t \<and> (cpu_wf h t \<and> lock_free LKmem t) \<and> free_list t []"
    using free_list_empty [of s] by (auto simp: kalloc_ok)
next
  fix s :: "'a kmem_scheme" and p ps
  assume "cpu_wf h s \<and> lock_free LKmem s" and "free_list s (p # ps)"
  then show "\<exists>t. kalloc h s = Ok p t \<and> (cpu_wf h t \<and> lock_free LKmem t) \<and> free_list t ps \<and>
      page_ok (k_end t) = page_ok (k_end s)"
    using free_list_kalloc [of s p ps] by (auto simp: kalloc_ok)
next
  fix s :: "'a kmem_scheme" and p ps
  assume "cpu_wf h s \<and> lock_free LKmem s" and "free_list s ps" and "page_ok (k_end s) p" and "p \<notin> set ps"
  then show "\<exists>t. kfree h p s = Ok () t \<and> (cpu_wf h t \<and> lock_free LKmem t) \<and> free_list t (p # ps) \<and>
      page_ok (k_end t) = page_ok (k_end s)"
    using free_list_kfree [of s ps p] by (auto simp: kfree_ok)
next
  fix s :: "'a kmem_scheme" and ps
  assume "free_list s ps"
  then show "distinct ps \<and> 0 \<notin> set ps \<and> (\<forall>p\<in>set ps. page_ok (k_end s) p)"
    by (auto simp: free_list_def page_ok_def)
qed

section \<open>Initialisation\<close>

text \<open>\<open>pages_between\<close> is the specification of \<^verbatim>\<open>freerange\<close>: whole pages from \<open>p\<close> to \<open>e\<close>, ascending.\<close>

definition pages_between :: "u64 \<Rightarrow> u64 \<Rightarrow> u64 list" where
  "pages_between p e = map (\<lambda>i. p + of_nat i * PGSIZE) [0..<(unat e - unat p) div 4096]"

lemma unat_nth_page:
  assumes "unat p + 4096 * i < 2 ^ 64"
  shows "unat (p + of_nat i * PGSIZE) = unat p + 4096 * i"
proof -
  have "p + of_nat i * PGSIZE = p + of_nat (4096 * i)" by (simp add: PGSIZE_def)
  then show ?thesis using unat_plus_of_nat [OF assms] by (simp only:)
qed

lemma pages_between_Cons:
  assumes "unat p + 4096 \<le> unat e"
  shows "pages_between p e = p # pages_between (p + PGSIZE) e"
proof -
  have "unat (p + PGSIZE) = unat p + 4096"
    using assms unat_bound64 [of e] unat_nth_page [of p 1] by simp
  then have "(unat e - unat p) div 4096 = Suc ((unat e - unat (p + PGSIZE)) div 4096)"
    using assms by (simp add: le_div_geq)
  then show ?thesis
    by (simp add: pages_between_def map_upt_Suc algebra_simps del: upt_Suc)
qed

lemma freerange_from_frees:
  assumes "cpu_wf h s" and "lock_free LKmem s" and "free_list s ps" and "aligned p"
    and "k_end s \<le> p" and "unat e \<le> unat PHYSTOP" and "\<forall>q\<in>set ps. q < p"
  shows "\<exists>t. freerange_from h p e s = Ok () t \<and> cpu_wf h t \<and> lock_free LKmem t \<and>
     free_list t (rev (pages_between p e) @ ps)"
  using assms
proof (induction h p e s arbitrary: ps rule: freerange_from.induct)
  case (1 h p e s)
  show ?case
  proof (cases "unat p + unat PGSIZE \<le> unat e")
    case False
    then have "pages_between p e = []" by (auto simp: pages_between_def PGSIZE_def)
    with 1(2-) False show ?thesis by (subst freerange_from.simps) auto
  next
    case True
    then have lt: "unat p + 4096 \<le> unat e" by (simp add: PGSIZE_def)
    have next_p: "unat (p + PGSIZE) = unat p + 4096"
      using lt unat_bound64 [of e] unat_nth_page [of p 1] by simp
    have p: "page_ok (k_end s) p"
      using 1(5,6,7) lt by (simp add: page_ok_def aligned_mod word_less_nat_alt)
    have "p \<notin> set ps" using 1(8) by auto
    from pages.free_page [OF _ 1(4) p this] 1(2,3)
    obtain t where t: "kfree h p s = Ok () t" "cpu_wf h t" "lock_free LKmem t" "free_list t (p # ps)"
      by blast
    have "k_end t = k_end s"
      using t(1) kfree_ok [OF 1(2,3) p] by auto
    moreover have "aligned (p + PGSIZE)"
      using 1(5) next_p by (simp only: aligned_iff) simp
    moreover have "k_end s \<le> p + PGSIZE" and "\<forall>q\<in>set (p # ps). q < p + PGSIZE"
      using 1(6,8) next_p by (auto simp: word_le_nat_alt word_less_nat_alt)
    ultimately have "\<exists>u. freerange_from h (p + PGSIZE) e t = Ok () u \<and> cpu_wf h u \<and> lock_free LKmem u \<and>
        free_list u (rev (pages_between (p + PGSIZE) e) @ p # ps)"
      using 1(1) [OF True t(2,3,4)] 1(7) by simp
    then show ?thesis
      using True t(1) pages_between_Cons [OF lt] by (subst freerange_from.simps) simp
  qed
qed

text \<open>
  C25: \<^verbatim>\<open>kalloc\<close> and the free list: with pages free it returns the page at the head of the list and
  leaves the rest of the list free; it fills the page with 5s and writes no other byte.  With no
  page free it returns the null pointer and changes no byte.
\<close>

theorem kalloc_pops_free_list:
  assumes "cpu_wf h s" and "lock_free LKmem s" and "free_list s ps"
  shows "\<exists>t. kalloc h s = Ok (if ps = [] then 0 else hd ps) t \<and> free_list t (tl ps) \<and>
    (\<forall>b. pmem t b = (if ps \<noteq> [] \<and> in_range (hd ps) 4096 b then 5 else pmem s b)) \<and>
    sie t = sie s \<and> lock_free LKmem t \<and> cpu_wf h t"
proof (cases ps)
  case Nil
  then show ?thesis using assms free_list_empty [of s] by (auto simp: kalloc_ok)
next
  case (Cons p qs)
  with assms have "freelist s = p" "p \<noteq> 0" "free_list (kalloc_upd s) qs"
    using free_list_kalloc [of s p qs] by auto
  moreover from this have "pmem (kalloc_upd s) b = (if in_range p 4096 b then 5 else pmem s b)" for b
    by (simp add: kalloc_upd_def Let_def memset_page)
  moreover have "sie (kalloc_upd s) = sie s" by (simp add: kalloc_upd_def Let_def)
  ultimately show ?thesis using assms Cons by (simp add: kalloc_ok)
qed

text \<open>
  \<^verbatim>\<open>kfree\<close> of a page the allocator may own and that is not free already puts it on the free list,
  so the next \<^verbatim>\<open>kalloc\<close> returns that page and restores the free list.
\<close>

theorem kfree_then_kalloc:
  assumes "cpu_wf h s" and "lock_free LKmem s" and "free_list s ps"
    and "page_ok (k_end s) p" and "p \<notin> set ps"
  shows "\<exists>t. kbind (kfree h p s) (\<lambda>_ s. kalloc h s) = Ok p t \<and> free_list t ps"
  using pages.alloc_after_free [of h s ps p] assms by auto

text \<open>
  \<^verbatim>\<open>kinit\<close> on an empty free list succeeds; afterwards exactly the whole pages from the rounded-up
  end of the kernel to \<^verbatim>\<open>PHYSTOP\<close> are free, the highest address first.
\<close>

theorem kinit_frees_all_memory:
  assumes "cpu_wf h s" and "freelist s = 0" and "0 < k_end s" and "k_end s < PHYSTOP"
  shows "\<exists>t. kinit h s = Ok () t \<and> lock_free LKmem t \<and>
     free_list t (rev (pages_between (PGROUNDUP (k_end s)) PHYSTOP))"
proof -
  let ?s = "initlock LKmem ''kmem'' s" and ?p = "PGROUNDUP (k_end s)"
  have e: "unat (k_end s) + 4095 < 2 ^ 64"
    using assms(4) by (simp add: word_less_nat_alt PHYSTOP_def KERNBASE_def)
  have up: "unat (k_end s) \<le> unat ?p"
    unfolding unat_PGROUNDUP [OF e] using div_mult_mod_eq [of "unat (k_end s) + 4095" 4096]
      mod_less_divisor [of 4096 "unat (k_end s) + 4095"] by linarith
  have "cpu_wf h ?s" and "lock_free LKmem ?s" and "free_list ?s []" and "k_end ?s \<le> ?p"
    using assms up by (auto simp: initlock_def cpu_wf_def lock_free_def free_list_def word_le_nat_alt)
  moreover have "aligned ?p" unfolding PGROUNDUP_down by simp
  ultimately show ?thesis
    using freerange_from_frees [of h ?s "[]" ?p PHYSTOP]
    by (auto simp: kinit_def freerange_def)
qed

text \<open>A machine whose kernel ends at 0x80022010, four pages below the top in the last example.\<close>

definition boot_mem :: "u64 \<Rightarrow> kmem" where
  "boot_mem e =
     \<lparr>cpus = \<lambda>_. \<lparr>c_proc = None, c_noff = 0, c_intena = False\<rparr>, sie = \<lambda>_. False,
      locks = \<lambda>_. \<lparr>lk_locked = False, lk_name = [], lk_cpu = None\<rparr>, uart_out = [],
      pmem = \<lambda>_. 0, freelist = 0, k_end = e\<rparr>"

lemma boot_mem_wf: "cpu_wf h (boot_mem e)" "lock_free l (boot_mem e)" "freelist (boot_mem e) = 0"
  "k_end (boot_mem e) = e" "0 < e \<Longrightarrow> free_list (boot_mem e) []"
  by (simp_all add: boot_mem_def cpu_wf_def lock_free_def free_list_def)

theorem kinit_frees_all_memory_witness:
  "\<exists>t. kinit 0 (boot_mem 0x87ffe010) = Ok () t \<and> free_list t [0x87fff000]"
proof -
  have "pages_between (PGROUNDUP 0x87ffe010) PHYSTOP = [0x87fff000]"
    by (simp add: pages_between_def PGROUNDUP_def PGSIZE_def PHYSTOP_def KERNBASE_def)
  then show ?thesis
    using kinit_frees_all_memory [of 0 "boot_mem 0x87ffe010"]
    by (auto simp: boot_mem_wf PHYSTOP_def KERNBASE_def)
qed

definition one_page :: kmem where
  "one_page = kfree_upd 0x87fff000 (boot_mem 0x80022010)"

lemma one_page_wf: "cpu_wf h one_page" "lock_free l one_page" "free_list one_page [0x87fff000]"
  "k_end one_page = 0x80022010"
  using free_list_kfree [of "boot_mem 0x80022010" "[]" "0x87fff000"]
  by (auto simp: one_page_def boot_mem_wf page_ok_def PGSIZE_def PHYSTOP_def KERNBASE_def)

theorem kalloc_pops_free_list_witness:
  "\<exists>t. kalloc 0 one_page = Ok 0x87fff000 t \<and> free_list t [] \<and> pmem t 0x87fff008 = 5"
  using kalloc_pops_free_list [OF one_page_wf(1-3), of 0] by (auto simp: in_range_def)

theorem kfree_then_kalloc_witness:
  "\<exists>t. kbind (kfree 0 0x87ffe000 one_page) (\<lambda>_ s. kalloc 0 s) = Ok 0x87ffe000 t \<and>
     free_list t [0x87fff000]"
  by (rule kfree_then_kalloc [OF one_page_wf(1-3)])
     (simp_all add: one_page_wf page_ok_def PGSIZE_def PHYSTOP_def KERNBASE_def)

end
