(* ===== verification/Proc.thy ===== *)
theory Proc
  imports Kalloc
begin

text \<open>
  Processes and the scheduler, \<^verbatim>\<open>kernel/proc.c\<close> and \<^verbatim>\<open>kernel/proc.h\<close>: the process table, sleep and
  wakeup, kill, the scheduling statistics and their log, and the scheduler with its one-shot advice.
  The functions that need page tables or files are in later theories.

  A pointer to a process is its index in \<^verbatim>\<open>proc[NPROC]\<close>.  \<^verbatim>\<open>swtch\<close> is where a kernel thread stops:
  \<^verbatim>\<open>sched()\<close> ends with \<open>Switch\<close>, and what the thread does when the scheduler picks it again is its
  \<open>_resume\<close> function.  The scheduler, which is itself a thread, is split at its two \<^verbatim>\<open>swtch\<close> calls.
\<close>

section \<open>State\<close>

datatype procstate = UNUSED | USED | SLEEPING | RUNNABLE | RUNNING | ZOMBIE

definition state_num :: "procstate \<Rightarrow> nat" where
  "state_num st = (case st of UNUSED \<Rightarrow> 0 | USED \<Rightarrow> 1 | SLEEPING \<Rightarrow> 2 | RUNNABLE \<Rightarrow> 3
     | RUNNING \<Rightarrow> 4 | ZOMBIE \<Rightarrow> 5)"

record kcontext =
  ctx_ra :: u64
  ctx_sp :: u64
  ctx_s :: "u64 list"

text \<open>\<open>p_kintena\<close> is the local variable \<^verbatim>\<open>intena\<close> of the thread's \<^verbatim>\<open>sched()\<close> frame, on its kernel stack.\<close>

record proc =
  p_state :: procstate
  p_chan :: chan
  p_killed :: u32
  p_xstate :: u32
  p_pid :: u32
  p_parent :: "nat option"
  p_kstack :: u64
  p_sz :: u64
  p_pagetable :: u64
  p_trapframe :: u64
  p_context :: kcontext
  p_ofile :: "nat \<Rightarrow> nat option"
  p_cwd :: "nat option"
  p_cpu_ticks :: u32
  p_wait_ticks :: u32
  p_io_count :: u32
  p_recent_cpu :: u32
  p_name :: string
  p_kintena :: bool

record kproc = kmem +
  procs :: "nat \<Rightarrow> proc"
  initproc :: "nat option"
  nextpid :: u32
  ticks :: u32
  llm_recommended_pid :: u32
  llm_advice_valid :: u32
  llm_advice_timestamp :: u32
  k_forkret :: u64
  k_trampoline :: u64
  k_etext :: u64

definition ADVICE_TIMEOUT_TICKS :: u32 where
  "ADVICE_TIMEOUT_TICKS = 200"

definition proc_at :: "nat \<Rightarrow> (proc \<Rightarrow> proc) \<Rightarrow> 'a kproc_scheme \<Rightarrow> 'a kproc_scheme" where
  "proc_at i f s = s\<lparr>procs := (procs s)(i := f (procs s i))\<rparr>"

definition proc_chan :: "nat option \<Rightarrow> chan" where
  "proc_chan p = (case p of None \<Rightarrow> ChNull | Some i \<Rightarrow> ChProc i)"

text \<open>\<open>curproc\<close> is \<^verbatim>\<open>myproc()\<close> where the code dereferences the result: outside a process the kernel
  would fault on the null pointer.\<close>

definition curproc :: "nat \<Rightarrow> 'a kproc_scheme \<Rightarrow> (nat, 'a kproc_scheme) res" where
  "curproc h s =
     kbind (myproc h s) (\<lambda>p s. case p of None \<Rightarrow> Panic ''kerneltrap'' | Some i \<Rightarrow> Ok i s)"

section \<open>The process table\<close>

definition procinit :: "'a kproc_scheme \<Rightarrow> 'a kproc_scheme" where
  "procinit s =
     (let s = initlock LPid ''nextpid'' s;
          s = initlock LWait ''wait_lock'' s;
          s = initlock LLlm ''llm_advice'' s
      in fold (\<lambda>i s.
           proc_at i (\<lambda>p. p\<lparr>p_state := UNUSED, p_kstack := KSTACK i, p_cpu_ticks := 0,
                            p_wait_ticks := 0, p_io_count := 0, p_recent_cpu := 0\<rparr>)
             (initlock (LProc i) ''proc'' s)) [0..<NPROC] s)"

definition allocpid :: "nat \<Rightarrow> 'a kproc_scheme \<Rightarrow> (u32, 'a kproc_scheme) res" where
  "allocpid h s =
     kbind (acquire h LPid s) (\<lambda>_ s.
     let pid = nextpid s
     in kbind (release h LPid (s\<lparr>nextpid := nextpid s + 1\<rparr>)) (\<lambda>_ s. Ok pid s))"

section \<open>Sleep, wakeup, kill\<close>

definition sched :: "nat \<Rightarrow> 'a kproc_scheme \<Rightarrow> (unit, 'a kproc_scheme) res" where
  "sched h s =
     kbind (curproc h s) (\<lambda>i s.
     if \<not> holding h (LProc i) s then Panic ''sched p->lock''
     else if noff h s \<noteq> 1 then Panic ''sched locks''
     else if p_state (procs s i) = RUNNING then Panic ''sched RUNNING''
     else if intr_get h s then Panic ''sched interruptible''
     else Switch (proc_at i (\<lambda>p. p\<lparr>p_kintena := intena h s\<rparr>) s))"

text \<open>The statement of \<^verbatim>\<open>sched()\<close> after its \<^verbatim>\<open>swtch\<close>, on the hart that runs process \<open>i\<close> again.\<close>

definition sched_resume :: "nat \<Rightarrow> nat \<Rightarrow> 'a kproc_scheme \<Rightarrow> 'a kproc_scheme" where
  "sched_resume h i s =
     s\<lparr>cpus := (cpus s)(h := (cpus s h)\<lparr>c_intena := p_kintena (procs s i)\<rparr>)\<rparr>"

definition yield :: "nat \<Rightarrow> 'a kproc_scheme \<Rightarrow> (unit, 'a kproc_scheme) res" where
  "yield h s =
     kbind (curproc h s) (\<lambda>i s.
     kbind (acquire h (LProc i) s) (\<lambda>_ s.
     sched h (proc_at i (\<lambda>p. p\<lparr>p_state := RUNNABLE\<rparr>) s)))"

definition yield_resume :: "nat \<Rightarrow> nat \<Rightarrow> 'a kproc_scheme \<Rightarrow> (unit, 'a kproc_scheme) res" where
  "yield_resume h i s = release h (LProc i) (sched_resume h i s)"

definition sleep :: "nat \<Rightarrow> chan \<Rightarrow> lockid \<Rightarrow> 'a kproc_scheme \<Rightarrow> (unit, 'a kproc_scheme) res" where
  "sleep h ch lk s =
     kbind (curproc h s) (\<lambda>i s.
     kbind (acquire h (LProc i) s) (\<lambda>_ s.
     kbind (release h lk s) (\<lambda>_ s.
     sched h (proc_at i (\<lambda>p. p\<lparr>p_chan := ch, p_state := SLEEPING\<rparr>) s))))"

definition sleep_resume :: "nat \<Rightarrow> nat \<Rightarrow> lockid \<Rightarrow> 'a kproc_scheme \<Rightarrow> (unit, 'a kproc_scheme) res" where
  "sleep_resume h i lk s =
     (let s = proc_at i (\<lambda>p. p\<lparr>p_chan := ChNull\<rparr>) (sched_resume h i s)
      in kbind (release h (LProc i) s) (\<lambda>_ s. acquire h lk s))"

definition wakeup_one :: "nat \<Rightarrow> chan \<Rightarrow> nat \<Rightarrow> 'a kproc_scheme \<Rightarrow> (unit, 'a kproc_scheme) res" where
  "wakeup_one h ch i s =
     kbind (myproc h s) (\<lambda>me s.
     if me = Some i then Ok () s
     else
       kbind (acquire h (LProc i) s) (\<lambda>_ s.
       let s = (if p_state (procs s i) = SLEEPING \<and> p_chan (procs s i) = ch
                then proc_at i (\<lambda>p. p\<lparr>p_state := RUNNABLE\<rparr>) s else s)
       in release h (LProc i) s))"

definition wakeup :: "nat \<Rightarrow> chan \<Rightarrow> 'a kproc_scheme \<Rightarrow> (unit, 'a kproc_scheme) res" where
  "wakeup h ch s = kfor (wakeup_one h ch) [0..<NPROC] s"

definition kkill_one :: "nat \<Rightarrow> u32 \<Rightarrow> nat \<Rightarrow> 'a kproc_scheme \<Rightarrow> (u64 option, 'a kproc_scheme) res" where
  "kkill_one h pid i s =
     kbind (acquire h (LProc i) s) (\<lambda>_ s.
     if p_pid (procs s i) = pid then
       let s = proc_at i (\<lambda>p. p\<lparr>p_killed := 1\<rparr>) s;
           s = (if p_state (procs s i) = SLEEPING
                then proc_at i (\<lambda>p. p\<lparr>p_state := RUNNABLE\<rparr>) s else s)
       in kbind (release h (LProc i) s) (\<lambda>_ s. Ok (Some 0) s)
     else kbind (release h (LProc i) s) (\<lambda>_ s. Ok None s))"

definition kkill :: "nat \<Rightarrow> u32 \<Rightarrow> 'a kproc_scheme \<Rightarrow> (u64, 'a kproc_scheme) res" where
  "kkill h pid s =
     kbind (kscan (kkill_one h pid) [0..<NPROC] s) (\<lambda>r s.
     Ok (case r of None \<Rightarrow> -1 | Some v \<Rightarrow> v) s)"

definition setkilled :: "nat \<Rightarrow> nat \<Rightarrow> 'a kproc_scheme \<Rightarrow> (unit, 'a kproc_scheme) res" where
  "setkilled h i s =
     kbind (acquire h (LProc i) s) (\<lambda>_ s.
     release h (LProc i) (proc_at i (\<lambda>p. p\<lparr>p_killed := 1\<rparr>) s))"

definition killed :: "nat \<Rightarrow> nat \<Rightarrow> 'a kproc_scheme \<Rightarrow> (u32, 'a kproc_scheme) res" where
  "killed h i s =
     kbind (acquire h (LProc i) s) (\<lambda>_ s.
     let k = p_killed (procs s i)
     in kbind (release h (LProc i) s) (\<lambda>_ s. Ok k s))"

definition reparent_one :: "nat \<Rightarrow> nat \<Rightarrow> nat \<Rightarrow> 'a kproc_scheme \<Rightarrow> (unit, 'a kproc_scheme) res" where
  "reparent_one h p i s =
     (if p_parent (procs s i) = Some p
      then wakeup h (proc_chan (initproc s)) (proc_at i (\<lambda>q. q\<lparr>p_parent := initproc s\<rparr>) s)
      else Ok () s)"

definition reparent :: "nat \<Rightarrow> nat \<Rightarrow> 'a kproc_scheme \<Rightarrow> (unit, 'a kproc_scheme) res" where
  "reparent h p s = kfor (reparent_one h p) [0..<NPROC] s"

section \<open>Scheduling statistics\<close>

definition tick_proc :: "proc \<Rightarrow> proc" where
  "tick_proc p =
     (if p_state p = RUNNABLE then p\<lparr>p_wait_ticks := p_wait_ticks p + 1\<rparr>
      else if p_state p = RUNNING
      then p\<lparr>p_cpu_ticks := p_cpu_ticks p + 1, p_recent_cpu := p_recent_cpu p + 1\<rparr>
      else p)"

definition update_sched_stats :: "nat \<Rightarrow> 'a kproc_scheme \<Rightarrow> (unit, 'a kproc_scheme) res" where
  "update_sched_stats h s =
     kfor (\<lambda>i s. kbind (acquire h (LProc i) s) (\<lambda>_ s. release h (LProc i) (proc_at i tick_proc s)))
       [0..<NPROC] s"

text \<open>\<^verbatim>\<open>log_scheduling_state\<close>: a snapshot taken lock by lock, then printed.\<close>

record snap =
  sn_pid :: u32
  sn_state :: nat
  sn_cpu_ticks :: u32
  sn_wait_ticks :: u32
  sn_io_count :: u32
  sn_recent_cpu :: u32

definition snap_of :: "proc \<Rightarrow> snap" where
  "snap_of p =
     \<lparr>sn_pid = p_pid p, sn_state = state_num (p_state p), sn_cpu_ticks = p_cpu_ticks p,
      sn_wait_ticks = p_wait_ticks p, sn_io_count = p_io_count p, sn_recent_cpu = p_recent_cpu p\<rparr>"

fun take_snaps :: "nat \<Rightarrow> nat list \<Rightarrow> snap list \<Rightarrow> 'a kproc_scheme \<Rightarrow> (snap list, 'a kproc_scheme) res" where
  "take_snaps h [] acc s = Ok acc s"
| "take_snaps h (i # is) acc s =
     kbind (acquire h (LProc i) s) (\<lambda>_ s.
     let acc = (if p_state (procs s i) \<noteq> UNUSED \<and> length acc < NPROC
                then acc @ [snap_of (procs s i)] else acc)
     in kbind (release h (LProc i) s) (\<lambda>_ s. take_snaps h is acc s))"

definition NL :: string where
  "NL = [CHR 0x0A]"

definition AInt :: "u32 \<Rightarrow> arg" where
  "AInt w = AWord (ucast w)"

definition print_snap :: "nat \<Rightarrow> snap \<Rightarrow> 'a kproc_scheme \<Rightarrow> (unit, 'a kproc_scheme) res" where
  "print_snap h n s =
     printf h (''PROC:%d,%d,%d,%d,%d,%d'' @ NL)
       [AInt (sn_pid n), AInt (of_nat (sn_state n)), AInt (sn_cpu_ticks n), AInt (sn_wait_ticks n),
        AInt (sn_io_count n), AInt (sn_recent_cpu n)] s"

definition log_scheduling_state :: "nat \<Rightarrow> 'a kproc_scheme \<Rightarrow> (unit, 'a kproc_scheme) res" where
  "log_scheduling_state h s =
     kbind (take_snaps h [0..<NPROC] [] s) (\<lambda>snaps s.
     kbind (printf h (''SCHED_LOG_START'' @ NL) [] s) (\<lambda>_ s.
     kbind (printf h (''TIMESTAMP:%u'' @ NL) [AInt (ticks s)] s) (\<lambda>_ s.
     kbind (kfor (print_snap h) snaps s) (\<lambda>_ s.
     printf h (''SCHED_LOG_END'' @ NL) [] s))))"

definition state_name :: "procstate \<Rightarrow> string" where
  "state_name st = (case st of UNUSED \<Rightarrow> ''unused'' | USED \<Rightarrow> ''used'' | SLEEPING \<Rightarrow> ''sleep ''
     | RUNNABLE \<Rightarrow> ''runble'' | RUNNING \<Rightarrow> ''run   '' | ZOMBIE \<Rightarrow> ''zombie'')"

definition procdump_one :: "nat \<Rightarrow> nat \<Rightarrow> 'a kproc_scheme \<Rightarrow> (unit, 'a kproc_scheme) res" where
  "procdump_one h i s =
     (let p = procs s i
      in if p_state p = UNUSED then Ok () s
         else kbind (printf h ''%d %s %s''
                [AInt (p_pid p), AStr (Some (state_name (p_state p))), AStr (Some (p_name p))] s)
              (\<lambda>_ s. printf h NL [] s))"

definition procdump :: "nat \<Rightarrow> 'a kproc_scheme \<Rightarrow> (unit, 'a kproc_scheme) res" where
  "procdump h s = kbind (printf h NL [] s) (\<lambda>_ s. kfor (procdump_one h) [0..<NPROC] s)"

section \<open>The scheduler\<close>

text \<open>
  Where the scheduler thread of a hart stands when one of its parts returns: in one of the two
  \<^verbatim>\<open>swtch\<close> calls with process \<open>i\<close> running, or at the end of an iteration of the outer loop, having run
  a process (\<open>Again\<close>) or not (\<open>Wfi\<close>, after which it waits for an interrupt and iterates).
\<close>

datatype sloc = RunAdvised nat | RunRR nat | Again | Wfi

definition set_cproc :: "nat \<Rightarrow> nat option \<Rightarrow> 'a kspin_scheme \<Rightarrow> 'a kspin_scheme" where
  "set_cproc h p s = s\<lparr>cpus := (cpus s)(h := (cpus s h)\<lparr>c_proc := p\<rparr>)\<rparr>"

definition read_advice :: "nat \<Rightarrow> 'a kproc_scheme \<Rightarrow> (u32 option, 'a kproc_scheme) res" where
  "read_advice h s =
     kbind (acquire h LLlm s) (\<lambda>_ s.
     let adv = (if llm_advice_valid s \<noteq> 0 \<and> ticks s - llm_advice_timestamp s < ADVICE_TIMEOUT_TICKS
                then Some (llm_recommended_pid s) else None)
     in kbind (release h LLlm s) (\<lambda>_ s. Ok adv s))"

definition try_advised :: "nat \<Rightarrow> u32 \<Rightarrow> nat \<Rightarrow> 'a kproc_scheme \<Rightarrow> (sloc option, 'a kproc_scheme) res" where
  "try_advised h pid i s =
     kbind (acquire h (LProc i) s) (\<lambda>_ s.
     if p_state (procs s i) = RUNNABLE \<and> p_pid (procs s i) = pid then
       let s = set_cproc h (Some i) (proc_at i (\<lambda>p. p\<lparr>p_state := RUNNING\<rparr>) s)
       in kbind (acquire h LLlm s) (\<lambda>_ s.
          kbind (release h LLlm (s\<lparr>llm_advice_valid := 0\<rparr>)) (\<lambda>_ s.
          Ok (Some (RunAdvised i)) s))
     else kbind (release h (LProc i) s) (\<lambda>_ s. Ok None s))"

definition try_rr :: "nat \<Rightarrow> nat \<Rightarrow> 'a kproc_scheme \<Rightarrow> (sloc option, 'a kproc_scheme) res" where
  "try_rr h i s =
     kbind (acquire h (LProc i) s) (\<lambda>_ s.
     if p_state (procs s i) = RUNNABLE
     then Ok (Some (RunRR i)) (set_cproc h (Some i) (proc_at i (\<lambda>p. p\<lparr>p_state := RUNNING\<rparr>) s))
     else kbind (release h (LProc i) s) (\<lambda>_ s. Ok None s))"

text \<open>The round-robin loop from slot \<open>i\<close> on; \<open>found\<close> is the local variable of that name.\<close>

definition scheduler_rr :: "nat \<Rightarrow> nat \<Rightarrow> bool \<Rightarrow> 'a kproc_scheme \<Rightarrow> (sloc, 'a kproc_scheme) res" where
  "scheduler_rr h i found s =
     kbind (kscan (try_rr h) [i..<NPROC] s) (\<lambda>r s.
     Ok (case r of Some loc \<Rightarrow> loc | None \<Rightarrow> if found then Again else Wfi) s)"

text \<open>One iteration of the outer loop, up to its first \<^verbatim>\<open>swtch\<close> or its end.\<close>

definition scheduler_iter :: "nat \<Rightarrow> 'a kproc_scheme \<Rightarrow> (sloc, 'a kproc_scheme) res" where
  "scheduler_iter h s =
     (let s = intr_off h (intr_on h s)
      in kbind (read_advice h s) (\<lambda>adv s.
         case adv of
           None \<Rightarrow> scheduler_rr h 0 False s
         | Some pid \<Rightarrow>
             kbind (kscan (try_advised h pid) [0..<NPROC] s) (\<lambda>r s.
             case r of Some loc \<Rightarrow> Ok loc s | None \<Rightarrow> scheduler_rr h 0 False s)))"

text \<open>What follows each \<^verbatim>\<open>swtch\<close> when the process gives the CPU back.\<close>

definition scheduler_back :: "nat \<Rightarrow> sloc \<Rightarrow> 'a kproc_scheme \<Rightarrow> (sloc, 'a kproc_scheme) res" where
  "scheduler_back h loc s =
     (case loc of
        RunAdvised i \<Rightarrow>
          kbind (release h (LProc i) (set_cproc h None s)) (\<lambda>_ s. Ok Again s)
      | RunRR i \<Rightarrow>
          kbind (release h (LProc i) (set_cproc h None s)) (\<lambda>_ s. scheduler_rr h (Suc i) True s)
      | _ \<Rightarrow> Ok loc s)"

definition scheduler_start :: "nat \<Rightarrow> 'a kproc_scheme \<Rightarrow> (sloc, 'a kproc_scheme) res" where
  "scheduler_start h s = scheduler_iter h (set_cproc h None s)"

section \<open>Process updates and the lock state\<close>

definition proc_locks_free :: "'a kproc_scheme \<Rightarrow> bool" where
  "proc_locks_free s \<longleftrightarrow> (\<forall>i<NPROC. lock_free (LProc i) s)"

text \<open>\<open>proc_all f s\<close> updates every slot of the table; the loops of the code are such updates.\<close>

definition proc_all :: "(nat \<Rightarrow> proc \<Rightarrow> proc) \<Rightarrow> 'a kproc_scheme \<Rightarrow> 'a kproc_scheme" where
  "proc_all f s = s\<lparr>procs := \<lambda>i. if i < NPROC then f i (procs s i) else procs s i\<rparr>"

lemma kproc_spin [simp]:
  "cpu_wf h (s\<lparr>procs := x\<rparr>) = cpu_wf h s" "lock_free l (s\<lparr>procs := x\<rparr>) = lock_free l s"
  "holding h l (s\<lparr>procs := x\<rparr>) = holding h l s"
  "entered h l (s\<lparr>procs := x\<rparr>) = (entered h l s)\<lparr>procs := x\<rparr>"
  "settle h (s\<lparr>procs := x\<rparr>) = (settle h s)\<lparr>procs := x\<rparr>"
  "cpu_wf h (s\<lparr>nextpid := n\<rparr>) = cpu_wf h s" "lock_free l (s\<lparr>nextpid := n\<rparr>) = lock_free l s"
  "entered h l (s\<lparr>nextpid := n\<rparr>) = (entered h l s)\<lparr>nextpid := n\<rparr>"
  "settle h (s\<lparr>nextpid := n\<rparr>) = (settle h s)\<lparr>nextpid := n\<rparr>"
  "cpu_wf h (s\<lparr>ticks := n\<rparr>) = cpu_wf h s" "lock_free l (s\<lparr>ticks := n\<rparr>) = lock_free l s"
  "entered h l (s\<lparr>ticks := n\<rparr>) = (entered h l s)\<lparr>ticks := n\<rparr>"
  "settle h (s\<lparr>ticks := n\<rparr>) = (settle h s)\<lparr>ticks := n\<rparr>"
  "holding h l (s\<lparr>llm_advice_valid := n\<rparr>) = holding h l s"
  "cpu_wf h (s\<lparr>llm_advice_valid := n\<rparr>) = cpu_wf h s"
  "lock_free l (s\<lparr>llm_advice_valid := n\<rparr>) = lock_free l s"
  "entered h l (s\<lparr>llm_advice_valid := n\<rparr>) = (entered h l s)\<lparr>llm_advice_valid := n\<rparr>"
  "settle h (s\<lparr>llm_advice_valid := n\<rparr>) = (settle h s)\<lparr>llm_advice_valid := n\<rparr>"
  by (auto simp: cpu_wf_def lock_free_def entered_def settle_def push_off_def Let_def intr_off_def
      intr_get_def holding_def)

lemma kproc_settle [simp]:
  "procs (settle h s) = procs s" "initproc (settle h s) = initproc s" "nextpid (settle h s) = nextpid s"
  "ticks (settle h s) = ticks s" "llm_recommended_pid (settle h s) = llm_recommended_pid s"
  "llm_advice_valid (settle h s) = llm_advice_valid s"
  "llm_advice_timestamp (settle h s) = llm_advice_timestamp s" "kproc.more (settle h s) = kproc.more s"
  by (simp_all add: settle_def)

lemma kproc_entered [simp]:
  "procs (entered h l s) = procs s" "initproc (entered h l s) = initproc s"
  "nextpid (entered h l s) = nextpid s" "ticks (entered h l s) = ticks s"
  "llm_recommended_pid (entered h l s) = llm_recommended_pid s"
  "llm_advice_valid (entered h l s) = llm_advice_valid s"
  "llm_advice_timestamp (entered h l s) = llm_advice_timestamp s"
  "kproc.more (entered h l s) = kproc.more s"
  by (simp_all add: entered_def push_off_def Let_def intr_off_def)

lemma proc_at_simps [simp]:
  "cpu_wf h (proc_at i f s) = cpu_wf h s" "lock_free l (proc_at i f s) = lock_free l s"
  "holding h l (proc_at i f s) = holding h l s"
  "entered h l (proc_at i f s) = proc_at i f (entered h l s)"
  "settle h (proc_at i f s) = proc_at i f (settle h s)"
  "cpus (proc_at i f s) = cpus s" "sie (proc_at i f s) = sie s" "locks (proc_at i f s) = locks s"
  "procs (proc_at i f s) j = (if i = j then f (procs s i) else procs s j)"
  "ticks (proc_at i f s) = ticks s" "llm_recommended_pid (proc_at i f s) = llm_recommended_pid s"
  "llm_advice_valid (proc_at i f s) = llm_advice_valid s"
  "llm_advice_timestamp (proc_at i f s) = llm_advice_timestamp s"
  "initproc (proc_at i f s) = initproc s" "uart_out (proc_at i f s) = uart_out s"
  "pmem (proc_at i f s) = pmem s" "freelist (proc_at i f s) = freelist s" "k_end (proc_at i f s) = k_end s"
  "kproc.more (proc_at i f s) = kproc.more s" "nextpid (proc_at i f s) = nextpid s"
  by (auto simp: proc_at_def)

lemma proc_locks_free_simps [simp]:
  "proc_locks_free (settle h s) = proc_locks_free s"
  "proc_locks_free (proc_at i f s) = proc_locks_free s"
  "proc_locks_free (s\<lparr>procs := x\<rparr>) = proc_locks_free s"
  "(\<And>i. l \<noteq> LProc i) \<Longrightarrow> proc_locks_free (entered h l s) = proc_locks_free s"
  by (auto simp: proc_locks_free_def)

lemma proc_at_id: "f (procs s i) = procs s i \<Longrightarrow> proc_at i f s = s"
  by (cases s) (auto simp: proc_at_def fun_upd_idem)

text \<open>The critical section of one process.\<close>

lemma with_proc_lock:
  assumes "cpu_wf h s" and "lock_free (LProc i) s"
  shows "release h (LProc i) (proc_at i f (entered h (LProc i) s)) = Ok () (settle h (proc_at i f s))"
  using release_entered [of h "proc_at i f s" "LProc i"] assms by simp

definition proc_upto :: "nat \<Rightarrow> (nat \<Rightarrow> proc \<Rightarrow> proc) \<Rightarrow> 'a kproc_scheme \<Rightarrow> 'a kproc_scheme" where
  "proc_upto n f s = s\<lparr>procs := \<lambda>i. if i < n then f i (procs s i) else procs s i\<rparr>"

lemma proc_upto_simps [simp]:
  "proc_upto 0 f s = s" "cpu_wf h (proc_upto n f s) = cpu_wf h s"
  "lock_free l (proc_upto n f s) = lock_free l s" "cpus (proc_upto n f s) = cpus s"
  "holding h l (proc_upto n f s) = holding h l s" "locks (proc_upto n f s) = locks s"
  "settle h (proc_upto n f s) = proc_upto n f (settle h s)"
  by (simp_all add: proc_upto_def cong: if_cong)

lemma proc_at_upto [simp]: "proc_at n (f n) (proc_upto n f s) = proc_upto (Suc n) f s"
proof -
  have "(\<lambda>i. if i < n then f i (procs s i) else procs s i)(n := f n (procs s n)) =
        (\<lambda>i. if i < Suc n then f i (procs s i) else procs s i)"
    by (auto simp: fun_upd_def)
  then show ?thesis by (simp add: proc_upto_def proc_at_def)
qed

lemma kfor_procs_upto:
  assumes body: "\<And>i s. i < n \<Longrightarrow> cpu_wf h s \<Longrightarrow> lock_free (LProc i) s \<Longrightarrow> c_proc (cpus s h) = me \<Longrightarrow>
      body i s = Ok () (settle h (proc_at i (f i) s))"
    and "cpu_wf h s" and "\<forall>i<n. lock_free (LProc i) s" and "c_proc (cpus s h) = me"
  shows "kfor body [0..<n] s = Ok () (if n = 0 then s else settle h (proc_upto n f s))"
  using assms
proof (induction n)
  case 0
  then show ?case by simp
next
  case (Suc n)
  then have "body n (if n = 0 then s else settle h (proc_upto n f s)) =
      Ok () (settle h (proc_upto (Suc n) f s))"
    using proc_at_upto [of 0 f "settle h s"] by (subst Suc.prems(1)) auto
  with Suc show ?case by (simp add: kfor_append)
qed

lemma kfor_procs:
  assumes "\<And>i s. i < NPROC \<Longrightarrow> cpu_wf h s \<Longrightarrow> lock_free (LProc i) s \<Longrightarrow> c_proc (cpus s h) = me \<Longrightarrow>
      body i s = Ok () (settle h (proc_at i (f i) s))"
    and "cpu_wf h s" and "proc_locks_free s" and "c_proc (cpus s h) = me"
  shows "kfor body [0..<NPROC] s = Ok () (settle h (proc_all f s))"
  using kfor_procs_upto [of NPROC h me body f s] assms
  by (simp add: proc_locks_free_def proc_all_def proc_upto_def NPROC_def)

section \<open>Behaviour of the table operations\<close>

lemma allocpid_ok:
  assumes "cpu_wf h s" and "lock_free LPid s"
  shows "allocpid h s = Ok (nextpid s) (settle h (s\<lparr>nextpid := nextpid s + 1\<rparr>))"
proof -
  have "release h LPid (entered h LPid (s\<lparr>nextpid := n\<rparr>)) = Ok () (settle h (s\<lparr>nextpid := n\<rparr>))" for n
    using assms by (intro release_entered) simp_all
  with assms show ?thesis by (simp add: allocpid_def acquire_free Let_def)
qed

text \<open>What \<^verbatim>\<open>wakeup\<close> does to one slot.\<close>

definition woken :: "chan \<Rightarrow> proc \<Rightarrow> proc" where
  "woken ch p = (if p_state p = SLEEPING \<and> p_chan p = ch then p\<lparr>p_state := RUNNABLE\<rparr> else p)"

lemma wakeup_one_ok:
  assumes "cpu_wf h s" and "lock_free (LProc i) s"
  shows "wakeup_one h ch i s =
    Ok () (settle h (proc_at i (if c_proc (cpus s h) = Some i then id else woken ch) s))"
proof (cases "c_proc (cpus s h) = Some i")
  case True
  with assms show ?thesis by (simp add: wakeup_one_def myproc_settle proc_at_id)
next
  case False
  let ?s = "entered h (LProc i) s"
  have "(if p_state (procs s i) = SLEEPING \<and> p_chan (procs s i) = ch
         then proc_at i (\<lambda>p. p\<lparr>p_state := RUNNABLE\<rparr>) ?s else ?s) = proc_at i (woken ch) ?s"
    by (auto simp: woken_def proc_at_def)
  with assms False show ?thesis
    by (simp add: wakeup_one_def myproc_settle acquire_free Let_def with_proc_lock
        del: proc_at_simps(4,5))
qed

lemma wakeup_ok:
  assumes "cpu_wf h s" and "proc_locks_free s"
  shows "wakeup h ch s = Ok () (settle h
    (proc_all (\<lambda>i. if c_proc (cpus s h) = Some i then id else woken ch) s))"
  unfolding wakeup_def
  using assms by (intro kfor_procs) (simp_all add: wakeup_one_ok proc_locks_free_def)

lemma update_sched_stats_ok:
  assumes "cpu_wf h s" and "proc_locks_free s"
  shows "update_sched_stats h s = Ok () (settle h (proc_all (\<lambda>i. tick_proc) s))"
  unfolding update_sched_stats_def
  using assms
  by (intro kfor_procs [where me = "c_proc (cpus s h)"])
     (simp_all add: acquire_free proc_locks_free_def with_proc_lock)

text \<open>\<^verbatim>\<open>kkill\<close> acts on the first slot that has the pid, in table order.\<close>

definition kill_proc :: "proc \<Rightarrow> proc" where
  "kill_proc p = p\<lparr>p_killed := 1, p_state := (if p_state p = SLEEPING then RUNNABLE else p_state p)\<rparr>"

lemma kkill_one_miss:
  assumes "cpu_wf h s" and "lock_free (LProc i) s" and "p_pid (procs s i) \<noteq> pid"
  shows "kkill_one h pid i s = Ok None (settle h s)"
  using assms by (simp add: kkill_one_def acquire_free release_entered)

lemma kkill_one_hit:
  assumes "cpu_wf h s" and "lock_free (LProc i) s" and "p_pid (procs s i) = pid"
  shows "kkill_one h pid i s = Ok (Some 0) (settle h (proc_at i kill_proc s))"
proof -
  let ?s = "entered h (LProc i) s"
  let ?k = "proc_at i (\<lambda>p. p\<lparr>p_killed := 1\<rparr>) ?s"
  have "(if p_state (procs ?k i) = SLEEPING
         then proc_at i (\<lambda>p. p\<lparr>p_state := RUNNABLE\<rparr>) ?k else ?k) = proc_at i kill_proc ?s"
    by (auto simp: kill_proc_def proc_at_def)
  then have "kkill_one h pid i s =
      kbind (release h (LProc i) (proc_at i kill_proc ?s)) (\<lambda>_ s. Ok (Some 0) s)"
    using assms by (simp add: kkill_one_def acquire_free Let_def)
  also have "\<dots> = Ok (Some 0) (settle h (proc_at i kill_proc s))"
    using assms by (simp add: with_proc_lock)
  finally show ?thesis .
qed

text \<open>Scanning the table: slots that do not match only settle the CPU.\<close>

lemma kscan_find:
  assumes "\<And>i s'. i \<in> set is \<Longrightarrow> s' = s \<or> s' = settle h s \<Longrightarrow> P i \<Longrightarrow> f i s' = Ok (Some (r i)) (t i)"
    and "\<And>i s'. i \<in> set is \<Longrightarrow> s' = s \<or> s' = settle h s \<Longrightarrow> \<not> P i \<Longrightarrow> f i s' = Ok None (settle h s)"
  shows "kscan f is s = (case find P is of
      None \<Rightarrow> Ok None (if is = [] then s else settle h s) | Some i \<Rightarrow> Ok (Some (r i)) (t i))"
proof -
  have settled: "set js \<subseteq> set is \<Longrightarrow> kscan f js (settle h s) = (case find P js of
      None \<Rightarrow> Ok None (settle h s) | Some i \<Rightarrow> Ok (Some (r i)) (t i))" for js
    using assms by (induction js) auto
  show ?thesis
  proof (cases "is")
    case (Cons i js)
    have "kscan f js (settle h s) = (case find P js of
        None \<Rightarrow> Ok None (settle h s) | Some i \<Rightarrow> Ok (Some (r i)) (t i))"
      using Cons by (intro settled) auto
    with assms Cons show ?thesis by auto
  qed simp
qed

definition find_pid :: "u32 \<Rightarrow> 'a kproc_scheme \<Rightarrow> nat option" where
  "find_pid pid s = find (\<lambda>i. p_pid (procs s i) = pid) [0..<NPROC]"

lemma kkill_ok:
  assumes "cpu_wf h s" and "proc_locks_free s"
  shows "kkill h pid s = (case find_pid pid s of
      None \<Rightarrow> Ok (-1) (settle h s)
    | Some i \<Rightarrow> Ok 0 (settle h (proc_at i kill_proc s)))"
proof -
  have "kscan (kkill_one h pid) [0..<NPROC] s = (case find_pid pid s of
      None \<Rightarrow> Ok None (if [0..<NPROC] = [] then s else settle h s)
    | Some i \<Rightarrow> Ok (Some 0) (settle h (proc_at i kill_proc s)))"
    unfolding find_pid_def
    using assms by (intro kscan_find) (auto simp: kkill_one_hit kkill_one_miss proc_locks_free_def)
  then show ?thesis by (simp add: kkill_def NPROC_def split: option.splits)
qed

text \<open>
  \<^verbatim>\<open>kkill(pid)\<close> marks the first process of the table that has the pid as killed, wakes it if it
  sleeps, and returns 0; with no such process it changes nothing and returns -1.  All locks are
  released and the interrupt state is restored in both cases.
\<close>

theorem kkill_marks_first_match:
  assumes "cpu_wf h s" and "proc_locks_free s"
  shows "kkill h pid s = (case find_pid pid s of
      None \<Rightarrow> Ok (-1) (settle h s)
    | Some i \<Rightarrow> Ok 0 (settle h (proc_at i kill_proc s)))"
  using assms by (rule kkill_ok)

text \<open>
  \<^verbatim>\<open>wakeup(chan)\<close> makes exactly the processes that sleep on the channel runnable, the caller
  excepted; it changes no other field of any process, and releases every lock it took.
\<close>

theorem wakeup_wakes_sleepers:
  assumes "cpu_wf h s" and "proc_locks_free s"
  shows "\<exists>t. wakeup h ch s = Ok () t \<and> locks t = locks s \<and> sie t = sie s \<and>
    (\<forall>i. procs t i = (if i < NPROC \<and> c_proc (cpus s h) \<noteq> Some i \<and> p_state (procs s i) = SLEEPING \<and>
                       p_chan (procs s i) = ch
                     then (procs s i)\<lparr>p_state := RUNNABLE\<rparr> else procs s i))"
  using wakeup_ok [OF assms, of ch] by (auto simp: proc_all_def woken_def)

section \<open>What the scheduler chooses\<close>

definition advice :: "'a kproc_scheme \<Rightarrow> u32 option" where
  "advice s = (if llm_advice_valid s \<noteq> 0 \<and> ticks s - llm_advice_timestamp s < ADVICE_TIMEOUT_TICKS
               then Some (llm_recommended_pid s) else None)"

definition runnable_pid :: "u32 \<Rightarrow> 'a kproc_scheme \<Rightarrow> nat option" where
  "runnable_pid pid s =
     find (\<lambda>i. p_state (procs s i) = RUNNABLE \<and> p_pid (procs s i) = pid) [0..<NPROC]"

definition runnable_from :: "nat \<Rightarrow> 'a kproc_scheme \<Rightarrow> nat option" where
  "runnable_from k s = find (\<lambda>i. p_state (procs s i) = RUNNABLE) [k..<NPROC]"

definition rr_choice :: "nat \<Rightarrow> bool \<Rightarrow> 'a kproc_scheme \<Rightarrow> sloc" where
  "rr_choice k found s =
     (case runnable_from k s of Some i \<Rightarrow> RunRR i | None \<Rightarrow> if found then Again else Wfi)"

definition sched_choice :: "'a kproc_scheme \<Rightarrow> sloc" where
  "sched_choice s =
     (case advice s of
        None \<Rightarrow> rr_choice 0 False s
      | Some pid \<Rightarrow>
          (case runnable_pid pid s of Some i \<Rightarrow> RunAdvised i | None \<Rightarrow> rr_choice 0 False s))"

text \<open>\<open>dispatch h i s\<close>: process \<open>i\<close> is running on \<open>h\<close> and its lock is held; the effect of a location.\<close>

definition dispatch :: "nat \<Rightarrow> nat \<Rightarrow> 'a kproc_scheme \<Rightarrow> 'a kproc_scheme" where
  "dispatch h i s =
     set_cproc h (Some i) (proc_at i (\<lambda>p. p\<lparr>p_state := RUNNING\<rparr>) (entered h (LProc i) s))"

definition chosen :: "nat \<Rightarrow> sloc \<Rightarrow> 'a kproc_scheme \<Rightarrow> 'a kproc_scheme" where
  "chosen h loc s =
     (case loc of
        RunAdvised i \<Rightarrow> (dispatch h i s)\<lparr>llm_advice_valid := 0\<rparr>
      | RunRR i \<Rightarrow> dispatch h i s
      | _ \<Rightarrow> settle h s)"

lemma set_cproc_simps [simp]:
  "cpu_wf h' (set_cproc h p s) = cpu_wf h' s" "lock_free l (set_cproc h p s) = lock_free l s"
  "holding h' l (set_cproc h p s) = holding h' l s" "noff h' (set_cproc h p s) = noff h' s"
  "sie (set_cproc h p s) = sie s" "locks (set_cproc h p s) = locks s"
  "c_proc (cpus (set_cproc h p s) h) = p"
  by (auto simp: set_cproc_def cpu_wf_def lock_free_def holding_def)

lemma set_cproc_kproc [simp]:
  "procs (set_cproc h p s) = procs s" "ticks (set_cproc h p s) = ticks s"
  "llm_advice_valid (set_cproc h p s) = llm_advice_valid s"
  "llm_recommended_pid (set_cproc h p s) = llm_recommended_pid s"
  "llm_advice_timestamp (set_cproc h p s) = llm_advice_timestamp s"
  "proc_locks_free (set_cproc h p s) = proc_locks_free s"
  by (auto simp: set_cproc_def proc_locks_free_def lock_free_def)

lemma dispatch_simps [simp]:
  "cpu_wf h s \<Longrightarrow> cpu_wf h (dispatch h i s)" "holding h (LProc i) (dispatch h i s)"
  "noff h (dispatch h i s) = noff h s + 1" "\<not> sie (dispatch h i s) h"
  "c_proc (cpus (dispatch h i s) h) = Some i"
  "procs (dispatch h i s) j =
     (if i = j then (procs s i)\<lparr>p_state := RUNNING\<rparr> else procs s j)"
  "l \<noteq> LProc i \<Longrightarrow> lock_free l (dispatch h i s) = lock_free l s"
  "dispatch h i (settle h s) = dispatch h i s"
  by (auto simp: dispatch_def)

lemma read_advice_ok:
  assumes "cpu_wf h s" and "lock_free LLlm s"
  shows "read_advice h s = Ok (advice s) (settle h s)"
  using assms by (simp add: read_advice_def advice_def acquire_free release_entered Let_def)

lemma try_rr_ok:
  assumes "cpu_wf h s" and "lock_free (LProc i) s"
  shows "try_rr h i s = (if p_state (procs s i) = RUNNABLE
     then Ok (Some (RunRR i)) (dispatch h i s) else Ok None (settle h s))"
  using assms by (simp add: try_rr_def acquire_free dispatch_def release_entered)

lemma try_advised_ok:
  assumes "cpu_wf h s" and "lock_free (LProc i) s" and "lock_free LLlm s"
  shows "try_advised h pid i s = (if p_state (procs s i) = RUNNABLE \<and> p_pid (procs s i) = pid
     then Ok (Some (RunAdvised i)) ((dispatch h i s)\<lparr>llm_advice_valid := 0\<rparr>)
     else Ok None (settle h s))"
proof -
  let ?d = "dispatch h i s"
  have "0 < noff h ?d" using assms by (simp add: cpu_wf_def)
  then have "settle h ?d = ?d" by (rule settle_depth)
  then have "release h LLlm (entered h LLlm (?d\<lparr>llm_advice_valid := 0\<rparr>)) =
      Ok () (?d\<lparr>llm_advice_valid := 0\<rparr>)"
    using assms release_entered [of h "?d\<lparr>llm_advice_valid := 0\<rparr>" LLlm] by simp
  moreover have "acquire h LLlm ?d = Ok () (entered h LLlm ?d)"
    using assms by (intro acquire_free) simp
  ultimately show ?thesis
    using assms by (simp add: try_advised_def acquire_free Let_def release_entered flip: dispatch_def)
qed

lemma scheduler_rr_ok:
  assumes "cpu_wf h s" and "proc_locks_free s"
  shows "\<exists>t. scheduler_rr h k found s = Ok (rr_choice k found s) t \<and>
    settle h t = settle h (chosen h (rr_choice k found s) s) \<and>
    (k < NPROC \<longrightarrow> t = chosen h (rr_choice k found s) s)"
proof -
  have "kscan (try_rr h) [k..<NPROC] s = (case runnable_from k s of
      None \<Rightarrow> Ok None (if [k..<NPROC] = [] then s else settle h s)
    | Some i \<Rightarrow> Ok (Some (RunRR i)) (dispatch h i s))"
    unfolding runnable_from_def
    using assms by (intro kscan_find) (auto simp: try_rr_ok proc_locks_free_def)
  then show ?thesis
    by (auto simp: scheduler_rr_def rr_choice_def chosen_def split: option.splits)
qed

lemma intr_simps [simp]:
  "intr_off h (intr_on h s) = intr_off h s" "noff h' (intr_off h s) = noff h' s"
  "locks (intr_off h s) = locks s" "lock_free l (intr_off h s) = lock_free l s"
  "c_proc (cpus (intr_off h s) h') = c_proc (cpus s h')" "\<not> sie (intr_off h s) h"
  "noff h s = 0 \<Longrightarrow> cpu_wf h (intr_off h s)"
  by (auto simp: intr_off_def intr_on_def lock_free_def cpu_wf_def)

lemma intr_off_kproc [simp]:
  "procs (intr_off h s) = procs s" "ticks (intr_off h s) = ticks s"
  "llm_advice_valid (intr_off h s) = llm_advice_valid s"
  "llm_recommended_pid (intr_off h s) = llm_recommended_pid s"
  "llm_advice_timestamp (intr_off h s) = llm_advice_timestamp s"
  "proc_locks_free (intr_off h s) = proc_locks_free s"
  by (auto simp: intr_off_def proc_locks_free_def lock_free_def)

lemma choice_cong:
  assumes "procs t = procs s"
  shows "runnable_pid pid t = runnable_pid pid s" "runnable_from k t = runnable_from k s"
    "rr_choice k found t = rr_choice k found s"
  using assms by (auto simp: runnable_pid_def runnable_from_def rr_choice_def)

lemma chosen_settle [simp]: "chosen h loc (settle h s) = chosen h loc s"
  by (auto simp: chosen_def split: sloc.splits)

lemma scheduler_iter_ok:
  assumes "noff h s = 0" and "proc_locks_free s" and "lock_free LLlm s"
  shows "scheduler_iter h s = Ok (sched_choice s) (chosen h (sched_choice s) (intr_off h s))"
proof -
  let ?s = "intr_off h s"
  have wf: "cpu_wf h ?s" "proc_locks_free ?s" "lock_free LLlm ?s" using assms by simp_all
  have rr: "scheduler_rr h 0 False (settle h ?s) =
      Ok (rr_choice 0 False s) (chosen h (rr_choice 0 False s) ?s)"
    using scheduler_rr_ok [of h "settle h ?s" 0 False] wf choice_cong(3) [of "settle h ?s" s 0 False]
    by (simp add: NPROC_def)
  have adv: "kscan (try_advised h pid) [0..<NPROC] (settle h ?s) = (case runnable_pid pid s of
      None \<Rightarrow> Ok None (settle h ?s)
    | Some i \<Rightarrow> Ok (Some (RunAdvised i)) ((dispatch h i ?s)\<lparr>llm_advice_valid := 0\<rparr>))" for pid
  proof -
    have "kscan (try_advised h pid) [0..<NPROC] (settle h ?s) =
       (case find (\<lambda>i. p_state (procs s i) = RUNNABLE \<and> p_pid (procs s i) = pid) [0..<NPROC] of
          None \<Rightarrow> Ok None (if [0..<NPROC] = [] then settle h ?s else settle h (settle h ?s))
        | Some i \<Rightarrow> Ok (Some (RunAdvised i)) ((dispatch h i ?s)\<lparr>llm_advice_valid := 0\<rparr>))"
      using wf by (intro kscan_find) (auto simp: try_advised_ok proc_locks_free_def)
    then show ?thesis by (simp add: runnable_pid_def NPROC_def split: option.splits)
  qed
  have "advice ?s = advice s" by (simp add: advice_def)
  then show ?thesis
    using rr adv wf
    by (auto simp: scheduler_iter_def read_advice_ok sched_choice_def chosen_def [of h "RunAdvised i" for i]
        split: option.splits)
qed

lemma scheduler_iter_advised:
  assumes "noff h s = 0" and "proc_locks_free s" and "lock_free LLlm s"
    and "llm_advice_valid s \<noteq> 0" and "ticks s - llm_advice_timestamp s < ADVICE_TIMEOUT_TICKS"
    and "k < NPROC" and "p_state (procs s k) = RUNNABLE" and "p_pid (procs s k) = llm_recommended_pid s"
  shows "\<exists>i t. scheduler_iter h s = Ok (RunAdvised i) t \<and> i \<le> k \<and>
    p_pid (procs s i) = llm_recommended_pid s \<and> p_state (procs s i) = RUNNABLE \<and>
    procs t = (procs s)(i := (procs s i)\<lparr>p_state := RUNNING\<rparr>) \<and>
    c_proc (cpus t h) = Some i \<and> holding h (LProc i) t \<and> noff h t = 1 \<and> \<not> sie t h \<and>
    llm_advice_valid t = 0"
proof -
  let ?P = "\<lambda>i. p_state (procs s i) = RUNNABLE \<and> p_pid (procs s i) = llm_recommended_pid s"
  obtain i where i: "find ?P [0..<NPROC] = Some i" "?P i" "i \<le> k"
    using find_first [of ?P k NPROC] assms(6-8) by blast
  then have "sched_choice s = RunAdvised i"
    using assms(4,5) by (simp add: sched_choice_def advice_def runnable_pid_def)
  then have "scheduler_iter h s = Ok (RunAdvised i) ((dispatch h i (intr_off h s))\<lparr>llm_advice_valid := 0\<rparr>)"
    using scheduler_iter_ok [OF assms(1-3)] by (simp add: chosen_def)
  then show ?thesis using i assms(1) by (auto simp: fun_eq_iff)
qed

text \<open>
  C1: advice decides the next process.  If the advice is valid and younger than 200 ticks (modulo the
  32-bit wrap of the tick counter) and some process with the advised pid is runnable, one iteration
  of the scheduler dispatches a process with that pid: it is marked running on this CPU and switched
  to with exactly its own lock held; the advice is spent; no other process is touched.
\<close>

theorem scheduler_follows_advice:
  assumes "noff h s = 0" and "proc_locks_free s" and "lock_free LLlm s"
    and "llm_advice_valid s \<noteq> 0" and "ticks s - llm_advice_timestamp s < ADVICE_TIMEOUT_TICKS"
    and "k < NPROC" and "p_state (procs s k) = RUNNABLE" and "p_pid (procs s k) = llm_recommended_pid s"
  shows "\<exists>i t. scheduler_iter h s = Ok (RunAdvised i) t \<and> i \<le> k \<and>
    p_pid (procs s i) = llm_recommended_pid s \<and> p_state (procs s i) = RUNNABLE \<and>
    procs t = (procs s)(i := (procs s i)\<lparr>p_state := RUNNING\<rparr>) \<and>
    c_proc (cpus t h) = Some i \<and> holding h (LProc i) t \<and> noff h t = 1 \<and> \<not> sie t h \<and>
    llm_advice_valid t = 0"
  using assms by (rule scheduler_iter_advised)

section \<open>Round robin does not starve\<close>

text \<open>
  \<open>ran h i s'\<close> is what the scheduler may assume of the time process \<open>i\<close> ran on its hart: the thread
  comes back through \<^verbatim>\<open>sched()\<close>, so it holds its own lock, at depth one with interrupts off, and
  no other process lock is held.  \<open>rr_pass h j\<close> is the rest of a round-robin pass from a location, in
  which process \<open>j\<close> stays runnable while others run; it lists the processes dispatched.
\<close>

definition ran :: "nat \<Rightarrow> nat \<Rightarrow> 'a kproc_scheme \<Rightarrow> bool" where
  "ran h i s' \<longleftrightarrow> holding h (LProc i) s' \<and> noff h s' = 1 \<and> \<not> sie s' h \<and>
     (\<forall>k<NPROC. k \<noteq> i \<longrightarrow> lock_free (LProc k) s')"

inductive rr_pass :: "nat \<Rightarrow> nat \<Rightarrow> sloc \<Rightarrow> 'a kproc_scheme \<Rightarrow> nat list \<Rightarrow> bool" for h j where
  pass_end: "loc = Again \<or> loc = Wfi \<Longrightarrow> rr_pass h j loc s []"
| pass_run: "ran h i s' \<Longrightarrow> (i \<noteq> j \<longrightarrow> p_state (procs s' j) = RUNNABLE) \<Longrightarrow>
     scheduler_back h (RunRR i) s' = Ok loc t \<Longrightarrow> rr_pass h j loc t is \<Longrightarrow>
     rr_pass h j (RunRR i) s (i # is)"

inductive_cases rr_passE: "rr_pass h j loc s is"

text \<open>\<open>loc\<close> is at or before \<open>j\<close> in the pass when \<open>j\<close> is runnable.\<close>

definition before :: "sloc \<Rightarrow> nat \<Rightarrow> bool" where
  "before loc j \<longleftrightarrow> (case loc of RunRR i \<Rightarrow> i \<le> j | _ \<Rightarrow> False)"

lemma rr_choice_before:
  assumes "k \<le> j" and "j < NPROC" and "p_state (procs s j) = RUNNABLE"
  shows "before (rr_choice k found s) j"
proof -
  let ?P = "\<lambda>i. p_state (procs s i) = RUNNABLE"
  have "find ?P [k..<NPROC] \<noteq> None" using assms by (auto simp: find_None_iff)
  then obtain i where i: "find ?P [k..<NPROC] = Some i" by auto
  then obtain n where n: "i = k + n" "\<forall>m<n. \<not> ?P (k + m)" "k + n < NPROC"
    by (auto simp: find_Some_iff)
  have "i \<le> j"
  proof (rule ccontr)
    assume "\<not> i \<le> j"
    then have "j - k < n" and "k + (j - k) = j" using n assms(1) by auto
    with n(2) assms(3) show False by metis
  qed
  with i show ?thesis by (simp add: rr_choice_def runnable_from_def before_def)
qed

lemma scheduler_back_before:
  assumes "ran h i s'" and "scheduler_back h (RunRR i) s' = Ok loc t"
    and "p_state (procs s' j) = RUNNABLE" and "i < j" and "j < NPROC"
  shows "before loc j"
proof -
  let ?s = "set_cproc h None s'"
  have "holding h (LProc i) ?s" "1 \<le> noff h ?s" "\<not> sie ?s h"
    using assms(1) by (auto simp: ran_def)
  from release_holding [OF this] obtain u where u: "release h (LProc i) ?s = Ok () u" "cpu_wf h u"
      "lock_free (LProc i) u" "\<forall>l'. l' \<noteq> LProc i \<longrightarrow> locks u l' = locks ?s l'"
      "kspin.more u = kspin.more ?s" by blast
  have pr: "procs u = procs s'"
    using u(5) by (cases u; cases s') (simp add: set_cproc_def)
  have "lock_free (LProc k) u" if "k < NPROC" for k
  proof (cases "k = i")
    case False
    then have "locks u (LProc k) = locks s' (LProc k)" using u(4) by simp
    moreover have "lock_free (LProc k) s'" using assms(1) False that by (simp add: ran_def)
    ultimately show ?thesis by (simp add: lock_free_def)
  qed (use u(3) in simp)
  then have "proc_locks_free u" by (simp add: proc_locks_free_def)
  from scheduler_rr_ok [OF u(2) this, of "Suc i" True] obtain v
    where "scheduler_rr h (Suc i) True u = Ok (rr_choice (Suc i) True u) v" by blast
  with assms(2) u(1) have "loc = rr_choice (Suc i) True u" by (simp add: scheduler_back_def)
  with rr_choice_before [of "Suc i" j u True] assms(3-5) pr show ?thesis by simp
qed

lemma rr_pass_visits:
  "rr_pass h j loc s is \<Longrightarrow> before loc j \<Longrightarrow> j < NPROC \<Longrightarrow> j \<in> set is"
proof (induction rule: rr_pass.induct)
  case (pass_end loc s)
  then show ?case by (auto simp: before_def)
next
  case (pass_run i s' loc t "is" s)
  show ?case
  proof (cases "i = j")
    case False
    with pass_run have "i < j" by (simp add: before_def)
    with pass_run False have "before loc j" by (intro scheduler_back_before) auto
    with pass_run show ?thesis by simp
  qed simp
qed

text \<open>
  C30: without advice to follow, a pass of the scheduler over the table reaches every process that is
  runnable when the iteration starts and stays so: if the iteration starts with \<open>j\<close> runnable and
  no applicable advice, then in every continuation of the pass \<open>j\<close> is among the dispatched.
\<close>

theorem round_robin_reaches_runnable:
  assumes "noff h s = 0" and "proc_locks_free s" and "lock_free LLlm s" and "advice s = None"
    and "j < NPROC" and "p_state (procs s j) = RUNNABLE"
    and "scheduler_iter h s = Ok loc t" and "rr_pass h j loc t is"
  shows "j \<in> set is"
proof -
  have "loc = rr_choice 0 False s"
    using scheduler_iter_ok [OF assms(1-3)] assms(4,7) by (simp add: sched_choice_def)
  then have "before loc j" using rr_choice_before [of 0 j s False] assms(5,6) by simp
  with rr_pass_visits assms(5,8) show ?thesis by blast
qed

section \<open>The scheduling log\<close>

definition dec32 :: "u32 \<Rightarrow> string" where
  "dec32 w = printint kdigits (arg_int (ucast w)) 10 True"

definition udec32 :: "u32 \<Rightarrow> string" where
  "udec32 w = printint kdigits (arg_uint32 (ucast w)) 10 False"

definition comma_sep :: "string list \<Rightarrow> string" where
  "comma_sep xs = concat (case xs of [] \<Rightarrow> [] | y # ys \<Rightarrow> y # map (\<lambda>z. CHR '','' # z) ys)"

definition snap_line :: "snap \<Rightarrow> string" where
  "snap_line n = ''PROC:'' @ comma_sep [dec32 (sn_pid n), dec32 (of_nat (sn_state n)),
     dec32 (sn_cpu_ticks n), dec32 (sn_wait_ticks n), dec32 (sn_io_count n), dec32 (sn_recent_cpu n)] @ NL"

definition log_text :: "'a kproc_scheme \<Rightarrow> string" where
  "log_text s =
     ''SCHED_LOG_START'' @ NL @ ''TIMESTAMP:'' @ udec32 (ticks s) @ NL @
     concat (map (\<lambda>i. snap_line (snap_of (procs s i)))
       (filter (\<lambda>i. p_state (procs s i) \<noteq> UNUSED) [0..<NPROC])) @
     ''SCHED_LOG_END'' @ NL"

lemma snap_line_fmt:
  "printf_fmt kdigits (''PROC:%d,%d,%d,%d,%d,%d'' @ NL) [AInt a, AInt b, AInt c, AInt d, AInt e, AInt f] =
     Some (''PROC:'' @ comma_sep [dec32 a, dec32 b, dec32 c, dec32 d, dec32 e, dec32 f] @ NL)"
  by (simp add: printf_rules NL_def AInt_def dec32_def comma_sep_def)

lemma log_fmts:
  "printf_fmt kdigits (''SCHED_LOG_START'' @ NL) [] = Some (''SCHED_LOG_START'' @ NL)"
  "printf_fmt kdigits (''SCHED_LOG_END'' @ NL) [] = Some (''SCHED_LOG_END'' @ NL)"
  "printf_fmt kdigits (''TIMESTAMP:%u'' @ NL) [AInt w] = Some (''TIMESTAMP:'' @ udec32 w @ NL)"
  by (simp_all add: printf_rules NL_def AInt_def udec32_def)

text \<open>The snapshot loop: the table is no longer than the buffer, so its bound never cuts.\<close>

lemma take_snaps_ok:
  assumes "cpu_wf h s" and "proc_locks_free s" and "\<forall>i\<in>set is. i < NPROC"
    and "length acc + length is \<le> NPROC"
  shows "take_snaps h is acc s =
    Ok (acc @ map (\<lambda>i. snap_of (procs s i)) (filter (\<lambda>i. p_state (procs s i) \<noteq> UNUSED) is))
       (if is = [] then s else settle h s)"
  using assms
proof (induction "is" arbitrary: acc s)
  case (Cons i "is")
  then have "lock_free (LProc i) s" by (simp add: proc_locks_free_def)
  with Cons show ?case by (auto simp: acquire_free release_entered Let_def)
qed simp

lemma kmem_settle_frame [simp]:
  "uart_out (s\<lparr>procs := x\<rparr>) = uart_out s" "proc_locks_free (s\<lparr>uart_out := y\<rparr>) = proc_locks_free s"
  by (simp_all add: proc_locks_free_def)

lemma print_snaps_ok:
  assumes "cpu_wf h s" and "lock_free LPr s"
  shows "kfor (print_snap h) ns s =
    Ok () (if ns = [] then s
           else settle h (s\<lparr>uart_out := uart_out s @ concat (map snap_line ns)\<rparr>))"
  using assms
proof (induction ns arbitrary: s)
  case (Cons n ns)
  have "print_snap h n s = Ok () (settle h (s\<lparr>uart_out := uart_out s @ snap_line n\<rparr>))"
    unfolding print_snap_def snap_line_def using Cons.prems by (intro printf_ok snap_line_fmt)
  with Cons show ?case by simp
qed simp

lemma log_scheduling_state_ok:
  assumes "cpu_wf h s" and "proc_locks_free s" and "lock_free LPr s"
  shows "log_scheduling_state h s = Ok () (settle h (s\<lparr>uart_out := uart_out s @ log_text s\<rparr>))"
proof -
  let ?ns = "map (\<lambda>i. snap_of (procs s i)) (filter (\<lambda>i. p_state (procs s i) \<noteq> UNUSED) [0..<NPROC])"
  have "take_snaps h [0..<NPROC] [] s = Ok ?ns (settle h s)"
    using take_snaps_ok [OF assms(1,2), of "[0..<NPROC]" "[]"] by (simp add: NPROC_def)
  then show ?thesis
    using assms
    by (simp add: log_scheduling_state_def printf_ok [OF _ _ log_fmts(1) [unfolded append.simps]]
        printf_ok [OF _ _ log_fmts(2) [unfolded append.simps]]
        printf_ok [OF _ _ log_fmts(3) [unfolded append.simps]] print_snaps_ok log_text_def comp_def)
qed

text \<open>
  \<^verbatim>\<open>log_scheduling_state\<close> sends to the console exactly the record the agent parses: the start line,
  the time stamp, one line per slot in use, in table order, with its six fields, and the end line;
  the 64-entry snapshot never drops a process, and no process changes.
\<close>

theorem log_scheduling_state_prints:
  assumes "cpu_wf h s" and "proc_locks_free s" and "lock_free LPr s"
  shows "\<exists>t. log_scheduling_state h s = Ok () t \<and> uart_out t = uart_out s @ log_text s \<and>
    procs t = procs s \<and> locks t = locks s \<and> sie t = sie s"
  using log_scheduling_state_ok [OF assms] by simp

text \<open>
  on each tick \<^verbatim>\<open>update_sched_stats\<close> charges every runnable process one wait tick and every
  running process one CPU tick (counted twice, in \<^verbatim>\<open>cpu_ticks\<close> and \<^verbatim>\<open>recent_cpu\<close>); nothing else changes.
\<close>

theorem update_sched_stats_charges:
  assumes "cpu_wf h s" and "proc_locks_free s"
  shows "\<exists>t. update_sched_stats h s = Ok () t \<and> locks t = locks s \<and> sie t = sie s \<and>
    (\<forall>i<NPROC. let p = procs s i; q = procs t i in
       p_wait_ticks q = p_wait_ticks p + (if p_state p = RUNNABLE then 1 else 0) \<and>
       p_cpu_ticks q = p_cpu_ticks p + (if p_state p = RUNNING then 1 else 0) \<and>
       p_recent_cpu q = p_recent_cpu p + (if p_state p = RUNNING then 1 else 0) \<and>
       p_io_count q = p_io_count p \<and> p_state q = p_state p \<and> p_pid q = p_pid p)"
  using update_sched_stats_ok [OF assms] by (auto simp: proc_all_def tick_proc_def Let_def)

section \<open>Giving up the CPU\<close>

lemma curproc_ok:
  "cpu_wf h s \<Longrightarrow> c_proc (cpus s h) = Some i \<Longrightarrow> curproc h s = Ok i (settle h s)"
  by (simp add: curproc_def myproc_settle)

lemma intena_entered: "noff h s = 0 \<Longrightarrow> intena h (entered h l s) = sie s h"
  by (simp add: entered_def push_off_def Let_def intr_off_def intr_get_def)

lemma intena_proc_at [simp]: "intena h (proc_at i f s) = intena h s"
  by simp

lemma proc_at_proc_at: "proc_at i g (proc_at i f s) = proc_at i (g \<circ> f) s"
  by (simp add: proc_at_def)

lemma sched_ok:
  assumes "c_proc (cpus s h) = Some i" and "cpu_wf h s" and "noff h s = 0"
    and "p_state (f (procs s i)) \<noteq> RUNNING"
  shows "sched h (proc_at i f (entered h (LProc i) s)) =
    Switch (proc_at i (\<lambda>p. (f p)\<lparr>p_kintena := sie s h\<rparr>) (entered h (LProc i) s))"
proof -
  let ?s = "proc_at i f (entered h (LProc i) s)"
  have "cpu_wf h ?s" using assms by simp
  then have "curproc h ?s = Ok i ?s"
    using assms curproc_ok [of h ?s i] by (simp add: settle_depth)
  moreover have "\<not> sie ?s h" "noff h ?s = 1" "holding h (LProc i) ?s"
    using assms by simp_all
  ultimately show ?thesis
    using assms by (simp add: sched_def intr_get_def intena_entered proc_at_proc_at comp_def)
qed

lemma yield_ok:
  assumes "c_proc (cpus s h) = Some i" and "cpu_wf h s" and "noff h s = 0" and "lock_free (LProc i) s"
  shows "yield h s =
    Switch (proc_at i (\<lambda>p. p\<lparr>p_state := RUNNABLE, p_kintena := sie s h\<rparr>) (entered h (LProc i) s))"
  using assms by (simp add: yield_def curproc_ok acquire_free sched_ok)

text \<open>\<^verbatim>\<open>sleep\<close> from the state in which only the condition lock is held.\<close>

lemma sleep_ok:
  assumes "c_proc (cpus s h) = Some i" and "cpu_wf h s" and "noff h s = 0" and "lock_free (LProc i) s"
    and "lock_free lk s" and "lk \<noteq> LProc i"
  shows "sleep h ch lk (entered h lk s) =
    Switch (proc_at i (\<lambda>p. p\<lparr>p_chan := ch, p_state := SLEEPING, p_kintena := sie s h\<rparr>)
      (entered h (LProc i) s))"
  using assms by (simp add: sleep_def curproc_ok acquire_free release_under sched_ok)

text \<open>Locks of other harts: what one hart holds, the others wait for.\<close>

lemma wakeup_waits:
  assumes "cpu_wf h s" and "i < NPROC" and "\<forall>k<i. lock_free (LProc k) s"
    and "lk_locked (locks s (LProc i))" and "\<not> holding h (LProc i) s" and "c_proc (cpus s h) \<noteq> Some i"
  shows "wakeup h ch s = Spin (LProc i)"
proof -
  let ?f = "\<lambda>j. if c_proc (cpus s h) = Some j then id else woken ch"
  have pre: "kfor (wakeup_one h ch) [0..<i] s = Ok () (if i = 0 then s else settle h (proc_upto i ?f s))"
    using assms by (intro kfor_procs_upto) (simp_all add: wakeup_one_ok)
  have "wakeup_one h ch i t = Spin (LProc i)" if "t = s \<or> t = settle h (proc_upto i ?f s)" for t
  proof -
    have "cpu_wf h t" "c_proc (cpus t h) \<noteq> Some i" "lk_locked (locks t (LProc i))" "\<not> holding h (LProc i) t"
      using that assms by auto
    then show ?thesis by (simp add: wakeup_one_def myproc_settle acquire_other)
  qed
  with pre show ?thesis
    using upt_split [OF assms(2)] by (auto simp: wakeup_def kfor_append)
qed

lemma other_hart [simp]:
  "h \<noteq> h' \<Longrightarrow> cpu_wf h' (entered h l s) = cpu_wf h' s"
  "h \<noteq> h' \<Longrightarrow> cpus (settle h s) h' = cpus s h'"
  by (auto simp: cpu_wf_def entered_def push_off_def Let_def intr_off_def settle_def)

lemma set_cproc_other [simp]: "h \<noteq> h' \<Longrightarrow> cpus (set_cproc h p s) h' = cpus s h'"
  by (simp add: set_cproc_def)

lemma entered_held:
  "lk_locked (locks (entered h l s) l)" "h \<noteq> h' \<Longrightarrow> \<not> holding h' l (entered h l s)"
  by (auto simp: entered_def holding_def)

lemma entered_set_cproc: "set_cproc h p (entered h l s) = entered h l (set_cproc h p s)"
  by (cases s; cases "cpus s h") (simp add: set_cproc_def entered_def push_off_def Let_def intr_off_def intr_get_def)


section \<open>Concrete states\<close>

text \<open>A quiet kernel: no lock held, the table given, one tick counter; used to instantiate properties.\<close>

definition slot :: "procstate \<Rightarrow> chan \<Rightarrow> u32 \<Rightarrow> proc" where
  "slot st ch pid =
     \<lparr>p_state = st, p_chan = ch, p_killed = 0, p_xstate = 0, p_pid = pid, p_parent = None,
      p_kstack = 0, p_sz = 0, p_pagetable = 0, p_trapframe = 0,
      p_context = \<lparr>ctx_ra = 0, ctx_sp = 0, ctx_s = []\<rparr>, p_ofile = \<lambda>_. None, p_cwd = None,
      p_cpu_ticks = 0, p_wait_ticks = 0, p_io_count = 0, p_recent_cpu = 0,
      p_name = replicate 16 NUL, p_kintena = False\<rparr>"

definition quiet :: "(nat \<Rightarrow> proc) \<Rightarrow> kproc" where
  "quiet ps =
     \<lparr>cpus = \<lambda>_. \<lparr>c_proc = None, c_noff = 0, c_intena = False\<rparr>, sie = \<lambda>_. False,
      locks = \<lambda>_. \<lparr>lk_locked = False, lk_name = [], lk_cpu = None\<rparr>, uart_out = [],
      pmem = \<lambda>_. 0, freelist = 0, k_end = 0x80022010, procs = ps, initproc = Some 0, nextpid = 4,
      ticks = 100, llm_recommended_pid = -1, llm_advice_valid = 0, llm_advice_timestamp = 0,
      k_forkret = 0x80001000, k_trampoline = 0x80007000, k_etext = 0x80008000\<rparr>"

lemma quiet_simps [simp]:
  "cpu_wf h (quiet ps)" "lock_free l (quiet ps)" "proc_locks_free (quiet ps)" "noff h (quiet ps) = 0"
  "procs (quiet ps) = ps" "c_proc (cpus (quiet ps) h) = None" "ticks (quiet ps) = 100"
  "uart_out (quiet ps) = []" "llm_advice_valid (quiet ps) = 0" "initproc (quiet ps) = Some 0"
  "locks (quiet ps) l = \<lparr>lk_locked = False, lk_name = [], lk_cpu = None\<rparr>" "sie (quiet ps) h = False"
  by (simp_all add: quiet_def cpu_wf_def lock_free_def proc_locks_free_def)

definition three :: "nat \<Rightarrow> proc" where
  "three = (\<lambda>_. slot UNUSED ChNull 0)
     (0 := slot SLEEPING (ChProc 0) 1, 1 := slot RUNNABLE ChNull 2, 2 := slot RUNNABLE ChNull 3)"

lemma three_simps [simp]:
  "three 0 = slot SLEEPING (ChProc 0) 1" "three (Suc 0) = slot RUNNABLE ChNull 2"
  "three 2 = slot RUNNABLE ChNull 3"
  by (simp_all add: three_def)

theorem kkill_marks_first_match_witness:
  "kkill 0 1 (quiet three) = Ok 0 (settle 0 (proc_at 0 kill_proc (quiet three)))"
proof -
  have "find_pid 1 (quiet three) = Some 0"
    by (simp add: find_pid_def NPROC_def upt_rec slot_def)
  then show ?thesis using kkill_marks_first_match [of 0 "quiet three" 1] by simp
qed

theorem wakeup_wakes_sleepers_witness:
  "\<exists>t. wakeup 0 (ChProc 0) (quiet three) = Ok () t \<and> p_state (procs t 0) = RUNNABLE"
proof -
  have "0 < NPROC" by (simp add: NPROC_def)
  then show ?thesis
    using wakeup_wakes_sleepers [of 0 "quiet three" "ChProc 0"] by (auto simp: slot_def)
qed

definition advised :: kproc where
  "advised = (quiet three)\<lparr>llm_recommended_pid := 3, llm_advice_valid := 1, llm_advice_timestamp := 90\<rparr>"

lemma advised_simps [simp]:
  "cpu_wf h advised" "lock_free l advised" "proc_locks_free advised" "noff h advised = 0"
  "procs advised = three" "ticks advised = 100" "llm_recommended_pid advised = 3"
  "llm_advice_valid advised = 1" "llm_advice_timestamp advised = 90"
  by (simp_all add: advised_def quiet_def cpu_wf_def lock_free_def proc_locks_free_def)

theorem scheduler_follows_advice_witness:
  "\<exists>i t. scheduler_iter 0 advised = Ok (RunAdvised i) t \<and> p_pid (three i) = 3 \<and> llm_advice_valid t = 0"
proof -
  have "(2 :: nat) < NPROC" by (simp add: NPROC_def)
  then show ?thesis
    using scheduler_follows_advice [of advised 0 2] by (auto simp: slot_def ADVICE_TIMEOUT_TICKS_def)
qed

theorem log_scheduling_state_prints_witness:
  "\<exists>t. log_scheduling_state 0 (quiet three) = Ok () t \<and> uart_out t = log_text (quiet three)"
  using log_scheduling_state_prints [of 0 "quiet three"] by auto

theorem update_sched_stats_charges_witness:
  "\<exists>t. update_sched_stats 0 (quiet three) = Ok () t \<and> p_wait_ticks (procs t 2) = 1"
proof -
  have "(2 :: nat) < NPROC" by (simp add: NPROC_def)
  then show ?thesis
    using update_sched_stats_charges [of 0 "quiet three"] by (auto simp: slot_def Let_def)
qed

definition running1 :: kproc where
  "running1 = set_cproc 0 (Some 1) (quiet (three(1 := slot RUNNING ChNull 2)))"


text \<open>A pass in which process 1 runs and yields, then process 2.\<close>

definition idle_after :: "nat \<Rightarrow> kproc \<Rightarrow> kproc" where
  "idle_after i s = entered 0 (LProc i) s"

lemma ran_entered: "ran 0 i (idle_after i (quiet ps))"
  by (auto simp: ran_def idle_after_def)

lemma back_result:
  "\<exists>t. scheduler_back 0 (RunRR i) (idle_after i (quiet ps)) = Ok (rr_choice (Suc i) True (quiet ps)) t"
proof -
  let ?q = "set_cproc 0 None (quiet ps)"
  have "release 0 (LProc i) (set_cproc 0 None (idle_after i (quiet ps))) = Ok () (settle 0 ?q)"
    using release_entered [of 0 ?q "LProc i"] by (simp add: idle_after_def entered_set_cproc)
  moreover have "\<exists>t. scheduler_rr 0 (Suc i) True (settle 0 ?q) = Ok (rr_choice (Suc i) True (settle 0 ?q)) t"
    using scheduler_rr_ok [of 0 "settle 0 ?q" "Suc i" True] by auto
  moreover have "rr_choice (Suc i) True (settle 0 ?q) = rr_choice (Suc i) True (quiet ps)"
    by (rule choice_cong) simp
  ultimately show ?thesis by (auto simp: scheduler_back_def)
qed

lemma three_unused: "3 \<le> i \<Longrightarrow> p_state (three i) = UNUSED"
  by (simp add: three_def slot_def)

lemma three_choices:
  "rr_choice 0 False (quiet three) = RunRR 1" "rr_choice 2 True (quiet three) = RunRR 2"
  "rr_choice 3 True (quiet three) = Again"
proof -
  have "find (\<lambda>i. p_state (three i) = RUNNABLE) [3..<NPROC] = None"
    by (auto simp: find_None_iff three_unused)
  then show "rr_choice 3 True (quiet three) = Again" by (simp add: rr_choice_def runnable_from_def)
  show "rr_choice 0 False (quiet three) = RunRR 1" "rr_choice 2 True (quiet three) = RunRR 2"
    by (simp_all add: rr_choice_def runnable_from_def NPROC_def upt_rec slot_def)
qed

theorem round_robin_reaches_runnable_witness:
  "\<exists>t. scheduler_iter 0 (quiet three) = Ok (RunRR 1) t \<and> rr_pass 0 2 (RunRR 1) t [1, 2] \<and>
     (2 :: nat) \<in> set [1, 2]"
proof -
  have it: "scheduler_iter 0 (quiet three) = Ok (RunRR 1) (chosen 0 (RunRR 1) (intr_off 0 (quiet three)))"
    using scheduler_iter_ok [of "quiet three" 0] by (simp add: sched_choice_def advice_def three_choices)
  obtain t1 where 1: "scheduler_back 0 (RunRR 1) (idle_after 1 (quiet three)) = Ok (RunRR 2) t1"
    using back_result [of 1 three] by (auto simp: three_choices numeral_2_eq_2 [symmetric])
  obtain t2 where 2: "scheduler_back 0 (RunRR 2) (idle_after 2 (quiet three)) = Ok Again t2"
    using back_result [of 2 three] by (auto simp: three_choices numeral_3_eq_3 [symmetric])
  have "rr_pass 0 2 (RunRR 2) t1 [2]"
    by (rule rr_pass.pass_run [OF ran_entered _ 2 rr_pass.pass_end]) auto
  then have "rr_pass 0 2 (RunRR 1) (chosen 0 (RunRR 1) (intr_off 0 (quiet three))) [1, 2]"
    by (intro rr_pass.pass_run [OF ran_entered _ 1]) (auto simp: idle_after_def slot_def)
  with it round_robin_reaches_runnable [OF _ _ _ _ _ _ it this] show ?thesis
    by (auto simp: advice_def NPROC_def slot_def)
qed

end
