(* ===== verification/VM.thy ===== *)
theory VM
  imports Proc
begin

text \<open>
  Virtual memory, \<^verbatim>\<open>kernel/vm.c\<close>, with \<^verbatim>\<open>proc_mapstacks\<close> of \<^verbatim>\<open>proc.c\<close>, which builds part of the kernel's
  page table.  Page tables live in the byte memory, as 512 little-endian 64-bit entries per page.

  Loops that advance an address by a page run over the number of pages the C loop visits before its
  condition fails.  The data of \<^verbatim>\<open>copyout\<close>, \<^verbatim>\<open>copyin\<close> and \<^verbatim>\<open>copyinstr\<close> on the kernel side (a field of a
  kernel structure, or a stack buffer) is a list of bytes.
\<close>

record kvm = kproc +
  kernel_pagetable :: u64
  satp :: "nat \<Rightarrow> u64"

section \<open>Walking\<close>

definition pte_addr :: "u64 \<Rightarrow> nat \<Rightarrow> u64 \<Rightarrow> u64" where
  "pte_addr pt level va = pt + 8 * PX level va"

text \<open>One turn of the loop of \<^verbatim>\<open>walk\<close>: the page-table page of the next level, \<open>None\<close> when it is missing
  and cannot or may not be made.\<close>

definition walk_level :: "nat \<Rightarrow> u64 \<Rightarrow> nat \<Rightarrow> u64 \<Rightarrow> bool \<Rightarrow> 'a kvm_scheme \<Rightarrow> (u64 option, 'a kvm_scheme) res" where
  "walk_level h pt level va alloc s =
     (let pte = pte_addr pt level va;
          e = load64 (pmem s) pte
      in if e AND PTE_V \<noteq> 0 then Ok (Some (PTE2PA e)) s
         else if \<not> alloc then Ok None s
         else kbind (kalloc h s) (\<lambda>pg s.
              if pg = 0 then Ok None s
              else
                let s = s\<lparr>pmem := memset pg 0 4096 (pmem s)\<rparr>
                in Ok (Some pg) (s\<lparr>pmem := store64 pte (PA2PTE pg OR PTE_V) (pmem s)\<rparr>)))"

text \<open>The result is the address of the entry, null if there is none.\<close>

definition walk :: "nat \<Rightarrow> u64 \<Rightarrow> u64 \<Rightarrow> bool \<Rightarrow> 'a kvm_scheme \<Rightarrow> (u64, 'a kvm_scheme) res" where
  "walk h pt va alloc s =
     (if MAXVA \<le> va then Panic ''walk''
      else
        kbind (walk_level h pt 2 va alloc s) (\<lambda>r s.
        case r of
          None \<Rightarrow> Ok 0 s
        | Some pt1 \<Rightarrow>
            kbind (walk_level h pt1 1 va alloc s) (\<lambda>r s.
            case r of None \<Rightarrow> Ok 0 s | Some pt0 \<Rightarrow> Ok (pte_addr pt0 0 va) s)))"

definition walkaddr :: "nat \<Rightarrow> u64 \<Rightarrow> u64 \<Rightarrow> 'a kvm_scheme \<Rightarrow> (u64, 'a kvm_scheme) res" where
  "walkaddr h pt va s =
     (if MAXVA \<le> va then Ok 0 s
      else
        kbind (walk h pt va False s) (\<lambda>pte s.
        if pte = 0 then Ok 0 s
        else
          let e = load64 (pmem s) pte
          in if e AND PTE_V = 0 then Ok 0 s
             else if e AND PTE_U = 0 then Ok 0 s
             else Ok (PTE2PA e) s))"

definition ismapped :: "nat \<Rightarrow> u64 \<Rightarrow> u64 \<Rightarrow> 'a kvm_scheme \<Rightarrow> (bool, 'a kvm_scheme) res" where
  "ismapped h pt va s =
     kbind (walk h pt va False s) (\<lambda>pte s.
     if pte = 0 then Ok False s else Ok (load64 (pmem s) pte AND PTE_V \<noteq> 0) s)"

section \<open>Mapping\<close>

text \<open>\<open>n + 1\<close> pages from \<open>a\<close> on; the loop ends after the page at \<^verbatim>\<open>last\<close>.  The result is \<^verbatim>\<open>0\<close> or \<^verbatim>\<open>-1\<close>.\<close>

primrec mappages_loop :: "nat \<Rightarrow> u64 \<Rightarrow> nat \<Rightarrow> u64 \<Rightarrow> u64 \<Rightarrow> u64 \<Rightarrow> 'a kvm_scheme \<Rightarrow> (int, 'a kvm_scheme) res" where
  "mappages_loop h pt 0 a pa perm s =
     kbind (walk h pt a True s) (\<lambda>pte s.
     if pte = 0 then Ok (-1) s
     else if load64 (pmem s) pte AND PTE_V \<noteq> 0 then Panic ''mappages: remap''
     else Ok 0 (s\<lparr>pmem := store64 pte (PA2PTE pa OR perm OR PTE_V) (pmem s)\<rparr>))"
| "mappages_loop h pt (Suc n) a pa perm s =
     kbind (walk h pt a True s) (\<lambda>pte s.
     if pte = 0 then Ok (-1) s
     else if load64 (pmem s) pte AND PTE_V \<noteq> 0 then Panic ''mappages: remap''
     else
       mappages_loop h pt n (a + PGSIZE) (pa + PGSIZE) perm
         (s\<lparr>pmem := store64 pte (PA2PTE pa OR perm OR PTE_V) (pmem s)\<rparr>))"

definition mappages :: "nat \<Rightarrow> u64 \<Rightarrow> u64 \<Rightarrow> u64 \<Rightarrow> u64 \<Rightarrow> u64 \<Rightarrow> 'a kvm_scheme \<Rightarrow> (int, 'a kvm_scheme) res" where
  "mappages h pt va sz pa perm s =
     (if va mod PGSIZE \<noteq> 0 then Panic ''mappages: va not aligned''
      else if sz mod PGSIZE \<noteq> 0 then Panic ''mappages: size not aligned''
      else if sz = 0 then Panic ''mappages: size''
      else mappages_loop h pt (unat sz div 4096 - 1) va pa perm s)"

definition kvmmap :: "nat \<Rightarrow> u64 \<Rightarrow> u64 \<Rightarrow> u64 \<Rightarrow> u64 \<Rightarrow> u64 \<Rightarrow> 'a kvm_scheme \<Rightarrow> (unit, 'a kvm_scheme) res" where
  "kvmmap h pt va pa sz perm s =
     kbind (mappages h pt va sz pa perm s) (\<lambda>r s. if r \<noteq> 0 then Panic ''kvmmap'' else Ok () s)"

definition proc_mapstacks :: "nat \<Rightarrow> u64 \<Rightarrow> 'a kvm_scheme \<Rightarrow> (unit, 'a kvm_scheme) res" where
  "proc_mapstacks h pt s =
     kfor (\<lambda>i s.
       kbind (kalloc h s) (\<lambda>pa s.
       if pa = 0 then Panic ''kalloc''
       else kvmmap h pt (KSTACK i) pa PGSIZE (PTE_R OR PTE_W) s)) [0..<NPROC] s"

definition kvmmake :: "nat \<Rightarrow> 'a kvm_scheme \<Rightarrow> (u64, 'a kvm_scheme) res" where
  "kvmmake h s =
     kbind (kalloc h s) (\<lambda>pt s.
     let s = s\<lparr>pmem := memset pt 0 4096 (pmem s)\<rparr>;
         etext = k_etext s
     in kbind (kvmmap h pt UART0 UART0 PGSIZE (PTE_R OR PTE_W) s) (\<lambda>_ s.
        kbind (kvmmap h pt VIRTIO0 VIRTIO0 PGSIZE (PTE_R OR PTE_W) s) (\<lambda>_ s.
        kbind (kvmmap h pt PLIC PLIC 0x4000000 (PTE_R OR PTE_W) s) (\<lambda>_ s.
        kbind (kvmmap h pt KERNBASE KERNBASE (etext - KERNBASE) (PTE_R OR PTE_X) s) (\<lambda>_ s.
        kbind (kvmmap h pt etext etext (PHYSTOP - etext) (PTE_R OR PTE_W) s) (\<lambda>_ s.
        kbind (kvmmap h pt TRAMPOLINE (k_trampoline s) PGSIZE (PTE_R OR PTE_X) s) (\<lambda>_ s.
        kbind (proc_mapstacks h pt s) (\<lambda>_ s. Ok pt s))))))))"

definition kvminit :: "nat \<Rightarrow> 'a kvm_scheme \<Rightarrow> (unit, 'a kvm_scheme) res" where
  "kvminit h s = kbind (kvmmake h s) (\<lambda>pt s. Ok () (s\<lparr>kernel_pagetable := pt\<rparr>))"

definition kvminithart :: "nat \<Rightarrow> 'a kvm_scheme \<Rightarrow> 'a kvm_scheme" where
  "kvminithart h s = s\<lparr>satp := (satp s)(h := MAKE_SATP (kernel_pagetable s))\<rparr>"

section \<open>User address spaces\<close>

definition uvmcreate :: "nat \<Rightarrow> 'a kvm_scheme \<Rightarrow> (u64, 'a kvm_scheme) res" where
  "uvmcreate h s =
     kbind (kalloc h s) (\<lambda>pt s.
     if pt = 0 then Ok 0 s else Ok pt (s\<lparr>pmem := memset pt 0 4096 (pmem s)\<rparr>))"

definition unmap_one :: "nat \<Rightarrow> u64 \<Rightarrow> bool \<Rightarrow> u64 \<Rightarrow> 'a kvm_scheme \<Rightarrow> (unit, 'a kvm_scheme) res" where
  "unmap_one h pt do_free a s =
     kbind (walk h pt a False s) (\<lambda>pte s.
     if pte = 0 then Ok () s
     else
       let e = load64 (pmem s) pte
       in if e AND PTE_V = 0 then Ok () s
          else
            kbind (if do_free then kfree h (PTE2PA e) s else Ok () s) (\<lambda>_ s.
            Ok () (s\<lparr>pmem := store64 pte 0 (pmem s)\<rparr>)))"

text \<open>The addresses the loop \<^verbatim>\<open>for(a = lo; a < hi; a += PGSIZE)\<close> visits.\<close>

definition page_range :: "u64 \<Rightarrow> u64 \<Rightarrow> u64 list" where
  "page_range lo hi = map (\<lambda>i. lo + of_nat i * PGSIZE) [0..<(unat hi - unat lo + 4095) div 4096]"

definition uvmunmap :: "nat \<Rightarrow> u64 \<Rightarrow> u64 \<Rightarrow> u64 \<Rightarrow> bool \<Rightarrow> 'a kvm_scheme \<Rightarrow> (unit, 'a kvm_scheme) res" where
  "uvmunmap h pt va npages do_free s =
     (if va mod PGSIZE \<noteq> 0 then Panic ''uvmunmap: not aligned''
      else kfor (unmap_one h pt do_free) (page_range va (va + npages * PGSIZE)) s)"

text \<open>\<^verbatim>\<open>npages\<close> is an \<^verbatim>\<open>int\<close>, sign-extended when it is passed on.\<close>

definition uvmdealloc :: "nat \<Rightarrow> u64 \<Rightarrow> u64 \<Rightarrow> u64 \<Rightarrow> 'a kvm_scheme \<Rightarrow> (u64, 'a kvm_scheme) res" where
  "uvmdealloc h pt oldsz newsz s =
     (if oldsz \<le> newsz then Ok oldsz s
      else if PGROUNDUP newsz < PGROUNDUP oldsz then
        let npages = ucast ((PGROUNDUP oldsz - PGROUNDUP newsz) div PGSIZE) :: u32
        in kbind (uvmunmap h pt (PGROUNDUP newsz) (scast npages) True s) (\<lambda>_ s. Ok newsz s)
      else Ok newsz s)"

text \<open>The loop of \<^verbatim>\<open>uvmalloc\<close>; \<open>oldsz\<close> is the rounded-up start.\<close>

fun uvmalloc_loop :: "nat \<Rightarrow> u64 \<Rightarrow> u64 \<Rightarrow> u64 \<Rightarrow> u64 \<Rightarrow> u64 list \<Rightarrow> 'a kvm_scheme \<Rightarrow> (u64, 'a kvm_scheme) res" where
  "uvmalloc_loop h pt oldsz newsz xperm [] s = Ok newsz s"
| "uvmalloc_loop h pt oldsz newsz xperm (a # as) s =
     kbind (kalloc h s) (\<lambda>mem s.
     if mem = 0 then kbind (uvmdealloc h pt a oldsz s) (\<lambda>_ s. Ok 0 s)
     else
       let s = s\<lparr>pmem := memset mem 0 4096 (pmem s)\<rparr>
       in kbind (mappages h pt a PGSIZE mem (PTE_R OR PTE_U OR xperm) s) (\<lambda>r s.
          if r \<noteq> 0 then
            kbind (kfree h mem s) (\<lambda>_ s.
            kbind (uvmdealloc h pt a oldsz s) (\<lambda>_ s. Ok 0 s))
          else uvmalloc_loop h pt oldsz newsz xperm as s))"

definition uvmalloc :: "nat \<Rightarrow> u64 \<Rightarrow> u64 \<Rightarrow> u64 \<Rightarrow> u64 \<Rightarrow> 'a kvm_scheme \<Rightarrow> (u64, 'a kvm_scheme) res" where
  "uvmalloc h pt oldsz newsz xperm s =
     (if newsz < oldsz then Ok oldsz s
      else
        let oldsz = PGROUNDUP oldsz
        in uvmalloc_loop h pt oldsz newsz xperm (page_range oldsz newsz) s)"

text \<open>
  \<^verbatim>\<open>freewalk\<close> recurses as deep as the table in memory does; \<open>fuel\<close> bounds that depth.  A page table
  has three levels (\<^verbatim>\<open>walk\<close> makes no others), so \<^verbatim>\<open>uvmfree\<close> gives it 3.
\<close>

primrec freewalk :: "nat \<Rightarrow> nat \<Rightarrow> u64 \<Rightarrow> 'a kvm_scheme \<Rightarrow> (unit, 'a kvm_scheme) res" where
  "freewalk 0 h pt s = Panic ''freewalk: deeper than three levels''"
| "freewalk (Suc fuel) h pt s =
     kbind
       (kfor (\<lambda>i s.
          let a = pt + 8 * of_nat i; pte = load64 (pmem s) a
          in if pte AND PTE_V \<noteq> 0 \<and> pte AND (PTE_R OR PTE_W OR PTE_X) = 0 then
               kbind (freewalk fuel h (PTE2PA pte) s) (\<lambda>_ s.
               Ok () (s\<lparr>pmem := store64 a 0 (pmem s)\<rparr>))
             else if pte AND PTE_V \<noteq> 0 then Panic ''freewalk: leaf''
             else Ok () s) [0..<512] s)
       (\<lambda>_ s. kfree h pt s)"

definition uvmfree :: "nat \<Rightarrow> u64 \<Rightarrow> u64 \<Rightarrow> 'a kvm_scheme \<Rightarrow> (unit, 'a kvm_scheme) res" where
  "uvmfree h pt sz s =
     kbind (if 0 < sz then uvmunmap h pt 0 (PGROUNDUP sz div PGSIZE) True s else Ok () s)
       (\<lambda>_ s. freewalk 3 h pt s)"

fun uvmcopy_loop :: "nat \<Rightarrow> u64 \<Rightarrow> u64 \<Rightarrow> u64 list \<Rightarrow> 'a kvm_scheme \<Rightarrow> (int, 'a kvm_scheme) res" where
  "uvmcopy_loop h old new [] s = Ok 0 s"
| "uvmcopy_loop h old new (i # is) s =
     kbind (walk h old i False s) (\<lambda>pte s.
     if pte = 0 then uvmcopy_loop h old new is s
     else
       let e = load64 (pmem s) pte
       in if e AND PTE_V = 0 then uvmcopy_loop h old new is s
          else
            kbind (kalloc h s) (\<lambda>mem s.
            if mem = 0 then kbind (uvmunmap h new 0 (i div PGSIZE) True s) (\<lambda>_ s. Ok (-1) s)
            else
              let s = s\<lparr>pmem := memmove mem (PTE2PA e) 4096 (pmem s)\<rparr>
              in kbind (mappages h new i PGSIZE mem (PTE_FLAGS e) s) (\<lambda>r s.
                 if r \<noteq> 0 then
                   kbind (kfree h mem s) (\<lambda>_ s.
                   kbind (uvmunmap h new 0 (i div PGSIZE) True s) (\<lambda>_ s. Ok (-1) s))
                 else uvmcopy_loop h old new is s)))"

definition uvmcopy :: "nat \<Rightarrow> u64 \<Rightarrow> u64 \<Rightarrow> u64 \<Rightarrow> 'a kvm_scheme \<Rightarrow> (int, 'a kvm_scheme) res" where
  "uvmcopy h old new sz s = uvmcopy_loop h old new (page_range 0 sz) s"

definition uvmclear :: "nat \<Rightarrow> u64 \<Rightarrow> u64 \<Rightarrow> 'a kvm_scheme \<Rightarrow> (unit, 'a kvm_scheme) res" where
  "uvmclear h pt va s =
     kbind (walk h pt va False s) (\<lambda>pte s.
     if pte = 0 then Panic ''uvmclear''
     else Ok () (s\<lparr>pmem := store64 pte (load64 (pmem s) pte AND NOT PTE_U) (pmem s)\<rparr>))"

definition vmfault :: "nat \<Rightarrow> u64 \<Rightarrow> u64 \<Rightarrow> 'a kvm_scheme \<Rightarrow> (u64, 'a kvm_scheme) res" where
  "vmfault h pt va s =
     kbind (curproc h s) (\<lambda>i s.
     if p_sz (procs s i) \<le> va then Ok 0 s
     else
       let va = PGROUNDDOWN va
       in kbind (ismapped h pt va s) (\<lambda>m s.
          if m then Ok 0 s
          else
            kbind (kalloc h s) (\<lambda>mem s.
            if mem = 0 then Ok 0 s
            else
              let s = s\<lparr>pmem := memset mem 0 4096 (pmem s)\<rparr>
              in kbind (mappages h (p_pagetable (procs s i)) va PGSIZE mem (PTE_W OR PTE_U OR PTE_R) s) (\<lambda>r s.
                 if r \<noteq> 0 then kbind (kfree h mem s) (\<lambda>_ s. Ok 0 s)
                 else Ok mem s))))"

section \<open>Copying between kernel and user space\<close>

primrec store_bytes :: "u64 \<Rightarrow> u8 list \<Rightarrow> mem \<Rightarrow> mem" where
  "store_bytes a [] m = m"
| "store_bytes a (b # bs) m = store_bytes (a + 1) bs (m(a := b))"

primrec load_bytes :: "mem \<Rightarrow> u64 \<Rightarrow> nat \<Rightarrow> u8 list" where
  "load_bytes m a 0 = []"
| "load_bytes m a (Suc n) = m a # load_bytes m (a + 1) n"

text \<open>How many of \<open>len\<close> bytes at \<open>va\<close> lie in its page.\<close>

definition in_page_len :: "u64 \<Rightarrow> nat \<Rightarrow> nat" where
  "in_page_len va len = min (unat (PGSIZE - (va - PGROUNDDOWN va))) len"

lemma in_page_len_pos: "0 < len \<Longrightarrow> 0 < in_page_len va len"
proof -
  have "unat (va - PGROUNDDOWN va) < 4096"
    using in_page [OF PGROUNDDOWN_aligned, of va va] by (simp add: in_range_def)
  moreover from this have "unat (PGSIZE - (va - PGROUNDDOWN va)) = 4096 - unat (va - PGROUNDDOWN va)"
    by (simp add: PGSIZE_def unat_sub word_le_nat_alt)
  moreover assume "0 < len"
  ultimately show ?thesis by (simp add: in_page_len_def)
qed

function copyout :: "nat \<Rightarrow> u64 \<Rightarrow> u64 \<Rightarrow> u8 list \<Rightarrow> 'a kvm_scheme \<Rightarrow> (int, 'a kvm_scheme) res" where
  "copyout h pt dstva src s =
     (if src = [] then Ok 0 s
      else
        let va0 = PGROUNDDOWN dstva
        in if MAXVA \<le> va0 then Ok (-1) s
           else
             kbind (walkaddr h pt va0 s) (\<lambda>pa0 s.
             kbind (if pa0 = 0 then vmfault h pt va0 s else Ok pa0 s) (\<lambda>pa0 s.
             if pa0 = 0 then Ok (-1) s
             else
               kbind (walk h pt va0 False s) (\<lambda>pte s.
               if load64 (pmem s) pte AND PTE_W = 0 then Ok (-1) s
               else
                 let n = in_page_len dstva (length src)
                 in copyout h pt (va0 + PGSIZE) (drop n src)
                      (s\<lparr>pmem := store_bytes (pa0 + (dstva - va0)) (take n src) (pmem s)\<rparr>)))))"
  by pat_completeness auto
termination
  by (relation "measure (\<lambda>(h, pt, va, src, s). length src)")
     (auto simp: in_page_len_pos Let_def)

declare copyout.simps [simp del]

function copyin :: "nat \<Rightarrow> u64 \<Rightarrow> u64 \<Rightarrow> nat \<Rightarrow> 'a kvm_scheme \<Rightarrow> (u8 list option, 'a kvm_scheme) res" where
  "copyin h pt srcva len s =
     (if len = 0 then Ok (Some []) s
      else
        let va0 = PGROUNDDOWN srcva
        in kbind (walkaddr h pt va0 s) (\<lambda>pa0 s.
           kbind (if pa0 = 0 then vmfault h pt va0 s else Ok pa0 s) (\<lambda>pa0 s.
           if pa0 = 0 then Ok None s
           else
             let n = in_page_len srcva len;
                 bs = load_bytes (pmem s) (pa0 + (srcva - va0)) n
             in kbind (copyin h pt (va0 + PGSIZE) (len - n) s) (\<lambda>r s.
                Ok (map_option (\<lambda>rest. bs @ rest) r) s))))"
  by pat_completeness auto
termination
  by (relation "measure (\<lambda>(h, pt, va, len, s). len)")
     (auto simp: in_page_len_pos Let_def)

declare copyin.simps [simp del]

text \<open>The inner loop of \<^verbatim>\<open>copyinstr\<close>: the bytes up to the first NUL among \<open>n\<close>, and whether it came.\<close>

primrec scan_nul :: "mem \<Rightarrow> u64 \<Rightarrow> nat \<Rightarrow> u8 list \<times> bool" where
  "scan_nul m p 0 = ([], False)"
| "scan_nul m p (Suc n) =
     (if m p = 0 then ([], True)
      else case scan_nul m (p + 1) n of (bs, got) \<Rightarrow> (m p # bs, got))"

function copyinstr :: "nat \<Rightarrow> u64 \<Rightarrow> u64 \<Rightarrow> nat \<Rightarrow> 'a kvm_scheme \<Rightarrow> (u8 list option, 'a kvm_scheme) res" where
  "copyinstr h pt srcva mx s =
     (if mx = 0 then Ok None s
      else
        let va0 = PGROUNDDOWN srcva
        in kbind (walkaddr h pt va0 s) (\<lambda>pa0 s.
           if pa0 = 0 then Ok None s
           else
             let n = in_page_len srcva mx;
                 r = scan_nul (pmem s) (pa0 + (srcva - va0)) n
             in if snd r then Ok (Some (fst r)) s
                else
                  kbind (copyinstr h pt (va0 + PGSIZE) (mx - n) s) (\<lambda>q s.
                  Ok (map_option (\<lambda>rest. fst r @ rest) q) s)))"
  by pat_completeness auto
termination
  by (relation "measure (\<lambda>(h, pt, va, mx, s). mx)")
     (auto simp: in_page_len_pos Let_def)

declare copyinstr.simps [simp del]

definition either_copyout :: "nat \<Rightarrow> bool \<Rightarrow> u64 \<Rightarrow> u8 list \<Rightarrow> 'a kvm_scheme \<Rightarrow> (int, 'a kvm_scheme) res" where
  "either_copyout h user_dst dst src s =
     (if user_dst then kbind (curproc h s) (\<lambda>i s. copyout h (p_pagetable (procs s i)) dst src s)
      else kbind (myproc h s) (\<lambda>_ s. Ok 0 (s\<lparr>pmem := store_bytes dst src (pmem s)\<rparr>)))"

definition either_copyin :: "nat \<Rightarrow> bool \<Rightarrow> u64 \<Rightarrow> nat \<Rightarrow> 'a kvm_scheme \<Rightarrow> (u8 list option, 'a kvm_scheme) res" where
  "either_copyin h user_src src len s =
     (if user_src then kbind (curproc h s) (\<lambda>i s. copyin h (p_pagetable (procs s i)) src len s)
      else kbind (myproc h s) (\<lambda>_ s. Ok (Some (load_bytes (pmem s) src len)) s))"

section \<open>The page table as a tree\<close>

text \<open>
  \<open>child m p i\<close> is the table the \<open>i\<close>-th entry of the table page \<open>p\<close> points to; \<open>node m pt is\<close> follows
  a path of entries from the root.  \<open>pt_tree m pt F\<close>: the tables on paths of length at most two are
  pages outside the set \<open>F\<close> of free pages, each reached by one path only.
\<close>

definition child :: "mem \<Rightarrow> u64 \<Rightarrow> u64 \<Rightarrow> u64 option" where
  "child m p i = (let e = load64 m (p + 8 * i) in if e AND PTE_V \<noteq> 0 then Some (PTE2PA e) else None)"

primrec node :: "mem \<Rightarrow> u64 \<Rightarrow> u64 list \<Rightarrow> u64 option" where
  "node m pt [] = Some pt"
| "node m pt (i # is) = Option.bind (child m pt i) (\<lambda>p. node m p is)"

abbreviation idx :: "u64 \<Rightarrow> bool" where
  "idx i \<equiv> unat i < 512"

definition path :: "u64 list \<Rightarrow> bool" where
  "path is \<longleftrightarrow> length is \<le> 2 \<and> (\<forall>i\<in>set is. idx i)"

definition pt_tree :: "mem \<Rightarrow> u64 \<Rightarrow> u64 set \<Rightarrow> bool" where
  "pt_tree m pt F \<longleftrightarrow>
     (\<forall>is p. path is \<longrightarrow> node m pt is = Some p \<longrightarrow>
        aligned p \<and> p \<noteq> 0 \<and> p \<notin> F \<and> (\<forall>js. path js \<longrightarrow> node m pt js = Some p \<longrightarrow> js = is))"

text \<open>The entry for a virtual address, and what it says; \<^verbatim>\<open>walk\<close> and \<^verbatim>\<open>walkaddr\<close> read these.\<close>

definition leaf_table :: "mem \<Rightarrow> u64 \<Rightarrow> u64 \<Rightarrow> u64 option" where
  "leaf_table m pt va = node m pt [PX 2 va, PX 1 va]"

definition entry :: "mem \<Rightarrow> u64 \<Rightarrow> u64 \<Rightarrow> u64" where
  "entry m pt va = (case leaf_table m pt va of None \<Rightarrow> 0 | Some p \<Rightarrow> load64 m (pte_addr p 0 va))"

definition translate :: "mem \<Rightarrow> u64 \<Rightarrow> u64 \<Rightarrow> u64" where
  "translate m pt va =
     (let e = entry m pt va
      in if MAXVA \<le> va \<or> e AND PTE_V = 0 \<or> e AND PTE_U = 0 then 0 else PTE2PA e)"

lemma walk_lookup:
  assumes "va < MAXVA"
  shows "walk h pt va False s =
    Ok (case leaf_table (pmem s) pt va of None \<Rightarrow> 0 | Some p \<Rightarrow> pte_addr p 0 va) s"
  using assms
  by (auto simp: walk_def walk_level_def leaf_table_def child_def pte_addr_def Let_def)

lemma pt_tree_node:
  assumes "pt_tree m pt F" and "path is" and "node m pt is = Some p"
  shows "aligned p" "p \<noteq> 0" "p \<notin> F" "path js \<Longrightarrow> node m pt js = Some p \<Longrightarrow> js = is"
  using assms by (auto simp: pt_tree_def)

lemma path_PX [simp]: "path [PX 2 va, PX 1 va]" "path [PX 2 va]" "path []" "path [PX 2 va, PX (Suc 0) va]"
  by (simp_all add: path_def PX_less)

lemma entry_in_page:
  assumes "aligned p" and "idx i"
  shows "in_range (p + 8 * i) 8 b \<Longrightarrow> in_range p 4096 b" and "p \<noteq> 0 \<Longrightarrow> p + 8 * i \<noteq> 0"
proof -
  have room: "unat p + 4096 \<le> 2 ^ 64" by (rule aligned_room [OF assms(1)])
  have i8: "unat (8 * i) = 8 * unat i" using assms(2) by (simp add: unat_word_ariths)
  then have pi: "unat (p + 8 * i) = unat p + 8 * unat i"
    using room assms(2) by (simp add: unat_word_ariths)
  show "in_range p 4096 b" if "in_range (p + 8 * i) 8 b"
  proof -
    have "unat (p + 8 * i) + 8 \<le> 2 ^ 64" using pi room assms(2) by simp
    then have "unat (p + 8 * i) \<le> unat b" "unat b < unat (p + 8 * i) + 8"
      using that in_range_unat by blast+
    then show ?thesis using in_range_unat [OF room] pi assms(2) by simp
  qed
  show "p + 8 * i \<noteq> 0" if "p \<noteq> 0"
    using pi that by (metis add_is_0 unat_0 unat_eq_0)
qed

lemma entries_disjoint:
  assumes "aligned p" and "aligned q" and "idx i" and "idx j" and "p \<noteq> q \<or> i \<noteq> j"
    and "in_range (p + 8 * i) 8 b"
  shows "\<not> in_range (q + 8 * j) 8 b"
proof (cases "p = q")
  case False
  then show ?thesis using assms entry_in_page(1) pages_disjoint by metis
next
  case True
  have room: "unat p + 4096 \<le> 2 ^ 64" by (rule aligned_room [OF assms(1)])
  have e: "unat (p + 8 * k) = unat p + 8 * unat k" if "idx k" for k
    using room that by (simp add: unat_word_ariths)
  have "unat i \<noteq> unat j" using True assms(5) by (simp add: word_unat_eq_iff)
  moreover have "in_range (p + 8 * k) 8 b \<longleftrightarrow> unat p + 8 * unat k \<le> unat b \<and> unat b < unat p + 8 * unat k + 8"
    if "idx k" for k
    using in_range_unat [of "p + 8 * k" 8 b] e [OF that] room that by simp
  ultimately show ?thesis using assms(3,4,6) True by auto
qed

lemma node_snoc: "node m pt (is @ [i]) = Option.bind (node m pt is) (\<lambda>p. child m p i)"
proof (induction "is" arbitrary: pt)
  case (Cons j "is")
  then show ?case by (cases "child m pt j") auto
qed (cases "child m pt i"; simp)

lemma child_cong:
  assumes "aligned p" and "idx i" and "\<And>b. in_range (p + 8 * i) 8 b \<Longrightarrow> m' b = m b"
  shows "child m' p i = child m p i"
proof -
  have "load64 m' (p + 8 * i) = load64 m (p + 8 * i)" using assms by (intro load_le_cong) auto
  then show ?thesis by (simp add: child_def)
qed

text \<open>Memory that changes outside the inner tables leaves every path as it is.\<close>

lemma node_frame:
  assumes "pt_tree m pt F" and "path is"
    and "\<And>js p b. path js \<Longrightarrow> length js < 2 \<Longrightarrow> node m pt js = Some p \<Longrightarrow> in_range p 4096 b \<Longrightarrow> m' b = m b"
  shows "node m' pt is = node m pt is"
  using assms(2)
proof (induction "is" rule: rev_induct)
  case (snoc i "is")
  then have p: "path is" "idx i" "length is < 2" by (auto simp: path_def)
  then have IH: "node m' pt is = node m pt is" using snoc.IH by simp
  show ?case
  proof (cases "node m pt is")
    case (Some q)
    have "child m' q i = child m q i"
      using assms(3) [OF p(1,3) Some] p pt_tree_node(1) [OF assms(1) p(1) Some] entry_in_page(1)
      by (intro child_cong) auto
    with IH Some show ?thesis by (simp add: node_snoc)
  qed (use IH in \<open>simp add: node_snoc\<close>)
qed simp

lemma pt_tree_frame:
  assumes "pt_tree m pt F" and "F' \<subseteq> F"
    and "\<And>js p b. path js \<Longrightarrow> length js < 2 \<Longrightarrow> node m pt js = Some p \<Longrightarrow> in_range p 4096 b \<Longrightarrow> m' b = m b"
  shows "pt_tree m' pt F'"
proof -
  have "path is \<Longrightarrow> node m' pt is = node m pt is" for "is"
    by (rule node_frame [OF assms(1)]) (use assms(3) in auto)
  with assms(1,2) show ?thesis unfolding pt_tree_def by (metis subsetD)
qed

text \<open>A change inside one page that is no table, or inside a leaf table, is such a change.\<close>

lemma outside_free:
  assumes "pt_tree m pt F" and "g \<in> F" and "aligned g" and "\<And>b. \<not> in_range g 4096 b \<Longrightarrow> m' b = m b"
    and "path js" and "node m pt js = Some p" and "in_range p 4096 b"
  shows "m' b = m b"
proof -
  have "p \<noteq> g" and "aligned p" using pt_tree_node(1,3) [OF assms(1,5,6)] assms(2) by auto
  then show ?thesis using assms(3,4,7) pages_disjoint by metis
qed

lemma outside_leaf:
  assumes "pt_tree m pt F" and "path is" and "length is = 2" and "node m pt is = Some q"
    and "\<And>b. \<not> in_range q 4096 b \<Longrightarrow> m' b = m b"
    and "path js" and "length js < 2" and "node m pt js = Some p" and "in_range p 4096 b"
  shows "m' b = m b"
proof -
  have "p \<noteq> q" using pt_tree_node(4) [OF assms(1,2,4,6)] assms(3,7,8) by auto
  then show ?thesis
    using assms pt_tree_node(1) [OF assms(1,6,8)] pt_tree_node(1) [OF assms(1,2,4)] pages_disjoint by metis
qed

text \<open>Hanging a fresh, zeroed page below a table.\<close>

lemma load64_zero:
  assumes "\<And>b. in_range a 8 b \<Longrightarrow> m b = 0"
  shows "load64 m a = 0"
proof -
  have "load64 m a = load64 (\<lambda>_. 0) a" using assms by (intro load_le_cong) auto
  also have "load64 (\<lambda>_. 0) a = 0" by (simp add: eval_nat_numeral)
  finally show ?thesis .
qed

lemma new_pte:
  assumes "aligned g" and "unat g < 2 ^ 56"
  shows "(PA2PTE g OR PTE_V) AND PTE_V \<noteq> 0" and "PTE2PA (PA2PTE g OR PTE_V) = g"
proof -
  show "PTE2PA (PA2PTE g OR PTE_V) = g" using assms by (intro PTE2PA_PA2PTE) (auto simp: PTE_V_def)
  have "bit ((PA2PTE g OR PTE_V) AND PTE_V) 0" by (simp add: PTE_V_def bit_simps)
  then show "(PA2PTE g OR PTE_V) AND PTE_V \<noteq> 0" by auto
qed

lemma node_graft:
  assumes tree: "pt_tree m pt F" and g: "g \<in> F" "aligned g" "unat g < 2 ^ 56"
    and m1: "\<forall>b. \<not> in_range g 4096 b \<longrightarrow> m1 b = m b" "\<forall>b. in_range g 4096 b \<longrightarrow> m1 b = 0"
    and xs: "path xs" "length xs < 2" "node m pt xs = Some p" and i: "idx i"
    and ys: "path ys"
  shows "node (store64 (p + 8 * i) (PA2PTE g OR PTE_V) m1) pt ys =
    (if ys = xs @ [i] then Some g else if take (Suc (length xs)) ys = xs @ [i] then None else node m pt ys)"
  using ys
proof (induction ys rule: rev_induct)
  case Nil
  then show ?case by simp
next
  case (snoc j ys)
  let ?m = "store64 (p + 8 * i) (PA2PTE g OR PTE_V) m1"
  have p: "aligned p" "p \<noteq> g" using pt_tree_node(1,3) [OF tree xs(1,3)] g(1) by auto
  have ys: "path ys" "idx j" "length ys < 2" using snoc.prems by (auto simp: path_def)
  have out: "?m b = m1 b" if "\<not> in_range (p + 8 * i) 8 b" for b
    using that by (simp add: store_le_other)
  show ?case
  proof (cases "ys = xs @ [i]")
    case True
    have "child ?m g j = None"
    proof -
      have "load64 ?m (g + 8 * j) = 0"
      proof (rule load64_zero)
        fix b assume b: "in_range (g + 8 * j) 8 b"
        have "\<not> in_range (p + 8 * i) 8 b" using entries_disjoint [OF g(2) p(1) ys(2) i _ b] p(2) by auto
        with b show "?m b = 0" using out m1(2) entry_in_page(1) [OF g(2) ys(2)] by auto
      qed
      then show ?thesis by (simp add: child_def)
    qed
    then show ?thesis using True snoc.IH ys by (simp add: node_snoc)
  next
    case False
    then have nt: "take (Suc (length xs)) ys \<noteq> xs @ [i]"
      using ys(3) by (auto simp: path_def split: if_splits)
    then have IH: "node ?m pt ys = node m pt ys" using False snoc.IH ys by simp
    have take_snoc: "take (Suc (length xs)) (ys @ [j]) = xs @ [i] \<longleftrightarrow> ys @ [j] = xs @ [i]"
      using nt xs(2) ys(3) by (cases "length xs = length ys") (auto simp: take_Cons')
    show ?thesis
    proof (cases "node m pt ys")
      case None
      moreover from None have "ys \<noteq> xs" using xs(3) by auto
      ultimately show ?thesis using IH take_snoc by (simp add: node_snoc)
    next
      case (Some q)
      have q: "aligned q" "q \<noteq> g" using pt_tree_node(1,3) [OF tree ys(1) Some] g(1) by auto
      show ?thesis
      proof (cases "q = p \<and> j = i")
        case True
        then have "ys = xs" using pt_tree_node(4) [OF tree xs(1,3) ys(1)] Some by simp
        moreover have "child ?m p i = Some g"
          using new_pte [OF g(2,3)] by (simp add: child_def)
        ultimately show ?thesis using IH Some True by (simp add: node_snoc)
      next
        case False
        have "child ?m q j = child m q j"
        proof (rule child_cong [OF q(1) ys(2)])
          fix b assume b: "in_range (q + 8 * j) 8 b"
          have "\<not> in_range (p + 8 * i) 8 b" using entries_disjoint [OF q(1) p(1) ys(2) i _ b] False by auto
          moreover have "\<not> in_range g 4096 b"
            using entry_in_page(1) [OF q(1) ys(2) b] pages_disjoint [OF q(1) g(2) q(2)] by simp
          ultimately show "?m b = m b" using out m1(1) by simp
        qed
        moreover have "\<not> (ys = xs \<and> j = i)" using False Some xs(3) by auto
        ultimately show ?thesis using IH Some take_snoc by (auto simp: node_snoc)
      qed
    qed
  qed
qed

lemma pt_tree_graft:
  assumes tree: "pt_tree m pt F" and g: "g \<in> F" "aligned g" "unat g < 2 ^ 56" "g \<noteq> 0"
    and m1: "\<forall>b. \<not> in_range g 4096 b \<longrightarrow> m1 b = m b" "\<forall>b. in_range g 4096 b \<longrightarrow> m1 b = 0"
    and xs: "path xs" "length xs < 2" "node m pt xs = Some p" and i: "idx i"
  shows "pt_tree (store64 (p + 8 * i) (PA2PTE g OR PTE_V) m1) pt (F - {g})"
proof -
  let ?m = "store64 (p + 8 * i) (PA2PTE g OR PTE_V) m1"
  note graft = node_graft [OF tree g(1-3) m1 xs i]
  have src: "is = xs @ [i] \<and> q = g \<or> node m pt is = Some q"
    if "path is" "node ?m pt is = Some q" for "is" q
    using that graft [OF that(1)] by (auto split: if_splits)
  show ?thesis unfolding pt_tree_def
  proof (intro allI impI conjI)
    fix "is" q
    assume a: "path is" "node ?m pt is = Some q"
    show "aligned q" and "q \<noteq> 0" and "q \<notin> F - {g}"
      using src [OF a] pt_tree_node(1-3) [OF tree a(1)] g by auto
    fix js
    assume b: "path js" "node ?m pt js = Some q"
    show "js = is"
      using src [OF a] src [OF b] pt_tree_node(3,4) [OF tree a(1)] pt_tree_node(3) [OF tree b(1)] g(1) b(1)
      by auto
  qed
qed

section \<open>What the operations do to the tree\<close>

text \<open>\<open>vm_inv h s pt ps\<close>: the allocator can be called, \<open>ps\<close> are the free pages, and the table at \<open>pt\<close> is a
  tree of pages in use.\<close>

definition vm_inv :: "nat \<Rightarrow> 'a kvm_scheme \<Rightarrow> u64 \<Rightarrow> u64 list \<Rightarrow> bool" where
  "vm_inv h s pt ps \<longleftrightarrow> cpu_wf h s \<and> lock_free LKmem s \<and> free_list s ps \<and> pt_tree (pmem s) pt (set ps)"

definition tables :: "mem \<Rightarrow> u64 \<Rightarrow> u64 set" where
  "tables m pt = {q. \<exists>is. path is \<and> node m pt is = Some q}"

lemma page_ok_small: "page_ok e p \<Longrightarrow> unat p < 2 ^ 56"
  by (simp add: page_ok_def PHYSTOP_def KERNBASE_def word_less_nat_alt)

lemma entry_child: "entry m pt va = (case leaf_table m pt va of None \<Rightarrow> 0 | Some p \<Rightarrow> load64 m (p + 8 * PX 0 va))"
  by (simp add: entry_def pte_addr_def split: option.splits)

text \<open>Memory that changes only outside the tables, or in fresh pages, keeps every entry.\<close>

lemma entry_frame:
  assumes "pt_tree m pt F"
    and "\<And>js p b. path js \<Longrightarrow> node m pt js = Some p \<Longrightarrow> in_range p 4096 b \<Longrightarrow> m' b = m b"
  shows "entry m' pt va = entry m pt va"
proof -
  have n: "leaf_table m' pt va = leaf_table m pt va"
    unfolding leaf_table_def by (rule node_frame [OF assms(1)]) (use assms(2) in auto)
  show ?thesis
  proof (cases "leaf_table m pt va")
    case (Some p)
    then have p: "node m pt [PX 2 va, PX 1 va] = Some p" by (simp add: leaf_table_def)
    have "load64 m' (p + 8 * PX 0 va) = load64 m (p + 8 * PX 0 va)"
      using assms(2) [OF path_PX(1) p] entry_in_page(1) [OF pt_tree_node(1) [OF assms(1) path_PX(1) p] PX_less]
      by (intro load_le_cong) auto
    with n Some show ?thesis by (simp add: entry_child)
  qed (use n in \<open>simp add: entry_child\<close>)
qed

lemma entry_graft:
  assumes tree: "pt_tree m pt F" and g: "g \<in> F" "aligned g" "unat g < 2 ^ 56" "g \<noteq> 0"
    and m1: "\<forall>b. \<not> in_range g 4096 b \<longrightarrow> m1 b = m b" "\<forall>b. in_range g 4096 b \<longrightarrow> m1 b = 0"
    and xs: "path xs" "length xs < 2" "node m pt xs = Some p" and i: "idx i" "child m p i = None"
  shows "entry (store64 (p + 8 * i) (PA2PTE g OR PTE_V) m1) pt va = entry m pt va"
proof -
  let ?m = "store64 (p + 8 * i) (PA2PTE g OR PTE_V) m1" and ?ys = "[PX 2 va, PX 1 va]"
  note graft = node_graft [OF tree g(1-3) m1 xs i(1) path_PX(1) [of va]]
  have p: "aligned p" "p \<noteq> g" using pt_tree_node(1,3) [OF tree xs(1,3)] g(1) by auto
  have out: "?m b = m1 b" if "\<not> in_range (p + 8 * i) 8 b" for b
    using that by (simp add: store_le_other)
  show ?thesis
  proof (cases "take (Suc (length xs)) ?ys = xs @ [i]")
    case True
    then obtain zs where zs: "?ys = xs @ [i] @ zs" by (metis append_assoc append_take_drop_id)
    have "node m pt ?ys = None"
    proof (cases zs)
      case Nil
      then show ?thesis using zs xs(3) i(2) by (metis append_Nil2 bind.bind_lunit node_snoc)
    next
      case (Cons z zs')
      then have "xs = []" "i = PX 2 va" using zs by (cases xs; auto)+
      then show ?thesis using xs(3) i(2) by simp
    qed
    then have "entry m pt va = 0" by (simp add: entry_def leaf_table_def del: node.simps)
    moreover have "entry ?m pt va = 0"
    proof (cases "?ys = xs @ [i]")
      case eq: True
      have "load64 ?m (g + 8 * PX 0 va) = 0"
      proof (rule load64_zero)
        fix b assume b: "in_range (g + 8 * PX 0 va) 8 b"
        have "\<not> in_range (p + 8 * i) 8 b"
          using entries_disjoint [OF g(2) p(1) PX_less i(1) _ b] p(2) by auto
        with b show "?m b = 0" using out m1(2) entry_in_page(1) [OF g(2) PX_less] by auto
      qed
      then show ?thesis using graft eq by (simp add: entry_child leaf_table_def del: node.simps)
    next
      case ne: False
      then have "node ?m pt ?ys = None" using graft True by (simp only: if_False if_True refl)
      then show ?thesis by (simp add: entry_child leaf_table_def del: node.simps)
    qed
    ultimately show ?thesis by simp
  next
    case False
    then have "node ?m pt ?ys = node m pt ?ys" using graft xs(2) by (auto simp del: node.simps)
    moreover have "load64 ?m (q + 8 * PX 0 va) = load64 m (q + 8 * PX 0 va)" if q: "node m pt ?ys = Some q" for q
    proof (rule load_le_cong)
      fix b assume b: "in_range (q + 8 * PX 0 va) 8 b"
      have al: "aligned q" "q \<noteq> g" using pt_tree_node(1,3) [OF tree path_PX(1) q] g(1) by auto
      have "q \<noteq> p" using pt_tree_node(4) [OF tree xs(1,3) path_PX(1) [of va]] q xs(2) by auto
      then have "\<not> in_range (p + 8 * i) 8 b"
        using entries_disjoint [OF al(1) p(1) PX_less i(1) _ b] by auto
      moreover have "\<not> in_range g 4096 b"
        using entry_in_page(1) [OF al(1) PX_less b] pages_disjoint [OF al(1) g(2) al(2)] by simp
      ultimately show "?m b = m b" using out m1(1) by simp
    qed simp
    ultimately show ?thesis by (auto simp: entry_child leaf_table_def simp del: node.simps split: option.splits)
  qed
qed

text \<open>Allocating a page and zeroing it.\<close>

lemma kalloc_zeroed:
  assumes "vm_inv h s pt (g # ps)"
  shows "kalloc h s = Ok g (settle h (kalloc_upd s))" and "g \<noteq> 0" and "aligned g" and "unat g < 2 ^ 56"
    and "free_list (kalloc_upd s) ps"
    and "\<not> in_range g 4096 b \<Longrightarrow> memset g 0 4096 (pmem (kalloc_upd s)) b = pmem s b"
    and "in_range g 4096 b \<Longrightarrow> memset g 0 4096 (pmem (kalloc_upd s)) b = 0"
proof -
  have fl: "free_list s (g # ps)" using assms by (simp add: vm_inv_def)
  then have "page_ok (k_end s) g" by (simp add: free_list_def)
  then show "aligned g" and "unat g < 2 ^ 56" by (blast intro: page_ok_aligned page_ok_small)+
  show "g \<noteq> 0" and "free_list (kalloc_upd s) ps" using free_list_kalloc [OF fl] by auto
  show "kalloc h s = Ok g (settle h (kalloc_upd s))"
    using assms kalloc_ok [of h s] free_list_kalloc(1) [OF fl] by (simp add: vm_inv_def)
  show "\<not> in_range g 4096 b \<Longrightarrow> memset g 0 4096 (pmem (kalloc_upd s)) b = pmem s b"
    using kalloc_upd_pmem [of s b] free_list_kalloc(1) [OF fl] by (simp add: memset_page)
  show "in_range g 4096 b \<Longrightarrow> memset g 0 4096 (pmem (kalloc_upd s)) b = 0"
    by (simp add: memset_page)
qed

lemma free_list_pmem:
  assumes "free_list s ps" and "\<And>p b. p \<in> set ps \<Longrightarrow> in_range p 8 b \<Longrightarrow> m b = pmem s b"
  shows "free_list (s\<lparr>pmem := m\<rparr>) ps"
proof -
  have "run_list m (freelist s) ps = run_list (pmem s) (freelist s) ps"
    using assms(2) by (intro run_list_cong) auto
  with assms(1) show ?thesis by (simp add: free_list_def)
qed

text \<open>A write inside a page that is not free keeps the free list.\<close>

lemma free_list_write:
  assumes "free_list s ps" and "aligned p" and "p \<notin> set ps" and "\<And>b. \<not> in_range p 4096 b \<Longrightarrow> m b = pmem s b"
  shows "free_list (s\<lparr>pmem := m\<rparr>) ps"
proof (rule free_list_pmem [OF assms(1)])
  fix q b
  assume "q \<in> set ps" and "in_range q 8 b"
  then have "in_range q 4096 b" and "aligned q" and "q \<noteq> p"
    using assms(1,3) in_range_mono [of q 8 b 4096] page_ok_aligned by (auto simp: free_list_def)
  then show "m b = pmem s b" using assms(2,4) pages_disjoint by blast
qed

lemma walk_level_alloc:
  assumes inv: "vm_inv h s pt ps" and xs: "path xs" "length xs < 2" "node (pmem s) pt xs = Some p"
  shows "\<exists>r t qs. walk_level h p l va True s = Ok r t \<and> vm_inv h t pt qs \<and> set qs \<subseteq> set ps \<and>
    (\<forall>va'. entry (pmem t) pt va' = entry (pmem s) pt va') \<and>
    tables (pmem t) pt \<subseteq> tables (pmem s) pt \<union> set ps \<and>
    (r = None \<longrightarrow> ps = []) \<and> length ps \<le> Suc (length qs) \<and> (\<forall>q. r = Some q \<longrightarrow> node (pmem t) pt (xs @ [PX l va]) = Some q)"
proof -
  let ?a = "p + 8 * PX l va"
  have tree: "pt_tree (pmem s) pt (set ps)" using inv by (simp add: vm_inv_def)
  note p = pt_tree_node [OF tree xs(1,3)]
  show ?thesis
  proof (cases "child (pmem s) p (PX l va)")
    case (Some q)
    then have "walk_level h p l va True s = Ok (Some q) s"
      by (auto simp: walk_level_def child_def pte_addr_def Let_def split: if_splits)
    with Some inv xs(3) show ?thesis
      by (intro exI [of _ "Some q"] exI [of _ s] exI [of _ ps]) (auto simp: node_snoc)
  next
    case None
    then have none: "load64 (pmem s) ?a AND PTE_V = 0" by (auto simp: child_def Let_def split: if_splits)
    show ?thesis
    proof (cases ps)
      case Nil
      then have "kalloc h s = Ok 0 (settle h s)"
        using inv free_list_empty [of s] kalloc_ok [of h s] by (simp add: vm_inv_def)
      then have "walk_level h p l va True s = Ok None (settle h s)"
        using none by (simp add: walk_level_def pte_addr_def)
      with inv Nil show ?thesis
        by (intro exI [of _ None] exI [of _ "settle h s"] exI [of _ "[]"]) (auto simp: vm_inv_def)
    next
      case (Cons g qs)
      note k = kalloc_zeroed [OF inv [unfolded Cons]]
      let ?m1 = "memset g 0 4096 (pmem (kalloc_upd s))"
      let ?m = "store64 ?a (PA2PTE g OR PTE_V) ?m1"
      let ?t = "settle h (kalloc_upd s)\<lparr>pmem := ?m\<rparr>"
      have run: "walk_level h p l va True s = Ok (Some g) ?t"
        using none k(1,2) by (simp add: walk_level_def pte_addr_def)
      have m1: "\<forall>b. \<not> in_range g 4096 b \<longrightarrow> ?m1 b = pmem s b" "\<forall>b. in_range g 4096 b \<longrightarrow> ?m1 b = 0"
        using k(6,7) by blast+
      have g: "g \<in> set ps" using Cons by simp
      note graft = node_graft [OF tree g k(3,4) m1 xs PX_less [of l va]]
        pt_tree_graft [OF tree g k(3,4,2) m1 xs PX_less [of l va]]
        entry_graft [OF tree g k(3,4,2) m1 xs PX_less [of l va] None]
      have "distinct (g # qs)" using inv Cons by (simp add: vm_inv_def free_list_def)
      then have F: "set ps - {g} = set qs" using Cons by auto
      have "free_list (kalloc_upd s\<lparr>pmem := ?m1\<rparr>) qs"
        using k(5) k(3) \<open>distinct (g # qs)\<close>
        by (intro free_list_write [where p = g]) (auto simp: memset_page)
      then have "free_list ((kalloc_upd s\<lparr>pmem := ?m1\<rparr>)\<lparr>pmem := ?m\<rparr>) qs"
        using p(1,3) Cons entry_in_page(1) [OF p(1) PX_less]
        by (intro free_list_write [where p = p and s = "kalloc_upd s\<lparr>pmem := ?m1\<rparr>"])
           (auto intro!: store_le_other)
      then have "vm_inv h ?t pt qs"
        using inv graft(2) F by (simp add: vm_inv_def free_list_def)
      moreover have "tables ?m pt \<subseteq> tables (pmem s) pt \<union> set ps"
        using graft(1) g by (auto simp: tables_def split: if_splits)
      moreover have "node ?m pt (xs @ [PX l va]) = Some g"
        using graft(1) [of "xs @ [PX l va]"] xs(1,2) by (auto simp: path_def PX_less)
      ultimately show ?thesis
        using run graft(3) Cons
        by (intro exI [of _ "Some g"] exI [of _ ?t] exI [of _ qs]) auto
    qed
  qed
qed

lemma leaf_entry_nonzero:
  assumes "pt_tree m pt F" and "leaf_table m pt va = Some q"
  shows "pte_addr q 0 va \<noteq> 0"
proof -
  have n: "node m pt [PX 2 va, PX 1 va] = Some q" using assms(2) by (simp add: leaf_table_def)
  show ?thesis
    using entry_in_page(2) [OF pt_tree_node(1) [OF assms(1) path_PX(1) n] PX_less [of 0 va]]
      pt_tree_node(2) [OF assms(1) path_PX(1) n]
    by (simp add: pte_addr_def)
qed

text \<open>\<^verbatim>\<open>walk\<close> with \<^verbatim>\<open>alloc\<close>: it either runs out of pages or finds the leaf table, making what is missing;
  no entry of any address changes.\<close>

lemma walk_alloc:
  assumes inv: "vm_inv h s pt ps" and va: "va < MAXVA"
  shows "\<exists>r t qs. walk h pt va True s = Ok r t \<and> vm_inv h t pt qs \<and> set qs \<subseteq> set ps \<and>
    (\<forall>va'. entry (pmem t) pt va' = entry (pmem s) pt va') \<and>
    tables (pmem t) pt \<subseteq> tables (pmem s) pt \<union> set ps \<and>
    (2 \<le> length ps \<longrightarrow> r \<noteq> 0) \<and> length ps \<le> length qs + 2 \<and>
    (r = 0 \<or> (\<exists>q. leaf_table (pmem t) pt va = Some q \<and> r = pte_addr q 0 va))"
proof -
  have va': "\<not> MAXVA \<le> va" using va by simp
  have "node (pmem s) pt [] = Some pt" by simp
  from walk_level_alloc [OF inv path_PX(3) _ this, of 2 va]
  obtain r1 t1 ps1 where 1: "walk_level h pt 2 va True s = Ok r1 t1" "vm_inv h t1 pt ps1" "set ps1 \<subseteq> set ps"
    "\<forall>va'. entry (pmem t1) pt va' = entry (pmem s) pt va'" "r1 = None \<longrightarrow> ps = []"
    "length ps \<le> Suc (length ps1)" "tables (pmem t1) pt \<subseteq> tables (pmem s) pt \<union> set ps"
    "\<forall>q. r1 = Some q \<longrightarrow> node (pmem t1) pt [PX 2 va] = Some q" by auto
  show ?thesis
  proof (cases r1)
    case None
    then show ?thesis using 1 va' by (intro exI [of _ 0] exI [of _ t1] exI [of _ ps1]) (simp add: walk_def)
  next
    case (Some p1)
    with 1(8) have n1: "node (pmem t1) pt [PX 2 va] = Some p1" by simp
    from walk_level_alloc [OF 1(2) path_PX(2) _ n1, of 1 va]
    obtain r2 t2 ps2 where 2: "walk_level h p1 1 va True t1 = Ok r2 t2" "vm_inv h t2 pt ps2"
      "set ps2 \<subseteq> set ps1" "\<forall>va'. entry (pmem t2) pt va' = entry (pmem t1) pt va'"
      "r2 = None \<longrightarrow> ps1 = []" "length ps1 \<le> Suc (length ps2)"
      "tables (pmem t2) pt \<subseteq> tables (pmem t1) pt \<union> set ps1"
      "\<forall>q. r2 = Some q \<longrightarrow> node (pmem t2) pt ([PX 2 va] @ [PX 1 va]) = Some q" by auto
    show ?thesis
    proof (cases r2)
      case None
      then show ?thesis using 1 2 Some va'
        by (intro exI [of _ 0] exI [of _ t2] exI [of _ ps2]) (auto simp: walk_def)
    next
      case (Some p0)
      then have lt: "leaf_table (pmem t2) pt va = Some p0"
        using 2(8) by (simp add: leaf_table_def)
      then have "pte_addr p0 0 va \<noteq> 0"
        using 2(2) leaf_entry_nonzero by (auto simp: vm_inv_def)
      with Some lt show ?thesis using 1 2 \<open>r1 = Some p1\<close> va'
        by (intro exI [of _ "pte_addr p0 0 va"] exI [of _ t2] exI [of _ ps2])
           (auto simp: walk_def leaf_table_def simp del: node.simps)
    qed
  qed
qed

text \<open>Storing an entry into a leaf table.\<close>

lemma same_page_PX: "PX 0 a = PX 0 b \<Longrightarrow> PX 1 a = PX 1 b \<Longrightarrow> PX 2 a = PX 2 b \<Longrightarrow> a < MAXVA \<Longrightarrow> b < MAXVA \<Longrightarrow>
    PGROUNDDOWN a = PGROUNDDOWN b"
  by (rule page_bits_eqI) (auto simp: MAXVA_def word_less_nat_alt)

lemma store_entry:
  fixes e :: u64
  assumes inv: "vm_inv h s pt ps" and q: "leaf_table (pmem s) pt va = Some q"
  defines "m \<equiv> store64 (pte_addr q 0 va) e (pmem s)"
  shows "vm_inv h (s\<lparr>pmem := m\<rparr>) pt ps" and "entry m pt va = e" and "tables m pt = tables (pmem s) pt"
    and "va < MAXVA \<Longrightarrow> va' < MAXVA \<Longrightarrow> PGROUNDDOWN va' \<noteq> PGROUNDDOWN va \<Longrightarrow>
      entry m pt va' = entry (pmem s) pt va'"
proof -
  have tree: "pt_tree (pmem s) pt (set ps)" using inv by (simp add: vm_inv_def)
  have nq: "node (pmem s) pt [PX 2 va, PX 1 va] = Some q" using q by (simp add: leaf_table_def)
  note al = pt_tree_node [OF tree path_PX(1) nq]
  have out: "m b = pmem s b" if "\<not> in_range (q + 8 * PX 0 va) 8 b" for b
    using that by (simp add: m_def pte_addr_def store_le_other)
  then have outp: "m b = pmem s b" if "\<not> in_range q 4096 b" for b
    using that entry_in_page(1) [OF al(1) PX_less] by blast
  have fr: "m b = pmem s b" if "path js" "length js < 2" "node (pmem s) pt js = Some p" "in_range p 4096 b" for js p b
    by (rule outside_leaf [OF tree path_PX(1) _ nq outp that]) simp_all
  have nodes: "node m pt is = node (pmem s) pt is" if "path is" for "is"
    by (rule node_frame [OF tree that]) (use fr in auto)
  have "pt_tree m pt (set ps)" by (rule pt_tree_frame [OF tree]) (use fr in auto)
  moreover have "free_list (s\<lparr>pmem := m\<rparr>) ps"
    using inv al(1,3) outp by (intro free_list_write [where p = q]) (auto simp: vm_inv_def)
  ultimately show "vm_inv h (s\<lparr>pmem := m\<rparr>) pt ps" using inv by (simp add: vm_inv_def)
  show "tables m pt = tables (pmem s) pt" using nodes by (auto simp: tables_def)
  show "entry m pt va = e"
    using nodes [OF path_PX(1) [of va]] nq
    by (simp add: entry_def leaf_table_def del: node.simps) (simp add: m_def pte_addr_def)
  show "entry m pt va' = entry (pmem s) pt va'"
    if va: "va < MAXVA" "va' < MAXVA" "PGROUNDDOWN va' \<noteq> PGROUNDDOWN va"
  proof (cases "node (pmem s) pt [PX 2 va', PX 1 va']")
    case None
    then show ?thesis using nodes [OF path_PX(1) [of va']] by (simp add: entry_def leaf_table_def del: node.simps)
  next
    case (Some r)
    have "r \<noteq> q \<or> PX 0 va' \<noteq> PX 0 va"
      using same_page_PX [of va' va] va pt_tree_node(4) [OF tree path_PX(1) nq path_PX(1) [of va']] Some by auto
    then have "load64 m (r + 8 * PX 0 va') = load64 (pmem s) (r + 8 * PX 0 va')"
      using out entries_disjoint [OF pt_tree_node(1) [OF tree path_PX(1) Some] al(1) PX_less PX_less]
      by (intro load_le_cong) auto
    then show ?thesis using nodes [OF path_PX(1) [of va']] Some
      by (simp add: entry_child leaf_table_def del: node.simps)
  qed
qed

section \<open>Mapping and looking up\<close>

lemma walkaddr_translate:
  assumes "pt_tree (pmem s) pt F"
  shows "walkaddr h pt va s = Ok (translate (pmem s) pt va) s"
proof (cases "leaf_table (pmem s) pt va")
  case None
  then show ?thesis by (simp add: walkaddr_def walk_lookup translate_def entry_def Let_def not_le)
next
  case (Some q)
  then show ?thesis
    using leaf_entry_nonzero [OF assms Some]
    by (cases "MAXVA \<le> va") (auto simp: walkaddr_def walk_lookup translate_def entry_def Let_def not_le)
qed

text \<open>One turn of the loop of \<^verbatim>\<open>mappages\<close>.\<close>

definition map_one :: "nat \<Rightarrow> u64 \<Rightarrow> u64 \<Rightarrow> u64 \<Rightarrow> u64 \<Rightarrow> 'a kvm_scheme \<Rightarrow> (int, 'a kvm_scheme) res" where
  "map_one h pt a pa perm s =
     kbind (walk h pt a True s) (\<lambda>pte s.
     if pte = 0 then Ok (-1) s
     else if load64 (pmem s) pte AND PTE_V \<noteq> 0 then Panic ''mappages: remap''
     else Ok 0 (s\<lparr>pmem := store64 pte (PA2PTE pa OR perm OR PTE_V) (pmem s)\<rparr>))"

lemma mappages_loop_map_one:
  "mappages_loop h pt 0 a pa perm s = map_one h pt a pa perm s"
  "mappages_loop h pt (Suc n) a pa perm s =
     kbind (map_one h pt a pa perm s) (\<lambda>r s.
       if r \<noteq> 0 then Ok r s else mappages_loop h pt n (a + PGSIZE) (pa + PGSIZE) perm s)"
  by (auto simp: map_one_def kbind_assoc intro!: arg_cong2 [where f = kbind] ext)

lemma map_one_spec:
  assumes inv: "vm_inv h s pt ps" and va: "va < MAXVA" and un: "entry (pmem s) pt va AND PTE_V = 0"
  shows "\<exists>r t qs. map_one h pt va pa perm s = Ok r t \<and> vm_inv h t pt qs \<and> set qs \<subseteq> set ps \<and>
    (r = 0 \<or> r = -1) \<and> (2 \<le> length ps \<longrightarrow> r = 0) \<and> length ps \<le> length qs + 2 \<and>
    tables (pmem t) pt \<subseteq> tables (pmem s) pt \<union> set ps \<and> entry (pmem t) pt va = (if r = 0 then PA2PTE pa OR perm OR PTE_V else entry (pmem s) pt va) \<and>
    (\<forall>va'. va' < MAXVA \<longrightarrow> PGROUNDDOWN va' \<noteq> PGROUNDDOWN va \<longrightarrow> entry (pmem t) pt va' = entry (pmem s) pt va')"
proof -
  from walk_alloc [OF inv va] obtain r t qs where
    w: "walk h pt va True s = Ok r t" "vm_inv h t pt qs" "set qs \<subseteq> set ps"
       "\<forall>va'. entry (pmem t) pt va' = entry (pmem s) pt va'"
       "r = 0 \<or> (\<exists>q. leaf_table (pmem t) pt va = Some q \<and> r = pte_addr q 0 va)"
       "2 \<le> length ps \<longrightarrow> r \<noteq> 0" "length ps \<le> length qs + 2"
       "tables (pmem t) pt \<subseteq> tables (pmem s) pt \<union> set ps" by blast
  show ?thesis
  proof (cases "r = 0")
    case True
    then show ?thesis using w by (intro exI [of _ "-1"] exI [of _ t] exI [of _ qs]) (auto simp: map_one_def)
  next
    case False
    with w(5) obtain q where q: "leaf_table (pmem t) pt va = Some q" "r = pte_addr q 0 va" by auto
    let ?e = "PA2PTE pa OR perm OR PTE_V"
    let ?u = "t\<lparr>pmem := store64 (pte_addr q 0 va) ?e (pmem t)\<rparr>"
    have "load64 (pmem t) r AND PTE_V = 0" using w(4) un q by (metis entry_def option.simps(5))
    then have "map_one h pt va pa perm s = Ok 0 ?u" using w(1) False q by (simp add: map_one_def)
    then show ?thesis
      using store_entry [OF w(2) q(1), where e = ?e] w(3,4,7,8) va
      by (intro exI [of _ 0] exI [of _ ?u] exI [of _ qs]) auto
  qed
qed

lemma map_one_remap:
  assumes inv: "vm_inv h s pt ps" and va: "va < MAXVA" and un: "entry (pmem s) pt va AND PTE_V \<noteq> 0"
  shows "map_one h pt va pa perm s = Panic ''mappages: remap''"
proof -
  have "entry (pmem s) pt va \<noteq> 0" using un by auto
  then obtain q where q: "leaf_table (pmem s) pt va = Some q"
    by (cases "leaf_table (pmem s) pt va") (auto simp: entry_def)
  have "walk h pt va True s = Ok (pte_addr q 0 va) s"
    using q va by (auto simp: walk_def walk_level_def leaf_table_def child_def pte_addr_def Let_def
        split: if_splits option.splits bind_splits)
  then show ?thesis
    using un q leaf_entry_nonzero [of "pmem s" pt "set ps" va q] inv
    by (simp add: map_one_def entry_def vm_inv_def)
qed

lemma mappages_page: "va mod PGSIZE = 0 \<Longrightarrow> mappages h pt va PGSIZE pa perm s = map_one h pt va pa perm s"
  by (simp add: mappages_def map_one_def) (simp add: PGSIZE_def)

lemma bit_PTE_U: "bit PTE_U n \<longleftrightarrow> n = 4"
  unfolding PTE_U_def bit_push_bit_iff by (auto simp: bit_1_iff)

lemma translate_new:
  assumes "aligned pa" and "unat pa < 2 ^ 56" and "unat perm < 2 ^ 10" and "perm AND PTE_U \<noteq> 0"
    and "entry m pt va = PA2PTE pa OR perm OR PTE_V" and "va < MAXVA"
  shows "translate m pt va = pa"
proof -
  have pv: "unat (perm OR PTE_V) < 2 ^ 10"
  proof (rule no_high_bits_small)
    fix n :: nat
    assume "10 \<le> n"
    then show "\<not> bit (perm OR PTE_V) n"
      using small_no_high_bits [OF assms(3)] by (auto simp: PTE_V_def bit_simps)
  qed
  have "bit perm 4"
  proof (rule ccontr)
    assume "\<not> bit perm 4"
    then have "perm AND PTE_U = 0" by (intro bit_eqI) (auto simp: bit_and_iff bit_PTE_U)
    with assms(4) show False by simp
  qed
  then have "bit ((PA2PTE pa OR perm OR PTE_V) AND PTE_U) 4" and "bit ((PA2PTE pa OR perm OR PTE_V) AND PTE_V) 0"
    by (auto simp: PTE_U_def PTE_V_def bit_simps)
  then have "(PA2PTE pa OR perm OR PTE_V) AND PTE_U \<noteq> 0" "(PA2PTE pa OR perm OR PTE_V) AND PTE_V \<noteq> 0"
    by (metis bit_0_eq bot_apply bot_bool_def)+
  moreover have "PTE2PA (PA2PTE pa OR perm OR PTE_V) = pa"
    using PTE2PA_PA2PTE(1) [OF assms(1,2) pv] by simp
  ultimately show ?thesis using assms(5,6) by (auto simp: translate_def Let_def)
qed

text \<open>
  C32: \<^verbatim>\<open>mappages\<close> of one page, then \<^verbatim>\<open>walkaddr\<close>.  On a well-formed table with the page unmapped, it returns
  \<^verbatim>\<open>0\<close>, surely if two pages are free, or \<^verbatim>\<open>-1\<close>, and keeps the table well-formed; on \<^verbatim>\<open>0\<close>, \<^verbatim>\<open>walkaddr\<close> of any address of the page gives
  the physical page, and of every other address what it gave before; on \<^verbatim>\<open>-1\<close> no translation changes.
\<close>

theorem mappages_then_walkaddr:
  assumes "vm_inv h s pt ps" and "aligned va" and "va < MAXVA" and "entry (pmem s) pt va AND PTE_V = 0"
    and "aligned pa" and "unat pa < 2 ^ 56" and "unat perm < 2 ^ 10" and "perm AND PTE_U \<noteq> 0"
  shows "\<exists>r t qs. mappages h pt va PGSIZE pa perm s = Ok r t \<and> (r = 0 \<or> r = -1) \<and> (2 \<le> length ps \<longrightarrow> r = 0) \<and>
    vm_inv h t pt qs \<and> walkaddr h pt va t = Ok (if r = 0 then pa else 0) t \<and>
    (\<forall>va'. PGROUNDDOWN va' \<noteq> va \<longrightarrow> walkaddr h pt va' t = Ok (translate (pmem s) pt va') t)"
proof -
  have "va mod PGSIZE = 0" using assms(2) by (simp add: aligned_mod)
  with map_one_spec [OF assms(1,3,4), of pa perm] obtain r t qs where
    m: "mappages h pt va PGSIZE pa perm s = Ok r t" "vm_inv h t pt qs"
       "(r = 0 \<or> r = -1) \<and> (2 \<le> length ps \<longrightarrow> r = 0)"
       "entry (pmem t) pt va = (if r = 0 then PA2PTE pa OR perm OR PTE_V else entry (pmem s) pt va)"
       "\<forall>va'. va' < MAXVA \<longrightarrow> PGROUNDDOWN va' \<noteq> PGROUNDDOWN va \<longrightarrow> entry (pmem t) pt va' = entry (pmem s) pt va'"
    by (auto simp: mappages_page)
  have w: "walkaddr h pt v t = Ok (translate (pmem t) pt v) t" for v
    using m(2) by (intro walkaddr_translate) (auto simp: vm_inv_def)
  have "translate (pmem t) pt va = (if r = 0 then pa else 0)"
    using m(4) translate_new [OF assms(5-8) _ assms(3), of "pmem t" pt] assms(4)
    by (auto simp: translate_def Let_def)
  moreover have "translate (pmem t) pt v = translate (pmem s) pt v" if "PGROUNDDOWN v \<noteq> va" for v
    using m(5) that assms(2) by (cases "v < MAXVA") (auto simp: translate_def Let_def)
  ultimately show ?thesis using m(1-3) w by auto
qed

text \<open>
  mapping a page that is mapped already is caught: \<^verbatim>\<open>mappages\<close> panics rather than replace the entry.
\<close>

theorem mappages_remap_panics:
  assumes "vm_inv h s pt ps" and "aligned va" and "va < MAXVA" and "entry (pmem s) pt va AND PTE_V \<noteq> 0"
  shows "mappages h pt va PGSIZE pa perm s = Panic ''mappages: remap''"
  using assms map_one_remap [OF assms(1,3,4)] by (simp add: mappages_page aligned_mod)

text \<open>An empty root table at 0x87ffd000 and three free pages.\<close>

definition quiet_vm :: kvm where
  "quiet_vm =
     \<lparr>cpus = \<lambda>_. \<lparr>c_proc = Some 1, c_noff = 0, c_intena = False\<rparr>, sie = \<lambda>_. False,
      locks = \<lambda>_. \<lparr>lk_locked = False, lk_name = [], lk_cpu = None\<rparr>, uart_out = [],
      pmem = \<lambda>_. 0, freelist = 0, k_end = 0x80022010, procs = three, initproc = Some 0, nextpid = 4,
      ticks = 100, llm_recommended_pid = -1, llm_advice_valid = 0, llm_advice_timestamp = 0,
      k_forkret = 0x80001000, k_trampoline = 0x80007000, k_etext = 0x80008000,
      kernel_pagetable = 0, satp = \<lambda>_. 0\<rparr>"

definition fresh_vm :: kvm where
  "fresh_vm = kfree_upd 0x87ffc000 (kfree_upd 0x87ffe000 (kfree_upd 0x87fff000 quiet_vm))"

lemma quiet_vm_wf:
  "cpu_wf h quiet_vm" "lock_free l quiet_vm" "free_list quiet_vm []" "pmem quiet_vm b = 0"
  "k_end quiet_vm = 0x80022010"
  by (simp_all add: quiet_vm_def cpu_wf_def lock_free_def free_list_def)

lemma page_ok_examples:
  "page_ok 0x80022010 0x87ffc000" "page_ok 0x80022010 0x87ffe000" "page_ok 0x80022010 0x87fff000"
  by (simp_all add: page_ok_def PGSIZE_def PHYSTOP_def KERNBASE_def)

lemma fresh_vm_free: "free_list fresh_vm [0x87ffc000, 0x87ffe000, 0x87fff000]"
  unfolding fresh_vm_def
  by (intro free_list_kfree) (simp_all add: quiet_vm_wf page_ok_examples)

lemma aligned_example: "aligned 0x87ffd000"
  by (simp add: aligned_iff)

lemma fresh_vm_root: "\<forall>b. in_range 0x87ffd000 4096 b \<longrightarrow> pmem fresh_vm b = 0"
proof (intro allI impI)
  fix b
  assume b: "in_range 0x87ffd000 4096 b"
  have "\<not> in_range q 4096 b" if "aligned q" "q \<noteq> 0x87ffd000" for q
    using pages_disjoint [OF aligned_example that(1) _ b] that(2) by auto
  moreover have "aligned 0x87ffc000" "aligned 0x87ffe000" "aligned 0x87fff000"
    by (simp_all add: aligned_iff)
  ultimately show "pmem fresh_vm b = 0" by (simp add: fresh_vm_def kfree_upd_pmem quiet_vm_wf)
qed

lemma empty_root:
  assumes "\<forall>b. in_range pt 4096 b \<longrightarrow> m b = 0" and "aligned pt" and "pt \<noteq> 0" and "pt \<notin> F"
  shows "pt_tree m pt F" and "entry m pt va = 0"
proof -
  have c: "child m pt i = None" if "idx i" for i
  proof -
    have "load64 m (pt + 8 * i) = 0"
      using entry_in_page(1) [OF assms(2) that] assms(1) by (intro load64_zero) auto
    then show ?thesis by (simp add: child_def)
  qed
  then have n: "node m pt is = (if is = [] then Some pt else None)" if "path is" for "is"
    using that by (cases "is") (auto simp: path_def)
  show "pt_tree m pt F" unfolding pt_tree_def using n assms(2-4) by (auto split: if_splits)
  show "entry m pt va = 0" using n [OF path_PX(1)] by (simp add: entry_def leaf_table_def del: node.simps)
qed

lemma fresh_vm_inv: "vm_inv 0 fresh_vm 0x87ffd000 [0x87ffc000, 0x87ffe000, 0x87fff000]"
  unfolding vm_inv_def
  using fresh_vm_free empty_root(1) [OF fresh_vm_root aligned_example, of "{0x87ffc000, 0x87ffe000, 0x87fff000}"]
  by (simp add: fresh_vm_def quiet_vm_wf)

lemma fresh_vm_entry: "entry (pmem fresh_vm) 0x87ffd000 va = 0"
  using empty_root(2) [OF fresh_vm_root aligned_example, of "{}"] by simp

lemma example_addresses:
  "unat (PTE_R OR PTE_U) < 2 ^ 10" "(PTE_R OR PTE_U) AND PTE_U \<noteq> 0"
  "aligned 0x1000" "aligned 0x80050000" "(0x1000 :: u64) < MAXVA" "unat (0x80050000 :: u64) < 2 ^ 56"
  by (simp_all add: PTE_R_def PTE_U_def aligned_iff MAXVA_def)

theorem mappages_then_walkaddr_witness:
  "\<exists>t. mappages 0 0x87ffd000 0x1000 PGSIZE 0x80050000 (PTE_R OR PTE_U) fresh_vm = Ok 0 t \<and>
     walkaddr 0 0x87ffd000 0x1000 t = Ok 0x80050000 t"
  using mappages_then_walkaddr [OF fresh_vm_inv example_addresses(3,5) _ example_addresses(4,6,1,2)]
  by (auto simp: fresh_vm_entry)

theorem mappages_remap_panics_witness:
  "\<exists>t. map_one 0 0x87ffd000 0x1000 0x80050000 (PTE_R OR PTE_U) fresh_vm = Ok 0 t \<and>
     mappages 0 0x87ffd000 0x1000 PGSIZE 0x80060000 PTE_R t = Panic ''mappages: remap''"
proof -
  from map_one_spec [OF fresh_vm_inv example_addresses(5), of "0x80050000" "PTE_R OR PTE_U"]
  obtain t qs where t: "map_one 0 0x87ffd000 0x1000 0x80050000 (PTE_R OR PTE_U) fresh_vm = Ok 0 t"
    "vm_inv 0 t 0x87ffd000 qs" "entry (pmem t) 0x87ffd000 0x1000 = PA2PTE 0x80050000 OR (PTE_R OR PTE_U) OR PTE_V"
    by (auto simp: fresh_vm_entry)
  have "(PA2PTE 0x80050000 OR (PTE_R OR PTE_U) OR PTE_V) AND PTE_V \<noteq> 0"
    by (simp add: PA2PTE_def PTE_R_def PTE_U_def PTE_V_def)
  then show ?thesis
    using mappages_remap_panics [OF t(2) example_addresses(3,5)] t(1,3) by auto
qed

section \<open>Memory operations leave the process table alone\<close>

definition kview :: "'a kproc_scheme \<Rightarrow> _" where
  "kview s = (procs s, initproc s, nextpid s, ticks s, llm_recommended_pid s, llm_advice_valid s,
     llm_advice_timestamp s, uart_out s, kproc.more s)"

lemma kview_pmem [simp]: "kview (s\<lparr>pmem := m\<rparr>) = kview s" "kview (s\<lparr>freelist := f\<rparr>) = kview s"
  by (simp_all add: kview_def)

lemma acquire_frame [frame]: "kview s = v \<Longrightarrow> kkeeps kview v (acquire h l s)"
  by (auto simp: acquire_def push_off_def Let_def intr_off_def kview_def)

lemma release_frame [frame]: "kview s = v \<Longrightarrow> kkeeps kview v (release h l s)"
  by (auto simp: release_def pop_off_def Let_def intr_on_def kview_def)

lemma kfree_frame [frame]: "kview s = v \<Longrightarrow> kkeeps kview v (kfree h p s)"
  by (auto simp: kfree_def Let_def intro!: frame)

lemma kalloc_frame [frame]: "kview s = v \<Longrightarrow> kkeeps kview v (kalloc h s)"
  by (auto simp: kalloc_def Let_def intro!: frame)

lemma walk_frame [frame]: "kview s = v \<Longrightarrow> kkeeps kview v (walk h pt va alloc s)"
  by (auto simp: walk_def walk_level_def Let_def intro!: frame split: option.splits)

lemma mappages_frame [frame]: "kview s = v \<Longrightarrow> kkeeps kview v (mappages h pt va sz pa perm s)"
proof -
  have "kview s = v \<Longrightarrow> kkeeps kview v (mappages_loop h pt n va pa perm s)" for n
    by (induction n arbitrary: s va pa) (auto intro!: frame)
  then show "kview s = v \<Longrightarrow> ?thesis" by (simp add: mappages_def)
qed

lemma uvmcreate_frame [frame]: "kview s = v \<Longrightarrow> kkeeps kview v (uvmcreate h s)"
  by (auto simp: uvmcreate_def intro!: frame)

lemma uvmunmap_frame [frame]: "kview s = v \<Longrightarrow> kkeeps kview v (uvmunmap h pt va n fr s)"
  by (auto simp: uvmunmap_def unmap_one_def Let_def intro!: frame)

lemma uvmdealloc_frame [frame]: "kview s = v \<Longrightarrow> kkeeps kview v (uvmdealloc h pt a b s)"
  by (auto simp: uvmdealloc_def Let_def intro!: frame)

lemma uvmalloc_frame [frame]: "kview s = v \<Longrightarrow> kkeeps kview v (uvmalloc h pt a b x s)"
proof -
  have "kview s = v \<Longrightarrow> kkeeps kview v (uvmalloc_loop h pt o' n' x as s)" for o' n' as
    by (induction as arbitrary: s) (auto simp: Let_def intro!: frame)
  then show "kview s = v \<Longrightarrow> ?thesis" by (simp add: uvmalloc_def Let_def)
qed

lemma freewalk_frame [frame]: "kview s = v \<Longrightarrow> kkeeps kview v (freewalk n h pt s)"
  by (induction n arbitrary: s pt) (auto simp: Let_def intro!: frame)

lemma uvmfree_frame [frame]: "kview s = v \<Longrightarrow> kkeeps kview v (uvmfree h pt sz s)"
  by (auto simp: uvmfree_def intro!: frame)

lemma uvmcopy_frame [frame]: "kview s = v \<Longrightarrow> kkeeps kview v (uvmcopy h old new sz s)"
proof -
  have "kview s = v \<Longrightarrow> kkeeps kview v (uvmcopy_loop h old new is s)" for "is"
    by (induction "is" arbitrary: s) (auto simp: Let_def intro!: frame)
  then show "kview s = v \<Longrightarrow> ?thesis" by (simp add: uvmcopy_def)
qed

lemma myproc_frame [frame]: "kview s = v \<Longrightarrow> kkeeps kview v (myproc h s)"
  by (auto simp: myproc_def pop_off_def push_off_def Let_def intr_off_def intr_on_def kview_def)

lemma curproc_frame [frame]: "kview s = v \<Longrightarrow> kkeeps kview v (curproc h s)"
  by (auto simp: curproc_def intro!: frame split: option.splits)

lemma vmfault_frame [frame]: "kview s = v \<Longrightarrow> kkeeps kview v (vmfault h pt va s)"
  by (auto simp: vmfault_def ismapped_def Let_def intro!: frame)

lemma walkaddr_frame [frame]: "kview s = v \<Longrightarrow> kkeeps kview v (walkaddr h pt va s)"
  by (auto simp: walkaddr_def Let_def intro!: frame)

lemma copyout_frame [frame]: "kview s = v \<Longrightarrow> kkeeps kview v (copyout h pt va src s)"
proof (induction h pt va src s rule: copyout.induct)
  case (1 h pt dstva src s)
  show ?case
    by (subst copyout.simps) (use 1 in \<open>auto simp: Let_def intro!: frame\<close>)
qed

lemma copyin_frame [frame]: "kview s = v \<Longrightarrow> kkeeps kview v (copyin h pt va n s)"
proof (induction h pt va n s rule: copyin.induct)
  case (1 h pt srcva len s)
  show ?case
    by (subst copyin.simps) (use 1 in \<open>auto simp: Let_def intro!: frame\<close>)
qed

section \<open>Reading user memory\<close>

text \<open>The byte a user address denotes through its page table.\<close>

definition user_byte :: "mem \<Rightarrow> u64 \<Rightarrow> u64 \<Rightarrow> u8" where
  "user_byte m pt va = m (translate m pt (PGROUNDDOWN va) + (va - PGROUNDDOWN va))"

definition user_bytes :: "mem \<Rightarrow> u64 \<Rightarrow> u64 \<Rightarrow> nat \<Rightarrow> u8 list" where
  "user_bytes m pt va n = map (\<lambda>k. user_byte m pt (va + of_nat k)) [0..<n]"

definition user_mapped :: "mem \<Rightarrow> u64 \<Rightarrow> u64 \<Rightarrow> nat \<Rightarrow> bool" where
  "user_mapped m pt va n \<longleftrightarrow>
     unat va + n < 2 ^ 64 \<and> (\<forall>k<n. translate m pt (PGROUNDDOWN (va + of_nat k)) \<noteq> 0)"

lemma load_bytes_map: "load_bytes m a n = map (\<lambda>k. m (a + of_nat k)) [0..<n]"
proof (induction n arbitrary: a)
  case (Suc n)
  then show ?case by (simp add: map_upt_Suc add.assoc del: upt_Suc)
qed simp

lemma in_page_len_eq:
  "in_page_len va len = min (4096 - unat va mod 4096) len"
  "unat (va - PGROUNDDOWN va) = unat va mod 4096"
proof -
  have d: "unat (va - PGROUNDDOWN va) = unat va mod 4096"
  proof -
    have "PGROUNDDOWN va \<le> va" using PGROUNDDOWN_le(1) [of va] by (simp add: word_le_nat_alt)
    then have "unat (va - PGROUNDDOWN va) = unat va - unat va div 4096 * 4096"
      by (simp add: unat_sub unat_PGROUNDDOWN)
    then show ?thesis by (simp add: minus_div_mult_eq_mod)
  qed
  then show "unat (va - PGROUNDDOWN va) = unat va mod 4096" .
  have "unat (PGSIZE - (va - PGROUNDDOWN va)) = 4096 - unat va mod 4096"
    using d by (subst unat_sub) (simp_all add: PGSIZE_def word_le_nat_alt less_imp_le)
  then show "in_page_len va len = min (4096 - unat va mod 4096) len" by (simp add: in_page_len_def)
qed

lemma div_same_block:
  assumes "k < 4096 - x mod 4096"
  shows "(x + k) div 4096 = x div (4096 :: nat)"
proof (rule div_nat_eqI)
  show "4096 * (x div 4096) \<le> x + k" using div_mult_mod_eq [of x 4096] by linarith
  show "x + k < 4096 * Suc (x div 4096)"
    using div_mult_mod_eq [of x 4096] assms mod_less_divisor [of 4096 x] unfolding mult_Suc_right by linarith
qed

lemma block_end: "x + (4096 - x mod 4096) = x div 4096 * 4096 + (4096 :: nat)"
  using div_mult_mod_eq [of x 4096] mod_less_divisor [of 4096 x] by linarith

lemma same_page:
  assumes "k < 4096 - unat va mod 4096" and "unat va + k < 2 ^ 64"
  shows "PGROUNDDOWN (va + of_nat k) = PGROUNDDOWN va"
proof -
  have "unat (va + of_nat k) = unat va + k" using assms(2) by (rule unat_plus_of_nat)
  moreover have "(unat va + k) div 4096 = unat va div 4096"
    using assms(1) by (rule div_same_block)
  ultimately show ?thesis by (simp add: word_unat_eq_iff unat_PGROUNDDOWN)
qed

lemma user_mapped_later:
  assumes "user_mapped m pt va len" and "n \<le> len"
  shows "user_mapped m pt (va + of_nat n) (len - n)"
proof -
  have "unat va + n < 2 ^ 64" using assms by (simp add: user_mapped_def)
  then have u: "unat (va + of_nat n) = unat va + n" by (rule unat_plus_of_nat)
  have "translate m pt (PGROUNDDOWN (va + of_nat n + of_nat k)) \<noteq> 0" if "k < len - n" for k
    using assms(1) that by (simp add: user_mapped_def add.assoc flip: of_nat_add)
  with u assms show ?thesis by (simp add: user_mapped_def)
qed

lemma user_bytes_append:
  "n \<le> len \<Longrightarrow> user_bytes m pt va len = user_bytes m pt va n @ user_bytes m pt (va + of_nat n) (len - n)"
proof -
  assume "n \<le> len"
  then have "[0..<len] = [0..<n] @ map (\<lambda>k. n + k) [0..<len - n]"
    using upt_add_eq_append [of 0 n "len - n"] map_add_upt [of n "len - n"] by (simp add: add.commute)
  then show ?thesis by (simp add: user_bytes_def add.assoc)
qed

lemma copyin_ok:
  assumes tree: "pt_tree (pmem s) pt F"
  shows "user_mapped (pmem s) pt va len \<Longrightarrow> copyin h pt va len s = Ok (Some (user_bytes (pmem s) pt va len)) s"
proof (induction len arbitrary: va rule: less_induct)
  case (less len)
  let ?n = "in_page_len va len" and ?pa = "translate (pmem s) pt (PGROUNDDOWN va)"
  show ?case
  proof (cases "len = 0")
    case True
    then show ?thesis by (subst copyin.simps) (simp add: user_bytes_def)
  next
    case False
    have pa: "?pa \<noteq> 0" using less.prems False by (auto simp: user_mapped_def dest: spec [of _ 0])
    have w: "walkaddr h pt (PGROUNDDOWN va) s = Ok ?pa s" by (rule walkaddr_translate [OF tree])
    have n: "?n \<le> len" "0 < ?n" "?n \<le> 4096 - unat va mod 4096"
      using False in_page_len_pos [of len va] by (auto simp: in_page_len_eq(1))
    have room: "unat va + ?n < 2 ^ 64" using less.prems n by (simp add: user_mapped_def)
    have first: "load_bytes (pmem s) (?pa + (va - PGROUNDDOWN va)) ?n = user_bytes (pmem s) pt va ?n"
    proof -
      have "PGROUNDDOWN (va + of_nat k) = PGROUNDDOWN va" if "k < ?n" for k
        using that n room by (intro same_page) auto
      then show ?thesis
        by (auto simp: load_bytes_map user_bytes_def user_byte_def algebra_simps)
    qed
    have rest: "copyin h pt (PGROUNDDOWN va + PGSIZE) (len - ?n) s =
        Ok (Some (user_bytes (pmem s) pt (va + of_nat ?n) (len - ?n))) s"
    proof (cases "?n = len")
      case True
      then show ?thesis by (subst copyin.simps) (simp add: user_bytes_def)
    next
      case part: False
      then have "?n = 4096 - unat va mod 4096" using n by (auto simp: in_page_len_eq(1))
      then have "unat va + ?n = unat (PGROUNDDOWN va) + 4096"
        by (simp only: unat_PGROUNDDOWN block_end)
      then have "PGROUNDDOWN va + PGSIZE = va + of_nat ?n"
        using unat_plus_of_nat [OF room] unat_plus_of_nat [of "PGROUNDDOWN va" 4096] room
        by (simp add: word_unat_eq_iff PGSIZE_def)
      then show ?thesis
        using less.IH [of "len - ?n" "va + of_nat ?n"] user_mapped_later [OF less.prems n(1)] n False by simp
    qed
    show ?thesis
      using False w pa first rest user_bytes_append [OF n(1), of "pmem s" pt va]
      by (subst copyin.simps) (simp add: Let_def)
  qed
qed

text \<open>
  \<^verbatim>\<open>copyin\<close> reads user memory.  If every byte of the range is mapped for the user, it returns exactly
  those bytes, in order, across any number of page boundaries, and changes nothing.
\<close>

theorem copyin_reads_user_bytes:
  assumes "pt_tree (pmem s) pt F" and "user_mapped (pmem s) pt va len"
  shows "copyin h pt va len s = Ok (Some (user_bytes (pmem s) pt va len)) s"
  using assms by (rule copyin_ok)

lemma mapped_example:
  "\<exists>t qs. map_one 0 0x87ffd000 0x1000 0x80050000 (PTE_R OR PTE_U) fresh_vm = Ok 0 t \<and>
     vm_inv 0 t 0x87ffd000 qs \<and> user_mapped (pmem t) 0x87ffd000 0x1000 3"
proof -
  from map_one_spec [OF fresh_vm_inv example_addresses(5), of "0x80050000" "PTE_R OR PTE_U"]
  obtain t qs where t: "map_one 0 0x87ffd000 0x1000 0x80050000 (PTE_R OR PTE_U) fresh_vm = Ok 0 t"
    "vm_inv 0 t 0x87ffd000 qs" "entry (pmem t) 0x87ffd000 0x1000 = PA2PTE 0x80050000 OR (PTE_R OR PTE_U) OR PTE_V"
    by (auto simp: fresh_vm_entry)
  have "translate (pmem t) 0x87ffd000 0x1000 = 0x80050000"
    using translate_new [OF example_addresses(4,6,1,2) t(3) example_addresses(5)] .
  moreover have "PGROUNDDOWN (0x1000 + of_nat k) = 0x1000" if "k < 3" for k
    using same_page [of k "0x1000"] that example_addresses(3) by simp
  ultimately have "user_mapped (pmem t) 0x87ffd000 0x1000 3" by (simp add: user_mapped_def)
  with t show ?thesis by blast
qed

theorem copyin_reads_user_bytes_witness:
  "\<exists>t. copyin 0 0x87ffd000 0x1000 3 t = Ok (Some (user_bytes (pmem t) 0x87ffd000 0x1000 3)) (t :: kvm)"
proof -
  obtain t :: kvm and qs where "vm_inv 0 t 0x87ffd000 qs" "user_mapped (pmem t) 0x87ffd000 0x1000 3"
    using mapped_example by blast
  then show ?thesis using copyin_reads_user_bytes [of t "0x87ffd000" "set qs" "0x1000" 3 0]
    by (auto simp: vm_inv_def)
qed

end
