(* ===== verification/ProcMem.thy ===== *)
theory ProcMem
  imports VM
begin

text \<open>
  The part of \<^verbatim>\<open>kernel/proc.c\<close> that gives a process its memory and takes it back: \<^verbatim>\<open>allocproc\<close>,
  \<^verbatim>\<open>freeproc\<close>, page tables of processes, \<^verbatim>\<open>growproc\<close>, and \<^verbatim>\<open>kwait\<close>, which frees a dead child.
\<close>

section \<open>Operations\<close>

definition proc_freepagetable :: "nat \<Rightarrow> u64 \<Rightarrow> u64 \<Rightarrow> 'a kvm_scheme \<Rightarrow> (unit, 'a kvm_scheme) res" where
  "proc_freepagetable h pt sz s =
     kbind (uvmunmap h pt TRAMPOLINE 1 False s) (\<lambda>_ s.
     kbind (uvmunmap h pt TRAPFRAME 1 False s) (\<lambda>_ s.
     uvmfree h pt sz s))"

definition proc_pagetable :: "nat \<Rightarrow> nat \<Rightarrow> 'a kvm_scheme \<Rightarrow> (u64, 'a kvm_scheme) res" where
  "proc_pagetable h i s =
     kbind (uvmcreate h s) (\<lambda>pt s.
     if pt = 0 then Ok 0 s
     else
       kbind (mappages h pt TRAMPOLINE PGSIZE (k_trampoline s) (PTE_R OR PTE_X) s) (\<lambda>r s.
       if r < 0 then kbind (uvmfree h pt 0 s) (\<lambda>_ s. Ok 0 s)
       else
         kbind (mappages h pt TRAPFRAME PGSIZE (p_trapframe (procs s i)) (PTE_R OR PTE_W) s) (\<lambda>r s.
         if r < 0 then
           kbind (uvmunmap h pt TRAMPOLINE 1 False s) (\<lambda>_ s.
           kbind (uvmfree h pt 0 s) (\<lambda>_ s. Ok 0 s))
         else Ok pt s)))"

definition clear_proc :: "proc \<Rightarrow> proc" where
  "clear_proc p =
     p\<lparr>p_pagetable := 0, p_sz := 0, p_pid := 0, p_parent := None, p_name := (p_name p)[0 := NUL],
       p_chan := ChNull, p_killed := 0, p_xstate := 0, p_cpu_ticks := 0, p_wait_ticks := 0,
       p_io_count := 0, p_recent_cpu := 0, p_state := UNUSED\<rparr>"

definition freeproc :: "nat \<Rightarrow> nat \<Rightarrow> 'a kvm_scheme \<Rightarrow> (unit, 'a kvm_scheme) res" where
  "freeproc h i s =
     kbind (if p_trapframe (procs s i) \<noteq> 0 then kfree h (p_trapframe (procs s i)) s else Ok () s) (\<lambda>_ s.
     let s = proc_at i (\<lambda>p. p\<lparr>p_trapframe := 0\<rparr>) s
     in kbind (if p_pagetable (procs s i) \<noteq> 0
               then proc_freepagetable h (p_pagetable (procs s i)) (p_sz (procs s i)) s
               else Ok () s) (\<lambda>_ s.
        Ok () (proc_at i clear_proc s)))"

text \<open>The scan of \<^verbatim>\<open>allocproc\<close>: the first unused slot, returned with its lock held.\<close>

definition alloc_slot :: "nat \<Rightarrow> nat \<Rightarrow> 'a kvm_scheme \<Rightarrow> (nat option, 'a kvm_scheme) res" where
  "alloc_slot h i s =
     kbind (acquire h (LProc i) s) (\<lambda>_ s.
     if p_state (procs s i) = UNUSED then Ok (Some i) s
     else kbind (release h (LProc i) s) (\<lambda>_ s. Ok None s))"

definition fresh_proc :: "u32 \<Rightarrow> proc \<Rightarrow> proc" where
  "fresh_proc pid p =
     p\<lparr>p_pid := pid, p_state := USED, p_cpu_ticks := 0, p_wait_ticks := 0, p_io_count := 0,
       p_recent_cpu := 0, p_sz := 0\<rparr>"

definition forkret_context :: "u64 \<Rightarrow> u64 \<Rightarrow> kcontext" where
  "forkret_context forkret kstack =
     \<lparr>ctx_ra = forkret, ctx_sp = kstack + PGSIZE, ctx_s = replicate 12 0\<rparr>"

definition allocproc :: "nat \<Rightarrow> 'a kvm_scheme \<Rightarrow> (nat option, 'a kvm_scheme) res" where
  "allocproc h s =
     kbind (kscan (alloc_slot h) [0..<NPROC] s) (\<lambda>r s.
     case r of
       None \<Rightarrow> Ok None s
     | Some i \<Rightarrow>
         kbind (allocpid h s) (\<lambda>pid s.
         let s = proc_at i (fresh_proc pid) s
         in kbind (kalloc h s) (\<lambda>tf s.
            let s = proc_at i (\<lambda>p. p\<lparr>p_trapframe := tf\<rparr>) s
            in if tf = 0 then
                 kbind (freeproc h i s) (\<lambda>_ s.
                 kbind (release h (LProc i) s) (\<lambda>_ s. Ok None s))
               else
                 kbind (proc_pagetable h i s) (\<lambda>pt s.
                 let s = proc_at i (\<lambda>p. p\<lparr>p_pagetable := pt\<rparr>) s
                 in if pt = 0 then
                      kbind (freeproc h i s) (\<lambda>_ s.
                      kbind (release h (LProc i) s) (\<lambda>_ s. Ok None s))
                    else
                      Ok (Some i) (proc_at i
                        (\<lambda>p. p\<lparr>p_context := forkret_context (k_forkret s) (p_kstack p)\<rparr>) s)))))"

definition growproc :: "nat \<Rightarrow> u32 \<Rightarrow> 'a kvm_scheme \<Rightarrow> (int, 'a kvm_scheme) res" where
  "growproc h n s =
     kbind (curproc h s) (\<lambda>i s.
     let sz = p_sz (procs s i); pt = p_pagetable (procs s i); n64 = scast n :: u64
     in if 0 < sint n then
          (if TRAPFRAME < sz + n64 then Ok (-1) s
           else
             kbind (uvmalloc h pt sz (sz + n64) PTE_W s) (\<lambda>sz s.
             if sz = 0 then Ok (-1) s
             else Ok 0 (proc_at i (\<lambda>p. p\<lparr>p_sz := sz\<rparr>) s)))
        else if sint n < 0 then
          kbind (uvmdealloc h pt sz (sz + n64) s) (\<lambda>sz s.
          Ok 0 (proc_at i (\<lambda>p. p\<lparr>p_sz := sz\<rparr>) s))
        else Ok 0 (proc_at i (\<lambda>p. p\<lparr>p_sz := sz\<rparr>) s))"

section \<open>Waiting for a child\<close>

definition le_bytes :: "nat \<Rightarrow> u64 \<Rightarrow> u8 list" where
  "le_bytes n w = map (\<lambda>i. ucast (drop_bit (8 * i) w)) [0..<n]"

text \<open>The body of the scan for one slot.  \<open>Inl v\<close>: \<^verbatim>\<open>kwait\<close> returns \<open>v\<close>, both locks released; \<open>Inr k\<close>: the
  scan goes on, with \<^verbatim>\<open>havekids\<close> as \<open>k\<close>.\<close>

definition kwait_one :: "nat \<Rightarrow> nat \<Rightarrow> u64 \<Rightarrow> nat \<Rightarrow> bool \<Rightarrow> 'a kvm_scheme \<Rightarrow> (u64 + bool, 'a kvm_scheme) res" where
  "kwait_one h me addr i havekids s =
     (if p_parent (procs s i) = Some me then
        kbind (acquire h (LProc i) s) (\<lambda>_ s.
        if p_state (procs s i) = ZOMBIE then
          let pid = p_pid (procs s i)
          in kbind (if addr \<noteq> 0
                    then copyout h (p_pagetable (procs s me)) addr (le_bytes 4 (ucast (p_xstate (procs s i)))) s
                    else Ok 0 s) (\<lambda>r s.
             if r < 0 then
               kbind (release h (LProc i) s) (\<lambda>_ s.
               kbind (release h LWait s) (\<lambda>_ s. Ok (Inl (-1)) s))
             else
               kbind (freeproc h i s) (\<lambda>_ s.
               kbind (release h (LProc i) s) (\<lambda>_ s.
               kbind (release h LWait s) (\<lambda>_ s. Ok (Inl (scast pid)) s))))
        else kbind (release h (LProc i) s) (\<lambda>_ s. Ok (Inr True) s))
      else Ok (Inr havekids) s)"

primrec kwait_scan :: "nat \<Rightarrow> nat \<Rightarrow> u64 \<Rightarrow> nat list \<Rightarrow> bool \<Rightarrow> 'a kvm_scheme \<Rightarrow> (u64 + bool, 'a kvm_scheme) res" where
  "kwait_scan h me addr [] havekids s = Ok (Inr havekids) s"
| "kwait_scan h me addr (i # is) havekids s =
     kbind (kwait_one h me addr i havekids s) (\<lambda>r s.
     case r of Inl v \<Rightarrow> Ok (Inl v) s | Inr k \<Rightarrow> kwait_scan h me addr is k s)"

text \<open>One turn of the outer loop, with \<^verbatim>\<open>wait_lock\<close> held: it returns, or goes to sleep.\<close>

definition kwait_iter :: "nat \<Rightarrow> nat \<Rightarrow> u64 \<Rightarrow> 'a kvm_scheme \<Rightarrow> (u64, 'a kvm_scheme) res" where
  "kwait_iter h me addr s =
     kbind (kwait_scan h me addr [0..<NPROC] False s) (\<lambda>r s.
     case r of
       Inl v \<Rightarrow> Ok v s
     | Inr havekids \<Rightarrow>
         kbind (if \<not> havekids then Ok 1 s else killed h me s) (\<lambda>stop s.
         if stop \<noteq> 0 then kbind (release h LWait s) (\<lambda>_ s. Ok (-1) s)
         else kbind (sleep h (ChProc me) LWait s) (\<lambda>_ s. Ok 0 s)))"

definition kwait :: "nat \<Rightarrow> u64 \<Rightarrow> 'a kvm_scheme \<Rightarrow> (u64, 'a kvm_scheme) res" where
  "kwait h addr s =
     kbind (curproc h s) (\<lambda>me s.
     kbind (acquire h LWait s) (\<lambda>_ s. kwait_iter h me addr s))"

definition kwait_resume :: "nat \<Rightarrow> nat \<Rightarrow> u64 \<Rightarrow> 'a kvm_scheme \<Rightarrow> (u64, 'a kvm_scheme) res" where
  "kwait_resume h me addr s =
     kbind (sleep_resume h me LWait s) (\<lambda>_ s. kwait_iter h me addr s)"

section \<open>What the operations do to the table\<close>

lemma kview_proc_at: "kview (proc_at i f s) =
    ((procs s)(i := f (procs s i)), initproc s, nextpid s, ticks s, llm_recommended_pid s,
     llm_advice_valid s, llm_advice_timestamp s, uart_out s, kproc.more s)"
  by (simp add: kview_def proc_at_def)

lemma kview_eqD: "kview t = kview s \<Longrightarrow> procs t = procs s \<and> initproc t = initproc s \<and> nextpid t = nextpid s \<and>
    ticks t = ticks s \<and> llm_advice_valid t = llm_advice_valid s"
  by (simp add: kview_def)

lemma proc_freepagetable_frame [frame]: "kview s = v \<Longrightarrow> kkeeps kview v (proc_freepagetable h pt sz s)"
  by (auto simp: proc_freepagetable_def intro!: frame)

lemma proc_pagetable_frame [frame]: "kview s = v \<Longrightarrow> kkeeps kview v (proc_pagetable h i s)"
  by (auto simp: proc_pagetable_def intro!: frame)

lemma freeproc_table:
  assumes "freeproc h i s = Ok () t"
  shows "kview t = kview (proc_at i (\<lambda>p. clear_proc (p\<lparr>p_trapframe := 0\<rparr>)) s)"
proof -
  from assms obtain s1 s2 where
    1: "(if p_trapframe (procs s i) \<noteq> 0 then kfree h (p_trapframe (procs s i)) s else Ok () s) = Ok () s1" and
    2: "(let s = proc_at i (\<lambda>p. p\<lparr>p_trapframe := 0\<rparr>) s1
        in if p_pagetable (procs s i) \<noteq> 0
           then proc_freepagetable h (p_pagetable (procs s i)) (p_sz (procs s i)) s else Ok () s) = Ok () s2" and
    t: "t = proc_at i clear_proc s2"
    by (auto simp: freeproc_def Let_def elim!: kbind_OkE split: if_splits)
  have k1: "kview s1 = kview s"
    using 1 kkeeps_OkD [OF kfree_frame [OF refl]] by (auto split: if_splits)
  have k2: "kview s2 = kview (proc_at i (\<lambda>p. p\<lparr>p_trapframe := 0\<rparr>) s1)"
    using 2 kkeeps_OkD [OF proc_freepagetable_frame [OF refl]] by (auto simp: Let_def split: if_splits)
  have "kview t = kview (proc_at i clear_proc (proc_at i (\<lambda>p. p\<lparr>p_trapframe := 0\<rparr>) s1))"
    using k2 t by (auto simp: kview_def proc_at_def)
  also have "\<dots> = kview (proc_at i (\<lambda>p. clear_proc (p\<lparr>p_trapframe := 0\<rparr>)) s)"
    using k1 by (auto simp: kview_def proc_at_def)
  finally show ?thesis .
qed

definition first_unused :: "'a kproc_scheme \<Rightarrow> nat option" where
  "first_unused s = find (\<lambda>i. p_state (procs s i) = UNUSED) [0..<NPROC]"

lemma alloc_scan:
  assumes "cpu_wf h s" and "proc_locks_free s"
  shows "kscan (alloc_slot h) [0..<NPROC] s = (case first_unused s of
      None \<Rightarrow> Ok None (settle h s) | Some i \<Rightarrow> Ok (Some i) (entered h (LProc i) s))"
proof -
  have "kscan (alloc_slot h) [0..<NPROC] s = (case first_unused s of
      None \<Rightarrow> Ok None (if [0..<NPROC] = [] then s else settle h s)
    | Some i \<Rightarrow> Ok (Some i) (entered h (LProc i) s))"
    unfolding first_unused_def using assms
    by (intro kscan_find)
       (auto simp: alloc_slot_def acquire_free release_entered proc_locks_free_def)
  then show ?thesis by (simp add: NPROC_def split: option.splits)
qed

text \<open>The slot after a successful \<^verbatim>\<open>allocproc\<close>; what is not listed keeps the value the slot had.\<close>

definition allocated :: "u32 \<Rightarrow> u64 \<Rightarrow> u64 \<Rightarrow> u64 \<Rightarrow> proc \<Rightarrow> proc" where
  "allocated pid tf pt forkret p =
     (fresh_proc pid p)\<lparr>p_trapframe := tf, p_pagetable := pt,
        p_context := forkret_context forkret (p_kstack p)\<rparr>"

lemma kview_settle [simp]: "kview (settle h s) = kview s" "kview (entered h l s) = kview s"
  by (simp_all add: kview_def)

lemma kview_proc_at_cong: "kview t = kview s \<Longrightarrow> kview (proc_at i f t) = kview (proc_at i f s)"
  by (simp add: kview_def proc_at_def)

lemma allocproc_table:
  assumes wf: "cpu_wf h s" "proc_locks_free s" "lock_free LPid s" and run: "allocproc h s = Ok (Some i) t"
  shows "first_unused s = Some i \<and> (\<exists>tf pt fr. tf \<noteq> 0 \<and> pt \<noteq> 0 \<and>
    kview t = kview ((proc_at i (allocated (nextpid s) tf pt fr) s)\<lparr>nextpid := nextpid s + 1\<rparr>))"
proof (cases "first_unused s")
  case None
  then show ?thesis using run alloc_scan [OF wf(1,2)] by (simp add: allocproc_def)
next
  case (Some j)
  let ?s1 = "entered h (LProc j) s"
  let ?s2 = "settle h (?s1\<lparr>nextpid := nextpid s + 1\<rparr>)"
  let ?s3 = "proc_at j (fresh_proc (nextpid s)) ?s2"
  have pid: "allocpid h ?s1 = Ok (nextpid s) ?s2"
    using wf allocpid_ok [of h ?s1] by simp
  from run obtain tf s4 where tf: "kalloc h ?s3 = Ok tf s4"
    using Some alloc_scan [OF wf(1,2)] pid
    by (auto simp: allocproc_def Let_def elim!: kbind_OkE)
  let ?s5 = "proc_at j (\<lambda>p. p\<lparr>p_trapframe := tf\<rparr>) s4"
  have tfn: "tf \<noteq> 0"
  proof
    assume "tf = 0"
    with run tf show False
      using Some alloc_scan [OF wf(1,2)] pid
      by (auto simp: allocproc_def Let_def elim!: kbind_OkE)
  qed
  with run tf obtain pt s6 where pt: "proc_pagetable h j ?s5 = Ok pt s6"
    using Some alloc_scan [OF wf(1,2)] pid
    by (auto simp: allocproc_def Let_def elim!: kbind_OkE)
  let ?s7 = "proc_at j (\<lambda>p. p\<lparr>p_pagetable := pt\<rparr>) s6"
  have ptn: "pt \<noteq> 0"
  proof
    assume "pt = 0"
    with run tf tfn pt show False
      using Some alloc_scan [OF wf(1,2)] pid
      by (auto simp: allocproc_def Let_def elim!: kbind_OkE)
  qed
  have t: "i = j" "t = proc_at j (\<lambda>p. p\<lparr>p_context := forkret_context (k_forkret ?s7) (p_kstack p)\<rparr>) ?s7"
    using run tf tfn pt ptn Some alloc_scan [OF wf(1,2)] pid
    by (auto simp: allocproc_def Let_def)
  have "kview s4 = kview ?s3" using kkeeps_OkD [OF kalloc_frame [OF refl] tf] .
  moreover have "kview s6 = kview ?s5" using kkeeps_OkD [OF proc_pagetable_frame [OF refl] pt] .
  ultimately have "kview t = kview ((proc_at j (allocated (nextpid s) tf pt (k_forkret ?s7)) s)\<lparr>nextpid := nextpid s + 1\<rparr>)"
    unfolding t(2) by (auto simp: kview_def proc_at_def allocated_def fresh_proc_def)
  then show ?thesis using Some t(1) tfn ptn by blast
qed

section \<open>Creating a process succeeds when there is memory\<close>

lemma uvmcreate_ok:
  assumes "cpu_wf h s" and "lock_free LKmem s" and "free_list s (g # ps)"
  shows "\<exists>t. uvmcreate h s = Ok g t \<and> g \<noteq> 0 \<and> vm_inv h t g ps \<and> (\<forall>va. entry (pmem t) g va = 0)"
proof -
  have fl: "free_list (kalloc_upd s) ps" and g: "freelist s = g" "g \<noteq> 0"
    using free_list_kalloc [OF assms(3)] by auto
  have ok: "page_ok (k_end s) g" and dist: "g \<notin> set ps" using assms(3) by (auto simp: free_list_def)
  let ?m = "memset g 0 4096 (pmem (kalloc_upd s))"
  let ?t = "settle h (kalloc_upd s)\<lparr>pmem := ?m\<rparr>"
  have run: "uvmcreate h s = Ok g ?t" using assms g by (simp add: uvmcreate_def kalloc_ok)
  have z: "\<forall>b. in_range g 4096 b \<longrightarrow> ?m b = 0" by (simp add: memset_page)
  have "free_list (kalloc_upd s\<lparr>pmem := ?m\<rparr>) ps"
    using fl page_ok_aligned [OF ok] dist by (intro free_list_write [where p = g]) (auto simp: memset_page)
  then have "vm_inv h ?t g ps"
    using assms(1,2) empty_root(1) [OF z page_ok_aligned [OF ok] g(2) dist] by (simp add: vm_inv_def free_list_def)
  moreover have "entry ?m g va = 0" for va
    using empty_root(2) [OF z page_ok_aligned [OF ok] g(2) dist] .
  ultimately show ?thesis using run g(2) by auto
qed

lemma tramp_facts:
  "TRAMPOLINE < MAXVA" "TRAPFRAME < MAXVA" "aligned TRAMPOLINE" "aligned TRAPFRAME"
  "TRAMPOLINE mod PGSIZE = 0" "TRAPFRAME mod PGSIZE = 0" "TRAPFRAME \<noteq> TRAMPOLINE"
proof -
  show "TRAMPOLINE < MAXVA" "TRAPFRAME < MAXVA" "TRAPFRAME \<noteq> TRAMPOLINE"
    by (simp_all add: TRAMPOLINE_def TRAPFRAME_def MAXVA_def PGSIZE_def)
  show "aligned TRAMPOLINE" "aligned TRAPFRAME"
    by (simp_all add: aligned_iff TRAMPOLINE_def TRAPFRAME_def MAXVA_def PGSIZE_def)
  then show "TRAMPOLINE mod PGSIZE = 0" "TRAPFRAME mod PGSIZE = 0" by (simp_all only: aligned_mod)
qed

lemma proc_pagetable_ok:
  assumes "cpu_wf h s" and "lock_free LKmem s" and "free_list s ps" and "5 \<le> length ps"
  shows "\<exists>pt t qs. proc_pagetable h i s = Ok pt t \<and> pt \<noteq> 0 \<and> vm_inv h t pt qs"
proof -
  obtain g ps1 where ps: "ps = g # ps1" "4 \<le> length ps1" using assms(4) by (cases ps) auto
  from uvmcreate_ok [OF assms(1,2) assms(3) [unfolded ps]] obtain s1 where
    1: "uvmcreate h s = Ok g s1" "g \<noteq> 0" "vm_inv h s1 g ps1" "\<forall>va. entry (pmem s1) g va = 0" by auto
  have "entry (pmem s1) g TRAMPOLINE AND PTE_V = 0" using 1(4) by simp
  from map_one_spec [OF 1(3) tramp_facts(1) this, of "k_trampoline s1" "PTE_R OR PTE_X"] ps(2)
  obtain s2 ps2 where 2: "map_one h g TRAMPOLINE (k_trampoline s1) (PTE_R OR PTE_X) s1 = Ok 0 s2"
    "vm_inv h s2 g ps2" "length ps1 \<le> length ps2 + 2"
    "\<forall>va'. va' < MAXVA \<longrightarrow> PGROUNDDOWN va' \<noteq> PGROUNDDOWN TRAMPOLINE \<longrightarrow> entry (pmem s2) g va' = entry (pmem s1) g va'"
    by auto
  have "entry (pmem s2) g TRAPFRAME AND PTE_V = 0" using 2(4) 1(4) tramp_facts by auto
  from map_one_spec [OF 2(2) tramp_facts(2) this, of "p_trapframe (procs s2 i)" "PTE_R OR PTE_W"] ps(2) 2(3)
  obtain s3 ps3 where 3: "map_one h g TRAPFRAME (p_trapframe (procs s2 i)) (PTE_R OR PTE_W) s2 = Ok 0 s3"
    "vm_inv h s3 g ps3" by auto
  have "proc_pagetable h i s = Ok g s3"
    using 1 2(1) 3(1) by (simp add: proc_pagetable_def mappages_page tramp_facts)
  with 1(2) 3(2) show ?thesis by blast
qed

lemma free_list_proc_at [simp]: "free_list (proc_at i f s) ps = free_list s ps"
  "free_list (s\<lparr>nextpid := n\<rparr>) ps = free_list s ps" "free_list (entered h l s) ps = free_list s ps"
  by (simp_all add: free_list_def proc_at_def)

lemma allocproc_succeeds:
  assumes wf: "cpu_wf h s" "proc_locks_free s" "lock_free LPid s" "lock_free LKmem s"
    and mem: "free_list s ps" "6 \<le> length ps" and un: "first_unused s = Some i"
  shows "\<exists>t. allocproc h s = Ok (Some i) t"
proof -
  let ?s1 = "entered h (LProc i) s"
  let ?s2 = "settle h (?s1\<lparr>nextpid := nextpid s + 1\<rparr>)"
  let ?s3 = "proc_at i (fresh_proc (nextpid s)) ?s2"
  have pid: "allocpid h ?s1 = Ok (nextpid s) ?s2" using wf allocpid_ok [of h ?s1] by simp
  have w3: "cpu_wf h ?s3" "lock_free LKmem ?s3" using wf by simp_all
  obtain g qs where ps: "ps = g # qs" "5 \<le> length qs" using mem(2) by (cases ps) auto
  have f3: "free_list ?s3 (g # qs)" using mem(1) ps(1) by simp
  let ?s4 = "settle h (kalloc_upd ?s3)"
  have al: "kalloc h ?s3 = Ok g ?s4" "g \<noteq> 0" "free_list ?s4 qs"
    using kalloc_ok [OF w3] free_list_kalloc [OF f3] by auto
  let ?s5 = "proc_at i (\<lambda>p. p\<lparr>p_trapframe := g\<rparr>) ?s4"
  have "cpu_wf h ?s5" "lock_free LKmem ?s5" "free_list ?s5 qs" using w3 al(3) by simp_all
  from proc_pagetable_ok [OF this ps(2), of i] obtain pt s6 where "proc_pagetable h i ?s5 = Ok pt s6" "pt \<noteq> 0"
    by auto
  then show ?thesis
    using un alloc_scan [OF wf(1,2)] pid al by (simp add: allocproc_def Let_def)
qed

text \<open>
  with an unused slot and six free pages, \<^verbatim>\<open>allocproc\<close> succeeds.  It takes the first unused slot,
  gives it the next pid, marks it used with all scheduling statistics at zero, a trapframe and a page
  table, and leaves every other process and the advice alone.
\<close>

theorem allocproc_takes_first_unused:
  assumes "cpu_wf h s" and "proc_locks_free s" and "lock_free LPid s" and "lock_free LKmem s"
    and "free_list s ps" and "6 \<le> length ps" and "first_unused s = Some i"
  shows "\<exists>t. allocproc h s = Ok (Some i) t \<and> p_pid (procs t i) = nextpid s \<and> nextpid t = nextpid s + 1 \<and>
    p_state (procs t i) = USED \<and> p_cpu_ticks (procs t i) = 0 \<and> p_wait_ticks (procs t i) = 0 \<and>
    p_io_count (procs t i) = 0 \<and> p_recent_cpu (procs t i) = 0 \<and> p_trapframe (procs t i) \<noteq> 0 \<and>
    p_pagetable (procs t i) \<noteq> 0 \<and> p_sz (procs t i) = 0 \<and> (\<forall>j. j \<noteq> i \<longrightarrow> procs t j = procs s j) \<and>
    llm_advice_valid t = llm_advice_valid s"
proof -
  obtain t where t: "allocproc h s = Ok (Some i) t" using allocproc_succeeds [OF assms] by blast
  from allocproc_table [OF assms(1-3) t] show ?thesis
    using t by (auto simp: kview_def proc_at_def allocated_def fresh_proc_def)
qed

text \<open>
  C39: \<^verbatim>\<open>kill(0)\<close> is not refused.  Free slots carry pid 0, so it marks the first of them as killed and
  returns success; \<^verbatim>\<open>allocproc\<close> does not clear the mark, and the next process created in that slot
  is born killed: it exits as soon as it returns to user space.
\<close>

theorem kill_zero_dooms_next_process:
  assumes "cpu_wf h s" and "proc_locks_free s" and "lock_free LPid s" and "lock_free LKmem s"
    and "free_list s ps" and "6 \<le> length ps" and "first_unused s = Some i" and "find_pid 0 s = Some i"
  shows "\<exists>s1 t. kkill h 0 s = Ok 0 s1 \<and> allocproc h s1 = Ok (Some i) t \<and> p_killed (procs t i) = 1"
proof -
  let ?s1 = "settle h (proc_at i kill_proc s)"
  have "kkill h 0 s = Ok 0 ?s1" using kkill_ok [OF assms(1,2), of 0] assms(8) by simp
  moreover have u: "first_unused ?s1 = Some i"
  proof -
    have "p_state (procs ?s1 j) = UNUSED \<longleftrightarrow> p_state (procs s j) = UNUSED" for j
      by (simp add: kill_proc_def)
    then show ?thesis using assms(7) by (simp add: first_unused_def)
  qed
  moreover obtain t where "allocproc h ?s1 = Ok (Some i) t"
    using allocproc_succeeds [of h ?s1 ps i] assms u by auto
  moreover from this have "p_killed (procs t i) = 1"
    using allocproc_table [of h ?s1 i t] assms(1-3)
    by (auto simp: kview_def proc_at_def allocated_def fresh_proc_def kill_proc_def)
  ultimately show ?thesis by blast
qed

definition six_pages :: kvm where
  "six_pages = kfree_upd 0x87ff9000 (kfree_upd 0x87ffa000 (kfree_upd 0x87ffb000
     (kfree_upd 0x87ffc000 (kfree_upd 0x87ffe000 (kfree_upd 0x87fff000 quiet_vm)))))"

lemma six_pages_facts:
  "cpu_wf h six_pages" "lock_free l six_pages" "proc_locks_free six_pages" "procs six_pages = three"
  "free_list six_pages [0x87ff9000, 0x87ffa000, 0x87ffb000, 0x87ffc000, 0x87ffe000, 0x87fff000]"
proof -
  show "cpu_wf h six_pages" "lock_free l six_pages" "proc_locks_free six_pages"
    by (simp_all add: six_pages_def quiet_vm_wf proc_locks_free_def)
  show "procs six_pages = three" by (simp add: six_pages_def kfree_upd_def quiet_vm_def)
  show "free_list six_pages [0x87ff9000, 0x87ffa000, 0x87ffb000, 0x87ffc000, 0x87ffe000, 0x87fff000]"
    unfolding six_pages_def
    by (intro free_list_kfree)
       (simp_all add: quiet_vm_wf page_ok_def PGSIZE_def PHYSTOP_def KERNBASE_def)
qed

lemma six_pages_slot: "first_unused six_pages = Some 3" "find_pid 0 six_pages = Some 3"
  by (simp_all add: first_unused_def find_pid_def NPROC_def upt_rec six_pages_facts slot_def three_def)

theorem allocproc_takes_first_unused_witness:
  "\<exists>t. allocproc 0 six_pages = Ok (Some 3) t \<and> p_state (procs t 3) = USED"
  using allocproc_takes_first_unused [OF six_pages_facts(1,3,2,2,5) _ six_pages_slot(1), of 0] by auto

theorem kill_zero_dooms_next_process_witness:
  "\<exists>s1 t. kkill 0 0 six_pages = Ok 0 s1 \<and> allocproc 0 s1 = Ok (Some 3) t \<and> p_killed (procs t 3) = 1"
  using kill_zero_dooms_next_process [OF six_pages_facts(1,3,2,2,5) _ six_pages_slot] by simp

end
