(* ===== verification/Sysproc.thy ===== *)
theory Sysproc
  imports ProcMem
begin

text \<open>
  System-call arguments (the first half of \<^verbatim>\<open>kernel/syscall.c\<close>) and the process system calls of
  \<^verbatim>\<open>kernel/sysproc.c\<close> that need no file system, among them \<^verbatim>\<open>sys_set_llm_advice\<close>.  Arguments are read from
  the trapframe page of the calling process, at the offsets of \<^verbatim>\<open>struct trapframe\<close>.
\<close>

section \<open>Arguments\<close>

definition tf_epc :: u64 where "tf_epc = 24"
definition tf_a0 :: u64 where "tf_a0 = 112"
definition tf_a7 :: u64 where "tf_a7 = 168"

definition tf_get :: "u64 \<Rightarrow> nat \<Rightarrow> 'a kvm_scheme \<Rightarrow> u64" where
  "tf_get off i s = load64 (pmem s) (p_trapframe (procs s i) + off)"

definition tf_set :: "u64 \<Rightarrow> u64 \<Rightarrow> nat \<Rightarrow> 'a kvm_scheme \<Rightarrow> 'a kvm_scheme" where
  "tf_set off v i s = s\<lparr>pmem := store64 (p_trapframe (procs s i) + off) v (pmem s)\<rparr>"

definition argraw :: "nat \<Rightarrow> nat \<Rightarrow> 'a kvm_scheme \<Rightarrow> (u64, 'a kvm_scheme) res" where
  "argraw h n s =
     kbind (curproc h s) (\<lambda>i s.
     if n \<le> 5 then Ok (tf_get (tf_a0 + 8 * of_nat n) i s) s else Panic ''argraw'')"

definition argint :: "nat \<Rightarrow> nat \<Rightarrow> 'a kvm_scheme \<Rightarrow> (u32, 'a kvm_scheme) res" where
  "argint h n s = kbind (argraw h n s) (\<lambda>w s. Ok (ucast w) s)"

definition argaddr :: "nat \<Rightarrow> nat \<Rightarrow> 'a kvm_scheme \<Rightarrow> (u64, 'a kvm_scheme) res" where
  "argaddr h n s = argraw h n s"

definition le_word :: "u8 list \<Rightarrow> u64" where
  "le_word bs = foldr (\<lambda>b w. ucast b OR push_bit 8 w) bs 0"

definition fetchaddr :: "nat \<Rightarrow> u64 \<Rightarrow> 'a kvm_scheme \<Rightarrow> (u64 option, 'a kvm_scheme) res" where
  "fetchaddr h addr s =
     kbind (curproc h s) (\<lambda>i s.
     let p = procs s i
     in if p_sz p \<le> addr \<or> p_sz p < addr + 8 then Ok None s
        else kbind (copyin h (p_pagetable p) addr 8 s) (\<lambda>r s. Ok (map_option le_word r) s))"

text \<open>The length of the string (at most \<^verbatim>\<open>max\<close>) and its bytes, or \<open>None\<close> for -1.\<close>

definition fetchstr :: "nat \<Rightarrow> u64 \<Rightarrow> nat \<Rightarrow> 'a kvm_scheme \<Rightarrow> ((nat \<times> u8 list) option, 'a kvm_scheme) res" where
  "fetchstr h addr mx s =
     kbind (curproc h s) (\<lambda>i s.
     kbind (copyinstr h (p_pagetable (procs s i)) addr mx s) (\<lambda>r s.
     Ok (map_option (\<lambda>bs. (length bs, bs)) r) s))"

definition argstr :: "nat \<Rightarrow> nat \<Rightarrow> nat \<Rightarrow> 'a kvm_scheme \<Rightarrow> ((nat \<times> u8 list) option, 'a kvm_scheme) res" where
  "argstr h n mx s = kbind (argaddr h n s) (\<lambda>addr s. fetchstr h addr mx s)"

section \<open>System calls\<close>

definition sys_getpid :: "nat \<Rightarrow> 'a kvm_scheme \<Rightarrow> (u64, 'a kvm_scheme) res" where
  "sys_getpid h s = kbind (curproc h s) (\<lambda>i s. Ok (scast (p_pid (procs s i))) s)"

definition count_io :: "nat option \<Rightarrow> 'a kvm_scheme \<Rightarrow> 'a kvm_scheme" where
  "count_io p s =
     (case p of None \<Rightarrow> s | Some i \<Rightarrow> proc_at i (\<lambda>q. q\<lparr>p_io_count := p_io_count q + 1\<rparr>) s)"

definition sys_wait :: "nat \<Rightarrow> 'a kvm_scheme \<Rightarrow> (u64, 'a kvm_scheme) res" where
  "sys_wait h s =
     kbind (myproc h s) (\<lambda>cur s.
     kbind (argaddr h 0 (count_io cur s)) (\<lambda>p s. kwait h p s))"

definition sys_sbrk :: "nat \<Rightarrow> 'a kvm_scheme \<Rightarrow> (u64, 'a kvm_scheme) res" where
  "sys_sbrk h s =
     kbind (argint h 0 s) (\<lambda>n s.
     kbind (argint h 1 s) (\<lambda>t s.
     kbind (curproc h s) (\<lambda>i s.
     let addr = p_sz (procs s i); n64 = scast n :: u64
     in if t = 1 \<or> sint n < 0 then
          kbind (growproc h n s) (\<lambda>r s. if r < 0 then Ok (-1) s else Ok addr s)
        else if addr + n64 < addr then Ok (-1) s
        else if TRAPFRAME < addr + n64 then Ok (-1) s
        else
          kbind (curproc h s) (\<lambda>i s. Ok addr (proc_at i (\<lambda>p. p\<lparr>p_sz := p_sz p + n64\<rparr>) s)))))"

text \<open>The loop of \<^verbatim>\<open>sys_pause\<close>, with \<^verbatim>\<open>tickslock\<close> held; \<open>n\<close> is the unsigned number of ticks.\<close>

definition pause_iter :: "nat \<Rightarrow> u32 \<Rightarrow> u32 \<Rightarrow> 'a kvm_scheme \<Rightarrow> (u64, 'a kvm_scheme) res" where
  "pause_iter h ticks0 n s =
     (if ticks s - ticks0 < n then
        kbind (curproc h s) (\<lambda>i s.
        kbind (killed h i s) (\<lambda>k s.
        if k \<noteq> 0 then kbind (release h LTicks s) (\<lambda>_ s. Ok (-1) s)
        else kbind (sleep h ChTicks LTicks s) (\<lambda>_ s. Ok 0 s)))
      else kbind (release h LTicks s) (\<lambda>_ s. Ok 0 s))"

definition sys_pause :: "nat \<Rightarrow> 'a kvm_scheme \<Rightarrow> (u64, 'a kvm_scheme) res" where
  "sys_pause h s =
     kbind (myproc h s) (\<lambda>p s.
     kbind (argint h 0 (count_io p s)) (\<lambda>n s.
     let n = (if sint n < 0 then 0 else n)
     in kbind (acquire h LTicks s) (\<lambda>_ s. pause_iter h (ticks s) n s)))"

definition pause_resume :: "nat \<Rightarrow> nat \<Rightarrow> u32 \<Rightarrow> u32 \<Rightarrow> 'a kvm_scheme \<Rightarrow> (u64, 'a kvm_scheme) res" where
  "pause_resume h i ticks0 n s =
     kbind (sleep_resume h i LTicks s) (\<lambda>_ s. pause_iter h ticks0 n s)"

definition sys_kill :: "nat \<Rightarrow> 'a kvm_scheme \<Rightarrow> (u64, 'a kvm_scheme) res" where
  "sys_kill h s = kbind (argint h 0 s) (\<lambda>pid s. kkill h pid s)"

definition sys_uptime :: "nat \<Rightarrow> 'a kvm_scheme \<Rightarrow> (u64, 'a kvm_scheme) res" where
  "sys_uptime h s =
     kbind (acquire h LTicks s) (\<lambda>_ s.
     let xticks = ticks s
     in kbind (release h LTicks s) (\<lambda>_ s. Ok (ucast xticks) s))"

definition sys_set_llm_advice :: "nat \<Rightarrow> 'a kvm_scheme \<Rightarrow> (u64, 'a kvm_scheme) res" where
  "sys_set_llm_advice h s =
     kbind (argint h 0 s) (\<lambda>pid s.
     if sint pid \<le> 0 then Ok (-1) s
     else
       kbind (acquire h LLlm s) (\<lambda>_ s.
       kbind (release h LLlm (s\<lparr>llm_recommended_pid := pid, llm_advice_valid := 1,
                               llm_advice_timestamp := ticks s\<rparr>)) (\<lambda>_ s.
       Ok 0 s)))"

section \<open>Behaviour\<close>

lemma argint_ok:
  assumes "cpu_wf h s" and "c_proc (cpus s h) = Some i" and "n \<le> 5"
  shows "argint h n s = Ok (ucast (tf_get (tf_a0 + 8 * of_nat n) i s)) (settle h s)"
  using assms by (simp add: argint_def argraw_def curproc_ok tf_get_def)

definition set_advice :: "u32 \<Rightarrow> 'a kvm_scheme \<Rightarrow> 'a kvm_scheme" where
  "set_advice pid s =
     s\<lparr>llm_recommended_pid := pid, llm_advice_valid := 1, llm_advice_timestamp := ticks s\<rparr>"

lemma set_advice_simps [simp]:
  "cpu_wf h (set_advice pid s) = cpu_wf h s" "lock_free l (set_advice pid s) = lock_free l s"
  "entered h l (set_advice pid s) = set_advice pid (entered h l s)"
  "settle h (set_advice pid s) = set_advice pid (settle h s)"
  "procs (set_advice pid s) = procs s" "ticks (set_advice pid s) = ticks s"
  "noff h (set_advice pid s) = noff h s" "proc_locks_free (set_advice pid s) = proc_locks_free s"
  "sie (set_advice pid s) = sie s" "locks (set_advice pid s) = locks s"
  by (auto simp: set_advice_def cpu_wf_def lock_free_def entered_def settle_def push_off_def Let_def
      intr_off_def intr_get_def proc_locks_free_def)

lemma sys_set_llm_advice_ok:
  assumes "cpu_wf h s" and "c_proc (cpus s h) = Some i" and "lock_free LLlm s"
    and "pid = ucast (tf_get tf_a0 i s)"
  shows "sys_set_llm_advice h s =
    (if sint pid \<le> 0 then Ok (-1) (settle h s) else Ok 0 (settle h (set_advice pid s)))"
proof -
  have "release h LLlm (entered h LLlm (set_advice pid s)) = Ok () (settle h (set_advice pid s))"
    using assms by (intro release_entered) simp_all
  then show ?thesis
    using assms argint_ok [OF assms(1,2), of 0]
    by (simp add: sys_set_llm_advice_def acquire_free) (simp add: set_advice_def)
qed

text \<open>
  \<^verbatim>\<open>sys_set_llm_advice\<close> refuses a pid that is not positive with -1 and no change; otherwise it returns 0
  with the advice set to that pid, valid, stamped with the current tick, and no process touched.
\<close>

theorem set_llm_advice_stores:
  assumes "cpu_wf h s" and "c_proc (cpus s h) = Some i" and "lock_free LLlm s"
    and "pid = ucast (tf_get tf_a0 i s)"
  shows "\<exists>t. sys_set_llm_advice h s = Ok (if sint pid \<le> 0 then -1 else 0) t \<and>
    procs t = procs s \<and> ticks t = ticks s \<and> sie t = sie s \<and> locks t = locks s \<and>
    (if sint pid \<le> 0 then llm_advice_valid t = llm_advice_valid s \<and>
        llm_recommended_pid t = llm_recommended_pid s \<and> llm_advice_timestamp t = llm_advice_timestamp s
     else llm_recommended_pid t = pid \<and> llm_advice_valid t = 1 \<and> llm_advice_timestamp t = ticks s)"
  using sys_set_llm_advice_ok [OF assms] by (auto simp: set_advice_def)

text \<open>
  C31: advice expires.  Once the advice is 200 ticks old or more (modulo \<open>2\<^sup>3\<^sup>2\<close>), a scheduler iteration chooses
  by round robin exactly as if there were none, and does not spend it.
\<close>

theorem stale_advice_is_ignored:
  assumes "noff h s = 0" and "proc_locks_free s" and "lock_free LLlm s"
    and "ADVICE_TIMEOUT_TICKS \<le> ticks s - llm_advice_timestamp s"
  shows "\<exists>t. scheduler_iter h s = Ok (rr_choice 0 False s) t \<and>
    llm_advice_valid t = llm_advice_valid s \<and> llm_recommended_pid t = llm_recommended_pid s"
proof -
  have "sched_choice s = rr_choice 0 False s"
    using assms(4) by (simp add: sched_choice_def advice_def not_le [symmetric])
  then show ?thesis
    using scheduler_iter_ok [OF assms(1-3)]
    by (auto simp: rr_choice_def chosen_def dispatch_def split: option.splits)
qed

text \<open>
  a lazy \<^verbatim>\<open>sbrk\<close> (non-negative, not eager) only moves the size.  It returns the old size and adds \<open>n\<close>
  to it if the sum neither wraps nor passes the trapframe; otherwise it returns -1 and changes
  nothing.  It allocates and maps no page in either case.
\<close>

theorem lazy_sbrk_moves_size_only:
  assumes "cpu_wf h s" and "c_proc (cpus s h) = Some i"
    and "n = ucast (tf_get tf_a0 i s)" and "0 \<le> sint (n :: u32)"
    and "ucast (tf_get (tf_a0 + 8) i s) \<noteq> (1 :: u32)"
  defines "sz \<equiv> p_sz (procs s i)"
  defines "n64 \<equiv> scast n :: u64"
  shows "\<exists>t. sys_sbrk h s = Ok (if sz + n64 < sz \<or> TRAPFRAME < sz + n64 then -1 else sz) t \<and>
    pmem t = pmem s \<and> freelist t = freelist s \<and>
    procs t = (if sz + n64 < sz \<or> TRAPFRAME < sz + n64 then procs s
               else (procs s)(i := (procs s i)\<lparr>p_sz := sz + n64\<rparr>))"
proof -
  have "argint h 0 s = Ok n (settle h s)" using argint_ok [OF assms(1,2), of 0] assms(3) by simp
  moreover have "argint h 1 (settle h s) = Ok (ucast (tf_get (tf_a0 + 8) i s)) (settle h s)"
    using argint_ok [of h "settle h s" i 1] assms(1,2) by (simp add: tf_get_def)
  ultimately show ?thesis
    using assms curproc_ok [of h "settle h s" i]
    by (simp add: sys_sbrk_def Let_def proc_at_def)
qed

text \<open>Process 1 in a system call with first argument \<open>a0\<close>; its trapframe is at 0x80060000.\<close>

definition calling :: "u64 \<Rightarrow> kvm" where
  "calling a0 = quiet_vm\<lparr>procs := three(1 := (slot RUNNING ChNull 2)\<lparr>p_trapframe := 0x80060000, p_sz := 0x3000\<rparr>),
     pmem := store64 (0x80060000 + tf_a0) a0 (\<lambda>_. 0)\<rparr>"

lemma calling_simps:
  "cpu_wf h (calling a)" "lock_free l (calling a)" "c_proc (cpus (calling a) h) = Some 1"
  "tf_get tf_a0 1 (calling a) = a" "p_sz (procs (calling a) 1) = 0x3000"
  by (simp_all add: calling_def quiet_vm_def cpu_wf_def lock_free_def tf_get_def)

theorem set_llm_advice_stores_witness:
  "\<exists>t. sys_set_llm_advice 0 (calling 3) = Ok 0 t \<and> llm_recommended_pid t = 3 \<and> llm_advice_valid t = 1"
  using set_llm_advice_stores [OF calling_simps(1,3,2) refl, of 0 3] by (auto simp: calling_simps [unfolded One_nat_def])

theorem stale_advice_is_ignored_witness:
  "\<exists>t. scheduler_iter 0 ((quiet three)\<lparr>llm_recommended_pid := 3, llm_advice_valid := 1, ticks := 300\<rparr>) = Ok (RunRR 1) t"
proof -
  let ?s = "(quiet three)\<lparr>llm_recommended_pid := 3, llm_advice_valid := 1, ticks := 300\<rparr>"
  have "rr_choice 0 False ?s = RunRR 1"
    using choice_cong(3) [of ?s "quiet three" 0 False] three_choices(1) by simp
  moreover have "proc_locks_free ?s" "lock_free LLlm ?s" "noff 0 ?s = 0" "llm_advice_timestamp ?s = 0"
    by (simp_all add: quiet_def proc_locks_free_def lock_free_def)
  ultimately show ?thesis
    using stale_advice_is_ignored [of ?s 0] by (auto simp: ADVICE_TIMEOUT_TICKS_def)
qed

lemma calling_a1: "tf_get (tf_a0 + 8) 1 (calling a) = 0"
proof -
  have "load64 (store64 (0x80060000 + 112) a (\<lambda>_. 0)) (0x80060000 + 120) = 0"
  proof (rule load64_zero)
    fix b :: u64
    assume b: "in_range (0x80060000 + 120) 8 b"
    have "\<not> in_range (0x80060000 + 112) 8 b"
      using b in_range_unat [of "0x80060000 + 120" 8 b] in_range_unat [of "0x80060000 + 112" 8 b] by simp
    then show "store64 (0x80060000 + 112) a (\<lambda>_. 0) b = 0" by (simp add: store_le_other)
  qed
  then show ?thesis by (simp add: calling_def quiet_vm_def tf_get_def tf_a0_def)
qed

theorem lazy_sbrk_moves_size_only_witness:
  "\<exists>t. sys_sbrk 0 (calling 0x1000) = Ok 0x3000 t \<and> p_sz (procs t 1) = 0x4000"
  using lazy_sbrk_moves_size_only [OF calling_simps(1,3) refl, of "0x1000" 0]
  by (auto simp: calling_simps [unfolded One_nat_def] calling_a1 [unfolded One_nat_def] TRAPFRAME_def TRAMPOLINE_def MAXVA_def PGSIZE_def)

end
