(* ===== verification/UserMem.thy ===== *)
theory UserMem
  imports VM
begin

text \<open>
  What \<^verbatim>\<open>copyout\<close> of \<^verbatim>\<open>kernel/vm.c\<close> does to user memory, and the round trip with \<^verbatim>\<open>copyin\<close>.
\<close>

definition phys :: "mem \<Rightarrow> u64 \<Rightarrow> u64 \<Rightarrow> u64" where
  "phys m pt va = translate m pt (PGROUNDDOWN va) + (va - PGROUNDDOWN va)"

text \<open>The page of \<open>va\<close> is mapped for the user and writable, and is neither free nor a table of \<open>pt\<close>.\<close>

definition user_page :: "mem \<Rightarrow> u64 \<Rightarrow> u64 set \<Rightarrow> u64 \<Rightarrow> bool" where
  "user_page m pt F va \<longleftrightarrow>
     (let v = PGROUNDDOWN va; pa = translate m pt v
      in pa \<noteq> 0 \<and> entry m pt v AND PTE_W \<noteq> 0 \<and> v < MAXVA \<and> pa \<notin> F \<and> pa \<notin> tables m pt)"

definition user_writable :: "mem \<Rightarrow> u64 \<Rightarrow> u64 set \<Rightarrow> u64 \<Rightarrow> nat \<Rightarrow> bool" where
  "user_writable m pt F va n \<longleftrightarrow> unat va + n < 2 ^ 64 \<and> (\<forall>k<n. user_page m pt F (va + of_nat k))"

lemma translate_aligned: "aligned (translate m pt va)"
proof -
  have "aligned 0" by (simp add: aligned_iff)
  moreover have "aligned (PTE2PA e)" for e
    unfolding PTE2PA_def PGROUNDDOWN_shift by (rule bit_eqI) (auto simp: bit_simps)
  ultimately show ?thesis by (simp add: translate_def Let_def)
qed

lemma phys_in_page: "in_range (translate m pt (PGROUNDDOWN va)) 4096 (phys m pt va)"
  using in_page_len_eq(2) [of va] by (simp add: in_range_def phys_def)

text \<open>Bytes written inside user pages leave the tables, the translations and the free list alone.\<close>

definition same_tables :: "mem \<Rightarrow> u64 \<Rightarrow> u64 set \<Rightarrow> mem \<Rightarrow> bool" where
  "same_tables m pt F m' \<longleftrightarrow>
     (\<forall>js p b. path js \<longrightarrow> node m pt js = Some p \<longrightarrow> in_range p 4096 b \<longrightarrow> m' b = m b) \<and>
     (\<forall>p b. p \<in> F \<longrightarrow> aligned p \<longrightarrow> in_range p 4096 b \<longrightarrow> m' b = m b)"

lemma same_tables_refl [simp]: "same_tables m pt F m"
  by (simp add: same_tables_def)

lemma same_tables_write:
  assumes "same_tables m pt F m'" and "pt_tree m pt F" and "user_page m pt F va"
  shows "same_tables m pt F (m'(phys m pt va := x))"
proof -
  let ?pa = "translate m pt (PGROUNDDOWN va)"
  have u: "?pa \<notin> F" "\<And>js p. path js \<Longrightarrow> node m pt js = Some p \<Longrightarrow> p \<noteq> ?pa"
    using assms(3) by (auto simp: user_page_def Let_def tables_def)
  have "\<not> in_range p 4096 (phys m pt va)" if "aligned p" "p \<noteq> ?pa" for p
    using pages_disjoint [OF translate_aligned that(1) _ phys_in_page] that(2) by metis
  then show ?thesis
    using assms(1) u pt_tree_node(1) [OF assms(2)] unfolding same_tables_def by (metis fun_upd_other)
qed

lemma same_tables_props:
  assumes "same_tables m pt F m'" and "pt_tree m pt F"
  shows "pt_tree m' pt F" and "entry m' pt va = entry m pt va" and "translate m' pt va = translate m pt va"
    and "phys m' pt va = phys m pt va" and "path js \<Longrightarrow> node m' pt js = node m pt js"
    and "user_page m' pt F va = user_page m pt F va"
proof -
  note fr = assms(1) [unfolded same_tables_def, THEN conjunct1, rule_format]
  show t: "pt_tree m' pt F" by (rule pt_tree_frame [OF assms(2)]) (use fr in auto)
  show e: "entry m' pt va = entry m pt va" for va by (rule entry_frame [OF assms(2)]) (use fr in auto)
  show tr: "translate m' pt va = translate m pt va" for va using e by (simp add: translate_def)
  show "phys m' pt va = phys m pt va" using tr by (simp add: phys_def)
  show n: "path js \<Longrightarrow> node m' pt js = node m pt js" for js by (rule node_frame [OF assms(2)]) (use fr in auto)
  show "user_page m' pt F va = user_page m pt F va"
    using e tr n by (auto simp: user_page_def Let_def tables_def)
qed

definition write_user :: "mem \<Rightarrow> u64 \<Rightarrow> u64 \<Rightarrow> u8 list \<Rightarrow> mem \<Rightarrow> mem" where
  "write_user m pt va src m' = fold (\<lambda>k m'. m'(phys m pt (va + of_nat k) := src ! k)) [0..<length src] m'"

lemma write_user_same_tables:
  assumes "pt_tree m pt F" and "user_writable m pt F va (length src)" and "same_tables m pt F m'"
  shows "same_tables m pt F (write_user m pt va src m')"
proof -
  have "n \<le> length src \<Longrightarrow>
      same_tables m pt F (fold (\<lambda>k m'. m'(phys m pt (va + of_nat k) := src ! k)) [0..<n] m')" for n
  proof (induction n)
    case (Suc n)
    then show ?case using same_tables_write [OF _ assms(1)] assms(2) by (simp add: user_writable_def del: fun_upd_apply)
  qed (use assms(3) in simp)
  then show ?thesis by (simp add: write_user_def)
qed

lemma write_user_append:
  "write_user m pt va (xs @ ys) m' = write_user m pt (va + of_nat (length xs)) ys (write_user m pt va xs m')"
proof -
  have "[0..<length (xs @ ys)] = [0..<length xs] @ map (\<lambda>k. length xs + k) [0..<length ys]"
    using upt_add_eq_append [of 0 "length xs" "length ys"] map_add_upt [of "length xs" "length ys"]
    by (simp add: add.commute)
  moreover have "fold (\<lambda>k m'. m'(phys m pt (va + of_nat k) := (xs @ ys) ! k)) [0..<length xs] m' =
      fold (\<lambda>k m'. m'(phys m pt (va + of_nat k) := xs ! k)) [0..<length xs] m'"
    by (rule fold_cong) (auto simp: nth_append)
  ultimately show ?thesis by (simp add: write_user_def fold_map comp_def add.assoc nth_append)
qed

lemma store_bytes_fold:
  "store_bytes a bs m = fold (\<lambda>k m'. m'(a + of_nat k := bs ! k)) [0..<length bs] m"
proof (induction bs arbitrary: a m)
  case (Cons b bs)
  have "[0..<length (b # bs)] = 0 # map Suc [0..<length bs]" by (simp add: map_Suc_upt upt_conv_Cons del: upt_Suc)
  then show ?case using Cons by (simp add: fold_map comp_def ac_simps del: upt_Suc fun_upd_apply)
qed simp

text \<open>Within one page \<^verbatim>\<open>memmove\<close> to the physical page is the write.\<close>

lemma store_bytes_user:
  assumes "length bs \<le> 4096 - unat va mod 4096" and "unat va + length bs < 2 ^ 64"
  shows "store_bytes (phys m pt va) bs m' = write_user m pt va bs m'"
proof -
  have "phys m pt (va + of_nat k) = phys m pt va + of_nat k" if "k < length bs" for k
  proof -
    have "PGROUNDDOWN (va + of_nat k) = PGROUNDDOWN va"
      using that assms by (intro same_page) auto
    then show ?thesis by (simp add: phys_def)
  qed
  then show ?thesis unfolding store_bytes_fold write_user_def by (intro fold_cong) auto
qed

lemma copyout_ok:
  assumes "pt_tree (pmem s) pt F"
  shows "user_writable (pmem s) pt F va (length src) \<Longrightarrow> same_tables (pmem s) pt F m \<Longrightarrow>
    copyout h pt va src (s\<lparr>pmem := m\<rparr>) = Ok 0 (s\<lparr>pmem := write_user (pmem s) pt va src m\<rparr>)"
proof (induction "length src" arbitrary: va src m rule: less_induct)
  case less
  let ?m0 = "pmem s" and ?len = "length src" and ?n = "in_page_len va (length src)"
  let ?v = "PGROUNDDOWN va" and ?pa = "translate (pmem s) pt (PGROUNDDOWN va)"
  show ?case
  proof (cases "src = []")
    case True
    then show ?thesis by (subst copyout.simps) (simp add: write_user_def)
  next
    case False
    note st = same_tables_props [OF less.prems(2) assms]
    have up: "user_page ?m0 pt F va"
      using less.prems(1) False by (auto simp: user_writable_def dest: spec [of _ 0])
    then have u: "?pa \<noteq> 0" "entry ?m0 pt ?v AND PTE_W \<noteq> 0" "\<not> MAXVA \<le> ?v"
      by (auto simp: user_page_def Let_def)
    then have "entry ?m0 pt ?v \<noteq> 0" by auto
    then obtain q where q: "leaf_table m pt ?v = Some q" "entry m pt ?v = load64 m (pte_addr q 0 ?v)"
      using st(2) [of ?v] by (cases "leaf_table m pt ?v") (auto simp: entry_def)
    have wa: "walkaddr h pt ?v (s\<lparr>pmem := m\<rparr>) = Ok ?pa (s\<lparr>pmem := m\<rparr>)"
      using walkaddr_translate [of "s\<lparr>pmem := m\<rparr>" pt F h ?v] st(1,3) by simp
    have wk: "walk h pt ?v False (s\<lparr>pmem := m\<rparr>) = Ok (pte_addr q 0 ?v) (s\<lparr>pmem := m\<rparr>)"
      using walk_lookup [of ?v h pt "s\<lparr>pmem := m\<rparr>"] u(3) q(1) by (simp add: not_le)
    have w: "load64 m (pte_addr q 0 ?v) AND PTE_W \<noteq> 0" using q(2) st(2) u(2) by metis
    have n: "?n \<le> ?len" "0 < ?n" "?n \<le> 4096 - unat va mod 4096"
      using False in_page_len_pos [of ?len va] by (auto simp: in_page_len_eq(1))
    have room: "unat va + ?n < 2 ^ 64" using less.prems(1) n by (simp add: user_writable_def)
    let ?m1 = "write_user ?m0 pt va (take ?n src) m"
    have sb: "store_bytes (?pa + (va - ?v)) (take ?n src) m = ?m1"
      using store_bytes_user [of "take ?n src" va ?m0 pt m] n room by (simp add: phys_def)
    have uw1: "user_writable ?m0 pt F va (length (take ?n src))"
      using less.prems(1) n by (simp add: user_writable_def)
    have st1: "same_tables ?m0 pt F ?m1" by (rule write_user_same_tables [OF assms uw1 less.prems(2)])
    have rest: "copyout h pt (?v + PGSIZE) (drop ?n src) (s\<lparr>pmem := ?m1\<rparr>) =
        Ok 0 (s\<lparr>pmem := write_user ?m0 pt (va + of_nat ?n) (drop ?n src) ?m1\<rparr>)"
    proof (cases "?n = ?len")
      case True
      then show ?thesis by (subst copyout.simps) (simp add: write_user_def)
    next
      case part: False
      then have "?n = 4096 - unat va mod 4096" using n by (auto simp: in_page_len_eq(1))
      then have "unat va + ?n = unat ?v + 4096" by (simp only: unat_PGROUNDDOWN block_end)
      then have nx: "?v + PGSIZE = va + of_nat ?n"
        using unat_plus_of_nat [OF room] unat_plus_of_nat [of ?v 4096] room
        by (simp add: word_unat_eq_iff PGSIZE_def)
      have "user_page ?m0 pt F (va + of_nat ?n + of_nat k)" if "k < ?len - ?n" for k
        using less.prems(1) that by (simp add: user_writable_def add.assoc flip: of_nat_add)
      then have "user_writable ?m0 pt F (va + of_nat ?n) (length (drop ?n src))"
        using less.prems(1) n unat_plus_of_nat [OF room] by (simp add: user_writable_def)
      then show ?thesis
        using less.hyps [of "drop ?n src" "va + of_nat ?n" ?m1] st1 nx n by simp
    qed
    have "write_user ?m0 pt va src m = write_user ?m0 pt (va + of_nat ?n) (drop ?n src) ?m1"
    proof -
      have "length (take ?n src) = ?n" using n(1) by simp
      then show ?thesis
        using write_user_append [of ?m0 pt va "take ?n src" "drop ?n src" m]
        by (simp only: append_take_drop_id)
    qed
    then show ?thesis
      using False u wa wk w sb rest by (subst copyout.simps) (simp add: Let_def)
  qed
qed

lemma write_user_apply:
  assumes "inj_on (\<lambda>k. phys m pt (va + of_nat k)) {..<length src}"
  shows "k < length src \<Longrightarrow> write_user m pt va src m' (phys m pt (va + of_nat k)) = src ! k"
    and "b \<notin> (\<lambda>k. phys m pt (va + of_nat k)) ` {..<length src} \<Longrightarrow> write_user m pt va src m' b = m' b"
proof -
  let ?w = "\<lambda>n. fold (\<lambda>k m'. m'(phys m pt (va + of_nat k) := src ! k)) [0..<n] m'"
  have "n \<le> length src \<Longrightarrow> (\<forall>k<n. ?w n (phys m pt (va + of_nat k)) = src ! k)" for n
  proof (induction n)
    case (Suc n)
    have "phys m pt (va + of_nat k) \<noteq> phys m pt (va + of_nat n)" if "k < n" for k
      using inj_onD [OF assms, of k n] that Suc.prems by auto
    with Suc show ?case by (auto simp: less_Suc_eq)
  qed simp
  from this [of "length src"] show "k < length src \<Longrightarrow> write_user m pt va src m' (phys m pt (va + of_nat k)) = src ! k"
    by (simp add: write_user_def)
  have "n \<le> length src \<Longrightarrow> b \<notin> (\<lambda>k. phys m pt (va + of_nat k)) ` {..<n} \<Longrightarrow> ?w n b = m' b" for n
    by (induction n) (auto simp: lessThan_Suc)
  from this [of "length src"]
  show "b \<notin> (\<lambda>k. phys m pt (va + of_nat k)) ` {..<length src} \<Longrightarrow> write_user m pt va src m' b = m' b"
    by (simp add: write_user_def)
qed

lemma user_bytes_write_user:
  assumes "pt_tree m pt F" and "user_writable m pt F va (length src)"
    and "inj_on (\<lambda>k. phys m pt (va + of_nat k)) {..<length src}"
  shows "user_bytes (write_user m pt va src m) pt va (length src) = src"
proof (rule nth_equalityI)
  let ?m = "write_user m pt va src m"
  have "same_tables m pt F ?m" using assms(1,2) by (intro write_user_same_tables) auto
  note sp = same_tables_props [OF this assms(1)]
  fix k
  assume "k < length (user_bytes ?m pt va (length src))"
  then have k: "k < length src" by (simp add: user_bytes_def)
  have "user_byte ?m pt (va + of_nat k) = ?m (phys m pt (va + of_nat k))"
    using sp(3) by (simp add: user_byte_def phys_def)
  then show "user_bytes ?m pt va (length src) ! k = src ! k"
    using k write_user_apply(1) [OF assms(3) k] by (simp add: user_bytes_def)
qed (simp add: user_bytes_def)

text \<open>
  C33: \<^verbatim>\<open>copyout\<close> then \<^verbatim>\<open>copyin\<close>.  If every byte of the range is in a writable user page, and the pages of the
  range are different physical pages, \<^verbatim>\<open>copyout\<close> succeeds and \<^verbatim>\<open>copyin\<close> of the range returns the bytes it was
  given; no byte of memory outside the range's image changes, and no mapping does.
\<close>

theorem copyout_then_copyin:
  assumes "pt_tree (pmem s) pt F" and "user_writable (pmem s) pt F va (length src)"
    and "inj_on (\<lambda>k. phys (pmem s) pt (va + of_nat k)) {..<length src}"
  shows "\<exists>t. copyout h pt va src s = Ok 0 t \<and> copyin h pt va (length src) t = Ok (Some src) t \<and>
    (\<forall>b. b \<notin> (\<lambda>k. phys (pmem s) pt (va + of_nat k)) ` {..<length src} \<longrightarrow> pmem t b = pmem s b) \<and>
    (\<forall>v. translate (pmem t) pt v = translate (pmem s) pt v)"
proof -
  let ?m = "write_user (pmem s) pt va src (pmem s)"
  let ?t = "s\<lparr>pmem := ?m\<rparr>"
  have st: "same_tables (pmem s) pt F ?m" using assms(1,2) by (intro write_user_same_tables) auto
  note sp = same_tables_props [OF st assms(1)]
  have out: "copyout h pt va src s = Ok 0 ?t"
    using copyout_ok [OF assms(1,2) same_tables_refl, of h] by simp
  have "user_mapped ?m pt va (length src)"
    using assms(2) sp(3) by (auto simp: user_mapped_def user_writable_def user_page_def Let_def)
  then have "copyin h pt va (length src) ?t = Ok (Some (user_bytes ?m pt va (length src))) ?t"
    using copyin_ok [of ?t pt F va "length src" h] sp(1) by simp
  moreover have "user_bytes ?m pt va (length src) = src" by (rule user_bytes_write_user [OF assms])
  ultimately show ?thesis using out sp(3) write_user_apply(2) [OF assms(3)] by auto
qed

lemma fresh_vm_tables: "tables (pmem fresh_vm) 0x87ffd000 = {0x87ffd000}"
proof -
  have "child (pmem fresh_vm) 0x87ffd000 i = None" if "idx i" for i
  proof -
    have "load64 (pmem fresh_vm) (0x87ffd000 + 8 * i) = 0"
      using entry_in_page(1) [OF aligned_example that] fresh_vm_root by (intro load64_zero) auto
    then show ?thesis by (simp add: child_def)
  qed
  then have "node (pmem fresh_vm) 0x87ffd000 is = (if is = [] then Some 0x87ffd000 else None)" if "path is" for "is"
    using that by (cases "is") (auto simp: path_def)
  then show ?thesis by (auto simp: tables_def split: if_splits intro!: exI [of _ "[]"])
qed

lemma writable_page:
  "\<exists>t :: kvm. \<exists>qs. vm_inv 0 t 0x87ffd000 qs \<and> user_writable (pmem t) 0x87ffd000 (set qs) 0x1000 4096 \<and>
     (\<forall>k<4096. phys (pmem t) 0x87ffd000 (0x1000 + of_nat k) = 0x80050000 + of_nat k)"
proof -
  let ?perm = "PTE_R OR PTE_W OR PTE_U"
  have perm: "unat ?perm < 2 ^ 10" "?perm AND PTE_U \<noteq> 0" "(PA2PTE 0x80050000 OR ?perm OR PTE_V) AND PTE_W \<noteq> 0"
    by (simp_all add: PTE_R_def PTE_U_def PTE_W_def PTE_V_def PA2PTE_def)
  from map_one_spec [OF fresh_vm_inv example_addresses(5), of "0x80050000" ?perm]
  obtain t :: kvm and qs where t: "vm_inv 0 t 0x87ffd000 qs" "set qs \<subseteq> {0x87ffc000, 0x87ffe000, 0x87fff000}"
    "entry (pmem t) 0x87ffd000 0x1000 = PA2PTE 0x80050000 OR ?perm OR PTE_V"
    "tables (pmem t) 0x87ffd000 \<subseteq> tables (pmem fresh_vm) 0x87ffd000 \<union> {0x87ffc000, 0x87ffe000, 0x87fff000}"
    by (auto simp: fresh_vm_entry)
  have tr: "translate (pmem t) 0x87ffd000 0x1000 = 0x80050000"
    using translate_new [OF example_addresses(4,6) perm(1,2) t(3) example_addresses(5)] .
  have pg: "PGROUNDDOWN (0x1000 + of_nat k) = 0x1000" if "k < 4096" for k
    using same_page [of k "0x1000"] that example_addresses(3) by simp
  have "0x80050000 \<notin> set qs" "0x80050000 \<notin> tables (pmem t) 0x87ffd000"
    using t(2,4) fresh_vm_tables by auto
  then have "user_writable (pmem t) 0x87ffd000 (set qs) 0x1000 4096"
    using pg tr t(3) perm(3) example_addresses(5) by (simp add: user_writable_def user_page_def)
  moreover have "\<forall>k<4096. phys (pmem t) 0x87ffd000 (0x1000 + of_nat k) = 0x80050000 + of_nat k"
    using pg tr by (simp add: phys_def)
  ultimately show ?thesis using t(1) by blast
qed

lemma writable_example:
  "\<exists>t :: kvm. \<exists>qs. vm_inv 0 t 0x87ffd000 qs \<and> user_writable (pmem t) 0x87ffd000 (set qs) 0x1000 3 \<and>
     (\<forall>k<3. phys (pmem t) 0x87ffd000 (0x1000 + of_nat k) = 0x80050000 + of_nat k)"
proof -
  obtain s :: kvm and qs where s: "vm_inv 0 s 0x87ffd000 qs" "user_writable (pmem s) 0x87ffd000 (set qs) 0x1000 4096"
    "\<forall>k<4096. phys (pmem s) 0x87ffd000 (0x1000 + of_nat k) = 0x80050000 + of_nat k"
    using writable_page by blast
  from s(2) have "user_writable (pmem s) 0x87ffd000 (set qs) 0x1000 3" by (simp add: user_writable_def)
  then show ?thesis using s(1,3) by (intro exI [of _ s] exI [of _ qs]) auto
qed

theorem copyout_then_copyin_witness:
  "\<exists>s t :: kvm. copyout 0 0x87ffd000 0x1000 [1, 2, 3] s = Ok 0 t \<and>
     copyin 0 0x87ffd000 0x1000 3 t = Ok (Some [1, 2, 3]) t"
proof -
  obtain s :: kvm and qs where s: "vm_inv 0 s 0x87ffd000 qs" "user_writable (pmem s) 0x87ffd000 (set qs) 0x1000 3"
    "\<forall>k<3. phys (pmem s) 0x87ffd000 (0x1000 + of_nat k) = 0x80050000 + of_nat k"
    using writable_example by blast
  have "inj_on (\<lambda>k. phys (pmem s) 0x87ffd000 (0x1000 + of_nat k)) {..<3}"
    using s(3) by (auto simp: inj_on_def numeral_3_eq_3 less_Suc_eq)
  then show ?thesis
    using copyout_then_copyin [of s "0x87ffd000" "set qs" "0x1000" "[1, 2, 3]" 0] s(1,2)
    by (fastforce simp: vm_inv_def numeral_3_eq_3)
qed

end
