(* ===== verification/Ring.thy ===== *)
theory Ring
  imports Prelude
begin

text \<open>
  Ring buffers indexed by free-running 32-bit counters, as \<^verbatim>\<open>struct pipe\<close> (\<^verbatim>\<open>kernel/pipe.c\<close>) and the console
  input buffer (\<^verbatim>\<open>kernel/console.c\<close>) use them: byte number \<open>k\<close> is at index \<open>k mod N\<close>, the counters wrap at
  \<open>2\<^sup>3\<^sup>2\<close>, and \<open>N\<close> divides \<open>2\<^sup>3\<^sup>2\<close>, so that the wrap is invisible.  The abstraction is the list of bytes
  between the two counters.
\<close>

definition ring_contents :: "u32 \<Rightarrow> (nat \<Rightarrow> 'a) \<Rightarrow> u32 \<Rightarrow> u32 \<Rightarrow> 'a list" where
  "ring_contents N data r w = map (\<lambda>k. data (unat ((r + of_nat k) mod N))) [0..<unat (w - r)]"

locale ring =
  fixes N :: u32
  assumes N_pos: "0 < unat N" and N_dvd: "unat N dvd 2 ^ 32"
begin

lemma index: "unat ((r + of_nat k) mod N) = (unat r + k) mod unat N"
proof -
  have "unat (r + of_nat k) = (unat r + k) mod 2 ^ 32"
    by (simp add: unat_word_ariths unat_of_nat mod_add_right_eq)
  then show ?thesis using N_dvd by (simp add: unat_mod mod_mod_cancel)
qed

lemma size_le: "length (ring_contents N data r w) = unat (w - r)"
  by (simp add: ring_contents_def)

lemma empty_iff: "ring_contents N data r w = [] \<longleftrightarrow> r = w"
proof -
  have "unat (w - r) = 0 \<longleftrightarrow> r = w" by (auto simp: unat_eq_0)
  then show ?thesis by (simp add: ring_contents_def)
qed

lemma put:
  assumes "unat (w - r) < unat N"
  shows "ring_contents N (data(unat (w mod N) := c)) r (w + 1) = ring_contents N data r w @ [c]"
proof -
  let ?n = "unat (w - r)"
  have "unat N < 2 ^ 32" using unat_bound32 [of N] .
  then have "?n + 1 < 2 ^ 32" using assms by simp
  then have n: "unat (w + 1 - r) = Suc ?n"
  proof -
    have "w + 1 - r = (w - r) + 1" by simp
    then show ?thesis using \<open>?n + 1 < 2 ^ 32\<close> by (simp only: unat_word_ariths) simp
  qed
  have wr: "w = r + of_nat ?n" by simp
  have last: "unat (w mod N) = (unat r + ?n) mod unat N"
    using index [of r ?n] wr by simp
  have "unat ((r + of_nat k) mod N) \<noteq> unat (w mod N)" if "k < ?n" for k
  proof
    assume "unat ((r + of_nat k) mod N) = unat (w mod N)"
    then have "(unat r + k) mod unat N = (unat r + ?n) mod unat N" using index [of r k] last by simp
    moreover have "k \<noteq> ?n" "k < unat N" using that assms by auto
    ultimately show False
      using assms that mod_eq_dvd_iff_nat [of "unat r + k" "unat r + ?n" "unat N"]
      by (auto dest!: dvd_imp_le)
  qed
  moreover have "unat ((r + of_nat ?n) mod N) = unat (w mod N)" using wr by simp
  ultimately show ?thesis by (simp add: ring_contents_def n)
qed

lemma get:
  assumes "r \<noteq> w"
  shows "ring_contents N data r w = data (unat (r mod N)) # ring_contents N data (r + 1) w"
proof -
  have "0 < unat (w - r)" using assms by (simp add: unat_gt_0)
  moreover have "unat (w - r - 1) = unat (w - r) - 1"
    using assms by (intro unat_minus_one) simp
  ultimately have n: "unat (w - r) = Suc (unat (w - (r + 1)))" by (simp add: diff_diff_eq)
  show ?thesis
    by (simp add: ring_contents_def n map_upt_Suc add.assoc del: upt_Suc)
qed

text \<open>A buffer with a third counter between the two, as the console's: the contents split there, and the newest
  element can be taken back.\<close>

lemma contents_split:
  assumes "unat (w - r) + unat (e - w) < 2 ^ 32"
  shows "ring_contents N data r e = ring_contents N data r w @ ring_contents N data w e"
    and "unat (e - r) = unat (w - r) + unat (e - w)"
proof -
  have "e - r = (w - r) + (e - w)" by simp
  then show n: "unat (e - r) = unat (w - r) + unat (e - w)" using assms by (simp only: unat_word_ariths) simp
  have i: "r + of_nat (unat (w - r) + k) = w + of_nat k" for k by simp
  show "ring_contents N data r e = ring_contents N data r w @ ring_contents N data w e"
  proof (rule nth_equalityI)
    fix k assume "k < length (ring_contents N data r e)"
    then have k: "k < unat (w - r) + unat (e - w)" by (simp add: size_le n)
    show "ring_contents N data r e ! k = (ring_contents N data r w @ ring_contents N data w e) ! k"
    proof (cases "k < unat (w - r)")
      case True
      then show ?thesis using k by (simp add: ring_contents_def nth_append n)
    next
      case False
      then have "k = unat (w - r) + (k - unat (w - r))" by simp
      then show ?thesis using False k i [of "k - unat (w - r)"] by (simp add: ring_contents_def nth_append n add.commute del: of_nat_add)
    qed
  qed (simp add: size_le n)
qed

lemma unput:
  assumes "e \<noteq> w"
  shows "ring_contents N data w e = ring_contents N data w (e - 1) @ [data (unat ((e - 1) mod N))]"
proof -
  have "unat (e - w - 1) = unat (e - w) - 1" "0 < unat (e - w)" 
    using assms unat_minus_one [of "e - w"] by (simp_all add: unat_gt_0)
  moreover have e: "e - 1 - w = e - w - 1" by (simp add: algebra_simps)
  ultimately have n: "unat (e - w) = Suc (unat (e - 1 - w))" unfolding e by linarith
  have "w + of_nat (unat (e - 1 - w)) = e - 1" by simp
  then show ?thesis unfolding ring_contents_def n by (simp del: of_nat_unat)
qed

end

end
