(* ===== verification/Pipe.thy ===== *)
theory Pipe
  imports Sysproc UserMem Ring
begin

text \<open>
  Pipes, \<^verbatim>\<open>kernel/pipe.c\<close>.  A \<^verbatim>\<open>struct pipe\<close> is found by the address of its page; its lock is \<open>LPipe\<close> of
  that address.  \<^verbatim>\<open>pipewrite\<close> and \<^verbatim>\<open>piperead\<close> may sleep; what they do when they wake up is their
  \<open>_resume\<close> function.  (\<^verbatim>\<open>pipealloc\<close> is with the file table.)
\<close>

definition PIPESIZE :: u32 where
  "PIPESIZE = 512"

record pipe =
  pi_data :: "nat \<Rightarrow> u8"
  pi_nread :: u32
  pi_nwrite :: u32
  pi_readopen :: bool
  pi_writeopen :: bool

record kpipe = kvm +
  pipes :: "u64 \<Rightarrow> pipe"

definition pipe_at :: "u64 \<Rightarrow> (pipe \<Rightarrow> pipe) \<Rightarrow> 'a kpipe_scheme \<Rightarrow> 'a kpipe_scheme" where
  "pipe_at a f s = s\<lparr>pipes := (pipes s)(a := f (pipes s a))\<rparr>"

section \<open>Operations\<close>

definition pipeclose :: "nat \<Rightarrow> u64 \<Rightarrow> bool \<Rightarrow> 'a kpipe_scheme \<Rightarrow> (unit, 'a kpipe_scheme) res" where
  "pipeclose h a writable s =
     kbind (acquire h (LPipe a) s) (\<lambda>_ s.
     kbind (if writable
            then wakeup h (ChPipeRead a) (pipe_at a (\<lambda>p. p\<lparr>pi_writeopen := False\<rparr>) s)
            else wakeup h (ChPipeWrite a) (pipe_at a (\<lambda>p. p\<lparr>pi_readopen := False\<rparr>) s)) (\<lambda>_ s.
     if \<not> pi_readopen (pipes s a) \<and> \<not> pi_writeopen (pipes s a)
     then kbind (release h (LPipe a) s) (\<lambda>_ s. kfree h a s)
     else release h (LPipe a) s))"

definition pipe_put :: "u8 \<Rightarrow> pipe \<Rightarrow> pipe" where
  "pipe_put ch p =
     p\<lparr>pi_data := (pi_data p)(unat (pi_nwrite p mod PIPESIZE) := ch), pi_nwrite := pi_nwrite p + 1\<rparr>"

text \<open>The end of \<^verbatim>\<open>pipewrite\<close>, and its loop from byte \<open>i\<close> on with \<open>rem\<close> bytes to go.\<close>

definition pipewrite_end :: "nat \<Rightarrow> u64 \<Rightarrow> nat \<Rightarrow> 'a kpipe_scheme \<Rightarrow> (int, 'a kpipe_scheme) res" where
  "pipewrite_end h a i s =
     kbind (wakeup h (ChPipeRead a) s) (\<lambda>_ s.
     kbind (release h (LPipe a) s) (\<lambda>_ s. Ok (int i) s))"

primrec pipewrite_loop :: "nat \<Rightarrow> u64 \<Rightarrow> nat \<Rightarrow> u64 \<Rightarrow> nat \<Rightarrow> nat \<Rightarrow> 'a kpipe_scheme \<Rightarrow> (int, 'a kpipe_scheme) res" where
  "pipewrite_loop h a pr addr 0 i s = pipewrite_end h a i s"
| "pipewrite_loop h a pr addr (Suc rem) i s =
     kbind (if \<not> pi_readopen (pipes s a) then Ok 1 s else killed h pr s) (\<lambda>k s.
     if k \<noteq> 0 then kbind (release h (LPipe a) s) (\<lambda>_ s. Ok (-1) s)
     else if pi_nwrite (pipes s a) = pi_nread (pipes s a) + PIPESIZE then
       kbind (wakeup h (ChPipeRead a) s) (\<lambda>_ s.
       kbind (sleep h (ChPipeWrite a) (LPipe a) s) (\<lambda>_ s. Ok 0 s))
     else
       kbind (copyin h (p_pagetable (procs s pr)) (addr + of_nat i) 1 s) (\<lambda>r s.
       case r of
         None \<Rightarrow> pipewrite_end h a i s
       | Some bs \<Rightarrow> pipewrite_loop h a pr addr rem (i + 1) (pipe_at a (pipe_put (hd bs)) s)))"

definition pipewrite :: "nat \<Rightarrow> u64 \<Rightarrow> u64 \<Rightarrow> u32 \<Rightarrow> 'a kpipe_scheme \<Rightarrow> (int, 'a kpipe_scheme) res" where
  "pipewrite h a addr n s =
     kbind (curproc h s) (\<lambda>pr s.
     kbind (acquire h (LPipe a) s) (\<lambda>_ s. pipewrite_loop h a pr addr (nat (sint n)) 0 s))"

definition pipewrite_resume :: "nat \<Rightarrow> u64 \<Rightarrow> nat \<Rightarrow> u64 \<Rightarrow> nat \<Rightarrow> nat \<Rightarrow> 'a kpipe_scheme \<Rightarrow> (int, 'a kpipe_scheme) res" where
  "pipewrite_resume h a pr addr rem i s =
     kbind (sleep_resume h pr (LPipe a) s) (\<lambda>_ s. pipewrite_loop h a pr addr rem i s)"

definition piperead_end :: "nat \<Rightarrow> u64 \<Rightarrow> int \<Rightarrow> 'a kpipe_scheme \<Rightarrow> (int, 'a kpipe_scheme) res" where
  "piperead_end h a r s =
     kbind (wakeup h (ChPipeWrite a) s) (\<lambda>_ s.
     kbind (release h (LPipe a) s) (\<lambda>_ s. Ok r s))"

text \<open>The copying loop of \<^verbatim>\<open>piperead\<close>.\<close>

primrec piperead_copy :: "nat \<Rightarrow> u64 \<Rightarrow> nat \<Rightarrow> u64 \<Rightarrow> nat \<Rightarrow> nat \<Rightarrow> 'a kpipe_scheme \<Rightarrow> (int, 'a kpipe_scheme) res" where
  "piperead_copy h a pr addr 0 i s = piperead_end h a (int i) s"
| "piperead_copy h a pr addr (Suc rem) i s =
     (if pi_nread (pipes s a) = pi_nwrite (pipes s a) then piperead_end h a (int i) s
      else
        let ch = pi_data (pipes s a) (unat (pi_nread (pipes s a) mod PIPESIZE))
        in kbind (copyout h (p_pagetable (procs s pr)) (addr + of_nat i) [ch] s) (\<lambda>r s.
           if r = -1 then piperead_end h a (if i = 0 then -1 else int i) s
           else
             piperead_copy h a pr addr rem (i + 1)
               (pipe_at a (\<lambda>p. p\<lparr>pi_nread := pi_nread p + 1\<rparr>) s)))"

text \<open>The waiting loop, one turn: it sleeps, gives up, or goes on to copy.\<close>

definition piperead_iter :: "nat \<Rightarrow> u64 \<Rightarrow> nat \<Rightarrow> u64 \<Rightarrow> u32 \<Rightarrow> 'a kpipe_scheme \<Rightarrow> (int, 'a kpipe_scheme) res" where
  "piperead_iter h a pr addr n s =
     (if pi_nread (pipes s a) = pi_nwrite (pipes s a) \<and> pi_writeopen (pipes s a) then
        kbind (killed h pr s) (\<lambda>k s.
        if k \<noteq> 0 then kbind (release h (LPipe a) s) (\<lambda>_ s. Ok (-1) s)
        else kbind (sleep h (ChPipeRead a) (LPipe a) s) (\<lambda>_ s. Ok 0 s))
      else piperead_copy h a pr addr (nat (sint n)) 0 s)"

definition piperead :: "nat \<Rightarrow> u64 \<Rightarrow> u64 \<Rightarrow> u32 \<Rightarrow> 'a kpipe_scheme \<Rightarrow> (int, 'a kpipe_scheme) res" where
  "piperead h a addr n s =
     kbind (curproc h s) (\<lambda>pr s.
     kbind (acquire h (LPipe a) s) (\<lambda>_ s. piperead_iter h a pr addr n s))"

definition piperead_resume :: "nat \<Rightarrow> u64 \<Rightarrow> nat \<Rightarrow> u64 \<Rightarrow> u32 \<Rightarrow> 'a kpipe_scheme \<Rightarrow> (int, 'a kpipe_scheme) res" where
  "piperead_resume h a pr addr n s =
     kbind (sleep_resume h pr (LPipe a) s) (\<lambda>_ s. piperead_iter h a pr addr n s)"

section \<open>The bytes in flight\<close>

definition pipe_contents :: "pipe \<Rightarrow> u8 list" where
  "pipe_contents p = ring_contents PIPESIZE (pi_data p) (pi_nread p) (pi_nwrite p)"

definition pipe_wf :: "pipe \<Rightarrow> bool" where
  "pipe_wf p \<longleftrightarrow> length (pipe_contents p) \<le> 512"

interpretation pipe_ring: ring PIPESIZE
  by unfold_locales (simp_all add: PIPESIZE_def)

lemma pipe_full_iff:
  assumes "pipe_wf p"
  shows "pi_nwrite p = pi_nread p + PIPESIZE \<longleftrightarrow> length (pipe_contents p) = 512"
proof -
  have "pi_nwrite p = pi_nread p + PIPESIZE \<longleftrightarrow> pi_nwrite p - pi_nread p = PIPESIZE" by (auto simp: algebra_simps)
  also have "\<dots> \<longleftrightarrow> unat (pi_nwrite p - pi_nread p) = 512"
    by (simp add: word_unat_eq_iff PIPESIZE_def)
  finally show ?thesis by (simp add: pipe_contents_def pipe_ring.size_le)
qed

lemma pipe_put_contents:
  assumes "pipe_wf p" and "pi_nwrite p \<noteq> pi_nread p + PIPESIZE"
  shows "pipe_contents (pipe_put c p) = pipe_contents p @ [c]" and "pipe_wf (pipe_put c p)"
proof -
  have "length (pipe_contents p) < 512" using assms pipe_full_iff [OF assms(1)] by (simp add: pipe_wf_def)
  moreover have "unat PIPESIZE = 512" by (simp add: PIPESIZE_def)
  ultimately have "unat (pi_nwrite p - pi_nread p) < unat PIPESIZE"
    by (simp add: pipe_contents_def pipe_ring.size_le)
  from pipe_ring.put [OF this] show c: "pipe_contents (pipe_put c p) = pipe_contents p @ [c]"
    by (simp add: pipe_contents_def pipe_put_def)
  show "pipe_wf (pipe_put c p)" using c \<open>length (pipe_contents p) < 512\<close> by (simp add: pipe_wf_def)
qed

lemma pipe_put_open [simp]:
  "pi_readopen (pipe_put c p) = pi_readopen p" "pi_writeopen (pipe_put c p) = pi_writeopen p"
  by (simp_all add: pipe_put_def)

lemma pipe_get_contents:
  assumes "pi_nread p \<noteq> pi_nwrite p"
  shows "pipe_contents p = pi_data p (unat (pi_nread p mod PIPESIZE)) #
    pipe_contents (p\<lparr>pi_nread := pi_nread p + 1\<rparr>)"
  using pipe_ring.get [OF assms] by (simp add: pipe_contents_def)

section \<open>Writing and reading\<close>

lemma pipe_at_simps [simp]:
  "cpu_wf h (pipe_at a f s) = cpu_wf h s" "lock_free l (pipe_at a f s) = lock_free l s"
  "entered h l (pipe_at a f s) = pipe_at a f (entered h l s)"
  "settle h (pipe_at a f s) = pipe_at a f (settle h s)"
  "proc_locks_free (pipe_at a f s) = proc_locks_free s" "cpus (pipe_at a f s) = cpus s"
  "procs (pipe_at a f s) = procs s" "pmem (pipe_at a f s) = pmem s" "locks (pipe_at a f s) = locks s"
  "sie (pipe_at a f s) = sie s"
  "pipes (pipe_at a f s) b = (if a = b then f (pipes s a) else pipes s b)"
  by (auto simp: pipe_at_def cpu_wf_def lock_free_def entered_def settle_def push_off_def Let_def
      intr_off_def intr_get_def proc_locks_free_def)

lemma kpipe_spin [simp]:
  "pipes (settle h s) = pipes s" "pipes (entered h l s) = pipes s" "pipes (s\<lparr>procs := x\<rparr>) = pipes s"
  by (simp_all add: settle_def entered_def push_off_def Let_def intr_off_def)

lemma killed_ok:
  assumes "cpu_wf h s" and "lock_free (LProc i) s"
  shows "killed h i s = Ok (p_killed (procs s i)) (settle h s)"
  using assms by (simp add: killed_def acquire_free release_entered Let_def)

lemma proc_all_simps [simp]:
  "cpu_wf h (proc_all f s) = cpu_wf h s" "lock_free l (proc_all f s) = lock_free l s"
  "entered h l (proc_all f s) = proc_all f (entered h l s)"
  "settle h (proc_all f s) = proc_all f (settle h s)"
  "proc_locks_free (proc_all f s) = proc_locks_free s" "cpus (proc_all f s) = cpus s"
  "pmem (proc_all f s) = pmem s" "locks (proc_all f s) = locks s" "sie (proc_all f s) = sie s"
  by (simp_all add: proc_all_def cong: if_cong)

lemma pipes_proc_all [simp]: "pipes (proc_all f s) = pipes s"
  by (simp add: proc_all_def)

text \<open>\<open>wake_all\<close>: what \<^verbatim>\<open>wakeup\<close> on a channel leaves, from a caller that runs process \<open>pr\<close>.\<close>

definition wake_all :: "nat \<Rightarrow> chan \<Rightarrow> 'a kproc_scheme \<Rightarrow> 'a kproc_scheme" where
  "wake_all pr ch s = proc_all (\<lambda>i. if i = pr then id else woken ch) s"

lemma wakeup_wake_all:
  assumes "cpu_wf h s" and "proc_locks_free s" and "c_proc (cpus s h) = Some pr"
  shows "wakeup h ch s = Ok () (settle h (wake_all pr ch s))"
  using wakeup_ok [OF assms(1,2), of ch] assms(3) by (simp add: wake_all_def eq_commute)

text \<open>A wakeup followed by the release of the lock that was taken around it.\<close>

lemma wake_release:
  assumes "cpu_wf h s" and "proc_locks_free s" and "c_proc (cpus s h) = Some pr" and "lock_free l s"
    and "\<forall>i. l \<noteq> LProc i"
  shows "kbind (wakeup h ch (entered h l s)) (\<lambda>_ s. kbind (release h l s) (\<lambda>_ s. Ok x s)) =
    Ok x (settle h (wake_all pr ch s))"
proof -
  have "wakeup h ch (entered h l s) = Ok () (entered h l (wake_all pr ch s))"
    using assms wakeup_wake_all [of h "entered h l s" pr ch] by (simp add: wake_all_def)
  moreover have "release h l (entered h l (wake_all pr ch s)) = Ok () (settle h (wake_all pr ch s))"
    using assms by (intro release_entered) (simp_all add: wake_all_def)
  ultimately show ?thesis by simp
qed

lemma pipewrite_loop_room:
  assumes "cpu_wf h s" and "0 < noff h s" and "lock_free (LProc pr) s" and "p_killed (procs s pr) = 0"
    and "pi_readopen (pipes s a)" and "pipe_wf (pipes s a)"
    and "length (pipe_contents (pipes s a)) + rem \<le> 512"
    and "pt_tree (pmem s) (p_pagetable (procs s pr)) F"
    and "user_mapped (pmem s) (p_pagetable (procs s pr)) (addr + of_nat i) rem"
  shows "pipewrite_loop h a pr addr rem i s = pipewrite_end h a (i + rem)
    (pipe_at a (fold pipe_put (user_bytes (pmem s) (p_pagetable (procs s pr)) (addr + of_nat i) rem)) s)"
  using assms
proof (induction rem arbitrary: i s)
  case 0
  then show ?case by (simp add: user_bytes_def pipe_at_def)
next
  case (Suc rem)
  let ?pt = "p_pagetable (procs s pr)" and ?c = "user_byte (pmem s) (p_pagetable (procs s pr)) (addr + of_nat i)"
  let ?t = "pipe_at a (pipe_put ?c) s"
  have m1: "user_mapped (pmem s) ?pt (addr + of_nat i) 1"
    using Suc.prems(9) by (auto simp: user_mapped_def)
  have m2: "user_mapped (pmem s) ?pt (addr + of_nat (i + 1)) rem"
    using user_mapped_later [OF Suc.prems(9), of 1] by (simp add: ac_simps)
  have nf: "pi_nwrite (pipes s a) \<noteq> pi_nread (pipes s a) + PIPESIZE"
    using Suc.prems(7) pipe_full_iff [OF Suc.prems(6)] by auto
  note put = pipe_put_contents [OF Suc.prems(6) nf, of ?c]
  have "pipewrite_loop h a pr addr (Suc rem) i s = pipewrite_loop h a pr addr rem (i + 1) ?t"
    using Suc.prems nf copyin_ok [OF Suc.prems(8) m1] killed_ok [OF Suc.prems(1,3)]
    by (simp add: settle_depth user_bytes_def)
  also have "\<dots> = pipewrite_end h a (i + 1 + rem)
      (pipe_at a (fold pipe_put (user_bytes (pmem s) ?pt (addr + of_nat (i + 1)) rem)) ?t)"
    using Suc.IH [of ?t "i + 1"] Suc.prems put m2 by simp
  finally have run: "pipewrite_loop h a pr addr (Suc rem) i s = pipewrite_end h a (i + Suc rem)
      (pipe_at a (fold pipe_put (user_bytes (pmem s) ?pt (addr + of_nat (i + 1)) rem)) ?t)" by simp
  have "user_bytes (pmem s) ?pt (addr + of_nat i) (Suc rem) =
      ?c # user_bytes (pmem s) ?pt (addr + of_nat (i + 1)) rem"
    using user_bytes_append [of 1 "Suc rem" "pmem s" ?pt "addr + of_nat i"]
    by (simp add: user_bytes_def ac_simps)
  with run show ?case by (simp add: pipe_at_def)
qed

lemma fold_pipe_put:
  "pipe_wf p \<Longrightarrow> length (pipe_contents p) + length bs \<le> 512 \<Longrightarrow>
   pipe_contents (fold pipe_put bs p) = pipe_contents p @ bs \<and> pipe_wf (fold pipe_put bs p)"
proof (induction bs arbitrary: p)
  case (Cons b bs)
  then have "pi_nwrite p \<noteq> pi_nread p + PIPESIZE" using pipe_full_iff [of p] by auto
  from pipe_put_contents [OF Cons.prems(1) this, of b] Cons show ?case by simp
qed simp

text \<open>
  C24: \<^verbatim>\<open>pipewrite\<close> with room: if the read end is open, the caller is not killed, its buffer is mapped and
  the \<open>n\<close> bytes fit beside those in the pipe, the call returns \<open>n\<close> without sleeping, the pipe holds the old
  bytes followed by exactly the caller's bytes, its lock is released, and readers are woken.
\<close>

theorem pipewrite_appends:
  assumes "c_proc (cpus s h) = Some pr" and "cpu_wf h s" and "proc_locks_free s" and "lock_free (LPipe a) s"
    and "pr < NPROC" and "p_killed (procs s pr) = 0" and "pi_readopen (pipes s a)" and "pipe_wf (pipes s a)"
    and "0 \<le> sint n" and "length (pipe_contents (pipes s a)) + nat (sint n) \<le> 512"
    and "pt_tree (pmem s) (p_pagetable (procs s pr)) F"
    and "user_mapped (pmem s) (p_pagetable (procs s pr)) addr (nat (sint n))"
  shows "\<exists>t. pipewrite h a addr n s = Ok (sint n) t \<and> pipe_wf (pipes t a) \<and>
    pipe_contents (pipes t a) = pipe_contents (pipes s a) @
      user_bytes (pmem s) (p_pagetable (procs s pr)) addr (nat (sint n)) \<and>
    locks t = locks s \<and> sie t = sie s \<and>
    (\<forall>i<NPROC. i \<noteq> pr \<longrightarrow> p_state (procs s i) = SLEEPING \<longrightarrow> p_chan (procs s i) = ChPipeRead a \<longrightarrow>
       p_state (procs t i) = RUNNABLE)"
proof -
  let ?bs = "user_bytes (pmem s) (p_pagetable (procs s pr)) addr (nat (sint n))"
  let ?u = "pipe_at a (fold pipe_put ?bs) s"
  have "0 < noff h (entered h (LPipe a) s)" using assms(2) by (simp add: cpu_wf_def)
  then have "pipewrite_loop h a pr addr (nat (sint n)) 0 (entered h (LPipe a) s) =
      pipewrite_end h a (nat (sint n)) (entered h (LPipe a) ?u)"
    using pipewrite_loop_room [of h "entered h (LPipe a) s" pr a "nat (sint n)" F addr 0] assms
    by (simp add: proc_locks_free_def)
  also have "\<dots> = Ok (sint n) (settle h (wake_all pr (ChPipeRead a) ?u))"
    unfolding pipewrite_end_def using assms
    by (subst wake_release) simp_all
  finally have run: "pipewrite h a addr n s = Ok (sint n) (settle h (wake_all pr (ChPipeRead a) ?u))"
    using assms by (simp add: pipewrite_def curproc_ok acquire_free)
  have "length ?bs = nat (sint n)" by (simp add: user_bytes_def)
  with fold_pipe_put [OF assms(8), of ?bs] assms(10) run show ?thesis
    by (auto simp: wake_all_def proc_all_def woken_def)
qed

lemma copyout_from:
  assumes "pt_tree m0 pt F" and "user_writable m0 pt F va (length src)" and "same_tables m0 pt F (pmem s)"
  shows "copyout h pt va src s = Ok 0 (s\<lparr>pmem := write_user m0 pt va src (pmem s)\<rparr>)"
  using copyout_ok [of "s\<lparr>pmem := m0\<rparr>" pt F va src "pmem s" h] assms by simp

lemma pipes_pmem [simp]:
  "pipes (s\<lparr>pmem := m\<rparr>) = pipes s" "pipe_at a f (s\<lparr>pmem := m\<rparr>) = (pipe_at a f s)\<lparr>pmem := m\<rparr>"
  by (simp_all add: pipe_at_def)

lemma piperead_copy_ok:
  assumes "pt_tree m0 pt F" and "pt = p_pagetable (procs s pr)" and "same_tables m0 pt F (pmem s)"
    and "k = min rem (length (pipe_contents (pipes s a)))" and "user_writable m0 pt F (addr + of_nat i) k"
  shows "piperead_copy h a pr addr rem i s = piperead_end h a (int (i + k))
    (pipe_at a (\<lambda>p. p\<lparr>pi_nread := pi_nread p + of_nat k\<rparr>)
      (s\<lparr>pmem := write_user m0 pt (addr + of_nat i) (take k (pipe_contents (pipes s a))) (pmem s)\<rparr>))"
  using assms
proof (induction rem arbitrary: i s k)
  case 0
  then show ?case by (simp add: write_user_def pipe_at_def)
next
  case (Suc rem)
  let ?p = "pipes s a"
  show ?case
  proof (cases "pi_nread ?p = pi_nwrite ?p")
    case True
    then have "pipe_contents ?p = []" by (simp add: pipe_contents_def pipe_ring.empty_iff)
    with Suc.prems True show ?thesis by (simp add: write_user_def pipe_at_def)
  next
    case False
    let ?ch = "pi_data ?p (unat (pi_nread ?p mod PIPESIZE))"
    let ?q = "?p\<lparr>pi_nread := pi_nread ?p + 1\<rparr>"
    note get = pipe_get_contents [OF False]
    obtain j where k: "k = Suc j" "j = min rem (length (pipe_contents ?q))"
      using Suc.prems(4) get by (cases k) auto
    let ?m1 = "write_user m0 pt (addr + of_nat i) [?ch] (pmem s)"
    let ?t = "pipe_at a (\<lambda>p. p\<lparr>pi_nread := pi_nread p + 1\<rparr>) (s\<lparr>pmem := ?m1\<rparr>)"
    have uw1: "user_writable m0 pt F (addr + of_nat i) (length [?ch])"
      using Suc.prems(5) k(1) by (auto simp: user_writable_def)
    have uw2: "user_writable m0 pt F (addr + of_nat (i + 1)) j"
    proof -
      have "unat (addr + of_nat i) + 1 < 2 ^ 64" using Suc.prems(5) k(1) by (simp add: user_writable_def)
      then have "unat (addr + of_nat (i + 1)) = unat (addr + of_nat i) + 1"
        using unat_plus_of_nat [of "addr + of_nat i" 1] by (simp add: ac_simps)
      moreover have "user_page m0 pt F (addr + of_nat (i + 1) + of_nat c)" if "c < j" for c
        using Suc.prems(5) k(1) that
        by (auto simp: user_writable_def ac_simps dest!: spec [of _ "Suc c"])
      ultimately show ?thesis using Suc.prems(5) k(1) by (simp add: user_writable_def)
    qed
    have "piperead_copy h a pr addr (Suc rem) i s = piperead_copy h a pr addr rem (i + 1) ?t"
      using False copyout_from [OF Suc.prems(1) uw1 Suc.prems(3), of h] Suc.prems(2) by (simp add: Let_def)
    also have "\<dots> = piperead_end h a (int (i + 1 + j))
        (pipe_at a (\<lambda>p. p\<lparr>pi_nread := pi_nread p + of_nat j\<rparr>)
          (?t\<lparr>pmem := write_user m0 pt (addr + of_nat (i + 1)) (take j (pipe_contents ?q)) ?m1\<rparr>))"
      using Suc.IH [of ?t j "i + 1"] Suc.prems(1,2) write_user_same_tables [OF Suc.prems(1) uw1 Suc.prems(3)] k(2) uw2
      by simp
    also have "write_user m0 pt (addr + of_nat (i + 1)) (take j (pipe_contents ?q)) ?m1 =
        write_user m0 pt (addr + of_nat i) (take k (pipe_contents ?p)) (pmem s)"
      using write_user_append [of m0 pt "addr + of_nat i" "[?ch]" "take j (pipe_contents ?q)" "pmem s"] get k(1)
      by (simp add: ac_simps)
    finally show ?thesis using k(1) by (simp add: pipe_at_def ac_simps)
  qed
qed

lemma pipe_drop_contents:
  "k \<le> length (pipe_contents p) \<Longrightarrow>
   pipe_contents (p\<lparr>pi_nread := pi_nread p + of_nat k\<rparr>) = drop k (pipe_contents p)"
proof (induction k arbitrary: p)
  case 0
  then show ?case by simp
next
  case (Suc k)
  then have "pipe_contents p \<noteq> []" by auto
  then have "pi_nread p \<noteq> pi_nwrite p" using pipe_ring.empty_iff by (metis pipe_contents_def)
  note get = pipe_get_contents [OF this]
  from Suc get have "pipe_contents ((p\<lparr>pi_nread := pi_nread p + 1\<rparr>)\<lparr>pi_nread := pi_nread (p\<lparr>pi_nread := pi_nread p + 1\<rparr>) + of_nat k\<rparr>) =
      drop k (pipe_contents (p\<lparr>pi_nread := pi_nread p + 1\<rparr>))"
    by (intro Suc.IH) simp
  then show ?case using get by (simp add: ac_simps)
qed

text \<open>
  C34: \<^verbatim>\<open>piperead\<close> with data (or with no writer left): it returns without sleeping the number \<open>k\<close> of bytes
  asked for or available, whichever is less (0 is end of file); the caller's buffer receives the first
  \<open>k\<close> bytes of the pipe in order, and exactly those leave the pipe; writers are woken.
\<close>

theorem piperead_delivers:
  assumes "c_proc (cpus s h) = Some pr" and "cpu_wf h s" and "proc_locks_free s" and "lock_free (LPipe a) s"
    and "pipe_contents (pipes s a) \<noteq> [] \<or> \<not> pi_writeopen (pipes s a)"
    and "k = min (nat (sint n)) (length (pipe_contents (pipes s a)))"
    and "pt_tree (pmem s) (p_pagetable (procs s pr)) F"
    and "user_writable (pmem s) (p_pagetable (procs s pr)) F addr k"
  shows "\<exists>t. piperead h a addr n s = Ok (int k) t \<and>
    pipe_contents (pipes t a) = drop k (pipe_contents (pipes s a)) \<and>
    pmem t = write_user (pmem s) (p_pagetable (procs s pr)) addr (take k (pipe_contents (pipes s a))) (pmem s) \<and>
    locks t = locks s \<and> sie t = sie s \<and>
    (\<forall>i<NPROC. i \<noteq> pr \<longrightarrow> p_state (procs s i) = SLEEPING \<longrightarrow> p_chan (procs s i) = ChPipeWrite a \<longrightarrow>
       p_state (procs t i) = RUNNABLE)"
proof -
  let ?s = "entered h (LPipe a) s" and ?pt = "p_pagetable (procs s pr)"
  let ?m = "write_user (pmem s) ?pt addr (take k (pipe_contents (pipes s a))) (pmem s)"
  let ?u = "pipe_at a (\<lambda>p. p\<lparr>pi_nread := pi_nread p + of_nat k\<rparr>) (s\<lparr>pmem := ?m\<rparr>)"
  have go: "\<not> (pi_nread (pipes s a) = pi_nwrite (pipes s a) \<and> pi_writeopen (pipes s a))"
    using assms(5) pipe_ring.empty_iff by (metis pipe_contents_def)
  have "piperead_iter h a pr addr n ?s = piperead_copy h a pr addr (nat (sint n)) 0 ?s"
    using go by (auto simp: piperead_iter_def)
  also have "\<dots> = piperead_end h a (int k) (entered h (LPipe a) ?u)"
  proof -
    have "k = min (nat (sint n)) (length (pipe_contents (pipes ?s a)))" using assms(6) by simp
    from piperead_copy_ok [OF assms(7) _ _ this, of pr addr 0 h] show ?thesis
      using assms(8) by simp
  qed
  also have "\<dots> = Ok (int k) (settle h (wake_all pr (ChPipeWrite a) ?u))"
    unfolding piperead_end_def using assms by (subst wake_release) (simp_all add: proc_locks_free_def)
  finally have run: "piperead h a addr n s = Ok (int k) (settle h (wake_all pr (ChPipeWrite a) ?u))"
    using assms by (simp add: piperead_def curproc_ok acquire_free)
  have "k \<le> length (pipe_contents (pipes s a))" using assms(6) by simp
  from pipe_drop_contents [OF this] run show ?thesis
    by (auto simp: wake_all_def proc_all_def woken_def)
qed

text \<open>Process 1 with a three-byte buffer at 0x1000, and a pipe at 0x87f00000 that holds one byte.\<close>

definition piped :: "mem \<Rightarrow> u8 list \<Rightarrow> kpipe" where
  "piped m bs =
     \<lparr>cpus = \<lambda>_. \<lparr>c_proc = Some 1, c_noff = 0, c_intena = False\<rparr>, sie = \<lambda>_. False,
      locks = \<lambda>_. \<lparr>lk_locked = False, lk_name = [], lk_cpu = None\<rparr>, uart_out = [],
      pmem = m, freelist = 0, k_end = 0x80022010,
      procs = \<lambda>_. (slot RUNNING ChNull 2)\<lparr>p_pagetable := 0x87ffd000\<rparr>, initproc = Some 0, nextpid = 4,
      ticks = 100, llm_recommended_pid = -1, llm_advice_valid = 0, llm_advice_timestamp = 0,
      k_forkret = 0x80001000, k_trampoline = 0x80007000, k_etext = 0x80008000,
      kernel_pagetable = 0, satp = \<lambda>_. 0,
      pipes = \<lambda>_. \<lparr>pi_data = \<lambda>i. bs ! i, pi_nread = 0, pi_nwrite = of_nat (length bs), pi_readopen = True,
                  pi_writeopen = True\<rparr>\<rparr>"

lemma piped_simps [simp]:
  "cpu_wf h (piped m bs)" "lock_free l (piped m bs)" "proc_locks_free (piped m bs)"
  "c_proc (cpus (piped m bs) h) = Some 1" "pmem (piped m bs) = m" "pi_readopen (pipes (piped m bs) a)"
  "p_killed (procs (piped m bs) i) = 0" "p_pagetable (procs (piped m bs) i) = 0x87ffd000"
  by (simp_all add: piped_def cpu_wf_def lock_free_def proc_locks_free_def slot_def)

lemma piped_contents: "pipe_contents (pipes (piped m [7]) a) = [7]"
  by (simp add: pipe_contents_def ring_contents_def piped_def)

theorem pipewrite_appends_witness:
  "\<exists>s t :: kpipe. pipewrite 0 0x87f00000 0x1000 3 s = Ok 3 t \<and>
     length (pipe_contents (pipes t 0x87f00000)) = 4"
proof -
  obtain v :: kvm and qs where v: "vm_inv 0 v 0x87ffd000 qs" "user_writable (pmem v) 0x87ffd000 (set qs) 0x1000 3"
    using writable_example by blast
  let ?s = "piped (pmem v) [7]"
  have "user_mapped (pmem v) 0x87ffd000 0x1000 3"
    using v(2) by (auto simp: user_mapped_def user_writable_def user_page_def Let_def)
  moreover have "pipe_wf (pipes ?s 0x87f00000)" by (simp add: pipe_wf_def piped_contents)
  ultimately have "\<exists>t. pipewrite 0 0x87f00000 0x1000 3 ?s = Ok (sint (3 :: u32)) t \<and>
      pipe_contents (pipes t 0x87f00000) = pipe_contents (pipes ?s 0x87f00000) @
        user_bytes (pmem v) 0x87ffd000 0x1000 (nat (sint (3 :: u32)))"
    using pipewrite_appends [of ?s 0 1 "0x87f00000" 3 "set qs" "0x1000"] v(1)
    by (auto simp: piped_contents vm_inv_def NPROC_def)
  then obtain t where "pipewrite 0 0x87f00000 0x1000 3 ?s = Ok 3 t"
      "length (pipe_contents (pipes t 0x87f00000)) = 4"
    by (auto simp: piped_contents user_bytes_def)
  then show ?thesis by blast
qed

theorem piperead_delivers_witness:
  "\<exists>s t :: kpipe. piperead 0 0x87f00000 0x1000 3 s = Ok 1 t \<and> pipe_contents (pipes t 0x87f00000) = []"
proof -
  obtain v :: kvm and qs where v: "vm_inv 0 v 0x87ffd000 qs" "user_writable (pmem v) 0x87ffd000 (set qs) 0x1000 3"
    using writable_example by blast
  let ?s = "piped (pmem v) [7]"
  have "user_writable (pmem v) 0x87ffd000 (set qs) 0x1000 1"
    using v(2) by (auto simp: user_writable_def dest: spec [of _ 0])
  then show ?thesis
    using piperead_delivers [of ?s 0 1 "0x87f00000" 1 3 "set qs" "0x1000"] v(1)
    by (auto simp: piped_contents vm_inv_def)
qed

end
