(* ===== verification/Sleeplock.thy ===== *)
theory Sleeplock
  imports Pipe
begin

text \<open>
  Sleep locks, \<^verbatim>\<open>kernel/sleeplock.c\<close>.  The state record gets the sleep locks of the buffer cache and of the inode
  table.  The second half of the theory is the setting of the file-system theorems: a hart that runs one
  process with no lock held anywhere (\<open>idle\<close>), in which a critical section simply takes effect.
\<close>

record sleeplock =
  sl_locked :: bool
  sl_name :: string
  sl_pid :: u32

record ksleep = kpipe +
  sleeplocks :: "sleepid \<Rightarrow> sleeplock"

definition sl_at :: "sleepid \<Rightarrow> (sleeplock \<Rightarrow> sleeplock) \<Rightarrow> 'a ksleep_scheme \<Rightarrow> 'a ksleep_scheme" where
  "sl_at k f s = s\<lparr>sleeplocks := (sleeplocks s)(k := f (sleeplocks s k))\<rparr>"

section \<open>Operations\<close>

definition initsleeplock :: "sleepid \<Rightarrow> string \<Rightarrow> 'a ksleep_scheme \<Rightarrow> 'a ksleep_scheme" where
  "initsleeplock k name s =
     sl_at k (\<lambda>l. l\<lparr>sl_name := name, sl_locked := False, sl_pid := 0\<rparr>) (initlock (LSleep k) ''sleep lock'' s)"

text \<open>\<open>acquiresleep_test\<close> is the loop from its test on, with the spinlock held; if it sleeps, it continues at
  \<open>acquiresleep_resume\<close>.\<close>

definition acquiresleep_test :: "nat \<Rightarrow> sleepid \<Rightarrow> 'a ksleep_scheme \<Rightarrow> (unit, 'a ksleep_scheme) res" where
  "acquiresleep_test h k s =
     (if sl_locked (sleeplocks s k) then sleep h (ChSleep k) (LSleep k) s
      else
        let s = sl_at k (\<lambda>l. l\<lparr>sl_locked := True\<rparr>) s
        in kbind (curproc h s) (\<lambda>p s.
           release h (LSleep k) (sl_at k (\<lambda>l. l\<lparr>sl_pid := p_pid (procs s p)\<rparr>) s)))"

definition acquiresleep :: "nat \<Rightarrow> sleepid \<Rightarrow> 'a ksleep_scheme \<Rightarrow> (unit, 'a ksleep_scheme) res" where
  "acquiresleep h k s = kbind (acquire h (LSleep k) s) (\<lambda>_ s. acquiresleep_test h k s)"

definition acquiresleep_resume :: "nat \<Rightarrow> nat \<Rightarrow> sleepid \<Rightarrow> 'a ksleep_scheme \<Rightarrow> (unit, 'a ksleep_scheme) res" where
  "acquiresleep_resume h p k s =
     kbind (sleep_resume h p (LSleep k) s) (\<lambda>_ s. acquiresleep_test h k s)"

definition releasesleep :: "nat \<Rightarrow> sleepid \<Rightarrow> 'a ksleep_scheme \<Rightarrow> (unit, 'a ksleep_scheme) res" where
  "releasesleep h k s =
     kbind (acquire h (LSleep k) s) (\<lambda>_ s.
     kbind (wakeup h (ChSleep k) (sl_at k (\<lambda>l. l\<lparr>sl_locked := False, sl_pid := 0\<rparr>) s)) (\<lambda>_ s.
     release h (LSleep k) s))"

definition holdingsleep :: "nat \<Rightarrow> sleepid \<Rightarrow> 'a ksleep_scheme \<Rightarrow> (bool, 'a ksleep_scheme) res" where
  "holdingsleep h k s =
     kbind (acquire h (LSleep k) s) (\<lambda>_ s.
     kbind (if sl_locked (sleeplocks s k)
            then kbind (curproc h s) (\<lambda>p s. Ok (sl_pid (sleeplocks s k) = p_pid (procs s p)) s)
            else Ok False s) (\<lambda>r s.
     kbind (release h (LSleep k) s) (\<lambda>_ s. Ok r s)))"

section \<open>The uncontended setting\<close>

text \<open>Channels of the file system; in an idle state nobody sleeps on one, so wakeups there change nothing.\<close>

definition fs_chan :: "chan \<Rightarrow> bool" where
  "fs_chan c \<longleftrightarrow> (case c of ChSleep _ \<Rightarrow> True | ChLog \<Rightarrow> True | _ \<Rightarrow> False)"

definition idle :: "nat \<Rightarrow> 'a kproc_scheme \<Rightarrow> bool" where
  "idle h s \<longleftrightarrow> noff h s = 0 \<and> intena h s = sie s h \<and> c_proc (cpus s h) \<noteq> None \<and> (\<forall>l. lock_free l s) \<and>
     (\<forall>i. p_state (procs s i) = SLEEPING \<longrightarrow> \<not> fs_chan (p_chan (procs s i)))"

abbreviation mypid :: "nat \<Rightarrow> 'a kproc_scheme \<Rightarrow> u32" where
  "mypid h s \<equiv> p_pid (procs s (the (c_proc (cpus s h))))"

lemma idle_settle: "idle h s \<Longrightarrow> settle h s = s"
  by (cases s) (auto simp: idle_def settle_def)

lemma idle_wf: "idle h s \<Longrightarrow> cpu_wf h s"
  by (simp add: idle_def cpu_wf_def)

lemma idle_acquire [simp]: "idle h s \<Longrightarrow> acquire h l s = Ok () (entered h l s)"
  by (simp add: idle_def acquire_free)

lemma idle_release [simp]: "idle h s \<Longrightarrow> release h l (entered h l s) = Ok () s"
  using release_entered [of h s l] by (simp add: idle_wf idle_settle) (simp add: idle_def)

lemma idle_myproc [simp]: "idle h s \<Longrightarrow> myproc h s = Ok (c_proc (cpus s h)) s"
  by (simp add: myproc_settle idle_wf idle_settle)

lemma idle_curproc [simp]: "idle h s \<Longrightarrow> curproc h s = Ok (the (c_proc (cpus s h))) s"
  by (auto simp: curproc_def idle_def)

lemma idle_curproc_entered [simp]:
  "idle h s \<Longrightarrow> curproc h (entered h l s) = Ok (the (c_proc (cpus s h))) (entered h l s)"
  using idle_wf [of h s] by (auto simp: curproc_def myproc_settle idle_def)

lemma procs_entered [simp]: "procs (entered h l s) = procs s"
  by (simp add: entered_def push_off_def Let_def intr_off_def)

lemma idle_wakeup [simp]:
  assumes "idle h s" and "fs_chan ch" and "\<forall>i. l \<noteq> LProc i"
  shows "wakeup h ch (entered h l s) = Ok () (entered h l s)"
proof -
  have "proc_locks_free (entered h l s)"
    using assms by (auto simp: proc_locks_free_def idle_def)
  then have "wakeup h ch (entered h l s) = Ok () (settle h
      (proc_all (\<lambda>i. if c_proc (cpus (entered h l s) h) = Some i then id else woken ch) (entered h l s)))"
    using idle_wf [OF assms(1)] by (intro wakeup_ok) simp_all
  moreover have "proc_all (\<lambda>i. if c_proc (cpus (entered h l s) h) = Some i then id else woken ch) (entered h l s) =
      entered h l s"
  proof -
    have "woken ch (procs s i) = procs s i" for i
      using assms(1,2) by (auto simp: woken_def idle_def)
    then have "(\<lambda>i. if i < NPROC then (if c_proc (cpus (entered h l s) h) = Some i then id else woken ch) (procs (entered h l s) i)
        else procs (entered h l s) i) = procs (entered h l s)"
      by (auto intro!: ext)
    then show ?thesis unfolding proc_all_def by simp
  qed
  ultimately show ?thesis using idle_wf [OF assms(1)] by simp
qed

named_theorems crit \<open>updates of a component and the lock state\<close>

lemma sleeplocks_crit [simp, crit]:
  "idle h (s\<lparr>sleeplocks := x\<rparr>) = idle h s"
  "(entered h l s)\<lparr>sleeplocks := x\<rparr> = entered h l (s\<lparr>sleeplocks := x\<rparr>)"
  "sleeplocks (entered h l s) = sleeplocks s"
  by (auto simp: idle_def lock_free_def entered_def push_off_def Let_def intr_off_def intr_get_def)

lemma sl_at_crit [simp]:
  "idle h (sl_at k f s) = idle h s" "sl_at k f (entered h l s) = entered h l (sl_at k f s)"
  "procs (sl_at k f s) = procs s" "cpus (sl_at k f s) = cpus s"
  "sleeplocks (sl_at k f s) = (sleeplocks s)(k := f (sleeplocks s k))"
  "sl_at k g (sl_at k f s) = sl_at k (\<lambda>l. g (f l)) s"
  by (simp_all add: sl_at_def)

lemma fs_chan_sleep [simp]: "fs_chan (ChSleep k)" "fs_chan ChLog"
  by (simp_all add: fs_chan_def)

lemma acquiresleep_ok:
  assumes "idle h s" and "\<not> sl_locked (sleeplocks s k)"
  shows "acquiresleep h k s = Ok () (sl_at k (\<lambda>l. l\<lparr>sl_locked := True, sl_pid := mypid h s\<rparr>) s)"
  using assms by (simp add: acquiresleep_def acquiresleep_test_def Let_def)

lemma releasesleep_ok:
  "idle h s \<Longrightarrow> releasesleep h k s = Ok () (sl_at k (\<lambda>l. l\<lparr>sl_locked := False, sl_pid := 0\<rparr>) s)"
  by (simp add: releasesleep_def)

lemma holdingsleep_ok:
  "idle h s \<Longrightarrow>
   holdingsleep h k s = Ok (sl_locked (sleeplocks s k) \<and> sl_pid (sleeplocks s k) = mypid h s) s"
  by (simp add: holdingsleep_def)

text \<open>
  an uncontended sleep lock: \<^verbatim>\<open>acquiresleep\<close> on a free lock returns with the caller as its holder, which is what
  \<^verbatim>\<open>holdingsleep\<close> then reports, and \<^verbatim>\<open>releasesleep\<close> frees it; no spinlock stays held and nothing else changes.
\<close>

theorem sleeplock_roundtrip:
  assumes "idle h s" and "\<not> sl_locked (sleeplocks s k)"
  shows "\<exists>t. acquiresleep h k s = Ok () t \<and> idle h t \<and> holdingsleep h k t = Ok True t \<and>
    (\<exists>u. releasesleep h k t = Ok () u \<and> idle h u \<and> holdingsleep h k u = Ok False u \<and>
         u = sl_at k (\<lambda>l. l\<lparr>sl_locked := False, sl_pid := 0\<rparr>) s)"
  using assms by (simp add: acquiresleep_ok releasesleep_ok holdingsleep_ok)

definition idle_sleep :: ksleep where
  "idle_sleep = kpipe.extend (piped (\<lambda>_. 0) [])
     \<lparr>sleeplocks = \<lambda>_. \<lparr>sl_locked = False, sl_name = [], sl_pid = 0\<rparr>\<rparr>"

lemma idle_sleep_idle: "idle 0 idle_sleep"
  by (auto simp: idle_sleep_def idle_def piped_def lock_free_def kpipe.defs fs_chan_def slot_def)

theorem sleeplock_roundtrip_witness:
  "\<exists>t. acquiresleep 0 (SBuf 3) idle_sleep = Ok () t \<and> holdingsleep 0 (SBuf 3) t = Ok True t"
  using sleeplock_roundtrip [OF idle_sleep_idle, of "SBuf 3"] by (auto simp: idle_sleep_def kpipe.defs)

end
