(* ===== verification/Block.thy ===== *)
theory Block
  imports Prelude
begin

text \<open>
  Disk blocks as byte arrays, and the little-endian fields that the file system's on-disk structures keep in
  them (\<^verbatim>\<open>struct logheader\<close>, \<^verbatim>\<open>struct dinode\<close>, \<^verbatim>\<open>struct dirent\<close>, \<^verbatim>\<open>struct superblock\<close>).  A block is \<^verbatim>\<open>BSIZE\<close> = 1024 bytes,
  indexed by a 10-bit word.
\<close>

type_synonym block = "10 word \<Rightarrow> u8"

definition BSIZE :: nat where
  "BSIZE = 1024"

definition blk_read :: "block \<Rightarrow> nat \<Rightarrow> nat \<Rightarrow> u8 list" where
  "blk_read d off n = map (\<lambda>k. d (of_nat (off + k))) [0..<n]"

definition blk_write :: "nat \<Rightarrow> u8 list \<Rightarrow> block \<Rightarrow> block" where
  "blk_write off bs d = (\<lambda>a. if off \<le> unat a \<and> unat a < off + length bs then bs ! (unat a - off) else d a)"

primrec le_bytes :: "nat \<Rightarrow> u32 \<Rightarrow> u8 list" where
  "le_bytes 0 v = []"
| "le_bytes (Suc n) v = ucast v # le_bytes n (drop_bit 8 v)"

primrec of_le :: "u8 list \<Rightarrow> u32" where
  "of_le [] = 0"
| "of_le (b # bs) = ucast b OR push_bit 8 (of_le bs)"

definition get32 :: "nat \<Rightarrow> block \<Rightarrow> u32" where
  "get32 off d = of_le (blk_read d off 4)"

definition put32 :: "nat \<Rightarrow> u32 \<Rightarrow> block \<Rightarrow> block" where
  "put32 off v d = blk_write off (le_bytes 4 v) d"

definition get16 :: "nat \<Rightarrow> block \<Rightarrow> u16" where
  "get16 off d = ucast (of_le (blk_read d off 2))"

definition put16 :: "nat \<Rightarrow> u16 \<Rightarrow> block \<Rightarrow> block" where
  "put16 off v d = blk_write off (le_bytes 2 (ucast v)) d"

lemma unat_index: "k < 1024 \<Longrightarrow> unat (of_nat k :: 10 word) = k"
  by (simp add: unat_of_nat)

lemma unat_bound10: "unat (a :: 10 word) < 1024"
  using unsigned_less [where 'a = nat and w = a] by simp

lemma blk_read_length [simp]: "length (blk_read d off n) = n"
  by (simp add: blk_read_def)

lemma blk_read_nth: "k < n \<Longrightarrow> blk_read d off n ! k = d (of_nat (off + k))"
  by (simp add: blk_read_def)

lemma blk_read_write_same:
  "off + length bs \<le> 1024 \<Longrightarrow> blk_read (blk_write off bs d) off (length bs) = bs"
proof (rule nth_equalityI)
  fix k assume k: "k < length (blk_read (blk_write off bs d) off (length bs))" and "off + length bs \<le> 1024"
  then have "off + k < 1024" by simp
  with k show "blk_read (blk_write off bs d) off (length bs) ! k = bs ! k"
    using unat_index [of "off + k"] by (simp add: blk_read_nth blk_write_def del: of_nat_add)
qed simp

lemma blk_read_write_other:
  assumes "off + length bs \<le> off' \<or> off' + n \<le> off" and "off' + n \<le> 1024"
  shows "blk_read (blk_write off bs d) off' n = blk_read d off' n"
proof (rule nth_equalityI)
  fix k assume "k < length (blk_read (blk_write off bs d) off' n)"
  then have "k < n" "off' + k < 1024" using assms by auto
  with assms show "blk_read (blk_write off bs d) off' n ! k = blk_read d off' n ! k"
    using unat_index [of "off' + k"] by (auto simp add: blk_read_nth blk_write_def simp del: of_nat_add)
qed simp

lemma le_bytes_length [simp]: "length (le_bytes n v) = n"
  by (induction n arbitrary: v) auto

lemma of_le_bytes: "of_le (le_bytes n v) = take_bit (8 * n) v"
proof (induction n arbitrary: v)
  case (Suc n)
  then have "of_le (le_bytes (Suc n) v) = ucast (ucast v :: u8) OR push_bit 8 (take_bit (8 * n) (drop_bit 8 v))"
    by simp
  also have "\<dots> = take_bit (8 * Suc n) v"
    by (rule bit_eqI) (auto simp: bit_simps)
  finally show ?case .
qed simp

lemma get_put32 [simp]: "off + 4 \<le> 1024 \<Longrightarrow> get32 off (put32 off v d) = v"
proof -
  assume "off + 4 \<le> 1024"
  then have "get32 off (put32 off v d) = take_bit 32 v"
    using blk_read_write_same [of off "le_bytes 4 v" d] of_le_bytes [of 4 v] by (simp add: get32_def put32_def)
  also have "\<dots> = v" by (rule bit_eqI) (auto simp: bit_simps)
  finally show ?thesis .
qed

lemma get_put32_other:
  "off + 4 \<le> off' \<or> off' + 4 \<le> off \<Longrightarrow> off' + 4 \<le> 1024 \<Longrightarrow> get32 off' (put32 off v d) = get32 off' d"
  by (simp add: get32_def put32_def blk_read_write_other)

lemma get_put16 [simp]: "off + 2 \<le> 1024 \<Longrightarrow> get16 off (put16 off v d) = v"
proof -
  assume "off + 2 \<le> 1024"
  then have "get16 off (put16 off v d) = ucast (take_bit 16 (ucast v :: u32))"
    using blk_read_write_same [of off "le_bytes 2 (ucast v)" d] of_le_bytes [of 2 "ucast v"]
    by (simp add: get16_def put16_def)
  also have "\<dots> = v" by (rule bit_eqI) (auto simp: bit_simps)
  finally show ?thesis .
qed

lemma get_put16_other:
  "off + 2 \<le> off' \<or> off' + 2 \<le> off \<Longrightarrow> off' + 2 \<le> 1024 \<Longrightarrow> get16 off' (put16 off v d) = get16 off' d"
  "off + 4 \<le> off' \<or> off' + 2 \<le> off \<Longrightarrow> off' + 2 \<le> 1024 \<Longrightarrow> get16 off' (put32 off w d) = get16 off' d"
  "off + 2 \<le> off'' \<or> off'' + 4 \<le> off \<Longrightarrow> off'' + 4 \<le> 1024 \<Longrightarrow> get32 off'' (put16 off v d) = get32 off'' d"
  by (simp_all add: get16_def put16_def get32_def put32_def blk_read_write_other)

lemma blk_write_blk_write: "blk_write off (as @ bs) d = blk_write (off + length as) bs (blk_write off as d)"
  by (auto simp: blk_write_def nth_append fun_eq_iff)

lemma blk_write_nil [simp]: "blk_write off [] d = d"
  by (rule ext) (auto simp: blk_write_def)

end
