(* ===== verification/Bio.thy ===== *)
theory Bio
  imports Sleeplock Block
begin

text \<open>
  The buffer cache, \<^verbatim>\<open>kernel/bio.c\<close>, over the disk.  The cache is the array of buffers with the doubly linked list
  through \<^verbatim>\<open>prev\<close> and \<^verbatim>\<open>next\<close> that orders them by last use; a pointer to a buffer is \<open>BHead\<close> (\<^verbatim>\<open>&bcache.head\<close>) or
  \<open>BBuf i\<close> (\<^verbatim>\<open>&bcache.buf[i]\<close>).  The links are proved to represent a list of all buffers, and the cache to be
  transparent: reading a block through it gives the last content written to the buffer.

  The disk with its driver is the operation
  \<open>virtio_disk_rw\<close>, which transfers one block synchronously and records every write in \<open>disk_writes\<close>, the
  sequence from which crash states are built.
\<close>

section \<open>State\<close>

datatype bref = BHead | BBuf nat

record buf =
  b_valid :: bool
  b_dev :: u32
  b_blockno :: u32
  b_refcnt :: u32
  b_data :: block

record kbio = ksleep +
  bufs :: "nat \<Rightarrow> buf"
  b_prev :: "bref \<Rightarrow> bref"
  b_next :: "bref \<Rightarrow> bref"
  disk :: "u32 \<Rightarrow> block"
  disk_writes :: "(u32 \<times> block) list"

definition buf_at :: "nat \<Rightarrow> (buf \<Rightarrow> buf) \<Rightarrow> 'a kbio_scheme \<Rightarrow> 'a kbio_scheme" where
  "buf_at i f s = s\<lparr>bufs := (bufs s)(i := f (bufs s i))\<rparr>"

definition set_prev :: "bref \<Rightarrow> bref \<Rightarrow> 'a kbio_scheme \<Rightarrow> 'a kbio_scheme" where
  "set_prev b p s = s\<lparr>b_prev := (b_prev s)(b := p)\<rparr>"

definition set_next :: "bref \<Rightarrow> bref \<Rightarrow> 'a kbio_scheme \<Rightarrow> 'a kbio_scheme" where
  "set_next b n s = s\<lparr>b_next := (b_next s)(b := n)\<rparr>"

section \<open>Operations\<close>

definition virtio_disk_rw :: "nat \<Rightarrow> bool \<Rightarrow> 'a kbio_scheme \<Rightarrow> 'a kbio_scheme" where
  "virtio_disk_rw i write s =
     (if write
      then s\<lparr>disk := (disk s)(b_blockno (bufs s i) := b_data (bufs s i)),
             disk_writes := disk_writes s @ [(b_blockno (bufs s i), b_data (bufs s i))]\<rparr>
      else buf_at i (\<lambda>b. b\<lparr>b_data := disk s (b_blockno b)\<rparr>) s)"

text \<open>The four assignments that put a buffer at the front of the list.\<close>

definition link_front :: "nat \<Rightarrow> 'a kbio_scheme \<Rightarrow> 'a kbio_scheme" where
  "link_front i s =
     (let s = set_next (BBuf i) (b_next s BHead) s;
          s = set_prev (BBuf i) BHead s;
          s = set_prev (b_next s BHead) (BBuf i) s
      in set_next BHead (BBuf i) s)"

definition binit_one :: "nat \<Rightarrow> 'a kbio_scheme \<Rightarrow> 'a kbio_scheme" where
  "binit_one i s =
     (let s = set_next (BBuf i) (b_next s BHead) s;
          s = set_prev (BBuf i) BHead s;
          s = initsleeplock (SBuf i) ''buffer'' s;
          s = set_prev (b_next s BHead) (BBuf i) s
      in set_next BHead (BBuf i) s)"

definition binit :: "'a kbio_scheme \<Rightarrow> 'a kbio_scheme" where
  "binit s =
     (let s = initlock LBcache ''bcache'' s;
          s = set_prev BHead BHead s;
          s = set_next BHead BHead s
      in fold binit_one [0..<NBUF] s)"

text \<open>A walk along the list, from a buffer on, until \<open>P\<close> holds or the head is reached.  The list links the
  \<^verbatim>\<open>NBUF\<close> buffers, so that many steps are enough.\<close>

primrec blist_find :: "nat \<Rightarrow> (bref \<Rightarrow> bref) \<Rightarrow> (nat \<Rightarrow> bool) \<Rightarrow> bref \<Rightarrow> nat option" where
  "blist_find 0 nxt P b = None"
| "blist_find (Suc n) nxt P b =
     (case b of BHead \<Rightarrow> None | BBuf i \<Rightarrow> if P i then Some i else blist_find n nxt P (nxt b))"

definition bget :: "nat \<Rightarrow> u32 \<Rightarrow> u32 \<Rightarrow> 'a kbio_scheme \<Rightarrow> (nat, 'a kbio_scheme) res" where
  "bget h dev blockno s =
     kbind (acquire h LBcache s) (\<lambda>_ s.
     case blist_find NBUF (b_next s) (\<lambda>i. b_dev (bufs s i) = dev \<and> b_blockno (bufs s i) = blockno) (b_next s BHead) of
       Some i \<Rightarrow>
         kbind (release h LBcache (buf_at i (\<lambda>b. b\<lparr>b_refcnt := b_refcnt b + 1\<rparr>) s)) (\<lambda>_ s.
         kbind (acquiresleep h (SBuf i) s) (\<lambda>_ s. Ok i s))
     | None \<Rightarrow>
         (case blist_find NBUF (b_prev s) (\<lambda>i. b_refcnt (bufs s i) = 0) (b_prev s BHead) of
            Some i \<Rightarrow>
              kbind (release h LBcache (buf_at i
                (\<lambda>b. b\<lparr>b_dev := dev, b_blockno := blockno, b_valid := False, b_refcnt := 1\<rparr>) s)) (\<lambda>_ s.
              kbind (acquiresleep h (SBuf i) s) (\<lambda>_ s. Ok i s))
          | None \<Rightarrow> Panic ''bget: no buffers''))"

definition bread :: "nat \<Rightarrow> u32 \<Rightarrow> u32 \<Rightarrow> 'a kbio_scheme \<Rightarrow> (nat, 'a kbio_scheme) res" where
  "bread h dev blockno s =
     kbind (bget h dev blockno s) (\<lambda>i s.
     if \<not> b_valid (bufs s i) then Ok i (buf_at i (\<lambda>b. b\<lparr>b_valid := True\<rparr>) (virtio_disk_rw i False s))
     else Ok i s)"

definition bwrite :: "nat \<Rightarrow> nat \<Rightarrow> 'a kbio_scheme \<Rightarrow> (unit, 'a kbio_scheme) res" where
  "bwrite h i s =
     kbind (holdingsleep h (SBuf i) s) (\<lambda>held s.
     if \<not> held then Panic ''bwrite'' else Ok () (virtio_disk_rw i True s))"

definition unlink :: "nat \<Rightarrow> 'a kbio_scheme \<Rightarrow> 'a kbio_scheme" where
  "unlink i s =
     (let s = set_prev (b_next s (BBuf i)) (b_prev s (BBuf i)) s
      in set_next (b_prev s (BBuf i)) (b_next s (BBuf i)) s)"

definition brelse :: "nat \<Rightarrow> nat \<Rightarrow> 'a kbio_scheme \<Rightarrow> (unit, 'a kbio_scheme) res" where
  "brelse h i s =
     kbind (holdingsleep h (SBuf i) s) (\<lambda>held s.
     if \<not> held then Panic ''brelse''
     else
       kbind (releasesleep h (SBuf i) s) (\<lambda>_ s.
       kbind (acquire h LBcache s) (\<lambda>_ s.
       let s = buf_at i (\<lambda>b. b\<lparr>b_refcnt := b_refcnt b - 1\<rparr>) s;
           s = (if b_refcnt (bufs s i) = 0 then link_front i (unlink i s) else s)
       in release h LBcache s)))"

definition bpin :: "nat \<Rightarrow> nat \<Rightarrow> 'a kbio_scheme \<Rightarrow> (unit, 'a kbio_scheme) res" where
  "bpin h i s =
     kbind (acquire h LBcache s) (\<lambda>_ s.
     release h LBcache (buf_at i (\<lambda>b. b\<lparr>b_refcnt := b_refcnt b + 1\<rparr>) s))"

definition bunpin :: "nat \<Rightarrow> nat \<Rightarrow> 'a kbio_scheme \<Rightarrow> (unit, 'a kbio_scheme) res" where
  "bunpin h i s =
     kbind (acquire h LBcache s) (\<lambda>_ s.
     release h LBcache (buf_at i (\<lambda>b. b\<lparr>b_refcnt := b_refcnt b - 1\<rparr>) s))"

section \<open>The linked list\<close>

text \<open>\<open>chain nxt prv a zs b\<close>: from \<open>a\<close>, the nodes \<open>zs\<close> and then \<open>b\<close> are doubly linked.\<close>

primrec chain :: "(bref \<Rightarrow> bref) \<Rightarrow> (bref \<Rightarrow> bref) \<Rightarrow> bref \<Rightarrow> bref list \<Rightarrow> bref \<Rightarrow> bool" where
  "chain nxt prv a [] b \<longleftrightarrow> nxt a = b \<and> prv b = a"
| "chain nxt prv a (z # zs) b \<longleftrightarrow> nxt a = z \<and> prv z = a \<and> chain nxt prv z zs b"

definition blist :: "(bref \<Rightarrow> bref) \<Rightarrow> (bref \<Rightarrow> bref) \<Rightarrow> nat list \<Rightarrow> bool" where
  "blist nxt prv xs \<longleftrightarrow> chain nxt prv BHead (map BBuf xs) BHead \<and> distinct xs"

lemma BBuf_image [simp]: "BBuf i \<in> BBuf ` A \<longleftrightarrow> i \<in> A" "BHead \<notin> BBuf ` A"
  by auto

lemma chain_append: "chain nxt prv a (xs @ z # ys) b \<longleftrightarrow> chain nxt prv a xs z \<and> chain nxt prv z ys b"
  by (induction xs arbitrary: a) auto

lemma chain_upd:
  "x \<notin> set (a # zs) \<Longrightarrow> chain (nxt(x := v)) prv a zs b = chain nxt prv a zs b"
  "y \<notin> set (zs @ [b]) \<Longrightarrow> chain nxt (prv(y := w)) a zs b = chain nxt prv a zs b"
  by (induction zs arbitrary: a) auto

text \<open>Seen from the other side: the same list backwards.\<close>

lemma chain_rev: "chain nxt prv a zs b \<longleftrightarrow> chain prv nxt b (rev zs) a"
proof (induction zs arbitrary: a)
  case (Cons z zs)
  then show ?case by (auto simp: chain_append)
qed auto

lemma chain_ends:
  "chain nxt prv a zs b \<Longrightarrow> nxt a = hd (zs @ [b]) \<and> prv b = last (a # zs)"
  by (induction zs arbitrary: a) (auto split: if_splits)

lemma chain_link:
  assumes "chain nxt prv a xs c" and "chain nxt prv d ys b"
    and "last (a # xs) \<notin> set (d # ys)" and "hd (ys @ [b]) \<notin> set (xs @ [c])"
    and "distinct (a # xs)" and "distinct (ys @ [b])"
  shows "chain (nxt(last (a # xs) := hd (ys @ [b]))) (prv(hd (ys @ [b]) := last (a # xs))) a (xs @ ys) b"
proof (cases xs rule: rev_cases)
  case Nil
  show ?thesis
  proof (cases ys)
    case Nil
    with \<open>xs = []\<close> show ?thesis by simp
  next
    case (Cons y ys')
    then have "chain nxt prv y ys' b" using assms(2) by simp
    moreover have "a \<notin> set (y # ys')" using assms(3) \<open>xs = []\<close> Cons by auto
    moreover have "y \<notin> set (ys' @ [b])" using assms(6) Cons by auto
    ultimately show ?thesis using \<open>xs = []\<close> Cons by (simp add: chain_upd)
  qed
next
  case (snoc us p)
  then have l: "chain nxt prv a us p" using assms(1) by (simp add: chain_append)
  have p: "p \<notin> set (a # us)" using assms(5) snoc by auto
  show ?thesis
  proof (cases ys)
    case Nil
    have "b \<notin> set (us @ [p])" using assms(4) Nil snoc by auto
    then show ?thesis using snoc Nil l p by (simp add: chain_append chain_upd)
  next
    case (Cons y ys')
    then have r: "chain nxt prv y ys' b" using assms(2) by simp
    have "p \<notin> set (y # ys')" and "y \<notin> set (us @ [p])" and "y \<notin> set (ys' @ [b])"
      using assms(3,4,6) snoc Cons by auto
    then show ?thesis using snoc Cons l r p by (simp add: chain_append chain_upd)
  qed
qed

lemma blist_unlink:
  assumes "blist nxt prv (us @ i # vs)"
  shows "blist (nxt(prv (BBuf i) := nxt (BBuf i))) (prv(nxt (BBuf i) := prv (BBuf i))) (us @ vs)"
proof -
  let ?u = "map BBuf us" and ?v = "map BBuf vs"
  from assms have l: "chain nxt prv BHead ?u (BBuf i)" and r: "chain nxt prv (BBuf i) ?v BHead"
    and d: "distinct (us @ i # vs)" by (auto simp: blist_def chain_append)
  have ends: "prv (BBuf i) = last (BHead # ?u)" "nxt (BBuf i) = hd (?v @ [BHead])"
    using chain_ends [OF l] chain_ends [OF r] by auto
  have p: "last (BHead # ?u) \<notin> set (BBuf i # ?v)" using d by (cases us rule: rev_cases) auto
  have n: "hd (?v @ [BHead]) \<notin> set (?u @ [BBuf i])" using d by (cases vs) auto
  have du: "distinct (BHead # ?u)" "distinct (?v @ [BHead])"
    using d by (auto simp: distinct_map inj_on_def)
  from chain_link [OF l r p n du] d show ?thesis by (simp add: blist_def ends)
qed

lemma blist_front:
  assumes "blist nxt prv xs" and "i \<notin> set xs"
  shows "blist (nxt(BBuf i := nxt BHead, BHead := BBuf i)) (prv(BBuf i := BHead, nxt BHead := BBuf i)) (i # xs)"
proof (cases xs)
  case Nil
  then show ?thesis using assms by (simp add: blist_def)
next
  case (Cons x ys)
  with assms have c: "chain nxt prv (BBuf x) (map BBuf ys) BHead" and n: "nxt BHead = BBuf x"
    by (auto simp: blist_def)
  have "chain (nxt(BBuf i := BBuf x, BHead := BBuf i)) (prv(BBuf i := BHead, BBuf x := BBuf i)) (BBuf x) (map BBuf ys) BHead"
    using c assms Cons by (auto simp: chain_upd blist_def)
  with n Cons assms show ?thesis by (auto simp: blist_def)
qed

text \<open>A walk along a chain finds the first element that satisfies the test.\<close>

lemma blist_find_chain:
  "chain nxt prv a (map BBuf xs) BHead \<Longrightarrow> length xs \<le> n \<Longrightarrow> blist_find n nxt P (nxt a) = find P xs"
proof (induction xs arbitrary: a n)
  case Nil
  then show ?case by (cases n) auto
next
  case (Cons x xs)
  then show ?case by (cases n) auto
qed

lemma blist_find_next: "blist nxt prv xs \<Longrightarrow> length xs \<le> n \<Longrightarrow> blist_find n nxt P (nxt BHead) = find P xs"
  unfolding blist_def using blist_find_chain [of nxt prv BHead xs n P] by blast

lemma blist_find_prev:
  "blist nxt prv xs \<Longrightarrow> length xs \<le> n \<Longrightarrow> blist_find n prv P (prv BHead) = find P (rev xs)"
  using chain_rev [of nxt prv BHead "map BBuf xs" BHead] blist_find_chain [of prv nxt BHead "rev xs" n P]
  by (simp add: blist_def rev_map)

section \<open>The cache invariant\<close>

text \<open>\<open>lru s xs\<close>: the list of buffers, most recently used first, is \<open>xs\<close>.\<close>

definition lru :: "'a kbio_scheme \<Rightarrow> nat list \<Rightarrow> bool" where
  "lru s xs \<longleftrightarrow> blist (b_next s) (b_prev s) xs \<and> set xs = {..<NBUF}"

lemma lru_length: "lru s xs \<Longrightarrow> length xs = NBUF"
  unfolding lru_def blist_def by (metis card_lessThan distinct_card)

lemma lru_move_front:
  assumes "lru s xs" and "i < NBUF"
  shows "lru (link_front i (unlink i s)) (i # remove1 i xs)"
proof -
  obtain us vs where xs: "xs = us @ i # vs" "i \<notin> set us"
    using assms split_list_first [of i xs] by (auto simp: lru_def)
  with assms(1) have b: "blist (b_next s) (b_prev s) (us @ i # vs)" and d: "distinct (us @ i # vs)"
    by (auto simp: lru_def blist_def)
  have ne: "b_next s (BBuf i) \<noteq> BBuf i"
  proof -
    have "b_next s (BBuf i) = hd (map BBuf vs @ [BHead])"
      using b chain_ends [of "b_next s" "b_prev s" "BBuf i" "map BBuf vs" BHead]
      by (simp add: blist_def chain_append)
    then show ?thesis using d by (cases vs) auto
  qed
  let ?n = "(b_next s)(b_prev s (BBuf i) := b_next s (BBuf i))"
  let ?p = "(b_prev s)(b_next s (BBuf i) := b_prev s (BBuf i))"
  have u: "b_next (unlink i s) = ?n" "b_prev (unlink i s) = ?p"
    using ne by (simp_all add: unlink_def set_prev_def set_next_def Let_def)
  from blist_unlink [OF b] have "blist ?n ?p (us @ vs)" .
  from blist_front [OF this, of i] d
  have "blist (?n(BBuf i := ?n BHead, BHead := BBuf i)) (?p(BBuf i := BHead, ?n BHead := BBuf i)) (i # us @ vs)"
    by auto
  moreover have "b_next (link_front i (unlink i s)) = ?n(BBuf i := ?n BHead, BHead := BBuf i)"
    and "b_prev (link_front i (unlink i s)) = ?p(BBuf i := BHead, ?n BHead := BBuf i)"
    unfolding link_front_def u [symmetric] by (simp_all add: set_prev_def set_next_def Let_def)
  ultimately show ?thesis
    using assms(1) xs d by (auto simp: lru_def remove1_append)
qed

section \<open>Updates of the cache and the lock state\<close>

lemma bufs_crit [simp, crit]:
  "idle h (s\<lparr>bufs := x\<rparr>) = idle h s" "(entered h l s)\<lparr>bufs := x\<rparr> = entered h l (s\<lparr>bufs := x\<rparr>)"
  "bufs (entered h l s) = bufs s"
  by (auto simp: idle_def lock_free_def entered_def push_off_def Let_def intr_off_def intr_get_def)

lemma b_next_crit [simp, crit]:
  "idle h (s\<lparr>b_next := x\<rparr>) = idle h s" "(entered h l s)\<lparr>b_next := x\<rparr> = entered h l (s\<lparr>b_next := x\<rparr>)"
  "b_next (entered h l s) = b_next s"
  by (auto simp: idle_def lock_free_def entered_def push_off_def Let_def intr_off_def intr_get_def)

lemma b_prev_crit [simp, crit]:
  "idle h (s\<lparr>b_prev := x\<rparr>) = idle h s" "(entered h l s)\<lparr>b_prev := x\<rparr> = entered h l (s\<lparr>b_prev := x\<rparr>)"
  "b_prev (entered h l s) = b_prev s"
  by (auto simp: idle_def lock_free_def entered_def push_off_def Let_def intr_off_def intr_get_def)

lemma disk_crit [simp, crit]:
  "idle h (s\<lparr>disk := x\<rparr>) = idle h s" "idle h (s\<lparr>disk_writes := y\<rparr>) = idle h s"
  by (auto simp: idle_def lock_free_def)

lemma buf_at_simps [simp]:
  "idle h (buf_at i f s) = idle h s" "buf_at i f (entered h l s) = entered h l (buf_at i f s)"
  "bufs (buf_at i f s) = (bufs s)(i := f (bufs s i))" "sleeplocks (buf_at i f s) = sleeplocks s"
  "procs (buf_at i f s) = procs s" "cpus (buf_at i f s) = cpus s" "disk (buf_at i f s) = disk s"
  "disk_writes (buf_at i f s) = disk_writes s" "b_next (buf_at i f s) = b_next s" "b_prev (buf_at i f s) = b_prev s"
  "buf_at i g (buf_at i f s) = buf_at i (\<lambda>b. g (f b)) s"
  by (simp_all add: buf_at_def)

lemma sl_at_bio [simp]:
  "bufs (sl_at k f s) = bufs s" "b_next (sl_at k f s) = b_next s" "b_prev (sl_at k f s) = b_prev s"
  "disk (sl_at k f s) = disk s" "disk_writes (sl_at k f s) = disk_writes s"
  by (simp_all add: sl_at_def)

lemma front_simps [simp]:
  "idle h (link_front i (unlink i s)) = idle h s"
  "link_front i (unlink i (entered h l s)) = entered h l (link_front i (unlink i s))"
  "bufs (link_front i (unlink i s)) = bufs s" "sleeplocks (link_front i (unlink i s)) = sleeplocks s"
  "procs (link_front i (unlink i s)) = procs s" "cpus (link_front i (unlink i s)) = cpus s"
  "disk (link_front i (unlink i s)) = disk s" "disk_writes (link_front i (unlink i s)) = disk_writes s"
  by (simp_all add: link_front_def unlink_def set_prev_def set_next_def Let_def)

text \<open>\<open>cache_frame s t\<close>: \<open>t\<close> differs from \<open>s\<close> at most in the cache and the disk.\<close>

definition cache_frame :: "'a kbio_scheme \<Rightarrow> 'a kbio_scheme \<Rightarrow> bool" where
  "cache_frame s t \<longleftrightarrow>
     t\<lparr>sleeplocks := sleeplocks s, bufs := bufs s, b_prev := b_prev s, b_next := b_next s,
       disk := disk s, disk_writes := disk_writes s\<rparr> = s \<and>
     (\<forall>k. (\<forall>i. k \<noteq> SBuf i) \<longrightarrow> sleeplocks t k = sleeplocks s k)"

lemma cache_frame_refl [simp]: "cache_frame s s"
  by (simp add: cache_frame_def)

lemma cache_frame_trans: "cache_frame s t \<Longrightarrow> cache_frame t u \<Longrightarrow> cache_frame s u"
proof -
  assume st: "cache_frame s t" and tu: "cache_frame t u"
  let ?f = "\<lambda>t s. t\<lparr>sleeplocks := sleeplocks s, bufs := bufs s, b_prev := b_prev s, b_next := b_next s,
       disk := disk s, disk_writes := disk_writes s\<rparr>"
  have "?f u s = ?f (?f u t) s" by simp
  also have "\<dots> = s" using st tu by (simp add: cache_frame_def)
  finally show ?thesis using st tu by (simp add: cache_frame_def)
qed

lemma cache_frame_eqs:
  assumes "cache_frame s t"
  shows "idle h t = idle h s" "cpus t = cpus s" "procs t = procs s" "kbio.more t = kbio.more s"
    "uart_out t = uart_out s" "pmem t = pmem s" "\<forall>i. sleeplocks t (SInode i) = sleeplocks s (SInode i)"
proof -
  let ?t = "t\<lparr>sleeplocks := sleeplocks s, bufs := bufs s, b_prev := b_prev s, b_next := b_next s,
       disk := disk s, disk_writes := disk_writes s\<rparr>"
  have eq: "?t = s" using assms by (simp add: cache_frame_def)
  have "idle h ?t = idle h t" "cpus ?t = cpus t" "procs ?t = procs t" "kbio.more ?t = kbio.more t"
    "uart_out ?t = uart_out t" "pmem ?t = pmem t" by simp_all
  with eq show "idle h t = idle h s" "cpus t = cpus s" "procs t = procs s" "kbio.more t = kbio.more s"
    "uart_out t = uart_out s" "pmem t = pmem s" by simp_all
  show "\<forall>i. sleeplocks t (SInode i) = sleeplocks s (SInode i)" using assms by (simp add: cache_frame_def)
qed

lemma cache_frame_steps [simp]:
  "cache_frame s (buf_at i f t) = cache_frame s t" "cache_frame s (sl_at (SBuf i) g t) = cache_frame s t"
  "cache_frame s (link_front i (unlink i t)) = cache_frame s t"
  "cache_frame s (t\<lparr>disk := x\<rparr>) = cache_frame s t" "cache_frame s (t\<lparr>disk_writes := y\<rparr>) = cache_frame s t"
  by (auto simp: cache_frame_def buf_at_def sl_at_def link_front_def unlink_def set_prev_def set_next_def Let_def)

section \<open>The invariant\<close>

definition is_block :: "u32 \<Rightarrow> buf \<Rightarrow> bool" where
  "is_block bno b \<longleftrightarrow> b_dev b = ROOTDEV \<and> b_blockno b = bno"

definition cached :: "'a kbio_scheme \<Rightarrow> u32 \<Rightarrow> nat option" where
  "cached s bno = find (\<lambda>i. is_block bno (bufs s i)) [0..<NBUF]"

definition view :: "'a kbio_scheme \<Rightarrow> u32 \<Rightarrow> block" where
  "view s bno =
     (case cached s bno of None \<Rightarrow> disk s bno
      | Some i \<Rightarrow> if b_valid (bufs s i) then b_data (bufs s i) else disk s bno)"

definition pinned :: "u32 set \<Rightarrow> buf \<Rightarrow> bool" where
  "pinned P b \<longleftrightarrow> b_dev b = ROOTDEV \<and> b_blockno b \<in> P"

definition buf_ok :: "u32 set \<Rightarrow> bool \<Rightarrow> (u32 \<Rightarrow> block) \<Rightarrow> buf \<Rightarrow> bool" where
  "buf_ok P locked d b \<longleftrightarrow>
     b_refcnt b = (if locked then 1 else 0) + (if pinned P b then 1 else 0) \<and>
     (if b_refcnt b \<noteq> 0 then b_valid b \<and> b_dev b = ROOTDEV
      else b_valid b \<and> b_dev b = ROOTDEV \<longrightarrow> b_data b = d (b_blockno b))"

definition bio_inv :: "u32 set \<Rightarrow> 'a kbio_scheme \<Rightarrow> bool" where
  "bio_inv P s \<longleftrightarrow> (\<exists>xs. lru s xs) \<and>
     (\<forall>i<NBUF. \<forall>j<NBUF. \<forall>b. is_block b (bufs s i) \<longrightarrow> is_block b (bufs s j) \<longrightarrow> i = j) \<and>
     (\<forall>i<NBUF. buf_ok P (sl_locked (sleeplocks s (SBuf i))) (disk s) (bufs s i)) \<and>
     (\<forall>b\<in>P. \<exists>i<NBUF. is_block b (bufs s i))"

definition holds :: "nat \<Rightarrow> 'a kbio_scheme \<Rightarrow> nat \<Rightarrow> u32 \<Rightarrow> bool" where
  "holds h s i bno \<longleftrightarrow> i < NBUF \<and> is_block bno (bufs s i) \<and> b_valid (bufs s i) \<and>
     sl_locked (sleeplocks s (SBuf i)) \<and> sl_pid (sleeplocks s (SBuf i)) = mypid h s"

definition held :: "'a kbio_scheme \<Rightarrow> u32 set" where
  "held s = {b. \<exists>i<NBUF. is_block b (bufs s i) \<and> sl_locked (sleeplocks s (SBuf i))}"

lemma cached_Some: "cached s bno = Some i \<Longrightarrow> i < NBUF \<and> is_block bno (bufs s i)"
  by (auto simp: cached_def find_Some_iff)

lemma cached_None: "cached s bno = None \<longleftrightarrow> (\<forall>i<NBUF. \<not> is_block bno (bufs s i))"
  by (auto simp: cached_def find_None_iff)

lemma bio_uniq:
  "bio_inv P s \<Longrightarrow> is_block b (bufs s i) \<Longrightarrow> is_block b (bufs s j) \<Longrightarrow> i < NBUF \<Longrightarrow> j < NBUF \<Longrightarrow> i = j"
  by (simp add: bio_inv_def)

lemma bio_buf: "bio_inv P s \<Longrightarrow> i < NBUF \<Longrightarrow> buf_ok P (sl_locked (sleeplocks s (SBuf i))) (disk s) (bufs s i)"
  by (simp add: bio_inv_def)

lemma buf_ok_refcnt: "buf_ok P locked d b \<Longrightarrow> b_refcnt b = (if locked then 1 else 0) + (if pinned P b then 1 else 0)"
  by (simp add: buf_ok_def)

lemma buf_ok_data: "buf_ok P True d b \<Longrightarrow> buf_ok P True d (b\<lparr>b_data := x\<rparr>)"
  by (cases "pinned P b") (simp_all add: buf_ok_def pinned_def)

lemma bio_pins: "bio_inv P s \<Longrightarrow> b \<in> P \<Longrightarrow> \<exists>i<NBUF. is_block b (bufs s i)"
  by (simp add: bio_inv_def)

lemma cached_eq:
  assumes "bio_inv P s" and "i < NBUF" and "is_block bno (bufs s i)"
  shows "cached s bno = Some i"
proof (cases "cached s bno")
  case None
  with assms show ?thesis by (auto simp: cached_None)
next
  case (Some j)
  with cached_Some [OF Some] assms show ?thesis by (auto simp: bio_inv_def)
qed

lemma view_held: "bio_inv P s \<Longrightarrow> i < NBUF \<Longrightarrow> is_block bno (bufs s i) \<Longrightarrow> b_valid (bufs s i) \<Longrightarrow> view s bno = b_data (bufs s i)"
  by (simp add: view_def cached_eq)

lemma view_holds: "bio_inv P s \<Longrightarrow> holds h s i bno \<Longrightarrow> view s bno = b_data (bufs s i)"
  unfolding holds_def by (rule view_held) auto

lemma find_lru:
  assumes "lru s xs"
  shows "find P xs = None \<longleftrightarrow> (\<forall>i<NBUF. \<not> P i)" and "find P xs = Some i \<Longrightarrow> i < NBUF \<and> P i"
    and "find P (rev xs) = None \<longleftrightarrow> (\<forall>i<NBUF. \<not> P i)" and "find P (rev xs) = Some i \<Longrightarrow> i < NBUF \<and> P i"
proof -
  have "i \<in> set xs \<longleftrightarrow> i < NBUF" for i using assms by (auto simp: lru_def)
  then show "find P xs = None \<longleftrightarrow> (\<forall>i<NBUF. \<not> P i)" "find P (rev xs) = None \<longleftrightarrow> (\<forall>i<NBUF. \<not> P i)"
    by (auto simp: find_None_iff)
  have "find P ys = Some i \<Longrightarrow> i \<in> set ys \<and> P i" for ys by (auto simp: find_Some_iff)
  with \<open>\<And>i. i \<in> set xs \<longleftrightarrow> i < NBUF\<close>
  show "find P xs = Some i \<Longrightarrow> i < NBUF \<and> P i" "find P (rev xs) = Some i \<Longrightarrow> i < NBUF \<and> P i"
    by (metis set_rev)+
qed

text \<open>A buffer is free as long as fewer than \<^verbatim>\<open>NBUF\<close> blocks are in use.\<close>

lemma spare_buffer:
  assumes "bio_inv P s" and "card (held s \<union> P) < NBUF" and "finite P"
  shows "\<exists>i<NBUF. b_refcnt (bufs s i) = 0"
proof (rule ccontr)
  assume "\<not> ?thesis"
  then have all: "\<forall>i<NBUF. b_refcnt (bufs s i) \<noteq> 0" by auto
  have use: "is_block (b_blockno (bufs s i)) (bufs s i) \<and> b_blockno (bufs s i) \<in> held s \<union> P" if "i < NBUF" for i
  proof -
    have "buf_ok P (sl_locked (sleeplocks s (SBuf i))) (disk s) (bufs s i)" using assms(1) that by (simp add: bio_inv_def)
    with all that show ?thesis by (auto simp: buf_ok_def is_block_def held_def pinned_def split: if_splits)
  qed
  have inj: "inj_on (\<lambda>i. b_blockno (bufs s i)) {..<NBUF}"
  proof (rule inj_onI)
    fix i j assume "i \<in> {..<NBUF}" "j \<in> {..<NBUF}" and eq: "b_blockno (bufs s i) = b_blockno (bufs s j)"
    then have "i < NBUF" "j < NBUF" by auto
    with use [of i] use [of j] eq assms(1) show "i = j" unfolding bio_inv_def by metis
  qed
  have "held s \<subseteq> (\<lambda>i. b_blockno (bufs s i)) ` {..<NBUF}" by (auto simp: held_def is_block_def)
  then have "finite (held s \<union> P)" using assms(3) finite_subset by auto
  moreover have "(\<lambda>i. b_blockno (bufs s i)) ` {..<NBUF} \<subseteq> held s \<union> P" using use by auto
  ultimately have "card {..<NBUF} \<le> card (held s \<union> P)" using inj by (metis card_image card_mono)
  then show False using assms(2) by simp
qed

definition got :: "u32 set \<Rightarrow> nat \<Rightarrow> u32 \<Rightarrow> nat \<Rightarrow> 'a kbio_scheme \<Rightarrow> 'a kbio_scheme" where
  "got P h bno i s =
     sl_at (SBuf i) (\<lambda>l. l\<lparr>sl_locked := True, sl_pid := mypid h s\<rparr>)
       (buf_at i (\<lambda>_. \<lparr>b_valid = True, b_dev = ROOTDEV, b_blockno = bno,
          b_refcnt = 1 + (if bno \<in> P then 1 else 0), b_data = view s bno\<rparr>) s)"

lemma lru_cong: "b_next t = b_next s \<Longrightarrow> b_prev t = b_prev s \<Longrightarrow> lru t xs = lru s xs"
  by (simp add: lru_def)

lemma got_spec:
  assumes "bio_inv P s" and "i < NBUF" and "\<not> sl_locked (sleeplocks s (SBuf i))"
    and "is_block bno (bufs s i) \<or> (cached s bno = None \<and> b_refcnt (bufs s i) = 0 \<and> bno \<notin> P)"
  shows "bio_inv P (got P h bno i s)" and "view (got P h bno i s) = view s"
    and "held (got P h bno i s) = insert bno (held s)" and "holds h (got P h bno i s) i bno"
    and "holds h s j b \<Longrightarrow> holds h (got P h bno i s) j b" and "cache_frame s (got P h bno i s)"
    and "disk (got P h bno i s) = disk s" and "disk_writes (got P h bno i s) = disk_writes s"
proof -
  let ?t = "got P h bno i s"
  have bt: "bufs ?t = (bufs s)(i := \<lparr>b_valid = True, b_dev = ROOTDEV, b_blockno = bno,
      b_refcnt = 1 + (if bno \<in> P then 1 else 0), b_data = view s bno\<rparr>)"
    and st: "sleeplocks ?t = (sleeplocks s)(SBuf i := (sleeplocks s (SBuf i))\<lparr>sl_locked := True, sl_pid := mypid h s\<rparr>)"
    and mp: "mypid h ?t = mypid h s"
    by (simp_all add: got_def)
  show d: "disk ?t = disk s" "disk_writes ?t = disk_writes s" by (simp_all add: got_def)
  show fr: "cache_frame s ?t" by (simp add: got_def)
  have other: "\<not> is_block bno (bufs s j)" if "j < NBUF" "j \<noteq> i" for j
    using assms(4) bio_uniq [OF assms(1) _ _ that(1) assms(2)] that by (auto simp: cached_None)
  have gone: "b_blockno (bufs s i) \<notin> P" if "\<not> is_block bno (bufs s i)" "b_dev (bufs s i) = ROOTDEV"
  proof -
    from that assms(4) have "b_refcnt (bufs s i) = 0" by simp
    with bio_buf [OF assms(1,2)] assms(3) that(2) show ?thesis by (auto simp: buf_ok_def pinned_def)
  qed
  show hd: "holds h ?t i bno" using assms(2) by (simp add: holds_def bt st is_block_def got_def)
  show "holds h s j b \<Longrightarrow> holds h ?t j b"
    using assms(3) by (cases "j = i") (auto simp: holds_def bt st mp)
  show inv: "bio_inv P ?t"
    unfolding bio_inv_def
  proof (intro conjI)
    show "\<exists>xs. lru ?t xs" using assms(1) lru_cong [of ?t s] by (auto simp: bio_inv_def got_def)
    show "\<forall>k<NBUF. \<forall>j<NBUF. \<forall>b. is_block b (bufs ?t k) \<longrightarrow> is_block b (bufs ?t j) \<longrightarrow> k = j"
    proof (intro allI impI)
      fix k j b assume "k < NBUF" "j < NBUF" "is_block b (bufs ?t k)" "is_block b (bufs ?t j)"
      with other [of k] other [of j] bio_uniq [OF assms(1), of b k j] show "k = j"
        by (cases "k = i"; cases "j = i") (auto simp: got_def is_block_def)
    qed
    show "\<forall>j<NBUF. buf_ok P (sl_locked (sleeplocks ?t (SBuf j))) (disk ?t) (bufs ?t j)"
      using bio_buf [OF assms(1)] by (simp add: bt st d) (simp add: buf_ok_def pinned_def)
    show "\<forall>b\<in>P. \<exists>k<NBUF. is_block b (bufs ?t k)"
    proof
      fix b assume b: "b \<in> P"
      then obtain k where k: "k < NBUF" "is_block b (bufs s k)" using bio_pins [OF assms(1)] by auto
      show "\<exists>k<NBUF. is_block b (bufs ?t k)"
      proof (cases "k = i")
        case True
        with k b gone have "is_block bno (bufs s i)" by (auto simp: is_block_def)
        with True k have "b = bno" by (simp add: is_block_def)
        with assms(2) show ?thesis by (intro exI [of _ i]) (simp add: bt is_block_def)
      next
        case False
        with k show ?thesis by (intro exI [of _ k]) (simp add: bt)
      qed
    qed
  qed
  show "view ?t = view s"
  proof
    fix b
    show "view ?t b = view s b"
    proof (cases "b = bno")
      case True
      then show ?thesis using view_holds [OF inv hd] by (simp add: bt)
    next
      case False
      have "view ?t b = view s b" if "cached s b = Some k" "k \<noteq> i" for k
        using that cached_Some [OF that(1)] cached_eq [OF inv, of k b] by (simp add: view_def bt d)
      moreover have "view ?t b = view s b" if c: "cached s b = Some i"
      proof -
        have ib: "is_block b (bufs s i)" using cached_Some [OF c] by simp
        with False assms(4) have r: "b_refcnt (bufs s i) = 0" by (auto simp: is_block_def)
        have "cached ?t b = None"
          using bio_uniq [OF assms(1) ib _ assms(2)] False by (auto simp: cached_None bt is_block_def)
        moreover have "view s b = disk s b"
          using c r bio_buf [OF assms(1,2)] ib by (simp add: view_def buf_ok_def is_block_def)
        ultimately show ?thesis by (simp add: view_def d)
      qed
      moreover have "view ?t b = view s b" if "cached s b = None"
      proof -
        from that have "cached ?t b = None" using False by (auto simp: cached_None bt is_block_def)
        with that show ?thesis by (simp add: view_def d)
      qed
      ultimately show ?thesis by (cases "cached s b") auto
    qed
  qed
  show "held ?t = insert bno (held s)"
  proof
    show "held ?t \<subseteq> insert bno (held s)"
      by (auto simp: held_def bt st is_block_def split: if_splits)
    have "b \<in> held ?t" if b: "b \<in> held s" for b
    proof -
      from b obtain j where "j < NBUF" "is_block b (bufs s j)" "sl_locked (sleeplocks s (SBuf j))"
        by (auto simp: held_def)
      moreover with assms(3) have "j \<noteq> i" by auto
      ultimately show ?thesis unfolding held_def bt st by auto
    qed
    moreover have "bno \<in> held ?t" using hd by (auto simp: held_def holds_def)
    ultimately show "insert bno (held s) \<subseteq> held ?t" by auto
  qed
qed

lemma buf_eq_block:
  "is_block bno b \<Longrightarrow> b_valid b \<Longrightarrow> b\<lparr>b_refcnt := r\<rparr> =
     \<lparr>b_valid = True, b_dev = ROOTDEV, b_blockno = bno, b_refcnt = r, b_data = b_data b\<rparr>"
  by (cases b) (simp add: is_block_def)

lemma buf_overwrite:
  "b\<lparr>b_dev := d, b_blockno := n, b_refcnt := r, b_data := x, b_valid := v\<rparr> =
     \<lparr>b_valid = v, b_dev = d, b_blockno = n, b_refcnt = r, b_data = x\<rparr>"
  by (cases b) simp

lemma bread_ok:
  assumes "idle h s" and "bio_inv P s" and "finite P" and "bno \<notin> held s" and "bno \<in> P \<or> card (held s \<union> P) < NBUF"
  shows "\<exists>i. bread h ROOTDEV bno s = Ok i (got P h bno i s) \<and> i < NBUF \<and> \<not> sl_locked (sleeplocks s (SBuf i)) \<and>
    (is_block bno (bufs s i) \<or> (cached s bno = None \<and> b_refcnt (bufs s i) = 0 \<and> bno \<notin> P))"
proof -
  obtain xs where xs: "lru s xs" using assms(2) by (auto simp: bio_inv_def)
  have len: "length xs \<le> NBUF" using lru_length [OF xs] by simp
  have fnext: "blist_find NBUF (b_next s) Q (b_next s BHead) = find Q xs" for Q
    using xs len by (auto simp: lru_def intro: blist_find_next)
  have fprev: "blist_find NBUF (b_prev s) Q (b_prev s BHead) = find Q (rev xs)" for Q
    using xs len by (auto simp: lru_def intro: blist_find_prev)
  have test: "(\<lambda>i. b_dev (bufs s i) = ROOTDEV \<and> b_blockno (bufs s i) = bno) = (\<lambda>i. is_block bno (bufs s i))"
    by (simp add: is_block_def)
  show ?thesis
  proof (cases "cached s bno")
    case (Some i)
    then have i: "i < NBUF" "is_block bno (bufs s i)" using cached_Some by auto
    have f: "find (\<lambda>i. is_block bno (bufs s i)) xs = Some i"
    proof (cases "find (\<lambda>i. is_block bno (bufs s i)) xs")
      case None
      with find_lru(1) [OF xs, of "\<lambda>i. is_block bno (bufs s i)"] i show ?thesis by auto
    next
      case (Some j)
      with find_lru(2) [OF xs Some] bio_uniq [OF assms(2) _ i(2), of j] i show ?thesis by auto
    qed
    have ul: "\<not> sl_locked (sleeplocks s (SBuf i))" using assms(4) i by (auto simp: held_def)
    let ?u = "buf_at i (\<lambda>b. b\<lparr>b_refcnt := b_refcnt b + 1\<rparr>) s"
    have ok: "buf_ok P False (disk s) (bufs s i)" using bio_buf [OF assms(2) i(1)] ul by simp
    have r: "b_refcnt (bufs s i) + 1 = 1 + (if bno \<in> P then 1 else 0)"
      using buf_ok_refcnt [OF ok] i(2) by (simp add: pinned_def is_block_def)
    have bg: "bget h ROOTDEV bno s = Ok i (sl_at (SBuf i) (\<lambda>l. l\<lparr>sl_locked := True, sl_pid := mypid h s\<rparr>) ?u)"
      using assms(1) f ul by (simp add: bget_def fnext test acquiresleep_ok)
    have "bread h ROOTDEV bno s = Ok i (got P h bno i s)"
    proof (cases "b_valid (bufs s i)")
      case True
      then have "view s bno = b_data (bufs s i)" using view_held [OF assms(2) i] by simp
      then have "(\<lambda>b. b\<lparr>b_refcnt := b_refcnt b + 1\<rparr>) (bufs s i) =
          \<lparr>b_valid = True, b_dev = ROOTDEV, b_blockno = bno, b_refcnt = 1 + (if bno \<in> P then 1 else 0), b_data = view s bno\<rparr>"
        using buf_eq_block [OF i(2) True] r by simp
      then show ?thesis using bg True by (simp add: bread_def got_def buf_at_def)
    next
      case False
      then have "view s bno = disk s bno" using Some by (simp add: view_def)
      then show ?thesis
        using bg False i(2) r
        by (cases "bufs s i") (simp add: bread_def got_def buf_at_def sl_at_def virtio_disk_rw_def is_block_def)
    qed
    with i ul show ?thesis by auto
  next
    case None
    have "bno \<notin> P" using None bio_pins [OF assms(2)] by (auto simp: cached_None)
    then have "\<exists>i<NBUF. b_refcnt (bufs s i) = 0" using spare_buffer [OF assms(2) _ assms(3)] assms(5) by auto
    then obtain i where f2: "find (\<lambda>i. b_refcnt (bufs s i) = 0) (rev xs) = Some i"
      using find_lru(3) [OF xs, of "\<lambda>i. b_refcnt (bufs s i) = 0"] by auto
    then have i: "i < NBUF" "b_refcnt (bufs s i) = 0" using find_lru(4) [OF xs f2] by auto
    have ul: "\<not> sl_locked (sleeplocks s (SBuf i))"
      using bio_buf [OF assms(2) i(1)] i(2) by (auto simp: buf_ok_def split: if_splits)
    have f1: "find (\<lambda>i. is_block bno (bufs s i)) xs = None"
      using None find_lru(1) [OF xs, of "\<lambda>i. is_block bno (bufs s i)"] by (simp add: cached_None)
    have "bread h ROOTDEV bno s = Ok i (got P h bno i s)"
      using assms(1) f1 f2 ul \<open>bno \<notin> P\<close> None
      by (simp add: bread_def bget_def fnext fprev test acquiresleep_ok got_def buf_at_def sl_at_def
          virtio_disk_rw_def view_def buf_overwrite)
    with i ul None \<open>bno \<notin> P\<close> show ?thesis by auto
  qed
qed

section \<open>What each operation does to the view\<close>

lemma bread_spec:
  assumes "idle h s" and "bio_inv P s" and "finite P" and "bno \<notin> held s" and "bno \<in> P \<or> card (held s \<union> P) < NBUF"
  obtains i t where "bread h ROOTDEV bno s = Ok i t" and "idle h t" and "bio_inv P t" and "holds h t i bno"
    and "b_data (bufs t i) = view s bno"
    and "view t = view s" and "held t = insert bno (held s)" and "\<And>j b. holds h s j b \<Longrightarrow> holds h t j b"
    and "disk t = disk s" and "disk_writes t = disk_writes s" and "cache_frame s t"
proof -
  from bread_ok [OF assms] obtain i where i: "bread h ROOTDEV bno s = Ok i (got P h bno i s)" "i < NBUF"
    "\<not> sl_locked (sleeplocks s (SBuf i))"
    "is_block bno (bufs s i) \<or> (cached s bno = None \<and> b_refcnt (bufs s i) = 0 \<and> bno \<notin> P)" by blast
  note g = got_spec [OF assms(2) i(2-4), of h]
  have "idle h (got P h bno i s)" using assms(1) cache_frame_eqs(1) [OF g(6)] by simp
  moreover have "b_data (bufs (got P h bno i s) i) = view s bno" by (simp add: got_def)
  ultimately show ?thesis using that [OF i(1)] g by blast
qed

definition set_data :: "nat \<Rightarrow> block \<Rightarrow> 'a kbio_scheme \<Rightarrow> 'a kbio_scheme" where
  "set_data i d s = buf_at i (\<lambda>b. b\<lparr>b_data := d\<rparr>) s"

text \<open>Updates that keep which buffer holds which block.\<close>

lemma cached_cong:
  "(\<And>i bno. is_block bno (bufs t i) = is_block bno (bufs s i)) \<Longrightarrow> cached t = cached s"
  by (rule ext) (simp add: cached_def)

lemma cached_disk [simp]: "cached (s\<lparr>disk := x\<rparr>) = cached s" "cached (s\<lparr>disk_writes := y\<rparr>) = cached s"
  by (rule cached_cong; simp)+

lemma holdsD: "holds h s i bno \<Longrightarrow> i < NBUF \<and> is_block bno (bufs s i) \<and> b_valid (bufs s i) \<and> sl_locked (sleeplocks s (SBuf i))"
  by (simp add: holds_def)

lemma holds_uniq: "bio_inv P s \<Longrightarrow> holds h s i b \<Longrightarrow> holds h s j b \<Longrightarrow> i = j"
  by (meson bio_uniq holdsD)

lemma holds_block: "holds h s i b \<Longrightarrow> holds h s i c \<Longrightarrow> b = c"
  by (simp add: holds_def is_block_def)

lemma set_data_spec:
  assumes "bio_inv P s" and "holds h s i bno"
  shows "bio_inv P (set_data i d s)" and "view (set_data i d s) = (view s)(bno := d)"
    and "holds h (set_data i d s) j b = holds h s j b" and "held (set_data i d s) = held s"
    and "disk (set_data i d s) = disk s" and "disk_writes (set_data i d s) = disk_writes s"
    and "cache_frame s (set_data i d s)" and "idle h (set_data i d s) = idle h s"
proof -
  let ?t = "set_data i d s"
  note hi = holdsD [OF assms(2)]
  have ib: "is_block b (bufs ?t k) = is_block b (bufs s k)" for b k by (simp add: set_data_def is_block_def)
  have c: "cached ?t = cached s" by (rule cached_cong) (rule ib)
  show "bio_inv P ?t"
    unfolding bio_inv_def
  proof (intro conjI)
    show "\<exists>xs. lru ?t xs" using assms(1) lru_cong [of ?t s] by (auto simp: bio_inv_def set_data_def)
    show "\<forall>k<NBUF. \<forall>j<NBUF. \<forall>b. is_block b (bufs ?t k) \<longrightarrow> is_block b (bufs ?t j) \<longrightarrow> k = j"
      using bio_uniq [OF assms(1)] by (simp add: ib)
    have "buf_ok P True (disk s) ((bufs s i)\<lparr>b_data := d\<rparr>)"
      using bio_buf [OF assms(1), of i] hi buf_ok_data [of P "disk s" "bufs s i" d] by simp
    with hi bio_buf [OF assms(1)] show "\<forall>j<NBUF. buf_ok P (sl_locked (sleeplocks ?t (SBuf j))) (disk ?t) (bufs ?t j)"
      by (simp add: set_data_def)
    show "\<forall>b\<in>P. \<exists>k<NBUF. is_block b (bufs ?t k)" using bio_pins [OF assms(1)] by (simp add: ib)
  qed
  show "view ?t = (view s)(bno := d)"
  proof
    fix b
    show "view ?t b = ((view s)(bno := d)) b"
    proof (cases "cached s b")
      case None
      then have "b \<noteq> bno" using hi by (auto simp: cached_None)
      with None show ?thesis by (simp add: view_def c) (simp add: set_data_def)
    next
      case (Some k)
      have k: "is_block b (bufs s k)" "k < NBUF" using cached_Some [OF Some] by auto
      show ?thesis
      proof (cases "k = i")
        case True
        with k hi have "b = bno" by (simp add: is_block_def)
        with True Some hi show ?thesis by (simp add: view_def c) (simp add: set_data_def)
      next
        case False
        with k hi bio_uniq [OF assms(1), of bno k i] have "b \<noteq> bno" by blast
        with False Some show ?thesis by (simp add: view_def c) (simp add: set_data_def)
      qed
    qed
  qed
  show "holds h ?t j b = holds h s j b" by (auto simp: holds_def set_data_def is_block_def)
  show "held ?t = held s" by (simp add: held_def ib) (simp add: set_data_def)
qed (simp_all add: set_data_def)

lemma bwrite_spec:
  assumes "idle h s" and "bio_inv P s" and "holds h s i bno"
  obtains t where "bwrite h i s = Ok () t" and "idle h t" and "bio_inv P t" and "view t = view s" and "held t = held s"
    and "\<And>j b. holds h t j b = holds h s j b" and "disk t = (disk s)(bno := view s bno)" and "bufs t = bufs s"
    and "disk_writes t = disk_writes s @ [(bno, view s bno)]" and "cache_frame s t"
proof -
  note hi = holdsD [OF assms(3)]
  let ?t = "s\<lparr>disk := (disk s)(bno := view s bno), disk_writes := disk_writes s @ [(bno, view s bno)]\<rparr>"
  have v: "view s bno = b_data (bufs s i)" by (rule view_holds [OF assms(2,3)])
  have run: "bwrite h i s = Ok () ?t"
    using assms hi v by (simp add: bwrite_def holdingsleep_ok holds_def virtio_disk_rw_def is_block_def)
  have "bio_inv P ?t"
    unfolding bio_inv_def
  proof (intro conjI)
    show "\<exists>xs. lru ?t xs" using assms(2) lru_cong [of ?t s] by (auto simp: bio_inv_def)
    show "\<forall>k<NBUF. \<forall>j<NBUF. \<forall>b. is_block b (bufs ?t k) \<longrightarrow> is_block b (bufs ?t j) \<longrightarrow> k = j"
      using bio_uniq [OF assms(2)] by simp
    show "\<forall>j<NBUF. buf_ok P (sl_locked (sleeplocks ?t (SBuf j))) (disk ?t) (bufs ?t j)"
    proof (intro allI impI)
      fix j assume j: "j < NBUF"
      have "b_blockno (bufs s j) \<noteq> bno" if "j \<noteq> i" "b_dev (bufs s j) = ROOTDEV"
        using that hi j bio_uniq [OF assms(2), of bno j i] by (auto simp: is_block_def)
      with bio_buf [OF assms(2) j] hi v show "buf_ok P (sl_locked (sleeplocks ?t (SBuf j))) (disk ?t) (bufs ?t j)"
        by (cases "j = i") (auto simp: buf_ok_def is_block_def)
    qed
    show "\<forall>b\<in>P. \<exists>k<NBUF. is_block b (bufs ?t k)" using bio_pins [OF assms(2)] by simp
  qed
  moreover have "view ?t = view s"
  proof
    fix b
    have "cached s bno = Some i" using hi cached_eq [OF assms(2)] by auto
    then show "view ?t b = view s b" using v hi by (auto simp: view_def split: option.splits)
  qed
  ultimately show ?thesis
    using run assms(1) that [of ?t] by (simp add: holds_def held_def)
qed

lemma brelse_spec:
  assumes "idle h s" and "bio_inv P s" and "holds h s i bno" and "bno \<in> P \<or> view s bno = disk s bno"
  obtains t where "brelse h i s = Ok () t" and "idle h t" and "bio_inv P t" and "view t = view s"
    and "held t = held s - {bno}" and "\<And>j b. holds h s j b \<Longrightarrow> b \<noteq> bno \<Longrightarrow> holds h t j b"
    and "disk t = disk s" and "disk_writes t = disk_writes s" and "cache_frame s t"
    and "\<And>j. b_data (bufs t j) = b_data (bufs s j)"
proof -
  note hi = holdsD [OF assms(3)]
  have v: "view s bno = b_data (bufs s i)" by (rule view_holds [OF assms(2,3)])
  have pn: "pinned P (bufs s i) \<longleftrightarrow> bno \<in> P" using hi by (simp add: pinned_def is_block_def)
  have r: "b_refcnt (bufs s i) = 1 + (if bno \<in> P then 1 else 0)"
    using buf_ok_refcnt [OF bio_buf [OF assms(2), of i]] hi pn by simp
  let ?l = "sl_at (SBuf i) (\<lambda>l. l\<lparr>sl_locked := False, sl_pid := 0\<rparr>) s"
  let ?u = "buf_at i (\<lambda>b. b\<lparr>b_refcnt := b_refcnt b - 1\<rparr>) ?l"
  define t where "t = (if bno \<in> P then ?u else link_front i (unlink i ?u))"
  have run: "brelse h i s = Ok () t"
    using assms(1,3) r
    by (simp add: brelse_def holdingsleep_ok releasesleep_ok holds_def Let_def t_def)
  have bt: "bufs t = (bufs s)(i := (bufs s i)\<lparr>b_refcnt := if bno \<in> P then 1 else 0\<rparr>)"
    and st: "sleeplocks t = (sleeplocks s)(SBuf i := (sleeplocks s (SBuf i))\<lparr>sl_locked := False, sl_pid := 0\<rparr>)"
    and dt: "disk t = disk s" "disk_writes t = disk_writes s" and mp: "mypid h t = mypid h s"
    using r by (simp_all add: t_def)
  have fr: "cache_frame s t" by (simp add: t_def)
  have ib: "is_block b (bufs t k) = is_block b (bufs s k)" for b k by (simp add: bt is_block_def)
  have c: "cached t = cached s" by (rule cached_cong) (rule ib)
  have "\<exists>xs. lru t xs"
  proof -
    obtain xs where xs: "lru s xs" using assms(2) by (auto simp: bio_inv_def)
    then have "lru ?u xs" using lru_cong [of ?u s] by simp
    then show ?thesis using lru_move_front [of ?u xs i] hi by (auto simp: t_def)
  qed
  moreover have "\<forall>j<NBUF. buf_ok P (sl_locked (sleeplocks t (SBuf j))) (disk t) (bufs t j)"
  proof (intro allI impI)
    fix j assume j: "j < NBUF"
    show "buf_ok P (sl_locked (sleeplocks t (SBuf j))) (disk t) (bufs t j)"
    proof (cases "j = i")
      case True
      with hi pn assms(4) v show ?thesis
        by (auto simp: bt st dt buf_ok_def pinned_def is_block_def)
    next
      case False
      with bio_buf [OF assms(2) j] show ?thesis by (simp add: bt st dt)
    qed
  qed
  ultimately have "bio_inv P t"
    using bio_uniq [OF assms(2)] bio_pins [OF assms(2)] by (simp add: bio_inv_def ib)
  moreover have "view t = view s"
    by (rule ext) (simp add: view_def c dt bt split: option.split)
  moreover have "held t = held s - {bno}"
  proof -
    have "b \<in> held t \<longleftrightarrow> b \<in> held s \<and> b \<noteq> bno" for b
    proof -
      have "k \<noteq> i \<longleftrightarrow> b \<noteq> bno" if "k < NBUF" "is_block b (bufs s k)" for k
        using that hi bio_uniq [OF assms(2), of bno k i] by (auto simp: is_block_def)
      then show ?thesis unfolding held_def mem_Collect_eq ib by (auto simp: st)
    qed
    then show ?thesis by auto
  qed
  moreover have "holds h t j b" if "holds h s j b" "b \<noteq> bno" for j b
  proof -
    have "j \<noteq> i" using that hi by (auto simp: holds_def is_block_def)
    with that show ?thesis by (simp add: holds_def bt st mp)
  qed
  moreover have "idle h t" using assms(1) cache_frame_eqs(1) [OF fr] by simp
  moreover have "b_data (bufs t j) = b_data (bufs s j)" for j by (simp add: bt)
  ultimately show ?thesis using that run dt fr by blast
qed

text \<open>Pinning and unpinning change which blocks count as pinned, and nothing that can be read.\<close>

lemma pin_inv:
  assumes "bio_inv P s" and "holds h s i bno" and "Q = (if up then insert bno P else P - {bno})"
    and "bno \<in> P \<longleftrightarrow> \<not> up"
    and "t = buf_at i (\<lambda>b. b\<lparr>b_refcnt := (if up then b_refcnt b + 1 else b_refcnt b - 1)\<rparr>) s"
  shows "bio_inv Q t" and "view t = view s" and "held t = held s" and "holds h t j b = holds h s j b"
proof -
  note hi = holdsD [OF assms(2)]
  have pn: "pinned P (bufs s i) \<longleftrightarrow> bno \<in> P" using hi by (simp add: pinned_def is_block_def)
  have r: "b_refcnt (bufs s i) = 1 + (if bno \<in> P then 1 else 0)"
    using buf_ok_refcnt [OF bio_buf [OF assms(1), of i]] hi pn by simp
  have bt: "bufs t = (bufs s)(i := (bufs s i)\<lparr>b_refcnt := 1 + (if up then 1 else 0)\<rparr>)"
    using r assms(4) by (simp add: assms(5))
  have st: "sleeplocks t = sleeplocks s" "disk t = disk s" "mypid h t = mypid h s"
      "b_next t = b_next s" "b_prev t = b_prev s"
    by (simp_all add: assms(5))
  have ib: "is_block b (bufs t k) = is_block b (bufs s k)" for b k by (simp add: bt is_block_def)
  have c: "cached t = cached s" by (rule cached_cong) (rule ib)
  show "bio_inv Q t"
    unfolding bio_inv_def
  proof (intro conjI)
    show "\<exists>xs. lru t xs" using assms(1) lru_cong [of t s] st by (auto simp: bio_inv_def)
    show "\<forall>k<NBUF. \<forall>j<NBUF. \<forall>b. is_block b (bufs t k) \<longrightarrow> is_block b (bufs t j) \<longrightarrow> k = j"
      using bio_uniq [OF assms(1)] by (simp add: ib)
    show "\<forall>b\<in>Q. \<exists>k<NBUF. is_block b (bufs t k)"
      using bio_pins [OF assms(1)] hi assms(3) by (auto simp: ib split: if_splits)
    show "\<forall>j<NBUF. buf_ok Q (sl_locked (sleeplocks t (SBuf j))) (disk t) (bufs t j)"
    proof (intro allI impI)
      fix j assume j: "j < NBUF"
      show "buf_ok Q (sl_locked (sleeplocks t (SBuf j))) (disk t) (bufs t j)"
      proof (cases "j = i")
        case True
        with hi assms(3) show ?thesis by (simp add: bt st buf_ok_def pinned_def is_block_def)
      next
        case False
        have "pinned Q (bufs s j) = pinned P (bufs s j)"
          using False j hi assms(3) bio_uniq [OF assms(1), of bno j i]
          by (auto simp: pinned_def is_block_def split: if_splits)
        with False bio_buf [OF assms(1) j] show ?thesis by (simp add: bt st buf_ok_def)
      qed
    qed
  qed
  show "view t = view s" by (rule ext) (simp add: view_def c st bt split: option.split)
  show "held t = held s" by (simp add: held_def ib st)
  show "holds h t j b = holds h s j b" by (auto simp: holds_def ib st bt is_block_def)
qed

lemma bpin_spec:
  assumes "idle h s" and "bio_inv P s" and "holds h s i bno" and "bno \<notin> P"
  obtains t where "bpin h i s = Ok () t" and "idle h t" and "bio_inv (insert bno P) t" and "view t = view s"
    and "held t = held s" and "\<And>j b. holds h t j b = holds h s j b" and "disk t = disk s"
    and "disk_writes t = disk_writes s" and "cache_frame s t"
proof -
  let ?t = "buf_at i (\<lambda>b. b\<lparr>b_refcnt := b_refcnt b + 1\<rparr>) s"
  note p = pin_inv [OF assms(2,3), of "insert bno P" True ?t] 
  show ?thesis
    using p assms by (intro that [of ?t]) (simp_all add: bpin_def)
qed

lemma bunpin_spec:
  assumes "idle h s" and "bio_inv P s" and "holds h s i bno" and "bno \<in> P"
  obtains t where "bunpin h i s = Ok () t" and "idle h t" and "bio_inv (P - {bno}) t" and "view t = view s"
    and "held t = held s" and "\<And>j b. holds h t j b = holds h s j b" and "disk t = disk s"
    and "disk_writes t = disk_writes s" and "cache_frame s t"
proof -
  let ?t = "buf_at i (\<lambda>b. b\<lparr>b_refcnt := b_refcnt b - 1\<rparr>) s"
  note p = pin_inv [OF assms(2,3), of "P - {bno}" False ?t]
  show ?thesis
    using p assms by (intro that [of ?t]) (simp_all add: bunpin_def)
qed

section \<open>Initialisation\<close>

lemma initsleeplock_bio [simp]:
  "bufs (initsleeplock k n s) = bufs s" "b_next (initsleeplock k n s) = b_next s"
  "b_prev (initsleeplock k n s) = b_prev s" "disk (initsleeplock k n s) = disk s"
  "sleeplocks (initsleeplock k n s) = (sleeplocks s)(k := (sleeplocks s k)\<lparr>sl_name := n, sl_locked := False, sl_pid := 0\<rparr>)"
  by (simp_all add: initsleeplock_def sl_at_def initlock_def)

lemma binit_one_links:
  "blist (b_next s) (b_prev s) xs \<Longrightarrow> i \<notin> set xs \<Longrightarrow>
   blist (b_next (binit_one i s)) (b_prev (binit_one i s)) (i # xs)"
  using blist_front [of "b_next s" "b_prev s" xs i]
  by (simp add: binit_one_def set_next_def set_prev_def Let_def)

lemma binit_one_rest [simp]:
  "bufs (binit_one i s) = bufs s" "disk (binit_one i s) = disk s"
  "sleeplocks (binit_one i s) =
     (sleeplocks s)(SBuf i := (sleeplocks s (SBuf i))\<lparr>sl_name := ''buffer'', sl_locked := False, sl_pid := 0\<rparr>)"
  by (simp_all add: binit_one_def set_next_def set_prev_def Let_def)

lemma binit_fold:
  assumes "blist (b_next s) (b_prev s) []"
  shows "let t = fold binit_one [0..<n] s in
    blist (b_next t) (b_prev t) (rev [0..<n]) \<and> bufs t = bufs s \<and> disk t = disk s \<and>
    (\<forall>i<n. \<not> sl_locked (sleeplocks t (SBuf i)))"
proof (induction n)
  case 0
  then show ?case using assms by simp
next
  case (Suc n)
  let ?t = "fold binit_one [0..<n] s"
  have "blist (b_next (binit_one n ?t)) (b_prev (binit_one n ?t)) (n # rev [0..<n])"
    using Suc by (intro binit_one_links) (auto simp: Let_def)
  with Suc show ?case by (auto simp: Let_def less_Suc_eq)
qed

lemma binit_cache:
  assumes "\<forall>i<NBUF. b_refcnt (bufs s i) = 0 \<and> b_dev (bufs s i) \<noteq> ROOTDEV"
  shows "lru (binit s) (rev [0..<NBUF]) \<and> bio_inv {} (binit s) \<and> held (binit s) = {} \<and>
    view (binit s) = disk s \<and> bufs (binit s) = bufs s"
proof -
  let ?s = "set_next BHead BHead (set_prev BHead BHead (initlock LBcache ''bcache'' s))"
  have eq: "binit s = fold binit_one [0..<NBUF] ?s" by (simp add: binit_def Let_def)
  have "blist (b_next ?s) (b_prev ?s) []" by (simp add: blist_def set_next_def set_prev_def)
  from binit_fold [OF this, of NBUF]
  have b: "blist (b_next (binit s)) (b_prev (binit s)) (rev [0..<NBUF])" and d: "disk (binit s) = disk s"
    and bf: "bufs (binit s) = bufs s" and l: "\<forall>i<NBUF. \<not> sl_locked (sleeplocks (binit s) (SBuf i))"
    unfolding eq by (auto simp: Let_def set_next_def set_prev_def initlock_def)
  have lr: "lru (binit s) (rev [0..<NBUF])" using b by (auto simp: lru_def)
  have nb: "\<not> is_block bno (bufs s i)" if "i < NBUF" for i bno using assms that by (simp add: is_block_def)
  have "bio_inv {} (binit s)"
    unfolding bio_inv_def using lr nb l assms by (auto simp: bf buf_ok_def pinned_def)
  moreover have "view (binit s) = disk s"
  proof
    fix bno
    have "cached (binit s) bno = None" using nb by (simp add: cached_None bf)
    then show "view (binit s) bno = disk s bno" by (simp add: view_def d)
  qed
  ultimately show ?thesis using lr l bf by (auto simp: held_def)
qed

lemma binit_fold_bufs: "bufs (fold binit_one is s) = bufs s"
  by (induction "is" arbitrary: s) auto

lemma binit_bufs: "bufs (binit s) = bufs s"
  by (simp add: binit_def Let_def set_next_def set_prev_def initlock_def binit_fold_bufs)

text \<open>
  \<^verbatim>\<open>binit\<close> on zeroed buffers builds a well-formed cache: the list links all \<^verbatim>\<open>NBUF\<close> buffers, last initialised first,
  no buffer is locked or in use, and the cache shows exactly the content of the disk.
\<close>

theorem binit_establishes_cache:
  assumes "\<forall>i<NBUF. b_refcnt (bufs s i) = 0 \<and> b_dev (bufs s i) \<noteq> ROOTDEV"
  shows "lru (binit s) (rev [0..<NBUF]) \<and> bio_inv {} (binit s) \<and> held (binit s) = {} \<and>
    view (binit s) = disk s \<and> bufs (binit s) = bufs s"
  using assms by (rule binit_cache)

definition raw_bio :: "(u32 \<Rightarrow> block) \<Rightarrow> kbio" where
  "raw_bio d = ksleep.extend idle_sleep
     \<lparr>bufs = \<lambda>_. \<lparr>b_valid = False, b_dev = 0, b_blockno = 0, b_refcnt = 0, b_data = \<lambda>_. 0\<rparr>,
      b_prev = \<lambda>_. BHead, b_next = \<lambda>_. BHead, disk = d, disk_writes = []\<rparr>"

theorem binit_establishes_cache_witness: "bio_inv {} (binit (raw_bio (\<lambda>_ _. 7)))"
  using binit_establishes_cache [of "raw_bio (\<lambda>_ _. 7)"] by (simp add: raw_bio_def ksleep.defs ROOTDEV_def)

text \<open>
  C7: the cache is transparent and recycles the least recently used buffer.  With a buffer to spare, \<^verbatim>\<open>bread\<close> of a block
  that the caller does not hold returns a locked, valid buffer whose data is the current content of the
  block; it is the buffer that already caches the block, if there is one, and otherwise the last unused
  buffer of the list.  No block's content changes, nothing is written to the disk, and the invariant holds.
\<close>

theorem bread_returns_block:
  assumes "idle h s" and "bio_inv P s" and "finite P" and "lru s xs" and "bno \<notin> held s"
    and "bno \<in> P \<or> card (held s \<union> P) < NBUF"
  shows "\<exists>i t. bread h ROOTDEV bno s = Ok i t \<and> holds h t i bno \<and> b_data (bufs t i) = view s bno \<and>
    view t = view s \<and> bio_inv P t \<and> idle h t \<and> disk_writes t = disk_writes s \<and>
    (case cached s bno of Some j \<Rightarrow> i = j
     | None \<Rightarrow> find (\<lambda>j. b_refcnt (bufs s j) = 0) (rev xs) = Some i)"
proof -
  have len: "length xs \<le> NBUF" using lru_length [OF assms(4)] by simp
  have fnext: "blist_find NBUF (b_next s) Q (b_next s BHead) = find Q xs" for Q
    using assms(4) len by (auto simp: lru_def intro: blist_find_next)
  have fprev: "blist_find NBUF (b_prev s) Q (b_prev s BHead) = find Q (rev xs)" for Q
    using assms(4) len by (auto simp: lru_def intro: blist_find_prev)
  obtain i where i: "bread h ROOTDEV bno s = Ok i (got P h bno i s)" "i < NBUF" "\<not> sl_locked (sleeplocks s (SBuf i))"
    "is_block bno (bufs s i) \<or> (cached s bno = None \<and> b_refcnt (bufs s i) = 0 \<and> bno \<notin> P)"
    using bread_ok [OF assms(1-3,5,6)] by blast
  note g = got_spec [OF assms(2) i(2-4), of h]
  have choice: "case cached s bno of Some j \<Rightarrow> i = j | None \<Rightarrow> find (\<lambda>j. b_refcnt (bufs s j) = 0) (rev xs) = Some i"
  proof (cases "cached s bno")
    case (Some j)
    with i(4) i(2) cached_eq [OF assms(2), of i bno] show ?thesis by auto
  next
    case None
    then have f1: "find (\<lambda>i. is_block bno (bufs s i)) xs = None"
      using find_lru(1) [OF assms(4), of "\<lambda>i. is_block bno (bufs s i)"] by (simp add: cached_None)
    show ?thesis
    proof (cases "find (\<lambda>j. b_refcnt (bufs s j) = 0) (rev xs)")
      case None
      with i \<open>cached s bno = None\<close> find_lru(3) [OF assms(4), of "\<lambda>j. b_refcnt (bufs s j) = 0"] cached_None [of s bno]
      show ?thesis by auto
    next
      case (Some j)
      have "\<not> sl_locked (sleeplocks s (SBuf j))"
        using find_lru(4) [OF assms(4) Some] bio_buf [OF assms(2), of j] by (auto simp: buf_ok_def split: if_splits)
      then have "bread h ROOTDEV bno s \<noteq> Ok i u" if "j \<noteq> i" for u
        using assms(1) f1 Some that
        by (simp add: bread_def bget_def fnext fprev is_block_def [abs_def] acquiresleep_ok)
      with i(1) Some \<open>cached s bno = None\<close> show ?thesis by auto
    qed
  qed
  have "idle h (got P h bno i s)" using assms(1) cache_frame_eqs(1) [OF g(6)] by simp
  with i(1) g choice show ?thesis
    by (intro exI [of _ i] exI [of _ "got P h bno i s"]) (simp add: got_def)
qed

lemma binit_one_idle: "idle h s \<Longrightarrow> idle h (binit_one i s)"
  by (auto simp: binit_one_def set_next_def set_prev_def Let_def initsleeplock_def sl_at_def
      initlock_def idle_def lock_free_def)

lemma binit_fold_idle: "idle h s \<Longrightarrow> idle h (fold binit_one is s)"
  by (induction "is" arbitrary: s) (auto simp: binit_one_idle)

lemma binit_idle: "idle h s \<Longrightarrow> idle h (binit s)"
proof -
  assume "idle h s"
  then have "idle h (set_next BHead BHead (set_prev BHead BHead (initlock LBcache ''bcache'' s)))"
    by (auto simp: set_next_def set_prev_def initlock_def idle_def lock_free_def)
  then show ?thesis by (simp add: binit_def Let_def binit_fold_idle)
qed

text \<open>A cache with empty buffers over a given disk.\<close>

definition fresh_bio :: "(u32 \<Rightarrow> block) \<Rightarrow> kbio" where
  "fresh_bio d = binit (raw_bio d)"

lemma fresh_bio_simps:
  "idle 0 (fresh_bio d)" "bio_inv {} (fresh_bio d)" "held (fresh_bio d) = {}" "view (fresh_bio d) = d"
  "lru (fresh_bio d) (rev [0..<NBUF])" "cached (fresh_bio d) bno = None"
proof -
  have raw: "idle 0 (raw_bio d)" "\<forall>i<NBUF. b_refcnt (bufs (raw_bio d) i) = 0 \<and> b_dev (bufs (raw_bio d) i) \<noteq> ROOTDEV"
    "disk (raw_bio d) = d"
    using idle_sleep_idle
    by (simp_all add: raw_bio_def ksleep.defs ROOTDEV_def idle_def lock_free_def)
  show "idle 0 (fresh_bio d)" unfolding fresh_bio_def by (rule binit_idle [OF raw(1)])
  show "bio_inv {} (fresh_bio d)" "held (fresh_bio d) = {}" "view (fresh_bio d) = d" "lru (fresh_bio d) (rev [0..<NBUF])"
    unfolding fresh_bio_def using binit_cache [OF raw(2)] raw(3) by auto
  show "cached (fresh_bio d) bno = None"
    unfolding fresh_bio_def using binit_cache [OF raw(2)] raw(2) by (simp add: cached_None is_block_def)
qed

theorem bread_returns_block_witness:
  "\<exists>t. bread 0 ROOTDEV 33 (fresh_bio (\<lambda>b _. ucast b)) = Ok 0 t \<and> b_data (bufs t 0) 5 = 33"
proof -
  let ?s = "fresh_bio (\<lambda>b _. ucast b)"
  have r: "b_refcnt (bufs ?s j) = 0" for j by (simp add: fresh_bio_def binit_bufs raw_bio_def ksleep.defs)
  have "rev (rev [0..<NBUF]) = 0 # [1..<NBUF]" by (simp add: upt_conv_Cons NBUF_def MAXOPBLOCKS_def)
  then have "find (\<lambda>j. b_refcnt (bufs ?s j) = 0) (rev (rev [0..<NBUF])) = Some 0" using r by (simp del: rev_rev_ident)
  then show ?thesis
    using bread_returns_block [of 0 ?s "{}" "rev [0..<NBUF]" 33] fresh_bio_simps [of "\<lambda>b _. ucast b"]
    by (auto simp: NBUF_def MAXOPBLOCKS_def)
qed

section \<open>The interface of the cache\<close>

text \<open>The effect of each operation as a relation between the states before and after.\<close>

definition after_read :: "nat \<Rightarrow> u32 set \<Rightarrow> u32 \<Rightarrow> nat \<Rightarrow> 'a kbio_scheme \<Rightarrow> 'a kbio_scheme \<Rightarrow> bool" where
  "after_read h P bno i s t \<longleftrightarrow> idle h t \<and> bio_inv P t \<and> holds h t i bno \<and> b_data (bufs t i) = view s bno \<and>
     view t = view s \<and> held t = insert bno (held s) \<and> (\<forall>j b. holds h s j b \<longrightarrow> holds h t j b) \<and>
     disk t = disk s \<and> disk_writes t = disk_writes s \<and> cache_frame s t"

definition after_write :: "nat \<Rightarrow> u32 set \<Rightarrow> u32 \<Rightarrow> 'a kbio_scheme \<Rightarrow> 'a kbio_scheme \<Rightarrow> bool" where
  "after_write h P bno s t \<longleftrightarrow> idle h t \<and> bio_inv P t \<and> view t = view s \<and> held t = held s \<and>
     (\<forall>j b. holds h t j b = holds h s j b) \<and> disk t = (disk s)(bno := view s bno) \<and> bufs t = bufs s \<and>
     disk_writes t = disk_writes s @ [(bno, view s bno)] \<and> cache_frame s t"

definition after_relse :: "nat \<Rightarrow> u32 set \<Rightarrow> u32 \<Rightarrow> 'a kbio_scheme \<Rightarrow> 'a kbio_scheme \<Rightarrow> bool" where
  "after_relse h P bno s t \<longleftrightarrow> idle h t \<and> bio_inv P t \<and> view t = view s \<and> held t = held s - {bno} \<and>
     (\<forall>j b. holds h s j b \<longrightarrow> b \<noteq> bno \<longrightarrow> holds h t j b) \<and> disk t = disk s \<and>
     disk_writes t = disk_writes s \<and> cache_frame s t"

definition after_pin :: "nat \<Rightarrow> u32 set \<Rightarrow> 'a kbio_scheme \<Rightarrow> 'a kbio_scheme \<Rightarrow> bool" where
  "after_pin h Q s t \<longleftrightarrow> idle h t \<and> bio_inv Q t \<and> view t = view s \<and> held t = held s \<and>
     (\<forall>j b. holds h t j b = holds h s j b) \<and> disk t = disk s \<and> disk_writes t = disk_writes s \<and> cache_frame s t"

lemmas after_defs = after_read_def after_write_def after_relse_def after_pin_def

lemma bread_after:
  assumes "idle h s" and "bio_inv P s" and "finite P" and "bno \<notin> held s" and "bno \<in> P \<or> card (held s \<union> P) < NBUF"
  shows "\<exists>i t. bread h ROOTDEV bno s = Ok i t \<and> after_read h P bno i s t"
  by (rule bread_spec [OF assms]) (auto simp: after_read_def)

lemma bwrite_after:
  assumes "idle h s" and "bio_inv P s" and "holds h s i bno"
  shows "\<exists>t. bwrite h i s = Ok () t \<and> after_write h P bno s t"
  by (rule bwrite_spec [OF assms]) (auto simp: after_write_def)

lemma brelse_after:
  assumes "idle h s" and "bio_inv P s" and "holds h s i bno" and "bno \<in> P \<or> view s bno = disk s bno"
  shows "\<exists>t. brelse h i s = Ok () t \<and> after_relse h P bno s t"
  by (rule brelse_spec [OF assms]) (auto simp: after_relse_def)

lemma bpin_after:
  assumes "idle h s" and "bio_inv P s" and "holds h s i bno" and "bno \<notin> P"
  shows "\<exists>t. bpin h i s = Ok () t \<and> after_pin h (insert bno P) s t"
  by (rule bpin_spec [OF assms]) (auto simp: after_pin_def)

lemma bunpin_after:
  assumes "idle h s" and "bio_inv P s" and "holds h s i bno" and "bno \<in> P"
  shows "\<exists>t. bunpin h i s = Ok () t \<and> after_pin h (P - {bno}) s t"
  by (rule bunpin_spec [OF assms]) (auto simp: after_pin_def)

lemma holds_data: "bio_inv P s \<Longrightarrow> holds h s i bno \<Longrightarrow> b_data (bufs s i) = view s bno"
  using view_holds by metis

end
