(* ===== verification/Log.thy ===== *)
theory Log
  imports Bio
begin

text \<open>
  The write-ahead log, \<^verbatim>\<open>kernel/log.c\<close>.  Operations between \<^verbatim>\<open>begin_op\<close> and \<^verbatim>\<open>end_op\<close> collect the blocks they change with
  \<^verbatim>\<open>log_write\<close>; the last \<^verbatim>\<open>end_op\<close> commits: the changed blocks go to the log, then the header (the commit point), then
  the blocks to their places, then an empty header.  \<^verbatim>\<open>recover_from_log\<close> runs at boot.  The main result is
  crash safety: whatever prefix of the writes of a commit reaches the disk, recovery brings back either the
  state before or the state after.
\<close>

section \<open>State\<close>

record klog = kbio +
  log_start :: u32
  log_outstanding :: int
  log_committing :: bool
  log_dev :: u32
  lh_n :: int
  lh_block :: "nat \<Rightarrow> u32"

record superblock =
  sb_magic :: u32
  sb_size :: u32
  sb_nblocks :: u32
  sb_ninodes :: u32
  sb_nlog :: u32
  sb_logstart :: u32
  sb_inodestart :: u32
  sb_bmapstart :: u32

text \<open>\<^verbatim>\<open>struct logheader\<close> in a block: \<^verbatim>\<open>n\<close>, then \<^verbatim>\<open>block[]\<close>, four bytes each.\<close>

definition LOGHEADER_SIZE :: nat where
  "LOGHEADER_SIZE = 4 + 4 * LOGBLOCKS"

definition get_head_n :: "block \<Rightarrow> int" where
  "get_head_n d = sint (get32 0 d)"

definition get_head_block :: "block \<Rightarrow> nat \<Rightarrow> u32" where
  "get_head_block d i = get32 (4 + 4 * i) d"

definition put_head :: "int \<Rightarrow> (nat \<Rightarrow> u32) \<Rightarrow> block \<Rightarrow> block" where
  "put_head n blk d = fold (\<lambda>i. put32 (4 + 4 * i) (blk i)) [0..<nat n] (put32 0 (of_int n) d)"

section \<open>Commit and recovery\<close>

definition install_one :: "nat \<Rightarrow> bool \<Rightarrow> nat \<Rightarrow> 'a klog_scheme \<Rightarrow> (unit, 'a klog_scheme) res" where
  "install_one h recovering tail s =
     kbind (if recovering
            then printf h (''recovering tail %d dst %d'' @ NL) [AInt (of_nat tail), AInt (lh_block s tail)] s
            else Ok () s) (\<lambda>_ s.
     kbind (bread h (log_dev s) (log_start s + of_nat tail + 1) s) (\<lambda>lbuf s.
     kbind (bread h (log_dev s) (lh_block s tail) s) (\<lambda>dbuf s.
     let s = set_data dbuf (b_data (bufs s lbuf)) s
     in kbind (bwrite h dbuf s) (\<lambda>_ s.
        kbind (if \<not> recovering then bunpin h dbuf s else Ok () s) (\<lambda>_ s.
        kbind (brelse h lbuf s) (\<lambda>_ s. brelse h dbuf s))))))"

definition install_trans :: "nat \<Rightarrow> bool \<Rightarrow> 'a klog_scheme \<Rightarrow> (unit, 'a klog_scheme) res" where
  "install_trans h recovering s = kfor (install_one h recovering) [0..<nat (lh_n s)] s"

definition read_head :: "nat \<Rightarrow> 'a klog_scheme \<Rightarrow> (unit, 'a klog_scheme) res" where
  "read_head h s =
     kbind (bread h (log_dev s) (log_start s) s) (\<lambda>b s.
     let d = b_data (bufs s b);
         s = s\<lparr>lh_n := get_head_n d\<rparr>;
         s = fold (\<lambda>i s. s\<lparr>lh_block := (lh_block s)(i := get_head_block d i)\<rparr>) [0..<nat (lh_n s)] s
     in brelse h b s)"

definition write_head :: "nat \<Rightarrow> 'a klog_scheme \<Rightarrow> (unit, 'a klog_scheme) res" where
  "write_head h s =
     kbind (bread h (log_dev s) (log_start s) s) (\<lambda>b s.
     let s = set_data b (put_head (lh_n s) (lh_block s) (b_data (bufs s b))) s
     in kbind (bwrite h b s) (\<lambda>_ s. brelse h b s))"

definition recover_from_log :: "nat \<Rightarrow> 'a klog_scheme \<Rightarrow> (unit, 'a klog_scheme) res" where
  "recover_from_log h s =
     kbind (read_head h s) (\<lambda>_ s.
     kbind (install_trans h True s) (\<lambda>_ s. write_head h (s\<lparr>lh_n := 0\<rparr>)))"

definition initlog :: "nat \<Rightarrow> u32 \<Rightarrow> superblock \<Rightarrow> 'a klog_scheme \<Rightarrow> (unit, 'a klog_scheme) res" where
  "initlog h dev sb s =
     (if LOGHEADER_SIZE \<ge> BSIZE then Panic ''initlog: too big logheader''
      else recover_from_log h ((initlock LLog ''log'' s)\<lparr>log_start := sb_logstart sb, log_dev := dev\<rparr>))"

definition write_log_one :: "nat \<Rightarrow> nat \<Rightarrow> 'a klog_scheme \<Rightarrow> (unit, 'a klog_scheme) res" where
  "write_log_one h tail s =
     kbind (bread h (log_dev s) (log_start s + of_nat tail + 1) s) (\<lambda>to s.
     kbind (bread h (log_dev s) (lh_block s tail) s) (\<lambda>from s.
     let s = set_data to (b_data (bufs s from)) s
     in kbind (bwrite h to s) (\<lambda>_ s.
        kbind (brelse h from s) (\<lambda>_ s. brelse h to s))))"

definition write_log :: "nat \<Rightarrow> 'a klog_scheme \<Rightarrow> (unit, 'a klog_scheme) res" where
  "write_log h s = kfor (write_log_one h) [0..<nat (lh_n s)] s"

definition commit :: "nat \<Rightarrow> 'a klog_scheme \<Rightarrow> (unit, 'a klog_scheme) res" where
  "commit h s =
     (if lh_n s > 0 then
        kbind (write_log h s) (\<lambda>_ s.
        kbind (write_head h s) (\<lambda>_ s.
        kbind (install_trans h False s) (\<lambda>_ s. write_head h (s\<lparr>lh_n := 0\<rparr>))))
      else Ok () s)"

section \<open>Transactions\<close>

text \<open>\<open>begin_op_test\<close> is the loop from its test on, with the lock held; after a sleep it continues at
  \<open>begin_op_resume\<close>.\<close>

definition begin_op_test :: "nat \<Rightarrow> 'a klog_scheme \<Rightarrow> (unit, 'a klog_scheme) res" where
  "begin_op_test h s =
     (if log_committing s then sleep h ChLog LLog s
      else if lh_n s + (log_outstanding s + 1) * int MAXOPBLOCKS > int LOGBLOCKS then sleep h ChLog LLog s
      else release h LLog (s\<lparr>log_outstanding := log_outstanding s + 1\<rparr>))"

definition begin_op :: "nat \<Rightarrow> 'a klog_scheme \<Rightarrow> (unit, 'a klog_scheme) res" where
  "begin_op h s = kbind (acquire h LLog s) (\<lambda>_ s. begin_op_test h s)"

definition begin_op_resume :: "nat \<Rightarrow> nat \<Rightarrow> 'a klog_scheme \<Rightarrow> (unit, 'a klog_scheme) res" where
  "begin_op_resume h p s = kbind (sleep_resume h p LLog s) (\<lambda>_ s. begin_op_test h s)"

definition end_op :: "nat \<Rightarrow> 'a klog_scheme \<Rightarrow> (unit, 'a klog_scheme) res" where
  "end_op h s =
     kbind (acquire h LLog s) (\<lambda>_ s.
     let s = s\<lparr>log_outstanding := log_outstanding s - 1\<rparr>
     in if log_committing s then Panic ''log.committing''
        else
          let do_commit = (log_outstanding s = 0)
          in kbind (if do_commit then Ok () (s\<lparr>log_committing := True\<rparr>) else wakeup h ChLog s) (\<lambda>_ s.
             kbind (release h LLog s) (\<lambda>_ s.
             if do_commit then
               kbind (commit h s) (\<lambda>_ s.
               kbind (acquire h LLog s) (\<lambda>_ s.
               kbind (wakeup h ChLog (s\<lparr>log_committing := False\<rparr>)) (\<lambda>_ s.
               release h LLog s)))
             else Ok () s)))"

text \<open>The index at which the absorption loop of \<^verbatim>\<open>log_write\<close> stops.\<close>

definition absorb_index :: "u32 \<Rightarrow> 'a klog_scheme \<Rightarrow> nat" where
  "absorb_index bno s =
     (case find (\<lambda>i. lh_block s i = bno) [0..<nat (lh_n s)] of Some i \<Rightarrow> i | None \<Rightarrow> nat (lh_n s))"

definition log_write :: "nat \<Rightarrow> nat \<Rightarrow> 'a klog_scheme \<Rightarrow> (unit, 'a klog_scheme) res" where
  "log_write h b s =
     kbind (acquire h LLog s) (\<lambda>_ s.
     if lh_n s \<ge> int LOGBLOCKS then Panic ''too big a transaction''
     else if log_outstanding s < 1 then Panic ''log_write outside of trans''
     else
       let bno = b_blockno (bufs s b);
           i = absorb_index bno s;
           s = s\<lparr>lh_block := (lh_block s)(i := bno)\<rparr>
       in kbind (if int i = lh_n s
                 then kbind (bpin h b s) (\<lambda>_ s. Ok () (s\<lparr>lh_n := lh_n s + 1\<rparr>))
                 else Ok () s) (\<lambda>_ s.
          release h LLog s))"

section \<open>Header blocks\<close>

lemma put_head_fold_n: "nat n \<le> 30 \<Longrightarrow>
  get32 0 (fold (\<lambda>i. put32 (4 + 4 * i) (blk i)) [0..<nat n] d) = get32 0 d"
proof (induction "nat n" arbitrary: n)
  case (Suc k)
  have "nat (int k) = k" by simp
  with Suc.hyps(1) [of "int k"] Suc.hyps(2) Suc.prems show ?case
    by (simp add: get_put32_other flip: Suc.hyps(2))
qed simp

lemma put_head_fold_block:
  "j < k \<Longrightarrow> k \<le> 30 \<Longrightarrow> get32 (4 + 4 * j) (fold (\<lambda>i. put32 (4 + 4 * i) (blk i)) [0..<k] d) = blk j"
proof (induction k)
  case (Suc k)
  show ?case
  proof (cases "j = k")
    case True
    with Suc.prems show ?thesis by simp
  next
    case False
    with Suc show ?thesis by (simp add: get_put32_other)
  qed
qed simp

lemma head_roundtrip:
  assumes "0 \<le> n" and "n \<le> int LOGBLOCKS"
  shows "get_head_n (put_head n blk d) = n \<and>
    (\<forall>j<nat n. get_head_block (put_head n blk d) j = blk j)"
proof -
  have k: "nat n \<le> 30" using assms by (simp add: LOGBLOCKS_def MAXOPBLOCKS_def)
  have "sint (of_int n :: u32) = n" using assms by (simp add: signed_of_int signed_take_bit_int_eq_self LOGBLOCKS_def MAXOPBLOCKS_def)
  then show ?thesis
    using k put_head_fold_n [OF k] put_head_fold_block [of _ "nat n" blk]
    by (simp add: get_head_n_def get_head_block_def put_head_def)
qed

text \<open>
  the log header survives its encoding: reading back the header block that \<^verbatim>\<open>write_head\<close> wrote for up to
  \<^verbatim>\<open>LOGBLOCKS\<close> entries gives the same count and the same block numbers.
\<close>

theorem log_header_roundtrip:
  assumes "0 \<le> n" and "n \<le> int LOGBLOCKS"
  shows "get_head_n (put_head n blk d) = n \<and>
    (\<forall>j<nat n. get_head_block (put_head n blk d) j = blk j)"
  using assms by (rule head_roundtrip)

theorem log_header_roundtrip_witness:
  "get_head_n (put_head 3 (\<lambda>i. of_nat (40 + i)) (\<lambda>_. 0)) = 3"
  using log_header_roundtrip [of 3 "\<lambda>i. of_nat (40 + i)" "\<lambda>_. 0"] by (simp add: LOGBLOCKS_def MAXOPBLOCKS_def)

section \<open>Synchronous writes\<close>

lemma klog_crit [simp, crit]:
  "idle h (s\<lparr>log_outstanding := a\<rparr>) = idle h s" "(entered h l s)\<lparr>log_outstanding := a\<rparr> = entered h l (s\<lparr>log_outstanding := a\<rparr>)"
  "idle h (s\<lparr>log_committing := c\<rparr>) = idle h s" "(entered h l s)\<lparr>log_committing := c\<rparr> = entered h l (s\<lparr>log_committing := c\<rparr>)"
  "idle h (s\<lparr>lh_n := n\<rparr>) = idle h s" "(entered h l s)\<lparr>lh_n := n\<rparr> = entered h l (s\<lparr>lh_n := n\<rparr>)"
  "idle h (s\<lparr>lh_block := f\<rparr>) = idle h s" "(entered h l s)\<lparr>lh_block := f\<rparr> = entered h l (s\<lparr>lh_block := f\<rparr>)"
  "log_outstanding (entered h l s) = log_outstanding s" "log_committing (entered h l s) = log_committing s"
  "lh_n (entered h l s) = lh_n s" "lh_block (entered h l s) = lh_block s"
  by (auto simp: idle_def lock_free_def entered_def push_off_def Let_def intr_off_def intr_get_def)

lemma bio_inv_cong:
  assumes "sleeplocks t = sleeplocks s" and "bufs t = bufs s" and "b_prev t = b_prev s" and "b_next t = b_next s"
    and "disk t = disk s"
  shows "bio_inv P t = bio_inv P s" and "held t = held s" and "view t = view s" and "cached t = cached s"
proof -
  show c: "cached t = cached s" using assms by (intro ext) (simp add: cached_def)
  show "view t = view s" using assms c by (intro ext) (simp add: view_def split: option.split)
  show "bio_inv P t = bio_inv P s" using assms by (simp add: bio_inv_def lru_def)
  show "held t = held s" using assms by (simp add: held_def)
qed

lemma klog_bio [simp]:
  "bio_inv P (s\<lparr>lh_n := n\<rparr>) = bio_inv P s" "held (s\<lparr>lh_n := n\<rparr>) = held s" "view (s\<lparr>lh_n := n\<rparr>) = view s"
  "bio_inv P (s\<lparr>lh_block := f\<rparr>) = bio_inv P s" "held (s\<lparr>lh_block := f\<rparr>) = held s" "view (s\<lparr>lh_block := f\<rparr>) = view s"
  "bio_inv P (s\<lparr>log_outstanding := a\<rparr>) = bio_inv P s" "held (s\<lparr>log_outstanding := a\<rparr>) = held s"
  "view (s\<lparr>log_outstanding := a\<rparr>) = view s"
  "bio_inv P (s\<lparr>log_committing := c\<rparr>) = bio_inv P s" "held (s\<lparr>log_committing := c\<rparr>) = held s"
  "view (s\<lparr>log_committing := c\<rparr>) = view s"
  by (rule bio_inv_cong; simp)+

lemma uart_bio [simp]:
  "bio_inv P (s\<lparr>uart_out := x\<rparr>) = bio_inv P s" "held (s\<lparr>uart_out := x\<rparr>) = held s" "view (s\<lparr>uart_out := x\<rparr>) = view s"
  by (rule bio_inv_cong; simp)+

lemma klog_frame:
  assumes "cache_frame s t"
  shows "log_start t = log_start s" "log_outstanding t = log_outstanding s" "log_committing t = log_committing s"
    "log_dev t = log_dev s" "lh_n t = lh_n s" "lh_block t = lh_block s" "klog.more t = klog.more s"
proof -
  let ?t = "t\<lparr>sleeplocks := sleeplocks s, bufs := bufs s, b_prev := b_prev s, b_next := b_next s,
       disk := disk s, disk_writes := disk_writes s\<rparr>"
  have eq: "?t = s" using assms by (simp add: cache_frame_def)
  have "log_start ?t = log_start t" "log_outstanding ?t = log_outstanding t" "log_committing ?t = log_committing t"
    "log_dev ?t = log_dev t" "lh_n ?t = lh_n t" "lh_block ?t = lh_block t" "klog.more ?t = klog.more t" by simp_all
  with eq show "log_start t = log_start s" "log_outstanding t = log_outstanding s" "log_committing t = log_committing s"
    "log_dev t = log_dev s" "lh_n t = lh_n s" "lh_block t = lh_block s" "klog.more t = klog.more s" by simp_all
qed

text \<open>\<open>apply_writes ws d\<close>: the disk after the writes \<open>ws\<close>.  \<open>synced h Q ws s t\<close>: from \<open>s\<close> to \<open>t\<close> exactly the blocks \<open>ws\<close>
  were changed and written, nothing is held, and the blocks pinned are \<open>Q\<close>.\<close>

definition apply_writes :: "(u32 \<times> block) list \<Rightarrow> (u32 \<Rightarrow> block) \<Rightarrow> u32 \<Rightarrow> block" where
  "apply_writes ws d = fold (\<lambda>(b, x) d. d(b := x)) ws d"

lemma apply_writes_simps [simp]:
  "apply_writes [] d = d" "apply_writes ((b, x) # ws) d = apply_writes ws (d(b := x))"
  "apply_writes (us @ ws) d = apply_writes ws (apply_writes us d)"
  by (simp_all add: apply_writes_def)

lemma apply_writes_other: "b \<notin> fst ` set ws \<Longrightarrow> apply_writes ws d b = d b"
  by (induction ws arbitrary: d) auto

lemma apply_writes_in:
  "distinct (map fst ws) \<Longrightarrow> (b, x) \<in> set ws \<Longrightarrow> apply_writes ws d b = x"
  by (induction ws arbitrary: d) (auto simp: apply_writes_other)

text \<open>\<open>out_frame s t\<close>: \<open>t\<close> differs from \<open>s\<close> at most in the cache, the disk and the console output.\<close>

definition out_frame :: "'a kbio_scheme \<Rightarrow> 'a kbio_scheme \<Rightarrow> bool" where
  "out_frame s t \<longleftrightarrow> cache_frame (s\<lparr>uart_out := uart_out t\<rparr>) t"

lemma cache_frame_out: "cache_frame s t \<Longrightarrow> cache_frame (s\<lparr>uart_out := x\<rparr>) (t\<lparr>uart_out := x\<rparr>)"
proof -
  assume a: "cache_frame s t"
  let ?f = "\<lambda>t s. t\<lparr>sleeplocks := sleeplocks s, bufs := bufs s, b_prev := b_prev s, b_next := b_next s,
       disk := disk s, disk_writes := disk_writes s\<rparr>"
  have "?f (t\<lparr>uart_out := x\<rparr>) (s\<lparr>uart_out := x\<rparr>) = (?f t s)\<lparr>uart_out := x\<rparr>" by simp
  with a show ?thesis by (simp add: cache_frame_def)
qed

lemma out_frame_cache: "cache_frame s t \<Longrightarrow> out_frame s t"
  using cache_frame_eqs(5) [of s t] by (simp add: out_frame_def)

lemma out_frame_trans: "out_frame s t \<Longrightarrow> out_frame t u \<Longrightarrow> out_frame s u"
  using cache_frame_out [of "s\<lparr>uart_out := uart_out t\<rparr>" t "uart_out u"] cache_frame_trans
  unfolding out_frame_def by fastforce

lemma klog_out_frame:
  assumes "out_frame s t"
  shows "log_start t = log_start s" "log_outstanding t = log_outstanding s" "log_committing t = log_committing s"
    "log_dev t = log_dev s" "lh_n t = lh_n s" "lh_block t = lh_block s" "klog.more t = klog.more s"
  using klog_frame [OF assms [unfolded out_frame_def]] by simp_all

definition synced :: "nat \<Rightarrow> u32 set \<Rightarrow> (u32 \<times> block) list \<Rightarrow> 'a klog_scheme \<Rightarrow> 'a klog_scheme \<Rightarrow> bool" where
  "synced h Q ws s t \<longleftrightarrow> idle h t \<and> bio_inv Q t \<and> held t = {} \<and> out_frame s t \<and>
     view t = apply_writes ws (view s) \<and> disk t = apply_writes ws (disk s) \<and>
     disk_writes t = disk_writes s @ ws"

lemma synced_trans: "synced h Q us s t \<Longrightarrow> synced h R ws t u \<Longrightarrow> synced h R (us @ ws) s u"
  by (auto simp: synced_def intro: out_frame_trans)

lemma clean_block:
  assumes "bio_inv P s" and "b \<notin> P" and "b \<notin> held s"
  shows "view s b = disk s b"
proof (cases "cached s b")
  case (Some i)
  then have i: "i < NBUF" "is_block b (bufs s i)" using cached_Some by auto
  have "\<not> sl_locked (sleeplocks s (SBuf i))" using assms(3) i by (auto simp: held_def)
  moreover have "\<not> pinned P (bufs s i)" using assms(2) i by (simp add: pinned_def is_block_def)
  ultimately have "b_refcnt (bufs s i) = 0" using buf_ok_refcnt [OF bio_buf [OF assms(1) i(1)]] by simp
  with bio_buf [OF assms(1) i(1)] i(2) Some show ?thesis by (simp add: buf_ok_def view_def is_block_def)
qed (simp add: view_def)

lemma write_head_spec:
  assumes "idle h s" and "bio_inv P s" and "finite P" and "held s = {}" and "card P < NBUF"
    and "log_dev s = ROOTDEV" and "log_start s \<notin> P"
  obtains t where "write_head h s = Ok () t"
    and "synced h P [(log_start s, put_head (lh_n s) (lh_block s) (view s (log_start s)))] s t"
proof -
  let ?b = "log_start s" and ?d = "put_head (lh_n s) (lh_block s) (view s (log_start s))"
  obtain i s1 where b1: "bread h ROOTDEV ?b s = Ok i s1" and r1: "after_read h P ?b i s s1"
    using bread_after [OF assms(1-3), of ?b] assms(4,5) by auto
  let ?s2 = "set_data i ?d s1"
  from r1 have v1: "bio_inv P s1" and h1: "holds h s1 i ?b" by (auto simp: after_read_def)
  note sd = set_data_spec [OF v1 h1, of ?d]
  have "idle h ?s2" "holds h ?s2 i ?b" using r1 sd by (auto simp: after_read_def)
  then obtain s3 where b3: "bwrite h i ?s2 = Ok () s3" and r3: "after_write h P ?b ?s2 s3"
    using bwrite_after [of h ?s2 P i ?b] sd(1) by auto
  then have "idle h s3" "bio_inv P s3" "holds h s3 i ?b" "view s3 ?b = disk s3 ?b"
    using \<open>holds h ?s2 i ?b\<close> by (auto simp: after_write_def)
  then obtain s4 where b4: "brelse h i s3 = Ok () s4" and r4: "after_relse h P ?b s3 s4"
    using brelse_after [of h s3 P i ?b] by auto
  have f1: "cache_frame s s1" using r1 by (simp add: after_read_def)
  have "cache_frame s s4" using f1 sd(7) r3 r4 cache_frame_trans unfolding after_defs by meson
  then have fr: "out_frame s s4" by (rule out_frame_cache)
  have "write_head h s = Ok () s4"
    using b1 b3 b4 r1 assms(6) klog_frame [OF f1] by (simp add: write_head_def Let_def after_read_def)
  moreover have "synced h P [(?b, ?d)] s s4"
    unfolding synced_def using r1 sd r3 r4 fr assms(4) by (simp add: after_defs)
  ultimately show ?thesis by (rule that)
qed

text \<open>One step of \<^verbatim>\<open>write_log\<close>: block \<open>b\<close>, pinned in the cache, is copied to log block \<open>lb\<close>.\<close>

lemma write_log_one_spec:
  assumes "idle h s" and "bio_inv P s" and "finite P" and "held s = {}" and "card P < NBUF"
    and "log_dev s = ROOTDEV" and "lb = log_start s + of_nat k + 1" and "b = lh_block s k" and "lb \<notin> P" and "b \<in> P"
  obtains t where "write_log_one h k s = Ok () t" and "synced h P [(lb, view s b)] s t"
proof -
  have nb: "lb \<noteq> b" using assms(9,10) by auto
  obtain i s1 where b1: "bread h ROOTDEV lb s = Ok i s1" and r1: "after_read h P lb i s s1"
    using bread_after [OF assms(1-3), of lb] assms(4,5) by auto
  then have "idle h s1" "bio_inv P s1" "b \<notin> held s1" using assms(4) nb by (auto simp: after_read_def)
  then obtain j s2 where b2: "bread h ROOTDEV b s1 = Ok j s2" and r2: "after_read h P b j s1 s2"
    using bread_after [OF _ _ assms(3), of h s1 b] assms(10) by auto
  have h2: "bio_inv P s2" "holds h s2 i lb" "holds h s2 j b" using r1 r2 by (auto simp: after_read_def)
  let ?s3 = "set_data i (view s b) s2"
  note sd = set_data_spec [OF h2(1,2), of "view s b"]
  have "idle h ?s3" "holds h ?s3 i lb" using r2 sd h2 by (auto simp: after_read_def)
  then obtain s4 where b4: "bwrite h i ?s3 = Ok () s4" and r4: "after_write h P lb ?s3 s4"
    using bwrite_after [of h ?s3 P i lb] sd(1) by auto
  have h4: "idle h s4" "bio_inv P s4" "holds h s4 i lb" "holds h s4 j b"
    using r4 sd(3) h2 by (auto simp: after_write_def)
  then obtain s5 where b5: "brelse h j s4 = Ok () s5" and r5: "after_relse h P b s4 s5"
    using brelse_after [of h s4 P j b] assms(10) by auto
  have "idle h s5" "bio_inv P s5" "holds h s5 i lb" "view s5 lb = disk s5 lb"
    using r5 h4 nb r4 sd by (auto simp: after_relse_def after_write_def)
  then obtain s6 where b6: "brelse h i s5 = Ok () s6" and r6: "after_relse h P lb s5 s6"
    using brelse_after [of h s5 P i lb] by auto
  have f1: "cache_frame s s1" and f2: "cache_frame s1 s2" using r1 r2 by (auto simp: after_read_def)
  have "cache_frame s s6" using f1 f2 sd(7) r4 r5 r6 cache_frame_trans unfolding after_defs by meson
  then have fr: "out_frame s s6" by (rule out_frame_cache)
  have d2: "b_data (bufs s2 j) = view s b" using r1 r2 by (simp add: after_read_def)
  have "write_log_one h k s = Ok () s6"
    using b1 b2 b4 b5 b6 d2 assms(6,7,8) klog_frame [OF f1] by (simp add: write_log_one_def Let_def)
  moreover have "synced h P [(lb, view s b)] s s6"
    unfolding synced_def using r1 r2 sd r4 r5 r6 fr assms(4) nb by (auto simp: after_defs)
  ultimately show ?thesis by (rule that)
qed

text \<open>One step of \<^verbatim>\<open>install_trans\<close>; at recovery nothing is pinned, in a commit the block becomes unpinned.\<close>

lemma install_one_spec:
  assumes "idle h s" and "bio_inv P s" and "finite P" and "held s = {}" and "card P < NBUF"
    and "log_dev s = ROOTDEV" and "lb = log_start s + of_nat k + 1" and "b = lh_block s k" and "lb \<notin> P" and "lb \<noteq> b"
    and "b \<in> P \<longleftrightarrow> \<not> recovering" and "recovering \<longrightarrow> P = {}"
  obtains t where "install_one h recovering k s = Ok () t" and "synced h (P - {b}) [(b, view s lb)] s t"
proof -
  obtain out where out: "printf_fmt kdigits (''recovering tail %d dst %d'' @ NL) [AInt (of_nat k), AInt (lh_block s k)] = Some out"
    unfolding NL_def AInt_def by (simp add: printf_rules)
  let ?u = "if recovering then s\<lparr>uart_out := uart_out s @ out\<rparr> else s"
  have pr: "(if recovering then printf h (''recovering tail %d dst %d'' @ NL) [AInt (of_nat k), AInt (lh_block s k)] s
      else Ok () s) = Ok () ?u"
  proof -
    have "lock_free LPr s" using assms(1) by (simp add: idle_def)
    with printf_ok [OF idle_wf [OF assms(1)] _ out] assms(1) show ?thesis by (simp add: idle_settle)
  qed
  have uc: "bio_inv P ?u = bio_inv P s" "held ?u = held s" "view ?u = view s"
    by simp_all
  have ui: "idle h ?u" using assms(1) by (auto simp: idle_def lock_free_def)
  have uf: "log_dev ?u = log_dev s" "log_start ?u = log_start s" "lh_block ?u = lh_block s" "disk ?u = disk s"
    "disk_writes ?u = disk_writes s" by auto
  obtain i s1 where b1: "bread h ROOTDEV lb ?u = Ok i s1" and r1: "after_read h P lb i ?u s1"
    using bread_after [OF ui, of P lb] assms(2-5) uc by auto
  have c1: "b \<notin> held s1" "idle h s1" "bio_inv P s1" using r1 assms(4,10) uc by (auto simp: after_read_def)
  have "b \<in> P \<or> card (held s1 \<union> P) < NBUF"
    using assms(4,11,12) r1 uc by (auto simp: after_read_def NBUF_def MAXOPBLOCKS_def)
  then obtain j s2 where b2: "bread h ROOTDEV b s1 = Ok j s2" and r2: "after_read h P b j s1 s2"
    using bread_after [OF c1(2,3) assms(3) c1(1)] by auto
  have h2: "bio_inv P s2" "holds h s2 i lb" "holds h s2 j b" using r1 r2 by (auto simp: after_read_def)
  let ?s3 = "set_data j (view s lb) s2"
  note sd = set_data_spec [OF h2(1,3), of "view s lb"]
  have "idle h ?s3" "holds h ?s3 j b" using r2 sd h2 by (auto simp: after_read_def)
  then obtain s4 where b4: "bwrite h j ?s3 = Ok () s4" and r4: "after_write h P b ?s3 s4"
    using bwrite_after [of h ?s3 P j b] sd(1) by auto
  have h4: "idle h s4" "bio_inv P s4" "holds h s4 i lb" "holds h s4 j b"
    using r4 sd(3) h2 by (auto simp: after_write_def)
  obtain s5 where b5: "(if \<not> recovering then bunpin h j s4 else Ok () s4) = Ok () s5" and r5: "after_pin h (P - {b}) s4 s5"
  proof (cases recovering)
    case True
    then show ?thesis using that [of s4] h4 assms(12) by (auto simp: after_pin_def)
  next
    case False
    then show ?thesis using that bunpin_after [OF h4(1,2,4)] assms(11) by auto
  qed
  have clean: "view s lb = disk s lb" using clean_block [OF assms(2)] assms(4,9) by simp
  have h5: "idle h s5" "bio_inv (P - {b}) s5" "holds h s5 i lb" "view s5 lb = disk s5 lb"
    using r5 h4 r4 sd r2 r1 clean assms(10) uc uf by (auto simp: after_defs)
  then obtain s6 where b6: "brelse h i s5 = Ok () s6" and r6: "after_relse h (P - {b}) lb s5 s6"
    using brelse_after [of h s5 "P - {b}" i lb] by auto
  have "idle h s6" "bio_inv (P - {b}) s6" "holds h s6 j b" "view s6 b = disk s6 b"
    using r6 r5 h4 r4 sd assms(10) by (auto simp: after_defs)
  then obtain s7 where b7: "brelse h j s6 = Ok () s7" and r7: "after_relse h (P - {b}) b s6 s7"
    using brelse_after [of h s6 "P - {b}" j b] by auto
  have f1: "cache_frame ?u s1" and f2: "cache_frame s1 s2" using r1 r2 by (auto simp: after_read_def)
  have "cache_frame ?u s7" using f1 f2 sd(7) r4 r5 r6 r7 cache_frame_trans unfolding after_defs by meson
  then have "out_frame ?u s7" by (rule out_frame_cache)
  then have fr: "out_frame s s7" by (cases recovering) (simp_all add: out_frame_def)
  have d2: "b_data (bufs s2 i) = view s lb"
    using holds_data [OF h2(1,2)] r1 r2 uc by (simp add: after_read_def)
  have "install_one h recovering k s = Ok () s7"
    using pr b1 b2 b4 b5 b6 b7 d2 assms(6,7,8) klog_frame [OF f1] uf by (simp add: install_one_def Let_def)
  moreover have "synced h (P - {b}) [(b, view s lb)] s s7"
    unfolding synced_def using r1 r2 sd r4 r5 r6 r7 fr assms(4,10) uc uf by (auto simp: after_defs)
  ultimately show ?thesis by (rule that)
qed

section \<open>Commit\<close>

abbreviation log_block :: "'a klog_scheme \<Rightarrow> nat \<Rightarrow> u32" where
  "log_block s k \<equiv> log_start s + of_nat k + 1"

definition logged :: "'a klog_scheme \<Rightarrow> nat \<Rightarrow> (u32 \<times> block) list" where
  "logged s n = map (\<lambda>k. (log_block s k, view s (lh_block s k))) [0..<n]"

definition installed :: "'a klog_scheme \<Rightarrow> nat \<Rightarrow> (u32 \<times> block) list" where
  "installed s n = map (\<lambda>k. (lh_block s k, view s (log_block s k))) [0..<n]"

lemma logged_fst: "fst ` set (logged s n) = log_block s ` {..<n}" "fst ` set (installed s n) = lh_block s ` {..<n}"
  by (auto simp: logged_def installed_def image_image atLeast0LessThan)

lemma write_log_loop:
  assumes "idle h s" and "bio_inv P s" and "finite P" and "held s = {}" and "card P < NBUF" and "log_dev s = ROOTDEV"
    and "\<forall>k<n. log_block s k \<notin> P \<and> lh_block s k \<in> P"
  shows "\<exists>t. kfor (write_log_one h) [0..<n] s = Ok () t \<and> synced h P (logged s n) s t"
  using assms(7)
proof (induction n)
  case 0
  then show ?case using assms by (auto simp: synced_def logged_def out_frame_cache)
next
  case (Suc n)
  then obtain t where t: "kfor (write_log_one h) [0..<n] s = Ok () t" "synced h P (logged s n) s t" by auto
  then have fr: "out_frame s t" and vt: "view t = apply_writes (logged s n) (view s)" by (auto simp: synced_def)
  note eq = klog_out_frame [OF fr]
  have inP: "lh_block s n \<in> P" and nl: "\<And>k. k < n \<Longrightarrow> log_block s k \<notin> P" using Suc.prems by auto
  have "lh_block s n \<notin> log_block s ` {..<n}"
  proof
    assume "lh_block s n \<in> log_block s ` {..<n}"
    then obtain k where "lh_block s n = log_block s k" and "k \<in> {..<n}" by (rule imageE)
    with inP nl [of k] show False by (simp only: lessThan_iff)
  qed
  then have v: "view t (lh_block s n) = view s (lh_block s n)"
    using apply_writes_other [of "lh_block s n" "logged s n" "view s"] by (simp add: vt logged_fst)
  have "idle h t" "bio_inv P t" "held t = {}" using t(2) by (auto simp: synced_def)
  from write_log_one_spec [OF this(1,2) assms(3) this(3) assms(5), of "log_block s n" n "lh_block s n"]
  obtain u where u: "write_log_one h n t = Ok () u" "synced h P [(log_block s n, view s (lh_block s n))] t u"
    using assms(6) Suc.prems eq v by auto
  have "synced h P (logged s (Suc n)) s u" using synced_trans [OF t(2) u(2)] by (simp add: logged_def)
  with t(1) u(1) show ?case by (auto simp: kfor_append)
qed

lemma install_loop:
  assumes "idle h s" and "bio_inv P s" and "finite P" and "held s = {}" and "card P < NBUF" and "log_dev s = ROOTDEV"
    and "\<forall>k<n. \<forall>j<n. log_block s j \<noteq> lh_block s k" and "\<forall>k<n. log_block s k \<notin> P"
    and "if recovering then P = {} else (\<forall>k<n. lh_block s k \<in> P) \<and> inj_on (lh_block s) {..<n}"
  shows "\<exists>t. kfor (install_one h recovering) [0..<n] s = Ok () t \<and>
    synced h (P - lh_block s ` {..<n}) (installed s n) s t"
  using assms(7-9)
proof (induction n)
  case 0
  then show ?case using assms by (auto simp: synced_def installed_def out_frame_cache)
next
  case (Suc n)
  have prem: "\<forall>k<n. \<forall>j<n. log_block s j \<noteq> lh_block s k" "\<forall>k<n. log_block s k \<notin> P"
    "if recovering then P = {} else (\<forall>k<n. lh_block s k \<in> P) \<and> inj_on (lh_block s) {..<n}"
    using Suc.prems by (auto split: if_splits intro: inj_on_subset)
  let ?Q = "P - lh_block s ` {..<n}"
  from Suc.IH [OF prem] obtain t where t: "kfor (install_one h recovering) [0..<n] s = Ok () t"
    "synced h ?Q (installed s n) s t" by auto
  then have fr: "out_frame s t" and vt: "view t = apply_writes (installed s n) (view s)" by (auto simp: synced_def)
  note eq = klog_out_frame [OF fr]
  have "log_block s n \<notin> lh_block s ` {..<n}" using Suc.prems(1) by force
  then have v: "view t (log_block s n) = view s (log_block s n)"
    using apply_writes_other [of "log_block s n" "installed s n" "view s"] by (simp add: vt logged_fst)
  have new: "lh_block s n \<notin> lh_block s ` {..<n}" if "\<not> recovering"
    using Suc.prems(3) that by (auto simp: lessThan_Suc)
  have i: "idle h t" "bio_inv ?Q t" "held t = {}" using t(2) by (auto simp: synced_def)
  have fin: "finite ?Q" "card ?Q < NBUF"
    using assms(3,5) card_mono [of P ?Q] by (auto intro: le_less_trans)
  have side: "log_dev t = ROOTDEV" "log_block s n = log_start t + of_nat n + 1" "lh_block s n = lh_block t n"
    "log_block s n \<notin> ?Q" "log_block s n \<noteq> lh_block s n" "lh_block s n \<in> ?Q \<longleftrightarrow> \<not> recovering" "recovering \<longrightarrow> ?Q = {}"
    using assms(6) Suc.prems eq new by (auto split: if_splits)
  from install_one_spec [OF i(1,2) fin(1) i(3) fin(2) side]
  obtain u where u: "install_one h recovering n t = Ok () u" "synced h (?Q - {lh_block s n}) [(lh_block s n, view s (log_block s n))] t u"
    using v by metis
  have "?Q - {lh_block s n} = P - lh_block s ` {..<Suc n}" by (auto simp: lessThan_Suc)
  then have "synced h (P - lh_block s ` {..<Suc n}) (installed s (Suc n)) s u"
    using synced_trans [OF t(2) u(2)] by (simp add: installed_def)
  with t(1) u(1) show ?case by (auto simp: kfor_append)
qed

text \<open>\<open>log_wf P n s\<close>: a transaction of \<open>n\<close> blocks that is ready to commit: the blocks in the in-memory header are exactly the
  pinned ones, they are not in the log area, at least one buffer is not pinned, and nothing is held.\<close>

definition log_area :: "u32 \<Rightarrow> u32 set" where
  "log_area st = {st} \<union> (\<lambda>k. st + of_nat k + 1) ` {..<LOGBLOCKS}"

definition log_wf :: "u32 set \<Rightarrow> nat \<Rightarrow> 'a klog_scheme \<Rightarrow> bool" where
  "log_wf P n s \<longleftrightarrow> bio_inv P s \<and> held s = {} \<and> log_dev s = ROOTDEV \<and> lh_n s = int n \<and> n \<le> LOGBLOCKS \<and> n < NBUF \<and>
     P = lh_block s ` {..<n} \<and> inj_on (lh_block s) {..<n} \<and> P \<inter> log_area (log_start s) = {}"

lemma log_area_block: "k < LOGBLOCKS \<Longrightarrow> st + of_nat k + 1 \<in> log_area st"
  by (simp add: log_area_def)

lemma log_blocks_inj: "inj_on (\<lambda>k. st + of_nat k + 1 :: u32) {..<LOGBLOCKS}"
proof (rule inj_onI)
  fix j k assume "j \<in> {..<LOGBLOCKS}" "k \<in> {..<LOGBLOCKS}" "st + of_nat j + 1 = st + of_nat k + (1 :: u32)"
  then have "unat (of_nat j :: u32) = unat (of_nat k :: u32)" and "j < 30" "k < 30"
    by (simp_all add: LOGBLOCKS_def MAXOPBLOCKS_def)
  then show "j = k" by (simp add: unat_of_nat)
qed

lemma log_start_not_block: "k < LOGBLOCKS \<Longrightarrow> st + of_nat k + 1 \<noteq> (st :: u32)"
proof
  assume k: "k < LOGBLOCKS" and "st + of_nat k + 1 = st"
  then have "(of_nat (Suc k) :: u32) = 0" by (simp add: add.commute)
  then have "unat (of_nat (Suc k) :: u32) = 0" by simp
  with k show False by (simp add: unat_of_nat LOGBLOCKS_def MAXOPBLOCKS_def del: of_nat_Suc)
qed

definition homes :: "'a klog_scheme \<Rightarrow> nat \<Rightarrow> (u32 \<times> block) list" where
  "homes s n = map (\<lambda>k. (lh_block s k, view s (lh_block s k))) [0..<n]"

definition full_head :: "'a klog_scheme \<Rightarrow> nat \<Rightarrow> block" where
  "full_head s n = put_head (int n) (lh_block s) (view s (log_start s))"

text \<open>The disk writes of a commit of \<open>n\<close> blocks, in order.\<close>

definition commit_writes :: "'a klog_scheme \<Rightarrow> nat \<Rightarrow> (u32 \<times> block) list" where
  "commit_writes s n = logged s n @ [(log_start s, full_head s n)] @ homes s n @
     [(log_start s, put_head 0 (lh_block s) (full_head s n))]"

lemma log_wfD:
  assumes "log_wf P n s"
  shows "bio_inv P s" "held s = {}" "log_dev s = ROOTDEV" "lh_n s = int n" "n \<le> LOGBLOCKS" "P = lh_block s ` {..<n}"
    "finite P" "card P < NBUF" "\<And>k. k < n \<Longrightarrow> log_block s k \<notin> P" "\<And>k. k < n \<Longrightarrow> lh_block s k \<in> P" "log_start s \<notin> P"
    "\<And>j k. j < n \<Longrightarrow> k < n \<Longrightarrow> log_block s j \<noteq> lh_block s k" "inj_on (lh_block s) {..<n}"
proof -
  from assms show "bio_inv P s" "held s = {}" "log_dev s = ROOTDEV" "lh_n s = int n" "n \<le> LOGBLOCKS"
    "P = lh_block s ` {..<n}" "inj_on (lh_block s) {..<n}" unfolding log_wf_def by blast+
  then show "finite P" "\<And>k. k < n \<Longrightarrow> lh_block s k \<in> P" by auto
  show "card P < NBUF" using assms by (simp add: log_wf_def card_image)
  have dj: "P \<inter> log_area (log_start s) = {}" using assms unfolding log_wf_def by blast
  show "log_start s \<notin> P" using dj by (auto simp: log_area_def)
  show nl: "log_block s k \<notin> P" if "k < n" for k
    using dj log_area_block [of k "log_start s"] that \<open>n \<le> LOGBLOCKS\<close> by auto
  show "log_block s j \<noteq> lh_block s k" if "j < n" "k < n" for j k
    using nl [OF that(1)] \<open>\<And>k. k < n \<Longrightarrow> lh_block s k \<in> P\<close> [OF that(2)] by metis
qed

lemma commit_runs:
  assumes "idle h s" and "log_wf P n s" and "0 < n"
  shows "\<exists>t. commit h s = Ok () t \<and> idle h t \<and> bio_inv {} t \<and> held t = {} \<and> lh_n t = 0 \<and>
    disk_writes t = disk_writes s @ commit_writes s n \<and> disk t = apply_writes (commit_writes s n) (disk s) \<and>
    view t = apply_writes (commit_writes s n) (view s) \<and> log_start t = log_start s \<and>
    log_outstanding t = log_outstanding s \<and> log_committing t = log_committing s"
proof -
  note w = log_wfD [OF assms(2)]
  have le: "nat (lh_n s) = n" by (simp add: w(4))
  obtain s1 where s1: "write_log h s = Ok () s1" "synced h P (logged s n) s s1"
    using write_log_loop [OF assms(1) w(1,7,2,8,3), of n] w(9,10) by (auto simp: write_log_def le)
  have f1: "out_frame s s1" and v1: "view s1 = apply_writes (logged s n) (view s)"
    and i1: "idle h s1" "bio_inv P s1" "held s1 = {}" using s1(2) by (auto simp: synced_def)
  note e1 = klog_out_frame [OF f1]
  have st1: "view s1 (log_start s) = view s (log_start s)"
  proof -
    have "log_start s \<notin> log_block s ` {..<n}" using log_start_not_block w(5) by fastforce
    then show ?thesis using apply_writes_other [of "log_start s" "logged s n"] by (simp add: v1 logged_fst)
  qed
  obtain s2 where s2: "write_head h s1 = Ok () s2" "synced h P [(log_start s, full_head s n)] s1 s2"
    using write_head_spec [OF i1(1,2) w(7) i1(3) w(8)] w(3,4,11) e1 st1 by (auto simp: full_head_def)
  have f2: "out_frame s s2" and v2: "view s2 = (view s1)(log_start s := full_head s n)"
    and i2: "idle h s2" "bio_inv P s2" "held s2 = {}"
    using s2(2) f1 out_frame_trans by (auto simp: synced_def)
  note e2 = klog_out_frame [OF f2]
  have inst: "installed s2 n = homes s n"
  proof -
    have "view s2 (log_block s k) = view s (lh_block s k)" if "k < n" for k
    proof -
      have "k < LOGBLOCKS" using that w(5) by simp
      have "distinct (map fst (logged s n))"
        using inj_on_subset [OF log_blocks_inj [of "log_start s"], of "{..<n}"] w(5)
        by (simp add: logged_def comp_def distinct_map atLeast0LessThan)
      moreover have "(log_block s k, view s (lh_block s k)) \<in> set (logged s n)" using that by (auto simp: logged_def)
      ultimately show ?thesis
        using log_start_not_block [OF \<open>k < LOGBLOCKS\<close>, of "log_start s"] by (simp add: v2 v1 apply_writes_in)
    qed
    then show ?thesis using e2 by (simp add: installed_def homes_def)
  qed
  have "\<exists>t. kfor (install_one h False) [0..<n] s2 = Ok () t \<and> synced h (P - lh_block s2 ` {..<n}) (installed s2 n) s2 t"
    using w(3,9,10,12,13) e2 by (intro install_loop [OF i2(1,2) w(7) i2(3) w(8)]) auto
  then obtain s3 where s3: "install_trans h False s2 = Ok () s3" "synced h {} (homes s n) s2 s3"
    using e2 le w(6) by (auto simp: install_trans_def inst)
  have f3: "out_frame s s3" and v3: "view s3 = apply_writes (homes s n) (view s2)"
    and i3: "idle h s3" "bio_inv {} s3" "held s3 = {}"
    using s3(2) f2 out_frame_trans by (auto simp: synced_def)
  note e3 = klog_out_frame [OF f3]
  have st3: "view s3 (log_start s) = full_head s n"
  proof -
    have "fst ` set (homes s n) = P" using w(6) by (auto simp: homes_def image_image atLeast0LessThan)
    then show ?thesis using apply_writes_other [of "log_start s" "homes s n"] w(11) by (simp add: v3 v2)
  qed
  let ?s3 = "s3\<lparr>lh_n := 0\<rparr>"
  obtain s4 where s4: "write_head h ?s3 = Ok () s4"
    "synced h {} [(log_start s, put_head 0 (lh_block s) (full_head s n))] ?s3 s4"
    using write_head_spec [of h ?s3 "{}"] i3 w(3) e3 st3 by (auto simp: NBUF_def MAXOPBLOCKS_def)
  have run: "commit h s = Ok () s4" using s1(1) s2(1) s3(1) s4(1) assms(3) w(4) by (simp add: commit_def)
  have "out_frame ?s3 s4" using s4(2) by (simp add: synced_def)
  note e4 = klog_out_frame [OF this]
  show ?thesis
    using run s1(2) s2(2) s3(2) s4(2) e3 e4
    by (intro exI [of _ s4]) (simp add: synced_def commit_writes_def)
qed

section \<open>Recovery\<close>

text \<open>What \<^verbatim>\<open>recover_from_log\<close> makes of a disk: the committed blocks installed, the header empty.\<close>

lemma read_head_fold:
  "fold (\<lambda>i s. s\<lparr>lh_block := (lh_block s)(i := f i)\<rparr>) [0..<n] s =
     s\<lparr>lh_block := \<lambda>i. if i < n then f i else lh_block s i\<rparr>"
proof (induction n)
  case (Suc n)
  have "(\<lambda>i. if i < n then f i else lh_block s i)(n := f n) = (\<lambda>i. if i < Suc n then f i else lh_block s i)"
    by (auto simp: less_Suc_eq)
  with Suc show ?case by (simp del: fun_upd_apply)
qed simp

lemma recover_runs:
  assumes "idle h s" and "bio_inv {} s" and "held s = {}" and "log_dev s = ROOTDEV" and "disk s = d"
    and "n = nat (get_head_n (d (log_start s)))" and "n \<le> LOGBLOCKS"
    and "\<forall>k<n. get_head_block (d (log_start s)) k \<notin> log_area (log_start s)"
  shows "\<exists>t e. recover_from_log h s = Ok () t \<and> idle h t \<and> bio_inv {} t \<and> held t = {} \<and> lh_n t = 0 \<and> get_head_n e = 0 \<and>
    disk t = apply_writes (map (\<lambda>k. (get_head_block (d (log_start s)) k, d (log_block s k))) [0..<n] @ [(log_start s, e)]) d"
proof -
  let ?st = "log_start s"
  have vd: "view s = d" using clean_block [OF assms(2)] assms(3,5) by auto
  obtain i s1 where b1: "bread h ROOTDEV ?st s = Ok i s1" and r1: "after_read h {} ?st i s s1"
    using bread_after [OF assms(1,2), of ?st] assms(3) by (auto simp: NBUF_def MAXOPBLOCKS_def)
  have d1: "b_data (bufs s1 i) = d ?st" using r1 vd by (simp add: after_read_def)
  let ?blk = "\<lambda>k. if k < n then get_head_block (d ?st) k else lh_block s k"
  have f1: "cache_frame s s1" using r1 by (simp add: after_read_def)
  let ?s2 = "s1\<lparr>lh_n := get_head_n (d ?st), lh_block := ?blk\<rparr>"
  have h2: "idle h ?s2" "bio_inv {} ?s2" "holds h ?s2 i ?st" "view ?s2 ?st = disk ?s2 ?st" "held ?s2 = {?st}" "disk ?s2 = d"
    using r1 assms(3,5) vd by (auto simp: after_read_def holds_def)
  then obtain s3 where b3: "brelse h i ?s2 = Ok () s3" and r3: "after_relse h {} ?st ?s2 s3"
    using brelse_after [of h ?s2 "{}" i ?st] by auto
  have f3: "cache_frame ?s2 s3" using r3 by (simp add: after_relse_def)
  have rh: "read_head h s = Ok () s3"
    using b1 b3 d1 assms(4,6) klog_frame [OF f1]
    by (simp add: read_head_def Let_def read_head_fold cong: if_cong)
  have e3: "log_start s3 = ?st" "log_dev s3 = ROOTDEV" "lh_n s3 = get_head_n (d ?st)" "lh_block s3 = ?blk"
    using klog_frame [OF f3] klog_frame [OF f1] assms(4) by simp_all
  have i3: "idle h s3" "bio_inv {} s3" "held s3 = {}" "view s3 = d" "disk s3 = d"
    using r3 h2 clean_block [of "{}" s3] by (auto simp: after_relse_def)
  have "\<exists>t. kfor (install_one h True) [0..<n] s3 = Ok () t \<and> synced h ({} - lh_block s3 ` {..<n}) (installed s3 n) s3 t"
  proof (rule install_loop [OF i3(1,2) _ i3(3)])
    show "\<forall>k<n. \<forall>j<n. log_block s3 j \<noteq> lh_block s3 k"
      using assms(7,8) log_area_block [of _ ?st] e3 by (auto simp: less_le_trans) (metis less_le_trans)
  qed (simp_all add: e3 NBUF_def MAXOPBLOCKS_def)
  then obtain s4 where s4: "install_trans h True s3 = Ok () s4" "synced h {} (installed s3 n) s3 s4"
    using assms(6) by (auto simp: install_trans_def e3)
  have ins: "installed s3 n = map (\<lambda>k. (get_head_block (d ?st) k, d (log_block s k))) [0..<n]"
    by (simp add: installed_def e3 i3)
  have f4: "out_frame s3 s4" using s4(2) by (simp add: synced_def)
  note e4 = klog_out_frame [OF f4]
  let ?s4 = "s4\<lparr>lh_n := 0\<rparr>"
  obtain s5 where s5: "write_head h ?s4 = Ok () s5"
    "synced h {} [(?st, put_head 0 ?blk (view s4 ?st))] ?s4 s5"
    using write_head_spec [of h ?s4 "{}"] s4(2) e3 e4 by (auto simp: synced_def NBUF_def MAXOPBLOCKS_def)
  have run: "recover_from_log h s = Ok () s5" using rh s4(1) s5(1) by (simp add: recover_from_log_def)
  have "out_frame ?s4 s5" using s5(2) by (simp add: synced_def)
  note e5 = klog_out_frame [OF this]
  have "get_head_n (put_head 0 ?blk (view s4 ?st)) = 0"
    using head_roundtrip [of 0] by (simp add: LOGBLOCKS_def)
  then show ?thesis
    using run s4(2) s5(2) e5 ins i3
    by (intro exI [of _ s5] exI [of _ "put_head 0 ?blk (view s4 ?st)"]) (simp add: synced_def)
qed

section \<open>Crash safety\<close>

text \<open>The state of a machine that boots on a disk: nothing cached that differs from it, nothing held.\<close>

definition booted :: "nat \<Rightarrow> u32 \<Rightarrow> (u32 \<Rightarrow> block) \<Rightarrow> 'a klog_scheme \<Rightarrow> bool" where
  "booted h st d r \<longleftrightarrow> idle h r \<and> bio_inv {} r \<and> held r = {} \<and> disk r = d \<and> log_dev r = ROOTDEV \<and> log_start r = st"

lemma recover_disk:
  assumes "booted h st d r" and "0 \<le> get_head_n (d st)" and "n = nat (get_head_n (d st))" and "n \<le> LOGBLOCKS"
    and "\<forall>k<n. get_head_block (d st) k \<notin> log_area st" and "inj_on (get_head_block (d st)) {..<n}"
  shows "\<exists>t. recover_from_log h r = Ok () t \<and> get_head_n (disk t st) = 0 \<and>
    (\<forall>x. x \<notin> log_area st \<longrightarrow>
       (\<forall>k<n. x = get_head_block (d st) k \<longrightarrow> disk t x = d (st + of_nat k + 1)) \<and>
       (x \<notin> get_head_block (d st) ` {..<n} \<longrightarrow> disk t x = d x))"
proof -
  have b: "idle h r" "bio_inv {} r" "held r = {}" "disk r = d" "log_dev r = ROOTDEV" "log_start r = st"
    using assms(1) by (auto simp: booted_def)
  let ?ws = "map (\<lambda>k. (get_head_block (d st) k, d (st + of_nat k + 1))) [0..<n]"
  obtain t e where t: "recover_from_log h r = Ok () t" "get_head_n e = 0"
    "disk t = apply_writes (?ws @ [(st, e)]) d"
    using recover_runs [OF b(1-3,5,4), of n] assms(3-5) b(6) by auto
  have dist: "distinct (map fst ?ws)" using assms(6) by (simp add: comp_def distinct_map atLeast0LessThan)
  have "disk t x = d (st + of_nat k + 1)" if "x \<notin> log_area st" "k < n" "x = get_head_block (d st) k" for x k
  proof -
    have "(x, d (st + of_nat k + 1)) \<in> set ?ws" using that by auto
    moreover have "x \<noteq> st" using that(1) by (auto simp: log_area_def)
    ultimately show ?thesis using apply_writes_in [OF dist] by (simp add: t(3))
  qed
  moreover have "disk t x = d x" if "x \<notin> log_area st" "x \<notin> get_head_block (d st) ` {..<n}" for x
  proof -
    have "x \<notin> fst ` set ?ws" using that(2) by (auto simp: image_image)
    moreover have "x \<noteq> st" using that(1) by (auto simp: log_area_def)
    ultimately show ?thesis using apply_writes_other [of x ?ws d] by (simp add: t(3))
  qed
  moreover have "get_head_n (disk t st) = 0" using t(2) by (simp add: t(3))
  ultimately show ?thesis using t(1) by blast
qed

lemma commit_prefix:
  assumes "log_wf P n s" and "j \<le> length (commit_writes s n)" and "get_head_n (disk s (log_start s)) = 0"
    and "d = apply_writes (take j (commit_writes s n)) (disk s)"
  shows "(get_head_n (d (log_start s)) = 0 \<and> (\<forall>x. x \<notin> log_area (log_start s) \<longrightarrow> d x = disk s x)) \<or>
    (get_head_n (d (log_start s)) = 0 \<and> (\<forall>x. x \<notin> log_area (log_start s) \<longrightarrow> d x = view s x)) \<or>
    (get_head_n (d (log_start s)) = int n \<and> (\<forall>k<n. get_head_block (d (log_start s)) k = lh_block s k) \<and>
     (\<forall>k<n. d (log_block s k) = view s (lh_block s k)) \<and>
     (\<forall>x. x \<notin> log_area (log_start s) \<longrightarrow> x \<notin> P \<longrightarrow> d x = disk s x))"
proof -
  note w = log_wfD [OF assms(1)]
  let ?st = "log_start s"
  have len: "length (logged s n) = n" "length (homes s n) = n" by (simp_all add: logged_def homes_def)
  have lf: "fst ` set (logged s n) \<subseteq> log_area ?st" unfolding logged_fst using w(5) by (auto simp: log_area_def)
  have hf: "fst ` set (homes s n) = P" using w(6) by (auto simp: homes_def image_image atLeast0LessThan)
  have Pa: "P \<inter> log_area ?st = {}" using assms(1) unfolding log_wf_def by blast
  have st: "?st \<notin> fst ` set (logged s n)" unfolding logged_fst using log_start_not_block w(5) by fastforce
  have hd: "get_head_n (full_head s n) = int n" "\<forall>k<n. get_head_block (full_head s n) k = lh_block s k"
    using head_roundtrip [of "int n" "lh_block s"] w(5) by (simp_all add: full_head_def)
  have dl: "distinct (map fst (logged s n))"
    using inj_on_subset [OF log_blocks_inj [of ?st], of "{..<n}"] w(5)
    by (simp add: logged_def comp_def distinct_map atLeast0LessThan)
  have dh: "distinct (map fst (homes s n))" using w(13) by (simp add: homes_def comp_def distinct_map atLeast0LessThan)
  consider "j \<le> n" | "n < j" "j \<le> 2 * n + 1" | "j = 2 * n + 2"
    using assms(2) by (fastforce simp: commit_writes_def len)
  then show ?thesis
  proof cases
    case 1
    then have tk: "take j (commit_writes s n) = take j (logged s n)" by (simp add: commit_writes_def len)
    have sub: "fst ` set (take j (logged s n)) \<subseteq> fst ` set (logged s n)" by (meson image_mono set_take_subset)
    then have "d ?st = disk s ?st" using st by (simp only: assms(4) tk) (rule apply_writes_other, blast)
    moreover have "d x = disk s x" if "x \<notin> log_area ?st" for x
      using that lf sub by (simp only: assms(4) tk) (rule apply_writes_other, blast)
    ultimately show ?thesis using assms(3) by simp
  next
    case 2
    define m where "m = j - n - 1"
    have tk: "take j (commit_writes s n) = logged s n @ [(?st, full_head s n)] @ take m (homes s n)"
      using 2 by (simp add: commit_writes_def len m_def take_Cons')
    have sub: "fst ` set (take m (homes s n)) \<subseteq> P" using hf by (metis image_mono set_take_subset)
    have d: "d x = apply_writes [(?st, full_head s n)] (apply_writes (logged s n) (disk s)) x" if "x \<notin> P" for x
      using that sub apply_writes_other [of x "take m (homes s n)"] by (simp only: assms(4) tk apply_writes_simps) blast
    have "d ?st = full_head s n" using d [OF w(11)] by simp
    moreover have "d (log_block s k) = view s (lh_block s k)" if "k < n" for k
    proof -
      have "(log_block s k, view s (lh_block s k)) \<in> set (logged s n)" using that by (auto simp: logged_def)
      then have "apply_writes (logged s n) (disk s) (log_block s k) = view s (lh_block s k)"
        by (rule apply_writes_in [OF dl])
      moreover have "log_block s k \<noteq> ?st" using that w(5) log_start_not_block [of k ?st] by simp
      ultimately show ?thesis using d [OF w(9) [OF that]] by simp
    qed
    moreover have "d x = disk s x" if "x \<notin> log_area ?st" "x \<notin> P" for x
    proof -
      have "x \<notin> fst ` set (logged s n)" "x \<noteq> ?st" using that lf by (auto simp: log_area_def)
      then show ?thesis using d [OF that(2)] by (simp add: apply_writes_other)
    qed
    ultimately show ?thesis using hd by simp
  next
    case 3
    then have tk: "take j (commit_writes s n) = commit_writes s n" by (simp add: commit_writes_def len)
    have "d ?st = put_head 0 (lh_block s) (full_head s n)" unfolding assms(4) tk by (simp add: commit_writes_def)
    then have "get_head_n (d ?st) = 0" using head_roundtrip [of 0 "lh_block s"] by simp
    moreover have "d x = view s x" if "x \<notin> log_area ?st" for x
    proof -
      have nx: "x \<notin> fst ` set (logged s n)" "x \<noteq> ?st" using that lf by (auto simp: log_area_def)
      then have "d x = apply_writes (homes s n) (apply_writes [(?st, full_head s n)] (apply_writes (logged s n) (disk s))) x"
        unfolding assms(4) tk by (simp add: commit_writes_def)
      also have "\<dots> = view s x"
      proof (cases "x \<in> P")
        case True
        then have "(x, view s x) \<in> set (homes s n)" using w(6) by (auto simp: homes_def)
        then show ?thesis by (rule apply_writes_in [OF dh])
      next
        case False
        then have "x \<notin> fst ` set (homes s n)" using hf by simp
        then show ?thesis using nx clean_block [OF w(1) False] w(2) by (simp add: apply_writes_other)
      qed
      finally show ?thesis .
    qed
    ultimately show ?thesis by simp
  qed
qed

lemma commit_installs:
  assumes "log_wf P n s" and "disk t = apply_writes (commit_writes s n) (disk s)"
  shows "\<forall>x. x \<notin> log_area (log_start s) \<longrightarrow> disk t x = view s x"
proof (intro allI impI)
  note w = log_wfD [OF assms(1)]
  fix x assume x: "x \<notin> log_area (log_start s)"
  have nx: "x \<notin> fst ` set (logged s n)" "x \<noteq> log_start s"
    using x w(5) by (auto simp: logged_fst log_area_def)
  show "disk t x = view s x"
  proof (cases "x \<in> P")
    case True
    then have "(x, view s x) \<in> set (homes s n)" using w(6) by (auto simp: homes_def)
    moreover have "distinct (map fst (homes s n))" using w(13) by (simp add: homes_def comp_def distinct_map atLeast0LessThan)
    ultimately show ?thesis using nx apply_writes_in by (simp add: assms(2) commit_writes_def)
  next
    case False
    then have "x \<notin> fst ` set (homes s n)" using w(6) by (auto simp: homes_def)
    then show ?thesis using nx clean_block [OF w(1) False] w(2) by (simp add: assms(2) commit_writes_def apply_writes_other)
  qed
qed

lemma crash_recovers:
  assumes "log_wf P n s" and "get_head_n (disk s (log_start s)) = 0" and "j \<le> length (commit_writes s n)"
    and "booted h (log_start s) (apply_writes (take j (commit_writes s n)) (disk s)) r"
  shows "\<exists>u. recover_from_log h r = Ok () u \<and> get_head_n (disk u (log_start s)) = 0 \<and>
    ((\<forall>x. x \<notin> log_area (log_start s) \<longrightarrow> disk u x = disk s x) \<or>
     (\<forall>x. x \<notin> log_area (log_start s) \<longrightarrow> disk u x = view s x))"
proof -
  note w = log_wfD [OF assms(1)]
  let ?st = "log_start s"
  have Pa: "P \<inter> log_area ?st = {}" using assms(1) unfolding log_wf_def by blast
  define d where "d = apply_writes (take j (commit_writes s n)) (disk s)"
  from commit_prefix [OF assms(1,3,2) d_def] consider
      (old) "get_head_n (d ?st) = 0" "\<forall>x. x \<notin> log_area ?st \<longrightarrow> d x = disk s x"
    | (new) "get_head_n (d ?st) = 0" "\<forall>x. x \<notin> log_area ?st \<longrightarrow> d x = view s x"
    | (mid) "get_head_n (d ?st) = int n" "\<forall>k<n. get_head_block (d ?st) k = lh_block s k"
      "\<forall>k<n. d (log_block s k) = view s (lh_block s k)" "\<forall>x. x \<notin> log_area ?st \<longrightarrow> x \<notin> P \<longrightarrow> d x = disk s x"
    by blast
  then show ?thesis
  proof cases
    case old
    with recover_disk [OF assms(4) [folded d_def], of 0] show ?thesis by auto
  next
    case new
    with recover_disk [OF assms(4) [folded d_def], of 0] show ?thesis by auto
  next
    case mid
    have inj: "inj_on (get_head_block (d ?st)) {..<n}" using mid(2) w(13) by (simp add: inj_on_def)
    have img: "get_head_block (d ?st) ` {..<n} = P" using mid(2) w(6) by (simp add: image_def)
    have nb: "\<forall>k<n. get_head_block (d ?st) k \<notin> log_area ?st" using img Pa by auto
    have "\<exists>u. recover_from_log h r = Ok () u \<and> get_head_n (disk u ?st) = 0 \<and>
        (\<forall>x. x \<notin> log_area ?st \<longrightarrow>
           (\<forall>k<n. x = get_head_block (d ?st) k \<longrightarrow> disk u x = d (log_block s k)) \<and>
           (x \<notin> get_head_block (d ?st) ` {..<n} \<longrightarrow> disk u x = d x))"
      by (rule recover_disk [OF assms(4) [folded d_def] _ _ w(5) nb inj]) (simp_all add: mid(1))
    then obtain u where u: "recover_from_log h r = Ok () u" "get_head_n (disk u ?st) = 0"
      and all: "\<forall>x. x \<notin> log_area ?st \<longrightarrow>
           (\<forall>k<n. x = get_head_block (d ?st) k \<longrightarrow> disk u x = d (log_block s k)) \<and>
           (x \<notin> get_head_block (d ?st) ` {..<n} \<longrightarrow> disk u x = d x)"
      by (elim exE conjE)
    have "disk u x = view s x" if x: "x \<notin> log_area ?st" for x
    proof (cases "x \<in> P")
      case True
      then obtain k where k: "k < n" "x = lh_block s k" using w(6) by auto
      then have e: "x = get_head_block (d ?st) k" using mid(2) by simp
      have "disk u x = d (log_block s k)"
        by (rule all [THEN spec, THEN mp, OF x, THEN conjunct1, THEN spec, THEN mp, OF k(1), THEN mp, OF e])
      then show ?thesis using mid(3) k by simp
    next
      case False
      then have nimg: "x \<notin> get_head_block (d ?st) ` {..<n}" by (simp only: img not_False_eq_True)
      have "disk u x = d x" by (rule all [THEN spec, THEN mp, OF x, THEN conjunct2, THEN mp, OF nimg])
      then show ?thesis using mid(4) x False clean_block [OF w(1) False] w(2) by simp
    qed
    with u show ?thesis by blast
  qed
qed

text \<open>
  C2: crash safety of a commit.  Let a transaction of \<open>n\<close> blocks be ready to commit over a disk with an empty log.  The
  commit succeeds and writes a definite sequence of blocks.  Whatever prefix of that sequence reaches
  the disk before a crash, booting and recovering ends with an empty log and, outside the log area,
  either exactly the disk before the transaction or exactly the disk with all its blocks in place.
\<close>

theorem commit_is_crash_safe:
  assumes "idle h s" and "log_wf P n s" and "0 < n" and "get_head_n (disk s (log_start s)) = 0"
  shows "\<exists>t ws. commit h s = Ok () t \<and> disk_writes t = disk_writes s @ ws \<and> disk t = apply_writes ws (disk s) \<and>
    (\<forall>x. x \<notin> log_area (log_start s) \<longrightarrow> disk t x = view s x) \<and>
    (\<forall>j\<le>length ws. \<forall>r. booted h (log_start s) (apply_writes (take j ws) (disk s)) r \<longrightarrow>
       (\<exists>u. recover_from_log h r = Ok () u \<and> get_head_n (disk u (log_start s)) = 0 \<and>
          ((\<forall>x. x \<notin> log_area (log_start s) \<longrightarrow> disk u x = disk s x) \<or>
           (\<forall>x. x \<notin> log_area (log_start s) \<longrightarrow> disk u x = view s x))))"
proof -
  obtain t where t: "commit h s = Ok () t" "disk_writes t = disk_writes s @ commit_writes s n"
    "disk t = apply_writes (commit_writes s n) (disk s)"
    using commit_runs [OF assms(1-3)] by blast
  with commit_installs [OF assms(2) t(3)] crash_recovers [OF assms(2,4)] show ?thesis by blast
qed

section \<open>Transactions\<close>

text \<open>\<open>in_tx P n s\<close>: inside a transaction that has logged \<open>n\<close> blocks, exactly those that are pinned.\<close>

definition in_tx :: "u32 set \<Rightarrow> nat \<Rightarrow> 'a klog_scheme \<Rightarrow> bool" where
  "in_tx P n s \<longleftrightarrow> bio_inv P s \<and> log_dev s = ROOTDEV \<and> lh_n s = int n \<and> n \<le> LOGBLOCKS \<and> 1 \<le> log_outstanding s \<and>
     P = lh_block s ` {..<n} \<and> inj_on (lh_block s) {..<n} \<and> P \<inter> log_area (log_start s) = {}"

lemma in_tx_finite: "in_tx P n s \<Longrightarrow> finite P \<and> card P = n"
  by (auto simp: in_tx_def card_image)

lemma absorb_index_entered [simp]: "absorb_index bno (entered h l s) = absorb_index bno s"
  by (simp add: absorb_index_def split: option.split)

lemma buf_at_klog [simp]:
  "lh_n (buf_at i f s) = lh_n s" "lh_block (buf_at i f s) = lh_block s" "log_outstanding (buf_at i f s) = log_outstanding s"
  "log_committing (buf_at i f s) = log_committing s" "log_start (buf_at i f s) = log_start s" "log_dev (buf_at i f s) = log_dev s"
  by (simp_all add: buf_at_def)

lemma absorb_index_found:
  assumes "in_tx P n s" and "bno \<in> P"
  shows "absorb_index bno s < n" and "lh_block s (absorb_index bno s) = bno"
proof -
  obtain k where k: "k < n" "lh_block s k = bno" using assms by (auto simp: in_tx_def)
  from find_first [of "\<lambda>i. lh_block s i = bno" k n] k
  obtain i where "find (\<lambda>i. lh_block s i = bno) [0..<n] = Some i" "lh_block s i = bno" "i \<le> k" by auto
  with assms(1) k show "absorb_index bno s < n" "lh_block s (absorb_index bno s) = bno"
    by (auto simp: absorb_index_def in_tx_def)
qed

lemma absorb_index_new: "in_tx P n s \<Longrightarrow> bno \<notin> P \<Longrightarrow> absorb_index bno s = n"
proof -
  assume a: "in_tx P n s" "bno \<notin> P"
  then have "find (\<lambda>i. lh_block s i = bno) [0..<n] = None" by (auto simp: in_tx_def find_None_iff)
  with a show ?thesis by (simp add: absorb_index_def in_tx_def)
qed

lemma bpin_entered:
  assumes "idle h s"
  shows "bpin h i (entered h LLog s) = Ok () (entered h LLog (buf_at i (\<lambda>b. b\<lparr>b_refcnt := b_refcnt b + 1\<rparr>) s))"
proof -
  let ?t = "buf_at i (\<lambda>b. b\<lparr>b_refcnt := b_refcnt b + 1\<rparr>) s"
  have wf: "cpu_wf h s" "cpu_wf h ?t" "lock_free LBcache s" "lock_free LBcache ?t"
    using assms idle_wf [of h s] by (simp_all add: idle_def cpu_wf_def lock_free_def buf_at_def)
  have "acquire h LBcache (entered h LLog s) = Ok () (entered h LBcache (entered h LLog s))"
    using wf by (intro acquire_free) simp
  moreover have "release h LBcache (entered h LBcache (entered h LLog ?t)) = Ok () (entered h LLog ?t)"
    using wf release_entered [of h "entered h LLog ?t" LBcache] by simp
  ultimately show ?thesis by (simp add: bpin_def)
qed

text \<open>The relation between the states around a \<^verbatim>\<open>log_write\<close> of block \<open>bno\<close>.\<close>

definition after_log :: "nat \<Rightarrow> u32 set \<Rightarrow> nat \<Rightarrow> 'a klog_scheme \<Rightarrow> 'a klog_scheme \<Rightarrow> bool" where
  "after_log h Q m s t \<longleftrightarrow> idle h t \<and> in_tx Q m t \<and> view t = view s \<and> held t = held s \<and>
     (\<forall>j b. holds h t j b = holds h s j b) \<and> disk t = disk s \<and> disk_writes t = disk_writes s \<and>
     log_start t = log_start s \<and> log_outstanding t = log_outstanding s \<and> log_committing t = log_committing s \<and>
     cache_frame (s\<lparr>lh_n := lh_n t, lh_block := lh_block t\<rparr>) t"

lemma log_write_runs:
  assumes "idle h s" and "in_tx P n s" and "n < LOGBLOCKS" and "holds h s i bno" and "bno \<notin> log_area (log_start s)"
  shows "\<exists>t. log_write h i s = Ok () t \<and>
    after_log h (insert bno P) (if bno \<in> P then n else Suc n) s t"
proof -
  have tx: "bio_inv P s" "lh_n s = int n" "\<not> int LOGBLOCKS \<le> lh_n s" "\<not> log_outstanding s < 1"
    using assms(2,3) by (auto simp: in_tx_def)
  have bn: "b_blockno (bufs s i) = bno" using assms(4) by (simp add: holds_def is_block_def)
  show ?thesis
  proof (cases "bno \<in> P")
    case True
    note ab = absorb_index_found [OF assms(2) True]
    have same: "(lh_block s)(absorb_index bno s := bno) = lh_block s" using ab(2) by auto
    have run: "log_write h i s = Ok () s"
      using assms(1) tx bn ab same
      by (simp add: log_write_def Let_def del: fun_upd_apply)
    then show ?thesis using True assms(1,2) by (auto simp: after_log_def insert_absorb)
  next
    case False
    note ab = absorb_index_new [OF assms(2) False]
    let ?s1 = "s\<lparr>lh_block := (lh_block s)(n := bno)\<rparr>"
    let ?s2 = "buf_at i (\<lambda>b. b\<lparr>b_refcnt := b_refcnt b + 1\<rparr>) ?s1"
    let ?t = "?s2\<lparr>lh_n := int (Suc n)\<rparr>"
    have h1: "idle h ?s1" "bio_inv P ?s1" "holds h ?s1 i bno"
      using assms(1,4) tx by (simp_all add: holds_def)
    obtain u where u: "bpin h i ?s1 = Ok () u" "after_pin h (insert bno P) ?s1 u"
      using bpin_after [OF h1 False] by auto
    have "u = ?s2" using u(1) h1(1) by (simp add: bpin_def)
    with u(2) have pin: "after_pin h (insert bno P) ?s1 ?s2" by simp
    have run: "log_write h i s = Ok () ?t"
      using assms(1) tx bn ab bpin_entered [OF h1(1), of i]
      by (simp add: log_write_def Let_def del: fun_upd_apply)
    have inj: "inj_on ((lh_block s)(n := bno)) {..<Suc n}" "insert bno P = (lh_block s)(n := bno) ` {..<Suc n}"
      using assms(2) False by (auto simp: in_tx_def inj_on_def less_Suc_eq lessThan_Suc image_iff)
    have "in_tx (insert bno P) (Suc n) ?t"
    proof -
      have "insert bno P \<inter> log_area (log_start s) = {}" using assms(2,5) by (auto simp: in_tx_def)
      moreover have "lh_block ?t = (lh_block s)(n := bno)" by simp
      ultimately show ?thesis
        unfolding in_tx_def using pin assms(2,3) inj by (simp add: after_pin_def in_tx_def)
    qed
    moreover have "cache_frame (s\<lparr>lh_n := lh_n ?t, lh_block := lh_block ?t\<rparr>) ?t"
      by (simp add: cache_frame_def buf_at_def)
    ultimately have "after_log h (insert bno P) (Suc n) s ?t"
      using pin unfolding after_log_def after_pin_def by (simp add: holds_def)
    with run False show ?thesis by auto
  qed
qed

text \<open>\<open>tx_frame s t\<close>: \<open>t\<close> differs from \<open>s\<close> at most in the cache, the disk and the in-memory log header.\<close>

definition tx_frame :: "'a klog_scheme \<Rightarrow> 'a klog_scheme \<Rightarrow> bool" where
  "tx_frame s t \<longleftrightarrow> cache_frame (s\<lparr>lh_n := lh_n t, lh_block := lh_block t\<rparr>) t"

lemma cache_frame_lh:
  "cache_frame s t \<Longrightarrow> cache_frame (s\<lparr>lh_n := a, lh_block := f\<rparr>) (t\<lparr>lh_n := a, lh_block := f\<rparr>)"
proof -
  assume a: "cache_frame s t"
  let ?f = "\<lambda>t s. t\<lparr>sleeplocks := sleeplocks s, bufs := bufs s, b_prev := b_prev s, b_next := b_next s,
       disk := disk s, disk_writes := disk_writes s\<rparr>"
  have "?f (t\<lparr>lh_n := a, lh_block := f\<rparr>) (s\<lparr>lh_n := a, lh_block := f\<rparr>) = (?f t s)\<lparr>lh_n := a, lh_block := f\<rparr>" by simp
  with a show ?thesis by (simp add: cache_frame_def)
qed

lemma tx_frame_cache: "cache_frame s t \<Longrightarrow> tx_frame s t"
  using klog_frame(5,6) [of s t] by (simp add: tx_frame_def)

lemma tx_frame_trans: "tx_frame s t \<Longrightarrow> tx_frame t u \<Longrightarrow> tx_frame s u"
  using cache_frame_lh [where s = "s\<lparr>lh_n := lh_n t, lh_block := lh_block t\<rparr>" and t = t and a = "lh_n u" and f = "lh_block u"]
    cache_frame_trans [of "s\<lparr>lh_n := lh_n u, lh_block := lh_block u\<rparr>" "t\<lparr>lh_n := lh_n u, lh_block := lh_block u\<rparr>" u]
  unfolding tx_frame_def by simp

lemma tx_frame_eqs:
  assumes "tx_frame s t"
  shows "idle h t = idle h s" "cpus t = cpus s" "procs t = procs s" "klog.more t = klog.more s" "pmem t = pmem s"
    "uart_out t = uart_out s" "log_start t = log_start s" "log_outstanding t = log_outstanding s"
    "log_committing t = log_committing s" "log_dev t = log_dev s"
    "\<forall>i. sleeplocks t (SInode i) = sleeplocks s (SInode i)"
proof -
  note c = assms [unfolded tx_frame_def]
  show "idle h t = idle h s" "cpus t = cpus s" "procs t = procs s" "klog.more t = klog.more s" "pmem t = pmem s"
    "uart_out t = uart_out s" "log_start t = log_start s" "log_outstanding t = log_outstanding s"
    "log_committing t = log_committing s" "log_dev t = log_dev s"
    using cache_frame_eqs [OF c] klog_frame [OF c] by simp_all
  show "\<forall>i. sleeplocks t (SInode i) = sleeplocks s (SInode i)" using cache_frame_eqs(7) [OF c] by simp
qed

lemma in_tx_cong:
  assumes "in_tx P n s" and "bio_inv P t" and "lh_n t = lh_n s" and "lh_block t = lh_block s" and "log_start t = log_start s"
    and "log_dev t = log_dev s" and "log_outstanding t = log_outstanding s"
  shows "in_tx P n t"
  using assms(1,2) unfolding in_tx_def assms(3-7) by blast

lemma in_tx_cache:
  assumes "in_tx P n s" and "bio_inv P t" and "cache_frame s t"
  shows "in_tx P n t"
  using in_tx_cong [OF assms(1,2)] klog_frame [OF assms(3)] by simp

text \<open>What a block access needs: an idle process in a transaction that does not hold the block, with a buffer to spare.\<close>

definition ready :: "nat \<Rightarrow> u32 set \<Rightarrow> nat \<Rightarrow> 'a klog_scheme \<Rightarrow> bool" where
  "ready h P n s \<longleftrightarrow> idle h s \<and> in_tx P n s \<and> card (held s \<union> P) < NBUF"

lemma finite_held: "finite (held s)"
proof -
  have "held s \<subseteq> (\<lambda>i. b_blockno (bufs s i)) ` {..<NBUF}" by (auto simp: held_def is_block_def)
  then show ?thesis using finite_subset by auto
qed

text \<open>\<open>reads h P n s t\<close>: \<open>t\<close> is like \<open>s\<close> up to which clean blocks are cached.\<close>

definition reads :: "nat \<Rightarrow> u32 set \<Rightarrow> nat \<Rightarrow> 'a klog_scheme \<Rightarrow> 'a klog_scheme \<Rightarrow> bool" where
  "reads h P n s t \<longleftrightarrow> ready h P n t \<and> view t = view s \<and> held t = held s \<and> (\<forall>j b. holds h s j b \<longrightarrow> holds h t j b) \<and>
     disk t = disk s \<and> disk_writes t = disk_writes s \<and> cache_frame s t"

text \<open>Reading a block: \<^verbatim>\<open>bread\<close>, use of the data, \<^verbatim>\<open>brelse\<close>.\<close>

lemma tx_read:
  assumes "ready h P n s" and "b \<notin> held s"
  shows "\<exists>i s1 t. bread h ROOTDEV b s = Ok i s1 \<and> b_data (bufs s1 i) = view s b \<and> cache_frame s s1 \<and>
    brelse h i s1 = Ok () t \<and> reads h P n s t"
proof -
  have r: "idle h s" "in_tx P n s" "bio_inv P s" "card (held s \<union> P) < NBUF" "finite P"
    using assms(1) in_tx_finite by (auto simp: ready_def in_tx_def)
  obtain i s1 where b1: "bread h ROOTDEV b s = Ok i s1" and r1: "after_read h P b i s s1"
    using bread_after [OF r(1,3,5) assms(2)] r(4) by auto
  have "b \<in> P \<or> view s1 b = disk s1 b"
    using clean_block [OF r(3) _ assms(2)] r1 by (auto simp: after_read_def)
  then obtain t where b2: "brelse h i s1 = Ok () t" and r2: "after_relse h P b s1 t"
    using brelse_after [of h s1 P i b] r1 by (auto simp: after_read_def)
  have fr: "cache_frame s s1" "cache_frame s t" using r1 r2 cache_frame_trans unfolding after_defs by blast+
  have "held t = held s" using r1 r2 assms(2) by (auto simp: after_defs)
  moreover have "ready h P n t"
    using r2 calculation in_tx_cache [OF r(2) _ fr(2)] r(4) by (auto simp: ready_def after_relse_def)
  moreover have "\<forall>j c. holds h s j c \<longrightarrow> holds h t j c"
  proof (intro allI impI)
    fix j c assume hc: "holds h s j c"
    then have "c \<noteq> b" using assms(2) by (auto simp: holds_def held_def)
    moreover have "holds h s1 j c" using hc r1 by (simp add: after_read_def)
    ultimately show "holds h t j c" using r2 by (simp add: after_relse_def)
  qed
  ultimately have "reads h P n s t" using r1 r2 fr by (simp add: reads_def after_defs)
  with b1 b2 r1 fr show ?thesis by (auto simp: after_read_def)
qed

text \<open>Updating a block: \<^verbatim>\<open>bread\<close>, change the data, \<^verbatim>\<open>log_write\<close>, \<^verbatim>\<open>brelse\<close>.\<close>

definition updates :: "nat \<Rightarrow> u32 set \<Rightarrow> nat \<Rightarrow> u32 \<Rightarrow> block \<Rightarrow> 'a klog_scheme \<Rightarrow> 'a klog_scheme \<Rightarrow> bool" where
  "updates h Q m b d s t \<longleftrightarrow> idle h t \<and> in_tx Q m t \<and> view t = (view s)(b := d) \<and> held t = held s \<and>
     (\<forall>j b. holds h s j b \<longrightarrow> holds h t j b) \<and> disk t = disk s \<and> disk_writes t = disk_writes s \<and> tx_frame s t"

lemma tx_update:
  assumes "ready h P n s" and "b \<notin> held s" and "n < LOGBLOCKS" and "b \<notin> log_area (log_start s)"
  shows "\<exists>i s1 s2 t. bread h ROOTDEV b s = Ok i s1 \<and> b_data (bufs s1 i) = view s b \<and> cache_frame s s1 \<and>
    log_write h i (set_data i d s1) = Ok () s2 \<and> brelse h i s2 = Ok () t \<and>
    updates h (insert b P) (if b \<in> P then n else Suc n) b d s t"
proof -
  have r: "idle h s" "in_tx P n s" "bio_inv P s" "card (held s \<union> P) < NBUF" "finite P"
    using assms(1) in_tx_finite by (auto simp: ready_def in_tx_def)
  obtain i s1 where b1: "bread h ROOTDEV b s = Ok i s1" and r1: "after_read h P b i s s1"
    using bread_after [OF r(1,3,5) assms(2)] r(4) by auto
  have h1: "bio_inv P s1" "holds h s1 i b" "idle h s1" and f1: "cache_frame s s1" using r1 by (auto simp: after_read_def)
  let ?s = "set_data i d s1"
  note sd = set_data_spec [OF h1(1,2), of d]
  have "cache_frame s ?s" using f1 sd(7) cache_frame_trans by blast
  then have tx: "in_tx P n ?s" and fs: "cache_frame s ?s" using in_tx_cache [OF r(2) sd(1)] by auto
  have "holds h ?s i b" "b \<notin> log_area (log_start ?s)" "idle h ?s"
    using sd(3,8) h1 assms(4) klog_frame [OF fs] by auto
  then obtain s2 where b2: "log_write h i ?s = Ok () s2"
    and r2: "after_log h (insert b P) (if b \<in> P then n else Suc n) ?s s2"
    using log_write_runs [OF _ tx assms(3)] by blast
  have h2: "idle h s2" "bio_inv (insert b P) s2" "holds h s2 i b" using r2 sd(3) h1 by (auto simp: after_log_def in_tx_def)
  then obtain t where b3: "brelse h i s2 = Ok () t" and r3: "after_relse h (insert b P) b s2 t"
    using brelse_after [of h s2 "insert b P" i b] by auto
  have f3: "cache_frame s2 t" using r3 by (simp add: after_relse_def)
  have "in_tx (insert b P) (if b \<in> P then n else Suc n) t"
    using in_tx_cache [OF _ _ f3, of "insert b P"] r2 r3 by (simp add: after_log_def after_relse_def)
  moreover have "tx_frame s t"
    using tx_frame_trans [OF tx_frame_cache [OF fs], of t] tx_frame_trans [of ?s s2 t] tx_frame_cache [OF f3] r2
    by (simp add: after_log_def tx_frame_def)
  moreover have "held t = held s" using r1 sd(4) r2 r3 assms(2) by (auto simp: after_defs after_log_def)
  moreover have "\<forall>j c. holds h s j c \<longrightarrow> holds h t j c"
  proof (intro allI impI)
    fix j c assume hc: "holds h s j c"
    then have "c \<noteq> b" using assms(2) by (auto simp: holds_def held_def)
    moreover have "holds h s2 j c" using hc r1 sd(3) r2 by (simp add: after_read_def after_log_def)
    ultimately show "holds h t j c" using r3 by (simp add: after_relse_def)
  qed
  ultimately have "updates h (insert b P) (if b \<in> P then n else Suc n) b d s t"
    using r1 sd r2 r3 by (simp add: updates_def after_defs after_log_def)
  with b1 b2 b3 r1 f1 show ?thesis by (auto simp: after_read_def)
qed

section \<open>A transaction, concretely\<close>

text \<open>A machine with an empty log at block 2, inside one transaction.\<close>

definition fresh_log :: "int \<Rightarrow> (u32 \<Rightarrow> block) \<Rightarrow> klog" where
  "fresh_log k d = kbio.extend (fresh_bio d)
     \<lparr>log_start = 2, log_outstanding = k, log_committing = False, log_dev = ROOTDEV, lh_n = 0, lh_block = \<lambda>_. 0\<rparr>"

lemma fresh_log_bio:
  "idle 0 (fresh_log k d)" "bio_inv {} (fresh_log k d)" "held (fresh_log k d) = {}" "view (fresh_log k d) = d"
  "disk (fresh_log k d) = d"
proof -
  have f: "sleeplocks (fresh_log k d) = sleeplocks (fresh_bio d)" "bufs (fresh_log k d) = bufs (fresh_bio d)"
    "b_prev (fresh_log k d) = b_prev (fresh_bio d)" "b_next (fresh_log k d) = b_next (fresh_bio d)"
    "disk (fresh_log k d) = disk (fresh_bio d)" "cpus (fresh_log k d) = cpus (fresh_bio d)" "sie (fresh_log k d) = sie (fresh_bio d)"
    "locks (fresh_log k d) = locks (fresh_bio d)" "procs (fresh_log k d) = procs (fresh_bio d)"
    by (simp_all add: fresh_log_def kbio.defs)
  have fd: "disk (fresh_bio d) b = d b" for b
  proof -
    have "view (fresh_bio d) b = d b" by (simp only: fresh_bio_simps(4))
    then show ?thesis by (simp add: view_def fresh_bio_simps(6))
  qed
  show "idle 0 (fresh_log k d)" using fresh_bio_simps(1) [of d] by (simp add: idle_def lock_free_def f)
  show "bio_inv {} (fresh_log k d)" using fresh_bio_simps(2) [of d] by (simp add: bio_inv_def lru_def f)
  show "held (fresh_log k d) = {}" using fresh_bio_simps(3) [of d] by (simp add: held_def f)
  show v: "view (fresh_log k d) = d"
  proof
    fix b
    have "cached (fresh_log k d) b = None" using fresh_bio_simps(6) [of d b] by (simp add: cached_None f)
    moreover have "disk (fresh_bio d) b = d b" by (rule fd)
    ultimately show "view (fresh_log k d) b = d b" by (simp add: view_def f)
  qed
  show "disk (fresh_log k d) = d"
  proof
    fix b
    show "disk (fresh_log k d) b = d b" using fd by (simp add: f)
  qed
qed

lemma fresh_log_ready: "1 \<le> k \<Longrightarrow> ready 0 {} 0 (fresh_log k d)"
  using fresh_log_bio [of k d]
  by (simp add: ready_def in_tx_def NBUF_def MAXOPBLOCKS_def) (simp add: fresh_log_def kbio.defs)

lemma log_wf_of_tx: "in_tx P n s \<Longrightarrow> held s = {} \<Longrightarrow> n < NBUF \<Longrightarrow> log_wf P n s"
  unfolding in_tx_def log_wf_def by blast

lemma one_block_tx:
  obtains s :: klog where "idle 0 s" and "log_wf {50} 1 s" and "get_head_n (disk s (log_start s)) = 0"
    and "view s 50 = (\<lambda>_. 9)" and "disk s 50 = (\<lambda>_. 0)" and "log_start s = 2"
proof -
  let ?s = "fresh_log 1 (\<lambda>_ _. 0)"
  have st: "log_start ?s = 2" by (simp add: fresh_log_def kbio.defs)
  have "(50 :: u32) \<notin> log_area 2"
  proof
    assume "(50 :: u32) \<in> log_area 2"
    then obtain k where k: "k < 30" "(50 :: u32) = 2 + of_nat k + 1"
      by (auto simp: log_area_def LOGBLOCKS_def MAXOPBLOCKS_def)
    then have "(of_nat k :: u32) = 47" by (simp add: algebra_simps)
    then have "unat (of_nat k :: u32) = 47" by simp
    with k(1) show False by (simp add: unat_of_nat)
  qed
  then have "\<exists>i s1 s2 t. bread 0 ROOTDEV 50 ?s = Ok i s1 \<and> b_data (bufs s1 i) = view ?s 50 \<and> cache_frame ?s s1 \<and>
    log_write 0 i (set_data i (\<lambda>_. 9) s1) = Ok () s2 \<and> brelse 0 i s2 = Ok () t \<and>
    updates 0 (insert 50 {}) (if 50 \<in> ({} :: u32 set) then 0 else Suc 0) 50 (\<lambda>_. 9) ?s t"
    using st fresh_log_bio(3)
    by (intro tx_update fresh_log_ready) (simp_all add: LOGBLOCKS_def MAXOPBLOCKS_def)
  then obtain t where u: "updates 0 {50} (Suc 0) 50 (\<lambda>_. 9) ?s t" by auto
  have fr: "log_start t = 2" using u tx_frame_eqs(7) [of ?s t] st by (simp add: updates_def)
  have "get32 0 (\<lambda>_. 0) = 0" by (simp add: get32_def blk_read_def upt_rec numeral_eq_Suc)
  then have "get_head_n (\<lambda>_. 0) = 0" by (simp add: get_head_n_def)
  then show ?thesis
    using u fr fresh_log_bio [of 1 "\<lambda>_ _. 0"] log_wf_of_tx [of "{50}" 1 t]
    by (intro that [of t]) (auto simp: updates_def NBUF_def MAXOPBLOCKS_def)
qed

theorem commit_is_crash_safe_witness:
  "\<exists>(s :: klog) t. commit 0 s = Ok () t \<and> disk s 50 = (\<lambda>_. 0) \<and> disk t 50 = (\<lambda>_. 9)"
proof -
  obtain s :: klog where s: "idle 0 s" "log_wf {50} 1 s" "get_head_n (disk s (log_start s)) = 0"
    "view s 50 = (\<lambda>_. 9)" "disk s 50 = (\<lambda>_. 0)"
    using one_block_tx by metis
  have "50 \<notin> log_area (log_start s)" using s(2) unfolding log_wf_def by blast
  with commit_is_crash_safe [OF s(1,2) _ s(3)] s(4,5) show ?thesis by (metis zero_less_one)
qed

section \<open>A full log\<close>

lemma bread_no_buffers:
  assumes "idle h s" and "bio_inv P s" and "cached s bno = None" and "\<forall>i<NBUF. b_refcnt (bufs s i) \<noteq> 0"
  shows "bread h ROOTDEV bno s = Panic ''bget: no buffers''"
proof -
  obtain xs where xs: "lru s xs" using assms(2) by (auto simp: bio_inv_def)
  have len: "length xs \<le> NBUF" using lru_length [OF xs] by simp
  have "blist_find NBUF (b_next s) (\<lambda>i. is_block bno (bufs s i)) (b_next s BHead) = None"
    using xs len assms(3) blist_find_next [of "b_next s" "b_prev s" xs NBUF] find_lru(1) [OF xs]
    by (simp add: lru_def cached_None)
  moreover have "blist_find NBUF (b_prev s) (\<lambda>i. b_refcnt (bufs s i) = 0) (b_prev s BHead) = None"
    using xs len assms(4) blist_find_prev [of "b_next s" "b_prev s" xs NBUF] find_lru(3) [OF xs, of "\<lambda>i. b_refcnt (bufs s i) = 0"]
    by (simp add: lru_def)
  ultimately show ?thesis using assms(1) by (simp add: bread_def bget_def is_block_def)
qed

lemma all_pinned:
  assumes "bio_inv P s" and "finite P" and "card P = NBUF"
  shows "\<forall>i<NBUF. b_refcnt (bufs s i) \<noteq> 0 \<and> b_dev (bufs s i) = ROOTDEV \<and> b_blockno (bufs s i) \<in> P"
proof -
  let ?I = "{i. i < NBUF \<and> pinned P (bufs s i)}"
  have "P \<subseteq> (\<lambda>i. b_blockno (bufs s i)) ` ?I"
  proof
    fix b assume "b \<in> P"
    then obtain i where "i < NBUF" "is_block b (bufs s i)" using bio_pins [OF assms(1)] by blast
    with \<open>b \<in> P\<close> show "b \<in> (\<lambda>i. b_blockno (bufs s i)) ` ?I" by (auto simp: is_block_def pinned_def)
  qed
  then have "card P \<le> card ((\<lambda>i. b_blockno (bufs s i)) ` ?I)" by (intro card_mono) simp_all
  also have "\<dots> \<le> card ?I" by (rule card_image_le) simp
  finally have "card {..<NBUF} \<le> card ?I" using assms(3) by simp
  then have "?I = {..<NBUF}" by (intro card_seteq) auto
  then have pin: "pinned P (bufs s i)" if "i < NBUF" for i using that by blast
  show ?thesis
  proof (intro allI impI)
    fix i assume i: "i < NBUF"
    have "b_refcnt (bufs s i) = (if sl_locked (sleeplocks s (SBuf i)) then 1 else 0) + 1"
      using buf_ok_refcnt [OF bio_buf [OF assms(1) i]] pin [OF i] by simp
    then have "b_refcnt (bufs s i) \<noteq> 0" by (simp split: if_splits)
    with pin [OF i] show "b_refcnt (bufs s i) \<noteq> 0 \<and> b_dev (bufs s i) = ROOTDEV \<and> b_blockno (bufs s i) \<in> P"
      by (simp add: pinned_def)
  qed
qed

text \<open>
  C38: a full log cannot be committed.  \<^verbatim>\<open>LOGBLOCKS\<close> and \<^verbatim>\<open>NBUF\<close> are both 30, so a transaction of 30 different blocks,
  which \<^verbatim>\<open>begin_op\<close> and \<^verbatim>\<open>log_write\<close> admit, pins every buffer of the cache, and the first \<^verbatim>\<open>bread\<close> of a log block in
  \<^verbatim>\<open>commit\<close> panics.
\<close>

theorem full_log_commit_panics:
  assumes "idle h s" and "in_tx P LOGBLOCKS s"
  shows "commit h s = Panic ''bget: no buffers''"
proof -
  have tx: "bio_inv P s" "log_dev s = ROOTDEV" "lh_n s = int LOGBLOCKS" "P \<inter> log_area (log_start s) = {}"
    using assms(2) unfolding in_tx_def by blast+
  have fin: "finite P" "card P = NBUF" using in_tx_finite [OF assms(2)] by (simp_all add: NBUF_def LOGBLOCKS_def)
  have pos: "0 < LOGBLOCKS" by (simp add: LOGBLOCKS_def MAXOPBLOCKS_def)
  have "log_block s 0 \<in> log_area (log_start s)" by (rule log_area_block [OF pos])
  then have lb: "log_start s + 1 \<notin> P" using tx(4) by auto
  have "cached s (log_start s + 1) = None"
    using all_pinned [OF tx(1) fin] lb by (auto simp: cached_None is_block_def)
  then have "bread h ROOTDEV (log_start s + 1) s = Panic ''bget: no buffers''"
    using bread_no_buffers [OF assms(1) tx(1)] all_pinned [OF tx(1) fin] by blast
  then have "write_log_one h 0 s = Panic ''bget: no buffers''" using tx(2) by (simp add: write_log_one_def)
  moreover have "[0..<LOGBLOCKS] = 0 # [1..<LOGBLOCKS]" using pos by (simp add: upt_conv_Cons)
  ultimately have "write_log h s = Panic ''bget: no buffers''" using tx(3) by (simp add: write_log_def)
  then show ?thesis using tx(3) pos by (simp add: commit_def)
qed

lemma fill_log:
  "n \<le> LOGBLOCKS \<Longrightarrow> \<exists>s :: klog. idle 0 s \<and> in_tx ((\<lambda>k. 100 + of_nat k) ` {..<n}) n s \<and> held s = {} \<and> log_start s = 2"
proof (induction n)
  case 0
  let ?s = "fresh_log 1 (\<lambda>_ _. 0)"
  have "ready 0 {} 0 ?s" by (rule fresh_log_ready) simp
  then show ?case using fresh_log_bio(1,3) [of 1 "\<lambda>_ _. 0"]
    by (intro exI [of _ ?s]) (simp add: ready_def, simp add: fresh_log_def kbio.defs)
next
  case (Suc n)
  then obtain s :: klog where s: "idle 0 s" "in_tx ((\<lambda>k. 100 + of_nat k) ` {..<n}) n s" "held s = {}" "log_start s = 2" by auto
  let ?P = "(\<lambda>k. 100 + of_nat k :: u32) ` {..<n}"
  have n: "n < 30" using Suc.prems by (simp add: LOGBLOCKS_def MAXOPBLOCKS_def)
  have "ready 0 ?P n s" using s in_tx_finite [OF s(2)] n by (simp add: ready_def NBUF_def MAXOPBLOCKS_def)
  moreover have "(100 + of_nat n :: u32) \<notin> log_area (log_start s)"
  proof
    assume "(100 + of_nat n :: u32) \<in> log_area (log_start s)"
    then consider "(100 + of_nat n :: u32) = 2" | k where "k < 30" "(100 + of_nat n :: u32) = 2 + of_nat k + 1"
      by (auto simp: log_area_def s(4) LOGBLOCKS_def MAXOPBLOCKS_def)
    then show False
    proof cases
      case 1
      then have "(of_nat (100 + n) :: u32) = of_nat 2" by simp
      then have "unat (of_nat (100 + n) :: u32) = unat (of_nat 2 :: u32)" by (simp only:)
      then show False using n by (simp only: unat_of_nat) simp
    next
      case (2 k)
      then have "(of_nat (100 + n) :: u32) = of_nat (3 + k)" by simp
      then have "unat (of_nat (100 + n) :: u32) = unat (of_nat (3 + k) :: u32)" by (simp only:)
      then show False using n 2(1) by (simp only: unat_of_nat) simp
    qed
  qed
  moreover have new: "(100 + of_nat n :: u32) \<notin> ?P"
  proof
    assume "(100 + of_nat n :: u32) \<in> ?P"
    then obtain k where "k < n" "(of_nat n :: u32) = of_nat k" by auto
    then have "unat (of_nat n :: u32) = unat (of_nat k :: u32)" by (simp only:)
    then show False using n \<open>k < n\<close> by (simp add: unat_of_nat)
  qed
  moreover have "n < LOGBLOCKS" using Suc.prems by simp
  ultimately obtain t where u: "updates 0 (insert (100 + of_nat n) ?P) (Suc n) (100 + of_nat n) (\<lambda>_. 0) s t"
    using tx_update [of 0 ?P n s "100 + of_nat n" "\<lambda>_. 0"] s(3) by auto
  have "insert (100 + of_nat n) ?P = (\<lambda>k. 100 + of_nat k) ` {..<Suc n}" by (simp add: lessThan_Suc)
  then show ?case using u s(3,4) tx_frame_eqs(7) [of s t] by (auto simp: updates_def)
qed

theorem full_log_commit_panics_witness: "\<exists>s :: klog. commit 0 s = Panic ''bget: no buffers''"
proof -
  obtain s :: klog where "idle 0 s" "in_tx ((\<lambda>k. 100 + of_nat k) ` {..<LOGBLOCKS}) LOGBLOCKS s"
    using fill_log [of LOGBLOCKS] by blast
  from full_log_commit_panics [OF this] show ?thesis by blast
qed

end
