(* ===== verification/Tx.thy ===== *)
theory Tx
  imports Log
begin

text \<open>
  Block access inside a transaction, as the file system uses it: \<^verbatim>\<open>bread\<close>, a look at the data or a change followed by
  \<^verbatim>\<open>log_write\<close>, and \<^verbatim>\<open>brelse\<close>.  \<open>room h P k s\<close> says that a transaction that has changed the blocks \<open>P\<close> can still touch
  \<open>k\<close> more, and \<open>steps h P s Q t\<close> that calls took the machine from \<open>s\<close> to \<open>t\<close>, changing at most cache, log header and
  the content of blocks (\<open>view\<close>); the relation composes, so every file system call is a chain of such steps.
\<close>

definition room :: "nat \<Rightarrow> u32 set \<Rightarrow> nat \<Rightarrow> 'a klog_scheme \<Rightarrow> bool" where
  "room h P k s \<longleftrightarrow> idle h s \<and> in_tx P (card P) s \<and> card (held s \<union> P) + k \<le> NBUF"

definition steps :: "nat \<Rightarrow> u32 set \<Rightarrow> 'a klog_scheme \<Rightarrow> u32 set \<Rightarrow> 'a klog_scheme \<Rightarrow> bool" where
  "steps h P s Q t \<longleftrightarrow> idle h t \<and> in_tx Q (card Q) t \<and> P \<subseteq> Q \<and> held t = held s \<and>
     (\<forall>j b. holds h s j b \<longrightarrow> holds h t j b) \<and> disk t = disk s \<and> disk_writes t = disk_writes s \<and> tx_frame s t"

lemma tx_frame_refl [simp]: "tx_frame s s"
  by (simp add: tx_frame_def)

lemma steps_refl: "room h P k s \<Longrightarrow> steps h P s P s"
  by (simp add: steps_def room_def)

lemma steps_trans: "steps h P s Q t \<Longrightarrow> steps h Q t R u \<Longrightarrow> steps h P s R u"
  unfolding steps_def using tx_frame_trans by (metis subset_trans)

lemma stepsD:
  assumes "steps h P s Q t"
  shows "idle h t" "in_tx Q (card Q) t" "P \<subseteq> Q" "held t = held s" "tx_frame s t" "holds h s j b \<Longrightarrow> holds h t j b"
    "finite Q" "log_start t = log_start s" "klog.more t = klog.more s" "pmem t = pmem s" "procs t = procs s"
    "cpus t = cpus s" "uart_out t = uart_out s" "sleeplocks t (SInode i) = sleeplocks s (SInode i)"
    "log_outstanding t = log_outstanding s"
  using assms tx_frame_eqs [where s = s and t = t] in_tx_finite by (auto simp: steps_def)

lemma room_steps:
  assumes "room h P (j + k) s" and "steps h P s Q t" and "card Q \<le> card P + j"
  shows "room h Q k t"
proof -
  have f: "finite Q" "P \<subseteq> Q" "finite P" using stepsD [OF assms(2)] finite_subset by auto
  have "held s \<union> Q = (held s \<union> P) \<union> (Q - P)" using f by auto
  then have "card (held s \<union> Q) \<le> card (held s \<union> P) + card (Q - P)" by (simp add: card_Un_le)
  moreover have "card (Q - P) \<le> j" using f assms(3) by (simp add: card_Diff_subset)
  ultimately have "card (held s \<union> Q) + k \<le> NBUF" using assms(1) by (simp add: room_def)
  then show ?thesis using stepsD [OF assms(2)] by (simp add: room_def)
qed

lemma room_mono: "room h P k s \<Longrightarrow> j \<le> k \<Longrightarrow> room h P j s"
  by (simp add: room_def)

lemma room_ready: "room h P (Suc k) s \<Longrightarrow> ready h P (card P) s"
  by (simp add: room_def ready_def)

lemma room_idle: "room h P k s \<Longrightarrow> idle h s"
  by (simp add: room_def)

lemma room_small: "room h P (Suc k) s \<Longrightarrow> finite P \<and> card P < LOGBLOCKS"
proof -
  assume r: "room h P (Suc k) s"
  then have "finite P" using in_tx_finite by (auto simp: room_def)
  then have "card P \<le> card (held s \<union> P)" by (intro card_mono) (simp_all add: finite_held)
  then show ?thesis using r \<open>finite P\<close> by (simp add: room_def NBUF_def LOGBLOCKS_def)
qed

lemma steps_read:
  assumes "room h P (Suc k) s" and "b \<notin> held s"
  shows "\<exists>i s1 t. bread h ROOTDEV b s = Ok i s1 \<and> b_data (bufs s1 i) = view s b \<and> cache_frame s s1 \<and>
    brelse h i s1 = Ok () t \<and> steps h P s P t \<and> view t = view s"
proof -
  obtain i s1 t where "bread h ROOTDEV b s = Ok i s1 \<and> b_data (bufs s1 i) = view s b \<and> cache_frame s s1 \<and>
    brelse h i s1 = Ok () t" and r: "reads h P (card P) s t"
    using tx_read [OF room_ready [OF assms(1)] assms(2)] by blast
  moreover have "steps h P s P t"
    using r unfolding reads_def ready_def steps_def by (auto intro: tx_frame_cache)
  ultimately show ?thesis using r unfolding reads_def by blast
qed

lemma card_insert_if: "finite P \<Longrightarrow> card (insert b P) = (if b \<in> P then card P else Suc (card P))"
  by (simp add: insert_absorb)

lemma steps_update:
  assumes "room h P (Suc k) s" and "b \<notin> held s" and "b \<notin> log_area (log_start s)"
  shows "\<exists>i s1 s2 t. bread h ROOTDEV b s = Ok i s1 \<and> b_data (bufs s1 i) = view s b \<and> cache_frame s s1 \<and>
    log_write h i (set_data i d s1) = Ok () s2 \<and> brelse h i s2 = Ok () t \<and>
    steps h P s (insert b P) t \<and> view t = (view s)(b := d)"
proof -
  have f: "finite P" "card P < LOGBLOCKS" using room_small [OF assms(1)] by auto
  obtain i s1 s2 t where r: "bread h ROOTDEV b s = Ok i s1 \<and> b_data (bufs s1 i) = view s b \<and> cache_frame s s1 \<and>
    log_write h i (set_data i d s1) = Ok () s2 \<and> brelse h i s2 = Ok () t"
    and u: "updates h (insert b P) (if b \<in> P then card P else Suc (card P)) b d s t"
    using tx_update [OF room_ready [OF assms(1)] assms(2) f(2) assms(3), of d] by blast
  have "steps h P s (insert b P) t \<and> view t = (view s)(b := d)"
    using u unfolding updates_def steps_def card_insert_if [OF f(1)] by blast
  with r show ?thesis by blast
qed

lemma room_insert: "room h P (Suc k) s \<Longrightarrow> steps h P s (insert b P) t \<Longrightarrow> room h (insert b P) k t"
  using room_steps [of h P 1 k s "insert b P" t] room_small [of h P k s] by (simp add: card_insert_if)

lemma room_keep: "room h P k s \<Longrightarrow> steps h P s P t \<Longrightarrow> room h P k t"
  using room_steps [of h P 0 k s P t] by simp

lemma room_insert2:
  assumes "room h P (Suc (Suc k)) s" and "steps h P s (insert a (insert b P)) t"
  shows "room h (insert a (insert b P)) k t"
proof -
  have "finite P" using room_small [OF assms(1)] by simp
  then have "card (insert b P) \<le> Suc (card P)" "card (insert a (insert b P)) \<le> Suc (card (insert b P))"
    by (simp_all add: card_insert_if)
  then show ?thesis using room_steps [of h P 2 k s _ t] assms by simp
qed

text \<open>Reading a block in two halves, for code that works between \<^verbatim>\<open>bread\<close> and \<^verbatim>\<open>brelse\<close>.\<close>

lemma tx_bread:
  assumes "room h P (Suc k) s" and "b \<notin> held s"
  shows "\<exists>i t. bread h ROOTDEV b s = Ok i t \<and> after_read h P b i s t \<and> room h P k t \<and>
    (b \<in> P \<or> view t b = disk t b)"
proof -
  have r: "idle h s" "in_tx P (card P) s" "bio_inv P s" "card (held s \<union> P) + Suc k \<le> NBUF" "finite P"
    using assms(1) in_tx_finite by (auto simp: room_def in_tx_def)
  obtain i t where b: "bread h ROOTDEV b s = Ok i t" and a: "after_read h P b i s t"
    using bread_after [OF r(1,3,5) assms(2)] r(4) by auto
  have "in_tx P (card P) t" using in_tx_cache [OF r(2)] a by (simp add: after_read_def)
  moreover have "card (held t \<union> P) \<le> Suc (card (held s \<union> P))"
    using a by (simp add: after_read_def card_insert_if r(5) finite_held)
  ultimately have "room h P k t" using a r(4) by (simp add: room_def after_read_def)
  moreover have "b \<in> P \<or> view t b = disk t b"
    using clean_block [OF r(3) _ assms(2)] a by (auto simp: after_read_def)
  ultimately show ?thesis using a b by blast
qed

lemma tx_brelse:
  assumes "room h P k s" and "holds h s i b" and "b \<in> P \<or> view s b = disk s b"
  shows "\<exists>t. brelse h i s = Ok () t \<and> after_relse h P b s t \<and> room h P k t"
proof -
  have r: "idle h s" "in_tx P (card P) s" "bio_inv P s" "card (held s \<union> P) + k \<le> NBUF" "finite P"
    using assms(1) in_tx_finite by (auto simp: room_def in_tx_def)
  obtain t where t: "brelse h i s = Ok () t" "after_relse h P b s t"
    using brelse_after [OF r(1,3) assms(2,3)] by blast
  have "in_tx P (card P) t" using in_tx_cache [OF r(2)] t(2) by (simp add: after_relse_def)
  moreover have "card (held t \<union> P) \<le> card (held s \<union> P)"
    using t(2) by (intro card_mono) (auto simp: after_relse_def r(5) finite_held)
  ultimately have "room h P k t" using t(2) r(4) by (simp add: room_def after_relse_def)
  with t show ?thesis by blast
qed

end
