(* ===== verification/Balloc.thy ===== *)
theory Balloc
  imports Tx
begin

text \<open>
  The block allocator of \<^verbatim>\<open>kernel/fs.c\<close>: \<^verbatim>\<open>bzero\<close>, \<^verbatim>\<open>balloc\<close> and \<^verbatim>\<open>bfree\<close> over the free bitmap on disk, and the state of the
  file system that the theories above it share: the superblock and the in-memory inode table.  The bitmap is
  read through the buffer cache and changed through the log; the results say what the calls do to the blocks as
  the file system sees them (\<open>view\<close>).
\<close>

section \<open>State\<close>

text \<open>\<^verbatim>\<open>struct inode\<close> without its sleep lock, which is \<open>SInode i\<close> for entry \<open>i\<close> of \<^verbatim>\<open>itable\<close>.\<close>

record inode =
  i_dev :: u32
  i_inum :: u32
  i_ref :: int
  i_valid :: bool
  i_type :: u16
  i_major :: u16
  i_minor :: u16
  i_nlink :: u16
  i_size :: u32
  i_addrs :: "nat \<Rightarrow> u32"

text \<open>\<open>k_de\<close> is the address, on the kernel stack, of the local variable \<^verbatim>\<open>de\<close> of \<^verbatim>\<open>dirlookup\<close> and \<^verbatim>\<open>dirlink\<close>.\<close>

record kfs = klog +
  sb :: superblock
  inodes :: "nat \<Rightarrow> inode"
  k_de :: u64

definition FSMAGIC :: u32 where "FSMAGIC = 0x10203040"
definition BPB :: nat where "BPB = BSIZE * 8"

definition BBLOCK :: "nat \<Rightarrow> superblock \<Rightarrow> u32" where
  "BBLOCK b x = of_nat (b div BPB) + sb_bmapstart x"

section \<open>Operations\<close>

definition bzero :: "nat \<Rightarrow> u32 \<Rightarrow> u32 \<Rightarrow> 'a klog_scheme \<Rightarrow> (unit, 'a klog_scheme) res" where
  "bzero h dev bno s =
     kbind (bread h dev bno s) (\<lambda>bp s.
     let s = set_data bp (blk_write 0 (replicate BSIZE 0) (b_data (bufs s bp))) s
     in kbind (log_write h bp s) (\<lambda>_ s. brelse h bp s))"

text \<open>The test and the update of bit \<open>bi\<close> of a bitmap block, with the mask \<^verbatim>\<open>m = 1 << (bi % 8)\<close>.\<close>

definition bit_mask :: "nat \<Rightarrow> u8" where
  "bit_mask bi = push_bit (bi mod 8) 1"

definition bit_used :: "block \<Rightarrow> nat \<Rightarrow> bool" where
  "bit_used d bi \<longleftrightarrow> d (of_nat (bi div 8)) AND bit_mask bi \<noteq> 0"

definition bit_set :: "nat \<Rightarrow> block \<Rightarrow> block" where
  "bit_set bi d = d(of_nat (bi div 8) := d (of_nat (bi div 8)) OR bit_mask bi)"

definition bit_clear :: "nat \<Rightarrow> block \<Rightarrow> block" where
  "bit_clear bi d = d(of_nat (bi div 8) := d (of_nat (bi div 8)) AND NOT (bit_mask bi))"

text \<open>The body of the outer loop of \<^verbatim>\<open>balloc\<close> for the bitmap block of blocks \<open>b\<close>, \<open>b + 1\<close>, \dots: the inner loop stops at
  the first clear bit below \<^verbatim>\<open>BPB\<close> and below \<^verbatim>\<open>sb.size\<close>.\<close>

definition balloc_group :: "nat \<Rightarrow> u32 \<Rightarrow> nat \<Rightarrow> 'a kfs_scheme \<Rightarrow> (u32 option, 'a kfs_scheme) res" where
  "balloc_group h dev b s =
     kbind (bread h dev (BBLOCK b (sb s)) s) (\<lambda>bp s.
     case find (\<lambda>bi. \<not> bit_used (b_data (bufs s bp)) bi) [0..<min BPB (unat (sb_size (sb s)) - b)] of
       Some bi \<Rightarrow>
         kbind (log_write h bp (set_data bp (bit_set bi (b_data (bufs s bp))) s)) (\<lambda>_ s.
         kbind (brelse h bp s) (\<lambda>_ s.
         kbind (bzero h dev (of_nat (b + bi)) s) (\<lambda>_ s. Ok (Some (of_nat (b + bi))) s)))
     | None \<Rightarrow> kbind (brelse h bp s) (\<lambda>_ s. Ok None s))"

definition balloc :: "nat \<Rightarrow> u32 \<Rightarrow> 'a kfs_scheme \<Rightarrow> (u32, 'a kfs_scheme) res" where
  "balloc h dev s =
     kbind (kscan (\<lambda>k. balloc_group h dev (k * BPB)) [0..<(unat (sb_size (sb s)) + BPB - 1) div BPB] s) (\<lambda>r s.
     case r of
       Some b \<Rightarrow> Ok b s
     | None \<Rightarrow> kbind (printf h (''balloc: out of blocks'' @ NL) [] s) (\<lambda>_ s. Ok 0 s))"

definition bfree :: "nat \<Rightarrow> u32 \<Rightarrow> u32 \<Rightarrow> 'a kfs_scheme \<Rightarrow> (unit, 'a kfs_scheme) res" where
  "bfree h dev b s =
     kbind (bread h dev (BBLOCK (unat b) (sb s)) s) (\<lambda>bp s.
     let bi = unat b mod BPB
     in if \<not> bit_used (b_data (bufs s bp)) bi then Panic ''freeing free block''
        else
          kbind (log_write h bp (set_data bp (bit_clear bi (b_data (bufs s bp))) s)) (\<lambda>_ s. brelse h bp s))"

section \<open>The bitmap\<close>

lemma bit_used_iff: "bit_used d bi \<longleftrightarrow> bit (d (of_nat (bi div 8))) (bi mod 8)"
proof -
  have "(x :: u8) AND push_bit k 1 = (if bit x k then push_bit k 1 else 0)" if "k < 8" for x k
    by (rule bit_eqI) (use that in \<open>auto simp: bit_simps\<close>)
  moreover have "push_bit k 1 \<noteq> (0 :: u8)" if "k < 8" for k
  proof -
    have "bit (push_bit k 1 :: u8) k" using that by (simp add: bit_simps)
    with that show ?thesis by auto
  qed
  ultimately show ?thesis by (simp add: bit_used_def bit_mask_def not_le)
qed

lemma bit_slot:
  assumes "bi < BPB" and "bj < BPB"
  shows "(of_nat (bi div 8) :: 10 word) = of_nat (bj div 8) \<longleftrightarrow> bi div 8 = bj div 8"
proof -
  have "bi div 8 < 1024" "bj div 8 < 1024" using assms by (auto simp: BPB_def BSIZE_def)
  then show ?thesis using unat_index by metis
qed

lemma bit_set_used: "bi < BPB \<Longrightarrow> bj < BPB \<Longrightarrow> bit_used (bit_set bi d) bj \<longleftrightarrow> bj = bi \<or> bit_used d bj"
proof -
  assume a: "bi < BPB" "bj < BPB"
  have "bi = bj \<longleftrightarrow> bi div 8 = bj div 8 \<and> bi mod 8 = bj mod 8" by (metis div_mult_mod_eq)
  then show ?thesis
    by (auto simp: bit_used_iff bit_set_def bit_mask_def bit_slot [OF a] bit_slot [OF a(2,1)] bit_simps)
qed

lemma bit_clear_used: "bi < BPB \<Longrightarrow> bj < BPB \<Longrightarrow> bit_used (bit_clear bi d) bj \<longleftrightarrow> bj \<noteq> bi \<and> bit_used d bj"
proof -
  assume a: "bi < BPB" "bj < BPB"
  have "bi = bj \<longleftrightarrow> bi div 8 = bj div 8 \<and> bi mod 8 = bj mod 8" by (metis div_mult_mod_eq)
  then show ?thesis
    by (auto simp: bit_used_iff bit_clear_def bit_mask_def bit_slot [OF a] bit_slot [OF a(2,1)] bit_simps)
qed

lemma bit_clear_set: "\<not> bit_used d bi \<Longrightarrow> bit_clear bi (bit_set bi d) = d"
proof (rule ext)
  fix a assume u: "\<not> bit_used d bi"
  have "((x :: u8) OR push_bit k 1) AND NOT (push_bit k 1) = x" if "\<not> bit x k" for x k
    by (rule bit_eqI) (use that in \<open>auto simp: bit_simps\<close>)
  with u have "((d (of_nat (bi div 8)) OR bit_mask bi) AND NOT (bit_mask bi)) = d (of_nat (bi div 8))"
    by (simp only: bit_mask_def bit_used_iff)
  then show "bit_clear bi (bit_set bi d) a = d a" by (simp add: bit_clear_def bit_set_def)
qed

text \<open>Whether block \<open>b\<close> is marked in use, as the file system sees the bitmap.\<close>

definition in_use :: "(u32 \<Rightarrow> block) \<Rightarrow> superblock \<Rightarrow> nat \<Rightarrow> bool" where
  "in_use v x b \<longleftrightarrow> bit_used (v (BBLOCK b x)) (b mod BPB)"

text \<open>The layout \<^verbatim>\<open>mkfs\<close> produces: the bitmap of the disk lies outside the log, in blocks that are themselves in use,
  as are the log's; disk and bitmap are smaller than the range of block numbers.\<close>

definition bitmap_wf :: "u32 \<Rightarrow> (u32 \<Rightarrow> block) \<Rightarrow> superblock \<Rightarrow> bool" where
  "bitmap_wf st v x \<longleftrightarrow> unat (sb_size x) < 2 ^ 31 \<and>
     (\<forall>b<unat (sb_size x). BBLOCK b x \<notin> log_area st) \<and>
     (\<forall>b<unat (sb_size x). (of_nat b \<in> log_area st \<or> (\<exists>c<unat (sb_size x). of_nat b = BBLOCK c x)) \<longrightarrow> in_use v x b)"

lemma kfs_frame:
  assumes "klog.more t = klog.more s"
  shows "sb t = sb s" "inodes t = inodes s" "k_de t = k_de s" "kfs.more t = kfs.more s"
  using assms by (cases s, cases t, simp)+

lemma kfs_cache_frame:
  assumes "cache_frame s t"
  shows "sb t = sb s" "inodes t = inodes s" "k_de t = k_de s" "kfs.more t = kfs.more s"
  using kfs_frame [OF klog_frame(7) [OF assms]] .

lemma bzero_steps:
  assumes "room h P (Suc k) s" and "b \<notin> held s" and "b \<notin> log_area (log_start s)"
  shows "\<exists>t. bzero h ROOTDEV b s = Ok () t \<and> steps h P s (insert b P) t \<and> view t = (view s)(b := \<lambda>_. 0)"
proof -
  have z: "blk_write 0 (replicate BSIZE 0) d = (\<lambda>_. 0)" for d
    using unat_bound10 by (auto simp: blk_write_def BSIZE_def)
  show ?thesis using steps_update [OF assms, of "\<lambda>_. 0"] unfolding bzero_def by (auto simp: z)
qed

text \<open>The clear bit \<^verbatim>\<open>balloc_group\<close> looks for, and its two outcomes.\<close>

lemma balloc_group_none:
  assumes "room h P (Suc k) s" and "BBLOCK b (sb s) \<notin> held s"
    and "\<forall>bi<min BPB (unat (sb_size (sb s)) - b). bit_used (view s (BBLOCK b (sb s))) bi"
  shows "\<exists>t. balloc_group h ROOTDEV b s = Ok None t \<and> steps h P s P t \<and> view t = view s"
proof -
  obtain i s1 t where r: "bread h ROOTDEV (BBLOCK b (sb s)) s = Ok i s1" "b_data (bufs s1 i) = view s (BBLOCK b (sb s))"
    "cache_frame s s1" "brelse h i s1 = Ok () t" "steps h P s P t" "view t = view s"
    using steps_read [OF assms(1,2)] by blast
  have "find (\<lambda>bi. \<not> bit_used (view s (BBLOCK b (sb s))) bi) [0..<min BPB (unat (sb_size (sb s)) - b)] = None"
    using assms(3) by (auto simp: find_None_iff)
  with r have "balloc_group h ROOTDEV b s = Ok None t"
    unfolding balloc_group_def by (simp add: kfs_cache_frame(1) [OF r(3)])
  with r show ?thesis by blast
qed

lemma balloc_group_some:
  assumes "room h P (Suc (Suc k)) s" and "BBLOCK b (sb s) \<notin> held s" and "BBLOCK b (sb s) \<notin> log_area (log_start s)"
    and "find (\<lambda>bi. \<not> bit_used (view s (BBLOCK b (sb s))) bi) [0..<min BPB (unat (sb_size (sb s)) - b)] = Some bi"
    and "of_nat (b + bi) \<notin> held s" and "of_nat (b + bi) \<notin> log_area (log_start s)"
  shows "\<exists>t. balloc_group h ROOTDEV b s = Ok (Some (of_nat (b + bi))) t \<and>
    steps h P s (insert (of_nat (b + bi)) (insert (BBLOCK b (sb s)) P)) t \<and>
    view t = (view s)(BBLOCK b (sb s) := bit_set bi (view s (BBLOCK b (sb s))), of_nat (b + bi) := \<lambda>_. 0)"
proof -
  let ?m = "BBLOCK b (sb s)"
  let ?c = "of_nat (b + bi) :: u32"
  obtain i s1 s2 t where r: "bread h ROOTDEV ?m s = Ok i s1" "b_data (bufs s1 i) = view s ?m"
    "cache_frame s s1" "log_write h i (set_data i (bit_set bi (view s ?m)) s1) = Ok () s2" "brelse h i s2 = Ok () t"
    "steps h P s (insert ?m P) t" "view t = (view s)(?m := bit_set bi (view s ?m))"
    using steps_update [OF assms(1-3), of "bit_set bi (view s ?m)"] by blast
  have "room h (insert ?m P) (Suc k) t" using room_insert [OF assms(1) r(6)] .
  moreover have "?c \<notin> held t" "?c \<notin> log_area (log_start t)" using assms(5,6) stepsD(4,8) [OF r(6)] by auto
  ultimately obtain u where u: "bzero h ROOTDEV ?c t = Ok () u" "steps h (insert ?m P) t (insert ?c (insert ?m P)) u"
    "view u = (view t)(?c := \<lambda>_. 0)"
    using bzero_steps by blast
  have "balloc_group h ROOTDEV b s = Ok (Some ?c) u"
    unfolding balloc_group_def using r u(1) assms(4) by (simp add: kfs_cache_frame(1) [OF r(3)])
  with r u steps_trans [OF r(6) u(2)] show ?thesis by auto
qed

lemma BBLOCK_group: "bi < BPB \<Longrightarrow> BBLOCK (k * BPB + bi) x = BBLOCK (k * BPB) x \<and> (k * BPB + bi) mod BPB = bi"
  by (simp add: BBLOCK_def BPB_def BSIZE_def)

lemma balloc_scan_none:
  assumes "room h P (Suc k) s" and "\<forall>b<unat (sb_size (sb s)). BBLOCK b (sb s) \<notin> held s"
    and "K \<le> (unat (sb_size (sb s)) + BPB - 1) div BPB"
    and "\<forall>b<min (K * BPB) (unat (sb_size (sb s))). in_use (view s) (sb s) b"
  shows "\<exists>t. kscan (\<lambda>k. balloc_group h ROOTDEV (k * BPB)) [0..<K] s = Ok None t \<and> steps h P s P t \<and> view t = view s"
  using assms(3,4)
proof (induction K)
  case 0
  with steps_refl [OF assms(1)] show ?case by auto
next
  case (Suc K)
  then obtain t where t: "kscan (\<lambda>k. balloc_group h ROOTDEV (k * BPB)) [0..<K] s = Ok None t" "steps h P s P t" "view t = view s"
    using Suc.IH by (simp add: min_less_iff_conj) (metis less_SucI less_le_trans mult_le_mono1 lessI less_imp_le)
  note f = kfs_frame [OF stepsD(9) [OF t(2)]]
  have K: "K * BPB < unat (sb_size (sb s))" using Suc.prems(1) by (simp add: BPB_def BSIZE_def)
  have "\<forall>bi<min BPB (unat (sb_size (sb t)) - K * BPB). bit_used (view t (BBLOCK (K * BPB) (sb t))) bi"
  proof (intro allI impI)
    fix bi assume "bi < min BPB (unat (sb_size (sb t)) - K * BPB)"
    then have bi: "bi < BPB" "K * BPB + bi < min (Suc K * BPB) (unat (sb_size (sb s)))" using K by (auto simp: f)
    then show "bit_used (view t (BBLOCK (K * BPB) (sb t))) bi"
      using Suc.prems(2) [THEN spec, THEN mp, OF bi(2)] BBLOCK_group [OF bi(1), of K "sb s"] by (simp add: in_use_def t f)
  qed
  moreover have "BBLOCK (K * BPB) (sb t) \<notin> held t" using assms(2) K stepsD(4) [OF t(2)] by (simp add: f)
  ultimately obtain u where u: "balloc_group h ROOTDEV (K * BPB) t = Ok None u" "steps h P t P u" "view u = view t"
    using balloc_group_none [OF room_keep [OF assms(1) t(2)]] by blast
  with t steps_trans [OF t(2) u(2)] show ?case by (auto simp: kscan_append)
qed

lemma balloc_first_free:
  assumes "room h P (Suc (Suc k)) s" and "bitmap_wf (log_start s) (view s) (sb s)"
    and "\<forall>b<unat (sb_size (sb s)). BBLOCK b (sb s) \<notin> held s"
    and "b < unat (sb_size (sb s))" and "\<not> in_use (view s) (sb s) b" and "\<forall>c<b. in_use (view s) (sb s) c" and "of_nat b \<notin> held s"
  shows "\<exists>t. balloc h ROOTDEV s = Ok (of_nat b) t \<and> steps h P s (insert (of_nat b) (insert (BBLOCK b (sb s)) P)) t \<and>
    view t = (view s)(BBLOCK b (sb s) := bit_set (b mod BPB) (view s (BBLOCK b (sb s))), of_nat b := \<lambda>_. 0)"
proof -
  let ?K = "b div BPB" and ?n = "(unat (sb_size (sb s)) + BPB - 1) div BPB"
  have BP: "BPB = 8192" by (simp add: BPB_def BSIZE_def)
  have K: "?K < ?n" "?K * BPB + b mod BPB = b" "b mod BPB < BPB" "b mod BPB < unat (sb_size (sb s)) - ?K * BPB"
  proof -
    show "?K < ?n" "b mod BPB < BPB" using assms(4) by (auto simp: BP)
    show e: "?K * BPB + b mod BPB = b" by simp
    show "b mod BPB < unat (sb_size (sb s)) - ?K * BPB" using e assms(4) by linarith
  qed
  have m: "BBLOCK (?K * BPB) (sb s) = BBLOCK b (sb s)" using BBLOCK_group [OF K(3), of ?K "sb s"] K(2) by simp
  have "\<forall>c<min (?K * BPB) (unat (sb_size (sb s))). in_use (view s) (sb s) c"
    using assms(6) K(2) by (metis add_leD1 min_less_iff_conj order_less_le_trans order_refl)
  then obtain t where t: "kscan (\<lambda>k. balloc_group h ROOTDEV (k * BPB)) [0..<?K] s = Ok None t" "steps h P s P t" "view t = view s"
    using balloc_scan_none [OF room_mono [OF assms(1)] assms(3), of k ?K] K(1) by auto
  note f = kfs_frame [OF stepsD(9) [OF t(2)]]
  have fr: "BBLOCK b (sb s) \<notin> held s" "BBLOCK b (sb s) \<notin> log_area (log_start s)" "of_nat b \<notin> log_area (log_start s)"
    using assms(2-5) by (auto simp: bitmap_wf_def)
  have "find (\<lambda>bi. \<not> bit_used (view t (BBLOCK (?K * BPB) (sb t))) bi) [0..<min BPB (unat (sb_size (sb t)) - ?K * BPB)] =
      Some (b mod BPB)"
  proof -
    have "bit_used (view s (BBLOCK b (sb s))) bi" if "bi < b mod BPB" for bi
    proof -
      from that have "bi < BPB" "?K * BPB + bi < b" using K(2,3) by linarith+
      then show ?thesis using assms(6) BBLOCK_group [of bi ?K "sb s"] by (auto simp: in_use_def m)
    qed
    moreover have "\<not> bit_used (view s (BBLOCK b (sb s))) (b mod BPB)" using assms(5) by (simp add: in_use_def)
    ultimately show ?thesis unfolding t f m using K(3,4) by (auto simp: find_Some_iff intro!: exI [of _ "b mod BPB"])
  qed
  then obtain u where u: "balloc_group h ROOTDEV (?K * BPB) t = Ok (Some (of_nat b)) u"
    "steps h P t (insert (of_nat b) (insert (BBLOCK b (sb s)) P)) u"
    "view u = (view s)(BBLOCK b (sb s) := bit_set (b mod BPB) (view s (BBLOCK b (sb s))), of_nat b := \<lambda>_. 0)"
    using balloc_group_some [OF room_keep [OF assms(1) t(2)], of "?K * BPB" "b mod BPB"] fr assms(7) stepsD(4,8) [OF t(2)]
    unfolding f m t(3) K(2) by auto
  have "kscan (\<lambda>k. balloc_group h ROOTDEV (k * BPB)) [0..<?n] s = Ok (Some (of_nat b)) u"
    using upt_split [OF K(1)] t(1) u(1) by (simp add: kscan_append)
  then have "balloc h ROOTDEV s = Ok (of_nat b) u" by (simp add: balloc_def)
  with u steps_trans [OF t(2) u(2)] show ?thesis by blast
qed

lemma balloc_out_of_blocks:
  assumes "room h P (Suc k) s" and "\<forall>b<unat (sb_size (sb s)). BBLOCK b (sb s) \<notin> held s"
    and "\<forall>b<unat (sb_size (sb s)). in_use (view s) (sb s) b"
  shows "\<exists>t. balloc h ROOTDEV s = Ok 0 (t\<lparr>uart_out := uart_out t @ ''balloc: out of blocks'' @ NL\<rparr>) \<and>
    steps h P s P t \<and> view t = view s"
proof -
  let ?n = "(unat (sb_size (sb s)) + BPB - 1) div BPB"
  obtain t where t: "kscan (\<lambda>k. balloc_group h ROOTDEV (k * BPB)) [0..<?n] s = Ok None t" "steps h P s P t" "view t = view s"
    using balloc_scan_none [OF assms(1,2), of ?n] assms(3) by auto
  have i: "idle h t" using stepsD(1) [OF t(2)] .
  have "printf_fmt kdigits (''balloc: out of blocks'' @ NL) [] = Some (''balloc: out of blocks'' @ NL)"
    by (simp add: printf_rules NL_def)
  then have "printf h (''balloc: out of blocks'' @ NL) [] t = Ok () (t\<lparr>uart_out := uart_out t @ ''balloc: out of blocks'' @ NL\<rparr>)"
    using printf_ok [OF idle_wf [OF i]] i by (simp add: idle_settle) (simp add: idle_def)
  then have "balloc h ROOTDEV s = Ok 0 (t\<lparr>uart_out := uart_out t @ ''balloc: out of blocks'' @ NL\<rparr>)"
    by (simp only: balloc_def t(1) kbind.simps option.case)
  with t show ?thesis by blast
qed

lemma bfree_clears:
  assumes "room h P (Suc k) s" and "BBLOCK (unat b) (sb s) \<notin> held s" and "BBLOCK (unat b) (sb s) \<notin> log_area (log_start s)"
    and "in_use (view s) (sb s) (unat b)"
  shows "\<exists>t. bfree h ROOTDEV b s = Ok () t \<and> steps h P s (insert (BBLOCK (unat b) (sb s)) P) t \<and>
    view t = (view s)(BBLOCK (unat b) (sb s) := bit_clear (unat b mod BPB) (view s (BBLOCK (unat b) (sb s))))"
proof -
  let ?m = "BBLOCK (unat b) (sb s)"
  have "bit_used (view s ?m) (unat b mod BPB)" using assms(4) by (simp add: in_use_def)
  then show ?thesis
    using steps_update [OF assms(1-3), of "bit_clear (unat b mod BPB) (view s ?m)"] unfolding bfree_def by (auto simp: Let_def)
qed

lemma bfree_free_panics:
  assumes "room h P (Suc k) s" and "BBLOCK (unat b) (sb s) \<notin> held s" and "\<not> in_use (view s) (sb s) (unat b)"
  shows "bfree h ROOTDEV b s = Panic ''freeing free block''"
  using steps_read [OF assms(1,2)] assms(3) unfolding bfree_def in_use_def by (auto simp: Let_def)

text \<open>Bitmap blocks and the allocated block are different blocks.\<close>

lemma free_not_bitmap:
  assumes "bitmap_wf st v x" and "b < unat (sb_size x)" and "\<not> in_use v x b"
  shows "unat (of_nat b :: u32) = b" and "c < unat (sb_size x) \<Longrightarrow> BBLOCK c x \<noteq> of_nat b"
proof -
  have "b < 2 ^ 32" using assms(1,2) by (simp add: bitmap_wf_def)
  then show "unat (of_nat b :: u32) = b" by (simp add: unat_of_nat)
  show "BBLOCK c x \<noteq> of_nat b" if "c < unat (sb_size x)"
    using assms that unfolding bitmap_wf_def by metis
qed

lemma unat_of_nat32: "n < 2 ^ 32 \<Longrightarrow> unat (of_nat n :: u32) = n"
  by (simp add: unat_of_nat)

lemma BBLOCK_eq:
  assumes "unat (sb_size x) < 2 ^ 31" and "b < unat (sb_size x)" and "c < unat (sb_size x)" and "BBLOCK b x = BBLOCK c x"
  shows "b div BPB = c div BPB"
proof -
  have "b div BPB < 2 ^ 32" "c div BPB < 2 ^ 32" using assms(1-3) by (auto simp: BPB_def BSIZE_def)
  moreover have "(of_nat (b div BPB) :: u32) = of_nat (c div BPB)" using assms(4) by (simp add: BBLOCK_def)
  ultimately show ?thesis using unat_of_nat32 by metis
qed

lemma in_use_after_balloc:
  assumes "bitmap_wf st v x" and "b < unat (sb_size x)" and "\<not> in_use v x b" and "c < unat (sb_size x)"
  shows "in_use (v(BBLOCK b x := bit_set (b mod BPB) (v (BBLOCK b x)), of_nat b := \<lambda>_. 0)) x c \<longleftrightarrow> c = b \<or> in_use v x c"
proof -
  have n: "BBLOCK c x \<noteq> of_nat b" "BBLOCK b x \<noteq> of_nat b" using free_not_bitmap [OF assms(1-3)] assms(2,4) by auto
  have BP: "BPB > 0" by (simp add: BPB_def BSIZE_def)
  show ?thesis
  proof (cases "BBLOCK c x = BBLOCK b x")
    case True
    have "c div BPB = b div BPB" using BBLOCK_eq [OF _ assms(4,2) True] assms(1) by (simp add: bitmap_wf_def)
    then have "c = b \<longleftrightarrow> c mod BPB = b mod BPB" by (metis div_mult_mod_eq)
    then show ?thesis using True n BP by (simp add: in_use_def bit_set_used)
  next
    case False
    then show ?thesis using n by (auto simp: in_use_def)
  qed
qed

text \<open>
  \<^verbatim>\<open>balloc\<close> inside a transaction with room for two more blocks returns the lowest block that is not in use, cleared to
  zero; the bitmap then shows that block in use and every other as before, and no other block of the disk changes.
  With every block in use it returns 0 and prints the message, and changes no block.
\<close>

theorem balloc_takes_lowest_free:
  assumes "room h P 2 s" and "bitmap_wf (log_start s) (view s) (sb s)" and "held s = {}"
  shows "(\<exists>b<unat (sb_size (sb s)). \<not> in_use (view s) (sb s) b \<and> (\<forall>c<b. in_use (view s) (sb s) c) \<and>
       (\<exists>t. balloc h ROOTDEV s = Ok (of_nat b) t \<and> view t (of_nat b) = (\<lambda>_. 0) \<and>
          (\<forall>c<unat (sb_size (sb s)). in_use (view t) (sb s) c \<longleftrightarrow> c = b \<or> in_use (view s) (sb s) c) \<and>
          (\<forall>x. x \<noteq> of_nat b \<longrightarrow> x \<noteq> BBLOCK b (sb s) \<longrightarrow> view t x = view s x))) \<or>
    ((\<forall>b<unat (sb_size (sb s)). in_use (view s) (sb s) b) \<and>
       (\<exists>t. balloc h ROOTDEV s = Ok 0 t \<and> view t = view s \<and> uart_out t = uart_out s @ ''balloc: out of blocks'' @ NL))"
proof (cases "\<forall>b<unat (sb_size (sb s)). in_use (view s) (sb s) b")
  case True
  have "room h P (Suc 0) s" by (rule room_mono [OF assms(1)]) simp
  then obtain t where "balloc h ROOTDEV s = Ok 0 (t\<lparr>uart_out := uart_out t @ ''balloc: out of blocks'' @ NL\<rparr>)"
    "steps h P s P t" "view t = view s"
    using balloc_out_of_blocks [OF _ _ True, of h P 0] assms(3) by auto
  with True stepsD(13) [of h P s P t] show ?thesis by auto
next
  case False
  then obtain b0 where "b0 < unat (sb_size (sb s)) \<and> \<not> in_use (view s) (sb s) b0" by blast
  then obtain b where b: "b < unat (sb_size (sb s))" "\<not> in_use (view s) (sb s) b" "\<forall>c<b. in_use (view s) (sb s) c"
    using least_index_exists [of "\<lambda>b. b < unat (sb_size (sb s)) \<and> \<not> in_use (view s) (sb s) b" b0 "Suc b0"]
    by (metis lessI order_less_trans)
  have "room h P (Suc (Suc 0)) s" using assms(1) by (simp add: numeral_2_eq_2)
  then obtain t where t: "balloc h ROOTDEV s = Ok (of_nat b) t"
    "view t = (view s)(BBLOCK b (sb s) := bit_set (b mod BPB) (view s (BBLOCK b (sb s))), of_nat b := \<lambda>_. 0)"
    using balloc_first_free [OF _ assms(2) _ b, of h P 0] assms(3) by auto
  have "\<forall>c<unat (sb_size (sb s)). in_use (view t) (sb s) c \<longleftrightarrow> c = b \<or> in_use (view s) (sb s) c"
    unfolding t(2) using in_use_after_balloc [OF assms(2) b(1,2)] by blast
  moreover have "view t (of_nat b) = (\<lambda>_. 0)" "\<forall>x. x \<noteq> of_nat b \<longrightarrow> x \<noteq> BBLOCK b (sb s) \<longrightarrow> view t x = view s x"
    unfolding t(2) by auto
  ultimately show ?thesis using b t(1) by blast
qed

section \<open>A disk, concretely\<close>

text \<open>A disk of 50 blocks with the log at 2, inodes from block 33 and the bitmap in block 45, blocks 48 and 49 free.\<close>

definition demo_sb :: superblock where
  "demo_sb = \<lparr>sb_magic = FSMAGIC, sb_size = 50, sb_nblocks = 4, sb_ninodes = 32, sb_nlog = 31, sb_logstart = 2,
     sb_inodestart = 33, sb_bmapstart = 45\<rparr>"

definition demo_map :: block where
  "demo_map = (\<lambda>a. if a < 6 then 255 else 0)"

definition fresh_fs :: "(u32 \<Rightarrow> block) \<Rightarrow> kfs" where
  "fresh_fs d = klog.extend (fresh_log 1 d)
     \<lparr>sb = demo_sb,
      inodes = \<lambda>_. \<lparr>i_dev = 0, i_inum = 0, i_ref = 0, i_valid = False, i_type = 0, i_major = 0, i_minor = 0,
        i_nlink = 0, i_size = 0, i_addrs = \<lambda>_. 0\<rparr>,
      k_de = 0x87000000\<rparr>"

lemma fresh_fs_simps:
  "room 0 {} 30 (fresh_fs d)" "held (fresh_fs d) = {}" "view (fresh_fs d) = d" "sb (fresh_fs d) = demo_sb"
  "log_start (fresh_fs d) = 2"
proof -
  have f: "sleeplocks (fresh_fs d) = sleeplocks (fresh_log 1 d)" "bufs (fresh_fs d) = bufs (fresh_log 1 d)"
    "b_prev (fresh_fs d) = b_prev (fresh_log 1 d)" "b_next (fresh_fs d) = b_next (fresh_log 1 d)"
    "disk (fresh_fs d) = disk (fresh_log 1 d)" "cpus (fresh_fs d) = cpus (fresh_log 1 d)" "sie (fresh_fs d) = sie (fresh_log 1 d)"
    "locks (fresh_fs d) = locks (fresh_log 1 d)" "procs (fresh_fs d) = procs (fresh_log 1 d)"
    by (simp_all add: fresh_fs_def klog.defs)
  have l: "log_dev (fresh_fs d) = ROOTDEV" "lh_n (fresh_fs d) = 0" "log_outstanding (fresh_fs d) = 1"
    by (simp_all add: fresh_fs_def klog.defs fresh_log_def kbio.defs)
  show "held (fresh_fs d) = {}" using fresh_log_bio(3) [of 1 d] by (simp add: held_def f)
  show "view (fresh_fs d) = d" using fresh_log_bio(4) [of 1 d] by (simp only: view_def [abs_def] cached_def f)
  show "sb (fresh_fs d) = demo_sb" "log_start (fresh_fs d) = 2"
    by (simp_all add: fresh_fs_def klog.defs fresh_log_def kbio.defs)
  have "idle 0 (fresh_fs d)" using fresh_log_bio(1) [of 1 d] by (simp add: idle_def lock_free_def f)
  moreover have "bio_inv {} (fresh_fs d)" using fresh_log_bio(2) [of 1 d] by (simp add: bio_inv_def lru_def f)
  moreover have "held (fresh_fs d) = {}" by fact
  ultimately show "room 0 {} 30 (fresh_fs d)"
    by (simp add: room_def in_tx_def l NBUF_def MAXOPBLOCKS_def)
qed

lemma demo_bitmap:
  assumes "d 45 = demo_map"
  shows "bitmap_wf 2 d demo_sb" and "b < 50 \<Longrightarrow> in_use d demo_sb b \<longleftrightarrow> b < 48"
proof -
  have m: "bit_used demo_map b \<longleftrightarrow> b < 48" if "b < 50" for b
  proof -
    have "b div 8 < 1024" using that by simp
    then have "(of_nat (b div 8) :: 10 word) < 6 \<longleftrightarrow> b div 8 < 6" using unat_index by (simp add: word_less_nat_alt)
    moreover have "bit (255 :: u8) k" if "k < 8" for k
    proof -
      have "(255 :: u8) = -1" by simp
      then show ?thesis using that by (simp only: bit_minus_1_iff) simp
    qed
    ultimately show ?thesis by (auto simp: bit_used_iff demo_map_def)
  qed
  have B: "BBLOCK b demo_sb = 45" if "b < 50" for b using that by (simp add: BBLOCK_def BPB_def BSIZE_def demo_sb_def)
  show u: "in_use d demo_sb b \<longleftrightarrow> b < 48" if "b < 50" for b
    using m [OF that] that assms B [OF that] by (simp add: in_use_def BPB_def BSIZE_def)
  have l: "(45 :: u32) \<notin> log_area 2" "(48 :: u32) \<notin> log_area 2" "(49 :: u32) \<notin> log_area 2" by code_simp+
  have "in_use d demo_sb b" if "b < 50" "of_nat b \<in> log_area 2 \<or> (\<exists>c<50. of_nat b = BBLOCK c demo_sb)" for b
  proof (rule ccontr)
    assume "\<not> in_use d demo_sb b"
    then have "b = 48 \<or> b = 49" using u [OF that(1)] that(1) by auto
    then show False using l that(2) B by auto
  qed
  then show "bitmap_wf 2 d demo_sb" using l(1) B unfolding bitmap_wf_def by (simp add: demo_sb_def)
qed

theorem balloc_takes_lowest_free_witness:
  "(\<exists>t. balloc 0 ROOTDEV (fresh_fs (\<lambda>_. demo_map)) = Ok 48 t) \<and>
   room 0 {} 2 (fresh_fs (\<lambda>_. demo_map)) \<and> bitmap_wf (log_start (fresh_fs (\<lambda>_. demo_map))) (view (fresh_fs (\<lambda>_. demo_map))) demo_sb"
proof -
  let ?s = "fresh_fs (\<lambda>_. demo_map)"
  note wf = demo_bitmap [of "\<lambda>_. demo_map", simplified]
  have sz: "unat (sb_size demo_sb) = 50" by (simp add: demo_sb_def)
  have r: "room 0 {} 2 ?s" by (rule room_mono [OF fresh_fs_simps(1)]) simp
  have e: "\<exists>b<50. \<not> in_use (view ?s) (sb ?s) b \<and> (\<forall>c<b. in_use (view ?s) (sb ?s) c) \<and>
     (\<exists>t. balloc 0 ROOTDEV ?s = Ok (of_nat b) t)"
    using balloc_takes_lowest_free [OF r] wf(2) [of 49] by (auto simp: fresh_fs_simps wf(1) sz)
  then obtain b t where b: "b < 50" "\<not> b < 48" "\<forall>c<b. in_use (\<lambda>_. demo_map) demo_sb c" "balloc 0 ROOTDEV ?s = Ok (of_nat b) t"
    using wf(2) by (auto simp: fresh_fs_simps)
  then have "b = 48" using wf(2) [of 48] by (cases "b = 49") auto
  with b(4) r show ?thesis by (auto simp: fresh_fs_simps wf)
qed



end
