(* ===== verification/Inode.thy ===== *)
theory Inode
  imports Balloc
begin

text \<open>
  Inodes, \<^verbatim>\<open>kernel/fs.c\<close>: the on-disk \<^verbatim>\<open>struct dinode\<close>, the table of in-memory inodes with its reference counts, the
  map from file blocks to disk blocks, truncation and the release of unused inodes.  A pointer to an in-memory
  inode is its index in \<^verbatim>\<open>itable\<close>.
\<close>

section \<open>On-disk inodes\<close>

definition ROOTINO :: u32 where "ROOTINO = 1"
definition T_DIR :: u16 where "T_DIR = 1"
definition T_FILE :: u16 where "T_FILE = 2"
definition T_DEVICE :: u16 where "T_DEVICE = 3"
definition NDIRECT :: nat where "NDIRECT = 12"
definition NINDIRECT :: nat where "NINDIRECT = BSIZE div 4"
definition MAXFILE :: nat where "MAXFILE = NDIRECT + NINDIRECT"

record dinode =
  d_type :: u16
  d_major :: u16
  d_minor :: u16
  d_nlink :: u16
  d_size :: u32
  d_addrs :: "nat \<Rightarrow> u32"

definition IPB :: nat where "IPB = BSIZE div 64"

definition IBLOCK :: "u32 \<Rightarrow> superblock \<Rightarrow> u32" where
  "IBLOCK i x = of_nat (unat i div IPB) + sb_inodestart x"

text \<open>The inode \<^verbatim>\<open>(struct dinode*)bp->data + inum % IPB\<close> of a block: 64 bytes, the address array at offset 12.\<close>

definition dino_off :: "u32 \<Rightarrow> nat" where
  "dino_off inum = 64 * (unat inum mod IPB)"

definition get_dinode :: "u32 \<Rightarrow> block \<Rightarrow> dinode" where
  "get_dinode inum d =
     (let o' = dino_off inum
      in \<lparr>d_type = get16 o' d, d_major = get16 (o' + 2) d, d_minor = get16 (o' + 4) d, d_nlink = get16 (o' + 6) d,
          d_size = get32 (o' + 8) d, d_addrs = (\<lambda>k. if k \<le> NDIRECT then get32 (o' + 12 + 4 * k) d else 0)\<rparr>)"

definition put_dinode :: "u32 \<Rightarrow> dinode \<Rightarrow> block \<Rightarrow> block" where
  "put_dinode inum x d =
     (let o' = dino_off inum;
          d = put16 o' (d_type x) d;
          d = put16 (o' + 2) (d_major x) d;
          d = put16 (o' + 4) (d_minor x) d;
          d = put16 (o' + 6) (d_nlink x) d;
          d = put32 (o' + 8) (d_size x) d
      in fold (\<lambda>k. put32 (o' + 12 + 4 * k) (d_addrs x k)) [0..<NDIRECT + 1] d)"

definition inode_at :: "nat \<Rightarrow> (inode \<Rightarrow> inode) \<Rightarrow> 'a kfs_scheme \<Rightarrow> 'a kfs_scheme" where
  "inode_at ip f s = s\<lparr>inodes := (inodes s)(ip := f (inodes s ip))\<rparr>"

section \<open>The inode table\<close>

definition iinit :: "'a kfs_scheme \<Rightarrow> 'a kfs_scheme" where
  "iinit s = fold (\<lambda>i. initsleeplock (SInode i) ''inode'') [0..<NINODE] (initlock LItable ''itable'' s)"

definition iget :: "nat \<Rightarrow> u32 \<Rightarrow> u32 \<Rightarrow> 'a kfs_scheme \<Rightarrow> (nat, 'a kfs_scheme) res" where
  "iget h dev inum s =
     kbind (acquire h LItable s) (\<lambda>_ s.
     case find (\<lambda>i. i_ref (inodes s i) > 0 \<and> i_dev (inodes s i) = dev \<and> i_inum (inodes s i) = inum) [0..<NINODE] of
       Some ip \<Rightarrow>
         kbind (release h LItable (inode_at ip (\<lambda>x. x\<lparr>i_ref := i_ref x + 1\<rparr>) s)) (\<lambda>_ s. Ok ip s)
     | None \<Rightarrow>
         (case find (\<lambda>i. i_ref (inodes s i) = 0) [0..<NINODE] of
            None \<Rightarrow> Panic ''iget: no inodes''
          | Some ip \<Rightarrow>
              kbind (release h LItable (inode_at ip
                (\<lambda>x. x\<lparr>i_dev := dev, i_inum := inum, i_ref := 1, i_valid := False\<rparr>) s)) (\<lambda>_ s. Ok ip s)))"

definition idup :: "nat \<Rightarrow> nat \<Rightarrow> 'a kfs_scheme \<Rightarrow> (nat, 'a kfs_scheme) res" where
  "idup h ip s =
     kbind (acquire h LItable s) (\<lambda>_ s.
     kbind (release h LItable (inode_at ip (\<lambda>x. x\<lparr>i_ref := i_ref x + 1\<rparr>) s)) (\<lambda>_ s. Ok ip s))"

text \<open>One turn of the loop of \<^verbatim>\<open>ialloc\<close>.\<close>

definition ialloc_try :: "nat \<Rightarrow> u32 \<Rightarrow> u16 \<Rightarrow> u32 \<Rightarrow> 'a kfs_scheme \<Rightarrow> (nat option, 'a kfs_scheme) res" where
  "ialloc_try h dev type inum s =
     kbind (bread h dev (IBLOCK inum (sb s)) s) (\<lambda>bp s.
     let d = b_data (bufs s bp)
     in if d_type (get_dinode inum d) = 0 then
          let d = put16 (dino_off inum) type (blk_write (dino_off inum) (replicate 64 0) d)
          in kbind (log_write h bp (set_data bp d s)) (\<lambda>_ s.
             kbind (brelse h bp s) (\<lambda>_ s.
             kbind (iget h dev inum s) (\<lambda>ip s. Ok (Some ip) s)))
        else kbind (brelse h bp s) (\<lambda>_ s. Ok None s))"

definition ialloc :: "nat \<Rightarrow> u32 \<Rightarrow> u16 \<Rightarrow> 'a kfs_scheme \<Rightarrow> (nat option, 'a kfs_scheme) res" where
  "ialloc h dev type s =
     kbind (kscan (\<lambda>inum. ialloc_try h dev type (of_nat inum)) [1..<unat (sb_ninodes (sb s))] s) (\<lambda>r s.
     case r of
       Some ip \<Rightarrow> Ok (Some ip) s
     | None \<Rightarrow> kbind (printf h (''ialloc: no inodes'' @ NL) [] s) (\<lambda>_ s. Ok None s))"

definition iupdate :: "nat \<Rightarrow> nat \<Rightarrow> 'a kfs_scheme \<Rightarrow> (unit, 'a kfs_scheme) res" where
  "iupdate h ip s =
     (let x = inodes s ip
      in kbind (bread h (i_dev x) (IBLOCK (i_inum x) (sb s)) s) (\<lambda>bp s.
         let x = inodes s ip;
             di = \<lparr>d_type = i_type x, d_major = i_major x, d_minor = i_minor x, d_nlink = i_nlink x,
                   d_size = i_size x, d_addrs = i_addrs x\<rparr>;
             s = set_data bp (put_dinode (i_inum x) di (b_data (bufs s bp))) s
         in kbind (log_write h bp s) (\<lambda>_ s. brelse h bp s)))"

definition ilock :: "nat \<Rightarrow> nat option \<Rightarrow> 'a kfs_scheme \<Rightarrow> (unit, 'a kfs_scheme) res" where
  "ilock h ipp s =
     (case ipp of
        None \<Rightarrow> Panic ''ilock''
      | Some ip \<Rightarrow>
          if i_ref (inodes s ip) < 1 then Panic ''ilock''
          else
            kbind (acquiresleep h (SInode ip) s) (\<lambda>_ s.
            if \<not> i_valid (inodes s ip) then
              kbind (bread h (i_dev (inodes s ip)) (IBLOCK (i_inum (inodes s ip)) (sb s)) s) (\<lambda>bp s.
              let di = get_dinode (i_inum (inodes s ip)) (b_data (bufs s bp));
                  s = inode_at ip (\<lambda>x. x\<lparr>i_type := d_type di, i_major := d_major di, i_minor := d_minor di,
                    i_nlink := d_nlink di, i_size := d_size di, i_addrs := d_addrs di\<rparr>) s
              in kbind (brelse h bp s) (\<lambda>_ s.
                 let s = inode_at ip (\<lambda>x. x\<lparr>i_valid := True\<rparr>) s
                 in if i_type (inodes s ip) = 0 then Panic ''ilock: no type'' else Ok () s))
            else Ok () s))"

definition iunlock :: "nat \<Rightarrow> nat option \<Rightarrow> 'a kfs_scheme \<Rightarrow> (unit, 'a kfs_scheme) res" where
  "iunlock h ipp s =
     (case ipp of
        None \<Rightarrow> Panic ''iunlock''
      | Some ip \<Rightarrow>
          kbind (holdingsleep h (SInode ip) s) (\<lambda>held s.
          if \<not> held \<or> i_ref (inodes s ip) < 1 then Panic ''iunlock''
          else releasesleep h (SInode ip) s))"

section \<open>Blocks of a file\<close>

text \<open>\<open>bmap_slot\<close>: read \<^verbatim>\<open>ip->addrs[k]\<close>, allocating a block for it when it is 0.\<close>

definition bmap_slot :: "nat \<Rightarrow> nat \<Rightarrow> nat \<Rightarrow> 'a kfs_scheme \<Rightarrow> (u32, 'a kfs_scheme) res" where
  "bmap_slot h ip k s =
     (if i_addrs (inodes s ip) k \<noteq> 0 then Ok (i_addrs (inodes s ip) k) s
      else
        kbind (balloc h (i_dev (inodes s ip)) s) (\<lambda>addr s.
        if addr = 0 then Ok 0 s
        else Ok addr (inode_at ip (\<lambda>x. x\<lparr>i_addrs := (i_addrs x)(k := addr)\<rparr>) s)))"

definition bmap :: "nat \<Rightarrow> nat \<Rightarrow> u32 \<Rightarrow> 'a kfs_scheme \<Rightarrow> (u32, 'a kfs_scheme) res" where
  "bmap h ip bn s =
     (if unat bn < NDIRECT then bmap_slot h ip (unat bn) s
      else if unat bn - NDIRECT < NINDIRECT then
        kbind (bmap_slot h ip NDIRECT s) (\<lambda>addr s.
        if addr = 0 then Ok 0 s
        else
          kbind (bread h (i_dev (inodes s ip)) addr s) (\<lambda>bp s.
          let k = 4 * (unat bn - NDIRECT); addr = get32 k (b_data (bufs s bp))
          in kbind (if addr = 0 then
                      kbind (balloc h (i_dev (inodes s ip)) s) (\<lambda>addr s.
                      if addr \<noteq> 0 then
                        kbind (log_write h bp (set_data bp (put32 k addr (b_data (bufs s bp))) s)) (\<lambda>_ s. Ok addr s)
                      else Ok addr s)
                    else Ok addr s) (\<lambda>addr s.
             kbind (brelse h bp s) (\<lambda>_ s. Ok addr s))))
      else Panic ''bmap: out of range'')"

definition itrunc :: "nat \<Rightarrow> nat \<Rightarrow> 'a kfs_scheme \<Rightarrow> (unit, 'a kfs_scheme) res" where
  "itrunc h ip s =
     kbind (kfor (\<lambda>i s.
       if i_addrs (inodes s ip) i \<noteq> 0 then
         kbind (bfree h (i_dev (inodes s ip)) (i_addrs (inodes s ip) i) s) (\<lambda>_ s.
         Ok () (inode_at ip (\<lambda>x. x\<lparr>i_addrs := (i_addrs x)(i := 0)\<rparr>) s))
       else Ok () s) [0..<NDIRECT] s) (\<lambda>_ s.
     kbind (if i_addrs (inodes s ip) NDIRECT \<noteq> 0 then
         kbind (bread h (i_dev (inodes s ip)) (i_addrs (inodes s ip) NDIRECT) s) (\<lambda>bp s.
         kbind (kfor (\<lambda>j s.
           let a = get32 (4 * j) (b_data (bufs s bp))
           in if a \<noteq> 0 then bfree h (i_dev (inodes s ip)) a s else Ok () s) [0..<NINDIRECT] s) (\<lambda>_ s.
         kbind (brelse h bp s) (\<lambda>_ s.
         kbind (bfree h (i_dev (inodes s ip)) (i_addrs (inodes s ip) NDIRECT) s) (\<lambda>_ s.
         Ok () (inode_at ip (\<lambda>x. x\<lparr>i_addrs := (i_addrs x)(NDIRECT := 0)\<rparr>) s)))))
       else Ok () s) (\<lambda>_ s.
     iupdate h ip (inode_at ip (\<lambda>x. x\<lparr>i_size := 0\<rparr>) s)))"

section \<open>Dropping references\<close>

definition iput :: "nat \<Rightarrow> nat \<Rightarrow> 'a kfs_scheme \<Rightarrow> (unit, 'a kfs_scheme) res" where
  "iput h ip s =
     kbind (acquire h LItable s) (\<lambda>_ s.
     kbind (if i_ref (inodes s ip) = 1 \<and> i_valid (inodes s ip) \<and> i_nlink (inodes s ip) = 0 then
         kbind (acquiresleep h (SInode ip) s) (\<lambda>_ s.
         kbind (release h LItable s) (\<lambda>_ s.
         kbind (itrunc h ip s) (\<lambda>_ s.
         kbind (iupdate h ip (inode_at ip (\<lambda>x. x\<lparr>i_type := 0\<rparr>) s)) (\<lambda>_ s.
         kbind (releasesleep h (SInode ip) (inode_at ip (\<lambda>x. x\<lparr>i_valid := False\<rparr>) s)) (\<lambda>_ s.
         acquire h LItable s)))))
       else Ok () s) (\<lambda>_ s.
     release h LItable (inode_at ip (\<lambda>x. x\<lparr>i_ref := i_ref x - 1\<rparr>) s)))"

definition iunlockput :: "nat \<Rightarrow> nat \<Rightarrow> 'a kfs_scheme \<Rightarrow> (unit, 'a kfs_scheme) res" where
  "iunlockput h ip s = kbind (iunlock h (Some ip) s) (\<lambda>_ s. iput h ip s)"

definition ireclaim :: "nat \<Rightarrow> u32 \<Rightarrow> 'a kfs_scheme \<Rightarrow> (unit, 'a kfs_scheme) res" where
  "ireclaim h dev s =
     kfor (\<lambda>inum s.
       kbind (bread h dev (IBLOCK (of_nat inum) (sb s)) s) (\<lambda>bp s.
       let di = get_dinode (of_nat inum) (b_data (bufs s bp))
       in kbind (if d_type di \<noteq> 0 \<and> d_nlink di = 0 then
              kbind (printf h (''ireclaim: orphaned inode %d'' @ NL) [AInt (of_nat inum)] s) (\<lambda>_ s.
              kbind (iget h dev (of_nat inum) s) (\<lambda>ip s. Ok (Some ip) s))
            else Ok None s) (\<lambda>ipp s.
          kbind (brelse h bp s) (\<lambda>_ s.
          case ipp of
            None \<Rightarrow> Ok () s
          | Some ip \<Rightarrow>
              kbind (begin_op h s) (\<lambda>_ s.
              kbind (ilock h (Some ip) s) (\<lambda>_ s.
              kbind (iunlock h (Some ip) s) (\<lambda>_ s.
              kbind (iput h ip s) (\<lambda>_ s. end_op h s)))))))) [1..<unat (sb_ninodes (sb s))] s"

section \<open>The superblock\<close>

definition get_superblock :: "block \<Rightarrow> superblock" where
  "get_superblock d = \<lparr>sb_magic = get32 0 d, sb_size = get32 4 d, sb_nblocks = get32 8 d, sb_ninodes = get32 12 d,
     sb_nlog = get32 16 d, sb_logstart = get32 20 d, sb_inodestart = get32 24 d, sb_bmapstart = get32 28 d\<rparr>"

definition readsb :: "nat \<Rightarrow> u32 \<Rightarrow> 'a kfs_scheme \<Rightarrow> (superblock, 'a kfs_scheme) res" where
  "readsb h dev s =
     kbind (bread h dev 1 s) (\<lambda>bp s.
     let x = get_superblock (b_data (bufs s bp))
     in kbind (brelse h bp s) (\<lambda>_ s. Ok x s))"

definition fsinit :: "nat \<Rightarrow> u32 \<Rightarrow> 'a kfs_scheme \<Rightarrow> (unit, 'a kfs_scheme) res" where
  "fsinit h dev s =
     kbind (readsb h dev s) (\<lambda>x s.
     let s = s\<lparr>sb := x\<rparr>
     in if sb_magic (sb s) \<noteq> FSMAGIC then Panic ''invalid file system''
        else kbind (initlog h dev (sb s) s) (\<lambda>_ s. ireclaim h dev s))"

text \<open>\<^verbatim>\<open>struct stat\<close>, filled by \<^verbatim>\<open>stati\<close>.\<close>

record stat =
  st_dev :: u32
  st_ino :: u32
  st_type :: u16
  st_nlink :: u16
  st_size :: u64

definition stati :: "inode \<Rightarrow> stat" where
  "stati x = \<lparr>st_dev = i_dev x, st_ino = i_inum x, st_type = i_type x, st_nlink = i_nlink x, st_size = ucast (i_size x)\<rparr>"

section \<open>Encoding of inodes\<close>

lemma dino_off_bound: "dino_off i + 64 \<le> 1024"
  by (simp add: dino_off_def IPB_def BSIZE_def)

text \<open>The address array: entry \<open>k\<close> is at offset \<open>12 + 4 k\<close>; writing the entries below \<open>m\<close> changes nothing else.\<close>

abbreviation put_addrs :: "nat \<Rightarrow> (nat \<Rightarrow> u32) \<Rightarrow> nat \<Rightarrow> block \<Rightarrow> block" where
  "put_addrs off a m \<equiv> fold (\<lambda>k. put32 (off + 12 + 4 * k) (a k)) [0..<m]"

lemma put_addrs_get:
  assumes "off + 64 \<le> 1024" and "m \<le> 13"
  shows "k < m \<Longrightarrow> get32 (off + 12 + 4 * k) (put_addrs off a m d) = a k"
  using assms(2)
proof (induction m)
  case (Suc m)
  then show ?case using assms(1) by (cases "k = m") (simp_all add: get_put32_other)
qed simp

lemma put_addrs_other32:
  assumes "e + 4 \<le> off + 12 \<or> off + 64 \<le> e" and "e + 4 \<le> 1024" and "m \<le> 13"
  shows "get32 e (put_addrs off a m d) = get32 e d"
  using assms(3) by (induction m) (use assms(1,2) in \<open>auto simp: get_put32_other\<close>)

lemma put_addrs_other16:
  assumes "e + 2 \<le> off + 12 \<or> off + 64 \<le> e" and "e + 2 \<le> 1024" and "m \<le> 13"
  shows "get16 e (put_addrs off a m d) = get16 e d"
  using assms(3) by (induction m) (use assms(1,2) in \<open>auto simp: get_put16_other\<close>)

lemma get_put_dinode:
  "get_dinode i (put_dinode i x d) = x\<lparr>d_addrs := \<lambda>k. if k \<le> NDIRECT then d_addrs x k else 0\<rparr>"
proof -
  let ?o = "dino_off i"
  note o = dino_off_bound [of i]
  have a: "get32 (?o + 12 + 4 * k) (put_addrs ?o (d_addrs x) 13 e) = d_addrs x k" if "k \<le> 12" for k e
    using put_addrs_get [OF o, of 13 k] that by simp
  have [simp]: "NDIRECT = 12" "NDIRECT + 1 = 13" by (simp_all add: NDIRECT_def)
  show ?thesis using o a
    by (cases x) (simp add: get_dinode_def put_dinode_def Let_def put_addrs_other32 put_addrs_other16 get_put16_other get_put32_other
      cong: if_cong del: upt_rec_numeral fold_simps)
qed

text \<open>Writing an inode leaves the bytes of the other inodes of the block alone.\<close>

definition agree_outside :: "nat \<Rightarrow> block \<Rightarrow> block \<Rightarrow> bool" where
  "agree_outside off d d' \<longleftrightarrow> (\<forall>a. unat a < off \<or> off + 64 \<le> unat a \<longrightarrow> d' a = d a)"

lemma agree_outside_trans: "agree_outside off d d' \<Longrightarrow> agree_outside off d' d'' \<Longrightarrow> agree_outside off d d''"
  by (auto simp: agree_outside_def)

lemma agree_outside_write: "off \<le> e \<Longrightarrow> e + length bs \<le> off + 64 \<Longrightarrow> agree_outside off d (blk_write e bs d)"
  by (auto simp: agree_outside_def blk_write_def)

lemma agree_outside_put:
  "off \<le> e \<Longrightarrow> e + 2 \<le> off + 64 \<Longrightarrow> agree_outside off d (put16 e v d)"
  "off \<le> e \<Longrightarrow> e + 4 \<le> off + 64 \<Longrightarrow> agree_outside off d (put32 e w d)"
  unfolding put16_def put32_def by (rule agree_outside_write; simp)+

lemma agree_outside_addrs: "m \<le> 13 \<Longrightarrow> agree_outside off d (put_addrs off a m d)"
proof (induction m)
  case 0
  show ?case by (simp add: agree_outside_def)
next
  case (Suc m)
  then show ?case using agree_outside_trans [OF _ agree_outside_put(2)] by simp
qed

lemma agree_outside_dinode: "agree_outside (dino_off i) d (put_dinode i x d)"
  unfolding put_dinode_def Let_def
  by (intro agree_outside_trans [OF _ agree_outside_addrs] agree_outside_trans [OF _ agree_outside_put(1)]
      agree_outside_trans [OF _ agree_outside_put(2)]) (simp_all add: agree_outside_def NDIRECT_def)

lemma get_dinode_agree:
  assumes "agree_outside (dino_off i) d d'" and "unat i mod IPB \<noteq> unat j mod IPB"
  shows "get_dinode j d' = get_dinode j d"
proof -
  let ?p = "dino_off j"
  have b: "?p + 64 \<le> 1024" "dino_off i + 64 \<le> ?p \<or> ?p + 64 \<le> dino_off i"
    using dino_off_bound [of j] assms(2) unfolding dino_off_def by simp_all linarith
  have r: "blk_read d' (?p + e) n = blk_read d (?p + e) n" if "e + n \<le> 64" for e n
  proof (rule nth_equalityI)
    fix k assume "k < length (blk_read d' (?p + e) n)"
    then have k: "k < n" "?p + e + k < 1024" "?p + e + k < ?p + 64" using that b(1) by auto
    then have "unat (of_nat (?p + e + k) :: 10 word) = ?p + e + k" by (intro unat_index)
    then have "d' (of_nat (?p + e + k)) = d (of_nat (?p + e + k))"
      using assms(1) b(2) k(3) unfolding agree_outside_def by (metis add_lessD1 le_add1 le_trans not_le)
    with k show "blk_read d' (?p + e) n ! k = blk_read d (?p + e) n ! k" by (simp add: blk_read_nth)
  qed simp
  have "get16 ?p d' = get16 ?p d" "\<And>e. e \<le> 6 \<Longrightarrow> get16 (?p + e) d' = get16 (?p + e) d"
    "\<And>e. e \<le> 60 \<Longrightarrow> get32 (?p + e) d' = get32 (?p + e) d"
    using r [of 0 2] r [of _ 2] r [of _ 4] by (auto simp: get16_def get32_def)
  moreover have "get32 (?p + 12 + 4 * k) d' = get32 (?p + 12 + 4 * k) d" if "k \<le> NDIRECT" for k
    using r [of "12 + 4 * k" 4] that by (simp add: get32_def NDIRECT_def add.assoc)
  ultimately show ?thesis unfolding get_dinode_def Let_def by (simp cong: if_cong del: add_2_eq_Suc')
qed

lemmas get_put_dinode_other = get_dinode_agree [OF agree_outside_dinode]

section \<open>The inode table and its locks\<close>

lemma inode_at_simps [simp]:
  "idle h (inode_at ip f s) = idle h s" "bio_inv P (inode_at ip f s) = bio_inv P s" "held (inode_at ip f s) = held s"
  "view (inode_at ip f s) = view s" "holds h (inode_at ip f s) i b = holds h s i b"
  "in_tx P n (inode_at ip f s) = in_tx P n s" "room h P k (inode_at ip f s) = room h P k s"
  "inodes (inode_at ip f s) = (inodes s)(ip := f (inodes s ip))" "sb (inode_at ip f s) = sb s"
  "log_start (inode_at ip f s) = log_start s" "procs (inode_at ip f s) = procs s" "cpus (inode_at ip f s) = cpus s"
  "sleeplocks (inode_at ip f s) = sleeplocks s" "pmem (inode_at ip f s) = pmem s" "k_de (inode_at ip f s) = k_de s"
  "uart_out (inode_at ip f s) = uart_out s" "bufs (inode_at ip f s) = bufs s"
proof -
  let ?t = "inode_at ip f s"
  have f: "sleeplocks ?t = sleeplocks s" "bufs ?t = bufs s" "b_prev ?t = b_prev s" "b_next ?t = b_next s" "disk ?t = disk s"
    "cpus ?t = cpus s" "sie ?t = sie s" "locks ?t = locks s" "procs ?t = procs s" "lh_n ?t = lh_n s" "lh_block ?t = lh_block s"
    "log_dev ?t = log_dev s" "log_outstanding ?t = log_outstanding s" "log_start ?t = log_start s"
    by (simp_all add: inode_at_def)
  show i: "idle h ?t = idle h s" by (simp add: idle_def lock_free_def f)
  show b: "bio_inv P ?t = bio_inv P s" by (simp add: bio_inv_def lru_def f)
  show h: "held ?t = held s" by (simp add: held_def f)
  show "view ?t = view s" by (simp only: view_def [abs_def] cached_def f)
  show "holds h ?t i b = holds h s i b" by (simp add: holds_def f)
  show t: "in_tx P n ?t = in_tx P n s" for n by (simp add: in_tx_def b f)
  show "room h P k ?t = room h P k s" by (simp add: room_def i h t)
qed (simp_all add: inode_at_def)

lemma entered_inode [simp]:
  "inode_at ip f (entered h l s) = entered h l (inode_at ip f s)" "inodes (entered h l s) = inodes s"
  "sb (entered h l s) = sb s"
  by (simp_all add: inode_at_def entered_def push_off_def Let_def intr_off_def intr_get_def)

text \<open>\<open>referenced s ip dev inum\<close>: table entry \<open>ip\<close> is in use for that inode.\<close>

definition referenced :: "'a kfs_scheme \<Rightarrow> nat \<Rightarrow> u32 \<Rightarrow> u32 \<Rightarrow> bool" where
  "referenced s ip dev inum \<longleftrightarrow>
     i_ref (inodes s ip) > 0 \<and> i_dev (inodes s ip) = dev \<and> i_inum (inodes s ip) = inum"

definition itable_wf :: "'a kfs_scheme \<Rightarrow> bool" where
  "itable_wf s \<longleftrightarrow> (\<forall>i<NINODE. 0 \<le> i_ref (inodes s i)) \<and>
     (\<forall>i<NINODE. \<forall>j<NINODE. \<forall>dev inum. referenced s i dev inum \<longrightarrow> referenced s j dev inum \<longrightarrow> i = j)"

lemma iget_hit:
  assumes "idle h s" and "itable_wf s" and "ip < NINODE" and "referenced s ip dev inum"
  shows "iget h dev inum s = Ok ip (inode_at ip (\<lambda>x. x\<lparr>i_ref := i_ref x + 1\<rparr>) s)"
proof -
  have "find (\<lambda>i. referenced s i dev inum) [0..<NINODE] = Some ip"
    using find_first [of "\<lambda>i. referenced s i dev inum" ip NINODE] assms unfolding itable_wf_def
    by (metis (no_types, lifting) order_le_less_trans)
  then show ?thesis using assms(1) by (simp add: iget_def referenced_def)
qed

lemma iget_miss:
  assumes "idle h s" and "\<forall>i<NINODE. \<not> referenced s i dev inum"
  shows "iget h dev inum s = (case find (\<lambda>i. i_ref (inodes s i) = 0) [0..<NINODE] of
      None \<Rightarrow> Panic ''iget: no inodes''
    | Some ip \<Rightarrow> Ok ip (inode_at ip (\<lambda>x. x\<lparr>i_dev := dev, i_inum := inum, i_ref := 1, i_valid := False\<rparr>) s))"
proof -
  have "find (\<lambda>i. referenced s i dev inum) [0..<NINODE] = None" using assms(2) by (simp add: find_None_iff)
  then show ?thesis using assms(1) by (simp add: iget_def referenced_def split: option.split)
qed

text \<open>
  the inode table never holds an inode twice.  \<^verbatim>\<open>iget\<close> of an inode some entry already stands for returns that entry and
  counts one reference more; of any other inode it takes the first unreferenced entry, which starts not valid and
  with one reference; it panics only when all 50 entries are referenced for other inodes.  In every case other
  entries keep their content, and at most one entry stands for each inode.
\<close>

theorem iget_keeps_entries_unique:
  assumes "idle h s" and "itable_wf s"
  shows "(\<exists>ip t. iget h dev inum s = Ok ip t \<and> ip < NINODE \<and> itable_wf t \<and> referenced t ip dev inum \<and>
       (\<forall>j. j \<noteq> ip \<longrightarrow> inodes t j = inodes s j) \<and>
       (if referenced s ip dev inum then inodes t ip = (inodes s ip)\<lparr>i_ref := i_ref (inodes s ip) + 1\<rparr>
        else i_ref (inodes s ip) = 0 \<and> (\<forall>j<ip. i_ref (inodes s j) \<noteq> 0) \<and> (\<forall>j<NINODE. \<not> referenced s j dev inum) \<and>
             i_ref (inodes t ip) = 1 \<and> \<not> i_valid (inodes t ip))) \<or>
    (iget h dev inum s = Panic ''iget: no inodes'' \<and>
       (\<forall>j<NINODE. 0 < i_ref (inodes s j) \<and> \<not> referenced s j dev inum))"
proof (cases "\<exists>ip<NINODE. referenced s ip dev inum")
  case True
  then obtain ip where ip: "ip < NINODE" "referenced s ip dev inum" by auto
  let ?t = "inode_at ip (\<lambda>x. x\<lparr>i_ref := i_ref x + 1\<rparr>) s"
  have r: "referenced ?t j d n \<longleftrightarrow> referenced s j d n" for j d n using ip(2) by (auto simp: referenced_def)
  have "itable_wf ?t" using assms(2) ip(2) unfolding itable_wf_def r by (auto simp: referenced_def)
  then show ?thesis using iget_hit [OF assms ip] ip r by (intro disjI1 exI [of _ ip] exI [of _ ?t]) auto
next
  case False
  then have no: "\<forall>i<NINODE. \<not> referenced s i dev inum" by auto
  show ?thesis
  proof (cases "find (\<lambda>i. i_ref (inodes s i) = 0) [0..<NINODE]")
    case None
    then have "\<forall>j<NINODE. i_ref (inodes s j) \<noteq> 0" by (auto simp: find_None_iff)
    moreover have "\<forall>j<NINODE. 0 \<le> i_ref (inodes s j)" using assms(2) by (simp add: itable_wf_def)
    ultimately have "\<forall>j<NINODE. 0 < i_ref (inodes s j)" by force
    with None no iget_miss [OF assms(1) no] show ?thesis by simp
  next
    case (Some ip)
    then have ip: "ip < NINODE" "i_ref (inodes s ip) = 0" "\<forall>j<ip. i_ref (inodes s j) \<noteq> 0" by (auto simp: find_Some_iff)
    let ?t = "inode_at ip (\<lambda>x. x\<lparr>i_dev := dev, i_inum := inum, i_ref := 1, i_valid := False\<rparr>) s"
    have r: "referenced ?t j d n \<longleftrightarrow> (if j = ip then d = dev \<and> n = inum else referenced s j d n)" for j d n
      by (auto simp: referenced_def)
    have "\<forall>i<NINODE. 0 \<le> i_ref (inodes ?t i)" using assms(2) by (simp add: itable_wf_def)
    moreover have "i = j" if "i < NINODE" "j < NINODE" "referenced ?t i d n" "referenced ?t j d n" for i j d n
      using that no assms(2) unfolding r itable_wf_def by (metis (no_types, lifting))
    ultimately have "itable_wf ?t" unfolding itable_wf_def by blast
    then show ?thesis using iget_miss [OF assms(1) no] Some ip r no
      by (intro disjI1 exI [of _ ip] exI [of _ ?t]) (auto simp: referenced_def)
  qed
qed

theorem iget_keeps_entries_unique_witness:
  "(\<exists>ip t. iget 0 ROOTDEV ROOTINO (fresh_fs (\<lambda>_ _. 0)) = Ok ip t) \<and> idle 0 (fresh_fs (\<lambda>_ _. 0)) \<and> itable_wf (fresh_fs (\<lambda>_ _. 0))"
proof -
  let ?s = "fresh_fs (\<lambda>_ _. 0)"
  have r: "i_ref (inodes ?s i) = 0" for i by (simp add: fresh_fs_def klog.defs)
  have i: "idle 0 ?s" using fresh_fs_simps(1) room_idle by blast
  have w: "itable_wf ?s" by (simp add: itable_wf_def referenced_def r)
  have "(0 :: nat) < NINODE" by (simp add: NINODE_def)
  then have "\<not> (\<forall>j<NINODE. 0 < i_ref (inodes ?s j) \<and> \<not> referenced ?s j ROOTDEV ROOTINO)" by (auto simp: r)
  then show ?thesis using iget_keeps_entries_unique [OF i w, of ROOTDEV ROOTINO] i w by blast
qed

section \<open>Reading and writing inodes on disk\<close>

text \<open>The disk part of an in-memory inode, as \<^verbatim>\<open>iupdate\<close> writes it.\<close>

definition dinode_of :: "inode \<Rightarrow> dinode" where
  "dinode_of x = \<lparr>d_type = i_type x, d_major = i_major x, d_minor = i_minor x, d_nlink = i_nlink x,
     d_size = i_size x, d_addrs = i_addrs x\<rparr>"

lemma iupdate_writes:
  assumes "room h P (Suc k) s" and "i_dev (inodes s ip) = ROOTDEV" and "i_inum (inodes s ip) = inum"
    and "IBLOCK inum (sb s) \<notin> held s" and "IBLOCK inum (sb s) \<notin> log_area (log_start s)"
  shows "\<exists>t. iupdate h ip s = Ok () t \<and> steps h P s (insert (IBLOCK inum (sb s)) P) t \<and>
    view t = (view s)(IBLOCK inum (sb s) := put_dinode inum (dinode_of (inodes s ip)) (view s (IBLOCK inum (sb s))))"
proof -
  let ?b = "IBLOCK inum (sb s)"
  obtain i s1 s2 t where r: "bread h ROOTDEV ?b s = Ok i s1" "b_data (bufs s1 i) = view s ?b" "cache_frame s s1"
    "log_write h i (set_data i (put_dinode inum (dinode_of (inodes s ip)) (view s ?b)) s1) = Ok () s2" "brelse h i s2 = Ok () t"
    "steps h P s (insert ?b P) t" "view t = (view s)(?b := put_dinode inum (dinode_of (inodes s ip)) (view s ?b))"
    using steps_update [OF assms(1,4,5), of "put_dinode inum (dinode_of (inodes s ip)) (view s ?b)"] by blast
  then have "iupdate h ip s = Ok () t"
    unfolding iupdate_def Let_def using assms(2,3) kfs_cache_frame(2) [OF r(3)] by (simp add: dinode_of_def)
  with r show ?thesis by blast
qed

lemma sl_at_inode_simps [simp]:
  "bio_inv P (sl_at (SInode j) f s) = bio_inv P s" "held (sl_at (SInode j) f s) = held s" "view (sl_at k f s) = view s"
  "holds h (sl_at (SInode j) f s) i b = holds h s i b" "in_tx P n (sl_at (SInode j) f s) = in_tx P n s"
  "room h P m (sl_at (SInode j) f s) = room h P m s" "sb (sl_at k f s) = sb s" "inodes (sl_at k f s) = inodes s"
  "log_start (sl_at k f s) = log_start s"
proof -
  let ?t = "sl_at (SInode j) f s"
  have f: "\<And>i. sleeplocks ?t (SBuf i) = sleeplocks s (SBuf i)" "bufs ?t = bufs s" "b_prev ?t = b_prev s" "b_next ?t = b_next s"
    "disk ?t = disk s" "procs ?t = procs s" "cpus ?t = cpus s" "lh_n ?t = lh_n s" "lh_block ?t = lh_block s"
    "log_dev ?t = log_dev s" "log_outstanding ?t = log_outstanding s" "log_start ?t = log_start s"
    by (simp_all add: sl_at_def)
  show b: "bio_inv P ?t = bio_inv P s" by (simp add: bio_inv_def lru_def f)
  show h: "held ?t = held s" by (simp add: held_def f)
  have "bufs (sl_at k f s) = bufs s" "disk (sl_at k f s) = disk s" by (simp_all add: sl_at_def)
  then show "view (sl_at k f s) = view s" by (simp only: view_def [abs_def] cached_def)
  show "holds h ?t i b = holds h s i b" by (simp add: holds_def f)
  show t: "in_tx P n ?t = in_tx P n s" for n by (simp add: in_tx_def b f)
  show "room h P m ?t = room h P m s" by (simp add: room_def h t)
qed (simp_all add: sl_at_def)

lemma ilock_loads:
  assumes "room h P (Suc k) s" and "1 \<le> i_ref (inodes s ip)" and "\<not> sl_locked (sleeplocks s (SInode ip))"
    and "\<not> i_valid (inodes s ip)" and "i_dev (inodes s ip) = ROOTDEV" and "i_inum (inodes s ip) = inum"
    and "IBLOCK inum (sb s) \<notin> held s" and "get_dinode inum (view s (IBLOCK inum (sb s))) = di" and "d_type di \<noteq> 0"
  shows "\<exists>t. ilock h (Some ip) s = Ok () t \<and> room h P (Suc k) t \<and> view t = view s \<and> held t = held s \<and>
    sl_locked (sleeplocks t (SInode ip)) \<and> sl_pid (sleeplocks t (SInode ip)) = mypid h t \<and>
    inodes t = (inodes s)(ip := (inodes s ip)\<lparr>i_type := d_type di, i_major := d_major di, i_minor := d_minor di,
      i_nlink := d_nlink di, i_size := d_size di, i_addrs := d_addrs di, i_valid := True\<rparr>)"
proof -
  let ?b = "IBLOCK inum (sb s)"
  let ?s = "sl_at (SInode ip) (\<lambda>l. l\<lparr>sl_locked := True, sl_pid := mypid h s\<rparr>) s"
  let ?f = "\<lambda>x. x\<lparr>i_type := d_type di, i_major := d_major di, i_minor := d_minor di,
                    i_nlink := d_nlink di, i_size := d_size di, i_addrs := d_addrs di\<rparr>"
  have a: "acquiresleep h (SInode ip) s = Ok () ?s" by (rule acquiresleep_ok [OF room_idle [OF assms(1)] assms(3)])
  have r: "room h P (Suc k) ?s" using assms(1) by simp
  have "?b \<notin> held ?s" using assms(7) by simp
  from tx_bread [OF r this] obtain i s1 where b: "bread h ROOTDEV ?b ?s = Ok i s1" "after_read h P ?b i ?s s1"
    "room h P k s1" "?b \<in> P \<or> view s1 ?b = disk s1 ?b" by blast
  note f1 = kfs_cache_frame [of ?s s1]
  have "disk (inode_at ip ?f s1) = disk s1" by (simp add: inode_at_def)
  then obtain t where t: "brelse h i (inode_at ip ?f s1) = Ok () t" "after_relse h P ?b (inode_at ip ?f s1) t"
    "room h P k t"
    using tx_brelse [of h P k "inode_at ip ?f s1" i ?b] b by (auto simp: after_read_def)
  have e: "inodes s1 = inodes s" "sb s1 = sb s" "procs s1 = procs s" "cpus s1 = cpus s"
    "sleeplocks s1 (SInode ip) = sleeplocks ?s (SInode ip)"
    using b(2) f1 cache_frame_eqs [of ?s s1] by (auto simp: after_read_def)
  have e': "inodes t = inodes (inode_at ip ?f s1)" "procs t = procs s1" "cpus t = cpus s1"
    "sleeplocks t (SInode ip) = sleeplocks s1 (SInode ip)" "view t = view s" "held t = held s" "idle h t" "bio_inv P t"
    using t(2) kfs_cache_frame [of "inode_at ip ?f s1" t] cache_frame_eqs [of "inode_at ip ?f s1" t] b(2) assms(7)
    by (auto simp: after_relse_def after_read_def)
  have "room h P (Suc k) t" using t(3) assms(1) e' by (simp add: room_def)
  moreover have "ilock h (Some ip) s = Ok () (inode_at ip (\<lambda>x. x\<lparr>i_valid := True\<rparr>) t)"
    using a b(1,2) t(1) assms(2-9) e e' by (simp add: ilock_def Let_def after_read_def)
  moreover have "inodes (inode_at ip (\<lambda>x. x\<lparr>i_valid := True\<rparr>) t) = (inodes s)(ip := (inodes s ip)\<lparr>i_type := d_type di,
      i_major := d_major di, i_minor := d_minor di, i_nlink := d_nlink di, i_size := d_size di, i_addrs := d_addrs di, i_valid := True\<rparr>)"
    using e e'(1) by simp
  ultimately show ?thesis using e e' by (intro exI [of _ "inode_at ip (\<lambda>x. x\<lparr>i_valid := True\<rparr>) t"]) simp
qed

lemma IBLOCK_other:
  assumes "IBLOCK i x = IBLOCK j x" and "i \<noteq> j"
  shows "unat i mod IPB \<noteq> unat j mod IPB"
proof -
  have "unat i div IPB < 2 ^ 32" "unat j div IPB < 2 ^ 32"
    using unat_bound32 [of i] unat_bound32 [of j] by (auto simp: IPB_def BSIZE_def)
  moreover have "(of_nat (unat i div IPB) :: u32) = of_nat (unat j div IPB)" using assms(1) by (simp add: IBLOCK_def)
  ultimately have "unat i div IPB = unat j div IPB" using unat_of_nat32 by metis
  then show ?thesis using assms(2) by (metis div_mult_mod_eq word_unat_eq_iff)
qed

text \<open>
  C36: what \<^verbatim>\<open>iupdate\<close> writes, \<^verbatim>\<open>ilock\<close> reads.  After \<^verbatim>\<open>iupdate\<close> of an allocated inode in a transaction, locking an entry of
  the table that stands for the same inode and is not valid yet loads exactly the type, device numbers, link
  count, size and block addresses that were written, and no other inode of the disk has changed.
\<close>

theorem ilock_reads_iupdate:
  assumes "room h P 2 s" and "held s = {}" and "i_dev (inodes s ip) = ROOTDEV" and "i_inum (inodes s ip) = inum"
    and "i_type (inodes s ip) \<noteq> 0" and "\<forall>k>NDIRECT. i_addrs (inodes s ip) k = 0"
    and "IBLOCK inum (sb s) \<notin> log_area (log_start s)"
    and "1 \<le> i_ref (inodes s jp)" and "\<not> i_valid (inodes s jp)" and "\<not> sl_locked (sleeplocks s (SInode jp))"
    and "i_dev (inodes s jp) = ROOTDEV" and "i_inum (inodes s jp) = inum"
  shows "\<exists>t u. iupdate h ip s = Ok () t \<and> ilock h (Some jp) t = Ok () u \<and>
    dinode_of (inodes u jp) = dinode_of (inodes s ip) \<and> i_valid (inodes u jp) \<and>
    (\<forall>j. j \<noteq> inum \<longrightarrow> get_dinode j (view u (IBLOCK j (sb s))) = get_dinode j (view s (IBLOCK j (sb s))))"
proof -
  let ?b = "IBLOCK inum (sb s)"
  let ?di = "dinode_of (inodes s ip)"
  have "room h P (Suc 1) s" using assms(1) by (simp add: numeral_2_eq_2)
  moreover have "?b \<notin> held s" using assms(2) by simp
  ultimately obtain t where t: "iupdate h ip s = Ok () t" "steps h P s (insert ?b P) t"
    "view t = (view s)(?b := put_dinode inum ?di (view s ?b))" and r: "room h (insert ?b P) (Suc 0) t"
    using iupdate_writes [of h P 1 s ip, OF _ assms(3,4) _ assms(7)] room_insert [of h P 1 s ?b] by auto
  note f = kfs_frame [OF stepsD(9) [OF t(2)]] stepsD(4,8) [OF t(2)]
  have "?di\<lparr>d_addrs := \<lambda>k. if k \<le> NDIRECT then d_addrs ?di k else 0\<rparr> = ?di"
    using assms(6) by (auto simp: dinode_of_def fun_eq_iff)
  then have g: "get_dinode inum (view t (IBLOCK inum (sb t))) = ?di"
    using get_put_dinode [of inum ?di "view s ?b"] by (simp add: t(3) f)
  have "\<not> sl_locked (sleeplocks t (SInode jp))" "d_type ?di \<noteq> 0"
    using assms(5,10) stepsD(14) [OF t(2)] by (simp_all add: dinode_of_def)
  then obtain u where u: "ilock h (Some jp) t = Ok () u" "view u = view t"
    "inodes u = (inodes t)(jp := (inodes t jp)\<lparr>i_type := d_type ?di, i_major := d_major ?di, i_minor := d_minor ?di,
      i_nlink := d_nlink ?di, i_size := d_size ?di, i_addrs := d_addrs ?di, i_valid := True\<rparr>)"
    using ilock_loads [OF r _ _ _ _ _ _ g, of jp] assms(2,8,9,11,12) by (auto simp: f)
  have "get_dinode j (view u (IBLOCK j (sb s))) = get_dinode j (view s (IBLOCK j (sb s)))" if "j \<noteq> inum" for j
  proof (cases "IBLOCK j (sb s) = ?b")
    case True
    then have "unat inum mod IPB \<noteq> unat j mod IPB" using IBLOCK_other [of inum "sb s" j] that by metis
    then show ?thesis unfolding u(2) t(3) True using get_put_dinode_other by simp
  next
    case False
    then show ?thesis unfolding u(2) t(3) by simp
  qed
  moreover have "dinode_of (inodes u jp) = ?di" "i_valid (inodes u jp)" unfolding u(3) by (simp_all add: dinode_of_def)
  ultimately show ?thesis using t(1) u(1) by blast
qed

text \<open>An inode table with a valid file inode 5 in entry 3 and a second, not yet valid, entry 4 for it.\<close>

definition demo_inodes :: "nat \<Rightarrow> inode" where
  "demo_inodes i = \<lparr>i_dev = ROOTDEV, i_inum = 5, i_ref = 1, i_valid = (i = 3), i_type = T_FILE, i_major = 0, i_minor = 0,
     i_nlink = 1, i_size = 70, i_addrs = (\<lambda>k. if k = 0 then 48 else 0)\<rparr>"

definition set_inode :: "(nat \<Rightarrow> inode) \<Rightarrow> nat \<Rightarrow> 'a kfs_scheme \<Rightarrow> 'a kfs_scheme" where
  "set_inode f ip s = sl_at (SInode ip) (\<lambda>l. l\<lparr>sl_locked := False, sl_pid := 0\<rparr>) (inode_at ip (\<lambda>_. f ip) s)"

definition set_inodes :: "(nat \<Rightarrow> inode) \<Rightarrow> 'a kfs_scheme \<Rightarrow> 'a kfs_scheme" where
  "set_inodes f s = fold (set_inode f) [0..<NINODE] s"

lemma set_inodes_simps:
  "room h P k (set_inodes f s) = room h P k s" "held (set_inodes f s) = held s" "view (set_inodes f s) = view s"
  "sb (set_inodes f s) = sb s" "log_start (set_inodes f s) = log_start s"
  "ip < NINODE \<Longrightarrow> inodes (set_inodes f s) ip = f ip" "ip < NINODE \<Longrightarrow> \<not> sl_locked (sleeplocks (set_inodes f s) (SInode ip))"
proof -
  have "room h P k (fold (set_inode f) [0..<n] s) = room h P k s \<and>
    held (fold (set_inode f) [0..<n] s) = held s \<and> view (fold (set_inode f) [0..<n] s) = view s \<and>
    sb (fold (set_inode f) [0..<n] s) = sb s \<and> log_start (fold (set_inode f) [0..<n] s) = log_start s \<and>
    (ip < n \<longrightarrow> inodes (fold (set_inode f) [0..<n] s) ip = f ip \<and>
       \<not> sl_locked (sleeplocks (fold (set_inode f) [0..<n] s) (SInode ip)))" for n
    by (induction n) (auto simp: less_Suc_eq set_inode_def)
  from this [of NINODE] show "room h P k (set_inodes f s) = room h P k s" "held (set_inodes f s) = held s" "view (set_inodes f s) = view s"
    "sb (set_inodes f s) = sb s" "log_start (set_inodes f s) = log_start s"
    "ip < NINODE \<Longrightarrow> inodes (set_inodes f s) ip = f ip" "ip < NINODE \<Longrightarrow> \<not> sl_locked (sleeplocks (set_inodes f s) (SInode ip))"
    unfolding set_inodes_def by blast+
qed

theorem ilock_reads_iupdate_witness:
  "\<exists>t u. iupdate 0 3 (set_inodes demo_inodes (fresh_fs (\<lambda>_ _. 0))) = Ok () t \<and> ilock 0 (Some 4) t = Ok () u \<and>
     i_size (inodes u 4) = 70 \<and> i_addrs (inodes u 4) 0 = 48"
proof -
  let ?s = "set_inodes demo_inodes (fresh_fs (\<lambda>_ _. 0))"
  have r: "room 0 {} 2 ?s" unfolding set_inodes_simps by (rule room_mono [OF fresh_fs_simps(1)]) simp
  have n: "(3 :: nat) < NINODE" "(4 :: nat) < NINODE" by (simp_all add: NINODE_def)
  note i = set_inodes_simps(6) [OF n(1), of demo_inodes] set_inodes_simps(6) [OF n(2), of demo_inodes]
  have b: "IBLOCK 5 demo_sb = 33" by (simp add: IBLOCK_def demo_sb_def IPB_def BSIZE_def)
  have l: "(33 :: u32) \<notin> log_area 2" by code_simp
  obtain t u where "iupdate 0 3 ?s = Ok () t" "ilock 0 (Some 4) t = Ok () u" "dinode_of (inodes u 4) = dinode_of (inodes ?s 3)"
    using ilock_reads_iupdate [OF r, of 3 5 4] set_inodes_simps(7) [OF n(2), of demo_inodes]
    by (auto simp: i set_inodes_simps(2,4,5) fresh_fs_simps b l demo_inodes_def T_FILE_def NDIRECT_def)
  then show ?thesis unfolding i by (auto simp: dinode_of_def demo_inodes_def)
qed

end
