(* ===== verification/Fdata.thy ===== *)
theory Fdata
  imports Inode UserMem
begin

text \<open>
  File contents, \<^verbatim>\<open>readi\<close> and \<^verbatim>\<open>writei\<close> of \<^verbatim>\<open>kernel/fs.c\<close>.  The specification is the byte sequence of a file: byte \<open>k\<close> is byte
  \<open>k mod BSIZE\<close> of the disk block that the inode's address array names for block \<open>k div BSIZE\<close>.
\<close>

section \<open>Copying into a buffer\<close>

text \<open>
  \<open>copyin_dst\<close> is \<^verbatim>\<open>copyin\<close> with what it has stored at \<^verbatim>\<open>dst\<close> when it returns, which a failed call leaves behind too: the
  bytes of the pages before the one that is not mapped.
\<close>

function copyin_dst :: "nat \<Rightarrow> u64 \<Rightarrow> u64 \<Rightarrow> nat \<Rightarrow> 'a kvm_scheme \<Rightarrow> (u8 list \<times> int, 'a kvm_scheme) res" where
  "copyin_dst h pt srcva len s =
     (if len = 0 then Ok ([], 0) s
      else
        let va0 = PGROUNDDOWN srcva
        in kbind (walkaddr h pt va0 s) (\<lambda>pa0 s.
           kbind (if pa0 = 0 then vmfault h pt va0 s else Ok pa0 s) (\<lambda>pa0 s.
           if pa0 = 0 then Ok ([], -1) s
           else
             let n = in_page_len srcva len;
                 bs = load_bytes (pmem s) (pa0 + (srcva - va0)) n
             in kbind (copyin_dst h pt (va0 + PGSIZE) (len - n) s) (\<lambda>r s. Ok (bs @ fst r, snd r) s))))"
  by pat_completeness auto
termination
  by (relation "measure (\<lambda>(h, pt, va, len, s). len)") (auto simp: in_page_len_pos Let_def)

declare copyin_dst.simps [simp del]

definition either_copyin_dst :: "nat \<Rightarrow> bool \<Rightarrow> u64 \<Rightarrow> nat \<Rightarrow> 'a kvm_scheme \<Rightarrow> (u8 list \<times> int, 'a kvm_scheme) res" where
  "either_copyin_dst h user_src src len s =
     (if user_src then kbind (curproc h s) (\<lambda>i s. copyin_dst h (p_pagetable (procs s i)) src len s)
      else kbind (myproc h s) (\<lambda>_ s. Ok (load_bytes (pmem s) src len, 0) s))"

text \<open>The two models of \<^verbatim>\<open>copyin\<close> agree on the result and on the state.\<close>

lemma copyin_dst_agrees:
  "copyin h pt va len s =
     kbind (copyin_dst h pt va len s) (\<lambda>r s. Ok (if snd r = 0 then Some (fst r) else None) s)"
proof (induction len arbitrary: va s rule: less_induct)
  case (less len)
  show ?case
  proof (cases "len = 0")
    case True
    then show ?thesis by (simp add: copyin.simps copyin_dst.simps)
  next
    case False
    then have "len - in_page_len va len < len" using in_page_len_pos [of len va] by simp
    note r = less.IH [OF this]
    show ?thesis
      using False
      by (subst copyin.simps, subst copyin_dst.simps)
         (simp add: Let_def kbind_assoc r, rule arg_cong2 [where f = kbind], simp, intro ext,
           rule arg_cong2 [where f = kbind], auto simp: Let_def kbind_assoc r intro!: ext arg_cong2 [where f = kbind])
  qed
qed

section \<open>Reading and writing\<close>

definition chunk :: "u32 \<Rightarrow> u32 \<Rightarrow> u32 \<Rightarrow> u32" where
  "chunk n tot off = min (n - tot) (of_nat BSIZE - off mod of_nat BSIZE)"

lemma chunk_unat:
  assumes "tot < n"
  shows "unat (chunk n tot off) = min (unat n - unat tot) (BSIZE - unat off mod BSIZE)" and "0 < unat (chunk n tot off)"
proof -
  have m: "unat (off mod 1024) = unat off mod 1024" by (simp add: unat_mod)
  then have "off mod 1024 \<le> 1024" by (simp add: word_le_nat_alt)
  then have "unat (1024 - off mod 1024) = 1024 - unat off mod 1024" by (simp add: unat_sub m)
  moreover have "unat (n - tot) = unat n - unat tot" using assms by (simp add: unat_sub)
  ultimately show c: "unat (chunk n tot off) = min (unat n - unat tot) (BSIZE - unat off mod BSIZE)"
    by (simp add: chunk_def BSIZE_def min_def word_le_nat_alt)
  show "0 < unat (chunk n tot off)" unfolding c using assms by (simp add: BSIZE_def word_less_nat_alt)
qed

lemma chunk_step:
  assumes "tot < n"
  shows "unat (tot + chunk n tot off) = unat tot + unat (chunk n tot off)" and "unat tot + unat (chunk n tot off) \<le> unat n"
proof -
  have "unat tot \<le> unat n" using assms by (simp add: word_less_nat_alt)
  then show l: "unat tot + unat (chunk n tot off) \<le> unat n" unfolding chunk_unat(1) [OF assms] by linarith
  show "unat (tot + chunk n tot off) = unat tot + unat (chunk n tot off)"
    using l unat_bound32 [of n] by (simp add: unat_word_ariths)
qed

function readi_loop ::
  "nat \<Rightarrow> nat \<Rightarrow> bool \<Rightarrow> u64 \<Rightarrow> u32 \<Rightarrow> u32 \<Rightarrow> u32 \<Rightarrow> 'a kfs_scheme \<Rightarrow> (u32, 'a kfs_scheme) res" where
  "readi_loop h ip user_dst dst off n tot s =
     (if tot < n then
        kbind (bmap h ip (off div of_nat BSIZE) s) (\<lambda>addr s.
        if addr = 0 then Ok tot s
        else
          kbind (bread h (i_dev (inodes s ip)) addr s) (\<lambda>bp s.
          let m = chunk n tot off
          in kbind (either_copyout h user_dst dst (blk_read (b_data (bufs s bp)) (unat off mod BSIZE) (unat m)) s) (\<lambda>r s.
             kbind (brelse h bp s) (\<lambda>_ s.
             if r = -1 then Ok (-1) s
             else readi_loop h ip user_dst (dst + ucast m) (off + m) n (tot + m) s))))
      else Ok tot s)"
  by pat_completeness auto
termination
  by (relation "measure (\<lambda>(h, ip, u, dst, off, n, tot, s). unat n - unat tot)")
     (auto simp: chunk_step(1) chunk_unat(2) word_less_nat_alt [symmetric] intro!: diff_less_mono2)

declare readi_loop.simps [simp del]

definition readi ::
  "nat \<Rightarrow> nat \<Rightarrow> bool \<Rightarrow> u64 \<Rightarrow> u32 \<Rightarrow> u32 \<Rightarrow> 'a kfs_scheme \<Rightarrow> (u32, 'a kfs_scheme) res" where
  "readi h ip user_dst dst off n s =
     (let sz = i_size (inodes s ip)
      in if off > sz \<or> off + n < off then Ok 0 s
         else readi_loop h ip user_dst dst off (if off + n > sz then sz - off else n) 0 s)"

function writei_loop ::
  "nat \<Rightarrow> nat \<Rightarrow> bool \<Rightarrow> u64 \<Rightarrow> u32 \<Rightarrow> u32 \<Rightarrow> u32 \<Rightarrow> 'a kfs_scheme \<Rightarrow> (u32 \<times> u32, 'a kfs_scheme) res" where
  "writei_loop h ip user_src src off n tot s =
     (if tot < n then
        kbind (bmap h ip (off div of_nat BSIZE) s) (\<lambda>addr s.
        if addr = 0 then Ok (tot, off) s
        else
          kbind (bread h (i_dev (inodes s ip)) addr s) (\<lambda>bp s.
          let m = chunk n tot off
          in kbind (either_copyin_dst h user_src src (unat m) s) (\<lambda>r s.
             let s = set_data bp (blk_write (unat off mod BSIZE) (fst r) (b_data (bufs s bp))) s
             in if snd r = -1 then kbind (brelse h bp s) (\<lambda>_ s. Ok (tot, off) s)
                else
                  kbind (log_write h bp s) (\<lambda>_ s.
                  kbind (brelse h bp s) (\<lambda>_ s.
                  writei_loop h ip user_src (src + ucast m) (off + m) n (tot + m) s)))))
      else Ok (tot, off) s)"
  by pat_completeness auto
termination
  by (relation "measure (\<lambda>(h, ip, u, src, off, n, tot, s). unat n - unat tot)")
     (auto simp: chunk_step(1) chunk_unat(2) word_less_nat_alt [symmetric] intro!: diff_less_mono2)

declare writei_loop.simps [simp del]

definition writei ::
  "nat \<Rightarrow> nat \<Rightarrow> bool \<Rightarrow> u64 \<Rightarrow> u32 \<Rightarrow> u32 \<Rightarrow> 'a kfs_scheme \<Rightarrow> (u32, 'a kfs_scheme) res" where
  "writei h ip user_src src off n s =
     (if off > i_size (inodes s ip) \<or> off + n < off then Ok (-1) s
      else if unat (off + n) > MAXFILE * BSIZE then Ok (-1) s
      else
        kbind (writei_loop h ip user_src src off n 0 s) (\<lambda>r s.
        let s = (if snd r > i_size (inodes s ip) then inode_at ip (\<lambda>x. x\<lparr>i_size := snd r\<rparr>) s else s)
        in kbind (iupdate h ip s) (\<lambda>_ s. Ok (fst r) s)))"

section \<open>Calls that only read\<close>

text \<open>\<open>calm h P s t\<close>: no block, no inode and no lock differs; memory may.\<close>

definition calm :: "nat \<Rightarrow> u32 set \<Rightarrow> 'a klog_scheme \<Rightarrow> 'a klog_scheme \<Rightarrow> bool" where
  "calm h P s t \<longleftrightarrow> idle h t \<and> in_tx P (card P) t \<and> held t = held s \<and> view t = view s \<and> disk t = disk s \<and>
     disk_writes t = disk_writes s \<and> klog.more t = klog.more s \<and> procs t = procs s \<and> cpus t = cpus s \<and>
     (\<forall>i. sleeplocks t (SInode i) = sleeplocks s (SInode i)) \<and> log_start t = log_start s \<and> uart_out t = uart_out s"

lemma calm_trans: "calm h P s t \<Longrightarrow> calm h P t u \<Longrightarrow> calm h P s u"
  by (simp add: calm_def)

lemma calm_refl: "room h P k s \<Longrightarrow> calm h P s s"
  by (simp add: calm_def room_def)

lemma calm_room: "calm h P s t \<Longrightarrow> room h P k t = room h P k s" if "room h P j s" for s t
  using that by (auto simp: calm_def room_def)

lemma steps_calm: "steps h P s P t \<Longrightarrow> view t = view s \<Longrightarrow> calm h P s t"
  using tx_frame_eqs [of s t] unfolding calm_def steps_def by (metis (no_types, lifting))

lemma calm_kfs:
  "calm h P s t \<Longrightarrow> inodes t = inodes s \<and> sb t = sb s \<and> k_de t = k_de s"
  using kfs_frame [of t s] unfolding calm_def by blast

lemma pmem_simps [simp]:
  "idle h (s\<lparr>pmem := m\<rparr>) = idle h s" "bio_inv P (s'\<lparr>pmem := m\<rparr>) = bio_inv P s'" "held (s'\<lparr>pmem := m\<rparr>) = held s'"
  "view (s'\<lparr>pmem := m\<rparr>) = view s'" "holds h (s'\<lparr>pmem := m\<rparr>) i b = holds h s' i b"
  "in_tx P n (s''\<lparr>pmem := m\<rparr>) = in_tx P n s''" "room h P k (s''\<lparr>pmem := m\<rparr>) = room h P k s''"
proof -
  show i: "idle h (s\<lparr>pmem := m\<rparr>) = idle h s" for s :: "'a kproc_scheme" by (simp add: idle_def lock_free_def)
  show b: "bio_inv P (s'\<lparr>pmem := m\<rparr>) = bio_inv P s'" for s' :: "'b kbio_scheme" by (simp add: bio_inv_def lru_def)
  show h: "held (s'\<lparr>pmem := m\<rparr>) = held s'" for s' :: "'b kbio_scheme" by (simp add: held_def)
  have "bufs (s'\<lparr>pmem := m\<rparr>) = bufs s'" "disk (s'\<lparr>pmem := m\<rparr>) = disk s'" by simp_all
  then show "view (s'\<lparr>pmem := m\<rparr>) = view s'" by (simp only: view_def [abs_def] cached_def)
  show "holds h (s'\<lparr>pmem := m\<rparr>) i b = holds h s' i b" by (simp add: holds_def)
qed (simp_all add: room_def in_tx_def bio_inv_def lru_def held_def idle_def lock_free_def)

lemma calm_pmem: "room h P k s \<Longrightarrow> calm h P s (s\<lparr>pmem := m\<rparr>)"
  by (simp add: calm_def room_def)

text \<open>Holding a block while memory changes, then releasing it, is calm.\<close>

lemma calm_bracket:
  assumes "b \<notin> held s" and "after_read h P b i s s1" and "after_relse h P b (s1\<lparr>pmem := m\<rparr>) t" and "room h P k t"
  shows "calm h P s t"
proof -
  have f: "cache_frame s s1" "cache_frame (s1\<lparr>pmem := m\<rparr>) t" using assms(2,3) by (auto simp: after_defs)
  note e1 = cache_frame_eqs [OF f(1)] klog_frame [OF f(1)]
  note e2 = cache_frame_eqs [OF f(2)] klog_frame [OF f(2)]
  have "held t = held s" "view t = view s" "disk t = disk s" "disk_writes t = disk_writes s"
    using assms(1-3) by (auto simp: after_defs)
  moreover have "procs t = procs s" "cpus t = cpus s" "uart_out t = uart_out s" "log_start t = log_start s"
    "\<forall>i. sleeplocks t (SInode i) = sleeplocks s (SInode i)" using e1 e2 by simp_all
  moreover have "klog.more t = klog.more s" using e1(14) e2(14) by simp
  ultimately show ?thesis using assms(4) by (simp add: calm_def room_def)
qed

section \<open>The bytes of a file\<close>

definition file_block :: "(u32 \<Rightarrow> block) \<Rightarrow> inode \<Rightarrow> nat \<Rightarrow> u32" where
  "file_block v x bn =
     (if bn < NDIRECT then i_addrs x bn else get32 (4 * (bn - NDIRECT)) (v (i_addrs x NDIRECT)))"

definition mapped :: "(u32 \<Rightarrow> block) \<Rightarrow> inode \<Rightarrow> nat \<Rightarrow> bool" where
  "mapped v x bn \<longleftrightarrow> bn < MAXFILE \<and> file_block v x bn \<noteq> 0 \<and> (NDIRECT \<le> bn \<longrightarrow> i_addrs x NDIRECT \<noteq> 0)"

definition file_bytes :: "(u32 \<Rightarrow> block) \<Rightarrow> inode \<Rightarrow> nat \<Rightarrow> nat \<Rightarrow> u8 list" where
  "file_bytes v x off n = map (\<lambda>k. v (file_block v x (k div BSIZE)) (of_nat (k mod BSIZE))) [off..<off + n]"

lemma file_bytes_length [simp]: "length (file_bytes v x off n) = n"
  by (simp add: file_bytes_def)

lemma file_bytes_split: "file_bytes v x off (a + b) = file_bytes v x off a @ file_bytes v x (off + a) b"
  using upt_add_eq_append [of off "off + a" b] by (simp add: file_bytes_def add.assoc)

lemma file_bytes_chunk:
  assumes "off mod BSIZE + m \<le> BSIZE"
  shows "file_bytes v x off m = blk_read (v (file_block v x (off div BSIZE))) (off mod BSIZE) m"
proof (rule nth_equalityI)
  fix k assume "k < length (file_bytes v x off m)"
  then have k: "k < m" "off mod BSIZE + k < BSIZE" using assms by auto
  have "(off + k) div BSIZE = off div BSIZE \<and> (off + k) mod BSIZE = off mod BSIZE + k"
  proof -
    have "off + k = off div BSIZE * BSIZE + (off mod BSIZE + k)" by simp
    then show ?thesis using k(2) by (metis add_cancel_right_right bot_nat_0.not_eq_extremum div_less div_mult_self3 mod_less mod_mult_self3 not_less0)
  qed
  with k(1) show "file_bytes v x off m ! k = blk_read (v (file_block v x (off div BSIZE))) (off mod BSIZE) m ! k"
    by (simp add: file_bytes_def blk_read_nth)
qed simp

lemma bmap_mapped:
  assumes "room h P (Suc k) s" and "i_dev (inodes s ip) = ROOTDEV" and "mapped (view s) (inodes s ip) (unat bn)"
    and "NDIRECT \<le> unat bn \<longrightarrow> i_addrs (inodes s ip) NDIRECT \<notin> held s"
  shows "\<exists>t. bmap h ip bn s = Ok (file_block (view s) (inodes s ip) (unat bn)) t \<and> calm h P s t \<and> pmem t = pmem s"
proof (cases "unat bn < NDIRECT")
  case True
  then show ?thesis using assms(3) calm_refl [OF assms(1)]
    by (simp add: bmap_def bmap_slot_def mapped_def file_block_def)
next
  case False
  let ?a = "i_addrs (inodes s ip) NDIRECT"
  have f: "unat bn - NDIRECT < NINDIRECT" "?a \<noteq> 0" "?a \<notin> held s" "file_block (view s) (inodes s ip) (unat bn) \<noteq> 0"
    using False assms(3,4) by (auto simp: mapped_def MAXFILE_def)
  obtain i s1 t where r: "bread h ROOTDEV ?a s = Ok i s1" "b_data (bufs s1 i) = view s ?a" "cache_frame s s1"
    "brelse h i s1 = Ok () t" "steps h P s P t" "view t = view s"
    using steps_read [OF assms(1) f(3)] by blast
  have "bmap h ip bn s = Ok (file_block (view s) (inodes s ip) (unat bn)) t"
    using False f(1,2,4) r assms(2) by (simp add: bmap_def bmap_slot_def file_block_def Let_def)
  with steps_calm [OF r(5,6)] stepsD(10) [OF r(5)] show ?thesis by blast
qed

section \<open>Where a read goes\<close>

text \<open>The interface of \<^verbatim>\<open>either_copyout\<close> that \<^verbatim>\<open>readi\<close> relies on: copying to a destination changes memory by \<open>wr\<close>, consecutive
  copies compose, and the permission \<open>U\<close> to write a range covers its parts.\<close>

abbreviation pt_of :: "nat \<Rightarrow> 'a kproc_scheme \<Rightarrow> u64" where
  "pt_of h s \<equiv> p_pagetable (procs s (the (c_proc (cpus s h))))"

lemma of_nat_unat_id: "of_nat (unat w) = (w :: u32)"
  by simp

locale destination =
  fixes h :: nat and user :: bool and pt :: u64 and wr :: "u64 \<Rightarrow> u8 list \<Rightarrow> mem \<Rightarrow> mem"
    and J :: "mem \<Rightarrow> bool" and U :: "u64 \<Rightarrow> nat \<Rightarrow> bool"
  assumes copies: "idle h (s :: 'a kfs_scheme) \<Longrightarrow> pt_of h s = pt \<Longrightarrow> J (pmem s) \<Longrightarrow> U dst (length bs) \<Longrightarrow>
      either_copyout h user dst bs s = Ok 0 (s\<lparr>pmem := wr dst bs (pmem s)\<rparr>) \<and> J (wr dst bs (pmem s))"
    and wr_append: "wr dst (as @ bs) m = wr (dst + of_nat (length as)) bs (wr dst as m)"
    and wr_nil: "wr dst [] m = m"
    and U_split: "U dst (a + b) \<Longrightarrow> U dst a \<and> U (dst + of_nat a) b"
begin

lemma readi_chunk:
  fixes s :: "'a kfs_scheme"
  assumes "room h P (Suc k) s" and "i_dev (inodes s ip) = ROOTDEV" and "pt_of h s = pt" and "J (pmem s)"
    and "tot < n" and "U dst (unat (chunk n tot off))" and "held s = {}" and "mapped (view s) (inodes s ip) (unat off div BSIZE)"
  shows "\<exists>t. readi_loop h ip user dst off n tot s =
      readi_loop h ip user (dst + ucast (chunk n tot off)) (off + chunk n tot off) n (tot + chunk n tot off) t \<and>
    calm h P s t \<and> J (pmem t) \<and> pmem t = wr dst (file_bytes (view s) (inodes s ip) (unat off) (unat (chunk n tot off))) (pmem s)"
proof -
  let ?m = "chunk n tot off" and ?bn = "unat off div BSIZE" and ?x = "inodes s ip"
  let ?a = "file_block (view s) ?x ?bn"
  let ?d = "file_bytes (view s) ?x (unat off) (unat ?m)"
  have bn: "unat (off div of_nat BSIZE) = ?bn" by (simp add: BSIZE_def unat_div)
  obtain s1 where b1: "bmap h ip (off div of_nat BSIZE) s = Ok ?a s1" "calm h P s s1" "pmem s1 = pmem s"
    using bmap_mapped [OF assms(1,2), of "off div of_nat BSIZE"] assms(7,8) unfolding bn by auto
  have r1: "room h P (Suc k) s1" "held s1 = {}" "view s1 = view s" "inodes s1 = inodes s" "procs s1 = procs s" "cpus s1 = cpus s"
    using b1(2) calm_room [OF assms(1) b1(2)] assms(1,7) calm_kfs [OF b1(2)] by (auto simp: calm_def)
  obtain i s2 where b2: "bread h ROOTDEV ?a s1 = Ok i s2" "after_read h P ?a i s1 s2" "room h P k s2"
    "?a \<in> P \<or> view s2 ?a = disk s2 ?a"
    using tx_bread [OF r1(1), of ?a] r1(2) by auto
  have f2: "cache_frame s1 s2" "holds h s2 i ?a" "b_data (bufs s2 i) = view s ?a" "idle h s2"
    using b2(2) r1(3) by (auto simp: after_read_def)
  note e2 = cache_frame_eqs [OF f2(1)]
  let ?s3 = "s2\<lparr>pmem := wr dst ?d (pmem s)\<rparr>"
  have d: "blk_read (b_data (bufs s2 i)) (unat off mod BSIZE) (unat ?m) = ?d"
    unfolding f2(3) by (rule file_bytes_chunk [symmetric]) (use chunk_unat(1) [OF assms(5), of off] in \<open>simp add: BSIZE_def\<close>)
  have b3: "either_copyout h user dst ?d s2 = Ok 0 ?s3" "J (wr dst ?d (pmem s))"
    using copies [OF f2(4), of dst ?d] assms(3,4,6) e2(2,3,6) r1(5,6) b1(3) by simp_all
  have "disk ?s3 = disk s2" by simp
  then obtain t where b4: "brelse h i ?s3 = Ok () t" "after_relse h P ?a ?s3 t" "room h P k t"
    using tx_brelse [of h P k ?s3 i ?a] b2(3,4) f2(2) by auto
  have f4: "cache_frame ?s3 t" using b4(2) by (simp add: after_relse_def)
  have "calm h P s t"
    using calm_trans [OF b1(2) calm_bracket [OF _ b2(2) b4(2,3)]] r1(2) by simp
  moreover have "pmem t = wr dst ?d (pmem s)" using cache_frame_eqs(6) [OF f4] by simp
  moreover have "readi_loop h ip user dst off n tot s = readi_loop h ip user (dst + ucast ?m) (off + ?m) n (tot + ?m) t"
    using assms(2,5,8) b1(1) b2(1) b3(1) b4(1) d r1(4)
    by (subst readi_loop.simps) (simp add: bn mapped_def Let_def)
  ultimately show ?thesis using b3(2) by auto
qed

lemma readi_loop_delivers:
  fixes s :: "'a kfs_scheme"
  assumes "room h P (Suc k) s" and "i_dev (inodes s ip) = ROOTDEV" and "pt_of h s = pt" and "J (pmem s)"
    and "U dst (unat n - unat tot)" and "unat off + (unat n - unat tot) < 2 ^ 32" and "tot \<le> n" and "held s = {}"
    and "\<forall>b. b * BSIZE < unat off + (unat n - unat tot) \<longrightarrow> mapped (view s) (inodes s ip) b"
  shows "\<exists>t. readi_loop h ip user dst off n tot s = Ok n t \<and> calm h P s t \<and>
    pmem t = wr dst (file_bytes (view s) (inodes s ip) (unat off) (unat n - unat tot)) (pmem s)"
  using assms
proof (induction "unat n - unat tot" arbitrary: dst off tot s rule: less_induct)
  case less
  show ?case
  proof (cases "tot < n")
    case False
    then have "tot = n" using less.prems(7) by simp
    then show ?thesis using calm_refl [OF less.prems(1)]
      by (subst readi_loop.simps) (simp add: file_bytes_def wr_nil)
  next
    case True
    let ?m = "chunk n tot off" and ?r = "unat n - unat (tot + chunk n tot off)"
    note c = chunk_unat(2) [OF True, of off] chunk_step [OF True, of off]
    have len: "unat n - unat tot = unat ?m + ?r" "?r < unat n - unat tot" using c by linarith+
    have U: "U dst (unat ?m)" "U (dst + of_nat (unat ?m)) ?r"
      using U_split [of dst "unat ?m" ?r] less.prems(5) unfolding len(1) by blast+
    have off: "unat (off + ?m) = unat off + unat ?m"
      using less.prems(6) len(1) by (simp add: unat_word_ariths)
    have "unat off div BSIZE * BSIZE < unat off + (unat n - unat tot)"
      by (rule order_le_less_trans [OF div_times_less_eq_dividend]) (use c(1) len(1) in linarith)
    then have "mapped (view s) (inodes s ip) (unat off div BSIZE)" using less.prems(9) by blast
    then obtain s1 where s1: "readi_loop h ip user dst off n tot s = readi_loop h ip user (dst + ucast ?m) (off + ?m) n (tot + ?m) s1"
      "calm h P s s1" "J (pmem s1)" "pmem s1 = wr dst (file_bytes (view s) (inodes s ip) (unat off) (unat ?m)) (pmem s)"
      using readi_chunk [OF less.prems(1-4) True U(1) less.prems(8)] by blast
    have q: "room h P (Suc k) s1" "view s1 = view s" "inodes s1 = inodes s" "pt_of h s1 = pt" "held s1 = {}"
      using calm_room [OF less.prems(1) s1(2)] s1(2) less.prems(1,3,8) calm_kfs [OF s1(2)] by (auto simp: calm_def)
    have "tot + ?m \<le> n" using c by (simp add: word_le_nat_alt)
    moreover have "U (dst + ucast ?m) ?r" using U(2) by simp
    moreover have "unat (off + ?m) + ?r = unat off + (unat n - unat tot)" using off len(1) by simp
    ultimately obtain t where t: "readi_loop h ip user (dst + ucast ?m) (off + ?m) n (tot + ?m) s1 = Ok n t" "calm h P s1 t"
      "pmem t = wr (dst + ucast ?m) (file_bytes (view s) (inodes s ip) (unat off + unat ?m) ?r) (pmem s1)"
      using less.hyps [OF len(2) q(1) _ q(4) s1(3), where dst = "dst + ucast ?m" and off = "off + ?m"] less.prems(2,6,9) q(2,3,5) off by auto
    have "pmem t = wr dst (file_bytes (view s) (inodes s ip) (unat off) (unat n - unat tot)) (pmem s)"
      unfolding t(3) s1(4) len(1) file_bytes_split wr_append by simp
    with s1(1) t(1) calm_trans [OF s1(2) t(2)] show ?thesis by auto
  qed
qed

lemma readi_delivers:
  fixes s :: "'a kfs_scheme"
  assumes "room h P (Suc k) s" and "held s = {}" and "i_dev (inodes s ip) = ROOTDEV" and "pt_of h s = pt" and "J (pmem s)"
    and "off \<le> i_size (inodes s ip)" and "off \<le> off + n"
    and "\<forall>b. b * BSIZE < unat (i_size (inodes s ip)) \<longrightarrow> mapped (view s) (inodes s ip) b"
    and "m = min (unat n) (unat (i_size (inodes s ip)) - unat off)" and "U dst m"
  shows "\<exists>t. readi h ip user dst off n s = Ok (of_nat m) t \<and> calm h P s t \<and>
    pmem t = wr dst (file_bytes (view s) (inodes s ip) (unat off) m) (pmem s)"
proof -
  let ?sz = "i_size (inodes s ip)"
  let ?n = "if off + n > ?sz then ?sz - off else n"
  have o: "unat off \<le> unat ?sz" using assms(6) by (simp add: word_le_nat_alt)
  have on: "unat (off + n) = unat off + unat n" using assms(7) by (simp add: unat_plus_simple)
  have n: "unat ?n = m"
  proof (cases "off + n > ?sz")
    case True
    then have "unat ?sz < unat off + unat n" unfolding word_less_nat_alt on .
    then show ?thesis using True assms(6,9) by (simp add: unat_sub)
  next
    case False
    then have "unat off + unat n \<le> unat ?sz" unfolding not_less word_le_nat_alt on .
    then show ?thesis using False assms(9) by simp
  qed
  have le: "unat off + m \<le> unat ?sz" using o assms(9) by simp
  have "\<forall>b. b * BSIZE < unat off + (unat ?n - unat (0 :: u32)) \<longrightarrow> mapped (view s) (inodes s ip) b"
    using assms(8) le n by auto
  moreover have "unat off + (unat ?n - unat (0 :: u32)) < 2 ^ 32" using le n unat_bound32 [of ?sz] by simp
  ultimately obtain t where t: "readi_loop h ip user dst off ?n 0 s = Ok ?n t" "calm h P s t"
    "pmem t = wr dst (file_bytes (view s) (inodes s ip) (unat off) (unat ?n - unat (0 :: u32))) (pmem s)"
    using readi_loop_delivers [OF assms(1,3,4,5), where dst = dst and n = ?n and tot = 0 and off = off] assms(2,10) n by auto
  have "?n = of_nat m" unfolding n [symmetric] by (rule of_nat_unat_id [symmetric])
  moreover have "readi h ip user dst off n s = Ok ?n t"
    using t(1) assms(6,7) unfolding readi_def Let_def not_less [symmetric] by (simp only: if_False HOL.simp_thms)
  ultimately show ?thesis using t(2,3) n by auto
qed

end

text \<open>Kernel memory and the memory of the calling process are such destinations.\<close>

lemma store_bytes_append: "store_bytes a (as @ bs) m = store_bytes (a + of_nat (length as)) bs (store_bytes a as m)"
  by (induction as arbitrary: a m) (simp_all add: add.assoc)

interpretation to_kernel: destination h False pt store_bytes "\<lambda>_. True" "\<lambda>_ _. True" for h pt
  by unfold_locales (simp_all add: either_copyout_def store_bytes_append)

lemma user_writable_split:
  assumes "user_writable m pt F va (a + b)"
  shows "user_writable m pt F va a" and "user_writable m pt F (va + of_nat a) b"
proof -
  show "user_writable m pt F va a" using assms by (simp add: user_writable_def)
  have "unat (va + of_nat a) = unat va + a" using assms by (intro unat_plus_of_nat) (simp add: user_writable_def)
  then show "user_writable m pt F (va + of_nat a) b"
    using assms by (auto simp: user_writable_def add.assoc simp flip: of_nat_add)
qed

lemma write_user_nil: "write_user m0 pt dst [] m = m"
  by (simp add: write_user_def)

interpretation to_user: destination h True pt "write_user m0 pt" "\<lambda>m. pt_tree m0 pt F \<and> same_tables m0 pt F m"
    "\<lambda>dst n. user_writable m0 pt F dst n" for h pt m0 F
proof unfold_locales
  fix s :: "'a kfs_scheme" and dst and bs :: "u8 list"
  assume a: "idle h s" "pt_of h s = pt" "pt_tree m0 pt F \<and> same_tables m0 pt F (pmem s)" "user_writable m0 pt F dst (length bs)"
  have "copyout h pt dst bs ((s\<lparr>pmem := m0\<rparr>)\<lparr>pmem := pmem s\<rparr>) = Ok 0 ((s\<lparr>pmem := m0\<rparr>)\<lparr>pmem := write_user m0 pt dst bs (pmem s)\<rparr>)"
    using copyout_ok [of "s\<lparr>pmem := m0\<rparr>" pt F dst bs "pmem s" h] a(3,4) by simp
  then show "either_copyout h True dst bs s = Ok 0 (s\<lparr>pmem := write_user m0 pt dst bs (pmem s)\<rparr>) \<and>
      pt_tree m0 pt F \<and> same_tables m0 pt F (write_user m0 pt dst bs (pmem s))"
    using a write_user_same_tables [of m0 pt F dst bs "pmem s"] by (simp add: either_copyout_def)
qed (simp_all add: write_user_append write_user_nil user_writable_split)


lemma binit_procs: "procs (binit s) = procs s \<and> cpus (binit s) = cpus s"
proof -
  have "procs (fold binit_one [0..<n] s) = procs s \<and> cpus (fold binit_one [0..<n] s) = cpus s" for n and s :: "'a kbio_scheme"
    by (induction n) (simp_all add: binit_one_def Let_def set_next_def set_prev_def initsleeplock_def sl_at_def initlock_def)
  then show ?thesis by (simp add: binit_def Let_def set_next_def set_prev_def initlock_def)
qed

lemma set_inodes_frame: "pmem (set_inodes f s) = pmem s" "procs (set_inodes f s) = procs s" "cpus (set_inodes f s) = cpus s"
proof -
  have "pmem (fold (set_inode f) [0..<n] s) = pmem s \<and> procs (fold (set_inode f) [0..<n] s) = procs s \<and>
    cpus (fold (set_inode f) [0..<n] s) = cpus s" for n
    by (induction n) (simp_all add: set_inode_def inode_at_def sl_at_def)
  then show "pmem (set_inodes f s) = pmem s" "procs (set_inodes f s) = procs s" "cpus (set_inodes f s) = cpus s"
    by (simp_all add: set_inodes_def)
qed

lemma fresh_fs_pt: "pt_of 0 (set_inodes f (fresh_fs d)) = 0x87ffd000"
proof -
  have "procs (fresh_fs d) = procs (binit (raw_bio d))" "cpus (fresh_fs d) = cpus (binit (raw_bio d))"
    by (simp_all add: fresh_fs_def klog.defs fresh_log_def kbio.defs fresh_bio_def)
  then show ?thesis
    by (simp add: set_inodes_frame binit_procs raw_bio_def ksleep.defs idle_sleep_def kpipe.defs piped_def)
qed


end
