(* ===== verification/Dir.thy ===== *)
theory Dir
  imports Fdata
begin

text \<open>
  Directories and path names, \<^verbatim>\<open>kernel/fs.c\<close>: \<^verbatim>\<open>namecmp\<close>, \<^verbatim>\<open>dirlookup\<close>, \<^verbatim>\<open>dirlink\<close>, \<^verbatim>\<open>skipelem\<close>, \<^verbatim>\<open>namex\<close>, \<^verbatim>\<open>namei\<close> and
  \<^verbatim>\<open>nameiparent\<close>.  A directory is a file of 16-byte entries; the local variable \<^verbatim>\<open>de\<close> lives at \<open>k_de\<close> in kernel memory.
  A path is the list of its characters before the terminating NUL.
\<close>

section \<open>Directory entries\<close>

definition DIRSIZ :: nat where "DIRSIZ = 14"

text \<open>\<^verbatim>\<open>struct dirent\<close> in 16 bytes: the inode number, then the name.\<close>

definition de_inum :: "u8 list \<Rightarrow> u16" where
  "de_inum bs = ucast (of_le (take 2 bs))"

definition de_name :: "u8 list \<Rightarrow> string" where
  "de_name bs = map (\<lambda>b. char_of (unat b)) (drop 2 bs)"

definition dirent :: "u16 \<Rightarrow> string \<Rightarrow> u8 list" where
  "dirent inum name = le_bytes 2 (ucast inum) @ map of_char name"

definition namecmp :: "string \<Rightarrow> string \<Rightarrow> int" where
  "namecmp s t = strncmp s t DIRSIZ"

text \<open>The loop of \<^verbatim>\<open>dirlookup\<close> visits the offsets 0, 16, \dots below the size of the directory.\<close>

definition dir_offs :: "u32 \<Rightarrow> u32 list" where
  "dir_offs sz = map (\<lambda>k. of_nat (16 * k)) [0..<(unat sz + 15) div 16]"

definition dirlookup_at :: "nat \<Rightarrow> nat \<Rightarrow> string \<Rightarrow> u32 \<Rightarrow> 'a kfs_scheme \<Rightarrow> ((nat \<times> u32) option, 'a kfs_scheme) res" where
  "dirlookup_at h dp name off s =
     kbind (readi h dp False (k_de s) off 16 s) (\<lambda>r s.
     if r \<noteq> 16 then Panic ''dirlookup read''
     else
       let de = load_bytes (pmem s) (k_de s) 16
       in if de_inum de = 0 then Ok None s
          else if namecmp name (de_name de) = 0 then
            kbind (iget h (i_dev (inodes s dp)) (ucast (de_inum de)) s) (\<lambda>ip s. Ok (Some (ip, off)) s)
          else Ok None s)"

definition dirlookup :: "nat \<Rightarrow> nat \<Rightarrow> string \<Rightarrow> 'a kfs_scheme \<Rightarrow> ((nat \<times> u32) option, 'a kfs_scheme) res" where
  "dirlookup h dp name s =
     (if i_type (inodes s dp) \<noteq> T_DIR then Panic ''dirlookup not DIR''
      else kscan (dirlookup_at h dp name) (dir_offs (i_size (inodes s dp))) s)"

text \<open>The search of \<^verbatim>\<open>dirlink\<close> for an empty entry; without one the loop ends at the first offset past the entries.\<close>

definition dirlink_at :: "nat \<Rightarrow> nat \<Rightarrow> u32 \<Rightarrow> 'a kfs_scheme \<Rightarrow> (u32 option, 'a kfs_scheme) res" where
  "dirlink_at h dp off s =
     kbind (readi h dp False (k_de s) off 16 s) (\<lambda>r s.
     if r \<noteq> 16 then Panic ''dirlink read''
     else if de_inum (load_bytes (pmem s) (k_de s) 16) = 0 then Ok (Some off) s
     else Ok None s)"

definition dirlink :: "nat \<Rightarrow> nat \<Rightarrow> string \<Rightarrow> u32 \<Rightarrow> 'a kfs_scheme \<Rightarrow> (int, 'a kfs_scheme) res" where
  "dirlink h dp name inum s =
     kbind (dirlookup h dp name s) (\<lambda>r s.
     case r of
       Some (ip, _) \<Rightarrow> kbind (iput h ip s) (\<lambda>_ s. Ok (-1) s)
     | None \<Rightarrow>
         let offs = dir_offs (i_size (inodes s dp))
         in kbind (kscan (dirlink_at h dp) offs s) (\<lambda>r s.
            let off = (case r of Some off \<Rightarrow> off | None \<Rightarrow> of_nat (16 * length offs));
                s = s\<lparr>pmem := store_bytes (k_de s) (dirent (ucast inum) (strncpy [] name DIRSIZ)) (pmem s)\<rparr>
            in kbind (writei h dp False (k_de s) off 16 s) (\<lambda>w s.
               if w \<noteq> 16 then Ok (-1) s else Ok 0 s)))"

section \<open>Paths\<close>

text \<open>\<open>skipelem path name\<close>: the rest of the path and the new contents of the array \<^verbatim>\<open>name\<close>, or \<open>None\<close> for 0.\<close>

definition skipelem :: "string \<Rightarrow> string \<Rightarrow> (string \<times> string) option" where
  "skipelem pth name =
     (let pth = dropWhile (\<lambda>c. c = CHR ''/'') pth
      in if chd pth = NUL then None
         else
           let s = takeWhile (\<lambda>c. c \<noteq> CHR ''/'' \<and> c \<noteq> NUL) pth;
               rest = dropWhile (\<lambda>c. c \<noteq> CHR ''/'' \<and> c \<noteq> NUL) pth;
               name = (if length s \<ge> DIRSIZ then take DIRSIZ s else s @ NUL # drop (length s + 1) name)
           in Some (dropWhile (\<lambda>c. c = CHR ''/'') rest, name))"

lemma skipelem_shorter: "skipelem pth name = Some (pth', name') \<Longrightarrow> length pth' < length pth"
proof -
  let ?p = "dropWhile (\<lambda>c. c = CHR ''/'') pth"
  assume a: "skipelem pth name = Some (pth', name')"
  then have c: "chd ?p \<noteq> NUL" by (auto simp: skipelem_def Let_def split: if_splits)
  then obtain c r where p: "?p = c # r" "c \<noteq> NUL" by (cases ?p) (auto simp: chd_def)
  then have "c \<noteq> CHR ''/''" using hd_dropWhile [of "\<lambda>c. c = CHR ''/''" pth] by auto
  then have "dropWhile (\<lambda>c. c \<noteq> CHR ''/'' \<and> c \<noteq> NUL) ?p = dropWhile (\<lambda>c. c \<noteq> CHR ''/'' \<and> c \<noteq> NUL) r" using p by simp
  then have "pth' = dropWhile (\<lambda>c. c = CHR ''/'') (dropWhile (\<lambda>c. c \<noteq> CHR ''/'' \<and> c \<noteq> NUL) r)"
    using a c by (auto simp: skipelem_def Let_def split: if_splits)
  moreover have "length r < length pth" using p(1) length_dropWhile_le [of "\<lambda>c. c = CHR ''/''" pth] by simp
  ultimately show ?thesis using length_dropWhile_le order_le_less_trans by metis
qed

text \<open>The loop of \<^verbatim>\<open>namex\<close> from inode \<open>ip\<close> on; it returns the inode, if any, and the contents of \<^verbatim>\<open>name\<close>.\<close>

function namex_loop ::
  "nat \<Rightarrow> bool \<Rightarrow> string \<Rightarrow> string \<Rightarrow> nat \<Rightarrow> 'a kfs_scheme \<Rightarrow> (nat option \<times> string, 'a kfs_scheme) res" where
  "namex_loop h parent pth name ip s =
     (case skipelem pth name of
        None \<Rightarrow>
          if parent then kbind (iput h ip s) (\<lambda>_ s. Ok (None, name) s)
          else Ok (Some ip, name) s
      | Some (pth', name') \<Rightarrow>
          kbind (ilock h (Some ip) s) (\<lambda>_ s.
          if i_type (inodes s ip) \<noteq> T_DIR then kbind (iunlockput h ip s) (\<lambda>_ s. Ok (None, name') s)
          else if parent \<and> chd pth' = NUL then kbind (iunlock h (Some ip) s) (\<lambda>_ s. Ok (Some ip, name') s)
          else
            kbind (dirlookup h ip name' s) (\<lambda>r s.
            case r of
              None \<Rightarrow> kbind (iunlockput h ip s) (\<lambda>_ s. Ok (None, name') s)
            | Some (next, _) \<Rightarrow> kbind (iunlockput h ip s) (\<lambda>_ s. namex_loop h parent pth' name' next s))))"
  by pat_completeness auto
termination
  by (relation "measure (\<lambda>(h, parent, pth, name, ip, s). length pth)") (auto dest: skipelem_shorter)

declare namex_loop.simps [simp del]

definition namex :: "nat \<Rightarrow> string \<Rightarrow> bool \<Rightarrow> string \<Rightarrow> 'a kfs_scheme \<Rightarrow> (nat option \<times> string, 'a kfs_scheme) res" where
  "namex h pth parent name s =
     kbind (if chd pth = CHR ''/'' then iget h ROOTDEV ROOTINO s
            else kbind (curproc h s) (\<lambda>i s.
              case p_cwd (procs s i) of Some ip \<Rightarrow> idup h ip s | None \<Rightarrow> Panic ''kerneltrap'')) (\<lambda>ip s.
     namex_loop h parent pth name ip s)"

definition namei :: "nat \<Rightarrow> string \<Rightarrow> 'a kfs_scheme \<Rightarrow> (nat option, 'a kfs_scheme) res" where
  "namei h pth s = kbind (namex h pth False (replicate DIRSIZ NUL) s) (\<lambda>r s. Ok (fst r) s)"

definition nameiparent ::
  "nat \<Rightarrow> string \<Rightarrow> string \<Rightarrow> 'a kfs_scheme \<Rightarrow> (nat option \<times> string, 'a kfs_scheme) res" where
  "nameiparent h pth name s = namex h pth True name s"

section \<open>Path elements\<close>

lemma takeWhile_stop: "\<forall>c\<in>set e. P c \<Longrightarrow> rest = [] \<or> \<not> P (hd rest) \<Longrightarrow> takeWhile P (e @ rest) = e"
  by (cases rest) auto

lemma dropWhile_stop: "\<forall>c\<in>set e. P c \<Longrightarrow> rest = [] \<or> \<not> P (hd rest) \<Longrightarrow> dropWhile P (e @ rest) = rest"
  by (cases rest) auto

text \<open>What \<^verbatim>\<open>namecmp\<close> sees of the array \<^verbatim>\<open>name\<close>: the characters before a NUL, 14 at most.\<close>

definition de_string :: "string \<Rightarrow> string" where
  "de_string name = take DIRSIZ (cstr name)"

lemma namecmp_eq: "namecmp a b = 0 \<longleftrightarrow> de_string a = de_string b"
  by (simp add: namecmp_def de_string_def strncmp_eq_0_iff)

lemma skipelem_splits:
  assumes "e \<noteq> []" and "\<forall>c\<in>set e. c \<noteq> CHR ''/'' \<and> c \<noteq> NUL" and "rest = [] \<or> hd rest \<noteq> CHR ''/''" and "0 < b \<or> rest = []"
  shows "\<exists>name'. skipelem (replicate a (CHR ''/'') @ e @ replicate b (CHR ''/'') @ rest) name = Some (rest, name') \<and>
    de_string name' = take DIRSIZ e"
proof -
  let ?t = "replicate b (CHR ''/'') @ rest"
  let ?n = "if length e \<ge> DIRSIZ then take DIRSIZ e else e @ NUL # drop (length e + 1) name"
  have d: "dropWhile (\<lambda>c. c = CHR ''/'') (replicate a (CHR ''/'') @ e @ ?t) = e @ ?t"
    by (rule dropWhile_stop) (use assms(1,2) in \<open>cases e; simp\<close>)+
  have s: "takeWhile (\<lambda>c. c \<noteq> CHR ''/'' \<and> c \<noteq> NUL) (e @ ?t) = e" "dropWhile (\<lambda>c. c \<noteq> CHR ''/'' \<and> c \<noteq> NUL) (e @ ?t) = ?t"
    using assms(2,4) by (intro takeWhile_stop dropWhile_stop; cases b; simp)+
  have r: "dropWhile (\<lambda>c. c = CHR ''/'') ?t = rest" by (rule dropWhile_stop) (use assms(3) in auto)
  have "chd (e @ ?t) \<noteq> NUL" using assms(1,2) by (cases e) (auto simp: chd_def)
  then have "skipelem (replicate a (CHR ''/'') @ e @ ?t) name = Some (rest, ?n)"
    unfolding skipelem_def d Let_def s r by simp
  moreover have "cstr (e @ NUL # xs) = e" for xs
    using assms(2) takeWhile_stop [of e "\<lambda>c. c \<noteq> NUL" "NUL # xs"] by (simp add: cstr_def)
  moreover have "cstr (take DIRSIZ e) = take DIRSIZ e"
    using assms(2) takeWhile_eq_all_conv [of "\<lambda>c. c \<noteq> NUL" "take DIRSIZ e"] in_set_takeD [of _ DIRSIZ e] by (auto simp: cstr_def)
  ultimately show ?thesis by (auto simp: de_string_def)
qed

text \<open>
  \<^verbatim>\<open>skipelem\<close> splits off the next path element.  Leading slashes are skipped, the element is copied to \<^verbatim>\<open>name\<close>, cut to the
  14 characters a directory entry holds, and the result is the path after the slashes that follow it; a path of
  slashes only has no element.
\<close>

theorem skipelem_next_element:
  assumes "e \<noteq> []" and "\<forall>c\<in>set e. c \<noteq> CHR ''/'' \<and> c \<noteq> NUL" and "rest = [] \<or> hd rest \<noteq> CHR ''/''" and "0 < b \<or> rest = []"
  shows "(\<exists>name'. skipelem (replicate a (CHR ''/'') @ e @ replicate b (CHR ''/'') @ rest) name = Some (rest, name') \<and>
      de_string name' = take DIRSIZ e) \<and>
    skipelem (replicate a (CHR ''/'')) name = None"
proof
  show "\<exists>name'. skipelem (replicate a (CHR ''/'') @ e @ replicate b (CHR ''/'') @ rest) name = Some (rest, name') \<and>
      de_string name' = take DIRSIZ e" by (rule skipelem_splits [OF assms])
  have "dropWhile (\<lambda>c. c = CHR ''/'') (replicate a (CHR ''/'')) = []" by (induction a) auto
  then show "skipelem (replicate a (CHR ''/'')) name = None" by (simp add: skipelem_def chd_def)
qed

theorem skipelem_next_element_witness:
  "\<exists>name'. skipelem ''///a//bb'' (replicate 14 NUL) = Some (''bb'', name') \<and> de_string name' = ''a''"
  using skipelem_next_element [of "''a''" "''bb''" 2 3 "replicate 14 NUL"] by (simp add: numeral_eq_Suc DIRSIZ_def)

section \<open>Looking up a name\<close>

definition dir_entry :: "(u32 \<Rightarrow> block) \<Rightarrow> inode \<Rightarrow> nat \<Rightarrow> u8 list" where
  "dir_entry v x k = file_bytes v x (16 * k) 16"

definition matches :: "(u32 \<Rightarrow> block) \<Rightarrow> inode \<Rightarrow> string \<Rightarrow> nat \<Rightarrow> bool" where
  "matches v x name k \<longleftrightarrow> de_inum (dir_entry v x k) \<noteq> 0 \<and> de_string name = de_string (de_name (dir_entry v x k))"

lemma store_bytes_other: "\<forall>k<length bs. x \<noteq> a + of_nat k \<Longrightarrow> store_bytes a bs m x = m x"
proof (induction bs arbitrary: a m)
  case (Cons b bs)
  have x: "x \<noteq> a" using Cons.prems by (auto dest: spec [of _ 0])
  have "\<forall>k<length bs. x \<noteq> a + 1 + of_nat k" using Cons.prems by (auto simp: add.assoc dest: spec [of _ "Suc k" for k])
  then have "store_bytes (a + 1) bs (m(a := b)) x = (m(a := b)) x" by (rule Cons.IH)
  with x show ?case by simp
qed simp

lemma load_store_bytes: "length bs \<le> 2 ^ 32 \<Longrightarrow> load_bytes (store_bytes a bs m) a (length bs) = bs"
proof (induction bs arbitrary: a m)
  case (Cons b bs)
  have "a \<noteq> a + 1 + of_nat k" if "k < length bs" for k
  proof -
    have "Suc k < 2 ^ 64" using that Cons.prems by simp
    then have "unat (of_nat (Suc k) :: u64) = Suc k" by (simp add: unat_of_nat del: of_nat_Suc)
    then have "(of_nat (Suc k) :: u64) \<noteq> 0" by (metis nat.distinct(1) unat_0)
    then show ?thesis by (simp add: add.assoc)
  qed
  then have "store_bytes (a + 1) bs (m(a := b)) a = b" using store_bytes_other [of bs a "a + 1" "m(a := b)"] by simp
  then show ?case using Cons by simp
qed simp

text \<open>A directory whose entries are all there.\<close>

definition dir_ok :: "nat \<Rightarrow> u32 set \<Rightarrow> nat \<Rightarrow> 'a kfs_scheme \<Rightarrow> bool" where
  "dir_ok h P dp s \<longleftrightarrow> room h P 1 s \<and> held s = {} \<and> i_dev (inodes s dp) = ROOTDEV \<and> i_type (inodes s dp) = T_DIR \<and>
     unat (i_size (inodes s dp)) mod 16 = 0 \<and>
     (\<forall>b. b * BSIZE < unat (i_size (inodes s dp)) \<longrightarrow> mapped (view s) (inodes s dp) b)"

lemma dir_ok_calm: "dir_ok h P dp s \<Longrightarrow> calm h P s t \<Longrightarrow> dir_ok h P dp t"
  using calm_room [of h P 1 s t 1] calm_kfs [of h P s t] by (auto simp: dir_ok_def calm_def)

lemma read_entry:
  assumes "dir_ok h P dp s" and "k < unat (i_size (inodes s dp)) div 16"
  shows "\<exists>t. readi h dp False (k_de s) (of_nat (16 * k)) 16 s = Ok 16 t \<and> calm h P s t \<and>
    load_bytes (pmem t) (k_de t) 16 = dir_entry (view s) (inodes s dp) k"
proof -
  let ?sz = "unat (i_size (inodes s dp))"
  have k: "16 * k + 16 \<le> ?sz" "?sz < 2 ^ 32" using assms(2) unat_bound32 by auto
  then have u: "unat (of_nat (16 * k) :: u32) = 16 * k" "unat (of_nat (16 * k) + 16 :: u32) = 16 * k + 16"
    using unat_of_nat32 [of "16 * k"] unat_of_nat32 [of "16 * k + 16"] by auto
  then have o: "of_nat (16 * k) \<le> i_size (inodes s dp)" "(of_nat (16 * k) :: u32) \<le> of_nat (16 * k) + 16"
    using k by (simp_all add: word_le_nat_alt del: of_nat_mult)
  have m: "16 = min (unat (16 :: u32)) (?sz - unat (of_nat (16 * k) :: u32))" using u(1) k by simp
  have "room h P (Suc 0) s" using assms(1) by (simp add: dir_ok_def)
  then obtain t where t: "readi h dp False (k_de s) (of_nat (16 * k)) 16 s = Ok (of_nat 16) t" "calm h P s t"
    "pmem t = store_bytes (k_de s) (file_bytes (view s) (inodes s dp) (unat (of_nat (16 * k) :: u32)) 16) (pmem s)"
    using to_kernel.readi_delivers [OF _ _ _ refl TrueI o _ m TrueI] assms(1) unfolding dir_ok_def by blast
  have "load_bytes (pmem t) (k_de t) 16 = dir_entry (view s) (inodes s dp) k"
    using load_store_bytes [of "dir_entry (view s) (inodes s dp) k" "k_de s" "pmem s"] calm_kfs [OF t(2)]
    unfolding t(3) u(1) by (simp add: dir_entry_def)
  with t(1,2) show ?thesis by auto
qed

lemma dirlookup_at_entry:
  assumes "dir_ok h P dp s" and "k < unat (i_size (inodes s dp)) div 16"
  shows "\<exists>t. calm h P s t \<and> dirlookup_at h dp name (of_nat (16 * k)) s =
    (if matches (view s) (inodes s dp) name k then
       kbind (iget h ROOTDEV (ucast (de_inum (dir_entry (view s) (inodes s dp) k))) t) (\<lambda>ip s. Ok (Some (ip, of_nat (16 * k))) s)
     else Ok None t)"
proof -
  obtain t where "readi h dp False (k_de s) (of_nat (16 * k)) 16 s = Ok 16 t" "calm h P s t"
    "load_bytes (pmem t) (k_de t) 16 = dir_entry (view s) (inodes s dp) k"
    using read_entry [OF assms] by blast
  then show ?thesis using assms(1) calm_kfs [of h P s t]
    by (intro exI [of _ t]) (auto simp: dirlookup_at_def matches_def namecmp_eq dir_ok_def Let_def)
qed

lemma dirlookup_scan_none:
  assumes "dir_ok h P dp s" and "n \<le> unat (i_size (inodes s dp)) div 16" and "\<forall>k<n. \<not> matches (view s) (inodes s dp) name k"
  shows "\<exists>t. calm h P s t \<and> kscan (dirlookup_at h dp name) (map (\<lambda>k. of_nat (16 * k)) [0..<n]) s = Ok None t"
  using assms(2,3)
proof (induction n)
  case 0
  then show ?case using assms(1) calm_refl [of h P 1 s] by (auto simp: dir_ok_def)
next
  case (Suc n)
  then obtain t where t: "calm h P s t" "kscan (dirlookup_at h dp name) (map (\<lambda>k. of_nat (16 * k)) [0..<n]) s = Ok None t"
    by auto
  have e: "inodes t = inodes s" "view t = view s" using calm_kfs [OF t(1)] t(1) by (auto simp: calm_def)
  have "n < unat (i_size (inodes t dp)) div 16" "\<not> matches (view t) (inodes t dp) name n" using Suc.prems e by auto
  then obtain u where "calm h P t u" "dirlookup_at h dp name (of_nat (16 * n)) t = Ok None u"
    using dirlookup_at_entry [OF dir_ok_calm [OF assms(1) t(1)], of n name] by auto
  with t calm_trans [OF t(1)] show ?case by (auto simp: kscan_append)
qed

text \<open>
  C29: \<^verbatim>\<open>dirlookup\<close> in a directory whose blocks are allocated returns the inode named by the first used entry with the given
  name (compared up to 14 characters), referenced through \<^verbatim>\<open>iget\<close>, together with the offset of that entry; without
  such an entry it returns 0.  The lookup itself changes no block, no inode and no lock.
\<close>

theorem dirlookup_finds_first_entry:
  assumes "dir_ok h P dp s"
  shows "(\<exists>k t. k < unat (i_size (inodes s dp)) div 16 \<and> matches (view s) (inodes s dp) name k \<and>
       (\<forall>j<k. \<not> matches (view s) (inodes s dp) name j) \<and> calm h P s t \<and>
       dirlookup h dp name s = kbind (iget h ROOTDEV (ucast (de_inum (dir_entry (view s) (inodes s dp) k))) t)
         (\<lambda>ip s. Ok (Some (ip, of_nat (16 * k))) s)) \<or>
    ((\<forall>k<unat (i_size (inodes s dp)) div 16. \<not> matches (view s) (inodes s dp) name k) \<and>
       (\<exists>t. dirlookup h dp name s = Ok None t \<and> calm h P s t))"
proof -
  let ?n = "unat (i_size (inodes s dp)) div 16" and ?m = "matches (view s) (inodes s dp) name"
  have n: "dir_offs (i_size (inodes s dp)) = map (\<lambda>k. of_nat (16 * k)) [0..<?n]" "i_type (inodes s dp) = T_DIR"
    using assms by (auto simp: dir_ok_def dir_offs_def)
  show ?thesis
  proof (cases "\<exists>k<?n. ?m k")
    case False
    then show ?thesis using dirlookup_scan_none [OF assms order_refl, of name] n by (auto simp: dirlookup_def)
  next
    case True
    then obtain k where k: "k < ?n" "?m k" "\<forall>j<k. \<not> ?m j"
      using least_index_exists [of ?m _ ?n] by (metis order_le_less_trans)
    obtain t where t: "calm h P s t" "kscan (dirlookup_at h dp name) (map (\<lambda>k. of_nat (16 * k)) [0..<k]) s = Ok None t"
      using dirlookup_scan_none [OF assms, of k name] k by auto
    have e: "inodes t = inodes s" "view t = view s" using calm_kfs [OF t(1)] t(1) by (auto simp: calm_def)
    obtain u where u: "calm h P t u" "dirlookup_at h dp name (of_nat (16 * k)) t =
        kbind (iget h ROOTDEV (ucast (de_inum (dir_entry (view s) (inodes s dp) k))) u) (\<lambda>ip s. Ok (Some (ip, of_nat (16 * k))) s)"
      using dirlookup_at_entry [OF dir_ok_calm [OF assms t(1)], of k name] k(1,2) e by auto
    have "dirlookup h dp name s = kbind (iget h ROOTDEV (ucast (de_inum (dir_entry (view s) (inodes s dp) k))) u)
         (\<lambda>ip s. Ok (Some (ip, of_nat (16 * k))) s)"
      unfolding dirlookup_def n upt_split [OF k(1)] using t(2) u(2)
      by (simp add: kscan_append kbind_assoc del: of_nat_mult)
    with k calm_trans [OF t(1) u(1)] show ?thesis by blast
  qed
qed

text \<open>A directory of one block: entry 0 is free, entry 1 is \<^verbatim>\<open>sh\<close> with inode 7.\<close>

definition demo_dir :: block where
  "demo_dir = blk_write 16 (dirent 7 (strncpy [] ''sh'' DIRSIZ)) (\<lambda>_. 0)"

definition demo_dirs :: "nat \<Rightarrow> inode" where
  "demo_dirs i = (demo_inodes i)\<lparr>i_type := T_DIR, i_size := 32, i_ref := (if i = 3 then 1 else 0)\<rparr>"

theorem dirlookup_finds_first_entry_witness:
  "\<exists>ip t. dirlookup 0 3 ''sh'' (set_inodes demo_dirs (fresh_fs (\<lambda>_. demo_dir))) = Ok (Some (ip, 16)) t \<and> i_inum (inodes t ip) = 7"
proof -
  let ?s = "set_inodes demo_dirs (fresh_fs (\<lambda>_. demo_dir))"
  have n: "(3 :: nat) < NINODE" "(0 :: nat) < NINODE" by (simp_all add: NINODE_def)
  note i = set_inodes_simps(6) [of _ demo_dirs "fresh_fs (\<lambda>_. demo_dir)"]
  have w: "view ?s = (\<lambda>_. demo_dir)" "held ?s = {}" by (simp_all add: set_inodes_simps fresh_fs_simps)
  have "room 0 {} 1 ?s" unfolding set_inodes_simps by (rule room_mono [OF fresh_fs_simps(1)]) simp
  moreover have "mapped (view ?s) (inodes ?s 3) b" if "b * BSIZE < unat (i_size (inodes ?s 3))" for b
  proof -
    have "b = 0" using that unfolding i [OF n(1)] by (cases b) (simp_all add: demo_dirs_def BSIZE_def)
    then show ?thesis unfolding i [OF n(1)]
      by (simp add: mapped_def file_block_def demo_dirs_def demo_inodes_def MAXFILE_def NDIRECT_def)
  qed
  ultimately have d: "dir_ok 0 {} 3 ?s"
    unfolding dir_ok_def w(2) i [OF n(1)] by (simp add: demo_dirs_def demo_inodes_def i [OF n(1)])
  have f: "file_block v (demo_dirs 3) 0 = 48" for v by (simp add: file_block_def demo_dirs_def demo_inodes_def NDIRECT_def)
  have l: "length (dirent 7 (strncpy [] ''sh'' DIRSIZ)) = 16" by (simp add: dirent_def strncpy_def DIRSIZ_def)
  have e: "dir_entry (\<lambda>_. demo_dir) (demo_dirs 3) 0 = blk_read (\<lambda>_. 0) 0 16"
    "dir_entry (\<lambda>_. demo_dir) (demo_dirs 3) 1 = dirent 7 (strncpy [] ''sh'' DIRSIZ)"
    using file_bytes_chunk [of 0 16 "\<lambda>_. demo_dir" "demo_dirs 3"] file_bytes_chunk [of 16 16 "\<lambda>_. demo_dir" "demo_dirs 3"]
      blk_read_write_same [of 16 "dirent 7 (strncpy [] ''sh'' DIRSIZ)" "\<lambda>_. 0"] l
      blk_read_write_other [of 16 "dirent 7 (strncpy [] ''sh'' DIRSIZ)" 0 16 "\<lambda>_. 0"]
    by (simp_all add: dir_entry_def f BSIZE_def demo_dir_def)
  have c: "de_inum (blk_read (\<lambda>_. 0) 0 16) = 0" "de_inum (dirent 7 (strncpy [] ''sh'' DIRSIZ)) = 7"
    "de_string ''sh'' = de_string (de_name (dirent 7 (strncpy [] ''sh'' DIRSIZ)))"
    by code_simp+
  have m: "\<not> matches (view ?s) (inodes ?s 3) ''sh'' 0" "matches (view ?s) (inodes ?s 3) ''sh'' 1"
    unfolding w i [OF n(1)] matches_def e using c by auto
  have sz: "unat (i_size (inodes ?s 3)) div 16 = 2" unfolding i [OF n(1)] by (simp add: demo_dirs_def)
  obtain t where t: "calm 0 {} ?s t" "dirlookup 0 3 ''sh'' ?s = kbind (iget 0 ROOTDEV 7 t) (\<lambda>ip s. Ok (Some (ip, 16)) s)"
  proof -
    have "\<exists>k t. k < 2 \<and> matches (view ?s) (inodes ?s 3) ''sh'' k \<and> calm 0 {} ?s t \<and>
       dirlookup 0 3 ''sh'' ?s = kbind (iget 0 ROOTDEV (ucast (de_inum (dir_entry (view ?s) (inodes ?s 3) k))) t)
         (\<lambda>ip s. Ok (Some (ip, of_nat (16 * k))) s)"
      using dirlookup_finds_first_entry [OF d, of "''sh''"] m(2) unfolding sz by (metis one_less_numeral_iff semiring_norm(76))
    then obtain k t where k: "k < 2" "matches (view ?s) (inodes ?s 3) ''sh'' k" "calm 0 {} ?s t"
       "dirlookup 0 3 ''sh'' ?s = kbind (iget 0 ROOTDEV (ucast (de_inum (dir_entry (view ?s) (inodes ?s 3) k))) t)
         (\<lambda>ip s. Ok (Some (ip, of_nat (16 * k))) s)" by blast
    have "k = 1" using k(1,2) m(1) by (cases k) auto
    with k(3,4) show thesis using that [OF k(3)] unfolding w i [OF n(1)] by (simp add: e(2) [unfolded One_nat_def] c(2))
  qed
  have r: "inodes t = inodes ?s" "idle 0 t" using calm_kfs [OF t(1)] t(1) by (auto simp: calm_def)
  have "\<forall>j<NINODE. \<not> referenced t j ROOTDEV 7" by (auto simp: referenced_def r i demo_dirs_def demo_inodes_def)
  moreover have "find (\<lambda>j. i_ref (inodes t j) = 0) [0..<NINODE] = Some 0"
    unfolding r using n(2) i [OF n(2)] by (simp add: upt_rec demo_dirs_def)
  ultimately show ?thesis using iget_miss [OF r(2), of ROOTDEV 7] t(2) by simp
qed

end
