(* ===== verification/Console.thy ===== *)
theory Console
  imports Dir
begin

text \<open>
  The console, \<^verbatim>\<open>kernel/console.c\<close>, over the UART driver, \<^verbatim>\<open>kernel/uart.c\<close>: line editing in the input interrupt,
  \<^verbatim>\<open>consoleread\<close>, \<^verbatim>\<open>consolewrite\<close>.  The UART is seen through its registers: \<open>uart_out\<close> is what has been written to the
  transmit register, \<open>uart_in\<close> what is waiting to be read from the receive register, \<open>uart_idle\<close> the transmitter's
  status bit.  The main result is that the console implements an abstract line discipline.
\<close>

section \<open>State\<close>

definition INPUT_BUF_SIZE :: u32 where "INPUT_BUF_SIZE = 128"
definition BACKSPACE :: u32 where "BACKSPACE = 0x100"

record cons =
  c_buf :: "nat \<Rightarrow> char"
  c_r :: u32
  c_w :: u32
  c_e :: u32

record kcons = kfs +
  cons :: cons
  tx_busy :: bool
  uart_in :: string
  uart_idle :: bool

definition cons_at :: "(cons \<Rightarrow> cons) \<Rightarrow> 'a kcons_scheme \<Rightarrow> 'a kcons_scheme" where
  "cons_at f s = s\<lparr>cons := f (cons s)\<rparr>"

definition ctrl :: "char \<Rightarrow> char" where
  "ctrl x = char_of (of_char x - of_char (CHR ''@'') :: nat)"

section \<open>The UART\<close>

text \<open>\<^verbatim>\<open>uartwrite\<close> from a character on, with \<^verbatim>\<open>tx_lock\<close> held; it sleeps while the UART is busy and goes on from there.\<close>

primrec uartwrite_loop :: "nat \<Rightarrow> string \<Rightarrow> 'a kcons_scheme \<Rightarrow> (unit, 'a kcons_scheme) res" where
  "uartwrite_loop h [] s = release h LUartTx s"
| "uartwrite_loop h (c # cs) s =
     (if tx_busy s then sleep h ChUartTx LUartTx s
      else uartwrite_loop h cs (s\<lparr>uart_out := uart_out s @ [c], tx_busy := True\<rparr>))"

definition uartwrite :: "nat \<Rightarrow> string \<Rightarrow> 'a kcons_scheme \<Rightarrow> (unit, 'a kcons_scheme) res" where
  "uartwrite h buf s = kbind (acquire h LUartTx s) (\<lambda>_ s. uartwrite_loop h buf s)"

definition uartwrite_resume :: "nat \<Rightarrow> nat \<Rightarrow> string \<Rightarrow> 'a kcons_scheme \<Rightarrow> (unit, 'a kcons_scheme) res" where
  "uartwrite_resume h p rest s = kbind (sleep_resume h p LUartTx s) (\<lambda>_ s. uartwrite_loop h rest s)"

definition uartgetc :: "'a kcons_scheme \<Rightarrow> char option \<times> 'a kcons_scheme" where
  "uartgetc s = (case uart_in s of [] \<Rightarrow> (None, s) | c # cs \<Rightarrow> (Some c, s\<lparr>uart_in := cs\<rparr>))"

section \<open>The console\<close>

text \<open>The kill-line loop; \<open>n\<close> bounds its turns, \<open>unat (e - w)\<close> are enough.\<close>

primrec kill_line :: "nat \<Rightarrow> nat \<Rightarrow> 'a kcons_scheme \<Rightarrow> (unit, 'a kcons_scheme) res" where
  "kill_line h 0 s = Ok () s"
| "kill_line h (Suc n) s =
     (if c_e (cons s) \<noteq> c_w (cons s) \<and> c_buf (cons s) (unat ((c_e (cons s) - 1) mod INPUT_BUF_SIZE)) \<noteq> CHR 0x0A
      then kbind (putstr h (consputc BACKSPACE) (cons_at (\<lambda>c. c\<lparr>c_e := c_e c - 1\<rparr>) s)) (\<lambda>_ s. kill_line h n s)
      else Ok () s)"

definition consoleintr :: "nat \<Rightarrow> char \<Rightarrow> 'a kcons_scheme \<Rightarrow> (unit, 'a kcons_scheme) res" where
  "consoleintr h c s =
     kbind (acquire h LCons s) (\<lambda>_ s.
     kbind
       (if c = ctrl (CHR ''P'') then procdump h s
        else if c = ctrl (CHR ''U'') then kill_line h (unat (c_e (cons s) - c_w (cons s))) s
        else if c = ctrl (CHR ''H'') \<or> c = CHR 0x7F then
          (if c_e (cons s) \<noteq> c_w (cons s)
           then putstr h (consputc BACKSPACE) (cons_at (\<lambda>c. c\<lparr>c_e := c_e c - 1\<rparr>) s)
           else Ok () s)
        else if c \<noteq> NUL \<and> c_e (cons s) - c_r (cons s) < INPUT_BUF_SIZE then
          let c = (if c = CHR 0x0D then CHR 0x0A else c)
          in kbind (putstr h (consputc (of_char c)) s) (\<lambda>_ s.
             let s = cons_at (\<lambda>k. k\<lparr>c_buf := (c_buf k)(unat (c_e k mod INPUT_BUF_SIZE) := c), c_e := c_e k + 1\<rparr>) s
             in if c = CHR 0x0A \<or> c = ctrl (CHR ''D'') \<or> c_e (cons s) - c_r (cons s) = INPUT_BUF_SIZE
                then wakeup h ChConsR (cons_at (\<lambda>k. k\<lparr>c_w := c_e k\<rparr>) s)
                else Ok () s)
        else Ok () s) (\<lambda>_ s.
     release h LCons s))"

text \<open>The end of \<^verbatim>\<open>uartintr\<close>: the input waiting in the UART, at most \<open>n\<close> characters.\<close>

primrec uartintr_loop :: "nat \<Rightarrow> nat \<Rightarrow> 'a kcons_scheme \<Rightarrow> (unit, 'a kcons_scheme) res" where
  "uartintr_loop h 0 s = Ok () s"
| "uartintr_loop h (Suc n) s =
     (case uartgetc s of
        (None, s) \<Rightarrow> Ok () s
      | (Some c, s) \<Rightarrow> kbind (consoleintr h c s) (\<lambda>_ s. uartintr_loop h n s))"

definition uartintr :: "nat \<Rightarrow> 'a kcons_scheme \<Rightarrow> (unit, 'a kcons_scheme) res" where
  "uartintr h s =
     kbind (acquire h LUartTx s) (\<lambda>_ s.
     kbind (if uart_idle s then wakeup h ChUartTx (s\<lparr>tx_busy := False\<rparr>) else Ok () s) (\<lambda>_ s.
     kbind (release h LUartTx s) (\<lambda>_ s. uartintr_loop h (length (uart_in s)) s)))"

definition consoleread_end :: "nat \<Rightarrow> nat \<Rightarrow> nat \<Rightarrow> 'a kcons_scheme \<Rightarrow> (int, 'a kcons_scheme) res" where
  "consoleread_end h target n s = kbind (release h LCons s) (\<lambda>_ s. Ok (int target - int n) s)"

text \<open>\<^verbatim>\<open>consoleread\<close> from its loop on, with \<open>n\<close> bytes to go and \<^verbatim>\<open>cons.lock\<close> held.\<close>

primrec consoleread_loop ::
  "nat \<Rightarrow> bool \<Rightarrow> nat \<Rightarrow> nat \<Rightarrow> u64 \<Rightarrow> 'a kcons_scheme \<Rightarrow> (int, 'a kcons_scheme) res" where
  "consoleread_loop h user target 0 dst s = consoleread_end h target 0 s"
| "consoleread_loop h user target (Suc n) dst s =
     (if c_r (cons s) = c_w (cons s) then
        kbind (curproc h s) (\<lambda>p s.
        kbind (killed h p s) (\<lambda>k s.
        if k \<noteq> 0 then kbind (release h LCons s) (\<lambda>_ s. Ok (-1) s)
        else kbind (sleep h ChConsR LCons s) (\<lambda>_ s. Ok 0 s)))
      else
        let c = c_buf (cons s) (unat (c_r (cons s) mod INPUT_BUF_SIZE));
            s = cons_at (\<lambda>k. k\<lparr>c_r := c_r k + 1\<rparr>) s
        in if c = ctrl (CHR ''D'') then
             consoleread_end h target (Suc n) (if Suc n < target then cons_at (\<lambda>k. k\<lparr>c_r := c_r k - 1\<rparr>) s else s)
           else
             kbind (either_copyout h user dst [of_char c] s) (\<lambda>r s.
             if r = -1 then consoleread_end h target (Suc n) s
             else if c = CHR 0x0A then consoleread_end h target n s
             else consoleread_loop h user target n (dst + 1) s))"

definition consoleread :: "nat \<Rightarrow> bool \<Rightarrow> u64 \<Rightarrow> u32 \<Rightarrow> 'a kcons_scheme \<Rightarrow> (int, 'a kcons_scheme) res" where
  "consoleread h user dst n s =
     kbind (acquire h LCons s) (\<lambda>_ s. consoleread_loop h user (nat (sint n)) (nat (sint n)) dst s)"

definition consoleread_resume ::
  "nat \<Rightarrow> nat \<Rightarrow> bool \<Rightarrow> nat \<Rightarrow> nat \<Rightarrow> u64 \<Rightarrow> 'a kcons_scheme \<Rightarrow> (int, 'a kcons_scheme) res" where
  "consoleread_resume h p user target n dst s =
     kbind (sleep_resume h p LCons s) (\<lambda>_ s. consoleread_loop h user target n dst s)"

text \<open>\<^verbatim>\<open>consolewrite\<close>: batches of 32 bytes; \<open>i\<close> bytes are out, \<open>n\<close> to go.\<close>

function consolewrite_loop :: "nat \<Rightarrow> bool \<Rightarrow> u64 \<Rightarrow> nat \<Rightarrow> nat \<Rightarrow> 'a kcons_scheme \<Rightarrow> (int, 'a kcons_scheme) res" where
  "consolewrite_loop h user src i n s =
     (if n = 0 then Ok (int i) s
      else
        let nn = min 32 n
        in kbind (either_copyin h user (src + of_nat i) nn s) (\<lambda>r s.
           case r of
             None \<Rightarrow> Ok (int i) s
           | Some bs \<Rightarrow>
               kbind (uartwrite h (map (\<lambda>b. char_of (unat b)) bs) s) (\<lambda>_ s.
               consolewrite_loop h user src (i + nn) (n - nn) s)))"
  by pat_completeness auto
termination
  by (relation "measure (\<lambda>(h, user, src, i, n, s). n)") auto

declare consolewrite_loop.simps [simp del]

definition consolewrite :: "nat \<Rightarrow> bool \<Rightarrow> u64 \<Rightarrow> u32 \<Rightarrow> 'a kcons_scheme \<Rightarrow> (int, 'a kcons_scheme) res" where
  "consolewrite h user src n s = consolewrite_loop h user src 0 (nat (sint n)) s"

text \<open>After a sleep in \<^verbatim>\<open>uartwrite\<close> with \<open>rest\<close> of the batch that ends at \<open>i\<close> to send, and \<open>n\<close> bytes beyond it.\<close>

definition consolewrite_resume ::
  "nat \<Rightarrow> nat \<Rightarrow> bool \<Rightarrow> u64 \<Rightarrow> string \<Rightarrow> nat \<Rightarrow> nat \<Rightarrow> 'a kcons_scheme \<Rightarrow> (int, 'a kcons_scheme) res" where
  "consolewrite_resume h p user src rest i n s =
     kbind (uartwrite_resume h p rest s) (\<lambda>_ s. consolewrite_loop h user src i n s)"

section \<open>The line discipline\<close>

text \<open>The abstract console: the input that is ready to be read, and the line being edited.\<close>

interpretation cons_ring: ring INPUT_BUF_SIZE
  by unfold_locales (simp_all add: INPUT_BUF_SIZE_def)

definition line_state :: "cons \<Rightarrow> string \<times> string" where
  "line_state k = (ring_contents INPUT_BUF_SIZE (c_buf k) (c_r k) (c_w k), ring_contents INPUT_BUF_SIZE (c_buf k) (c_w k) (c_e k))"

definition cons_wf :: "cons \<Rightarrow> bool" where
  "cons_wf k \<longleftrightarrow> unat (c_w k - c_r k) + unat (c_e k - c_w k) \<le> 128 \<and>
     CHR 0x0A \<notin> set (snd (line_state k))"

definition line_step :: "char \<Rightarrow> string \<times> string \<Rightarrow> string \<times> string" where
  "line_step c ql =
     (case ql of (q, l) \<Rightarrow>
        if c = CHR 0x15 then (q, [])
        else if c = CHR 0x08 \<or> c = CHR 0x7F then (q, butlast l)
        else if c \<noteq> NUL \<and> length q + length l < 128 then
          let c = (if c = CHR 0x0D then CHR 0x0A else c)
          in if c = CHR 0x0A \<or> c = CHR 0x04 \<or> length q + length l + 1 = 128 then (q @ l @ [c], []) else (q, l @ [c])
        else (q, l))"

lemma ctrl_values:
  "ctrl (CHR ''P'') = CHR 0x10" "ctrl (CHR ''U'') = CHR 0x15" "ctrl (CHR ''H'') = CHR 0x08" "ctrl (CHR ''D'') = CHR 0x04"
  by code_simp+

text \<open>The three ways the buffer changes.\<close>

lemma cons_erase:
  assumes "cons_wf k" and "c_e k \<noteq> c_w k"
  shows "line_state (k\<lparr>c_e := c_e k - 1\<rparr>) = (fst (line_state k), butlast (snd (line_state k)))"
    and "cons_wf (k\<lparr>c_e := c_e k - 1\<rparr>)"
    and "c_buf k (unat ((c_e k - 1) mod INPUT_BUF_SIZE)) = last (snd (line_state k))"
    and "unat (c_e k - c_w k) = Suc (unat (c_e k - 1 - c_w k))"
proof -
  note u = cons_ring.unput [OF assms(2), of "c_buf k"]
  show l: "line_state (k\<lparr>c_e := c_e k - 1\<rparr>) = (fst (line_state k), butlast (snd (line_state k)))"
    using u by (simp add: line_state_def)
  show "c_buf k (unat ((c_e k - 1) mod INPUT_BUF_SIZE)) = last (snd (line_state k))"
    using u by (simp add: line_state_def)
  show n: "unat (c_e k - c_w k) = Suc (unat (c_e k - 1 - c_w k))"
    using arg_cong [OF u, of length] by (simp add: cons_ring.size_le)
  have "CHR 0x0A \<notin> set (butlast (snd (line_state k)))" using assms(1) in_set_butlastD by (fastforce simp: cons_wf_def)
  then show "cons_wf (k\<lparr>c_e := c_e k - 1\<rparr>)" using assms(1) n unfolding cons_wf_def l by simp
qed

lemma cons_length:
  assumes "cons_wf k"
  shows "unat (c_e k - c_r k) = length (fst (line_state k)) + length (snd (line_state k))"
proof -
  have "unat (c_w k - c_r k) + unat (c_e k - c_w k) < 2 ^ 32" using assms by (simp add: cons_wf_def)
  from cons_ring.contents_split(2) [OF this] show ?thesis by (simp add: line_state_def cons_ring.size_le)
qed

lemma cons_add:
  assumes "cons_wf k" and "c_e k - c_r k < INPUT_BUF_SIZE"
    and "k' = k\<lparr>c_buf := (c_buf k)(unat (c_e k mod INPUT_BUF_SIZE) := c), c_e := c_e k + 1\<rparr>"
  shows "line_state k' = (fst (line_state k), snd (line_state k) @ [c])"
    and "unat (c_w k' - c_r k') + unat (c_e k' - c_w k') = unat (c_e k - c_r k) + 1"
    and "unat (c_e k' - c_r k') = unat (c_e k - c_r k) + 1"
proof -
  let ?N = "INPUT_BUF_SIZE" and ?b = "(c_buf k)(unat (c_e k mod INPUT_BUF_SIZE) := c)"
  have N: "unat ?N = 128" by (simp add: INPUT_BUF_SIZE_def)
  have sum: "unat (c_w k - c_r k) + unat (c_e k - c_w k) < 2 ^ 32" using assms(1) by (simp add: cons_wf_def)
  note s = cons_ring.contents_split [OF sum]
  have lt: "unat (c_e k - c_r k) < 128" using assms(2) N by (simp add: word_less_nat_alt)
  have lt2: "unat (c_e k - c_w k) < 128" using lt s(2) by simp
  have p: "ring_contents ?N ?b (c_r k) (c_e k + 1) = ring_contents ?N (c_buf k) (c_r k) (c_e k) @ [c]"
    "ring_contents ?N ?b (c_w k) (c_e k + 1) = ring_contents ?N (c_buf k) (c_w k) (c_e k) @ [c]"
    using cons_ring.put [of "c_e k" _ "c_buf k" c] lt lt2 N by auto
  have n: "unat (c_e k + 1 - c_r k) = unat (c_e k - c_r k) + 1" "unat (c_e k + 1 - c_w k) = unat (c_e k - c_w k) + 1"
    using arg_cong [OF p(1), of length] arg_cong [OF p(2), of length] by (simp_all add: cons_ring.size_le)
  have "unat (c_w k - c_r k) + unat (c_e k + 1 - c_w k) < 2 ^ 32" using n(2) lt s(2) by simp
  from cons_ring.contents_split(1) [OF this, of ?b]
  have "ring_contents ?N ?b (c_r k) (c_w k) @ ring_contents ?N ?b (c_w k) (c_e k + 1) =
      ring_contents ?N (c_buf k) (c_r k) (c_w k) @ ring_contents ?N (c_buf k) (c_w k) (c_e k) @ [c]"
    using p(1) s(1) [of "c_buf k"] by simp
  then have "ring_contents ?N ?b (c_r k) (c_w k) = ring_contents ?N (c_buf k) (c_r k) (c_w k)" using p(2) by simp
  then show "line_state k' = (fst (line_state k), snd (line_state k) @ [c])" using p(2) by (simp add: line_state_def assms(3))
  show "unat (c_w k' - c_r k') + unat (c_e k' - c_w k') = unat (c_e k - c_r k) + 1" using n(2) s(2) by (simp add: assms(3))
  show "unat (c_e k' - c_r k') = unat (c_e k - c_r k) + 1" using n(1) by (simp add: assms(3))
qed

lemma cons_commit:
  assumes "unat (c_w k - c_r k) + unat (c_e k - c_w k) \<le> 128"
  shows "line_state (k\<lparr>c_w := c_e k\<rparr>) = (fst (line_state k) @ snd (line_state k), [])" and "cons_wf (k\<lparr>c_w := c_e k\<rparr>)"
proof -
  have "unat (c_w k - c_r k) + unat (c_e k - c_w k) < 2 ^ 32" using assms by simp
  note s = cons_ring.contents_split [OF this]
  show l: "line_state (k\<lparr>c_w := c_e k\<rparr>) = (fst (line_state k) @ snd (line_state k), [])"
    using s(1) [of "c_buf k"] by (simp add: line_state_def cons_ring.empty_iff)
  show "cons_wf (k\<lparr>c_w := c_e k\<rparr>)" using s(2) assms unfolding cons_wf_def l by simp
qed

section \<open>The interrupt handler implements it\<close>

lemma cons_at_simps [simp]:
  "idle h (cons_at f s) = idle h s" "cons_at f (entered h l s) = entered h l (cons_at f s)"
  "cons (entered h l s) = cons s" "cons (cons_at f s) = f (cons s)" "uart_out (cons_at f s) = uart_out s"
  "procs (cons_at f s) = procs s" "cpus (cons_at f s) = cpus s" "pmem (cons_at f s) = pmem s"
  by (auto simp: cons_at_def idle_def lock_free_def entered_def push_off_def Let_def intr_off_def intr_get_def)

text \<open>\<open>emitted out s\<close>: \<open>out\<close> has been sent to the UART.\<close>

definition emitted :: "string \<Rightarrow> 'a kuart_scheme \<Rightarrow> 'a kuart_scheme" where
  "emitted out s = s\<lparr>uart_out := uart_out s @ out\<rparr>"

lemma emitted_simps [simp]:
  "idle h (emitted out s) = idle h s" "cons (emitted out s') = cons s'" "uart_out (emitted out s'') = uart_out s'' @ out"
  "pmem (emitted out s') = pmem s'" "procs (emitted out s') = procs s'" "cpus (emitted out s') = cpus s'"
  by (simp_all add: emitted_def idle_def lock_free_def)

lemma echo:
  assumes "idle h s"
  shows "putstr h out (entered h l s) = Ok () (entered h l (emitted out s))"
proof -
  have "cpu_wf h (entered h l s)" "0 < noff h (entered h l s)" using idle_wf [OF assms] by (simp_all add: cpu_wf_def)
  then show ?thesis using putstr_appends [of h "entered h l s" out] by (simp add: emitted_def)
qed

lemma wakeup_entered:
  assumes "idle h s" and "\<forall>i. l \<noteq> LProc i"
  shows "wakeup h ch (entered h l s) =
      Ok () (entered h l (proc_all (\<lambda>i. if c_proc (cpus s h) = Some i then id else woken ch) s))"
    and "idle h (proc_all (\<lambda>i. if c_proc (cpus s h) = Some i then id else woken ch) s)"
proof -
  have "proc_locks_free (entered h l s)" using assms by (auto simp: proc_locks_free_def idle_def)
  then show "wakeup h ch (entered h l s) =
      Ok () (entered h l (proc_all (\<lambda>i. if c_proc (cpus s h) = Some i then id else woken ch) s))"
    using wakeup_ok [of h "entered h l s" ch] idle_wf [OF assms(1)] by simp
  show "idle h (proc_all (\<lambda>i. if c_proc (cpus s h) = Some i then id else woken ch) s)"
    using assms(1) by (auto simp: idle_def proc_all_def woken_def lock_free_def)
qed

text \<open>What a handler leaves behind: console contents \<open>k\<close> and \<open>out\<close> echoed, with the lock still held.\<close>

definition typed :: "nat \<Rightarrow> 'a kcons_scheme \<Rightarrow> cons \<Rightarrow> string \<Rightarrow> 'a kcons_scheme \<Rightarrow> bool" where
  "typed h s k out t \<longleftrightarrow> idle h t \<and> cons t = k \<and> uart_out t = uart_out s @ out \<and> pmem t = pmem s"

abbreviation rubout :: string where
  "rubout \<equiv> consputc BACKSPACE"

lemma kill_line_clears:
  assumes "idle h s" and "cons_wf (cons s)" and "n = unat (c_e (cons s) - c_w (cons s))"
  shows "\<exists>t k. kill_line h n (entered h LCons s) = Ok () (entered h LCons t) \<and>
    typed h s k (concat (replicate n rubout)) t \<and> cons_wf k \<and> line_state k = (fst (line_state (cons s)), [])"
  using assms
proof (induction n arbitrary: s)
  case 0
  then have "c_e (cons s) = c_w (cons s)" by (simp add: unat_eq_0)
  then have "line_state (cons s) = (fst (line_state (cons s)), [])" by (simp add: line_state_def cons_ring.empty_iff)
  with 0 show ?case by (auto simp: typed_def)
next
  case (Suc n)
  let ?k = "(cons s)\<lparr>c_e := c_e (cons s) - 1\<rparr>"
  let ?s = "cons_at (\<lambda>c. c\<lparr>c_e := c_e c - 1\<rparr>) s"
  let ?u = "emitted rubout ?s"
  have ne: "c_e (cons s) \<noteq> c_w (cons s)" using Suc.prems(3) by auto
  note e = cons_erase [OF Suc.prems(2) ne]
  have "snd (line_state (cons s)) \<noteq> []" using ne by (simp add: line_state_def cons_ring.empty_iff)
  then have nl: "last (snd (line_state (cons s))) \<noteq> CHR 0x0A"
    using Suc.prems(2) last_in_set unfolding cons_wf_def by metis
  have u: "idle h ?u" "cons ?u = ?k" using Suc.prems(1) by simp_all
  then obtain t k where "kill_line h n (entered h LCons ?u) = Ok () (entered h LCons t)" "typed h ?u k (concat (replicate n rubout)) t"
    "cons_wf k" "line_state k = (fst (line_state ?k), [])"
    using Suc.IH [of ?u] e(2,4) Suc.prems(3) by auto
  then show ?case using ne nl e(1,3) echo [of h ?s rubout LCons] Suc.prems(1)
    by (intro exI [of _ t] exI [of _ k]) (simp add: typed_def)
qed

text \<open>An ordinary key, with room in the buffer.\<close>

lemma consoleintr_key:
  assumes "idle h s" and "cons_wf (cons s)" and "c \<noteq> CHR 0x10" and "c \<noteq> CHR 0x15" and "c \<noteq> CHR 0x08" and "c \<noteq> CHR 0x7F"
    and "length q + length l < 128" and "c \<noteq> NUL" and "line_state (cons s) = (q, l)"
  shows "\<exists>t. consoleintr h c s = Ok () t \<and> idle h t \<and> cons_wf (cons t) \<and>
    line_state (cons t) = line_step c (line_state (cons s))"
proof -
  define d where "d = (if c = CHR 0x0D then CHR 0x0A else c)"
  let ?s = "emitted (consputc (of_char d)) s"
  let ?add = "\<lambda>k. k\<lparr>c_buf := (c_buf k)(unat (c_e k mod INPUT_BUF_SIZE) := d), c_e := c_e k + 1\<rparr>"
  let ?t = "cons_at ?add ?s"
  have lt: "c_e (cons s) - c_r (cons s) < INPUT_BUF_SIZE" using assms(7) cons_length [OF assms(2)] assms(9) by (simp add: word_less_nat_alt INPUT_BUF_SIZE_def)
  note a = cons_add [OF assms(2) lt refl, of d]
  let ?done = "d = CHR 0x0A \<or> d = CHR 0x04 \<or> length q + length l + 1 = 128"
  have full: "c_e (cons ?t) - c_r (cons ?t) = INPUT_BUF_SIZE \<longleftrightarrow> length q + length l + 1 = 128"
    using a(3) cons_length [OF assms(2)] assms(9) by (simp add: word_unat_eq_iff INPUT_BUF_SIZE_def)
  have run: "consoleintr h c s = kbind (if ?done then wakeup h ChConsR (entered h LCons (cons_at (\<lambda>k. k\<lparr>c_w := c_e k\<rparr>) ?t))
      else Ok () (entered h LCons ?t)) (\<lambda>_ s. release h LCons s)"
    using assms(3-8) assms(1) lt full echo [OF assms(1)]
    unfolding consoleintr_def ctrl_values d_def [symmetric] Let_def by (simp add: d_def [symmetric])
  have step: "line_step c (q, l) = (if ?done then (q @ l @ [d], []) else (q, l @ [d]))"
    using assms(4-8) by (simp add: line_step_def d_def Let_def)
  show ?thesis
  proof (cases ?done)
    case True
    let ?u = "cons_at (\<lambda>k. k\<lparr>c_w := c_e k\<rparr>) ?t"
    let ?v = "proc_all (\<lambda>i. if c_proc (cpus ?u h) = Some i then id else woken ChConsR) ?u"
    have u: "idle h ?u" using assms(1) by simp
    have w: "wakeup h ChConsR (entered h LCons ?u) = Ok () (entered h LCons ?v)" "idle h ?v"
      using wakeup_entered [OF u] by blast+
    have "consoleintr h c s = Ok () ?v"
      unfolding run if_P [OF True] w kbind.simps by (rule idle_release [OF w(2)])
    moreover have "cons ?v = (?add (cons s))\<lparr>c_w := c_e (?add (cons s))\<rparr>" by (simp add: proc_all_def)
    ultimately show ?thesis
      using w(2) cons_commit [of "?add (cons s)"] a(1,2) lt assms(9) step True
      by (simp add: word_less_nat_alt INPUT_BUF_SIZE_def)
  next
    case False
    then have "consoleintr h c s = Ok () ?t" using run assms(1) by simp
    moreover have "cons_wf (cons ?t)"
      using a(1,2) lt assms(9) assms(2) False by (auto simp: cons_wf_def word_less_nat_alt INPUT_BUF_SIZE_def)
    ultimately show ?thesis using a(1) assms(9) step False assms(1) by simp
  qed
qed

text \<open>
  C26: the console is a line discipline.  The input interrupt for any key but control-P changes the pair (input ready
  to be read, line being edited) as \<open>line_step\<close> says: control-U discards the line, backspace or delete its last
  character, carriage return counts as newline, a newline or control-D makes the line available to readers, and so
  does filling the 128-byte buffer; a key typed into a full buffer is ignored.  The counters wrap without effect,
  the ring never overflows, and the lock is free again afterwards.
\<close>

theorem consoleintr_line_discipline:
  assumes "idle h s" and "cons_wf (cons s)" and "c \<noteq> CHR 0x10"
  shows "\<exists>t. consoleintr h c s = Ok () t \<and> idle h t \<and> cons_wf (cons t) \<and>
    line_state (cons t) = line_step c (line_state (cons s))"
proof -
  obtain q l where ql: "line_state (cons s) = (q, l)" by (cases "line_state (cons s)")
  have e: "c_e (cons s) = c_w (cons s) \<longleftrightarrow> l = []" using ql by (auto simp: line_state_def cons_ring.empty_iff)
  consider "c = CHR 0x15" | "c = CHR 0x08 \<or> c = CHR 0x7F" | "c \<noteq> CHR 0x15" "c \<noteq> CHR 0x08" "c \<noteq> CHR 0x7F" by blast
  then show ?thesis
  proof cases
    case 1
    obtain t k where "kill_line h (unat (c_e (cons s) - c_w (cons s))) (entered h LCons s) = Ok () (entered h LCons t)"
      "typed h s k (concat (replicate (unat (c_e (cons s) - c_w (cons s))) rubout)) t" "cons_wf k" "line_state k = (q, [])"
      using kill_line_clears [OF assms(1,2) refl] ql by auto
    then show ?thesis using 1 assms(1) ql by (auto simp: consoleintr_def ctrl_values typed_def line_step_def)
  next
    case 2
    then have c: "c \<noteq> CHR 0x15" by auto
    show ?thesis
    proof (cases "l = []")
      case True
      then show ?thesis using 2 c assms e ql by (auto simp: consoleintr_def ctrl_values line_step_def)
    next
      case False
      let ?s = "cons_at (\<lambda>c. c\<lparr>c_e := c_e c - 1\<rparr>) s"
      have ne: "c_e (cons s) \<noteq> c_w (cons s)" using False e by simp
      have "putstr h rubout (entered h LCons ?s) = Ok () (entered h LCons (emitted rubout ?s))"
        by (rule echo) (simp add: assms(1))
      moreover have "consoleintr h c s = kbind (putstr h rubout (entered h LCons ?s)) (\<lambda>_ s. release h LCons s)"
        using 2 c assms ne by (auto simp: consoleintr_def ctrl_values)
      ultimately show ?thesis using cons_erase [OF assms(2) ne] assms(1) 2 c ql
        by (intro exI [of _ "emitted rubout ?s"]) (auto simp: line_step_def)
    qed
  next
    case 3
    have room: "c_e (cons s) - c_r (cons s) < INPUT_BUF_SIZE \<longleftrightarrow> length q + length l < 128"
      using cons_length [OF assms(2)] ql by (simp add: word_less_nat_alt INPUT_BUF_SIZE_def)
    show ?thesis
    proof (cases "c \<noteq> NUL \<and> length q + length l < 128")
      case False
      then show ?thesis using 3 assms room ql by (auto simp: consoleintr_def ctrl_values line_step_def)
    next
      case True
      then show ?thesis using consoleintr_key [OF assms 3 _ _ ql] by blast
    qed
  qed
qed

definition fresh_cons :: "string \<Rightarrow> kcons" where
  "fresh_cons inp = kfs.extend (fresh_fs (\<lambda>_ _. 0))
     \<lparr>cons = \<lparr>c_buf = (\<lambda>i. if i < length inp then inp ! i else NUL), c_r = 0, c_w = of_nat (length inp), c_e = of_nat (length inp)\<rparr>,
      tx_busy = False, uart_in = [], uart_idle = True\<rparr>"

lemma fresh_cons_idle: "idle 0 (fresh_cons inp)"
proof -
  have f: "cpus (fresh_cons inp) = cpus (fresh_fs (\<lambda>_ _. 0))" "sie (fresh_cons inp) = sie (fresh_fs (\<lambda>_ _. 0))"
    "locks (fresh_cons inp) = locks (fresh_fs (\<lambda>_ _. 0))" "procs (fresh_cons inp) = procs (fresh_fs (\<lambda>_ _. 0))"
    by (simp_all add: fresh_cons_def kfs.defs)
  show ?thesis using room_idle [OF fresh_fs_simps(1)] by (simp add: idle_def lock_free_def f)
qed

lemma fresh_cons_line:
  assumes "length inp \<le> 128"
  shows "line_state (cons (fresh_cons inp)) = (inp, [])" and "cons_wf (cons (fresh_cons inp))"
proof -
  have n: "unat (of_nat (length inp) :: u32) = length inp" using assms by (intro unat_of_nat32) simp
  have i: "unat ((of_nat k :: u32) mod INPUT_BUF_SIZE) = k" if "k < 128" for k
    using that unat_of_nat32 [of k] by (simp add: unat_mod INPUT_BUF_SIZE_def)
  have "ring_contents INPUT_BUF_SIZE (\<lambda>i. if i < length inp then inp ! i else NUL) 0 (of_nat (length inp)) = inp"
    using assms i by (intro nth_equalityI) (simp_all add: ring_contents_def n)
  then show l: "line_state (cons (fresh_cons inp)) = (inp, [])"
    by (simp add: line_state_def fresh_cons_def kfs.defs cons_ring.empty_iff)
  show "cons_wf (cons (fresh_cons inp))" unfolding cons_wf_def l using assms n by (simp add: fresh_cons_def kfs.defs)
qed

theorem consoleintr_line_discipline_witness:
  "\<exists>t. consoleintr 0 (CHR 0x0D) (fresh_cons ''ls'') = Ok () t \<and> line_state (cons t) = (''ls'' @ [CHR 0x0A], [])"
  using consoleintr_line_discipline [OF fresh_cons_idle fresh_cons_line(2), of "''ls''" "CHR 0x0D"]
  by (auto simp: fresh_cons_line line_step_def)

end
