(* ===== verification/File.thy ===== *)
theory File
  imports Console
begin

text \<open>
  Open files, \<^verbatim>\<open>kernel/file.c\<close>, with \<^verbatim>\<open>pipealloc\<close> of \<^verbatim>\<open>kernel/pipe.c\<close> and \<^verbatim>\<open>consoleinit\<close> of \<^verbatim>\<open>kernel/console.c\<close>, which fills the
  device switch.  A pointer to a \<^verbatim>\<open>struct file\<close> is its index in \<^verbatim>\<open>ftable\<close>; the file table counts references, and the
  last close releases the pipe end or the inode.
\<close>

section \<open>State\<close>

text \<open>\<^verbatim>\<open>struct file\<close>.\<close>

datatype fdtype = FD_NONE | FD_PIPE | FD_INODE | FD_DEVICE

record openfile =
  f_type :: fdtype
  f_ref :: int
  f_readable :: bool
  f_writable :: bool
  f_pipe :: u64
  f_ip :: "nat option"
  f_off :: u32
  f_major :: u16

text \<open>The functions a slot of \<^verbatim>\<open>devsw\<close> may point to; the console's are the only ones of the kernel.\<close>

datatype devfn = Dconsole

record devsw =
  dev_read :: "devfn option"
  dev_write :: "devfn option"

text \<open>\<open>k_pad\<close>: what happens to be in the four padding bytes of the local \<^verbatim>\<open>struct stat\<close> of \<^verbatim>\<open>filestat\<close>.\<close>

record kfile = kcons +
  files :: "nat \<Rightarrow> openfile"
  devsw :: "nat \<Rightarrow> devsw"
  k_pad :: "u8 list"

definition CONSOLE :: nat where "CONSOLE = 1"

definition file_at :: "nat \<Rightarrow> (openfile \<Rightarrow> openfile) \<Rightarrow> 'a kfile_scheme \<Rightarrow> 'a kfile_scheme" where
  "file_at f g s = s\<lparr>files := (files s)(f := g (files s f))\<rparr>"

section \<open>Operations\<close>

definition consoleinit :: "'a kfile_scheme \<Rightarrow> 'a kfile_scheme" where
  "consoleinit s =
     (let s = initlock LUartTx ''uart'' (initlock LCons ''cons'' s)
      in s\<lparr>devsw := (devsw s)(CONSOLE := \<lparr>dev_read = Some Dconsole, dev_write = Some Dconsole\<rparr>)\<rparr>)"

definition fileinit :: "'a kfile_scheme \<Rightarrow> 'a kfile_scheme" where
  "fileinit s = initlock LFtable ''ftable'' s"

definition filealloc :: "nat \<Rightarrow> 'a kfile_scheme \<Rightarrow> (nat option, 'a kfile_scheme) res" where
  "filealloc h s =
     kbind (acquire h LFtable s) (\<lambda>_ s.
     case find (\<lambda>f. f_ref (files s f) = 0) [0..<NFILE] of
       Some f \<Rightarrow> kbind (release h LFtable (file_at f (\<lambda>x. x\<lparr>f_ref := 1\<rparr>) s)) (\<lambda>_ s. Ok (Some f) s)
     | None \<Rightarrow> kbind (release h LFtable s) (\<lambda>_ s. Ok None s))"

definition filedup :: "nat \<Rightarrow> nat \<Rightarrow> 'a kfile_scheme \<Rightarrow> (nat, 'a kfile_scheme) res" where
  "filedup h f s =
     kbind (acquire h LFtable s) (\<lambda>_ s.
     if f_ref (files s f) < 1 then Panic ''filedup''
     else kbind (release h LFtable (file_at f (\<lambda>x. x\<lparr>f_ref := f_ref x + 1\<rparr>) s)) (\<lambda>_ s. Ok f s))"

definition fileclose :: "nat \<Rightarrow> nat \<Rightarrow> 'a kfile_scheme \<Rightarrow> (unit, 'a kfile_scheme) res" where
  "fileclose h f s =
     kbind (acquire h LFtable s) (\<lambda>_ s.
     if f_ref (files s f) < 1 then Panic ''fileclose''
     else
       let s = file_at f (\<lambda>x. x\<lparr>f_ref := f_ref x - 1\<rparr>) s
       in if f_ref (files s f) > 0 then release h LFtable s
          else
            let ff = files s f;
                s = file_at f (\<lambda>x. x\<lparr>f_ref := 0, f_type := FD_NONE\<rparr>) s
            in kbind (release h LFtable s) (\<lambda>_ s.
               if f_type ff = FD_PIPE then pipeclose h (f_pipe ff) (f_writable ff) s
               else if f_type ff = FD_INODE \<or> f_type ff = FD_DEVICE then
                 (case f_ip ff of
                    None \<Rightarrow> Panic ''kerneltrap''
                  | Some ip \<Rightarrow>
                      kbind (begin_op h s) (\<lambda>_ s.
                      kbind (iput h ip s) (\<lambda>_ s. end_op h s)))
               else Ok () s))"

text \<open>\<^verbatim>\<open>struct stat\<close> in memory: 24 bytes, the size at offset 16 after four bytes of padding.\<close>

definition le64_bytes :: "u64 \<Rightarrow> u8 list" where
  "le64_bytes w = map (\<lambda>k. ucast (drop_bit (8 * k) w)) [0..<8]"

definition stat_bytes :: "u8 list \<Rightarrow> stat \<Rightarrow> u8 list" where
  "stat_bytes pad st = le_bytes 4 (st_dev st) @ le_bytes 4 (st_ino st) @ le_bytes 2 (ucast (st_type st)) @
     le_bytes 2 (ucast (st_nlink st)) @ take 4 (pad @ replicate 4 0) @ le64_bytes (st_size st)"

definition filestat :: "nat \<Rightarrow> nat \<Rightarrow> u64 \<Rightarrow> 'a kfile_scheme \<Rightarrow> (int, 'a kfile_scheme) res" where
  "filestat h f addr s =
     kbind (curproc h s) (\<lambda>p s.
     if f_type (files s f) = FD_INODE \<or> f_type (files s f) = FD_DEVICE then
       (case f_ip (files s f) of
          None \<Rightarrow> Panic ''ilock''
        | Some ip \<Rightarrow>
            kbind (ilock h (Some ip) s) (\<lambda>_ s.
            let st = stati (inodes s ip)
            in kbind (iunlock h (Some ip) s) (\<lambda>_ s.
               kbind (copyout h (p_pagetable (procs s p)) addr (stat_bytes (k_pad s) st) s) (\<lambda>r s.
               if r < 0 then Ok (-1) s else Ok 0 s))))
     else Ok (-1) s)"

definition fileread :: "nat \<Rightarrow> nat \<Rightarrow> u64 \<Rightarrow> u32 \<Rightarrow> 'a kfile_scheme \<Rightarrow> (int, 'a kfile_scheme) res" where
  "fileread h f addr n s =
     (let x = files s f
      in if \<not> f_readable x then Ok (-1) s
         else case f_type x of
           FD_PIPE \<Rightarrow> piperead h (f_pipe x) addr n s
         | FD_DEVICE \<Rightarrow>
             if sint (f_major x) < 0 \<or> sint (f_major x) \<ge> int NDEV then Ok (-1) s
             else (case dev_read (devsw s (unat (f_major x))) of
                     None \<Rightarrow> Ok (-1) s
                   | Some Dconsole \<Rightarrow> consoleread h True addr n s)
         | FD_INODE \<Rightarrow>
             kbind (ilock h (f_ip x) s) (\<lambda>_ s.
             kbind (readi h (the (f_ip x)) True addr (f_off (files s f)) n s) (\<lambda>r s.
             let s = (if sint r > 0 then file_at f (\<lambda>x. x\<lparr>f_off := f_off x + r\<rparr>) s else s)
             in kbind (iunlock h (f_ip x) s) (\<lambda>_ s. Ok (sint r) s)))
         | FD_NONE \<Rightarrow> Panic ''fileread'')"

text \<open>The loop of \<^verbatim>\<open>filewrite\<close> for an inode: \<open>i\<close> bytes are written, \<open>n\<close> of the request are left; the result is \<^verbatim>\<open>i == n\<close>.\<close>

definition WRITE_MAX :: nat where
  "WRITE_MAX = ((MAXOPBLOCKS - 1 - 1 - 2) div 2) * BSIZE"

function filewrite_loop :: "nat \<Rightarrow> nat \<Rightarrow> u64 \<Rightarrow> nat \<Rightarrow> nat \<Rightarrow> 'a kfile_scheme \<Rightarrow> (bool, 'a kfile_scheme) res" where
  "filewrite_loop h f addr i n s =
     (if n = 0 then Ok True s
      else
        let n1 = min n WRITE_MAX; ipp = f_ip (files s f)
        in kbind (begin_op h s) (\<lambda>_ s.
           kbind (ilock h ipp s) (\<lambda>_ s.
           kbind (writei h (the ipp) True (addr + of_nat i) (f_off (files s f)) (of_nat n1) s) (\<lambda>r s.
           let s = (if sint r > 0 then file_at f (\<lambda>x. x\<lparr>f_off := f_off x + r\<rparr>) s else s)
           in kbind (iunlock h ipp s) (\<lambda>_ s.
              kbind (end_op h s) (\<lambda>_ s.
              if sint r \<noteq> int n1 then Ok False s
              else filewrite_loop h f addr (i + n1) (n - n1) s))))))"
  by pat_completeness auto
termination
  by (relation "measure (\<lambda>(h, f, addr, i, n, s). n)") (auto simp: WRITE_MAX_def MAXOPBLOCKS_def BSIZE_def)

declare filewrite_loop.simps [simp del]

definition filewrite :: "nat \<Rightarrow> nat \<Rightarrow> u64 \<Rightarrow> u32 \<Rightarrow> 'a kfile_scheme \<Rightarrow> (int, 'a kfile_scheme) res" where
  "filewrite h f addr n s =
     (let x = files s f
      in if \<not> f_writable x then Ok (-1) s
         else case f_type x of
           FD_PIPE \<Rightarrow> pipewrite h (f_pipe x) addr n s
         | FD_DEVICE \<Rightarrow>
             if sint (f_major x) < 0 \<or> sint (f_major x) \<ge> int NDEV then Ok (-1) s
             else (case dev_write (devsw s (unat (f_major x))) of
                     None \<Rightarrow> Ok (-1) s
                   | Some Dconsole \<Rightarrow> consolewrite h True addr n s)
         | FD_INODE \<Rightarrow>
             if sint n < 0 then Ok (-1) s
             else kbind (filewrite_loop h f addr 0 (nat (sint n)) s) (\<lambda>ok s. Ok (if ok then sint n else -1) s)
         | FD_NONE \<Rightarrow> Panic ''filewrite'')"

section \<open>Pipes\<close>

definition pipealloc_bad ::
  "nat \<Rightarrow> nat option \<Rightarrow> nat option \<Rightarrow> 'a kfile_scheme \<Rightarrow> ((nat \<times> nat) option, 'a kfile_scheme) res" where
  "pipealloc_bad h f0 f1 s =
     kbind (case f0 of Some f \<Rightarrow> fileclose h f s | None \<Rightarrow> Ok () s) (\<lambda>_ s.
     kbind (case f1 of Some f \<Rightarrow> fileclose h f s | None \<Rightarrow> Ok () s) (\<lambda>_ s. Ok None s))"

text \<open>The assignments of \<^verbatim>\<open>pipealloc\<close> once it has the two files and a page for the pipe.\<close>

definition pipealloc_init :: "u64 \<Rightarrow> nat \<Rightarrow> nat \<Rightarrow> 'a kfile_scheme \<Rightarrow> 'a kfile_scheme" where
  "pipealloc_init pi r w s =
     (let s = pipe_at pi (\<lambda>p. p\<lparr>pi_readopen := True, pi_writeopen := True, pi_nwrite := 0, pi_nread := 0\<rparr>) s;
          s = initlock (LPipe pi) ''pipe'' s;
          s = file_at r (\<lambda>x. x\<lparr>f_type := FD_PIPE, f_readable := True, f_writable := False, f_pipe := pi\<rparr>) s
      in file_at w (\<lambda>x. x\<lparr>f_type := FD_PIPE, f_readable := False, f_writable := True, f_pipe := pi\<rparr>) s)"

definition pipealloc :: "nat \<Rightarrow> 'a kfile_scheme \<Rightarrow> ((nat \<times> nat) option, 'a kfile_scheme) res" where
  "pipealloc h s =
     kbind (filealloc h s) (\<lambda>f0 s.
     case f0 of
       None \<Rightarrow> pipealloc_bad h None None s
     | Some r \<Rightarrow>
         kbind (filealloc h s) (\<lambda>f1 s.
         case f1 of
           None \<Rightarrow> pipealloc_bad h f0 None s
         | Some w \<Rightarrow>
             kbind (kalloc h s) (\<lambda>pi s.
             if pi = 0 then pipealloc_bad h f0 f1 s
             else Ok (Some (r, w)) (pipealloc_init pi r w s))))"

end
