(* ===== verification/Sysfile.thy ===== *)
theory Sysfile
  imports File
begin

text \<open>
  The file system calls, \<^verbatim>\<open>kernel/sysfile.c\<close> (\<^verbatim>\<open>sys_exec\<close> is with \<^verbatim>\<open>kexec\<close>).  Every call takes its arguments from the trap
  frame and returns the value for \<^verbatim>\<open>a0\<close>; the \<^verbatim>\<open>goto bad\<close> and \<^verbatim>\<open>goto fail\<close> exits are definitions of their own.
\<close>

definition O_RDONLY :: u32 where "O_RDONLY = 0"
definition O_WRONLY :: u32 where "O_WRONLY = 1"
definition O_RDWR :: u32 where "O_RDWR = 2"
definition O_CREATE :: u32 where "O_CREATE = 0x200"
definition O_TRUNC :: u32 where "O_TRUNC = 0x400"

text \<open>A string argument as characters; \<open>None\<close> for -1.\<close>

definition argpath :: "nat \<Rightarrow> nat \<Rightarrow> 'a kvm_scheme \<Rightarrow> (string option, 'a kvm_scheme) res" where
  "argpath h n s =
     kbind (argstr h n MAXPATH s) (\<lambda>r s. Ok (map_option (\<lambda>x. map (\<lambda>b. char_of (unat b)) (snd x)) r) s)"

section \<open>File descriptors\<close>

definition argfd :: "nat \<Rightarrow> nat \<Rightarrow> 'a kfile_scheme \<Rightarrow> ((nat \<times> nat) option, 'a kfile_scheme) res" where
  "argfd h n s =
     kbind (argint h n s) (\<lambda>fd s.
     if sint fd < 0 \<or> sint fd \<ge> int NOFILE then Ok None s
     else
       kbind (curproc h s) (\<lambda>p s.
       case p_ofile (procs s p) (unat fd) of
         None \<Rightarrow> Ok None s
       | Some f \<Rightarrow> Ok (Some (unat fd, f)) s))"

definition set_ofile :: "nat \<Rightarrow> nat \<Rightarrow> nat option \<Rightarrow> 'a kproc_scheme \<Rightarrow> 'a kproc_scheme" where
  "set_ofile p fd x s = proc_at p (\<lambda>q. q\<lparr>p_ofile := (p_ofile q)(fd := x)\<rparr>) s"

definition fdalloc :: "nat \<Rightarrow> nat \<Rightarrow> 'a kfile_scheme \<Rightarrow> (nat option, 'a kfile_scheme) res" where
  "fdalloc h f s =
     kbind (curproc h s) (\<lambda>p s.
     case find (\<lambda>fd. p_ofile (procs s p) fd = None) [0..<NOFILE] of
       Some fd \<Rightarrow> Ok (Some fd) (set_ofile p fd (Some f) s)
     | None \<Rightarrow> Ok None s)"

definition sys_dup :: "nat \<Rightarrow> 'a kfile_scheme \<Rightarrow> (u64, 'a kfile_scheme) res" where
  "sys_dup h s =
     kbind (argfd h 0 s) (\<lambda>r s.
     case r of
       None \<Rightarrow> Ok (-1) s
     | Some (_, f) \<Rightarrow>
         kbind (fdalloc h f s) (\<lambda>fd s.
         case fd of
           None \<Rightarrow> Ok (-1) s
         | Some fd \<Rightarrow> kbind (filedup h f s) (\<lambda>_ s. Ok (of_nat fd) s)))"

definition sys_read :: "nat \<Rightarrow> 'a kfile_scheme \<Rightarrow> (u64, 'a kfile_scheme) res" where
  "sys_read h s =
     kbind (argaddr h 1 s) (\<lambda>p s.
     kbind (argint h 2 s) (\<lambda>n s.
     kbind (argfd h 0 s) (\<lambda>r s.
     case r of
       None \<Rightarrow> Ok (-1) s
     | Some (_, f) \<Rightarrow> kbind (fileread h f p n s) (\<lambda>v s. Ok (of_int v) s))))"

definition sys_write :: "nat \<Rightarrow> 'a kfile_scheme \<Rightarrow> (u64, 'a kfile_scheme) res" where
  "sys_write h s =
     kbind (argaddr h 1 s) (\<lambda>p s.
     kbind (argint h 2 s) (\<lambda>n s.
     kbind (argfd h 0 s) (\<lambda>r s.
     case r of
       None \<Rightarrow> Ok (-1) s
     | Some (_, f) \<Rightarrow> kbind (filewrite h f p n s) (\<lambda>v s. Ok (of_int v) s))))"

definition sys_close :: "nat \<Rightarrow> 'a kfile_scheme \<Rightarrow> (u64, 'a kfile_scheme) res" where
  "sys_close h s =
     kbind (argfd h 0 s) (\<lambda>r s.
     case r of
       None \<Rightarrow> Ok (-1) s
     | Some (fd, f) \<Rightarrow>
         kbind (curproc h s) (\<lambda>p s.
         kbind (fileclose h f (set_ofile p fd None s)) (\<lambda>_ s. Ok 0 s)))"

definition sys_fstat :: "nat \<Rightarrow> 'a kfile_scheme \<Rightarrow> (u64, 'a kfile_scheme) res" where
  "sys_fstat h s =
     kbind (argaddr h 1 s) (\<lambda>st s.
     kbind (argfd h 0 s) (\<lambda>r s.
     case r of
       None \<Rightarrow> Ok (-1) s
     | Some (_, f) \<Rightarrow> kbind (filestat h f st s) (\<lambda>v s. Ok (of_int v) s)))"

definition sys_pipe_bad ::
  "nat \<Rightarrow> nat \<Rightarrow> nat option \<Rightarrow> nat option \<Rightarrow> nat \<Rightarrow> nat \<Rightarrow> 'a kfile_scheme \<Rightarrow> (u64, 'a kfile_scheme) res" where
  "sys_pipe_bad h p fd0 fd1 rdf wrf s =
     (let s = (case fd0 of Some fd \<Rightarrow> set_ofile p fd None s | None \<Rightarrow> s);
          s = (case fd1 of Some fd \<Rightarrow> set_ofile p fd None s | None \<Rightarrow> s)
      in kbind (fileclose h rdf s) (\<lambda>_ s. kbind (fileclose h wrf s) (\<lambda>_ s. Ok (-1) s)))"

definition sys_pipe :: "nat \<Rightarrow> 'a kfile_scheme \<Rightarrow> (u64, 'a kfile_scheme) res" where
  "sys_pipe h s =
     kbind (curproc h s) (\<lambda>p s.
     kbind (argaddr h 0 s) (\<lambda>fdarray s.
     kbind (pipealloc h s) (\<lambda>r s.
     case r of
       None \<Rightarrow> Ok (-1) s
     | Some (rdf, wrf) \<Rightarrow>
         kbind (fdalloc h rdf s) (\<lambda>fd0 s.
         case fd0 of
           None \<Rightarrow> sys_pipe_bad h p None None rdf wrf s
         | Some a \<Rightarrow>
             kbind (fdalloc h wrf s) (\<lambda>fd1 s.
             case fd1 of
               None \<Rightarrow> sys_pipe_bad h p fd0 None rdf wrf s
             | Some b \<Rightarrow>
                 kbind (copyout h (p_pagetable (procs s p)) fdarray (le_bytes 4 (of_nat a)) s) (\<lambda>r0 s.
                 if r0 < 0 then sys_pipe_bad h p fd0 fd1 rdf wrf s
                 else
                   kbind (copyout h (p_pagetable (procs s p)) (fdarray + 4) (le_bytes 4 (of_nat b)) s) (\<lambda>r1 s.
                   if r1 < 0 then sys_pipe_bad h p fd0 fd1 rdf wrf s else Ok 0 s)))))))"

section \<open>Links and directories\<close>

text \<open>The end of a call that failed inside its transaction.\<close>

definition op_fail :: "nat \<Rightarrow> 'a kfile_scheme \<Rightarrow> (u64, 'a kfile_scheme) res" where
  "op_fail h s = kbind (end_op h s) (\<lambda>_ s. Ok (-1) s)"

definition sys_link_bad :: "nat \<Rightarrow> nat \<Rightarrow> 'a kfile_scheme \<Rightarrow> (u64, 'a kfile_scheme) res" where
  "sys_link_bad h ip s =
     kbind (ilock h (Some ip) s) (\<lambda>_ s.
     kbind (iupdate h ip (inode_at ip (\<lambda>x. x\<lparr>i_nlink := i_nlink x - 1\<rparr>) s)) (\<lambda>_ s.
     kbind (iunlockput h ip s) (\<lambda>_ s. op_fail h s)))"

definition sys_link_new :: "nat \<Rightarrow> nat \<Rightarrow> string \<Rightarrow> 'a kfile_scheme \<Rightarrow> (u64, 'a kfile_scheme) res" where
  "sys_link_new h ip new s =
     kbind (nameiparent h new (replicate DIRSIZ NUL) s) (\<lambda>r s.
     case r of
       (None, _) \<Rightarrow> sys_link_bad h ip s
     | (Some dp, name) \<Rightarrow>
         kbind (ilock h (Some dp) s) (\<lambda>_ s.
         kbind (if i_dev (inodes s dp) \<noteq> i_dev (inodes s ip) then Ok (-1) s
                else dirlink h dp name (i_inum (inodes s ip)) s) (\<lambda>d s.
         if d < 0 then kbind (iunlockput h dp s) (\<lambda>_ s. sys_link_bad h ip s)
         else
           kbind (iunlockput h dp s) (\<lambda>_ s.
           kbind (iput h ip s) (\<lambda>_ s.
           kbind (end_op h s) (\<lambda>_ s. Ok 0 s))))))"

definition sys_link :: "nat \<Rightarrow> 'a kfile_scheme \<Rightarrow> (u64, 'a kfile_scheme) res" where
  "sys_link h s =
     kbind (argpath h 0 s) (\<lambda>old s.
     case old of
       None \<Rightarrow> Ok (-1) s
     | Some old \<Rightarrow>
         kbind (argpath h 1 s) (\<lambda>new s.
         case new of
           None \<Rightarrow> Ok (-1) s
         | Some new \<Rightarrow>
             kbind (begin_op h s) (\<lambda>_ s.
             kbind (namei h old s) (\<lambda>ipp s.
             case ipp of
               None \<Rightarrow> op_fail h s
             | Some ip \<Rightarrow>
                 kbind (ilock h (Some ip) s) (\<lambda>_ s.
                 if i_type (inodes s ip) = T_DIR then kbind (iunlockput h ip s) (\<lambda>_ s. op_fail h s)
                 else
                   kbind (iupdate h ip (inode_at ip (\<lambda>x. x\<lparr>i_nlink := i_nlink x + 1\<rparr>) s)) (\<lambda>_ s.
                   kbind (iunlock h (Some ip) s) (\<lambda>_ s. sys_link_new h ip new s)))))))"

text \<open>The loop of \<^verbatim>\<open>isdirempty\<close> starts after the entries \<^verbatim>\<open>.\<close> and \<^verbatim>\<open>..\<close>; \<open>Some\<close> leaves it with the answer no.\<close>

definition isdirempty :: "nat \<Rightarrow> nat \<Rightarrow> 'a kfile_scheme \<Rightarrow> (bool, 'a kfile_scheme) res" where
  "isdirempty h dp s =
     kbind (kscan (\<lambda>off s.
       kbind (readi h dp False (k_de s) off 16 s) (\<lambda>r s.
       if r \<noteq> 16 then Panic ''isdirempty: readi''
       else if de_inum (load_bytes (pmem s) (k_de s) 16) \<noteq> 0 then Ok (Some ()) s
       else Ok None s)) (drop 2 (dir_offs (i_size (inodes s dp)))) s) (\<lambda>r s. Ok (r = None) s)"

definition sys_unlink_bad :: "nat \<Rightarrow> nat \<Rightarrow> 'a kfile_scheme \<Rightarrow> (u64, 'a kfile_scheme) res" where
  "sys_unlink_bad h dp s = kbind (iunlockput h dp s) (\<lambda>_ s. op_fail h s)"

definition sys_unlink_entry :: "nat \<Rightarrow> nat \<Rightarrow> nat \<Rightarrow> u32 \<Rightarrow> 'a kfile_scheme \<Rightarrow> (u64, 'a kfile_scheme) res" where
  "sys_unlink_entry h dp ip off s =
     kbind (writei h dp False (k_de s) off 16 (s\<lparr>pmem := store_bytes (k_de s) (replicate 16 0) (pmem s)\<rparr>)) (\<lambda>w s.
     if w \<noteq> 16 then Panic ''unlink: writei''
     else
       kbind (if i_type (inodes s ip) = T_DIR
              then iupdate h dp (inode_at dp (\<lambda>x. x\<lparr>i_nlink := i_nlink x - 1\<rparr>) s)
              else Ok () s) (\<lambda>_ s.
       kbind (iunlockput h dp s) (\<lambda>_ s.
       kbind (iupdate h ip (inode_at ip (\<lambda>x. x\<lparr>i_nlink := i_nlink x - 1\<rparr>) s)) (\<lambda>_ s.
       kbind (iunlockput h ip s) (\<lambda>_ s.
       kbind (end_op h s) (\<lambda>_ s. Ok 0 s))))))"

definition sys_unlink :: "nat \<Rightarrow> 'a kfile_scheme \<Rightarrow> (u64, 'a kfile_scheme) res" where
  "sys_unlink h s =
     kbind (argpath h 0 s) (\<lambda>pth s.
     case pth of
       None \<Rightarrow> Ok (-1) s
     | Some pth \<Rightarrow>
         kbind (begin_op h s) (\<lambda>_ s.
         kbind (nameiparent h pth (replicate DIRSIZ NUL) s) (\<lambda>r s.
         case r of
           (None, _) \<Rightarrow> op_fail h s
         | (Some dp, name) \<Rightarrow>
             kbind (ilock h (Some dp) s) (\<lambda>_ s.
             if namecmp name ''.'' = 0 \<or> namecmp name ''..'' = 0 then sys_unlink_bad h dp s
             else
               kbind (dirlookup h dp name s) (\<lambda>r s.
               case r of
                 None \<Rightarrow> sys_unlink_bad h dp s
               | Some (ip, off) \<Rightarrow>
                   kbind (ilock h (Some ip) s) (\<lambda>_ s.
                   if sint (i_nlink (inodes s ip)) < 1 then Panic ''unlink: nlink < 1''
                   else
                     kbind (if i_type (inodes s ip) = T_DIR then isdirempty h ip s else Ok True s) (\<lambda>empty s.
                     if \<not> empty then kbind (iunlockput h ip s) (\<lambda>_ s. sys_unlink_bad h dp s)
                     else sys_unlink_entry h dp ip off s)))))))"

section \<open>Creating and opening\<close>

definition create_fail :: "nat \<Rightarrow> nat \<Rightarrow> nat \<Rightarrow> 'a kfile_scheme \<Rightarrow> (nat option, 'a kfile_scheme) res" where
  "create_fail h dp ip s =
     kbind (iupdate h ip (inode_at ip (\<lambda>x. x\<lparr>i_nlink := 0\<rparr>) s)) (\<lambda>_ s.
     kbind (iunlockput h ip s) (\<lambda>_ s.
     kbind (iunlockput h dp s) (\<lambda>_ s. Ok None s)))"

definition create_entries :: "nat \<Rightarrow> nat \<Rightarrow> nat \<Rightarrow> string \<Rightarrow> u16 \<Rightarrow> 'a kfile_scheme \<Rightarrow> (nat option, 'a kfile_scheme) res" where
  "create_entries h dp ip name type s =
     kbind (if type = T_DIR then
              kbind (dirlink h ip ''.'' (i_inum (inodes s ip)) s) (\<lambda>r s.
              if r < 0 then Ok r s else dirlink h ip ''..'' (i_inum (inodes s dp)) s)
            else Ok 0 s) (\<lambda>r s.
     if r < 0 then create_fail h dp ip s
     else
       kbind (dirlink h dp name (i_inum (inodes s ip)) s) (\<lambda>r s.
       if r < 0 then create_fail h dp ip s
       else
         kbind (if type = T_DIR then iupdate h dp (inode_at dp (\<lambda>x. x\<lparr>i_nlink := i_nlink x + 1\<rparr>) s) else Ok () s) (\<lambda>_ s.
         kbind (iunlockput h dp s) (\<lambda>_ s. Ok (Some ip) s))))"

definition create :: "nat \<Rightarrow> string \<Rightarrow> u16 \<Rightarrow> u16 \<Rightarrow> u16 \<Rightarrow> 'a kfile_scheme \<Rightarrow> (nat option, 'a kfile_scheme) res" where
  "create h pth type major minor s =
     kbind (nameiparent h pth (replicate DIRSIZ NUL) s) (\<lambda>r s.
     case r of
       (None, _) \<Rightarrow> Ok None s
     | (Some dp, name) \<Rightarrow>
         kbind (ilock h (Some dp) s) (\<lambda>_ s.
         kbind (dirlookup h dp name s) (\<lambda>r s.
         case r of
           Some (ip, _) \<Rightarrow>
             kbind (iunlockput h dp s) (\<lambda>_ s.
             kbind (ilock h (Some ip) s) (\<lambda>_ s.
             if type = T_FILE \<and> (i_type (inodes s ip) = T_FILE \<or> i_type (inodes s ip) = T_DEVICE) then Ok (Some ip) s
             else kbind (iunlockput h ip s) (\<lambda>_ s. Ok None s)))
         | None \<Rightarrow>
             kbind (ialloc h (i_dev (inodes s dp)) type s) (\<lambda>ipp s.
             case ipp of
               None \<Rightarrow> kbind (iunlockput h dp s) (\<lambda>_ s. Ok None s)
             | Some ip \<Rightarrow>
                 kbind (ilock h (Some ip) s) (\<lambda>_ s.
                 kbind (iupdate h ip (inode_at ip (\<lambda>x. x\<lparr>i_major := major, i_minor := minor, i_nlink := 1\<rparr>) s)) (\<lambda>_ s.
                 create_entries h dp ip name type s))))))"

definition open_install :: "nat \<Rightarrow> nat \<Rightarrow> nat \<Rightarrow> nat \<Rightarrow> u32 \<Rightarrow> 'a kfile_scheme \<Rightarrow> (u64, 'a kfile_scheme) res" where
  "open_install h ip f fd omode s =
     (let s = (if i_type (inodes s ip) = T_DEVICE
               then file_at f (\<lambda>x. x\<lparr>f_type := FD_DEVICE, f_major := i_major (inodes s ip)\<rparr>) s
               else file_at f (\<lambda>x. x\<lparr>f_type := FD_INODE, f_off := 0\<rparr>) s);
          s = file_at f (\<lambda>x. x\<lparr>f_ip := Some ip, f_readable := (omode AND O_WRONLY = 0),
                f_writable := (omode AND O_WRONLY \<noteq> 0 \<or> omode AND O_RDWR \<noteq> 0)\<rparr>) s
      in kbind (if omode AND O_TRUNC \<noteq> 0 \<and> i_type (inodes s ip) = T_FILE then itrunc h ip s else Ok () s) (\<lambda>_ s.
         kbind (iunlock h (Some ip) s) (\<lambda>_ s.
         kbind (end_op h s) (\<lambda>_ s. Ok (of_nat fd) s))))"

definition open_inode :: "nat \<Rightarrow> nat \<Rightarrow> u32 \<Rightarrow> 'a kfile_scheme \<Rightarrow> (u64, 'a kfile_scheme) res" where
  "open_inode h ip omode s =
     (if i_type (inodes s ip) = T_DEVICE \<and> (sint (i_major (inodes s ip)) < 0 \<or> sint (i_major (inodes s ip)) \<ge> int NDEV)
      then kbind (iunlockput h ip s) (\<lambda>_ s. op_fail h s)
      else
        kbind (filealloc h s) (\<lambda>f s.
        case f of
          None \<Rightarrow> kbind (iunlockput h ip s) (\<lambda>_ s. op_fail h s)
        | Some f \<Rightarrow>
            kbind (fdalloc h f s) (\<lambda>fd s.
            case fd of
              None \<Rightarrow> kbind (fileclose h f s) (\<lambda>_ s. kbind (iunlockput h ip s) (\<lambda>_ s. op_fail h s))
            | Some fd \<Rightarrow> open_install h ip f fd omode s)))"

definition sys_open :: "nat \<Rightarrow> 'a kfile_scheme \<Rightarrow> (u64, 'a kfile_scheme) res" where
  "sys_open h s =
     kbind (argint h 1 s) (\<lambda>omode s.
     kbind (argpath h 0 s) (\<lambda>pth s.
     case pth of
       None \<Rightarrow> Ok (-1) s
     | Some pth \<Rightarrow>
         kbind (begin_op h s) (\<lambda>_ s.
         if omode AND O_CREATE \<noteq> 0 then
           kbind (create h pth T_FILE 0 0 s) (\<lambda>ipp s.
           case ipp of None \<Rightarrow> op_fail h s | Some ip \<Rightarrow> open_inode h ip omode s)
         else
           kbind (namei h pth s) (\<lambda>ipp s.
           case ipp of
             None \<Rightarrow> op_fail h s
           | Some ip \<Rightarrow>
               kbind (ilock h (Some ip) s) (\<lambda>_ s.
               if i_type (inodes s ip) = T_DIR \<and> omode \<noteq> O_RDONLY
               then kbind (iunlockput h ip s) (\<lambda>_ s. op_fail h s)
               else open_inode h ip omode s)))))"

definition op_create :: "nat \<Rightarrow> string option \<Rightarrow> u16 \<Rightarrow> u16 \<Rightarrow> u16 \<Rightarrow> 'a kfile_scheme \<Rightarrow> (u64, 'a kfile_scheme) res" where
  "op_create h pth type major minor s =
     (case pth of
        None \<Rightarrow> op_fail h s
      | Some pth \<Rightarrow>
          kbind (create h pth type major minor s) (\<lambda>ipp s.
          case ipp of
            None \<Rightarrow> op_fail h s
          | Some ip \<Rightarrow> kbind (iunlockput h ip s) (\<lambda>_ s. kbind (end_op h s) (\<lambda>_ s. Ok 0 s))))"

definition sys_mkdir :: "nat \<Rightarrow> 'a kfile_scheme \<Rightarrow> (u64, 'a kfile_scheme) res" where
  "sys_mkdir h s =
     kbind (begin_op h s) (\<lambda>_ s.
     kbind (argpath h 0 s) (\<lambda>pth s. op_create h pth T_DIR 0 0 s))"

definition sys_mknod :: "nat \<Rightarrow> 'a kfile_scheme \<Rightarrow> (u64, 'a kfile_scheme) res" where
  "sys_mknod h s =
     kbind (begin_op h s) (\<lambda>_ s.
     kbind (argint h 1 s) (\<lambda>major s.
     kbind (argint h 2 s) (\<lambda>minor s.
     kbind (argpath h 0 s) (\<lambda>pth s. op_create h pth T_DEVICE (ucast major) (ucast minor) s))))"

definition sys_chdir :: "nat \<Rightarrow> 'a kfile_scheme \<Rightarrow> (u64, 'a kfile_scheme) res" where
  "sys_chdir h s =
     kbind (curproc h s) (\<lambda>p s.
     kbind (begin_op h s) (\<lambda>_ s.
     kbind (argpath h 0 s) (\<lambda>pth s.
     case pth of
       None \<Rightarrow> op_fail h s
     | Some pth \<Rightarrow>
         kbind (namei h pth s) (\<lambda>ipp s.
         case ipp of
           None \<Rightarrow> op_fail h s
         | Some ip \<Rightarrow>
             kbind (ilock h (Some ip) s) (\<lambda>_ s.
             if i_type (inodes s ip) \<noteq> T_DIR then kbind (iunlockput h ip s) (\<lambda>_ s. op_fail h s)
             else
               kbind (iunlock h (Some ip) s) (\<lambda>_ s.
               kbind (case p_cwd (procs s p) of Some c \<Rightarrow> iput h c s | None \<Rightarrow> Panic ''kerneltrap'') (\<lambda>_ s.
               kbind (end_op h s) (\<lambda>_ s.
               Ok 0 (proc_at p (\<lambda>q. q\<lparr>p_cwd := Some ip\<rparr>) s)))))))))"

end
