(* ===== verification/Exec.thy ===== *)
theory Exec
  imports Sysfile
begin

text \<open>
  Loading a program: \<^verbatim>\<open>kernel/exec.c\<close>, \<^verbatim>\<open>kernel/elf.h\<close> and \<^verbatim>\<open>sys_exec\<close> of \<^verbatim>\<open>kernel/sysfile.c\<close>.  The two headers are
  local variables on the kernel stack; \<open>k_elf\<close> and \<open>k_ph\<close> are their addresses.  An argument string is its list of
  bytes without the terminating NUL.
\<close>

section \<open>ELF headers\<close>

record elfhdr =
  e_magic :: u32
  e_entry :: u64
  e_phoff :: u64
  e_phnum :: u16

record proghdr =
  ph_type :: u32
  ph_flags :: u32
  ph_off :: u64
  ph_vaddr :: u64
  ph_filesz :: u64
  ph_memsz :: u64

definition ELF_MAGIC :: u32 where "ELF_MAGIC = 0x464C457F"
definition ELF_PROG_LOAD :: u32 where "ELF_PROG_LOAD = 1"

text \<open>The fields of the headers that \<^verbatim>\<open>kexec\<close> reads, at their offsets in the 64 and 56 bytes of the structures.\<close>

definition get_elfhdr :: "mem \<Rightarrow> u64 \<Rightarrow> elfhdr" where
  "get_elfhdr m a =
     \<lparr>e_magic = load32 m a, e_entry = load64 m (a + 24), e_phoff = load64 m (a + 32), e_phnum = ucast (load_le 2 m (a + 56))\<rparr>"

definition get_proghdr :: "mem \<Rightarrow> u64 \<Rightarrow> proghdr" where
  "get_proghdr m a =
     \<lparr>ph_type = load32 m a, ph_flags = load32 m (a + 4), ph_off = load64 m (a + 8), ph_vaddr = load64 m (a + 16),
      ph_filesz = load64 m (a + 32), ph_memsz = load64 m (a + 40)\<rparr>"

record kimage = kfile +
  k_elf :: u64
  k_ph :: u64

section \<open>Loading segments\<close>

definition flags2perm :: "u32 \<Rightarrow> u64" where
  "flags2perm flags =
     (let perm = (if flags AND 1 \<noteq> 0 then PTE_X else 0)
      in if flags AND 2 \<noteq> 0 then perm OR PTE_W else perm)"

text \<open>
  The loop of \<^verbatim>\<open>loadseg\<close> runs over the multiples of \<^verbatim>\<open>PGSIZE\<close> below \<open>sz\<close>.  (For a size within a page of \<open>2\<^sup>3\<^sup>2\<close> the
  C variable \<^verbatim>\<open>i\<close> would wrap around; every page of such a segment would have to be mapped first, and there is not that
  much memory.)
\<close>

definition loadseg :: "nat \<Rightarrow> u64 \<Rightarrow> u64 \<Rightarrow> nat \<Rightarrow> u32 \<Rightarrow> u32 \<Rightarrow> 'a kimage_scheme \<Rightarrow> (int, 'a kimage_scheme) res" where
  "loadseg h pt va ip offset sz s =
     kbind (kscan (\<lambda>k s.
       let i = of_nat (k * 4096) :: u32
       in kbind (walkaddr h pt (va + ucast i) s) (\<lambda>pa s.
          if pa = 0 then Panic ''loadseg: address should exist''
          else
            let n = (if sz - i < 4096 then sz - i else 4096)
            in kbind (readi h ip False pa (offset + i) n s) (\<lambda>r s.
               if r \<noteq> n then Ok (Some ()) s else Ok None s)))
       [0..<(unat sz + 4095) div 4096] s) (\<lambda>r s. Ok (if r = None then 0 else -1) s)"

text \<open>One turn of the loop over the program headers: whether it goes on, and the new size.\<close>

definition load_ph :: "nat \<Rightarrow> nat \<Rightarrow> u64 \<Rightarrow> u32 \<Rightarrow> u64 \<Rightarrow> 'a kimage_scheme \<Rightarrow> (bool \<times> u64, 'a kimage_scheme) res" where
  "load_ph h ip pt off sz s =
     kbind (readi h ip False (k_ph s) off 56 s) (\<lambda>r s.
     if r \<noteq> 56 then Ok (False, sz) s
     else
       let ph = get_proghdr (pmem s) (k_ph s)
       in if ph_type ph \<noteq> ELF_PROG_LOAD then Ok (True, sz) s
          else if ph_memsz ph < ph_filesz ph then Ok (False, sz) s
          else if ph_vaddr ph + ph_memsz ph < ph_vaddr ph then Ok (False, sz) s
          else if ph_vaddr ph mod PGSIZE \<noteq> 0 then Ok (False, sz) s
          else
            kbind (uvmalloc h pt sz (ph_vaddr ph + ph_memsz ph) (flags2perm (ph_flags ph)) s) (\<lambda>sz1 s.
            if sz1 = 0 then Ok (False, sz) s
            else
              kbind (loadseg h pt (ph_vaddr ph) ip (ucast (ph_off ph)) (ucast (ph_filesz ph)) s) (\<lambda>r s.
              Ok (0 \<le> r, sz1) s)))"

primrec load_phs ::
  "nat \<Rightarrow> nat \<Rightarrow> u64 \<Rightarrow> nat \<Rightarrow> u32 \<Rightarrow> u64 \<Rightarrow> 'a kimage_scheme \<Rightarrow> (bool \<times> u64, 'a kimage_scheme) res" where
  "load_phs h ip pt 0 off sz s = Ok (True, sz) s"
| "load_phs h ip pt (Suc k) off sz s =
     kbind (load_ph h ip pt off sz s) (\<lambda>r s.
     if fst r then load_phs h ip pt k (off + 56) (snd r) s else Ok r s)"

section \<open>The user stack\<close>

definition align16 :: "u64 \<Rightarrow> u64" where
  "align16 sp = sp - sp mod 16"

text \<open>The loop that copies the argument strings: the stack pointer and the addresses of the strings, or \<open>None\<close> for
  \<^verbatim>\<open>goto bad\<close>.  \<open>us\<close> is the part of \<^verbatim>\<open>ustack\<close> filled so far, and its length is \<^verbatim>\<open>argc\<close>.\<close>

primrec push_args ::
  "nat \<Rightarrow> u64 \<Rightarrow> u64 \<Rightarrow> u8 list list \<Rightarrow> u64 list \<Rightarrow> u64 \<Rightarrow> 'a kimage_scheme \<Rightarrow> ((u64 \<times> u64 list) option, 'a kimage_scheme) res" where
  "push_args h pt stackbase [] us sp s = Ok (Some (sp, us)) s"
| "push_args h pt stackbase (a # as) us sp s =
     (if length us \<ge> MAXARG then Ok None s
      else
        let sp = align16 (sp - of_nat (length a + 1))
        in if sp < stackbase then Ok None s
           else
             kbind (copyout h pt sp (a @ [0]) s) (\<lambda>r s.
             if r < 0 then Ok None s
             else push_args h pt stackbase as (us @ [sp]) sp s))"

text \<open>
  After the loop \<^verbatim>\<open>ustack[argc] = 0\<close> and the array goes on the stack.  With \<^verbatim>\<open>argc\<close> equal to \<^verbatim>\<open>MAXARG\<close> that store would be
  past the end of the array; the model stops there.
\<close>

definition push_ustack ::
  "nat \<Rightarrow> u64 \<Rightarrow> u64 \<Rightarrow> u64 list \<Rightarrow> u64 \<Rightarrow> 'a kimage_scheme \<Rightarrow> (u64 option, 'a kimage_scheme) res" where
  "push_ustack h pt stackbase us sp s =
     (if length us \<ge> MAXARG then Panic ''ustack overrun''
      else
        let sp = align16 (sp - of_nat ((length us + 1) * 8))
        in if sp < stackbase then Ok None s
           else
             kbind (copyout h pt sp (concat (map le64_bytes (us @ [0]))) s) (\<lambda>r s.
             Ok (if r < 0 then None else Some sp) s))"

section \<open>exec\<close>

definition tf_sp :: u64 where "tf_sp = 48"
definition tf_a1 :: u64 where "tf_a1 = 120"

primrec last_elem :: "string \<Rightarrow> string \<Rightarrow> string" where
  "last_elem lst [] = lst"
| "last_elem lst (c # cs) = last_elem (if c = CHR ''/'' then cs else lst) cs"

text \<open>The label \<^verbatim>\<open>bad\<close>; \<open>ipp\<close> is \<^verbatim>\<open>ip\<close>, null once the file is closed.\<close>

definition kexec_bad :: "nat \<Rightarrow> u64 \<Rightarrow> u64 \<Rightarrow> nat option \<Rightarrow> 'a kimage_scheme \<Rightarrow> (int, 'a kimage_scheme) res" where
  "kexec_bad h pt sz ipp s =
     kbind (if pt \<noteq> 0 then proc_freepagetable h pt sz s else Ok () s) (\<lambda>_ s.
     kbind (case ipp of None \<Rightarrow> Ok () s
            | Some ip \<Rightarrow> kbind (iunlockput h ip s) (\<lambda>_ s. end_op h s)) (\<lambda>_ s. Ok (-1) s))"

text \<open>From \<^verbatim>\<open>p->trapframe->a1 = sp\<close> to the end: the new image replaces the old one.\<close>

definition kexec_commit ::
  "nat \<Rightarrow> nat \<Rightarrow> string \<Rightarrow> u64 \<Rightarrow> u64 \<Rightarrow> u64 \<Rightarrow> u64 \<Rightarrow> u64 \<Rightarrow> nat \<Rightarrow> 'a kimage_scheme \<Rightarrow> (int, 'a kimage_scheme) res" where
  "kexec_commit h p pth pt sz oldsz sp epc argc s =
     (let s = tf_set tf_a1 sp p s;
          s = proc_at p (\<lambda>q. q\<lparr>p_name := safestrcpy (p_name q) (last_elem pth pth) 16\<rparr>) s;
          oldpt = p_pagetable (procs s p);
          s = proc_at p (\<lambda>q. q\<lparr>p_pagetable := pt, p_sz := sz\<rparr>) s;
          s = tf_set tf_epc epc p s;
          s = tf_set tf_sp sp p s
      in kbind (proc_freepagetable h oldpt oldsz s) (\<lambda>_ s. Ok (int argc) s))"

text \<open>From \<^verbatim>\<open>p = myproc()\<close> on, with the file closed.\<close>

definition kexec_stack ::
  "nat \<Rightarrow> string \<Rightarrow> u8 list list \<Rightarrow> u64 \<Rightarrow> u64 \<Rightarrow> u64 \<Rightarrow> 'a kimage_scheme \<Rightarrow> (int, 'a kimage_scheme) res" where
  "kexec_stack h pth argv pt sz epc s =
     kbind (curproc h s) (\<lambda>p s.
     let oldsz = p_sz (procs s p);
         sz = PGROUNDUP sz;
         room = of_nat (USERSTACK + 1) * PGSIZE
     in kbind (uvmalloc h pt sz (sz + room) PTE_W s) (\<lambda>sz1 s.
        if sz1 = 0 then kexec_bad h pt sz None s
        else
          let sz = sz1; stackbase = sz - of_nat USERSTACK * PGSIZE
          in kbind (uvmclear h pt (sz - room) s) (\<lambda>_ s.
             kbind (push_args h pt stackbase argv [] sz s) (\<lambda>r s.
             case r of
               None \<Rightarrow> kexec_bad h pt sz None s
             | Some (sp, us) \<Rightarrow>
                 kbind (push_ustack h pt stackbase us sp s) (\<lambda>r s.
                 case r of
                   None \<Rightarrow> kexec_bad h pt sz None s
                 | Some sp \<Rightarrow> kexec_commit h p pth pt sz oldsz sp epc (length us) s)))))"

definition kexec :: "nat \<Rightarrow> string \<Rightarrow> u8 list list \<Rightarrow> 'a kimage_scheme \<Rightarrow> (int, 'a kimage_scheme) res" where
  "kexec h pth argv s =
     kbind (curproc h s) (\<lambda>p s.
     kbind (begin_op h s) (\<lambda>_ s.
     kbind (namei h pth s) (\<lambda>ipp s.
     case ipp of
       None \<Rightarrow> kbind (end_op h s) (\<lambda>_ s. Ok (-1) s)
     | Some ip \<Rightarrow>
         kbind (ilock h (Some ip) s) (\<lambda>_ s.
         kbind (readi h ip False (k_elf s) 0 64 s) (\<lambda>r s.
         let elf = get_elfhdr (pmem s) (k_elf s)
         in if r \<noteq> 64 then kexec_bad h 0 0 (Some ip) s
            else if e_magic elf \<noteq> ELF_MAGIC then kexec_bad h 0 0 (Some ip) s
            else
              kbind (proc_pagetable h p s) (\<lambda>pt s.
              if pt = 0 then kexec_bad h 0 0 (Some ip) s
              else
                kbind (load_phs h ip pt (unat (e_phnum elf)) (ucast (e_phoff elf)) 0 s) (\<lambda>r s.
                if \<not> fst r then kexec_bad h pt (snd r) (Some ip) s
                else
                  kbind (iunlockput h ip s) (\<lambda>_ s.
                  kbind (end_op h s) (\<lambda>_ s.
                  kexec_stack h pth argv pt (snd r) (e_entry elf) s)))))))))"

section \<open>The system call\<close>

text \<open>The loop that fetches the arguments, with \<open>k\<close> slots of \<^verbatim>\<open>argv\<close> left: whether it ended at the null pointer, and
  the pages and strings fetched.  A page whose string could not be fetched is in the list too, to be freed.\<close>

primrec exec_args ::
  "nat \<Rightarrow> nat \<Rightarrow> u64 \<Rightarrow> (u64 \<times> u8 list) list \<Rightarrow> 'a kimage_scheme \<Rightarrow> (bool \<times> (u64 \<times> u8 list) list, 'a kimage_scheme) res" where
  "exec_args h 0 ua acc s = Ok (False, acc) s"
| "exec_args h (Suc k) ua acc s =
     kbind (fetchaddr h ua s) (\<lambda>r s.
     case r of
       None \<Rightarrow> Ok (False, acc) s
     | Some uarg \<Rightarrow>
         if uarg = 0 then Ok (True, acc) s
         else
           kbind (kalloc h s) (\<lambda>pg s.
           if pg = 0 then Ok (False, acc) s
           else
             kbind (fetchstr h uarg 4096 s) (\<lambda>r s.
             case r of
               None \<Rightarrow> Ok (False, acc @ [(pg, [])]) s
             | Some (_, bs) \<Rightarrow>
                 exec_args h k (ua + 8) (acc @ [(pg, bs)]) (s\<lparr>pmem := store_bytes pg (bs @ [0]) (pmem s)\<rparr>))))"

definition free_args :: "nat \<Rightarrow> (u64 \<times> u8 list) list \<Rightarrow> 'a kimage_scheme \<Rightarrow> (unit, 'a kimage_scheme) res" where
  "free_args h args s = kfor (\<lambda>a s. kfree h (fst a) s) args s"

definition sys_exec :: "nat \<Rightarrow> 'a kimage_scheme \<Rightarrow> (u64, 'a kimage_scheme) res" where
  "sys_exec h s =
     kbind (argaddr h 1 s) (\<lambda>uargv s.
     kbind (argpath h 0 s) (\<lambda>pth s.
     case pth of
       None \<Rightarrow> Ok (-1) s
     | Some pth \<Rightarrow>
         kbind (exec_args h MAXARG uargv [] s) (\<lambda>r s.
         if fst r then
           kbind (kexec h pth (map snd (snd r)) s) (\<lambda>ret s.
           kbind (free_args h (snd r) s) (\<lambda>_ s. Ok (of_int ret) s))
         else kbind (free_args h (snd r) s) (\<lambda>_ s. Ok (-1) s))))"

end
