(* ===== verification/Virtio.thy ===== *)
theory Virtio
  imports Exec
begin

text \<open>
  The disk driver, \<^verbatim>\<open>kernel/virtio_disk.c\<close>, at the level of its shared queue: the descriptor table, the available and
  used rings, and the driver's book-keeping.  The buffer cache uses the transfer \<open>virtio_disk_rw\<close> of theory \<open>Bio\<close>, which moves
  a block at once; here the driver is modelled as it is, split where it sleeps; theory \<open>Diskq\<close>
  proves that a request that goes through it and the device has the same effect.  The device is not part of the kernel.
\<close>

section \<open>State\<close>

definition NUM :: nat where "NUM = 8"

definition VRING_DESC_F_NEXT :: u16 where "VRING_DESC_F_NEXT = 1"
definition VRING_DESC_F_WRITE :: u16 where "VRING_DESC_F_WRITE = 2"
definition VIRTIO_BLK_T_IN :: u32 where "VIRTIO_BLK_T_IN = 0"
definition VIRTIO_BLK_T_OUT :: u32 where "VIRTIO_BLK_T_OUT = 1"

text \<open>The addresses a descriptor holds: \<^verbatim>\<open>&disk.ops[i]\<close>, \<^verbatim>\<open>b->data\<close> of buffer \<open>i\<close>, \<^verbatim>\<open>&disk.info[i].status\<close>.\<close>

datatype dma = DNull | DOps nat | DData nat | DStatus nat

record virtq_desc =
  d_addr :: dma
  d_len :: u32
  d_flags :: u16
  d_next :: u16

record virtio_blk_req =
  r_type :: u32
  r_reserved :: u32
  r_sector :: u64

text \<open>\<open>v_used_idx\<close> and \<open>v_used_ring\<close> are \<^verbatim>\<open>disk.used\<close>, which the device writes (of an entry only the field \<^verbatim>\<open>id\<close> is
  read); \<open>v_seen\<close> is \<^verbatim>\<open>disk.used_idx\<close>; \<open>v_notify\<close> counts the writes to the notify register.\<close>

record vdisk =
  v_desc :: "nat \<Rightarrow> virtq_desc"
  v_avail_idx :: u16
  v_avail_ring :: "nat \<Rightarrow> u16"
  v_used_idx :: u16
  v_used_ring :: "nat \<Rightarrow> u32"
  v_free :: "nat \<Rightarrow> bool"
  v_seen :: u16
  v_info_b :: "nat \<Rightarrow> nat option"
  v_info_status :: "nat \<Rightarrow> u8"
  v_ops :: "nat \<Rightarrow> virtio_blk_req"
  v_notify :: nat

text \<open>\<open>b_disk i\<close> is the field \<^verbatim>\<open>disk\<close> of buffer \<open>i\<close>: the device owns its data.\<close>

record kvirt = kimage +
  vdisk :: vdisk
  b_disk :: "nat \<Rightarrow> bool"

definition vd_at :: "(vdisk \<Rightarrow> vdisk) \<Rightarrow> 'a kvirt_scheme \<Rightarrow> 'a kvirt_scheme" where
  "vd_at f s = s\<lparr>vdisk := f (vdisk s)\<rparr>"

section \<open>Descriptors\<close>

definition alloc_desc :: "vdisk \<Rightarrow> nat option \<times> vdisk" where
  "alloc_desc d =
     (case find (v_free d) [0..<NUM] of
        Some i \<Rightarrow> (Some i, d\<lparr>v_free := (v_free d)(i := False)\<rparr>)
      | None \<Rightarrow> (None, d))"

definition clear_desc :: "nat \<Rightarrow> vdisk \<Rightarrow> vdisk" where
  "clear_desc i d =
     d\<lparr>v_desc := (v_desc d)(i := \<lparr>d_addr = DNull, d_len = 0, d_flags = 0, d_next = 0\<rparr>), v_free := (v_free d)(i := True)\<rparr>"

definition free_desc :: "nat \<Rightarrow> nat \<Rightarrow> 'a kvirt_scheme \<Rightarrow> (unit, 'a kvirt_scheme) res" where
  "free_desc h i s =
     (if i \<ge> NUM then Panic ''free_desc 1''
      else if v_free (vdisk s) i then Panic ''free_desc 2''
      else wakeup h ChVdisk (vd_at (clear_desc i) s))"

text \<open>
  \<^verbatim>\<open>free_chain\<close> follows the \<^verbatim>\<open>next\<close> fields.  Every turn frees a descriptor that was not free, so the ninth one
  panics in \<^verbatim>\<open>free_desc\<close>: \<open>Suc NUM\<close> turns are enough, and the value for none left is that panic.
\<close>

primrec free_chain :: "nat \<Rightarrow> nat \<Rightarrow> nat \<Rightarrow> 'a kvirt_scheme \<Rightarrow> (unit, 'a kvirt_scheme) res" where
  "free_chain h 0 i s = Panic ''free_desc 2''"
| "free_chain h (Suc k) i s =
     (let flag = d_flags (v_desc (vdisk s) i); nxt = d_next (v_desc (vdisk s) i)
      in kbind (free_desc h i s) (\<lambda>_ s.
         if flag AND VRING_DESC_F_NEXT \<noteq> 0 then free_chain h k (unat nxt) s else Ok () s))"

text \<open>\<^verbatim>\<open>alloc3_desc\<close>: on failure the descriptors taken so far are freed again.\<close>

definition alloc3_desc :: "nat \<Rightarrow> 'a kvirt_scheme \<Rightarrow> ((nat \<times> nat \<times> nat) option, 'a kvirt_scheme) res" where
  "alloc3_desc h s =
     (case alloc_desc (vdisk s) of
        (None, _) \<Rightarrow> Ok None s
      | (Some i0, d) \<Rightarrow>
          (let s = s\<lparr>vdisk := d\<rparr> in case alloc_desc (vdisk s) of
             (None, _) \<Rightarrow> kbind (free_desc h i0 s) (\<lambda>_ s. Ok None s)
           | (Some i1, d) \<Rightarrow>
               (let s = s\<lparr>vdisk := d\<rparr> in case alloc_desc (vdisk s) of
                  (None, _) \<Rightarrow> kbind (free_desc h i0 s) (\<lambda>_ s. kbind (free_desc h i1 s) (\<lambda>_ s. Ok None s))
                | (Some i2, d) \<Rightarrow> Ok (Some (i0, i1, i2)) (s\<lparr>vdisk := d\<rparr>))))"

section \<open>Requests\<close>

text \<open>From \<^verbatim>\<open>buf0->type\<close> to the write of the notify register, but for \<^verbatim>\<open>b->disk = 1\<close>.\<close>

definition format_req :: "bool \<Rightarrow> nat \<Rightarrow> u32 \<Rightarrow> nat \<Rightarrow> nat \<Rightarrow> nat \<Rightarrow> vdisk \<Rightarrow> vdisk" where
  "format_req write b blockno i0 i1 i2 d =
     (let d = d\<lparr>v_ops := (v_ops d)(i0 :=
            \<lparr>r_type = (if write then VIRTIO_BLK_T_OUT else VIRTIO_BLK_T_IN), r_reserved = 0,
             r_sector = ucast (blockno * of_nat (BSIZE div 512))\<rparr>)\<rparr>;
          d = d\<lparr>v_desc := (v_desc d)(i0 :=
            \<lparr>d_addr = DOps i0, d_len = 16, d_flags = VRING_DESC_F_NEXT, d_next = of_nat i1\<rparr>)\<rparr>;
          d = d\<lparr>v_desc := (v_desc d)(i1 :=
            \<lparr>d_addr = DData b, d_len = of_nat BSIZE, d_flags = (if write then 0 else VRING_DESC_F_WRITE) OR VRING_DESC_F_NEXT,
             d_next = of_nat i2\<rparr>)\<rparr>;
          d = d\<lparr>v_info_status := (v_info_status d)(i0 := 0xFF)\<rparr>;
          d = d\<lparr>v_desc := (v_desc d)(i2 :=
            \<lparr>d_addr = DStatus i0, d_len = 1, d_flags = VRING_DESC_F_WRITE, d_next = 0\<rparr>)\<rparr>;
          d = d\<lparr>v_info_b := (v_info_b d)(i0 := Some b)\<rparr>;
          d = d\<lparr>v_avail_ring := (v_avail_ring d)(unat (v_avail_idx d) mod NUM := of_nat i0)\<rparr>;
          d = d\<lparr>v_avail_idx := v_avail_idx d + 1\<rparr>
      in d\<lparr>v_notify := Suc (v_notify d)\<rparr>)"

text \<open>The wait for completion: \<open>i0\<close> is \<^verbatim>\<open>idx[0]\<close>.\<close>

definition vdisk_wait :: "nat \<Rightarrow> nat \<Rightarrow> nat \<Rightarrow> 'a kvirt_scheme \<Rightarrow> (unit, 'a kvirt_scheme) res" where
  "vdisk_wait h b i0 s =
     (if b_disk s b then sleep h (ChBuf b) LVdisk s
      else
        let s = vd_at (\<lambda>d. d\<lparr>v_info_b := (v_info_b d)(i0 := None)\<rparr>) s
        in kbind (free_chain h (Suc NUM) i0 s) (\<lambda>_ s. release h LVdisk s))"

definition vdisk_start :: "nat \<Rightarrow> nat \<Rightarrow> bool \<Rightarrow> 'a kvirt_scheme \<Rightarrow> (unit, 'a kvirt_scheme) res" where
  "vdisk_start h b write s =
     kbind (alloc3_desc h s) (\<lambda>r s.
     case r of
       None \<Rightarrow> sleep h ChVdisk LVdisk s
     | Some (i0, i1, i2) \<Rightarrow>
         let s = vd_at (format_req write b (b_blockno (bufs s b)) i0 i1 i2) s;
             s = s\<lparr>b_disk := (b_disk s)(b := True)\<rparr>
         in vdisk_wait h b i0 s)"

definition vdisk_rw :: "nat \<Rightarrow> nat \<Rightarrow> bool \<Rightarrow> 'a kvirt_scheme \<Rightarrow> (unit, 'a kvirt_scheme) res" where
  "vdisk_rw h b write s = kbind (acquire h LVdisk s) (\<lambda>_ s. vdisk_start h b write s)"

text \<open>The two places where \<^verbatim>\<open>virtio_disk_rw\<close> goes on after a sleep.\<close>

definition vdisk_start_resume :: "nat \<Rightarrow> nat \<Rightarrow> nat \<Rightarrow> bool \<Rightarrow> 'a kvirt_scheme \<Rightarrow> (unit, 'a kvirt_scheme) res" where
  "vdisk_start_resume h p b write s = kbind (sleep_resume h p LVdisk s) (\<lambda>_ s. vdisk_start h b write s)"

definition vdisk_wait_resume :: "nat \<Rightarrow> nat \<Rightarrow> nat \<Rightarrow> nat \<Rightarrow> 'a kvirt_scheme \<Rightarrow> (unit, 'a kvirt_scheme) res" where
  "vdisk_wait_resume h p b i0 s = kbind (sleep_resume h p LVdisk s) (\<lambda>_ s. vdisk_wait h b i0 s)"

section \<open>The interrupt handler\<close>

text \<open>
  One completion.  \<^verbatim>\<open>disk.info[id].b\<close> is dereferenced: a null pointer would fault.  The loop ends when \<^verbatim>\<open>used_idx\<close>
  has caught up with the device's index; the difference of the two, a 16-bit number, is the number of turns.
\<close>

definition vdisk_complete :: "nat \<Rightarrow> 'a kvirt_scheme \<Rightarrow> (unit, 'a kvirt_scheme) res" where
  "vdisk_complete h s =
     (let d = vdisk s; i = unat (v_used_ring d (unat (v_seen d) mod NUM))
      in if v_info_status d i \<noteq> 0 then Panic ''virtio_disk_intr status''
         else case v_info_b d i of
           None \<Rightarrow> Panic ''kerneltrap''
         | Some b \<Rightarrow>
             kbind (wakeup h (ChBuf b) (s\<lparr>b_disk := (b_disk s)(b := False)\<rparr>)) (\<lambda>_ s.
             Ok () (vd_at (\<lambda>d. d\<lparr>v_seen := v_seen d + 1\<rparr>) s)))"

definition virtio_disk_intr :: "nat \<Rightarrow> 'a kvirt_scheme \<Rightarrow> (unit, 'a kvirt_scheme) res" where
  "virtio_disk_intr h s =
     kbind (acquire h LVdisk s) (\<lambda>_ s.
     kbind (kfor (\<lambda>_ s. vdisk_complete h s) [0..<unat (v_used_idx (vdisk s) - v_seen (vdisk s))] s) (\<lambda>_ s.
     release h LVdisk s))"

end
