(* ===== verification/Life.thy ===== *)
theory Life
  imports Virtio
begin

text \<open>
  The life of a process, from \<^verbatim>\<open>kernel/proc.c\<close> and \<^verbatim>\<open>kernel/sysproc.c\<close>: the first process, \<^verbatim>\<open>kfork\<close> and
  \<^verbatim>\<open>kexit\<close>, which need the file system for the open files and the working directory.
\<close>

definition TRAPFRAME_SIZE :: nat where "TRAPFRAME_SIZE = 288"

definition userinit :: "nat \<Rightarrow> 'a kvirt_scheme \<Rightarrow> (unit, 'a kvirt_scheme) res" where
  "userinit h s =
     kbind (allocproc h s) (\<lambda>r s.
     case r of
       None \<Rightarrow> Panic ''userinit: allocproc''
     | Some p \<Rightarrow>
         kbind (namei h ''/'' (s\<lparr>initproc := Some p\<rparr>)) (\<lambda>ip s.
         release h (LProc p) (proc_at p (\<lambda>q. q\<lparr>p_cwd := ip, p_state := RUNNABLE\<rparr>) s)))"

section \<open>fork\<close>

text \<open>\<^verbatim>\<open>*(np->trapframe) = *(p->trapframe)\<close>, then \<^verbatim>\<open>a0 = 0\<close>.\<close>

definition fork_registers :: "nat \<Rightarrow> nat \<Rightarrow> 'a kvirt_scheme \<Rightarrow> 'a kvirt_scheme" where
  "fork_registers p np s =
     (let s = s\<lparr>pmem := store_bytes (p_trapframe (procs s np))
                (load_bytes (pmem s) (p_trapframe (procs s p)) TRAPFRAME_SIZE) (pmem s)\<rparr>
      in tf_set tf_a0 0 np s)"

definition fork_files :: "nat \<Rightarrow> nat \<Rightarrow> nat \<Rightarrow> 'a kvirt_scheme \<Rightarrow> (unit, 'a kvirt_scheme) res" where
  "fork_files h p np s =
     kfor (\<lambda>fd s.
       case p_ofile (procs s p) fd of
         None \<Rightarrow> Ok () s
       | Some f \<Rightarrow> kbind (filedup h f s) (\<lambda>f s. Ok () (set_ofile np fd (Some f) s))) [0..<NOFILE] s"

definition kfork :: "nat \<Rightarrow> 'a kvirt_scheme \<Rightarrow> (u32, 'a kvirt_scheme) res" where
  "kfork h s =
     kbind (curproc h s) (\<lambda>p s.
     kbind (allocproc h s) (\<lambda>r s.
     case r of
       None \<Rightarrow> Ok (-1) s
     | Some np \<Rightarrow>
         kbind (uvmcopy h (p_pagetable (procs s p)) (p_pagetable (procs s np)) (p_sz (procs s p)) s) (\<lambda>r s.
         if r < 0 then
           kbind (freeproc h np s) (\<lambda>_ s.
           kbind (release h (LProc np) s) (\<lambda>_ s. Ok (-1) s))
         else
           let s = proc_at np (\<lambda>q. q\<lparr>p_sz := p_sz (procs s p)\<rparr>) s;
               s = fork_registers p np s
           in kbind (fork_files h p np s) (\<lambda>_ s.
              kbind (case p_cwd (procs s p) of None \<Rightarrow> Panic ''kerneltrap'' | Some ip \<Rightarrow> idup h ip s) (\<lambda>ip s.
              let s = proc_at np (\<lambda>q. q\<lparr>p_cwd := Some ip, p_name := safestrcpy (p_name q) (p_name (procs s p)) 16\<rparr>) s;
                  pid = p_pid (procs s np)
              in kbind (release h (LProc np) s) (\<lambda>_ s.
                 kbind (acquire h LWait s) (\<lambda>_ s.
                 kbind (release h LWait (proc_at np (\<lambda>q. q\<lparr>p_parent := Some p\<rparr>) s)) (\<lambda>_ s.
                 kbind (acquire h (LProc np) s) (\<lambda>_ s.
                 kbind (release h (LProc np) (proc_at np (\<lambda>q. q\<lparr>p_state := RUNNABLE\<rparr>) s)) (\<lambda>_ s.
                 Ok pid s))))))))))"

definition sys_fork :: "nat \<Rightarrow> 'a kvirt_scheme \<Rightarrow> (u64, 'a kvirt_scheme) res" where
  "sys_fork h s = kbind (kfork h s) (\<lambda>pid s. Ok (scast pid) s)"

section \<open>exit\<close>

definition exit_files :: "nat \<Rightarrow> nat \<Rightarrow> 'a kvirt_scheme \<Rightarrow> (unit, 'a kvirt_scheme) res" where
  "exit_files h p s =
     kfor (\<lambda>fd s.
       case p_ofile (procs s p) fd of
         None \<Rightarrow> Ok () s
       | Some f \<Rightarrow> kbind (fileclose h f s) (\<lambda>_ s. Ok () (set_ofile p fd None s))) [0..<NOFILE] s"

text \<open>\<^verbatim>\<open>kexit\<close> never returns: it ends in \<^verbatim>\<open>sched()\<close>, or in a panic.\<close>

definition kexit :: "nat \<Rightarrow> u32 \<Rightarrow> 'a kvirt_scheme \<Rightarrow> ('b, 'a kvirt_scheme) res" where
  "kexit h status s =
     kbind (curproc h s) (\<lambda>p s.
     if Some p = initproc s then Panic ''init exiting''
     else
       kbind (exit_files h p s) (\<lambda>_ s.
       kbind (begin_op h s) (\<lambda>_ s.
       kbind (case p_cwd (procs s p) of None \<Rightarrow> Panic ''kerneltrap'' | Some ip \<Rightarrow> iput h ip s) (\<lambda>_ s.
       kbind (end_op h s) (\<lambda>_ s.
       kbind (acquire h LWait (proc_at p (\<lambda>q. q\<lparr>p_cwd := None\<rparr>) s)) (\<lambda>_ s.
       kbind (reparent h p s) (\<lambda>_ s.
       kbind (wakeup h (proc_chan (p_parent (procs s p))) s) (\<lambda>_ s.
       kbind (acquire h (LProc p) s) (\<lambda>_ s.
       kbind (release h LWait (proc_at p (\<lambda>q. q\<lparr>p_xstate := status, p_state := ZOMBIE\<rparr>) s)) (\<lambda>_ s.
       kbind (sched h s) (\<lambda>_ s. Panic ''zombie exit'')))))))))))"

definition sys_exit :: "nat \<Rightarrow> 'a kvirt_scheme \<Rightarrow> (u64, 'a kvirt_scheme) res" where
  "sys_exit h s = kbind (argint h 0 s) (\<lambda>n s. kexit h n s)"

end
