(* ===== verification/Trap.thy ===== *)
theory Trap
  imports Life
begin

text \<open>
  Interrupts, traps and the system call table: \<^verbatim>\<open>kernel/trap.c\<close>, \<^verbatim>\<open>kernel/plic.c\<close>, \<^verbatim>\<open>syscall\<close> of
  \<^verbatim>\<open>kernel/syscall.c\<close> and \<^verbatim>\<open>forkret\<close> of \<^verbatim>\<open>kernel/proc.c\<close>.  The supervisor registers a hart reads and writes are
  fields of the state; of \<^verbatim>\<open>sstatus\<close>, \<open>sie\<close> is the bit \<^verbatim>\<open>SIE\<close>, \<open>spp\<close> and \<open>spie\<close> are \<^verbatim>\<open>SPP\<close> and \<^verbatim>\<open>SPIE\<close>.  The
  memory-mapped registers of the interrupt controller are a map from addresses to words.
\<close>

section \<open>State\<close>

record ktrap = kvirt +
  spp :: "nat \<Rightarrow> bool"
  spie :: "nat \<Rightarrow> bool"
  sepc :: "nat \<Rightarrow> u64"
  scause :: "nat \<Rightarrow> u64"
  stval :: "nat \<Rightarrow> u64"
  stvec :: "nat \<Rightarrow> u64"
  stimecmp :: "nat \<Rightarrow> u64"
  mtime :: u64
  plic_regs :: "u64 \<Rightarrow> u32"
  log_counter :: u32
  forkret_first :: bool
  k_kernelvec :: u64
  k_uservec :: u64
  k_usertrap :: u64

definition LOG_INTERVAL :: u32 where "LOG_INTERVAL = 100"

definition UART0_IRQ :: u32 where "UART0_IRQ = 10"
definition VIRTIO0_IRQ :: u32 where "VIRTIO0_IRQ = 1"

definition PLIC_SENABLE :: "nat \<Rightarrow> u64" where "PLIC_SENABLE hart = PLIC + 0x2080 + of_nat hart * 0x100"
definition PLIC_SPRIORITY :: "nat \<Rightarrow> u64" where "PLIC_SPRIORITY hart = PLIC + 0x201000 + of_nat hart * 0x2000"
definition PLIC_SCLAIM :: "nat \<Rightarrow> u64" where "PLIC_SCLAIM hart = PLIC + 0x201004 + of_nat hart * 0x2000"

section \<open>The interrupt controller\<close>

definition plic_write :: "u64 \<Rightarrow> u32 \<Rightarrow> 'a ktrap_scheme \<Rightarrow> 'a ktrap_scheme" where
  "plic_write a v s = s\<lparr>plic_regs := (plic_regs s)(a := v)\<rparr>"

definition plicinit :: "'a ktrap_scheme \<Rightarrow> 'a ktrap_scheme" where
  "plicinit s = plic_write (PLIC + ucast (VIRTIO0_IRQ * 4)) 1 (plic_write (PLIC + ucast (UART0_IRQ * 4)) 1 s)"

definition plicinithart :: "nat \<Rightarrow> 'a ktrap_scheme \<Rightarrow> 'a ktrap_scheme" where
  "plicinithart h s =
     plic_write (PLIC_SPRIORITY h) 0
       (plic_write (PLIC_SENABLE h) (push_bit (unat UART0_IRQ) 1 OR push_bit (unat VIRTIO0_IRQ) 1) s)"

definition plic_claim :: "nat \<Rightarrow> 'a ktrap_scheme \<Rightarrow> u32" where
  "plic_claim h s = plic_regs s (PLIC_SCLAIM h)"

definition plic_complete :: "nat \<Rightarrow> u32 \<Rightarrow> 'a ktrap_scheme \<Rightarrow> 'a ktrap_scheme" where
  "plic_complete h irq s = plic_write (PLIC_SCLAIM h) irq s"

section \<open>Interrupts\<close>

definition trapinit :: "'a ktrap_scheme \<Rightarrow> 'a ktrap_scheme" where
  "trapinit s = initlock LTicks ''time'' s"

definition trapinithart :: "nat \<Rightarrow> 'a ktrap_scheme \<Rightarrow> 'a ktrap_scheme" where
  "trapinithart h s = s\<lparr>stvec := (stvec s)(h := k_kernelvec s)\<rparr>"

definition clockintr :: "nat \<Rightarrow> 'a ktrap_scheme \<Rightarrow> (unit, 'a ktrap_scheme) res" where
  "clockintr h s =
     kbind
       (if h = 0 then
          kbind (acquire h LTicks s) (\<lambda>_ s.
          kbind (wakeup h ChTicks (s\<lparr>ticks := ticks s + 1\<rparr>)) (\<lambda>_ s.
          kbind (release h LTicks s) (\<lambda>_ s.
          kbind (update_sched_stats h s) (\<lambda>_ s.
          let s = s\<lparr>log_counter := log_counter s + 1\<rparr>
          in if log_counter s mod LOG_INTERVAL = 0 then log_scheduling_state h s else Ok () s))))
        else Ok () s) (\<lambda>_ s.
     Ok () (s\<lparr>stimecmp := (stimecmp s)(h := mtime s + 1000000)\<rparr>))"

definition devintr :: "nat \<Rightarrow> 'a ktrap_scheme \<Rightarrow> (int, 'a ktrap_scheme) res" where
  "devintr h s =
     (if scause s h = 0x8000000000000009 then
        let irq = plic_claim h s
        in kbind
             (if irq = UART0_IRQ then uartintr h s
              else if irq = VIRTIO0_IRQ then virtio_disk_intr h s
              else if irq \<noteq> 0 then printf h (''unexpected interrupt irq=%d'' @ NL) [AInt irq] s
              else Ok () s) (\<lambda>_ s.
           Ok 1 (if irq \<noteq> 0 then plic_complete h irq s else s))
      else if scause s h = 0x8000000000000005 then kbind (clockintr h s) (\<lambda>_ s. Ok 2 s)
      else Ok 0 s)"

text \<open>\<^verbatim>\<open>kerneltrap\<close> restores the trap registers from its local copies; after a \<^verbatim>\<open>yield\<close> that is
  \<open>kerneltrap_resume\<close>, on the hart that runs the process again.\<close>

definition restore_trap :: "nat \<Rightarrow> u64 \<Rightarrow> bool \<Rightarrow> bool \<Rightarrow> 'a ktrap_scheme \<Rightarrow> 'a ktrap_scheme" where
  "restore_trap h epc p pie s =
     s\<lparr>sepc := (sepc s)(h := epc), spp := (spp s)(h := p), spie := (spie s)(h := pie), sie := (sie s)(h := False)\<rparr>"

definition kerneltrap :: "nat \<Rightarrow> 'a ktrap_scheme \<Rightarrow> (unit, 'a ktrap_scheme) res" where
  "kerneltrap h s =
     (let epc = sepc s h; p = spp s h; pie = spie s h; cause = scause s h
      in if \<not> p then Panic ''kerneltrap: not from supervisor mode''
         else if intr_get h s then Panic ''kerneltrap: interrupts enabled''
         else
           kbind (devintr h s) (\<lambda>which s.
           if which = 0 then
             kbind (printf h (''scause=0x%lx sepc=0x%lx stval=0x%lx'' @ NL)
               [AWord cause, AWord (sepc s h), AWord (stval s h)] s) (\<lambda>_ s. Panic ''kerneltrap'')
           else
             kbind (if which = 2
                    then kbind (myproc h s) (\<lambda>q s. if q \<noteq> None then yield h s else Ok () s)
                    else Ok () s) (\<lambda>_ s.
             Ok () (restore_trap h epc p pie s))))"

definition kerneltrap_resume :: "nat \<Rightarrow> nat \<Rightarrow> u64 \<Rightarrow> bool \<Rightarrow> bool \<Rightarrow> 'a ktrap_scheme \<Rightarrow> (unit, 'a ktrap_scheme) res" where
  "kerneltrap_resume h i epc p pie s =
     kbind (yield_resume h i s) (\<lambda>_ s. Ok () (restore_trap h epc p pie s))"

section \<open>System calls\<close>

definition SYS_fork :: nat where "SYS_fork = 1"
definition SYS_exit :: nat where "SYS_exit = 2"
definition SYS_wait :: nat where "SYS_wait = 3"
definition SYS_pipe :: nat where "SYS_pipe = 4"
definition SYS_read :: nat where "SYS_read = 5"
definition SYS_kill :: nat where "SYS_kill = 6"
definition SYS_exec :: nat where "SYS_exec = 7"
definition SYS_fstat :: nat where "SYS_fstat = 8"
definition SYS_chdir :: nat where "SYS_chdir = 9"
definition SYS_dup :: nat where "SYS_dup = 10"
definition SYS_getpid :: nat where "SYS_getpid = 11"
definition SYS_sbrk :: nat where "SYS_sbrk = 12"
definition SYS_pause :: nat where "SYS_pause = 13"
definition SYS_uptime :: nat where "SYS_uptime = 14"
definition SYS_open :: nat where "SYS_open = 15"
definition SYS_write :: nat where "SYS_write = 16"
definition SYS_mknod :: nat where "SYS_mknod = 17"
definition SYS_unlink :: nat where "SYS_unlink = 18"
definition SYS_link :: nat where "SYS_link = 19"
definition SYS_mkdir :: nat where "SYS_mkdir = 20"
definition SYS_close :: nat where "SYS_close = 21"
definition SYS_set_llm_advice :: nat where "SYS_set_llm_advice = 22"

lemmas SYS_defs =
  SYS_fork_def SYS_exit_def SYS_wait_def SYS_pipe_def SYS_read_def SYS_kill_def SYS_exec_def SYS_fstat_def
  SYS_chdir_def SYS_dup_def SYS_getpid_def SYS_sbrk_def SYS_pause_def SYS_uptime_def SYS_open_def SYS_write_def
  SYS_mknod_def SYS_unlink_def SYS_link_def SYS_mkdir_def SYS_close_def SYS_set_llm_advice_def

definition syscalls :: "(nat \<times> (nat \<Rightarrow> 'a ktrap_scheme \<Rightarrow> (u64, 'a ktrap_scheme) res)) list" where
  "syscalls =
     [(SYS_fork, sys_fork), (SYS_exit, sys_exit), (SYS_wait, sys_wait), (SYS_pipe, sys_pipe), (SYS_read, sys_read),
      (SYS_kill, sys_kill), (SYS_exec, sys_exec), (SYS_fstat, sys_fstat), (SYS_chdir, sys_chdir), (SYS_dup, sys_dup),
      (SYS_getpid, sys_getpid), (SYS_sbrk, sys_sbrk), (SYS_pause, sys_pause), (SYS_uptime, sys_uptime),
      (SYS_open, sys_open), (SYS_write, sys_write), (SYS_mknod, sys_mknod), (SYS_unlink, sys_unlink),
      (SYS_link, sys_link), (SYS_mkdir, sys_mkdir), (SYS_close, sys_close),
      (SYS_set_llm_advice, sys_set_llm_advice)]"

definition syscall :: "nat \<Rightarrow> 'a ktrap_scheme \<Rightarrow> (unit, 'a ktrap_scheme) res" where
  "syscall h s =
     kbind (curproc h s) (\<lambda>p s.
     let num = ucast (tf_get tf_a7 p s) :: u32
     in case (if sint num > 0 then map_of syscalls (unat num) else None) of
          Some f \<Rightarrow> kbind (f h s) (\<lambda>v s. Ok () (tf_set tf_a0 v p s))
        | None \<Rightarrow>
            kbind (printf h (''%d %s: unknown sys call %d'' @ NL)
              [AInt (p_pid (procs s p)), AStr (Some (p_name (procs s p))), AInt num] s) (\<lambda>_ s.
            Ok () (tf_set tf_a0 (-1) p s)))"

section \<open>Traps from user space\<close>

definition tf_kernel_satp :: u64 where "tf_kernel_satp = 0"
definition tf_kernel_sp :: u64 where "tf_kernel_sp = 8"
definition tf_kernel_trap :: u64 where "tf_kernel_trap = 16"
definition tf_kernel_hartid :: u64 where "tf_kernel_hartid = 32"

definition prepare_return :: "nat \<Rightarrow> 'a ktrap_scheme \<Rightarrow> (unit, 'a ktrap_scheme) res" where
  "prepare_return h s =
     kbind (curproc h s) (\<lambda>p s.
     let s = intr_off h s;
         s = s\<lparr>stvec := (stvec s)(h := TRAMPOLINE + (k_uservec s - k_trampoline s))\<rparr>;
         s = tf_set tf_kernel_satp (satp s h) p s;
         s = tf_set tf_kernel_sp (p_kstack (procs s p) + PGSIZE) p s;
         s = tf_set tf_kernel_trap (k_usertrap s) p s;
         s = tf_set tf_kernel_hartid (of_nat h) p s;
         s = s\<lparr>spp := (spp s)(h := False), spie := (spie s)(h := True)\<rparr>
     in Ok () (s\<lparr>sepc := (sepc s)(h := tf_get tf_epc p s)\<rparr>))"

text \<open>The end of \<^verbatim>\<open>usertrap\<close>, from the second test of \<^verbatim>\<open>killed\<close> on; a trap that slept or yielded goes on here too.\<close>

definition usertrap_return :: "nat \<Rightarrow> nat \<Rightarrow> 'a ktrap_scheme \<Rightarrow> (u64, 'a ktrap_scheme) res" where
  "usertrap_return h p s =
     kbind (prepare_return h s) (\<lambda>_ s. Ok (MAKE_SATP (p_pagetable (procs s p))) s)"

definition usertrap_end :: "nat \<Rightarrow> nat \<Rightarrow> int \<Rightarrow> 'a ktrap_scheme \<Rightarrow> (u64, 'a ktrap_scheme) res" where
  "usertrap_end h p which s =
     kbind (killed h p s) (\<lambda>k s.
     if k \<noteq> 0 then kexit h (-1) s
     else kbind (if which = 2 then yield h s else Ok () s) (\<lambda>_ s. usertrap_return h p s))"

definition usertrap_resume :: "nat \<Rightarrow> nat \<Rightarrow> 'a ktrap_scheme \<Rightarrow> (u64, 'a ktrap_scheme) res" where
  "usertrap_resume h p s = kbind (yield_resume h p s) (\<lambda>_ s. usertrap_return h p s)"

definition usertrap_fault :: "nat \<Rightarrow> nat \<Rightarrow> 'a ktrap_scheme \<Rightarrow> (unit, 'a ktrap_scheme) res" where
  "usertrap_fault h p s =
     kbind (if scause s h = 15 \<or> scause s h = 13 then vmfault h (p_pagetable (procs s p)) (stval s h) s else Ok 0 s) (\<lambda>pa s.
     if pa \<noteq> 0 then Ok () s
     else
       kbind (printf h (''usertrap(): unexpected scause 0x%lx pid=%d'' @ NL)
         [AWord (scause s h), AInt (p_pid (procs s p))] s) (\<lambda>_ s.
       kbind (printf h (''            sepc=0x%lx stval=0x%lx'' @ NL) [AWord (sepc s h), AWord (stval s h)] s) (\<lambda>_ s.
       setkilled h p s)))"

definition usertrap :: "nat \<Rightarrow> 'a ktrap_scheme \<Rightarrow> (u64, 'a ktrap_scheme) res" where
  "usertrap h s =
     (if spp s h then Panic ''usertrap: not from user mode''
      else
        let s = s\<lparr>stvec := (stvec s)(h := k_kernelvec s)\<rparr>
        in kbind (curproc h s) (\<lambda>p s.
           let s = tf_set tf_epc (sepc s h) p s
           in if scause s h = 8 then
                kbind (killed h p s) (\<lambda>k s.
                if k \<noteq> 0 then kexit h (-1) s
                else
                  let s = tf_set tf_epc (tf_get tf_epc p s + 4) p s
                  in kbind (syscall h (intr_on h s)) (\<lambda>_ s. usertrap_end h p 0 s))
              else
                kbind (devintr h s) (\<lambda>which s.
                if which \<noteq> 0 then usertrap_end h p which s
                else kbind (usertrap_fault h p s) (\<lambda>_ s. usertrap_end h p 0 s))))"

section \<open>The first return to user space\<close>

text \<open>\<^verbatim>\<open>forkret\<close>, entered from the scheduler with \<^verbatim>\<open>p->lock\<close> held; its result is the argument of the jump to
  \<^verbatim>\<open>userret\<close> in the trampoline.\<close>

definition forkret :: "nat \<Rightarrow> 'a ktrap_scheme \<Rightarrow> (u64, 'a ktrap_scheme) res" where
  "forkret h s =
     kbind (curproc h s) (\<lambda>p s.
     kbind (release h (LProc p) s) (\<lambda>_ s.
     kbind
       (if forkret_first s then
          kbind (fsinit h ROOTDEV s) (\<lambda>_ s.
          kbind (kexec h ''/init'' [map (\<lambda>c. of_char c) ''/init''] (s\<lparr>forkret_first := False\<rparr>)) (\<lambda>r s.
          if (of_int r :: u64) = -1 then Panic ''exec'' else Ok () (tf_set tf_a0 (of_int r) p s)))
        else Ok () s) (\<lambda>_ s. usertrap_return h p s)))"

section \<open>A concrete state\<close>

text \<open>A kernel at rest: process 1 runs on every CPU, its trap frame is at \<open>0x80060000\<close> and holds the system call number and
  first argument, descriptor 0 is the open file 5, and no lock is held.\<close>

definition demo_proc :: proc where
  "demo_proc = (slot RUNNING ChNull 2)\<lparr>p_trapframe := 0x80060000, p_sz := 0x3000, p_ofile := (\<lambda>_. None)(0 := Some 5)\<rparr>"

definition demo_mem :: "u64 \<Rightarrow> u64 \<Rightarrow> mem" where
  "demo_mem num a0 = store64 (0x80060000 + tf_a7) num (store64 (0x80060000 + tf_a0) a0 (\<lambda>_. 0))"

definition demo_file :: openfile where
  "demo_file = \<lparr>f_type = FD_NONE, f_ref = 0, f_readable = False, f_writable = False, f_pipe = 0, f_ip = None, f_off = 0, f_major = 0\<rparr>"

definition demo_kernel :: "u64 \<Rightarrow> u64 \<Rightarrow> ktrap" where
  "demo_kernel num a0 =
     \<lparr>cpus = \<lambda>_. \<lparr>c_proc = Some 1, c_noff = 0, c_intena = False\<rparr>, sie = \<lambda>_. False,
      locks = \<lambda>_. \<lparr>lk_locked = False, lk_name = [], lk_cpu = None\<rparr>, uart_out = [],
      pmem = demo_mem num a0, freelist = 0, k_end = 0x80022010, procs = three(1 := demo_proc), initproc = Some 0, nextpid = 4,
      ticks = 100, llm_recommended_pid = -1, llm_advice_valid = 0, llm_advice_timestamp = 0,
      k_forkret = 0x80001000, k_trampoline = 0x80007000, k_etext = 0x80008000, kernel_pagetable = 0, satp = \<lambda>_. 0,
      pipes = \<lambda>_. \<lparr>pi_data = \<lambda>_. 0, pi_nread = 0, pi_nwrite = 0, pi_readopen = False, pi_writeopen = False\<rparr>,
      sleeplocks = \<lambda>_. \<lparr>sl_locked = False, sl_name = [], sl_pid = 0\<rparr>,
      bufs = \<lambda>_. \<lparr>b_valid = False, b_dev = 0, b_blockno = 0, b_refcnt = 0, b_data = \<lambda>_. 0\<rparr>,
      b_prev = \<lambda>_. BHead, b_next = \<lambda>_. BHead, disk = \<lambda>_ _. 0, disk_writes = [],
      log_start = 2, log_outstanding = 0, log_committing = False, log_dev = ROOTDEV, lh_n = 0, lh_block = \<lambda>_. 0,
      sb = demo_sb,
      inodes = \<lambda>_. \<lparr>i_dev = 0, i_inum = 0, i_ref = 0, i_valid = False, i_type = 0, i_major = 0, i_minor = 0,
        i_nlink = 0, i_size = 0, i_addrs = \<lambda>_. 0\<rparr>,
      k_de = 0x87000000,
      cons = \<lparr>c_buf = \<lambda>_. NUL, c_r = 0, c_w = 0, c_e = 0\<rparr>, tx_busy = False, uart_in = [], uart_idle = True,
      files = (\<lambda>_. demo_file)(5 := demo_file\<lparr>f_type := FD_DEVICE, f_ref := 1, f_readable := True, f_ip := Some 0, f_major := 1\<rparr>),
      devsw = \<lambda>_. \<lparr>dev_read = None, dev_write = None\<rparr>, k_pad = [], k_elf = 0x87001000, k_ph = 0x87002000,
      vdisk = \<lparr>v_desc = \<lambda>_. \<lparr>d_addr = DNull, d_len = 0, d_flags = 0, d_next = 0\<rparr>, v_avail_idx = 0, v_avail_ring = \<lambda>_. 0,
        v_used_idx = 0, v_used_ring = \<lambda>_. 0, v_free = \<lambda>_. True, v_seen = 0, v_info_b = \<lambda>_. None,
        v_info_status = \<lambda>_. 0, v_ops = \<lambda>_. \<lparr>r_type = 0, r_reserved = 0, r_sector = 0\<rparr>, v_notify = 0\<rparr>,
      b_disk = \<lambda>_. False,
      spp = \<lambda>_. False, spie = \<lambda>_. False, sepc = \<lambda>_. 0x100, scause = \<lambda>_. 8, stval = \<lambda>_. 0, stvec = \<lambda>_. 0, stimecmp = \<lambda>_. 0,
      mtime = 5000, plic_regs = \<lambda>_. 0, log_counter = 99, forkret_first = False, k_kernelvec = 0x80005000,
      k_uservec = 0x80007000, k_usertrap = 0x80002000\<rparr>"

lemma demo_kernel_simps [simp]:
  "cpu_wf h (demo_kernel n a)" "lock_free l (demo_kernel n a)" "noff h (demo_kernel n a) = 0"
  "c_proc (cpus (demo_kernel n a) h) = Some 1" "procs (demo_kernel n a) = three(1 := demo_proc)"
  "proc_locks_free (demo_kernel n a)" "scause (demo_kernel n a) h = 8" "spp (demo_kernel n a) h = False"
  "uart_out (demo_kernel n a) = []" "log_counter (demo_kernel n a) = 99" "ticks (demo_kernel n a) = 100"
  by (simp_all add: demo_kernel_def cpu_wf_def lock_free_def proc_locks_free_def)

lemma load64_store64_apart:
  assumes "8 \<le> unat (b - a)" and "8 \<le> unat (a - b)"
  shows "load64 (store64 a v m) b = load64 m b"
proof (rule load_le_cong, goal_cases)
  case (1 c)
  then have c: "in_range b 8 c" .
  have "\<not> in_range a 8 c"
  proof
    assume "in_range a 8 c"
    with c have "unat (c - a) < 8" "unat (c - b) < 8" by (simp_all add: in_range_def)
    moreover have "b - a = (c - a) - (c - b)" "a - b = (c - b) - (c - a)" by simp_all
    ultimately show False
      using assms unat_sub [of "c - b" "c - a"] unat_sub [of "c - a" "c - b"] linorder_linear [of "c - b" "c - a"] by fastforce
  qed
  then show "store64 a v m c = m c" by (simp add: store_le_other)
qed simp

end
