(* ===== verification/Frame.thy ===== *)
theory Frame
  imports Trap
begin

text \<open>
  What kernel operations leave alone.  The locale \<open>kernel_inv\<close> fixes an assertion \<open>P\<close> on the kernel state that survives every
  update of memory, locks, buffers, the log, inodes, the console, and every update of the process table and
  the file table that keeps the descriptors of the processes, revives no dead process, and keeps the reference counts
  and types of the open files.  In it every operation that makes no other updates is shown to preserve \<open>P\<close>, also at the
  points where it gives up the CPU.  The locale \<open>kernel_inv_any\<close> adds all updates of the two tables and with them the
  remaining operations.  The first is interpreted for the reference counts of open files, the second for the
  scheduling advice.
\<close>

named_theorems keeps \<open>operations that preserve the assertion\<close>

text \<open>A slot of the process table without a process, or with one that has exited.\<close>

definition dead :: "proc \<Rightarrow> bool" where
  "dead p \<longleftrightarrow> p_state p = UNUSED \<or> p_state p = ZOMBIE"

locale kernel_inv =
  fixes P :: "'a kvirt_scheme \<Rightarrow> bool"
  assumes keeps_cpus: "\<And>s c. P s \<Longrightarrow> (\<And>h. c_proc (c h) = c_proc (cpus s h)) \<Longrightarrow> P (s\<lparr>cpus := c\<rparr>)"
    and keeps_procs: "\<And>s q. P s \<Longrightarrow> (\<And>p. p_ofile (q p) = p_ofile (procs s p) \<and> (dead (q p) \<longrightarrow> dead (procs s p))) \<Longrightarrow>
      P (s\<lparr>procs := q\<rparr>)"
    and keeps_files: "\<And>s fl. P s \<Longrightarrow> (\<And>f. f_ref (fl f) = f_ref (files s f) \<and> f_type (fl f) = f_type (files s f)) \<Longrightarrow>
      P (s\<lparr>files := fl\<rparr>)"
    and keeps_sie: "\<And>s x. P s \<Longrightarrow> P (s\<lparr>sie := x\<rparr>)"
    and keeps_locks: "\<And>s x. P s \<Longrightarrow> P (s\<lparr>locks := x\<rparr>)"
    and keeps_uart_out: "\<And>s x. P s \<Longrightarrow> P (s\<lparr>uart_out := x\<rparr>)"
    and keeps_pmem: "\<And>s x. P s \<Longrightarrow> P (s\<lparr>pmem := x\<rparr>)"
    and keeps_freelist: "\<And>s x. P s \<Longrightarrow> P (s\<lparr>freelist := x\<rparr>)"
    and keeps_nextpid: "\<And>s x. P s \<Longrightarrow> P (s\<lparr>nextpid := x\<rparr>)"
    and keeps_kernel_pagetable: "\<And>s x. P s \<Longrightarrow> P (s\<lparr>kernel_pagetable := x\<rparr>)"
    and keeps_satp: "\<And>s x. P s \<Longrightarrow> P (s\<lparr>satp := x\<rparr>)"
    and keeps_pipes: "\<And>s x. P s \<Longrightarrow> P (s\<lparr>pipes := x\<rparr>)"
    and keeps_sleeplocks: "\<And>s x. P s \<Longrightarrow> P (s\<lparr>sleeplocks := x\<rparr>)"
    and keeps_bufs: "\<And>s x. P s \<Longrightarrow> P (s\<lparr>bufs := x\<rparr>)"
    and keeps_b_prev: "\<And>s x. P s \<Longrightarrow> P (s\<lparr>b_prev := x\<rparr>)"
    and keeps_b_next: "\<And>s x. P s \<Longrightarrow> P (s\<lparr>b_next := x\<rparr>)"
    and keeps_disk: "\<And>s x. P s \<Longrightarrow> P (s\<lparr>disk := x\<rparr>)"
    and keeps_disk_writes: "\<And>s x. P s \<Longrightarrow> P (s\<lparr>disk_writes := x\<rparr>)"
    and keeps_log_start: "\<And>s x. P s \<Longrightarrow> P (s\<lparr>log_start := x\<rparr>)"
    and keeps_log_outstanding: "\<And>s x. P s \<Longrightarrow> P (s\<lparr>log_outstanding := x\<rparr>)"
    and keeps_log_committing: "\<And>s x. P s \<Longrightarrow> P (s\<lparr>log_committing := x\<rparr>)"
    and keeps_log_dev: "\<And>s x. P s \<Longrightarrow> P (s\<lparr>log_dev := x\<rparr>)"
    and keeps_lh_n: "\<And>s x. P s \<Longrightarrow> P (s\<lparr>lh_n := x\<rparr>)"
    and keeps_lh_block: "\<And>s x. P s \<Longrightarrow> P (s\<lparr>lh_block := x\<rparr>)"
    and keeps_sb: "\<And>s x. P s \<Longrightarrow> P (s\<lparr>sb := x\<rparr>)"
    and keeps_inodes: "\<And>s x. P s \<Longrightarrow> P (s\<lparr>inodes := x\<rparr>)"
    and keeps_cons: "\<And>s x. P s \<Longrightarrow> P (s\<lparr>cons := x\<rparr>)"
    and keeps_tx_busy: "\<And>s x. P s \<Longrightarrow> P (s\<lparr>tx_busy := x\<rparr>)"
    and keeps_uart_in: "\<And>s x. P s \<Longrightarrow> P (s\<lparr>uart_in := x\<rparr>)"
    and keeps_devsw: "\<And>s x. P s \<Longrightarrow> P (s\<lparr>devsw := x\<rparr>)"
begin

lemmas keeps_fields [simp] =
  keeps_sie keeps_locks keeps_uart_out keeps_pmem keeps_freelist keeps_nextpid
  keeps_kernel_pagetable keeps_satp keeps_pipes keeps_sleeplocks keeps_bufs keeps_b_prev
  keeps_b_next keeps_disk keeps_disk_writes keeps_log_start keeps_log_outstanding keeps_log_committing
  keeps_log_dev keeps_lh_n keeps_lh_block keeps_sb keeps_inodes keeps_cons
  keeps_tx_busy keeps_uart_in keeps_devsw

lemma keeps_proc_at [simp]:
  "P s \<Longrightarrow> p_ofile (f (procs s i)) = p_ofile (procs s i) \<Longrightarrow> (dead (f (procs s i)) \<longrightarrow> dead (procs s i)) \<Longrightarrow> P (proc_at i f s)"
  by (auto simp: proc_at_def split: if_splits intro!: keeps_procs)

lemma keeps_file_at [simp]:
  "P s \<Longrightarrow> f_ref (u (files s f)) = f_ref (files s f) \<Longrightarrow> f_type (u (files s f)) = f_type (files s f) \<Longrightarrow> P (file_at f u s)"
  by (auto simp: file_at_def intro!: keeps_files)

lemma keeps_updates [simp]:
  assumes "P s"
  shows "P (push_off h s)" "P (initlock l nm s)" "P (pipe_at a pu s)" "P (sl_at k su s)" "P (buf_at i bu s)"
    "P (set_prev b b2 s)" "P (set_next b b2 s)" "P (inode_at i iu s)" "P (set_data i d s)" "P (cons_at cu s)"
    "P (tf_set off w p s)" "P (count_io q s)" "P (intr_off h s)" "P (intr_on h s)" "P (sched_resume h p s)"
  using assms
  by (simp_all add: push_off_def Let_def intr_off_def intr_on_def initlock_def pipe_at_def sl_at_def buf_at_def set_prev_def
      set_next_def inode_at_def set_data_def cons_at_def tf_set_def count_io_def sched_resume_def keeps_cpus dead_def split: option.split)

lemma keeps_links [simp]:
  assumes "P s"
  shows "P (link_front i s)" "P (unlink i s)" "P (virtio_disk_rw i wr s)"
  using assms by (simp_all add: link_front_def unlink_def virtio_disk_rw_def Let_def)

lemma keeps_fold: "P s \<Longrightarrow> (\<And>i s. P s \<Longrightarrow> P (u i s)) \<Longrightarrow> P (fold u is s)"
  by (induction "is" arbitrary: s) auto

lemmas [keeps] = kpost_bind kpost_kfor kpost_kscan

section \<open>Locks, output, memory\<close>

lemma pop_off_keeps [keeps]: "P s \<Longrightarrow> kpost P (pop_off h s)"
  by (auto simp: pop_off_def Let_def keeps_cpus)

lemma acquire_keeps [keeps]: "P s \<Longrightarrow> kpost P (acquire h l s)"
  by (auto simp: acquire_def Let_def)

lemma release_keeps [keeps]: "P s \<Longrightarrow> kpost P (release h l s)"
  by (auto simp: release_def intro!: keeps)

lemma myproc_keeps [keeps]: "P s \<Longrightarrow> kpost P (myproc h s)"
  by (auto simp: myproc_def Let_def dead_def intro!: keeps split: option.splits prod.splits)

lemma curproc_keeps [keeps]: "P s \<Longrightarrow> kpost P (curproc h s)"
  by (auto simp: curproc_def Let_def dead_def intro!: keeps split: option.splits prod.splits)

lemma uartputc_sync_keeps [keeps]: "P s \<Longrightarrow> kpost P (uartputc_sync h c s)"
  by (auto simp: uartputc_sync_def Let_def dead_def intro!: keeps split: option.splits prod.splits)

lemma putstr_keeps [keeps]: "P s \<Longrightarrow> kpost P (putstr h out s)"
  by (auto simp: putstr_def Let_def dead_def intro!: keeps split: option.splits prod.splits)

lemma printf_keeps [keeps]: "P s \<Longrightarrow> kpost P (printf h fmt as s)"
  by (auto simp: printf_def Let_def dead_def intro!: keeps split: option.splits prod.splits)

lemma kfree_keeps [keeps]: "P s \<Longrightarrow> kpost P (kfree h a s)"
  by (auto simp: kfree_def Let_def dead_def intro!: keeps split: option.splits prod.splits)

lemma kalloc_keeps [keeps]: "P s \<Longrightarrow> kpost P (kalloc h s)"
  by (auto simp: kalloc_def Let_def dead_def intro!: keeps split: option.splits prod.splits)

section \<open>Processes\<close>

lemma allocpid_keeps [keeps]: "P s \<Longrightarrow> kpost P (allocpid h s)"
  by (auto simp: allocpid_def Let_def dead_def intro!: keeps split: option.splits prod.splits)

lemma sched_keeps [keeps]: "P s \<Longrightarrow> kpost P (sched h s)"
  by (auto simp: sched_def Let_def dead_def intro!: keeps split: option.splits prod.splits)

lemma yield_keeps [keeps]: "P s \<Longrightarrow> kpost P (yield h s)"
  by (auto simp: yield_def Let_def dead_def intro!: keeps split: option.splits prod.splits)

lemma sleep_keeps [keeps]: "P s \<Longrightarrow> kpost P (sleep h ch l s)"
  by (auto simp: sleep_def Let_def dead_def intro!: keeps split: option.splits prod.splits)

lemma sleep_resume_keeps [keeps]: "P s \<Longrightarrow> kpost P (sleep_resume h i l s)"
  by (auto simp: sleep_resume_def Let_def dead_def intro!: keeps split: option.splits prod.splits)

lemma wakeup_one_keeps [keeps]: "P s \<Longrightarrow> kpost P (wakeup_one h ch i s)"
  by (auto simp: wakeup_one_def Let_def dead_def intro!: keeps split: option.splits prod.splits)

lemma wakeup_keeps [keeps]: "P s \<Longrightarrow> kpost P (wakeup h ch s)"
  by (auto simp: wakeup_def Let_def dead_def intro!: keeps split: option.splits prod.splits)

lemma kkill_one_keeps [keeps]: "P s \<Longrightarrow> kpost P (kkill_one h pid i s)"
  by (auto simp: kkill_one_def Let_def dead_def intro!: keeps split: option.splits prod.splits)

lemma kkill_keeps [keeps]: "P s \<Longrightarrow> kpost P (kkill h pid s)"
  by (auto simp: kkill_def Let_def dead_def intro!: keeps split: option.splits prod.splits)

lemma setkilled_keeps [keeps]: "P s \<Longrightarrow> kpost P (setkilled h i s)"
  by (auto simp: setkilled_def Let_def dead_def intro!: keeps split: option.splits prod.splits)

lemma killed_keeps [keeps]: "P s \<Longrightarrow> kpost P (killed h i s)"
  by (auto simp: killed_def Let_def dead_def intro!: keeps split: option.splits prod.splits)

lemma reparent_one_keeps [keeps]: "P s \<Longrightarrow> kpost P (reparent_one h i k s)"
  by (auto simp: reparent_one_def Let_def dead_def intro!: keeps split: option.splits prod.splits)

lemma reparent_keeps [keeps]: "P s \<Longrightarrow> kpost P (reparent h i s)"
  by (auto simp: reparent_def Let_def dead_def intro!: keeps split: option.splits prod.splits)

lemma procdump_one_keeps [keeps]: "P s \<Longrightarrow> kpost P (procdump_one h i s)"
  by (auto simp: procdump_one_def Let_def dead_def intro!: keeps split: option.splits prod.splits)

lemma procdump_keeps [keeps]: "P s \<Longrightarrow> kpost P (procdump h s)"
  by (auto simp: procdump_def Let_def dead_def intro!: keeps split: option.splits prod.splits)

section \<open>Address spaces\<close>

lemma walk_level_keeps [keeps]: "P s \<Longrightarrow> kpost P (walk_level h pt lv va al s)"
  by (auto simp: walk_level_def Let_def dead_def intro!: keeps split: option.splits prod.splits)

lemma walk_keeps [keeps]: "P s \<Longrightarrow> kpost P (walk h pt va al s)"
  by (auto simp: walk_def Let_def dead_def intro!: keeps split: option.splits prod.splits)

lemma walkaddr_keeps [keeps]: "P s \<Longrightarrow> kpost P (walkaddr h pt va s)"
  by (auto simp: walkaddr_def Let_def dead_def intro!: keeps split: option.splits prod.splits)

lemma ismapped_keeps [keeps]: "P s \<Longrightarrow> kpost P (ismapped h pt va s)"
  by (auto simp: ismapped_def Let_def dead_def intro!: keeps split: option.splits prod.splits)

lemma mappages_loop_keeps [keeps]: "P s \<Longrightarrow> kpost P (mappages_loop h pt n va pa perm s)"
  by (induction n arbitrary: s va pa) (auto simp: Let_def intro!: keeps split: option.splits prod.splits sum.splits)

lemma mappages_keeps [keeps]: "P s \<Longrightarrow> kpost P (mappages h pt va sz pa perm s)"
  by (auto simp: mappages_def Let_def dead_def intro!: keeps split: option.splits prod.splits)

lemma uvmcreate_keeps [keeps]: "P s \<Longrightarrow> kpost P (uvmcreate h s)"
  by (auto simp: uvmcreate_def Let_def dead_def intro!: keeps split: option.splits prod.splits)

lemma unmap_one_keeps [keeps]: "P s \<Longrightarrow> kpost P (unmap_one h pt fr a s)"
  by (auto simp: unmap_one_def Let_def dead_def intro!: keeps split: option.splits prod.splits)

lemma uvmunmap_keeps [keeps]: "P s \<Longrightarrow> kpost P (uvmunmap h pt va n fr s)"
  by (auto simp: uvmunmap_def Let_def dead_def intro!: keeps split: option.splits prod.splits)

lemma uvmdealloc_keeps [keeps]: "P s \<Longrightarrow> kpost P (uvmdealloc h pt a b s)"
  by (auto simp: uvmdealloc_def Let_def dead_def intro!: keeps split: option.splits prod.splits)

lemma uvmalloc_loop_keeps [keeps]: "P s \<Longrightarrow> kpost P (uvmalloc_loop h pt a b x as s)"
  by (induction as arbitrary: s ) (auto simp: Let_def intro!: keeps split: option.splits prod.splits sum.splits)

lemma uvmalloc_keeps [keeps]: "P s \<Longrightarrow> kpost P (uvmalloc h pt a b x s)"
  by (auto simp: uvmalloc_def Let_def dead_def intro!: keeps split: option.splits prod.splits)

lemma freewalk_keeps [keeps]: "P s \<Longrightarrow> kpost P (freewalk n h pt s)"
  by (induction n arbitrary: s pt) (auto simp: Let_def intro!: keeps split: option.splits prod.splits sum.splits)

lemma uvmfree_keeps [keeps]: "P s \<Longrightarrow> kpost P (uvmfree h pt sz s)"
  by (auto simp: uvmfree_def Let_def dead_def intro!: keeps split: option.splits prod.splits)

lemma uvmcopy_loop_keeps [keeps]: "P s \<Longrightarrow> kpost P (uvmcopy_loop h old new is s)"
  by (induction "is" arbitrary: s ) (auto simp: Let_def intro!: keeps split: option.splits prod.splits sum.splits)

lemma uvmcopy_keeps [keeps]: "P s \<Longrightarrow> kpost P (uvmcopy h old new sz s)"
  by (auto simp: uvmcopy_def Let_def dead_def intro!: keeps split: option.splits prod.splits)

lemma uvmclear_keeps [keeps]: "P s \<Longrightarrow> kpost P (uvmclear h pt va s)"
  by (auto simp: uvmclear_def Let_def dead_def intro!: keeps split: option.splits prod.splits)

lemma vmfault_keeps [keeps]: "P s \<Longrightarrow> kpost P (vmfault h pt va s)"
  by (auto simp: vmfault_def Let_def dead_def intro!: keeps split: option.splits prod.splits)

lemma copyout_keeps [keeps]: "P s \<Longrightarrow> kpost P (copyout h pt va src s)"
proof (induction h pt va src s rule: copyout.induct)
  case 1
  show ?case
    by (subst copyout.simps) (use 1 in \<open>auto simp: Let_def intro!: keeps split: option.splits prod.splits\<close>)
qed

lemma copyin_keeps [keeps]: "P s \<Longrightarrow> kpost P (copyin h pt va n s)"
proof (induction h pt va n s rule: copyin.induct)
  case 1
  show ?case
    by (subst copyin.simps) (use 1 in \<open>auto simp: Let_def intro!: keeps split: option.splits prod.splits\<close>)
qed

lemma copyinstr_keeps [keeps]: "P s \<Longrightarrow> kpost P (copyinstr h pt va n s)"
proof (induction h pt va n s rule: copyinstr.induct)
  case (1 h pt srcva mx s)
  have "kpost P (copyinstr h pt (PGROUNDDOWN srcva + PGSIZE) (mx - in_page_len srcva mx) t)"
    if "mx \<noteq> 0" "pa \<noteq> 0" "\<not> snd (scan_nul (pmem t) (pa + (srcva - PGROUNDDOWN srcva)) (in_page_len srcva mx))" "P t" for pa t
    using 1(1) [OF that(1) refl that(2) refl refl that(3,4)] by simp
  then show ?case
    by (subst copyinstr.simps) (use 1(2) in \<open>auto simp: Let_def intro!: keeps split: option.splits prod.splits\<close>)
qed

lemma either_copyout_keeps [keeps]: "P s \<Longrightarrow> kpost P (either_copyout h u dst bs s)"
  by (auto simp: either_copyout_def Let_def dead_def intro!: keeps split: option.splits prod.splits)

lemma either_copyin_keeps [keeps]: "P s \<Longrightarrow> kpost P (either_copyin h u src n s)"
  by (auto simp: either_copyin_def Let_def dead_def intro!: keeps split: option.splits prod.splits)

lemma copyin_dst_keeps [keeps]: "P s \<Longrightarrow> kpost P (copyin_dst h pt va n s)"
proof (induction h pt va n s rule: copyin_dst.induct)
  case 1
  show ?case
    by (subst copyin_dst.simps) (use 1 in \<open>auto simp: Let_def intro!: keeps split: option.splits prod.splits\<close>)
qed

lemma either_copyin_dst_keeps [keeps]: "P s \<Longrightarrow> kpost P (either_copyin_dst h u src n s)"
  by (auto simp: either_copyin_dst_def Let_def dead_def intro!: keeps split: option.splits prod.splits)

lemma proc_freepagetable_keeps [keeps]: "P s \<Longrightarrow> kpost P (proc_freepagetable h pt sz s)"
  by (auto simp: proc_freepagetable_def Let_def dead_def intro!: keeps split: option.splits prod.splits)

lemma proc_pagetable_keeps [keeps]: "P s \<Longrightarrow> kpost P (proc_pagetable h i s)"
  by (auto simp: proc_pagetable_def Let_def dead_def intro!: keeps split: option.splits prod.splits)

lemma growproc_keeps [keeps]: "P s \<Longrightarrow> kpost P (growproc h n s)"
  by (auto simp: growproc_def Let_def dead_def intro!: keeps split: option.splits prod.splits)

section \<open>Arguments and process calls\<close>

lemma argraw_keeps [keeps]: "P s \<Longrightarrow> kpost P (argraw h n s)"
  by (auto simp: argraw_def Let_def dead_def intro!: keeps split: option.splits prod.splits)

lemma argint_keeps [keeps]: "P s \<Longrightarrow> kpost P (argint h n s)"
  by (auto simp: argint_def Let_def dead_def intro!: keeps split: option.splits prod.splits)

lemma argaddr_keeps [keeps]: "P s \<Longrightarrow> kpost P (argaddr h n s)"
  by (auto simp: argaddr_def Let_def dead_def intro!: keeps split: option.splits prod.splits)

lemma fetchaddr_keeps [keeps]: "P s \<Longrightarrow> kpost P (fetchaddr h a s)"
  by (auto simp: fetchaddr_def Let_def dead_def intro!: keeps split: option.splits prod.splits)

lemma fetchstr_keeps [keeps]: "P s \<Longrightarrow> kpost P (fetchstr h a n s)"
  by (auto simp: fetchstr_def Let_def dead_def intro!: keeps split: option.splits prod.splits)

lemma argstr_keeps [keeps]: "P s \<Longrightarrow> kpost P (argstr h n m s)"
  by (auto simp: argstr_def Let_def dead_def intro!: keeps split: option.splits prod.splits)

lemma argpath_keeps [keeps]: "P s \<Longrightarrow> kpost P (argpath h n s)"
  by (auto simp: argpath_def Let_def dead_def intro!: keeps split: option.splits prod.splits)

lemma sys_getpid_keeps [keeps]: "P s \<Longrightarrow> kpost P (sys_getpid h s)"
  by (auto simp: sys_getpid_def Let_def dead_def intro!: keeps split: option.splits prod.splits)

lemma sys_sbrk_keeps [keeps]: "P s \<Longrightarrow> kpost P (sys_sbrk h s)"
  by (auto simp: sys_sbrk_def Let_def dead_def intro!: keeps split: option.splits prod.splits)

lemma pause_iter_keeps [keeps]: "P s \<Longrightarrow> kpost P (pause_iter h t n s)"
  by (auto simp: pause_iter_def Let_def dead_def intro!: keeps split: option.splits prod.splits)

lemma sys_pause_keeps [keeps]: "P s \<Longrightarrow> kpost P (sys_pause h s)"
  by (auto simp: sys_pause_def Let_def dead_def intro!: keeps split: option.splits prod.splits)

lemma sys_kill_keeps [keeps]: "P s \<Longrightarrow> kpost P (sys_kill h s)"
  by (auto simp: sys_kill_def Let_def dead_def intro!: keeps split: option.splits prod.splits)

lemma sys_uptime_keeps [keeps]: "P s \<Longrightarrow> kpost P (sys_uptime h s)"
  by (auto simp: sys_uptime_def Let_def dead_def intro!: keeps split: option.splits prod.splits)

section \<open>Pipes\<close>

lemma pipeclose_keeps [keeps]: "P s \<Longrightarrow> kpost P (pipeclose h a wr s)"
  by (auto simp: pipeclose_def Let_def dead_def intro!: keeps split: option.splits prod.splits)

lemma pipewrite_end_keeps [keeps]: "P s \<Longrightarrow> kpost P (pipewrite_end h a i s)"
  by (auto simp: pipewrite_end_def Let_def dead_def intro!: keeps split: option.splits prod.splits)

lemma pipewrite_loop_keeps [keeps]: "P s \<Longrightarrow> kpost P (pipewrite_loop h a pr addr k i s)"
  by (induction k arbitrary: s i addr) (auto simp: Let_def intro!: keeps split: option.splits prod.splits sum.splits)

lemma pipewrite_keeps [keeps]: "P s \<Longrightarrow> kpost P (pipewrite h a addr n s)"
  by (auto simp: pipewrite_def Let_def dead_def intro!: keeps split: option.splits prod.splits)

lemma piperead_end_keeps [keeps]: "P s \<Longrightarrow> kpost P (piperead_end h a i s)"
  by (auto simp: piperead_end_def Let_def dead_def intro!: keeps split: option.splits prod.splits)

lemma piperead_copy_keeps [keeps]: "P s \<Longrightarrow> kpost P (piperead_copy h a pr addr k i s)"
  by (induction k arbitrary: s i addr) (auto simp: Let_def intro!: keeps split: option.splits prod.splits sum.splits)

lemma piperead_iter_keeps [keeps]: "P s \<Longrightarrow> kpost P (piperead_iter h a pr addr n s)"
  by (auto simp: piperead_iter_def Let_def dead_def intro!: keeps split: option.splits prod.splits)

lemma piperead_keeps [keeps]: "P s \<Longrightarrow> kpost P (piperead h a addr n s)"
  by (auto simp: piperead_def Let_def dead_def intro!: keeps split: option.splits prod.splits)

section \<open>The file system\<close>

lemma acquiresleep_test_keeps [keeps]: "P s \<Longrightarrow> kpost P (acquiresleep_test h k s)"
  by (auto simp: acquiresleep_test_def Let_def dead_def intro!: keeps split: option.splits prod.splits)

lemma acquiresleep_keeps [keeps]: "P s \<Longrightarrow> kpost P (acquiresleep h k s)"
  by (auto simp: acquiresleep_def Let_def dead_def intro!: keeps split: option.splits prod.splits)

lemma releasesleep_keeps [keeps]: "P s \<Longrightarrow> kpost P (releasesleep h k s)"
  by (auto simp: releasesleep_def Let_def dead_def intro!: keeps split: option.splits prod.splits)

lemma holdingsleep_keeps [keeps]: "P s \<Longrightarrow> kpost P (holdingsleep h k s)"
  by (auto simp: holdingsleep_def Let_def dead_def intro!: keeps split: option.splits prod.splits)

lemma bget_keeps [keeps]: "P s \<Longrightarrow> kpost P (bget h d b s)"
  by (auto simp: bget_def Let_def dead_def intro!: keeps split: option.splits prod.splits)

lemma bread_keeps [keeps]: "P s \<Longrightarrow> kpost P (bread h d b s)"
  by (auto simp: bread_def Let_def dead_def intro!: keeps split: option.splits prod.splits)

lemma bwrite_keeps [keeps]: "P s \<Longrightarrow> kpost P (bwrite h i s)"
  by (auto simp: bwrite_def Let_def dead_def intro!: keeps split: option.splits prod.splits)

lemma brelse_keeps [keeps]: "P s \<Longrightarrow> kpost P (brelse h i s)"
  by (auto simp: brelse_def Let_def dead_def intro!: keeps split: option.splits prod.splits)

lemma bpin_keeps [keeps]: "P s \<Longrightarrow> kpost P (bpin h i s)"
  by (auto simp: bpin_def Let_def dead_def intro!: keeps split: option.splits prod.splits)

lemma bunpin_keeps [keeps]: "P s \<Longrightarrow> kpost P (bunpin h i s)"
  by (auto simp: bunpin_def Let_def dead_def intro!: keeps split: option.splits prod.splits)

lemma install_one_keeps [keeps]: "P s \<Longrightarrow> kpost P (install_one h r i s)"
  by (auto simp: install_one_def Let_def dead_def intro!: keeps split: option.splits prod.splits)

lemma install_trans_keeps [keeps]: "P s \<Longrightarrow> kpost P (install_trans h r s)"
  by (auto simp: install_trans_def Let_def dead_def intro!: keeps split: option.splits prod.splits)

lemma write_head_keeps [keeps]: "P s \<Longrightarrow> kpost P (write_head h s)"
  by (auto simp: write_head_def Let_def dead_def intro!: keeps split: option.splits prod.splits)

lemma write_log_one_keeps [keeps]: "P s \<Longrightarrow> kpost P (write_log_one h i s)"
  by (auto simp: write_log_one_def Let_def dead_def intro!: keeps split: option.splits prod.splits)

lemma write_log_keeps [keeps]: "P s \<Longrightarrow> kpost P (write_log h s)"
  by (auto simp: write_log_def Let_def dead_def intro!: keeps split: option.splits prod.splits)

lemma commit_keeps [keeps]: "P s \<Longrightarrow> kpost P (commit h s)"
  by (auto simp: commit_def Let_def dead_def intro!: keeps split: option.splits prod.splits)

lemma begin_op_test_keeps [keeps]: "P s \<Longrightarrow> kpost P (begin_op_test h s)"
  by (auto simp: begin_op_test_def Let_def dead_def intro!: keeps split: option.splits prod.splits)

lemma begin_op_keeps [keeps]: "P s \<Longrightarrow> kpost P (begin_op h s)"
  by (auto simp: begin_op_def Let_def dead_def intro!: keeps split: option.splits prod.splits)

lemma end_op_keeps [keeps]: "P s \<Longrightarrow> kpost P (end_op h s)"
  by (auto simp: end_op_def Let_def dead_def intro!: keeps split: option.splits prod.splits)

lemma log_write_keeps [keeps]: "P s \<Longrightarrow> kpost P (log_write h b s)"
  by (auto simp: log_write_def Let_def dead_def intro!: keeps split: option.splits prod.splits)

lemma bzero_keeps [keeps]: "P s \<Longrightarrow> kpost P (bzero h d b s)"
  by (auto simp: bzero_def Let_def dead_def intro!: keeps split: option.splits prod.splits)

lemma balloc_group_keeps [keeps]: "P s \<Longrightarrow> kpost P (balloc_group h d b s)"
  by (auto simp: balloc_group_def Let_def dead_def intro!: keeps split: option.splits prod.splits)

lemma balloc_keeps [keeps]: "P s \<Longrightarrow> kpost P (balloc h d s)"
  by (auto simp: balloc_def Let_def dead_def intro!: keeps split: option.splits prod.splits)

lemma bfree_keeps [keeps]: "P s \<Longrightarrow> kpost P (bfree h d b s)"
  by (auto simp: bfree_def Let_def dead_def intro!: keeps split: option.splits prod.splits)

lemma iget_keeps [keeps]: "P s \<Longrightarrow> kpost P (iget h d i s)"
  by (auto simp: iget_def Let_def dead_def intro!: keeps split: option.splits prod.splits)

lemma idup_keeps [keeps]: "P s \<Longrightarrow> kpost P (idup h i s)"
  by (auto simp: idup_def Let_def dead_def intro!: keeps split: option.splits prod.splits)

lemma ialloc_try_keeps [keeps]: "P s \<Longrightarrow> kpost P (ialloc_try h d t i s)"
  by (auto simp: ialloc_try_def Let_def dead_def intro!: keeps split: option.splits prod.splits)

lemma ialloc_keeps [keeps]: "P s \<Longrightarrow> kpost P (ialloc h d t s)"
  by (auto simp: ialloc_def Let_def dead_def intro!: keeps split: option.splits prod.splits)

lemma iupdate_keeps [keeps]: "P s \<Longrightarrow> kpost P (iupdate h i s)"
  by (auto simp: iupdate_def Let_def dead_def intro!: keeps split: option.splits prod.splits)

lemma ilock_keeps [keeps]: "P s \<Longrightarrow> kpost P (ilock h i s)"
  by (auto simp: ilock_def Let_def dead_def intro!: keeps split: option.splits prod.splits)

lemma iunlock_keeps [keeps]: "P s \<Longrightarrow> kpost P (iunlock h i s)"
  by (auto simp: iunlock_def Let_def dead_def intro!: keeps split: option.splits prod.splits)

lemma bmap_slot_keeps [keeps]: "P s \<Longrightarrow> kpost P (bmap_slot h i k s)"
  by (auto simp: bmap_slot_def Let_def dead_def intro!: keeps split: option.splits prod.splits)

lemma bmap_keeps [keeps]: "P s \<Longrightarrow> kpost P (bmap h i k s)"
  by (auto simp: bmap_def Let_def dead_def intro!: keeps split: option.splits prod.splits)

lemma itrunc_keeps [keeps]: "P s \<Longrightarrow> kpost P (itrunc h i s)"
  by (auto simp: itrunc_def Let_def dead_def intro!: keeps split: option.splits prod.splits)

lemma iput_keeps [keeps]: "P s \<Longrightarrow> kpost P (iput h i s)"
  by (auto simp: iput_def Let_def dead_def intro!: keeps split: option.splits prod.splits)

lemma iunlockput_keeps [keeps]: "P s \<Longrightarrow> kpost P (iunlockput h i s)"
  by (auto simp: iunlockput_def Let_def dead_def intro!: keeps split: option.splits prod.splits)

lemma readi_loop_keeps [keeps]: "P s \<Longrightarrow> kpost P (readi_loop h ip u dst off n tot s)"
proof (induction h ip u dst off n tot s rule: readi_loop.induct)
  case 1
  show ?case
    by (subst readi_loop.simps) (use 1 in \<open>auto simp: Let_def intro!: keeps split: option.splits prod.splits\<close>)
qed

lemma readi_keeps [keeps]: "P s \<Longrightarrow> kpost P (readi h ip u dst off n s)"
  by (auto simp: readi_def Let_def dead_def intro!: keeps split: option.splits prod.splits)

lemma writei_loop_keeps [keeps]: "P s \<Longrightarrow> kpost P (writei_loop h ip u src off n tot s)"
proof (induction h ip u src off n tot s rule: writei_loop.induct)
  case 1
  show ?case
    by (subst writei_loop.simps) (use 1 in \<open>auto simp: Let_def intro!: keeps split: option.splits prod.splits\<close>)
qed

lemma writei_keeps [keeps]: "P s \<Longrightarrow> kpost P (writei h ip u src off n s)"
  by (auto simp: writei_def Let_def dead_def intro!: keeps split: option.splits prod.splits)

lemma dirlookup_at_keeps [keeps]: "P s \<Longrightarrow> kpost P (dirlookup_at h dp nm off s)"
  by (auto simp: dirlookup_at_def Let_def dead_def intro!: keeps split: option.splits prod.splits)

lemma dirlookup_keeps [keeps]: "P s \<Longrightarrow> kpost P (dirlookup h dp nm s)"
  by (auto simp: dirlookup_def Let_def dead_def intro!: keeps split: option.splits prod.splits)

lemma dirlink_at_keeps [keeps]: "P s \<Longrightarrow> kpost P (dirlink_at h dp off s)"
  by (auto simp: dirlink_at_def Let_def dead_def intro!: keeps split: option.splits prod.splits)

lemma dirlink_keeps [keeps]: "P s \<Longrightarrow> kpost P (dirlink h dp nm i s)"
  by (auto simp: dirlink_def Let_def dead_def intro!: keeps split: option.splits prod.splits)

lemma namex_loop_keeps [keeps]: "P s \<Longrightarrow> kpost P (namex_loop h np pth nm ip s)"
proof (induction h np pth nm ip s rule: namex_loop.induct)
  case 1
  show ?case
    by (subst namex_loop.simps) (use 1 in \<open>auto simp: Let_def intro!: keeps split: option.splits prod.splits\<close>)
qed

lemma namex_keeps [keeps]: "P s \<Longrightarrow> kpost P (namex h pth np nm s)"
  by (auto simp: namex_def Let_def dead_def intro!: keeps split: option.splits prod.splits)

lemma namei_keeps [keeps]: "P s \<Longrightarrow> kpost P (namei h pth s)"
  by (auto simp: namei_def Let_def dead_def intro!: keeps split: option.splits prod.splits)

lemma nameiparent_keeps [keeps]: "P s \<Longrightarrow> kpost P (nameiparent h pth nm s)"
  by (auto simp: nameiparent_def Let_def dead_def intro!: keeps split: option.splits prod.splits)

section \<open>The console and open files\<close>

lemma uartwrite_loop_keeps [keeps]: "P s \<Longrightarrow> kpost P (uartwrite_loop h cs s)"
  by (induction cs arbitrary: s ) (auto simp: Let_def intro!: keeps split: option.splits prod.splits sum.splits)

lemma uartwrite_keeps [keeps]: "P s \<Longrightarrow> kpost P (uartwrite h cs s)"
  by (auto simp: uartwrite_def Let_def dead_def intro!: keeps split: option.splits prod.splits)

lemma consoleread_end_keeps [keeps]: "P s \<Longrightarrow> kpost P (consoleread_end h t n s)"
  by (auto simp: consoleread_end_def Let_def dead_def intro!: keeps split: option.splits prod.splits)

lemma consoleread_loop_keeps [keeps]: "P s \<Longrightarrow> kpost P (consoleread_loop h u t n dst s)"
  by (induction n arbitrary: s dst) (auto simp: Let_def intro!: keeps split: option.splits prod.splits sum.splits)

lemma consoleread_keeps [keeps]: "P s \<Longrightarrow> kpost P (consoleread h u dst n s)"
  by (auto simp: consoleread_def Let_def dead_def intro!: keeps split: option.splits prod.splits)

lemma consolewrite_loop_keeps [keeps]: "P s \<Longrightarrow> kpost P (consolewrite_loop h u src i n s)"
proof (induction h u src i n s rule: consolewrite_loop.induct)
  case 1
  show ?case
    by (subst consolewrite_loop.simps) (use 1 in \<open>auto simp: Let_def intro!: keeps split: option.splits prod.splits\<close>)
qed

lemma consolewrite_keeps [keeps]: "P s \<Longrightarrow> kpost P (consolewrite h u src n s)"
  by (auto simp: consolewrite_def Let_def dead_def intro!: keeps split: option.splits prod.splits)

lemma filestat_keeps [keeps]: "P s \<Longrightarrow> kpost P (filestat h f a s)"
  by (auto simp: filestat_def Let_def dead_def intro!: keeps split: option.splits prod.splits)

lemma fileread_keeps [keeps]: "P s \<Longrightarrow> kpost P (fileread h f a n s)"
  by (auto simp: fileread_def Let_def dead_def intro!: keeps split: option.splits prod.splits fdtype.splits devfn.splits)

lemma filewrite_loop_keeps [keeps]: "P s \<Longrightarrow> kpost P (filewrite_loop h f a i n s)"
proof (induction h f a i n s rule: filewrite_loop.induct)
  case 1
  show ?case
    by (subst filewrite_loop.simps) (use 1 in \<open>auto simp: Let_def intro!: keeps split: option.splits prod.splits\<close>)
qed

lemma filewrite_keeps [keeps]: "P s \<Longrightarrow> kpost P (filewrite h f a n s)"
  by (auto simp: filewrite_def Let_def dead_def intro!: keeps split: option.splits prod.splits fdtype.splits devfn.splits)

lemma argfd_keeps [keeps]: "P s \<Longrightarrow> kpost P (argfd h n s)"
  by (auto simp: argfd_def Let_def dead_def intro!: keeps split: option.splits prod.splits)

section \<open>System calls\<close>

lemma sys_read_keeps [keeps]: "P s \<Longrightarrow> kpost P (sys_read h s)"
  by (auto simp: sys_read_def Let_def dead_def intro!: keeps split: option.splits prod.splits)

lemma sys_write_keeps [keeps]: "P s \<Longrightarrow> kpost P (sys_write h s)"
  by (auto simp: sys_write_def Let_def dead_def intro!: keeps split: option.splits prod.splits)

lemma sys_fstat_keeps [keeps]: "P s \<Longrightarrow> kpost P (sys_fstat h s)"
  by (auto simp: sys_fstat_def Let_def dead_def intro!: keeps split: option.splits prod.splits)

lemma op_fail_keeps [keeps]: "P s \<Longrightarrow> kpost P (op_fail h s)"
  by (auto simp: op_fail_def Let_def dead_def intro!: keeps split: option.splits prod.splits)

lemma sys_link_bad_keeps [keeps]: "P s \<Longrightarrow> kpost P (sys_link_bad h ip s)"
  by (auto simp: sys_link_bad_def Let_def dead_def intro!: keeps split: option.splits prod.splits)

lemma sys_link_new_keeps [keeps]: "P s \<Longrightarrow> kpost P (sys_link_new h ip nw s)"
  by (auto simp: sys_link_new_def Let_def dead_def intro!: keeps split: option.splits prod.splits)

lemma sys_link_keeps [keeps]: "P s \<Longrightarrow> kpost P (sys_link h s)"
  by (auto simp: sys_link_def Let_def dead_def intro!: keeps split: option.splits prod.splits)

lemma isdirempty_keeps [keeps]: "P s \<Longrightarrow> kpost P (isdirempty h dp s)"
  by (auto simp: isdirempty_def Let_def dead_def intro!: keeps split: option.splits prod.splits)

lemma sys_unlink_bad_keeps [keeps]: "P s \<Longrightarrow> kpost P (sys_unlink_bad h dp s)"
  by (auto simp: sys_unlink_bad_def Let_def dead_def intro!: keeps split: option.splits prod.splits)

lemma sys_unlink_entry_keeps [keeps]: "P s \<Longrightarrow> kpost P (sys_unlink_entry h dp ip off s)"
  by (auto simp: sys_unlink_entry_def Let_def dead_def intro!: keeps split: option.splits prod.splits)

lemma sys_unlink_keeps [keeps]: "P s \<Longrightarrow> kpost P (sys_unlink h s)"
  by (auto simp: sys_unlink_def Let_def dead_def intro!: keeps split: option.splits prod.splits)

lemma create_fail_keeps [keeps]: "P s \<Longrightarrow> kpost P (create_fail h dp ip s)"
  by (auto simp: create_fail_def Let_def dead_def intro!: keeps split: option.splits prod.splits)

lemma create_entries_keeps [keeps]: "P s \<Longrightarrow> kpost P (create_entries h dp ip nm t s)"
  by (auto simp: create_entries_def Let_def dead_def intro!: keeps split: option.splits prod.splits)

lemma create_keeps [keeps]: "P s \<Longrightarrow> kpost P (create h pth t ma mi s)"
  by (auto simp: create_def Let_def dead_def intro!: keeps split: option.splits prod.splits)

lemma op_create_keeps [keeps]: "P s \<Longrightarrow> kpost P (op_create h pth t ma mi s)"
  by (auto simp: op_create_def Let_def dead_def intro!: keeps split: option.splits prod.splits)

lemma sys_mkdir_keeps [keeps]: "P s \<Longrightarrow> kpost P (sys_mkdir h s)"
  by (auto simp: sys_mkdir_def Let_def dead_def intro!: keeps split: option.splits prod.splits)

lemma sys_mknod_keeps [keeps]: "P s \<Longrightarrow> kpost P (sys_mknod h s)"
  by (auto simp: sys_mknod_def Let_def dead_def intro!: keeps split: option.splits prod.splits)

lemma sys_chdir_keeps [keeps]: "P s \<Longrightarrow> kpost P (sys_chdir h s)"
  by (auto simp: sys_chdir_def Let_def dead_def intro!: keeps split: option.splits prod.splits)

lemma loadseg_keeps [keeps]: "P s \<Longrightarrow> kpost P (loadseg h pt va ip off sz s)"
  by (auto simp: loadseg_def Let_def dead_def intro!: keeps split: option.splits prod.splits)

lemma load_ph_keeps [keeps]: "P s \<Longrightarrow> kpost P (load_ph h ip pt off sz s)"
  by (auto simp: load_ph_def Let_def dead_def intro!: keeps split: option.splits prod.splits)

lemma load_phs_keeps [keeps]: "P s \<Longrightarrow> kpost P (load_phs h ip pt k off sz s)"
  by (induction k arbitrary: s off sz) (auto simp: Let_def intro!: keeps split: option.splits prod.splits sum.splits)

lemma push_args_keeps [keeps]: "P s \<Longrightarrow> kpost P (push_args h pt base as us sp s)"
  by (induction as arbitrary: s us sp) (auto simp: Let_def intro!: keeps split: option.splits prod.splits sum.splits)

lemma push_ustack_keeps [keeps]: "P s \<Longrightarrow> kpost P (push_ustack h pt base us sp s)"
  by (auto simp: push_ustack_def Let_def dead_def intro!: keeps split: option.splits prod.splits)

lemma kexec_bad_keeps [keeps]: "P s \<Longrightarrow> kpost P (kexec_bad h pt sz ipp s)"
  by (auto simp: kexec_bad_def Let_def dead_def intro!: keeps split: option.splits prod.splits)

lemma kexec_commit_keeps [keeps]: "P s \<Longrightarrow> kpost P (kexec_commit h p pth pt sz osz sp ep n s)"
  by (auto simp: kexec_commit_def Let_def dead_def intro!: keeps split: option.splits prod.splits)

lemma kexec_stack_keeps [keeps]: "P s \<Longrightarrow> kpost P (kexec_stack h pth av pt sz ep s)"
  by (auto simp: kexec_stack_def Let_def dead_def intro!: keeps split: option.splits prod.splits)

lemma kexec_keeps [keeps]: "P s \<Longrightarrow> kpost P (kexec h pth av s)"
  by (auto simp: kexec_def Let_def dead_def intro!: keeps split: option.splits prod.splits)

lemma exec_args_keeps [keeps]: "P s \<Longrightarrow> kpost P (exec_args h k ua acc s)"
  by (induction k arbitrary: s ua acc) (auto simp: Let_def intro!: keeps split: option.splits prod.splits sum.splits)

lemma free_args_keeps [keeps]: "P s \<Longrightarrow> kpost P (free_args h as s)"
  by (auto simp: free_args_def Let_def dead_def intro!: keeps split: option.splits prod.splits)

lemma sys_exec_keeps [keeps]: "P s \<Longrightarrow> kpost P (sys_exec h s)"
  by (auto simp: sys_exec_def Let_def dead_def intro!: keeps split: option.splits prod.splits)

end

section \<open>Operations on the tables themselves\<close>

locale kernel_inv_any = kernel_inv +
  assumes any_procs: "\<And>s q. P s \<Longrightarrow> P (s\<lparr>procs := q\<rparr>)" and any_files: "\<And>s fl. P s \<Longrightarrow> P (s\<lparr>files := fl\<rparr>)"
begin

lemma any_updates [simp]:
  assumes "P s"
  shows "P (proc_at i f s)" "P (file_at k u s)" "P (set_ofile i fd x s)"
  using assms by (simp_all add: proc_at_def file_at_def set_ofile_def any_procs any_files)

lemma freeproc_keeps [keeps]: "P s \<Longrightarrow> kpost P (freeproc h i s)"
  by (auto simp: freeproc_def Let_def dead_def intro!: keeps split: option.splits prod.splits)

lemma alloc_slot_keeps [keeps]: "P s \<Longrightarrow> kpost P (alloc_slot h i s)"
  by (auto simp: alloc_slot_def Let_def dead_def intro!: keeps split: option.splits prod.splits)

lemma allocproc_keeps [keeps]: "P s \<Longrightarrow> kpost P (allocproc h s)"
  by (auto simp: allocproc_def Let_def dead_def intro!: keeps split: option.splits prod.splits)

lemma kwait_one_keeps [keeps]: "P s \<Longrightarrow> kpost P (kwait_one h me a i k s)"
  by (auto simp: kwait_one_def Let_def dead_def intro!: keeps split: option.splits prod.splits)

lemma kwait_scan_keeps [keeps]: "P s \<Longrightarrow> kpost P (kwait_scan h me a is k s)"
  by (induction "is" arbitrary: s k) (auto simp: Let_def intro!: keeps split: option.splits prod.splits sum.splits)

lemma kwait_iter_keeps [keeps]: "P s \<Longrightarrow> kpost P (kwait_iter h me a s)"
  by (auto simp: kwait_iter_def Let_def dead_def intro!: keeps split: option.splits prod.splits sum.splits)

lemma kwait_keeps [keeps]: "P s \<Longrightarrow> kpost P (kwait h a s)"
  by (auto simp: kwait_def Let_def dead_def intro!: keeps split: option.splits prod.splits)

lemma sys_wait_keeps [keeps]: "P s \<Longrightarrow> kpost P (sys_wait h s)"
  by (auto simp: sys_wait_def Let_def dead_def intro!: keeps split: option.splits prod.splits)

lemma filealloc_keeps [keeps]: "P s \<Longrightarrow> kpost P (filealloc h s)"
  by (auto simp: filealloc_def Let_def dead_def intro!: keeps split: option.splits prod.splits)

lemma filedup_keeps [keeps]: "P s \<Longrightarrow> kpost P (filedup h f s)"
  by (auto simp: filedup_def Let_def dead_def intro!: keeps split: option.splits prod.splits)

lemma fileclose_keeps [keeps]: "P s \<Longrightarrow> kpost P (fileclose h f s)"
  by (auto simp: fileclose_def Let_def dead_def intro!: keeps split: option.splits prod.splits)

lemma fdalloc_keeps [keeps]: "P s \<Longrightarrow> kpost P (fdalloc h f s)"
  by (auto simp: fdalloc_def Let_def dead_def intro!: keeps split: option.splits prod.splits)

lemma sys_dup_keeps [keeps]: "P s \<Longrightarrow> kpost P (sys_dup h s)"
  by (auto simp: sys_dup_def Let_def dead_def intro!: keeps split: option.splits prod.splits)

lemma sys_close_keeps [keeps]: "P s \<Longrightarrow> kpost P (sys_close h s)"
  by (auto simp: sys_close_def Let_def dead_def intro!: keeps split: option.splits prod.splits)

lemma pipealloc_bad_keeps [keeps]: "P s \<Longrightarrow> kpost P (pipealloc_bad h a b s)"
  by (auto simp: pipealloc_bad_def Let_def dead_def intro!: keeps split: option.splits prod.splits)

lemma pipealloc_init_keeps [simp]: "P s \<Longrightarrow> P (pipealloc_init a r w s)"
  by (simp add: pipealloc_init_def Let_def)

lemma pipealloc_keeps [keeps]: "P s \<Longrightarrow> kpost P (pipealloc h s)"
  by (auto simp: pipealloc_def Let_def dead_def intro!: keeps split: option.splits prod.splits)

lemma sys_pipe_bad_keeps [keeps]: "P s \<Longrightarrow> kpost P (sys_pipe_bad h p a b r q s)"
  by (auto simp: sys_pipe_bad_def Let_def dead_def intro!: keeps split: option.splits prod.splits)

lemma sys_pipe_keeps [keeps]: "P s \<Longrightarrow> kpost P (sys_pipe h s)"
  by (auto simp: sys_pipe_def Let_def dead_def intro!: keeps split: option.splits prod.splits)

lemma open_install_keeps [keeps]: "P s \<Longrightarrow> kpost P (open_install h ip f fd m s)"
  by (auto simp: open_install_def Let_def dead_def intro!: keeps split: option.splits prod.splits)

lemma open_inode_keeps [keeps]: "P s \<Longrightarrow> kpost P (open_inode h ip m s)"
  by (auto simp: open_inode_def Let_def dead_def intro!: keeps split: option.splits prod.splits)

lemma sys_open_keeps [keeps]: "P s \<Longrightarrow> kpost P (sys_open h s)"
  by (auto simp: sys_open_def Let_def dead_def intro!: keeps split: option.splits prod.splits)

lemma fork_registers_keeps [simp]: "P s \<Longrightarrow> P (fork_registers p np s)"
  by (simp add: fork_registers_def Let_def)

lemma fork_files_keeps [keeps]: "P s \<Longrightarrow> kpost P (fork_files h p np s)"
  by (auto simp: fork_files_def Let_def dead_def intro!: keeps split: option.splits prod.splits)

lemma kfork_keeps [keeps]: "P s \<Longrightarrow> kpost P (kfork h s)"
  by (auto simp: kfork_def Let_def dead_def intro!: keeps split: option.splits prod.splits)

lemma sys_fork_keeps [keeps]: "P s \<Longrightarrow> kpost P (sys_fork h s)"
  by (auto simp: sys_fork_def Let_def dead_def intro!: keeps split: option.splits prod.splits)

lemma exit_files_keeps [keeps]: "P s \<Longrightarrow> kpost P (exit_files h p s)"
  by (auto simp: exit_files_def Let_def dead_def intro!: keeps split: option.splits prod.splits)

lemma kexit_keeps [keeps]: "P s \<Longrightarrow> kpost P (kexit h st s)"
  by (auto simp: kexit_def Let_def dead_def intro!: keeps split: option.splits prod.splits)

lemma sys_exit_keeps [keeps]: "P s \<Longrightarrow> kpost P (sys_exit h s)"
  by (auto simp: sys_exit_def Let_def dead_def intro!: keeps split: option.splits prod.splits)

end

end
