(* ===== verification/Refs.thy ===== *)
theory Refs
  imports Frame
begin

text \<open>
  Two invariants of the whole system call interface, over the operations of theory \<open>Frame\<close>: the reference count of
  every open file is the number of descriptors that name it, and nothing but \<^verbatim>\<open>sys_set_llm_advice\<close> changes the
  scheduling advice.
\<close>

section \<open>The advice\<close>

definition advice_view :: "'a kproc_scheme \<Rightarrow> u32 \<times> u32 \<times> u32" where
  "advice_view s = (llm_recommended_pid s, llm_advice_valid s, llm_advice_timestamp s)"

interpretation adv: kernel_inv_any "\<lambda>s. advice_view s = a" for a
  by unfold_locales (simp_all add: advice_view_def)

text \<open>
  C27: of all the system calls in the table, only \<^verbatim>\<open>set_llm_advice\<close> touches the scheduling advice: whatever any other call
  does, and whether it returns or gives up the CPU half way, the recommended pid, its validity and its time
  stamp are what they were before.
\<close>

theorem advice_only_by_its_call:
  assumes "(n, f) \<in> set syscalls" and "n \<noteq> SYS_set_llm_advice" and "result_state (f h s) = Some t"
  shows "llm_recommended_pid t = llm_recommended_pid s \<and> llm_advice_valid t = llm_advice_valid s \<and>
    llm_advice_timestamp t = llm_advice_timestamp s"
proof -
  have "kpost (\<lambda>t. advice_view t = advice_view s) (f h s)"
    using assms(1,2) by (auto simp: syscalls_def intro!: keeps)
  from kpost_result [OF this assms(3)] show ?thesis by (simp add: advice_view_def)
qed

section \<open>The tables of descriptors and files\<close>

text \<open>
  \<open>fd_view F D C E s\<close>: \<open>F\<close> gives the reference count and type of every open file, \<open>D\<close> the descriptors of every process, \<open>C\<close> the
  process each CPU runs, and every dead slot of the process table is in \<open>E\<close>.
\<close>

type_synonym filetab = "nat \<Rightarrow> int \<times> fdtype"
type_synonym fdtab = "nat \<Rightarrow> nat \<Rightarrow> nat option"

definition fd_view :: "filetab \<Rightarrow> fdtab \<Rightarrow> (nat \<Rightarrow> nat option) \<Rightarrow> (nat \<Rightarrow> bool) \<Rightarrow> 'a kvirt_scheme \<Rightarrow> bool" where
  "fd_view F D C E s \<longleftrightarrow> F = (\<lambda>f. (f_ref (files s f), f_type (files s f))) \<and> D = (\<lambda>p. p_ofile (procs s p)) \<and>
     C = (\<lambda>h. c_proc (cpus s h)) \<and> (\<forall>p. dead (procs s p) \<longrightarrow> E p)"

interpretation tab: kernel_inv "fd_view F D C E" for F D C E
  by unfold_locales (auto simp: fd_view_def fun_eq_iff)

text \<open>The pure operations on the tables.\<close>

definition drop_ref :: "nat \<Rightarrow> filetab \<Rightarrow> filetab" where
  "drop_ref f F = F(f := if fst (F f) - 1 > 0 then (fst (F f) - 1, snd (F f)) else (0, FD_NONE))"

definition add_ref :: "nat \<Rightarrow> filetab \<Rightarrow> filetab" where
  "add_ref f F = F(f := (fst (F f) + 1, snd (F f)))"

definition set_fd :: "nat \<Rightarrow> nat \<Rightarrow> nat option \<Rightarrow> fdtab \<Rightarrow> fdtab" where
  "set_fd p fd x D = D(p := (D p)(fd := x))"

lemma fd_view_file_at:
  assumes "fd_view F D C E s" and "\<And>x. (f_ref (u x), f_type (u x)) = w (f_ref x, f_type x)"
  shows "fd_view (F(f := w (F f))) D C E (file_at f u s)"
  using assms by (auto simp: fd_view_def file_at_def fun_eq_iff)

lemma fd_view_set_ofile:
  "fd_view F D C E s \<Longrightarrow> fd_view F (set_fd p fd x D) C E (set_ofile p fd x s)"
  by (auto simp: fd_view_def set_ofile_def proc_at_def set_fd_def fun_eq_iff dead_def)

lemma fd_viewD:
  "fd_view F D C E s \<Longrightarrow> p_ofile (procs s p) = D p" "fd_view F D C E s \<Longrightarrow> c_proc (cpus s h) = C h"
  "fd_view F D C E s \<Longrightarrow> f_ref (files s f) = fst (F f)" "fd_view F D C E s \<Longrightarrow> f_type (files s f) = snd (F f)"
  "fd_view F D C E s \<Longrightarrow> dead (procs s p) \<Longrightarrow> E p"
  by (auto simp: fd_view_def)

section \<open>What the operations do to the tables\<close>

text \<open>Operations that cannot give up the CPU.\<close>

lemma lock_no_switch [noswitch]: "no_switch (acquire h l s)" "no_switch (release h l s)" "no_switch (myproc h s)"
  by (auto simp: acquire_def release_def myproc_def pop_off_def Let_def intro!: noswitch)

lemma wakeup_no_switch [noswitch]: "no_switch (wakeup h ch s)"
  by (auto simp: wakeup_def wakeup_one_def Let_def intro!: noswitch)

lemma kalloc_no_switch [noswitch]: "no_switch (kalloc h s)" "no_switch (kfree h a s)" "no_switch (allocpid h s)"
  by (auto simp: kalloc_def kfree_def allocpid_def Let_def intro!: noswitch)

lemma pipeclose_no_switch [noswitch]: "no_switch (pipeclose h a wr s)"
  by (auto simp: pipeclose_def Let_def intro!: noswitch)

lemmas tab_lock = kspec_no_switch [OF tab.acquire_keeps lock_no_switch(1)] kspec_no_switch [OF tab.release_keeps lock_no_switch(2)]

lemma curproc_view: "fd_view F D C E s \<Longrightarrow> kspec (\<lambda>p t. C h = Some p \<and> fd_view F D C E t) (\<lambda>_. False) (curproc h s)"
proof -
  assume s: "fd_view F D C E s"
  have "myproc h s = Ok p t \<Longrightarrow> p = C h" for p t
    using s by (auto simp: myproc_def Let_def fd_viewD elim!: kbind_OkE)
  then have "kspec (\<lambda>p t. p = C h \<and> fd_view F D C E t) (\<lambda>_. False) (myproc h s)"
    using tab.myproc_keeps [OF s, of h] lock_no_switch(3) [of h s] by (cases "myproc h s") auto
  then show ?thesis unfolding curproc_def by (rule kspec_bind) (auto split: option.splits)
qed

lemma filealloc_view:
  assumes "fd_view F D C E s"
  shows "kspec (\<lambda>r t. case r of None \<Rightarrow> fd_view F D C E t
      | Some f \<Rightarrow> f < NFILE \<and> fst (F f) = 0 \<and> fd_view (add_ref f F) D C E t) (\<lambda>_. False) (filealloc h s)"
  unfolding filealloc_def
proof (rule kspec_bind [OF tab_lock(1) [OF assms]])
  fix x :: unit and s :: "'a kvirt_scheme"
  assume s: "fd_view F D C E s"
  show "kspec (\<lambda>r t. case r of None \<Rightarrow> fd_view F D C E t
      | Some f \<Rightarrow> f < NFILE \<and> fst (F f) = 0 \<and> fd_view (add_ref f F) D C E t) (\<lambda>_. False)
    (case find (\<lambda>f. f_ref (files s f) = 0) [0..<NFILE] of
       None \<Rightarrow> kbind (release h LFtable s) (\<lambda>_. Ok None)
     | Some f \<Rightarrow> kbind (release h LFtable (file_at f (f_ref_update (\<lambda>_. 1)) s)) (\<lambda>_. Ok (Some f)))"
  proof (cases "find (\<lambda>f. f_ref (files s f) = 0) [0..<NFILE]")
    case None
    then show ?thesis by (auto intro!: kspec_bind [OF tab_lock(2) [OF s]])
  next
    case (Some f)
    then have f: "f < NFILE" "fst (F f) = 0" using s by (auto simp: find_Some_iff fd_viewD)
    have "fd_view (add_ref f F) D C E (file_at f (f_ref_update (\<lambda>_. 1)) s)"
      using s f by (auto simp: fd_view_def file_at_def add_ref_def fun_eq_iff)
    with Some f show ?thesis by (auto intro!: kspec_bind [OF tab_lock(2)])
  qed
qed

lemma filedup_view:
  assumes "fd_view F D C E s"
  shows "kspec (\<lambda>r t. r = f \<and> 1 \<le> fst (F f) \<and> fd_view (add_ref f F) D C E t) (\<lambda>_. False) (filedup h f s)"
  unfolding filedup_def
proof (rule kspec_bind [OF tab_lock(1) [OF assms]])
  fix x :: unit and s :: "'a kvirt_scheme"
  assume s: "fd_view F D C E s"
  then have "fd_view (add_ref f F) D C E (file_at f (\<lambda>x. x\<lparr>f_ref := f_ref x + 1\<rparr>) s)"
    by (auto simp: fd_view_def file_at_def add_ref_def fun_eq_iff)
  then show "kspec (\<lambda>r t. r = f \<and> 1 \<le> fst (F f) \<and> fd_view (add_ref f F) D C E t) (\<lambda>_. False)
     (if f_ref (files s f) < 1 then Panic ''filedup''
      else kbind (release h LFtable (file_at f (\<lambda>x. x\<lparr>f_ref := f_ref x + 1\<rparr>) s)) (\<lambda>_. Ok f))"
    using s by (auto simp: fd_viewD intro!: kspec_bind [OF tab_lock(2)])
qed

text \<open>The last reference to a pipe, or to a file that was never opened, is closed without giving up the CPU.\<close>

lemma last_close:
  assumes "fd_view F D C E t"
  shows "kspec (\<lambda>_. fd_view F D C E) (\<lambda>t. f_type ff \<notin> {FD_PIPE, FD_NONE} \<and> fd_view F D C E t)
    (if f_type ff = FD_PIPE then pipeclose h (f_pipe ff) (f_writable ff) t
     else if f_type ff = FD_INODE \<or> f_type ff = FD_DEVICE then
       (case f_ip ff of None \<Rightarrow> Panic ''kerneltrap''
        | Some ip \<Rightarrow> kbind (begin_op h t) (\<lambda>_ s. kbind (iput h ip s) (\<lambda>_. end_op h)))
     else Ok () t)"
proof -
  have 1: "kspec (\<lambda>_. fd_view F D C E) (\<lambda>_. False) (pipeclose h (f_pipe ff) (f_writable ff) t)"
    by (rule kspec_no_switch [OF tab.pipeclose_keeps [OF assms] pipeclose_no_switch])
  have 2: "kspec (\<lambda>_. fd_view F D C E) (fd_view F D C E)
      (kbind (begin_op h t) (\<lambda>_ s. kbind (iput h ip s) (\<lambda>_. end_op h)))" for ip
    using assms by (auto simp: kpost_kspec [symmetric] intro!: keeps)
  show ?thesis using assms by (auto intro!: kspec_mono [OF 1] kspec_mono [OF 2] split: option.splits)
qed

lemma fileclose_view_pos:
  assumes "fd_view F D C E s"
  shows "kspec (\<lambda>_. fd_view (drop_ref f F) D C E)
    (\<lambda>t. snd (F f) \<notin> {FD_PIPE, FD_NONE} \<and> fd_view (drop_ref f F) D C E t) (fileclose h f s)"
    (is "kspec ?Q ?R _")
  unfolding fileclose_def
proof (rule kspec_bind)
  show "kspec (\<lambda>_. fd_view F D C E) ?R (acquire h LFtable s)"
    by (rule kspec_mono [OF tab_lock(1) [OF assms]]) auto
  fix x :: unit and s :: "'a kvirt_scheme"
  assume s: "fd_view F D C E s"
  let ?s1 = "file_at f (\<lambda>x. x\<lparr>f_ref := f_ref x - 1\<rparr>) s"
  let ?s2 = "file_at f (\<lambda>x. x\<lparr>f_ref := 0, f_type := FD_NONE\<rparr>) ?s1"
  let ?ff = "files ?s1 f"
  have ff: "f_type ?ff = snd (F f)" "f_ref ?ff = f_ref (files s f) - 1"
    using s by (simp_all add: file_at_def fd_viewD)
  have "fd_view (drop_ref f F) D C E ?s1" if "f_ref (files s f) - 1 > 0"
    using s that by (auto simp: fd_view_def file_at_def drop_ref_def fun_eq_iff)
  then have dec: "kspec ?Q ?R (release h LFtable ?s1)" if "f_ref (files s f) - 1 > 0"
    using that by (auto intro: kspec_mono [OF tab_lock(2)])
  have "fd_view (drop_ref f F) D C E ?s2" if "\<not> f_ref (files s f) - 1 > 0"
    using s that by (auto simp: fd_view_def file_at_def drop_ref_def fun_eq_iff)
  then have rel: "kspec ?Q ?R (release h LFtable ?s2)" if "\<not> f_ref (files s f) - 1 > 0"
    using that by (auto intro: kspec_mono [OF tab_lock(2)])
  have zero: "kspec ?Q ?R (kbind (release h LFtable ?s2) (\<lambda>_ s.
       if f_type ?ff = FD_PIPE then pipeclose h (f_pipe ?ff) (f_writable ?ff) s
       else if f_type ?ff = FD_INODE \<or> f_type ?ff = FD_DEVICE then
         (case f_ip ?ff of None \<Rightarrow> Panic ''kerneltrap''
          | Some ip \<Rightarrow> kbind (begin_op h s) (\<lambda>_ s. kbind (iput h ip s) (\<lambda>_. end_op h)))
       else Ok () s))" if "\<not> f_ref (files s f) - 1 > 0"
    unfolding ff(1) [symmetric] by (rule kspec_bind [OF rel [OF that, unfolded ff(1) [symmetric]]]) (rule last_close)
  show "kspec ?Q ?R
     (if f_ref (files s f) < 1 then Panic ''fileclose''
      else let s = ?s1
           in if 0 < f_ref (files s f) then release h LFtable s
              else let ff = files s f; s = file_at f (\<lambda>x. x\<lparr>f_ref := 0, f_type := FD_NONE\<rparr>) s
                   in kbind (release h LFtable s) (\<lambda>_ s.
                      if f_type ff = FD_PIPE then pipeclose h (f_pipe ff) (f_writable ff) s
                      else if f_type ff = FD_INODE \<or> f_type ff = FD_DEVICE then
                        (case f_ip ff of None \<Rightarrow> Panic ''kerneltrap''
                         | Some ip \<Rightarrow> kbind (begin_op h s) (\<lambda>_ s. kbind (iput h ip s) (\<lambda>_. end_op h)))
                      else Ok () s))"
    using dec zero by (simp only: Let_def ff(2) split: if_split) simp
qed

lemma fileclose_view:
  assumes "fd_view F D C E s"
  shows "kspec (\<lambda>_ t. 1 \<le> fst (F f) \<and> fd_view (drop_ref f F) D C E t)
    (\<lambda>t. 1 \<le> fst (F f) \<and> snd (F f) \<notin> {FD_PIPE, FD_NONE} \<and> fd_view (drop_ref f F) D C E t) (fileclose h f s)"
    (is "kspec ?Q' ?R' _")
proof (cases "1 \<le> fst (F f)")
  case True
  have "kspec (\<lambda>_. fd_view (drop_ref f F) D C E)
    (\<lambda>t. snd (F f) \<notin> {FD_PIPE, FD_NONE} \<and> fd_view (drop_ref f F) D C E t) (fileclose h f s)"
    by (rule fileclose_view_pos [OF assms])
  then show ?thesis by (rule kspec_mono) (use True in auto)
next
  case False
  show ?thesis unfolding fileclose_def
    by (rule kspec_bind [OF kspec_mono [OF tab_lock(1) [OF assms]]]) (use False in \<open>auto simp: fd_viewD\<close>)
qed

section \<open>Counting references\<close>

text \<open>\<open>refs D f\<close>: the number of descriptors that name file \<open>f\<close>.\<close>

definition refs :: "fdtab \<Rightarrow> nat \<Rightarrow> int" where
  "refs D f = (\<Sum>p<NPROC. \<Sum>fd<NOFILE. if D p fd = Some f then 1 else 0)"

lemma sum_update:
  fixes g g' :: "nat \<Rightarrow> int"
  assumes "k < n" and "\<And>i. i \<noteq> k \<Longrightarrow> g' i = g i"
  shows "(\<Sum>i<n. g' i) = (\<Sum>i<n. g i) - g k + g' k"
proof -
  have "(\<Sum>i\<in>{..<n} - {k}. g' i) = (\<Sum>i\<in>{..<n} - {k}. g i)" by (rule sum.cong) (auto simp: assms(2))
  then show ?thesis using assms(1) sum.remove [of "{..<n}" k g] sum.remove [of "{..<n}" k g'] by simp
qed

lemma refs_set_fd:
  assumes "p < NPROC" and "fd < NOFILE"
  shows "refs (set_fd p fd x D) f =
    refs D f - (if D p fd = Some f then 1 else 0) + (if x = Some f then 1 else 0)"
proof -
  let ?g = "\<lambda>D p. (\<Sum>fd<NOFILE. if D p fd = Some f then 1 else 0 :: int)"
  have "refs (set_fd p fd x D) f = refs D f - ?g D p + ?g (set_fd p fd x D) p"
    unfolding refs_def by (rule sum_update [OF assms(1)]) (simp add: set_fd_def)
  also have "?g (set_fd p fd x D) p = ?g D p - (if D p fd = Some f then 1 else 0) + (if set_fd p fd x D p fd = Some f then 1 else 0)"
    by (rule sum_update [OF assms(2)]) (simp add: set_fd_def)
  finally show ?thesis by (simp add: set_fd_def del: fun_upd_apply) simp
qed

lemma refs_nonneg: "0 \<le> refs D f"
  by (simp add: refs_def sum_nonneg)

lemma refs_pos: "D p fd = Some f \<Longrightarrow> p < NPROC \<Longrightarrow> fd < NOFILE \<Longrightarrow> 1 \<le> refs D f"
  using refs_set_fd [of p fd None D f] refs_nonneg [of "set_fd p fd None D" f] by simp

text \<open>
  \<open>fd_ok W F D C E\<close>: the tables are consistent but for \<open>W f\<close> references to file \<open>f\<close> that are counted and held by no descriptor.  A file
  without references has no type, dead processes have no descriptors, and the running ones are alive.
\<close>

definition fd_ok :: "(nat \<Rightarrow> int) \<Rightarrow> filetab \<Rightarrow> fdtab \<Rightarrow> (nat \<Rightarrow> nat option) \<Rightarrow> (nat \<Rightarrow> bool) \<Rightarrow> bool" where
  "fd_ok W F D C E \<longleftrightarrow>
     (\<forall>h p. C h = Some p \<longrightarrow> p < NPROC \<and> \<not> E p) \<and>
     (\<forall>p fd f. D p fd = Some f \<longrightarrow> p < NPROC \<and> fd < NOFILE \<and> f < NFILE) \<and>
     (\<forall>p. E p \<longrightarrow> D p = (\<lambda>_. None)) \<and>
     (\<forall>f<NFILE. fst (F f) = refs D f + W f \<and> (fst (F f) = 0 \<longrightarrow> snd (F f) = FD_NONE))"

definition inc :: "nat \<Rightarrow> (nat \<Rightarrow> int) \<Rightarrow> nat \<Rightarrow> int" where "inc f W = W(f := W f + 1)"
definition dec :: "nat \<Rightarrow> (nat \<Rightarrow> int) \<Rightarrow> nat \<Rightarrow> int" where "dec f W = W(f := W f - 1)"

lemma inc_dec [simp]: "inc f (dec f W) = W" "dec f (inc f W) = W"
  by (simp_all add: inc_def dec_def)

lemma inc_dec_swap: "dec f (inc g W) = inc g (dec f W)" "inc f (inc g W) = inc g (inc f W)"
  by (auto simp: inc_def dec_def fun_eq_iff)

lemma fd_ok_add: "fd_ok W F D C E \<Longrightarrow> 0 \<le> fst (F f) \<Longrightarrow> fd_ok (inc f W) (add_ref f F) D C E"
  by (auto simp: fd_ok_def add_ref_def inc_def)

lemma fd_ok_drop: "fd_ok W F D C E \<Longrightarrow> 1 \<le> fst (F f) \<Longrightarrow> fd_ok (dec f W) (drop_ref f F) D C E"
  by (auto simp: fd_ok_def drop_ref_def dec_def)

lemma fd_ok_set:
  assumes "fd_ok W F D C E" and "p < NPROC" and "fd < NOFILE" and "f < NFILE" and "D p fd = None" and "\<not> E p"
  shows "fd_ok (dec f W) F (set_fd p fd (Some f) D) C E"
  using assms by (auto simp: fd_ok_def refs_set_fd dec_def) (auto simp: set_fd_def split: if_splits)

lemma fd_ok_unset:
  assumes "fd_ok W F D C E" and "D p fd = Some f"
  shows "fd_ok (inc f W) F (set_fd p fd None D) C E"
proof -
  have "p < NPROC" "fd < NOFILE" using assms by (auto simp: fd_ok_def)
  then show ?thesis
    using assms by (auto simp: fd_ok_def refs_set_fd inc_def) (auto simp: set_fd_def split: if_splits)
qed

section \<open>What the operations owe\<close>

text \<open>\<open>owes W D C E T s\<close>: the tables of \<open>s\<close> are consistent but for \<open>W\<close>, and the files in \<open>T\<close> are pipes or not opened yet.\<close>

definition owes :: "(nat \<Rightarrow> int) \<Rightarrow> fdtab \<Rightarrow> (nat \<Rightarrow> nat option) \<Rightarrow> (nat \<Rightarrow> bool) \<Rightarrow> nat set \<Rightarrow> 'a kvirt_scheme \<Rightarrow> bool" where
  "owes W D C E T s \<longleftrightarrow> (\<exists>F. fd_view F D C E s \<and> fd_ok W F D C E \<and> (\<forall>f\<in>T. snd (F f) \<in> {FD_PIPE, FD_NONE}))"

interpretation ow: kernel_inv "owes W D C E T" for W D C E T
  by unfold_locales (auto simp: owes_def fd_view_def)

lemma owesE:
  assumes "owes W D C E T s"
  obtains F where "fd_view F D C E s" "fd_ok W F D C E" "\<forall>f\<in>T. snd (F f) \<in> {FD_PIPE, FD_NONE}"
  using assms by (auto simp: owes_def)

lemma owesD:
  assumes "owes W D C E T s"
  shows "C h = Some p \<Longrightarrow> p < NPROC" "C h = Some p \<Longrightarrow> \<not> E p" "D p fd = Some f \<Longrightarrow> p < NPROC \<and> fd < NOFILE \<and> f < NFILE"
    "E p \<Longrightarrow> D p = (\<lambda>_. None)" "dead (procs s p) \<Longrightarrow> E p" "p_ofile (procs s p) = D p"
  using assms by (auto simp: owes_def fd_ok_def fd_view_def)

lemma curproc_owes:
  assumes "owes W D C E T s"
  shows "kspec (\<lambda>p t. C h = Some p \<and> owes W D C E T t) (\<lambda>_. False) (curproc h s)"
proof -
  from assms obtain F where F: "fd_view F D C E s" "fd_ok W F D C E" "\<forall>f\<in>T. snd (F f) \<in> {FD_PIPE, FD_NONE}"
    by (rule owesE)
  show ?thesis by (rule kspec_mono [OF curproc_view [OF F(1)]]) (use F(2,3) in \<open>auto simp: owes_def\<close>)
qed

lemma filealloc_owes:
  assumes "owes W D C E T s"
  shows "kspec (\<lambda>r t. case r of None \<Rightarrow> owes W D C E T t
      | Some f \<Rightarrow> f < NFILE \<and> owes (inc f W) D C E (insert f T) t) (\<lambda>_. False) (filealloc h s)"
proof -
  from assms obtain F where F: "fd_view F D C E s" "fd_ok W F D C E" "\<forall>f\<in>T. snd (F f) \<in> {FD_PIPE, FD_NONE}"
    by (rule owesE)
  have "owes (inc f W) D C E (insert f T) t" if "f < NFILE" "fst (F f) = 0" "fd_view (add_ref f F) D C E t" for f and t :: "'a kvirt_scheme"
  proof -
    have "snd (F f) = FD_NONE" using F(2) that by (simp add: fd_ok_def)
    then show ?thesis
      using that fd_ok_add [OF F(2), of f] F(3) unfolding owes_def
      by (intro exI [of _ "add_ref f F"]) (auto simp: add_ref_def)
  qed
  then show ?thesis
    by (intro kspec_mono [OF filealloc_view [OF F(1)]]) (use F in \<open>auto simp: owes_def split: option.splits\<close>)
qed

lemma filedup_owes:
  assumes "owes W D C E T s"
  shows "kspec (\<lambda>r t. r = f \<and> owes (inc f W) D C E T t) (\<lambda>_. False) (filedup h f s)"
proof -
  from assms obtain F where F: "fd_view F D C E s" "fd_ok W F D C E" "\<forall>f\<in>T. snd (F f) \<in> {FD_PIPE, FD_NONE}"
    by (rule owesE)
  have "owes (inc f W) D C E T t" if "1 \<le> fst (F f)" "fd_view (add_ref f F) D C E t" for t :: "'a kvirt_scheme"
    unfolding owes_def using that fd_ok_add [OF F(2), of f] F(3)
    by (intro exI [of _ "add_ref f F"]) (auto simp: add_ref_def)
  then show ?thesis by (intro kspec_mono [OF filedup_view [OF F(1)]]) auto
qed

lemma fileclose_owes:
  assumes "owes W D C E T s"
  shows "kspec (\<lambda>_ t. owes (dec f W) D C E T t) (\<lambda>t. f \<notin> T \<and> owes (dec f W) D C E T t) (fileclose h f s)"
proof -
  from assms obtain F where F: "fd_view F D C E s" "fd_ok W F D C E" "\<forall>f\<in>T. snd (F f) \<in> {FD_PIPE, FD_NONE}"
    by (rule owesE)
  have "owes (dec f W) D C E T t" if "1 \<le> fst (F f)" "fd_view (drop_ref f F) D C E t" for t :: "'a kvirt_scheme"
    unfolding owes_def using that fd_ok_drop [OF F(2), of f] F(3)
    by (intro exI [of _ "drop_ref f F"]) (auto simp: drop_ref_def)
  then show ?thesis using F(3) by (intro kspec_mono [OF fileclose_view [OF F(1)]]) auto
qed

lemma set_ofile_owes:
  assumes "owes W D C E T s"
  shows "D p fd = Some f \<Longrightarrow> owes (inc f W) (set_fd p fd None D) C E T (set_ofile p fd None s)"
    and "p < NPROC \<Longrightarrow> fd < NOFILE \<Longrightarrow> f < NFILE \<Longrightarrow> D p fd = None \<Longrightarrow> \<not> E p \<Longrightarrow>
      owes (dec f W) (set_fd p fd (Some f) D) C E T (set_ofile p fd (Some f) s)"
proof -
  from assms obtain F where F: "fd_view F D C E s" "fd_ok W F D C E" "\<forall>f\<in>T. snd (F f) \<in> {FD_PIPE, FD_NONE}"
    by (rule owesE)
  show "D p fd = Some f \<Longrightarrow> owes (inc f W) (set_fd p fd None D) C E T (set_ofile p fd None s)"
    using fd_view_set_ofile [OF F(1)] fd_ok_unset [OF F(2)] F(3) unfolding owes_def by blast
  show "p < NPROC \<Longrightarrow> fd < NOFILE \<Longrightarrow> f < NFILE \<Longrightarrow> D p fd = None \<Longrightarrow> \<not> E p \<Longrightarrow>
      owes (dec f W) (set_fd p fd (Some f) D) C E T (set_ofile p fd (Some f) s)"
    using fd_view_set_ofile [OF F(1)] fd_ok_set [OF F(2)] F(3) unfolding owes_def by blast
qed

lemma fdalloc_owes:
  assumes "owes W D C E T s" and "f < NFILE"
  shows "kspec (\<lambda>r t. case r of None \<Rightarrow> owes W D C E T t
      | Some fd \<Rightarrow> \<exists>p. C h = Some p \<and> D p fd = None \<and> owes (dec f W) (set_fd p fd (Some f) D) C E T t) (\<lambda>_. False) (fdalloc h f s)"
  unfolding fdalloc_def
proof (rule kspec_bind [OF curproc_owes [OF assms(1)]])
  fix p and t :: "'a kvirt_scheme"
  assume "C h = Some p \<and> owes W D C E T t"
  then have p: "C h = Some p" and t: "owes W D C E T t" by auto
  then have "p < NPROC" "\<not> E p" "p_ofile (procs t p) = D p" using owesD [OF t] by auto
  then show "kspec (\<lambda>r t. case r of None \<Rightarrow> owes W D C E T t
      | Some fd \<Rightarrow> \<exists>p. C h = Some p \<and> D p fd = None \<and> owes (dec f W) (set_fd p fd (Some f) D) C E T t) (\<lambda>_. False)
    (case find (\<lambda>fd. p_ofile (procs t p) fd = None) [0..<NOFILE] of
       None \<Rightarrow> Ok None t | Some fd \<Rightarrow> Ok (Some fd) (set_ofile p fd (Some f) t))"
    using p t assms(2) by (auto simp: find_Some_iff split: option.split intro!: set_ofile_owes(2) [OF t])
qed

lemma argfd_owes:
  assumes "owes W D C E T s"
  shows "kspec (\<lambda>r t. owes W D C E T t \<and> (\<forall>fd f. r = Some (fd, f) \<longrightarrow> (\<exists>p. C h = Some p \<and> D p fd = Some f)))
    (owes W D C E T) (argfd h n s)"
  unfolding argfd_def
proof (rule kspec_bind [OF ow.argint_keeps [OF assms, unfolded kpost_kspec]])
  fix fd :: u32 and t :: "'a kvirt_scheme"
  assume t: "owes W D C E T t"
  show "kspec (\<lambda>r t. owes W D C E T t \<and> (\<forall>fd f. r = Some (fd, f) \<longrightarrow> (\<exists>p. C h = Some p \<and> D p fd = Some f)))
      (owes W D C E T)
     (if sint fd < 0 \<or> int NOFILE \<le> sint fd then Ok None t
      else kbind (curproc h t) (\<lambda>p s. case p_ofile (procs s p) (unat fd) of
             None \<Rightarrow> Ok None s | Some f \<Rightarrow> Ok (Some (unat fd, f)) s))"
  proof -
    have c: "kspec (\<lambda>p t. C h = Some p \<and> owes W D C E T t) (owes W D C E T) (curproc h t)"
      by (rule kspec_mono [OF curproc_owes [OF t]]) auto
    show ?thesis using t by (auto intro!: kspec_bind [OF c] simp: owesD(6) split: option.split)
  qed
qed

text \<open>The same facts as rules for what follows the call.\<close>

lemma kspec_then:
  assumes "kspec Q' R' m" and "\<And>s. R' s \<Longrightarrow> R s" and "\<And>x s. Q' x s \<Longrightarrow> kspec Q R (f x s)"
  shows "kspec Q R (kbind m f)"
  using assms by (cases m) auto

lemma keep_wp:
  assumes "kpost P m" and "\<And>s. P s \<Longrightarrow> R s" and "\<And>x s. P s \<Longrightarrow> kspec Q R (f x s)"
  shows "kspec Q R (kbind m f)"
  using assms by (cases m) auto

lemma curproc_wp:
  assumes "owes W D C E T s" and "\<And>p t. C h = Some p \<Longrightarrow> owes W D C E T t \<Longrightarrow> kspec Q R (k p t)"
  shows "kspec Q R (kbind (curproc h s) k)"
  by (rule kspec_then [OF curproc_owes [OF assms(1)]]) (use assms(2) in auto)

lemma filealloc_wp:
  assumes "owes W D C E T s" and "\<And>t. owes W D C E T t \<Longrightarrow> kspec Q R (k None t)"
    and "\<And>f t. f < NFILE \<Longrightarrow> owes (inc f W) D C E (insert f T) t \<Longrightarrow> kspec Q R (k (Some f) t)"
  shows "kspec Q R (kbind (filealloc h s) k)"
  by (rule kspec_then [OF filealloc_owes [OF assms(1)]]) (use assms(2,3) in \<open>auto split: option.splits\<close>)

lemma filedup_wp:
  assumes "owes W D C E T s" and "\<And>t. owes (inc f W) D C E T t \<Longrightarrow> kspec Q R (k f t)"
  shows "kspec Q R (kbind (filedup h f s) k)"
  by (rule kspec_then [OF filedup_owes [OF assms(1)]]) (use assms(2) in auto)

lemma fileclose_wp:
  assumes "owes W D C E T s" and "\<And>t. f \<notin> T \<Longrightarrow> owes (dec f W) D C E T t \<Longrightarrow> R t"
    and "\<And>t. owes (dec f W) D C E T t \<Longrightarrow> kspec Q R (k () t)"
  shows "kspec Q R (kbind (fileclose h f s) k)"
  by (rule kspec_then [OF fileclose_owes [OF assms(1)]]) (use assms(2,3) in auto)

lemma fdalloc_wp:
  assumes "owes W D C E T s" and "f < NFILE" and "\<And>t. owes W D C E T t \<Longrightarrow> kspec Q R (k None t)"
    and "\<And>p fd t. C h = Some p \<Longrightarrow> D p fd = None \<Longrightarrow> owes (dec f W) (set_fd p fd (Some f) D) C E T t \<Longrightarrow> kspec Q R (k (Some fd) t)"
  shows "kspec Q R (kbind (fdalloc h f s) k)"
  by (rule kspec_then [OF fdalloc_owes [OF assms(1,2)]]) (use assms(3,4) in \<open>auto split: option.splits\<close>)

lemma argfd_wp:
  assumes "owes W D C E T s" and "\<And>t. owes W D C E T t \<Longrightarrow> R t" and "\<And>t. owes W D C E T t \<Longrightarrow> kspec Q R (k None t)"
    and "\<And>p fd f t. C h = Some p \<Longrightarrow> D p fd = Some f \<Longrightarrow> f < NFILE \<Longrightarrow> owes W D C E T t \<Longrightarrow> kspec Q R (k (Some (fd, f)) t)"
  shows "kspec Q R (kbind (argfd h n s) k)"
proof (rule kspec_then [OF argfd_owes [OF assms(1)] assms(2)])
  fix r and t :: "'a kvirt_scheme"
  assume r: "owes W D C E T t \<and> (\<forall>fd f. r = Some (fd, f) \<longrightarrow> (\<exists>p. C h = Some p \<and> D p fd = Some f))"
  show "kspec Q R (k r t)"
  proof (cases r)
    case (Some a)
    then obtain p where "C h = Some p" "D p (fst a) = Some (snd a)" using r by (cases a) auto
    then show ?thesis using Some r owesD(3) [of W D C E T t] by (cases a) (auto intro!: assms(4))
  qed (use r assms(3) in auto)
qed

section \<open>The invariant\<close>

text \<open>
  \<open>fd_inv\<close>: the reference count of every open file is the number of descriptors that name it; a file nobody references has
  no type; unused and dead slots have no descriptors, and no CPU runs one of them.
\<close>

definition fd_inv :: "'a kvirt_scheme \<Rightarrow> bool" where
  "fd_inv s \<longleftrightarrow> owes (\<lambda>_. 0) (\<lambda>p. p_ofile (procs s p)) (\<lambda>h. c_proc (cpus s h)) (\<lambda>p. dead (procs s p)) {} s"

abbreviation W0 :: "nat \<Rightarrow> int" where "W0 \<equiv> (\<lambda>_. 0)"

lemma owes_fd_inv: "owes W0 D C E T s \<Longrightarrow> fd_inv s"
  by (auto simp: fd_inv_def owes_def fd_view_def fd_ok_def)

lemma sys_dup_fd_inv: "owes W0 D C E T s \<Longrightarrow> kspec (\<lambda>_. fd_inv) fd_inv (sys_dup h s)"
  unfolding sys_dup_def
  by (rule argfd_wp, assumption) (auto intro!: owes_fd_inv fdalloc_wp filedup_wp)

lemma sys_close_fd_inv: "owes W0 D C E T s \<Longrightarrow> kspec (\<lambda>_. fd_inv) fd_inv (sys_close h s)"
  unfolding sys_close_def
proof (rule argfd_wp, assumption)
  fix p fd f and t :: "'a kvirt_scheme"
  assume p: "C h = Some p" "D p fd = Some f" "f < NFILE" "owes W0 D C E T t"
  have "kspec (\<lambda>_. fd_inv) fd_inv (kbind (fileclose h f (set_ofile p fd None u)) (\<lambda>_. Ok 0))"
    if "owes W0 D C E T u" for u :: "'a kvirt_scheme"
    by (rule fileclose_wp [OF set_ofile_owes(1) [OF that p(2)]]) (auto intro: owes_fd_inv)
  then show "kspec (\<lambda>_. fd_inv) fd_inv (case Some (fd, f) of None \<Rightarrow> Ok (-1) t
     | Some (fd, f) \<Rightarrow> kbind (curproc h t) (\<lambda>p s. kbind (fileclose h f (set_ofile p fd None s)) (\<lambda>_. Ok 0)))"
    using p by (auto intro!: curproc_wp)
qed (auto intro: owes_fd_inv)

text \<open>Files made pipes stay harmless to close.\<close>

lemma pipe_file_owes:
  assumes "owes W D C E T s" and "f \<in> T" and "\<And>x. f_ref (u x) = f_ref x \<and> f_type (u x) = FD_PIPE" and "1 \<le> W f"
  shows "owes W D C E T (file_at f u s)"
proof -
  from assms(1) obtain F where F: "fd_view F D C E s" "fd_ok W F D C E" "\<forall>f\<in>T. snd (F f) \<in> {FD_PIPE, FD_NONE}"
    by (rule owesE)
  let ?F = "F(f := (fst (F f), FD_PIPE))"
  have "fd_view ?F D C E (file_at f u s)" using F(1) assms(3) by (auto simp: fd_view_def file_at_def fun_eq_iff)
  moreover have "fst (F f) \<noteq> 0" if "f < NFILE"
    using F(2) that assms(4) refs_nonneg [of D f] by (auto simp: fd_ok_def)
  then have "fd_ok W ?F D C E" using F(2) by (auto simp: fd_ok_def)
  ultimately show ?thesis using F(3) unfolding owes_def by (intro exI [of _ ?F]) auto
qed

lemma owes_types: "owes W D C E T s \<Longrightarrow> T' \<subseteq> T \<Longrightarrow> owes W D C E T' s"
  by (auto simp: owes_def)

lemma pipealloc_bad_owes:
  assumes "owes W D C E T s" and "set_option f0 \<union> set_option f1 \<subseteq> T"
    and "(case f1 of None \<Rightarrow> id | Some f \<Rightarrow> dec f) ((case f0 of None \<Rightarrow> id | Some f \<Rightarrow> dec f) W) = W'"
  shows "kspec (\<lambda>r t. r = None \<and> owes W' D C E {} t) (\<lambda>_. False) (pipealloc_bad h f0 f1 s)"
  unfolding pipealloc_bad_def
  using assms by (cases f0; cases f1) (auto intro!: fileclose_wp intro: owes_types)

lemma pipealloc_init_owes:
  assumes "owes W D C E {b, a} s" and "1 \<le> W a" and "1 \<le> W b"
  shows "owes W D C E {a, b} (pipealloc_init pi a b s)"
  using assms unfolding pipealloc_init_def Let_def
  by (intro pipe_file_owes) (auto simp: insert_commute)

lemma pipealloc_wp:
  assumes "owes W0 D C E {} s" and "\<And>t. owes W0 D C E {} t \<Longrightarrow> kspec Q R (k None t)"
    and "\<And>a b t. a < NFILE \<Longrightarrow> b < NFILE \<Longrightarrow> owes (inc b (inc a W0)) D C E {a, b} t \<Longrightarrow> kspec Q R (k (Some (a, b)) t)"
  shows "kspec Q R (kbind (pipealloc h s) k)"
proof (rule kspec_then)
  let ?Q = "\<lambda>r t. case r of None \<Rightarrow> owes W0 D C E {} t
    | Some (a, b) \<Rightarrow> a < NFILE \<and> b < NFILE \<and> owes (inc b (inc a W0)) D C E {a, b} t"
  have bad: "kspec ?Q (\<lambda>_. False) (pipealloc_bad h f0 f1 t)"
    if "owes W D C E T t" "set_option f0 \<union> set_option f1 \<subseteq> T"
      "(case f1 of None \<Rightarrow> id | Some f \<Rightarrow> dec f) ((case f0 of None \<Rightarrow> id | Some f \<Rightarrow> dec f) W) = W0"
    for W T f0 f1 and t :: "'a kvirt_scheme"
    by (rule kspec_mono [OF pipealloc_bad_owes [OF that]]) auto
  have cancel: "dec b (dec a (inc b (inc a W0))) = W0" "1 \<le> inc b (inc a W0) a" "1 \<le> inc b (inc a W0) b" for a b
    by (auto simp: inc_def dec_def fun_eq_iff)
  have page: "kspec ?Q (\<lambda>_. False) (kbind (kalloc h t) (\<lambda>pi s. if pi = 0 then pipealloc_bad h (Some a) (Some b) s
      else Ok (Some (a, b)) (pipealloc_init pi a b s)))"
    if "a < NFILE" "b < NFILE" "owes (inc b (inc a W0)) D C E {b, a} t" for a b and t :: "'a kvirt_scheme"
    by (rule kspec_then [OF kspec_no_switch [OF ow.kalloc_keeps [OF that(3)] kalloc_no_switch(1)]])
       (use that(1,2) in \<open>auto intro!: bad pipealloc_init_owes simp: cancel\<close>)
  show "kspec ?Q (\<lambda>_. False) (pipealloc h s)"
    unfolding pipealloc_def by (rule filealloc_wp [OF assms(1)]) (auto intro!: bad page filealloc_wp)
  show "kspec Q R (k r t)" if "?Q r t" for r and t :: "'a kvirt_scheme"
    using that assms(2,3) by (cases r) auto
qed auto

lemma sys_pipe_bad_fd_inv:
  assumes "owes W D C E {rf, wf'} s"
    and "fd0 = None \<or> (\<exists>a. fd0 = Some a \<and> D p a = Some rf)"
    and "fd1 = None \<or> (\<exists>b. fd1 = Some b \<and> D p b = Some wf' \<and> fd0 \<noteq> fd1)"
    and "W = (if fd1 = None then inc wf' else id) ((if fd0 = None then inc rf else id) W0)"
  shows "kspec (\<lambda>_. fd_inv) fd_inv (sys_pipe_bad h p fd0 fd1 rf wf' s)"
proof -
  let ?s1 = "case fd0 of Some fd \<Rightarrow> set_ofile p fd None s | None \<Rightarrow> s"
  let ?D1 = "case fd0 of Some fd \<Rightarrow> set_fd p fd None D | None \<Rightarrow> D"
  let ?s2 = "case fd1 of Some fd \<Rightarrow> set_ofile p fd None ?s1 | None \<Rightarrow> ?s1"
  let ?W1 = "case fd0 of Some fd \<Rightarrow> inc rf W | None \<Rightarrow> W"
  have s1: "owes ?W1 ?D1 C E {rf, wf'} ?s1"
    using assms(1,2) set_ofile_owes(1) [OF assms(1)] by (auto split: option.splits)
  have "fd1 = Some b \<Longrightarrow> ?D1 p b = Some wf'" for b
    using assms(3) by (auto simp: set_fd_def split: option.splits)
  then have "\<exists>D2. owes (case fd1 of Some fd \<Rightarrow> inc wf' ?W1 | None \<Rightarrow> ?W1) D2 C E {rf, wf'} ?s2"
    using s1 set_ofile_owes(1) [OF s1] by (cases fd1) auto
  moreover have "(case fd1 of Some fd \<Rightarrow> inc wf' ?W1 | None \<Rightarrow> ?W1) = inc wf' (inc rf W0)"
    using assms(4) by (auto simp: inc_dec_swap split: option.splits)
  ultimately obtain D2 where "owes (inc wf' (inc rf W0)) D2 C E {rf, wf'} ?s2" by metis
  then show ?thesis
    unfolding sys_pipe_bad_def Let_def
    by (auto intro!: fileclose_wp owes_fd_inv simp: inc_dec_swap(1) split: option.splits)
qed

lemma sys_pipe_copy_fd_inv:
  assumes "owes W0 D C E {rf, wf'} s" and "D p a = Some rf" and "D p b = Some wf'" and "a \<noteq> b"
  shows "kspec (\<lambda>_. fd_inv) fd_inv
    (kbind (copyout h pt adr bs s) (\<lambda>r0 s.
     if r0 < 0 then sys_pipe_bad h p (Some a) (Some b) rf wf' s
     else kbind (copyout h (p_pagetable (procs s p)) adr2 bs2 s) (\<lambda>r1 s.
          if r1 < 0 then sys_pipe_bad h p (Some a) (Some b) rf wf' s else Ok v s)))"
  using assms
  by (auto intro!: keep_wp [OF ow.copyout_keeps] sys_pipe_bad_fd_inv [where D = D] owes_fd_inv) simp_all

lemma sys_pipe_second:
  assumes "C h = Some p" and "w < NFILE" and "D p a = Some r" and "owes (inc w W0) D C E {r, w} s"
  shows "kspec (\<lambda>_. fd_inv) fd_inv (kbind (fdalloc h w s) (\<lambda>fd1 s. case fd1 of
       None \<Rightarrow> sys_pipe_bad h p (Some a) None r w s
     | Some b \<Rightarrow> kbind (copyout h (p_pagetable (procs s p)) adr bs s) (\<lambda>r0 s.
         if r0 < 0 then sys_pipe_bad h p (Some a) fd1 r w s
         else kbind (copyout h (p_pagetable (procs s p)) adr2 (bs2 b) s) (\<lambda>r1 s.
              if r1 < 0 then sys_pipe_bad h p (Some a) fd1 r w s else Ok v s))))"
proof (rule fdalloc_wp [OF assms(4,2)], goal_cases)
  case (1 t)
  then show ?case using assms by (auto intro!: sys_pipe_bad_fd_inv)
next
  case (2 q b t)
  then show ?case using assms by (auto intro!: sys_pipe_copy_fd_inv simp: set_fd_def)
qed

lemma sys_pipe_fd_inv:
  assumes "owes W0 D C E {} s"
  shows "kspec (\<lambda>_. fd_inv) fd_inv (sys_pipe h s)"
  unfolding sys_pipe_def
proof (rule curproc_wp [OF assms], rule keep_wp [OF ow.argaddr_keeps], assumption, goal_cases)
  case (1 p t t')
  then show ?case by (auto intro: owes_fd_inv)
next
  case (2 p t fdarray u)
  show ?case
  proof (rule pipealloc_wp [OF 2(3)], goal_cases)
    case (1 u)
    then show ?case by (auto intro: owes_fd_inv)
  next
    case (2 r w u)
    have "dec r (inc w (inc r W0)) = inc w W0" by (simp add: inc_dec_swap(1))
    then show ?case
      using \<open>C h = Some p\<close> 2(1,2)
      by (auto intro!: fdalloc_wp [OF 2(3)] sys_pipe_bad_fd_inv sys_pipe_second simp: set_fd_def split: option.split) simp_all
  qed
qed

text \<open>\<^verbatim>\<open>sys_open\<close>: the file gets its type when a descriptor names it.\<close>

lemma open_file_owes:
  assumes "owes W0 D C E T s" and "D p fd = Some f" and "\<And>x. f_ref (u x) = f_ref x"
  shows "owes W0 D C E {} (file_at f u s)"
proof -
  from assms(1) obtain F where F: "fd_view F D C E s" "fd_ok W0 F D C E" by (rule owesE)
  let ?F = "F(f := (fst (F f), f_type (u (files s f))))"
  have "fd_view ?F D C E (file_at f u s)" using F(1) assms(3) by (auto simp: fd_view_def file_at_def fun_eq_iff)
  moreover have "fst (F f) \<noteq> 0"
    using F(2) assms(2) refs_pos [of D p fd f] by (auto simp: fd_ok_def)
  then have "fd_ok W0 ?F D C E" using F(2) by (auto simp: fd_ok_def)
  ultimately show ?thesis unfolding owes_def by blast
qed

lemma open_install_fd_inv:
  assumes "owes W0 D C E T s" and "D p fd = Some f"
  shows "kspec (\<lambda>_. fd_inv) fd_inv (open_install h ip f fd' m s)"
proof -
  have k: "kpost (owes W0 D C E {}) (open_install h ip f fd' m s)"
    unfolding open_install_def Let_def
    using assms by (auto intro!: keeps open_file_owes [where p = p and fd = fd] intro: owes_types)
  show ?thesis by (rule kspec_mono [OF k [unfolded kpost_kspec]]) (auto intro: owes_fd_inv)
qed

lemma keeps_fd_inv: "kpost (owes W0 D C E T) m \<Longrightarrow> kspec (\<lambda>_. fd_inv) fd_inv m"
  by (cases m) (auto intro: owes_fd_inv)

lemma open_inode_fd_inv:
  assumes "owes W0 D C E {} s"
  shows "kspec (\<lambda>_. fd_inv) fd_inv (open_inode h ip m s)"
proof -
  have fail: "kspec (\<lambda>_. fd_inv) fd_inv (kbind (iunlockput h ip t) (\<lambda>_ s. op_fail h s))"
    if "owes W0 D C E T t" for T and t :: "'a kvirt_scheme"
    using that by (intro keeps_fd_inv) (auto intro!: keeps)
  have none: "kspec (\<lambda>_. fd_inv) fd_inv (kbind (fileclose h f t) (\<lambda>_ s. kbind (iunlockput h ip s) (\<lambda>_. op_fail h)))"
    if "owes (inc f W0) D C E {f} t" for f and t :: "'a kvirt_scheme"
    using that by (intro fileclose_wp) (auto intro: fail)
  have some: "kspec (\<lambda>_. fd_inv) fd_inv (open_install h ip f fd m t)"
    if "owes W (set_fd p fd (Some f) D) C E T t" "W = W0" for W f fd p T and t :: "'a kvirt_scheme"
    using that by (intro open_install_fd_inv [where D = "set_fd p fd (Some f) D" and p = p and fd = fd and C = C and E = E and T = T]) (auto simp: set_fd_def)
  show ?thesis
    unfolding open_inode_def using assms by (auto intro!: fail filealloc_wp fdalloc_wp none some)
qed

lemma sys_open_fd_inv:
  assumes "owes W0 D C E {} s"
  shows "kspec (\<lambda>_. fd_inv) fd_inv (sys_open h s)"
proof -
  have k: "kspec (\<lambda>_. fd_inv) fd_inv (kbind m k)"
    if "kpost (owes W0 D C E {}) m" "\<And>x t. owes W0 D C E {} t \<Longrightarrow> kspec (\<lambda>_. fd_inv) fd_inv (k x t)"
    for m :: "('x, 'a kvirt_scheme) res" and k :: "'x \<Rightarrow> 'a kvirt_scheme \<Rightarrow> (u64, 'a kvirt_scheme) res"
    using that by (auto intro: keep_wp owes_fd_inv)
  have fail: "kspec (\<lambda>_. fd_inv) fd_inv (op_fail h t)" "kspec (\<lambda>_. fd_inv) fd_inv (kbind (iunlockput h ip t) (\<lambda>_. op_fail h))"
    if "owes W0 D C E {} t" for ip and t :: "'a kvirt_scheme"
    using that by (auto intro!: keeps_fd_inv keeps)
  show ?thesis
    unfolding sys_open_def using assms
    by (auto intro!: k fail open_inode_fd_inv owes_fd_inv keeps split: option.split)
qed

section \<open>fork and wait\<close>

lemma bury_owes:
  assumes "owes W D C E T s" and "E i" and "\<And>q. p_ofile (u q) = p_ofile q"
  shows "owes W D C E T (proc_at i u s)"
  using assms by (auto simp: owes_def fd_view_def proc_at_def fun_eq_iff)

lemma freeproc_owes: "owes W D C E T s \<Longrightarrow> E i \<Longrightarrow> kpost (owes W D C E T) (freeproc h i s)"
  by (auto simp: freeproc_def Let_def clear_proc_def intro!: keeps bury_owes)

lemma kwait_owes: "owes W D C E T s \<Longrightarrow> kpost (owes W D C E T) (kwait h a s)"
proof -
  have one: "kpost (owes W D C E T) (kwait_one h me a i k t)" if "owes W D C E T t" for me i k and t :: "'a kvirt_scheme"
    unfolding kwait_one_def using that
    by (auto simp: Let_def intro!: keeps freeproc_owes) (auto dest: owesD(5) simp: dead_def)
  have scan: "kpost (owes W D C E T) (kwait_scan h me a is k t)" if "owes W D C E T t" for me "is" k and t :: "'a kvirt_scheme"
    using that by (induction "is" arbitrary: k t) (auto intro!: kpost_bind one split: sum.splits)
  show "owes W D C E T s \<Longrightarrow> ?thesis"
    unfolding kwait_def kwait_iter_def by (auto intro!: keeps scan split: sum.splits)
qed

lemma sys_wait_owes: "owes W D C E T s \<Longrightarrow> kpost (owes W D C E T) (sys_wait h s)"
  by (auto simp: sys_wait_def intro!: keeps kwait_owes)

lemma owes_bound:
  assumes "owes W D C E' T s" and "\<And>p. E' p \<Longrightarrow> E p" and "\<And>p. E p \<Longrightarrow> D p = (\<lambda>_. None)" and "\<And>h p. C h = Some p \<Longrightarrow> \<not> E p"
  shows "owes W D C E T s"
proof -
  from assms(1) obtain F where F: "fd_view F D C E' s" "fd_ok W F D C E'" "\<forall>f\<in>T. snd (F f) \<in> {FD_PIPE, FD_NONE}" by (rule owesE)
  have "fd_view F D C E s" using F(1) assms(2) unfolding fd_view_def by blast
  moreover have "fd_ok W F D C E" using F(2) assms(3,4) unfolding fd_ok_def by blast
  ultimately show ?thesis using F(3) unfolding owes_def by blast
qed

lemma kspec_kscan:
  assumes "P s" and "\<And>i s. i \<in> set is \<Longrightarrow> P s \<Longrightarrow> kspec (\<lambda>r t. P t \<and> (\<forall>x. r = Some x \<longrightarrow> G x)) R (f i s)"
  shows "kspec (\<lambda>r t. P t \<and> (\<forall>x. r = Some x \<longrightarrow> G x)) R (kscan f is s)"
  using assms by (induction "is" arbitrary: s) (auto intro!: kspec_then split: option.splits)

lemma alloc_slot_owes:
  assumes "owes W D C E T s" and "i < NPROC"
  shows "kspec (\<lambda>r t. owes W D C E T t \<and> (\<forall>x. r = Some x \<longrightarrow> x < NPROC \<and> E x)) (owes W D C E T) (alloc_slot h i s)"
  unfolding alloc_slot_def
proof (rule keep_wp [OF ow.acquire_keeps [OF assms(1)]], assumption, goal_cases)
  case (1 x t)
  have "p_state (procs t i) = UNUSED \<Longrightarrow> E i" using owesD(5) [OF 1, of i] by (simp add: dead_def)
  then show ?case using 1 assms(2) by (auto intro!: keep_wp [OF ow.release_keeps [OF 1]])
qed

lemma allocproc_owes:
  assumes "owes W D C E T s"
  shows "kspec (\<lambda>r t. case r of None \<Rightarrow> owes W D C E T t
      | Some np \<Rightarrow> np < NPROC \<and> E np \<and> owes W D C (E(np := False)) T t) (owes W D C E T) (allocproc h s)"
  (is "kspec ?Q ?R _")
  unfolding allocproc_def
proof (rule kspec_then [OF kspec_kscan [where G = "\<lambda>x. x < NPROC \<and> E x" and P = "owes W D C E T"]], goal_cases)
  case (4 r t)
  then have rt: "owes W D C E T t" "\<And>x. r = Some x \<Longrightarrow> x < NPROC \<and> E x" by auto
  show ?case
  proof (cases r)
    case (Some i)
    have E: "i < NPROC" "E i" using rt(2) Some by auto
    define E' where "E' = E(i := False)"
    have weak: "owes W D C E T u" if "owes W D C E' T u" for u :: "'a kvirt_scheme"
      by (rule owes_bound [OF that]) (use E(2) owesD(2,4) [OF rt(1)] in \<open>auto simp: E'_def split: if_splits\<close>)
    have free: "kspec ?Q ?R (kbind (freeproc h i u) (\<lambda>_ s. kbind (release h (LProc i) s) (\<lambda>_. Ok None)))"
      if "owes W D C E' T u" for u :: "'a kvirt_scheme"
      using weak [OF that] E(2) by (auto intro!: keep_wp [OF freeproc_owes] keep_wp [OF ow.release_keeps])
    have fresh: "owes W D C E' T (proc_at i (fresh_proc pid) u)" if "owes W D C E T u" for pid and u :: "'a kvirt_scheme"
      using that by (auto simp: E'_def owes_def fd_view_def fd_ok_def proc_at_def fresh_proc_def dead_def fun_eq_iff)
    have fin: "?Q (Some i) u" if "owes W D C E' T u" for u :: "'a kvirt_scheme" using that E by (simp add: E'_def)
    show ?thesis
      unfolding Some Let_def option.case
      by (rule keep_wp [OF ow.allocpid_keeps [OF rt(1)]], assumption, rule keep_wp [OF ow.kalloc_keeps [OF fresh]], assumption, rule weak, assumption)
         (auto simp del: option.case intro!: free fin keep_wp [OF ow.proc_pagetable_keeps [where E = E']] weak simp: dead_def)
  qed (use rt in auto)
qed (use assms in \<open>auto intro!: alloc_slot_owes\<close>)

text \<open>The loop that copies the descriptors: the child's slots it has not reached yet are free.\<close>

lemma fork_files_owes:
  assumes "owes W0 D C E T s" and "np < NPROC" and "\<not> E np" and "\<forall>fd\<in>set fds. fd < NOFILE \<and> D np fd = None" and "distinct fds"
  shows "kspec (\<lambda>_ t. \<exists>D. owes W0 D C E T t) (\<lambda>_. False) (kfor (\<lambda>fd s.
       case p_ofile (procs s p) fd of None \<Rightarrow> Ok () s
       | Some f \<Rightarrow> kbind (filedup h f s) (\<lambda>f s. Ok () (set_ofile np fd (Some f) s))) fds s)"
  using assms
proof (induction fds arbitrary: D s)
  case (Cons fd fds)
  show ?case
  proof (cases "D p fd")
    case None
    then show ?thesis using Cons owesD(6) [OF Cons.prems(1)] by auto
  next
    case (Some f)
    have f: "f < NFILE" using owesD(3) [OF Cons.prems(1) Some] by simp
    have set: "owes W0 (set_fd np fd (Some f) D) C E T (set_ofile np fd (Some f) t)" if "owes (inc f W0) D C E T t" for t :: "'a kvirt_scheme"
      using set_ofile_owes(2) [OF that, of np fd f] Cons.prems f by simp
    have "\<forall>fd'\<in>set fds. fd' < NOFILE \<and> set_fd np fd (Some f) D np fd' = None"
      using Cons.prems(4,5) by (auto simp: set_fd_def)
    then have rest: "kspec (\<lambda>_ t. \<exists>D. owes W0 D C E T t) (\<lambda>_. False) (kfor (\<lambda>fd s.
       case p_ofile (procs s p) fd of None \<Rightarrow> Ok () s
       | Some f \<Rightarrow> kbind (filedup h f s) (\<lambda>f s. Ok () (set_ofile np fd (Some f) s))) fds (set_ofile np fd (Some f) t))"
      if "owes (inc f W0) D C E T t" for t :: "'a kvirt_scheme"
      using Cons.IH [OF set [OF that]] Cons.prems by simp
    then show ?thesis
      using Some owesD(6) [OF Cons.prems(1)] by (auto simp: kbind_assoc intro!: filedup_wp [OF Cons.prems(1)])
  qed
qed auto

lemma kfork_fd_inv:
  assumes "owes W0 D C E {} s"
  shows "kspec (\<lambda>_. fd_inv) fd_inv (kfork h s)"
  unfolding kfork_def
proof (rule curproc_wp [OF assms], rule kspec_then [OF allocproc_owes], assumption, erule owes_fd_inv, goal_cases)
  case (1 p t r u)
  show ?case
  proof (cases r)
    case None
    then show ?thesis using 1 by (auto intro: owes_fd_inv)
  next
    case (Some np)
    define E' where "E' = E(np := False)"
    have np: "np < NPROC" "E np" "\<not> E' np" and u: "owes W0 D C E' {} u" using 1 Some by (auto simp: E'_def)
    have empty: "D np = (\<lambda>_. None)" using owesD(4) [OF 1(2)] np(2) by simp
    have weak: "owes W0 D C E {} v" if "owes W0 D C E' {} v" for v :: "'a kvirt_scheme"
      by (rule owes_bound [OF that]) (use np owesD(2,4) [OF 1(2)] in \<open>auto simp: E'_def split: if_splits\<close>)
    have fail: "kspec (\<lambda>_. fd_inv) fd_inv (kbind (freeproc h np v) (\<lambda>_ s. kbind (release h (LProc np) s) (\<lambda>_. Ok x)))"
      if "owes W0 D C E' {} v" for x and v :: "'a kvirt_scheme"
      using weak [OF that] np by (auto intro!: keeps_fd_inv [where D = D] keeps freeproc_owes)
    have tail: "kspec (\<lambda>_. fd_inv) fd_inv (kbind (case p_cwd (procs v p) of None \<Rightarrow> Panic ''kerneltrap'' | Some ip \<Rightarrow> idup h ip v) k)"
      if "owes W0 D' C E' {} v" "\<And>ip w. owes W0 D' C E' {} w \<Longrightarrow> kpost (owes W0 D' C E' {}) (k ip w)"
      for D' and k :: "nat \<Rightarrow> 'a kvirt_scheme \<Rightarrow> (u32, 'a kvirt_scheme) res" and v :: "'a kvirt_scheme"
      using that by (intro keeps_fd_inv [where D = D']) (auto intro!: keeps split: option.split)
    have regs: "owes W0 D C E' {} (fork_registers p np (proc_at np (\<lambda>q. q\<lparr>p_sz := z\<rparr>) v))" if "owes W0 D C E' {} v" for z and v :: "'a kvirt_scheme"
      using that by (simp add: fork_registers_def Let_def dead_def)
    show ?thesis
      unfolding Some option.case Let_def
    proof (rule keep_wp [OF ow.uvmcopy_keeps [OF u]], erule owes_fd_inv, goal_cases)
      case (1 c v)
      have files: "kspec (\<lambda>_ t. \<exists>D. owes W0 D C E' {} t) (\<lambda>_. False) (fork_files h p np w)" if "owes W0 D C E' {} w" for w :: "'a kvirt_scheme"
        unfolding fork_files_def by (rule fork_files_owes [OF that]) (use np empty in auto)
      show ?case
      proof (cases "c < 0")
        case False
        then show ?thesis
          by (auto intro!: kspec_then [OF files [OF regs [OF 1]]] tail keeps simp: dead_def)
      qed (use 1 fail in simp)
    qed
  qed
qed

section \<open>Every system call\<close>

lemma refs_card:
  assumes "\<And>p fd. D p fd = Some f \<Longrightarrow> p < NPROC \<and> fd < NOFILE"
  shows "refs D f = int (card {(p, fd). D p fd = Some f})"
proof -
  let ?A = "\<lambda>p. {fd. fd < NOFILE \<and> D p fd = Some f}"
  have "{(p, fd). D p fd = Some f} = Sigma {..<NPROC} ?A" using assms by auto
  moreover have "(\<Sum>fd<NOFILE. if D p fd = Some f then 1 else 0) = int (card (?A p))" for p
  proof -
    have "?A p = {..<NOFILE} \<inter> {fd. D p fd = Some f}" by auto
    then show ?thesis by (simp add: sum.If_cases)
  qed
  ultimately show ?thesis by (simp add: refs_def card_SigmaI)
qed

lemma fd_inv_counts:
  assumes "fd_inv s" and "f < NFILE"
  shows "f_ref (files s f) = int (card {(p, fd). p_ofile (procs s p) fd = Some f})"
proof -
  let ?D = "\<lambda>p. p_ofile (procs s p)"
  from assms(1) have "f_ref (files s f) = refs ?D f"
    using assms(2) by (auto simp: fd_inv_def owes_def fd_view_def fd_ok_def)
  moreover have "\<And>p fd. ?D p fd = Some f \<Longrightarrow> p < NPROC \<and> fd < NOFILE"
    using assms(1) by (auto simp: fd_inv_def owes_def fd_ok_def)
  ultimately show ?thesis using refs_card [of ?D f] by simp
qed

lemma syscall_fd_inv:
  assumes "(n, call) \<in> set syscalls" and "n \<noteq> SYS_exit" and "fd_inv s"
  shows "kspec (\<lambda>_. fd_inv) fd_inv (call h s)"
proof -
  let ?D = "\<lambda>p. p_ofile (procs s p)" and ?C = "\<lambda>h. c_proc (cpus s h)" and ?E = "\<lambda>p. dead (procs s p)"
  have s: "owes W0 ?D ?C ?E {} s" using assms(3) by (simp add: fd_inv_def)
  have set_advice: "kpost (owes W0 ?D ?C ?E {}) (sys_set_llm_advice h s)"
    using s by (auto simp: sys_set_llm_advice_def owes_def fd_view_def intro!: keeps)
  have fork: "kspec (\<lambda>_. fd_inv) fd_inv (sys_fork h s)"
    unfolding sys_fork_def by (rule kspec_then [OF kfork_fd_inv [OF s]]) auto
  note special = fork keeps_fd_inv [OF sys_wait_owes [OF s]] keeps_fd_inv [OF set_advice] sys_dup_fd_inv [OF s] sys_close_fd_inv [OF s]
    sys_pipe_fd_inv [OF s] sys_open_fd_inv [OF s]
  show ?thesis
    using assms(1,2)
    by (auto simp: syscalls_def special) (use s in \<open>auto intro!: keeps_fd_inv [where D = ?D and C = ?C and E = ?E and T = "{}"] keeps\<close>)
qed


lemma demo_fd_inv: "fd_inv (demo_kernel n a)"
proof -
  have "refs (\<lambda>p. p_ofile ((three(1 := demo_proc)) p)) f = (if f = 5 then 1 else 0)" for f
  proof -
    have "(\<lambda>p. p_ofile ((three(1 := demo_proc)) p)) = set_fd 1 0 (Some 5) (\<lambda>_ _. None)"
      by (auto simp: set_fd_def demo_proc_def slot_def three_def fun_eq_iff)
    moreover have "refs (\<lambda>_ _. None) f = 0" by (simp add: refs_def)
    ultimately show ?thesis using refs_set_fd [of 1 0 "Some 5" "\<lambda>_ _. None" f] by (simp add: NPROC_def NOFILE_def)
  qed
  moreover have "files (demo_kernel n a) = (\<lambda>_. demo_file)(5 := demo_file\<lparr>f_type := FD_DEVICE, f_ref := 1, f_readable := True,
      f_ip := Some 0, f_major := 1\<rparr>)" by (simp add: demo_kernel_def)
  moreover have "p_ofile ((three(1 := demo_proc)) p) fd = Some f \<longleftrightarrow> p = 1 \<and> fd = 0 \<and> f = 5" for p fd f
    by (auto simp: demo_proc_def slot_def three_def)
  moreover have "p_ofile (three p) = (\<lambda>_. None)" for p by (simp add: slot_def three_def)
  moreover have "\<not> dead demo_proc" by (simp add: dead_def demo_proc_def slot_def)
  ultimately show ?thesis
    by (auto simp: fd_inv_def owes_def fd_view_def fd_ok_def demo_file_def NPROC_def NOFILE_def NFILE_def)
qed

lemma getpid_demo: "sys_getpid 0 (demo_kernel n a) = Ok 2 (settle 0 (demo_kernel n a))"
  by (simp add: sys_getpid_def curproc_ok demo_proc_def slot_def)

lemma settle_demo: "settle 0 (demo_kernel n a) = demo_kernel n a"
  by (simp add: settle_def demo_kernel_def fun_upd_idem)

lemma dup_demo: "\<exists>t. sys_dup 0 (demo_kernel 10 0) = Ok 1 t \<and> p_ofile (procs t 1) 1 = Some 5 \<and> f_ref (files t 5) = 2"
proof -
  let ?s = "demo_kernel 10 0"
  have "tf_get tf_a0 1 ?s = 0"
    by (simp add: tf_get_def demo_kernel_def demo_mem_def demo_proc_def slot_def tf_a7_def tf_a0_def load64_store64_apart)
  then have "argint 0 0 ?s = Ok 0 ?s" by (simp add: argint_def argraw_def curproc_ok settle_demo)
  then have a: "argfd 0 0 ?s = Ok (Some (0, 5)) ?s" by (simp add: argfd_def curproc_ok settle_demo NOFILE_def demo_proc_def)
  let ?u = "set_ofile 1 1 (Some 5) ?s"
  have "find (\<lambda>fd. p_ofile demo_proc fd = None) [0..<NOFILE] = Some 1" by (simp add: NOFILE_def demo_proc_def upt_rec)
  then have f: "fdalloc 0 5 ?s = Ok (Some 1) ?u" by (simp add: fdalloc_def curproc_ok settle_demo)
  have u: "lock_free LFtable ?u" "f_ref (files ?u 5) = 1" "p_ofile (procs ?u 1) 1 = Some 5" "noff 0 ?u = 0"
    by (simp_all add: set_ofile_def proc_at_def lock_free_def demo_kernel_def demo_file_def)
  let ?v = "file_at 5 (\<lambda>x. x\<lparr>f_ref := f_ref x + 1\<rparr>) (entered 0 LFtable ?u)"
  have h: "holding 0 LFtable ?v" "1 \<le> noff 0 ?v" "\<not> sie ?v 0"
    using u(1,4) by (simp_all add: file_at_def holding_def entered_def push_off_def Let_def intr_off_def intr_get_def lock_free_def)
  obtain t where t: "release 0 LFtable ?v = Ok () t" "kspin.more t = kspin.more ?v" using release_holding [OF h] by blast
  then have "files t = files ?v" "procs t = procs ?v"
    using h by (auto simp: release_def pop_off_def intr_get_def intr_on_def Let_def)
  then show ?thesis using a f u t(1) by (simp add: sys_dup_def filedup_def acquire_free file_at_def entered_def push_off_def Let_def intr_off_def intr_get_def)
qed


theorem advice_only_by_its_call_witness:
  "\<exists>t. result_state (sys_getpid 0 (demo_kernel 11 0)) = Some t \<and> llm_advice_valid t = 0"
  using advice_only_by_its_call [of SYS_getpid sys_getpid 0 "demo_kernel 11 0"] getpid_demo
  by (simp add: syscalls_def SYS_defs demo_kernel_def)

end
