(* ===== verification/Handlers.thy ===== *)
theory Handlers
  imports Trap
begin

text \<open>
  What the interrupt and trap handlers of \<open>Trap\<close> do as wholes: the clock interrupt, and the way of a system call
  from \<^verbatim>\<open>usertrap\<close> through the table.
\<close>

section \<open>The clock\<close>

lemma ktrap_spin [simp]:
  "cpu_wf h (s\<lparr>log_counter := n\<rparr>) = cpu_wf h s" "lock_free l (s\<lparr>log_counter := n\<rparr>) = lock_free l s"
  "proc_locks_free (s\<lparr>log_counter := n\<rparr>) = proc_locks_free s"
  "settle h (s\<lparr>log_counter := n\<rparr>) = (settle h s)\<lparr>log_counter := n\<rparr>"
  by (simp_all add: cpu_wf_def lock_free_def proc_locks_free_def settle_def)

lemma clock_fields [simp]:
  "log_counter (settle h s) = log_counter s" "mtime (settle h s) = mtime s" "stimecmp (settle h s) = stimecmp s"
  by (simp_all add: settle_def)

lemma log_text_cong: "procs s = procs t \<Longrightarrow> ticks s = ticks t \<Longrightarrow> log_text s = log_text t"
  by (simp add: log_text_def)

lemma log_settled:
  assumes "cpu_wf h u" and "proc_locks_free u" and "lock_free LPr u"
  shows "log_scheduling_state h (settle h u) = Ok () (settle h (u\<lparr>uart_out := uart_out u @ log_text u\<rparr>))"
  using assms log_scheduling_state_ok [of h "settle h u"] log_text_cong [of "settle h u" u]
  by (simp add: proc_locks_free_def)

text \<open>The part of the handler that runs under \<^verbatim>\<open>tickslock\<close>.\<close>

lemma tick_ok:
  assumes "cpu_wf h s" and "proc_locks_free s" and "lock_free LTicks s"
  shows "kbind (acquire h LTicks s) (\<lambda>_ s. kbind (wakeup h ChTicks (s\<lparr>ticks := ticks s + 1\<rparr>)) (\<lambda>_ s. release h LTicks s)) =
    Ok () (settle h (proc_all (\<lambda>i. if c_proc (cpus s h) = Some i then id else woken ChTicks) (s\<lparr>ticks := ticks s + 1\<rparr>)))"
proof -
  let ?s = "s\<lparr>ticks := ticks s + 1\<rparr>"
  let ?t = "proc_all (\<lambda>i. if c_proc (cpus s h) = Some i then id else woken ChTicks) ?s"
  have free: "proc_locks_free (entered h LTicks ?s)"
    using assms(2) by (simp add: proc_locks_free_def)
  have "entered h LTicks ?t = proc_all (\<lambda>i. if c_proc (cpus s h) = Some i then id else woken ChTicks) (entered h LTicks ?s)"
    by (simp add: proc_all_def cong: if_cong)
  moreover have "cpu_wf h ?t" "lock_free LTicks ?t" using assms by (simp_all add: proc_all_def)
  ultimately show ?thesis
    using assms wakeup_ok [OF _ free, of h ChTicks] release_entered [of h ?t LTicks]
    by (simp add: acquire_free)
qed

text \<open>
  C11: the timer interrupt.  On hart 0 the clock interrupt advances the global tick by one (modulo \<open>2\<^sup>3\<^sup>2\<close>),
  makes runnable every process that sleeps on the tick counter, charges the tick to every process (a process woken
  by this very tick already counts it as waiting time), and on every hundredth tick, and only then, appends the snapshot of the
  scheduler state to the console output.  On every other hart it touches no shared state.  Every hart
  asks for its next interrupt a million cycles ahead; no lock is left held and no interrupt state changed.
\<close>

theorem clockintr_ticks:
  assumes "cpu_wf h s" and "proc_locks_free s" and "lock_free LTicks s" and "lock_free LPr s"
  shows "\<exists>t. clockintr h s = Ok () t \<and> locks t = locks s \<and> sie t = sie s \<and>
    stimecmp t = (stimecmp s)(h := mtime s + 1000000) \<and>
    ticks t = (if h = 0 then ticks s + 1 else ticks s) \<and>
    (\<forall>i. procs t i =
       (if h = 0 \<and> i < NPROC
        then tick_proc
          (if c_proc (cpus s h) \<noteq> Some i \<and> p_state (procs s i) = SLEEPING \<and> p_chan (procs s i) = ChTicks
           then (procs s i)\<lparr>p_state := RUNNABLE\<rparr> else procs s i)
        else procs s i)) \<and>
    log_counter t = (if h = 0 then log_counter s + 1 else log_counter s) \<and>
    uart_out t = uart_out s @ (if h = 0 \<and> (log_counter s + 1) mod 100 = 0 then log_text t else [])"
proof (cases "h = 0")
  case False
  then show ?thesis by (auto simp: clockintr_def)
next
  case True
  let ?w = "\<lambda>i. if c_proc (cpus s h) = Some i then id else woken ChTicks"
  let ?t = "proc_all ?w (s\<lparr>ticks := ticks s + 1\<rparr>)"
  let ?u = "(proc_all (\<lambda>i. tick_proc) ?t)\<lparr>log_counter := log_counter s + 1\<rparr>"
  have t: "cpu_wf h ?t" "proc_locks_free ?t" using assms by (simp_all add: proc_all_def proc_locks_free_def)
  have u: "cpu_wf h ?u" "proc_locks_free ?u" "lock_free LPr ?u" using assms by (simp_all add: proc_all_def proc_locks_free_def)
  have stats: "update_sched_stats h (settle h ?t) = Ok () (settle h (proc_all (\<lambda>i. tick_proc) ?t))"
    using update_sched_stats_ok [of h "settle h ?t"] t by (simp add: proc_all_def proc_locks_free_def cong: if_cong)
  have "clockintr h s = Ok () ((settle h (if (log_counter s + 1) mod 100 = 0
      then ?u\<lparr>uart_out := uart_out ?u @ log_text ?u\<rparr> else ?u))\<lparr>stimecmp := (stimecmp s)(h := mtime s + 1000000)\<rparr>)"
    using True tick_ok [OF assms(1-3)] stats log_settled [OF u]
    by (simp add: clockintr_def kbind_assoc [symmetric] LOG_INTERVAL_def Let_def proc_all_def)
  then show ?thesis
    using True by (auto simp: proc_all_def woken_def intro!: log_text_cong)
qed

theorem clockintr_ticks_witness:
  "\<exists>t. clockintr 0 (demo_kernel 22 3) = Ok () t \<and> ticks t = 101 \<and> uart_out t = log_text t \<and>
     p_cpu_ticks (procs t 1) = 1"
proof -
  have "1 < NPROC" by (simp add: NPROC_def)
  then show ?thesis
    using clockintr_ticks [of 0 "demo_kernel 22 3"]
    by (auto simp: tick_proc_def demo_proc_def slot_def Let_def)
qed

section \<open>Trap frame slots\<close>

lemma tf_get_set: "tf_get off i (tf_set off v i s) = v"
  by (simp add: tf_get_def tf_set_def)

lemma tf_get_set_apart:
  "8 \<le> unat (off - off') \<Longrightarrow> 8 \<le> unat (off' - off) \<Longrightarrow> tf_get off i (tf_set off' v i s) = tf_get off i s"
  by (simp add: tf_get_def tf_set_def load64_store64_apart)

lemma tf_set_simps [simp]:
  "procs (tf_set off v i s) = procs s" "ticks (tf_set off v i s) = ticks s" "locks (tf_set off v i s) = locks s"
  "c_proc (cpus (tf_set off v i s) h) = c_proc (cpus s h)" "cpu_wf h (tf_set off v i s) = cpu_wf h s"
  "noff h (tf_set off v i s) = noff h s" "sie (tf_set off v i s) = sie s"
  "lock_free l (tf_set off v i s) = lock_free l s" "proc_locks_free (tf_set off v i s) = proc_locks_free s"
  "settle h (tf_set off v i s) = tf_set off v i (settle h s)"
  "llm_recommended_pid (tf_set off v i s) = llm_recommended_pid s" "llm_advice_valid (tf_set off v i s) = llm_advice_valid s"
  "llm_advice_timestamp (tf_set off v i s) = llm_advice_timestamp s"
  by (simp_all add: tf_set_def cpu_wf_def lock_free_def proc_locks_free_def)

lemma tf_trap_simps [simp]:
  fixes s :: "'a ktrap_scheme"
  shows "sepc (tf_set off v i s) = sepc s" "scause (tf_set off v i s) = scause s" "spp (tf_set off v i s) = spp s"
    "spie (tf_set off v i s) = spie s" "stvec (tf_set off v i s) = stvec s" "satp (tf_set off v i s) = satp s"
  by (simp_all add: tf_set_def)

lemma tf_get_cong [simp]:
  "tf_get off i (settle h s) = tf_get off i s" "tf_get off i (intr_on h s) = tf_get off i s"
  "tf_get off i (intr_off h s) = tf_get off i s" "tf_get off i (set_advice p s) = tf_get off i s"
  by (simp_all add: tf_get_def settle_def intr_on_def intr_off_def set_advice_def)

lemma trap_settle [simp]:
  fixes s :: "'a ktrap_scheme"
  shows "sepc (settle h s) = sepc s" "scause (settle h s) = scause s" "spp (settle h s) = spp s" "spie (settle h s) = spie s"
    "stvec (settle h s) = stvec s" "sepc (intr_on h s) = sepc s" "sepc (intr_off h s) = sepc s"
    "sepc (set_advice p s) = sepc s" "spp (set_advice p s) = spp s"
    "spp (intr_on h s) = spp s" "spp (intr_off h s) = spp s"
  by (simp_all add: settle_def intr_on_def intr_off_def set_advice_def)

lemma trap_regs_spin [simp]:
  fixes s :: "'a ktrap_scheme"
  shows "cpu_wf h (s\<lparr>stvec := v\<rparr>) = cpu_wf h s" "lock_free l (s\<lparr>stvec := v\<rparr>) = lock_free l s"
    "settle h (s\<lparr>stvec := v\<rparr>) = (settle h s)\<lparr>stvec := v\<rparr>" "tf_get off i (s\<lparr>stvec := v\<rparr>) = tf_get off i s"
    "noff h s = 0 \<Longrightarrow> cpu_wf h (intr_on h s)" "noff h s = 0 \<Longrightarrow> cpu_wf h s \<longleftrightarrow> True"
    "lock_free l (intr_on h s) = lock_free l s"
  by (simp_all add: cpu_wf_def lock_free_def settle_def tf_get_def intr_on_def)

lemma tf_get_regs [simp]:
  fixes s :: "'a ktrap_scheme"
  shows "tf_get off i (s\<lparr>sie := x\<rparr>) = tf_get off i s" "tf_get off i (s\<lparr>spp := a\<rparr>) = tf_get off i s"
    "tf_get off i (s\<lparr>spie := a\<rparr>) = tf_get off i s" "tf_get off i (s\<lparr>sepc := e\<rparr>) = tf_get off i s"
    "k_uservec (settle h s) = k_uservec s" "k_trampoline (settle h s) = k_trampoline s"
  by (simp_all add: tf_get_def settle_def)

lemma intr_on_simps [simp]:
  fixes s :: "'a ktrap_scheme"
  shows "cpus (intr_on h s) = cpus s" "locks (intr_on h s) = locks s" "procs (intr_on h s) = procs s" "ticks (intr_on h s) = ticks s"
    "k_uservec (intr_on h s) = k_uservec s" "k_trampoline (intr_on h s) = k_trampoline s"
    "llm_recommended_pid (intr_on h s) = llm_recommended_pid s" "llm_advice_valid (intr_on h s) = llm_advice_valid s"
    "llm_advice_timestamp (intr_on h s) = llm_advice_timestamp s"
  by (simp_all add: intr_on_def)

lemma tf_set_texts [simp]:
  fixes s :: "'a ktrap_scheme"
  shows "k_uservec (tf_set off v i s) = k_uservec s" "k_trampoline (tf_set off v i s) = k_trampoline s"
  by (simp_all add: tf_set_def)

lemma set_advice_trap [simp]:
  fixes s :: "'a ktrap_scheme"
  shows "k_uservec (set_advice p s) = k_uservec s" "k_trampoline (set_advice p s) = k_trampoline s"
    "procs (set_advice p s) = procs s" "locks (set_advice p s) = locks s" "cpus (set_advice p s) = cpus s"
    "ticks (set_advice p s) = ticks s" "llm_recommended_pid (set_advice p s) = p" "llm_advice_valid (set_advice p s) = 1"
    "llm_advice_timestamp (set_advice p s) = ticks s"
  by (simp_all add: set_advice_def)

lemma syscall_set_advice:
  fixes s :: "'a ktrap_scheme"
  assumes "cpu_wf h s" and "c_proc (cpus s h) = Some i" and "lock_free LLlm s"
    and "tf_get tf_a7 i s = 22" and "pid = ucast (tf_get tf_a0 i s)"
  shows "syscall h s = Ok () (tf_set tf_a0 (if sint pid \<le> 0 then -1 else 0) i
    (settle h (if sint pid \<le> 0 then s else set_advice pid s)))"
proof -
  have "map_of syscalls 22 = Some (sys_set_llm_advice :: nat \<Rightarrow> 'a ktrap_scheme \<Rightarrow> (u64, 'a ktrap_scheme) res)"
    by (simp add: syscalls_def SYS_defs)
  then show ?thesis
    using assms sys_set_llm_advice_ok [of h "settle h s" i pid]
    by (simp add: syscall_def curproc_ok sint32 Let_def)
qed

lemma prepare_return_ok:
  fixes s :: "'a ktrap_scheme"
  assumes "cpu_wf h s" and "c_proc (cpus s h) = Some i"
  shows "\<exists>t. prepare_return h s = Ok () t \<and> procs t = procs s \<and> locks t = locks s \<and> ticks t = ticks s \<and>
    (\<forall>h'. noff h' t = noff h' s \<and> c_proc (cpus t h') = c_proc (cpus s h')) \<and>
    llm_recommended_pid t = llm_recommended_pid s \<and> llm_advice_valid t = llm_advice_valid s \<and>
    llm_advice_timestamp t = llm_advice_timestamp s \<and> \<not> sie t h \<and> \<not> spp t h \<and> spie t h \<and>
    stvec t h = TRAMPOLINE + (k_uservec s - k_trampoline s) \<and> sepc t h = tf_get tf_epc i s \<and>
    (\<forall>off\<in>{tf_epc, tf_a0}. tf_get off i t = tf_get off i s)"
proof -
  have apart: "tf_get off i (tf_set off' v i u) = tf_get off i u"
    if "off \<in> {tf_epc, tf_a0}" "off' \<in> {tf_kernel_satp, tf_kernel_sp, tf_kernel_trap, tf_kernel_hartid}" for off off' v and u :: "'a ktrap_scheme"
    using that by (auto simp: tf_epc_def tf_a0_def tf_kernel_satp_def tf_kernel_sp_def tf_kernel_trap_def tf_kernel_hartid_def intro!: tf_get_set_apart)
  show ?thesis
    using assms
    by (simp add: prepare_return_def curproc_ok intr_off_def Let_def apart)
qed

lemma usertrap_advice:
  fixes s :: "'a ktrap_scheme"
  assumes "noff h s = 0" and "c_proc (cpus s h) = Some i" and "\<not> spp s h" and "scause s h = 8"
    and "p_killed (procs s i) = 0" and "lock_free LLlm s" and "lock_free (LProc i) s"
    and "tf_get tf_a7 i s = 22" and "pid = ucast (tf_get tf_a0 i s)"
  shows "\<exists>t. usertrap h s = Ok (MAKE_SATP (p_pagetable (procs s i))) t \<and>
    procs t = procs s \<and> locks t = locks s \<and> ticks t = ticks s \<and>
    (\<forall>h'. noff h' t = noff h' s \<and> c_proc (cpus t h') = c_proc (cpus s h')) \<and>
    sepc t h = sepc s h + 4 \<and> tf_get tf_a0 i t = (if sint pid \<le> 0 then -1 else 0) \<and>
    \<not> spp t h \<and> spie t h \<and> \<not> sie t h \<and> stvec t h = TRAMPOLINE + (k_uservec s - k_trampoline s) \<and>
    (if sint pid \<le> 0
     then llm_recommended_pid t = llm_recommended_pid s \<and> llm_advice_valid t = llm_advice_valid s \<and>
       llm_advice_timestamp t = llm_advice_timestamp s
     else llm_recommended_pid t = pid \<and> llm_advice_valid t = 1 \<and> llm_advice_timestamp t = ticks s)"
proof -
  let ?a = "settle h (s\<lparr>stvec := (stvec s)(h := k_kernelvec s)\<rparr>)"
  let ?b = "intr_on h (tf_set tf_epc (sepc s h + 4) i (tf_set tf_epc (sepc s h) i ?a))"
  let ?c = "tf_set tf_a0 (if sint pid \<le> 0 then -1 else 0) i (settle h (if sint pid \<le> 0 then ?b else set_advice pid ?b))"
  have a: "cpu_wf h ?a" using assms(1) by (simp add: cpu_wf_def)
  have apart: "tf_get tf_a7 i (tf_set tf_epc v i u) = tf_get tf_a7 i u" "tf_get tf_a0 i (tf_set tf_epc v i u) = tf_get tf_a0 i u"
    "tf_get tf_epc i (tf_set tf_a0 v i u) = tf_get tf_epc i u" for v and u :: "'a ktrap_scheme"
    by (simp_all add: tf_a7_def tf_epc_def tf_a0_def tf_get_set_apart)
  have b: "cpu_wf h ?b" "c_proc (cpus ?b h) = Some i" "lock_free LLlm ?b" "tf_get tf_a7 i ?b = 22"
    "pid = ucast (tf_get tf_a0 i ?b)" "lock_free (LProc i) ?b"
    using assms by (simp_all add: apart)
  have c: "cpu_wf h ?c" "c_proc (cpus ?c h) = Some i" "lock_free (LProc i) ?c" "p_killed (procs ?c i) = 0"
    "tf_get tf_epc i ?c = sepc s h + 4" "tf_get tf_a0 i ?c = (if sint pid \<le> 0 then -1 else 0)"
    using b assms by (simp_all add: apart tf_get_set)
  obtain t where t: "prepare_return h (settle h ?c) = Ok () t" "procs t = procs s" "locks t = locks s" "ticks t = ticks s"
      "llm_recommended_pid t = llm_recommended_pid ?c" "llm_advice_valid t = llm_advice_valid ?c"
      "llm_advice_timestamp t = llm_advice_timestamp ?c" "\<not> sie t h" "\<not> spp t h" "spie t h"
      "stvec t h = TRAMPOLINE + (k_uservec s - k_trampoline s)" "sepc t h = sepc s h + 4"
      "tf_get tf_a0 i t = (if sint pid \<le> 0 then -1 else 0)"
      "\<forall>h'. noff h' t = noff h' s \<and> c_proc (cpus t h') = c_proc (cpus s h')"
    using prepare_return_ok [of h "settle h ?c" i] c by auto
  have "usertrap h s = kbind (syscall h ?b) (\<lambda>_ s. usertrap_end h i 0 s)"
    using assms a by (simp add: usertrap_def curproc_ok killed_ok tf_get_set Let_def)
  also have "\<dots> = usertrap_end h i 0 ?c" using syscall_set_advice [OF b(1-5)] by simp
  also have "\<dots> = Ok (MAKE_SATP (p_pagetable (procs s i))) t"
    using killed_ok [OF c(1,3)] c(4) t(1,2) by (simp add: usertrap_end_def usertrap_return_def)
  finally show ?thesis using t by auto
qed

text \<open>
  C10: the advice call from user space and back.  When a process that is not killed traps with \<^verbatim>\<open>ecall\<close>,
  \<^verbatim>\<open>a7\<close> = 22 and a positive pid in \<^verbatim>\<open>a0\<close>, \<^verbatim>\<open>usertrap\<close> stores the advice (pid, valid, stamped with the current tick),
  changes no process, leaves every lock free as before, and returns the address space of the process; the registers are set up so that
  \<^verbatim>\<open>sret\<close> resumes user mode with interrupts on, at the instruction after the \<^verbatim>\<open>ecall\<close>, with 0 in \<^verbatim>\<open>a0\<close>.
  With a pid that is not positive the advice is left alone and \<^verbatim>\<open>a0\<close> is -1.
\<close>

theorem usertrap_set_llm_advice:
  fixes s :: "'a ktrap_scheme"
  assumes "noff h s = 0" and "c_proc (cpus s h) = Some i" and "\<not> spp s h" and "scause s h = 8"
    and "p_killed (procs s i) = 0" and "lock_free LLlm s" and "lock_free (LProc i) s"
    and "tf_get tf_a7 i s = 22" and "pid = ucast (tf_get tf_a0 i s)"
  shows "\<exists>t. usertrap h s = Ok (MAKE_SATP (p_pagetable (procs s i))) t \<and>
    procs t = procs s \<and> locks t = locks s \<and> ticks t = ticks s \<and>
    sepc t h = sepc s h + 4 \<and> tf_get tf_a0 i t = (if sint pid \<le> 0 then -1 else 0) \<and>
    \<not> spp t h \<and> spie t h \<and> \<not> sie t h \<and> stvec t h = TRAMPOLINE + (k_uservec s - k_trampoline s) \<and>
    (if sint pid \<le> 0
     then llm_recommended_pid t = llm_recommended_pid s \<and> llm_advice_valid t = llm_advice_valid s \<and>
       llm_advice_timestamp t = llm_advice_timestamp s
     else llm_recommended_pid t = pid \<and> llm_advice_valid t = 1 \<and> llm_advice_timestamp t = ticks s)"
  using usertrap_advice [OF assms] by blast

lemma demo_registers: "tf_get tf_a7 1 (demo_kernel n a) = n" "tf_get tf_a0 1 (demo_kernel n a) = a"
  by (simp_all add: tf_get_def demo_kernel_def demo_mem_def demo_proc_def slot_def tf_a7_def tf_a0_def load64_store64_apart)

theorem usertrap_set_llm_advice_witness:
  "\<exists>v t. usertrap 0 (demo_kernel 22 3) = Ok v t \<and> llm_recommended_pid t = 3 \<and> llm_advice_valid t = 1 \<and>
     sepc t 0 = 0x104 \<and> tf_get tf_a0 1 t = 0"
proof -
  have "sepc (demo_kernel 22 3) 0 = 0x100" by (simp add: demo_kernel_def)
  then show ?thesis
    using usertrap_set_llm_advice [where s = "demo_kernel 22 3" and h = 0 and i = 1 and pid = 3] demo_registers [of 22 3]
    by (auto simp: demo_proc_def slot_def sint32)
qed

end
