(* ===== verification/Diskq.thy ===== *)
theory Diskq
  imports Trap "HOL-Library.Multiset"
begin

text \<open>
  The disk driver of \<open>Virtio\<close> is correct: an invariant that ties the driver's book-keeping to the requests under way,
  which every operation keeps, the device included; from it, that the interrupt handler never panics and completes exactly
  the requests the device has served, that a finished request gives its descriptors back, and that a request through
  driver and device has the effect of the transfer that the buffer cache assumes.
\<close>

section \<open>Requests and the invariant\<close>

record dreq =
  q_i0 :: nat
  q_i1 :: nat
  q_i2 :: nat
  q_b :: nat
  q_write :: bool
  q_blk :: u32

definition q_descs :: "dreq \<Rightarrow> nat list" where
  "q_descs r = [q_i0 r, q_i1 r, q_i2 r]"

definition chain_ok :: "vdisk \<Rightarrow> dreq \<Rightarrow> bool" where
  "chain_ok d r \<longleftrightarrow>
     v_desc d (q_i0 r) = \<lparr>d_addr = DOps (q_i0 r), d_len = 16, d_flags = VRING_DESC_F_NEXT, d_next = of_nat (q_i1 r)\<rparr> \<and>
     v_desc d (q_i1 r) = \<lparr>d_addr = DData (q_b r), d_len = of_nat BSIZE,
       d_flags = (if q_write r then 0 else VRING_DESC_F_WRITE) OR VRING_DESC_F_NEXT, d_next = of_nat (q_i2 r)\<rparr> \<and>
     v_desc d (q_i2 r) = \<lparr>d_addr = DStatus (q_i0 r), d_len = 1, d_flags = VRING_DESC_F_WRITE, d_next = 0\<rparr>"

definition req_ok :: "vdisk \<Rightarrow> dreq \<Rightarrow> bool" where
  "req_ok d r \<longleftrightarrow> chain_ok d r \<and> v_info_b d (q_i0 r) = Some (q_b r) \<and>
     v_ops d (q_i0 r) = \<lparr>r_type = (if q_write r then VIRTIO_BLK_T_OUT else VIRTIO_BLK_T_IN), r_reserved = 0,
       r_sector = ucast (q_blk r * of_nat (BSIZE div 512))\<rparr>"

definition reqs_ok :: "vdisk \<Rightarrow> dreq list \<Rightarrow> bool" where
  "reqs_ok d rs \<longleftrightarrow>
     distinct (concat (map q_descs rs)) \<and> set (concat (map q_descs rs)) = {i. i < NUM \<and> \<not> v_free d i} \<and>
     (\<forall>r\<in>set rs. req_ok d r) \<and> distinct (map q_b rs)"

text \<open>
  \<open>vq_inv d bd P U D\<close>: \<open>P\<close> are the requests the device has not served, \<open>U\<close> those it has served and the driver has not
  seen yet, \<open>D\<close> those that are complete but whose issuer has not freed them yet.
\<close>

definition vq_inv :: "vdisk \<Rightarrow> (nat \<Rightarrow> bool) \<Rightarrow> dreq list \<Rightarrow> dreq list \<Rightarrow> dreq list \<Rightarrow> bool" where
  "vq_inv d bd P U D \<longleftrightarrow> reqs_ok d (P @ U @ D) \<and>
     (\<forall>r\<in>set (P @ U). bd (q_b r)) \<and> (\<forall>r\<in>set D. \<not> bd (q_b r)) \<and>
     (\<forall>r\<in>set U. v_info_status d (q_i0 r) = 0) \<and>
     v_used_idx d = v_seen d + of_nat (length U) \<and>
     (\<forall>k<length U. v_used_ring d (unat (v_seen d + of_nat k) mod NUM) = of_nat (q_i0 (U ! k)))"

lemma reqs_ok_perm:
  assumes "reqs_ok d rs" and "mset rs = mset rs'"
  shows "reqs_ok d rs'"
proof -
  have m: "mset (concat (map f xs)) = \<Sum>\<^sub># (image_mset (\<lambda>r. mset (f r)) (mset xs))" for f :: "dreq \<Rightarrow> nat list" and xs
    by (induction xs) auto
  then have "mset (concat (map q_descs rs')) = mset (concat (map q_descs rs))" using assms(2) by metis
  then have "distinct (concat (map q_descs rs')) = distinct (concat (map q_descs rs))"
      "set (concat (map q_descs rs')) = set (concat (map q_descs rs))"
    using mset_eq_imp_distinct_iff mset_eq_setD by blast+
  moreover have "distinct (map q_b rs') = distinct (map q_b rs)" "set rs' = set rs"
    using assms(2) mset_eq_imp_distinct_iff [of "map q_b rs'" "map q_b rs"] mset_eq_setD [of rs' rs] by auto
  ultimately show ?thesis using assms(1) unfolding reqs_ok_def by simp
qed

lemma q_descs_simps [simp]: "length (q_descs r) = 3" "q_i0 r \<in> set (q_descs r)" "q_i1 r \<in> set (q_descs r)" "q_i2 r \<in> set (q_descs r)"
  by (simp_all add: q_descs_def)

text \<open>Three descriptors for a request, so at most two requests are under way.\<close>

lemma vq_inv_few:
  assumes "vq_inv d bd P U D"
  shows "length (P @ U @ D) \<le> 2"
proof -
  let ?xs = "concat (map q_descs (P @ U @ D))"
  have "length (concat (map q_descs rs)) = 3 * length rs" for rs :: "dreq list" by (induction rs) auto
  moreover have "length ?xs = card (set ?xs)"
    using assms unfolding vq_inv_def reqs_ok_def by (metis distinct_card)
  moreover have "set ?xs \<subseteq> {..<NUM}" using assms unfolding vq_inv_def reqs_ok_def by auto
  then have "card (set ?xs) \<le> NUM" using card_mono [of "{..<NUM}" "set ?xs"] by simp
  ultimately show ?thesis by (simp add: NUM_def)
qed

section \<open>The interrupt handler\<close>

lemma kvirt_fields [simp]:
  fixes s :: "'a kvirt_scheme"
  shows "vdisk (settle h s) = vdisk s" "b_disk (settle h s) = b_disk s" "vdisk (entered h l s) = vdisk s"
    "b_disk (entered h l s) = b_disk s" "vdisk (proc_all f s) = vdisk s" "b_disk (proc_all f s) = b_disk s"
    "bufs (proc_all f s) = bufs s" "disk (proc_all f s) = disk s" "disk_writes (proc_all f s) = disk_writes s"
    "bufs (settle h s) = bufs s" "disk (settle h s) = disk s" "disk_writes (settle h s) = disk_writes s"
    "bufs (entered h l s) = bufs s" "disk (entered h l s) = disk s" "disk_writes (entered h l s) = disk_writes s"
  by (simp_all add: settle_def entered_def push_off_def intr_off_def Let_def proc_all_def cong: if_cong)

lemma kvirt_spin [simp]:
  fixes s :: "'a kvirt_scheme"
  shows "cpu_wf h (s\<lparr>vdisk := d\<rparr>) = cpu_wf h s" "cpu_wf h (s\<lparr>b_disk := x\<rparr>) = cpu_wf h s"
    "lock_free l (s\<lparr>vdisk := d\<rparr>) = lock_free l s" "lock_free l (s\<lparr>b_disk := x\<rparr>) = lock_free l s"
    "proc_locks_free (s\<lparr>vdisk := d\<rparr>) = proc_locks_free s" "proc_locks_free (s\<lparr>b_disk := x\<rparr>) = proc_locks_free s"
    "(entered h l s)\<lparr>vdisk := d\<rparr> = entered h l (s\<lparr>vdisk := d\<rparr>)" "(entered h l s)\<lparr>b_disk := x\<rparr> = entered h l (s\<lparr>b_disk := x\<rparr>)"
    "(settle h s)\<lparr>vdisk := d\<rparr> = settle h (s\<lparr>vdisk := d\<rparr>)" "(settle h s)\<lparr>b_disk := x\<rparr> = settle h (s\<lparr>b_disk := x\<rparr>)"
    "(proc_all f s)\<lparr>vdisk := d\<rparr> = proc_all f (s\<lparr>vdisk := d\<rparr>)" "(proc_all f s)\<lparr>b_disk := x\<rparr> = proc_all f (s\<lparr>b_disk := x\<rparr>)"
  by (simp_all add: cpu_wf_def lock_free_def proc_locks_free_def settle_def entered_def push_off_def intr_off_def intr_get_def Let_def proc_all_def cong: if_cong)

definition roused :: "nat \<Rightarrow> chan \<Rightarrow> 'a kproc_scheme \<Rightarrow> 'a kproc_scheme" where
  "roused h ch s = proc_all (\<lambda>i. if c_proc (cpus s h) = Some i then id else woken ch) s"

lemma roused_simps [simp]:
  fixes s :: "'a kvirt_scheme"
  shows "vdisk (roused h ch s) = vdisk s" "b_disk (roused h ch s) = b_disk s" "bufs (roused h ch s) = bufs s"
    "disk (roused h ch s) = disk s" "disk_writes (roused h ch s) = disk_writes s" "locks (roused h ch s) = locks s"
    "sie (roused h ch s) = sie s" "cpus (roused h ch s) = cpus s" "cpu_wf h' (roused h ch s) = cpu_wf h' s"
    "lock_free l (roused h ch s) = lock_free l s" "proc_locks_free (roused h ch s) = proc_locks_free s"
  by (simp_all add: roused_def proc_locks_free_def)

lemma wakeup_roused:
  assumes "cpu_wf h s" and "proc_locks_free s" and "\<forall>i. l \<noteq> LProc i"
  shows "wakeup h ch (entered h l s) = Ok () (entered h l (roused h ch s))"
proof -
  have "proc_locks_free (entered h l s)" using assms by (simp add: proc_locks_free_def)
  then show ?thesis using wakeup_ok [of h "entered h l s" ch] assms(1) by (simp add: roused_def)
qed

definition completed :: "nat \<Rightarrow> dreq \<Rightarrow> 'a kvirt_scheme \<Rightarrow> 'a kvirt_scheme" where
  "completed h r s =
     vd_at (\<lambda>d. d\<lparr>v_seen := v_seen d + 1\<rparr>) (roused h (ChBuf (q_b r)) (s\<lparr>b_disk := (b_disk s)(q_b r := False)\<rparr>))"

lemma vq_inv_complete:
  assumes "vq_inv d bd P (r # U) D"
  shows "vq_inv (d\<lparr>v_seen := v_seen d + 1\<rparr>) (bd(q_b r := False)) P U (D @ [r])"
proof -
  have ring: "v_used_ring d (unat (v_seen d + 1 + of_nat k) mod NUM) = of_nat (q_i0 (U ! k))" if "k < length U" for k
  proof -
    have "\<forall>k<length (r # U). v_used_ring d (unat (v_seen d + of_nat k) mod NUM) = of_nat (q_i0 ((r # U) ! k))"
      using assms unfolding vq_inv_def by blast
    from this [rule_format, of "Suc k"] that show ?thesis by (simp add: add.assoc)
  qed
  have "reqs_ok d (P @ U @ D @ [r])" by (rule reqs_ok_perm [of _ "P @ (r # U) @ D"]) (use assms in \<open>auto simp: vq_inv_def\<close>)
  then have "reqs_ok (d\<lparr>v_seen := v_seen d + 1\<rparr>) (P @ U @ D @ [r])" by (simp add: reqs_ok_def req_ok_def chain_ok_def)
  moreover have "q_b r \<notin> q_b ` set (P @ U)" using assms by (auto simp: vq_inv_def reqs_ok_def)
  then have "\<forall>x\<in>set P \<union> set U. q_b x \<noteq> q_b r" unfolding set_append by (metis imageI)
  ultimately show ?thesis using assms ring by (auto simp: vq_inv_def add.assoc)
qed

lemma vdisk_complete_ok:
  fixes s :: "'a kvirt_scheme"
  assumes "cpu_wf h s" and "proc_locks_free s" and "vq_inv (vdisk s) (b_disk s) P (r # U) D"
  shows "vdisk_complete h (entered h LVdisk s) = Ok () (entered h LVdisk (completed h r s))"
proof -
  have "v_used_ring (vdisk s) (unat (v_seen (vdisk s)) mod NUM) = of_nat (q_i0 r)" "v_info_status (vdisk s) (q_i0 r) = 0"
      "v_info_b (vdisk s) (q_i0 r) = Some (q_b r)" "q_i0 r < NUM"
    using assms(3) by (auto simp: vq_inv_def reqs_ok_def req_ok_def q_descs_def)
  moreover from this have "unat (of_nat (q_i0 r) :: u32) = q_i0 r" by (simp add: NUM_def unat_of_nat)
  ultimately show ?thesis
    using assms(1,2) by (simp add: vdisk_complete_def wakeup_roused completed_def vd_at_def Let_def)
qed

lemma completed_simps [simp]:
  "vdisk (completed h r s) = (vdisk s)\<lparr>v_seen := v_seen (vdisk s) + 1\<rparr>" "b_disk (completed h r s) = (b_disk s)(q_b r := False)"
  "bufs (completed h r s) = bufs s" "disk (completed h r s) = disk s" "disk_writes (completed h r s) = disk_writes s"
  "locks (completed h r s) = locks s" "sie (completed h r s) = sie s" "cpus (completed h r s) = cpus s"
  "cpu_wf h' (completed h r s) = cpu_wf h' s" "lock_free l (completed h r s) = lock_free l s"
  "proc_locks_free (completed h r s) = proc_locks_free s"
  by (simp_all add: completed_def vd_at_def)

lemma completed_procs:
  "procs (completed h r s) i =
     (if i < NPROC \<and> c_proc (cpus s h) \<noteq> Some i \<and> p_state (procs s i) = SLEEPING \<and> p_chan (procs s i) = ChBuf (q_b r)
      then (procs s i)\<lparr>p_state := RUNNABLE\<rparr> else procs s i)"
  by (simp add: completed_def vd_at_def roused_def proc_all_def woken_def)

lemma complete_all:
  fixes s :: "'a kvirt_scheme"
  assumes "cpu_wf h s" and "proc_locks_free s" and "vq_inv (vdisk s) (b_disk s) P U D" and "length xs = length U"
  shows "kfor (\<lambda>_ s. vdisk_complete h s) xs (entered h LVdisk s) = Ok () (entered h LVdisk (fold (completed h) U s)) \<and>
    vq_inv (vdisk (fold (completed h) U s)) (b_disk (fold (completed h) U s)) P [] (D @ U)"
  using assms
proof (induction U arbitrary: s D xs)
  case (Cons r U)
  then obtain x xs' where xs: "xs = x # xs'" "length xs' = length U" by (cases xs) auto
  have "vq_inv (vdisk (completed h r s)) (b_disk (completed h r s)) P U (D @ [r])"
    using vq_inv_complete [OF Cons.prems(3)] by simp
  from Cons.IH [OF _ _ this xs(2)] show ?case
    using Cons.prems xs(1) by (simp add: vdisk_complete_ok [OF Cons.prems(1-3)])
qed simp

lemma fold_completed:
  "locks (fold (completed h) U s) = locks s" "sie (fold (completed h) U s) = sie s" "cpus (fold (completed h) U s) = cpus s"
  "bufs (fold (completed h) U s) = bufs s" "disk (fold (completed h) U s) = disk s"
  "disk_writes (fold (completed h) U s) = disk_writes s" "cpu_wf h (fold (completed h) U s) = cpu_wf h s"
  "lock_free l (fold (completed h) U s) = lock_free l s"
  "b_disk (fold (completed h) U s) b = (b_disk s b \<and> b \<notin> q_b ` set U)"
  "procs (fold (completed h) U s) i =
     (if i < NPROC \<and> c_proc (cpus s h) \<noteq> Some i \<and> p_state (procs s i) = SLEEPING \<and> p_chan (procs s i) \<in> (ChBuf \<circ> q_b) ` set U
      then (procs s i)\<lparr>p_state := RUNNABLE\<rparr> else procs s i)"
  by (induction U arbitrary: s) (auto simp: completed_procs)

text \<open>
  C9: the disk interrupt.  When the driver's state is consistent and the device has served the requests \<open>U\<close>, the handler
  returns without panicking: it has seen exactly those completions (the next interrupt starts after them), their buffers
  are given back (\<^verbatim>\<open>b->disk\<close> = 0) and every process that waits for one of them is runnable; requests still with the device,
  other buffers, other processes and the data of the buffer cache are untouched, and the consistency is kept.
\<close>

theorem virtio_disk_intr_completes:
  fixes s :: "'a kvirt_scheme"
  assumes "cpu_wf h s" and "proc_locks_free s" and "lock_free LVdisk s" and "vq_inv (vdisk s) (b_disk s) P U D"
  shows "\<exists>t. virtio_disk_intr h s = Ok () t \<and> vq_inv (vdisk t) (b_disk t) P [] (D @ U) \<and>
    v_seen (vdisk t) = v_used_idx (vdisk t) \<and> locks t = locks s \<and> sie t = sie s \<and> bufs t = bufs s \<and> disk t = disk s \<and>
    (\<forall>b. b_disk t b \<longleftrightarrow> b_disk s b \<and> b \<notin> q_b ` set U) \<and>
    (\<forall>i. procs t i =
       (if i < NPROC \<and> c_proc (cpus s h) \<noteq> Some i \<and> p_state (procs s i) = SLEEPING \<and> p_chan (procs s i) \<in> (ChBuf \<circ> q_b) ` set U
        then (procs s i)\<lparr>p_state := RUNNABLE\<rparr> else procs s i))"
proof -
  let ?t = "fold (completed h) U s"
  have "length U \<le> 2" using vq_inv_few [OF assms(4)] by simp
  then have "unat (v_used_idx (vdisk s) - v_seen (vdisk s)) = length U"
    using assms(4) by (simp add: vq_inv_def unat_of_nat)
  then have "virtio_disk_intr h s = Ok () (settle h ?t)"
    using complete_all [OF assms(1,2,4), of "[0..<length U]"] assms release_entered [of h ?t LVdisk]
    by (simp add: virtio_disk_intr_def acquire_free fold_completed)
  moreover have "vq_inv (vdisk ?t) (b_disk ?t) P [] (D @ U)"
    using complete_all [OF assms(1,2,4), of "[0..<length U]"] by simp
  moreover from this have "v_seen (vdisk ?t) = v_used_idx (vdisk ?t)" by (simp add: vq_inv_def)
  ultimately show ?thesis by (simp add: fold_completed)
qed

section \<open>A finished request\<close>

definition freed :: "dreq \<Rightarrow> vdisk \<Rightarrow> vdisk" where
  "freed r d = clear_desc (q_i2 r) (clear_desc (q_i1 r) (clear_desc (q_i0 r) (d\<lparr>v_info_b := (v_info_b d)(q_i0 r := None)\<rparr>)))"

lemma free_desc_ok:
  fixes s :: "'a kvirt_scheme"
  assumes "cpu_wf h s" and "proc_locks_free s" and "i < NUM" and "\<not> v_free (vdisk s) i"
  shows "free_desc h i (entered h LVdisk s) = Ok () (entered h LVdisk (roused h ChVdisk (vd_at (clear_desc i) s)))"
  using assms by (simp add: free_desc_def vd_at_def wakeup_roused)

lemma vd_at_simps [simp]:
  "vdisk (vd_at f s) = f (vdisk s)" "cpu_wf h (vd_at f s) = cpu_wf h s" "proc_locks_free (vd_at f s) = proc_locks_free s"
  "lock_free l (vd_at f s) = lock_free l s" "b_disk (vd_at f s) = b_disk s" "bufs (vd_at f s) = bufs s" "disk (vd_at f s) = disk s"
  "disk_writes (vd_at f s) = disk_writes s" "locks (vd_at f s) = locks s" "sie (vd_at f s) = sie s"
  "vd_at f (entered h l s) = entered h l (vd_at f s)"
  by (simp_all add: vd_at_def)

lemma vring_flags [simp]:
  "VRING_DESC_F_NEXT \<noteq> 0" "((if w then 0 else VRING_DESC_F_WRITE) OR VRING_DESC_F_NEXT) AND VRING_DESC_F_NEXT \<noteq> 0"
  "VRING_DESC_F_WRITE AND VRING_DESC_F_NEXT = 0"
  by (simp_all add: VRING_DESC_F_NEXT_def VRING_DESC_F_WRITE_def)

lemma free_chain_ok:
  fixes s :: "'a kvirt_scheme"
  assumes "cpu_wf h s" and "proc_locks_free s" and "chain_ok (vdisk s) r" and "distinct (q_descs r)"
    and "\<forall>i\<in>set (q_descs r). i < NUM \<and> \<not> v_free (vdisk s) i"
  shows "\<exists>t. free_chain h (Suc NUM) (q_i0 r) (entered h LVdisk s) = Ok () (entered h LVdisk t) \<and>
    vdisk t = clear_desc (q_i2 r) (clear_desc (q_i1 r) (clear_desc (q_i0 r) (vdisk s))) \<and> b_disk t = b_disk s \<and> bufs t = bufs s \<and> disk t = disk s \<and>
    disk_writes t = disk_writes s \<and> locks t = locks s \<and> sie t = sie s \<and> cpus t = cpus s"
proof -
  let ?s0 = "roused h ChVdisk (vd_at (clear_desc (q_i0 r)) s)"
  let ?s1 = "roused h ChVdisk (vd_at (clear_desc (q_i1 r)) ?s0)"
  let ?s2 = "roused h ChVdisk (vd_at (clear_desc (q_i2 r)) ?s1)"
  have lt: "unat (of_nat i :: u16) = i" if "i \<in> set (q_descs r)" for i
    using assms(5) that by (auto simp: NUM_def unat_of_nat)
  have ne: "q_i0 r \<noteq> q_i1 r" "q_i0 r \<noteq> q_i2 r" "q_i1 r \<noteq> q_i2 r" using assms(4) by (auto simp: q_descs_def)
  have b: "q_i0 r < NUM" "q_i1 r < NUM" "q_i2 r < NUM" "\<not> v_free (vdisk s) (q_i0 r)" "\<not> v_free (vdisk s) (q_i1 r)" "\<not> v_free (vdisk s) (q_i2 r)"
    using assms(5) by (auto simp: q_descs_def)
  have "free_chain h (Suc NUM) (q_i0 r) (entered h LVdisk s) = Ok () (entered h LVdisk ?s2)"
    using assms(1-3) b ne free_desc_ok [of h s "q_i0 r"] free_desc_ok [of h ?s0 "q_i1 r"] free_desc_ok [of h ?s1 "q_i2 r"]
    by (simp add: NUM_def numeral_eq_Suc chain_ok_def lt Let_def clear_desc_def)
  moreover have "cpus (vd_at f u) = cpus u" for f and u :: "'a kvirt_scheme" by (simp add: vd_at_def)
  ultimately show ?thesis by (intro exI [of _ ?s2]) (simp del: free_chain.simps)
qed

lemma reqs_ok_free:
  assumes "reqs_ok d (r # rs)"
  shows "reqs_ok (freed r d) rs"
proof -
  have disj: "set (q_descs r) \<inter> set (concat (map q_descs rs)) = {}" and dist: "distinct (concat (map q_descs rs))"
    using assms by (auto simp: reqs_ok_def)
  have all: "set (q_descs r) \<union> set (concat (map q_descs rs)) = {i. i < NUM \<and> \<not> v_free d i}"
    using assms by (simp add: reqs_ok_def)
  have "v_free (freed r d) i \<longleftrightarrow> i \<in> set (q_descs r) \<or> v_free d i" for i
    by (auto simp: freed_def clear_desc_def q_descs_def)
  with all disj have "set (concat (map q_descs rs)) = {i. i < NUM \<and> \<not> v_free (freed r d) i}" by blast
  moreover have "req_ok (freed r d) x" if "x \<in> set rs" for x
  proof -
    have "set (q_descs x) \<subseteq> set (concat (map q_descs rs))" using that by auto
    then have "set (q_descs r) \<inter> set (q_descs x) = {}" using disj by blast
    moreover have "req_ok d x" using assms that by (simp add: reqs_ok_def)
    ultimately show ?thesis by (auto simp: freed_def clear_desc_def req_ok_def chain_ok_def q_descs_def)
  qed
  ultimately show ?thesis using assms dist by (simp add: reqs_ok_def)
qed

lemma vq_inv_free:
  assumes "vq_inv d bd P U (D1 @ r # D2)"
  shows "vq_inv (freed r d) bd P U (D1 @ D2)"
proof -
  have "reqs_ok d (r # (P @ U @ D1 @ D2))"
    by (rule reqs_ok_perm [of _ "P @ U @ D1 @ r # D2"]) (use assms in \<open>auto simp: vq_inv_def\<close>)
  then have "reqs_ok (freed r d) (P @ U @ D1 @ D2)" by (rule reqs_ok_free)
  then show ?thesis using assms by (auto simp: vq_inv_def freed_def clear_desc_def)
qed

lemma reqs_okD:
  assumes "reqs_ok d rs" and "r \<in> set rs"
  shows "req_ok d r" "distinct (q_descs r)" "\<forall>i\<in>set (q_descs r). i < NUM \<and> \<not> v_free d i"
proof -
  have "distinct (concat (map q_descs rs))" using assms(1) by (simp add: reqs_ok_def)
  then show "distinct (q_descs r)" using assms(2) by (auto simp: distinct_concat_iff)
  have "set (q_descs r) \<subseteq> set (concat (map q_descs rs))" using assms(2) by auto
  then show "\<forall>i\<in>set (q_descs r). i < NUM \<and> \<not> v_free d i" using assms(1) unfolding reqs_ok_def by blast
qed (use assms in \<open>auto simp: reqs_ok_def\<close>)

text \<open>
  a finished request is cleaned up.  When the issuer of a request that is complete resumes (it holds \<^verbatim>\<open>vdisk_lock\<close>), it does not wait
  again: \<^verbatim>\<open>free_chain\<close> ends after its three descriptors, none of the panics of \<^verbatim>\<open>free_desc\<close> is reached, exactly those three descriptors
  become free, and the rest of the queue stays consistent.
\<close>

theorem vdisk_wait_frees_request:
  fixes s :: "'a kvirt_scheme"
  assumes "cpu_wf h s" and "proc_locks_free s" and "lock_free LVdisk s"
    and "vq_inv (vdisk s) (b_disk s) P U (D1 @ r # D2)"
  shows "\<exists>t. vdisk_wait h (q_b r) (q_i0 r) (entered h LVdisk s) = Ok () t \<and> vq_inv (vdisk t) (b_disk t) P U (D1 @ D2) \<and>
    (\<forall>i<NUM. v_free (vdisk t) i \<longleftrightarrow> v_free (vdisk s) i \<or> i \<in> set (q_descs r)) \<and>
    bufs t = bufs s \<and> disk t = disk s \<and> b_disk t = b_disk s \<and> locks t = locks s \<and> sie t = sie s"
proof -
  let ?s = "vd_at (\<lambda>d. d\<lparr>v_info_b := (v_info_b d)(q_i0 r := None)\<rparr>) s"
  have r: "r \<in> set (P @ U @ D1 @ r # D2)" by simp
  have ok: "reqs_ok (vdisk s) (P @ U @ D1 @ r # D2)" and idle: "\<not> b_disk s (q_b r)" using assms(4) by (simp_all add: vq_inv_def)
  have "chain_ok (vdisk ?s) r" using reqs_okD(1) [OF ok r] by (simp add: req_ok_def chain_ok_def)
  moreover have "\<forall>i\<in>set (q_descs r). i < NUM \<and> \<not> v_free (vdisk ?s) i" using reqs_okD(3) [OF ok r] by simp
  ultimately obtain t where t: "free_chain h (Suc NUM) (q_i0 r) (entered h LVdisk ?s) = Ok () (entered h LVdisk t)"
      "vdisk t = freed r (vdisk s)" "b_disk t = b_disk s" "bufs t = bufs s" "disk t = disk s" "locks t = locks s" "sie t = sie s" "cpus t = cpus s"
    using free_chain_ok [of h ?s r] reqs_okD(2) [OF ok r] assms(1,2) by (auto simp: freed_def vd_at_def)
  have "cpu_wf h t" "lock_free LVdisk t" using t(6-8) assms(1,3) by (simp_all add: cpu_wf_def lock_free_def)
  then have "vdisk_wait h (q_b r) (q_i0 r) (entered h LVdisk s) = Ok () (settle h t)"
    using t(1) idle by (simp add: vdisk_wait_def release_entered Let_def del: free_chain.simps)
  moreover have "v_free (freed r d) i \<longleftrightarrow> v_free d i \<or> i \<in> set (q_descs r)" for d i
    by (auto simp: freed_def clear_desc_def q_descs_def)
  ultimately show ?thesis using t vq_inv_free [OF assms(4)] by simp
qed

section \<open>The device\<close>

text \<open>
  The device is a parameter.  \<open>block_device dev\<close> is its contract, after the virtio specification of block requests: \<open>dev i s\<close> serves
  the request whose first descriptor is \<open>i\<close>, a chain of a header, \<^verbatim>\<open>BSIZE\<close> bytes of data and a status byte; it moves the data between
  the buffer and the block that starts at the (even) sector of the header, stores the status 0, and puts the chain into the used ring.
\<close>

definition block_device :: "(nat \<Rightarrow> 'a kvirt_scheme \<Rightarrow> 'a kvirt_scheme) \<Rightarrow> bool" where
  "block_device dev \<longleftrightarrow>
     (\<forall>i s b blk. let d = vdisk s; hdr = v_desc d i; dat = v_desc d (unat (d_next hdr)); st = v_desc d (unat (d_next dat)) in
        d_addr hdr = DOps i \<longrightarrow> d_addr dat = DData b \<longrightarrow> d_len dat = of_nat BSIZE \<longrightarrow> d_addr st = DStatus i \<longrightarrow>
        unat (r_sector (v_ops d i)) = 2 * unat blk \<longrightarrow>
        dev i s =
          (if r_type (v_ops d i) = VIRTIO_BLK_T_OUT
           then s\<lparr>disk := (disk s)(blk := b_data (bufs s b)), disk_writes := disk_writes s @ [(blk, b_data (bufs s b))]\<rparr>
           else buf_at b (\<lambda>x. x\<lparr>b_data := disk s blk\<rparr>) s)
          \<lparr>vdisk := d\<lparr>v_info_status := (v_info_status d)(i := 0),
             v_used_ring := (v_used_ring d)(unat (v_used_idx d) mod NUM := of_nat i), v_used_idx := v_used_idx d + 1\<rparr>\<rparr>)"

definition served :: "dreq \<Rightarrow> vdisk \<Rightarrow> vdisk" where
  "served r d = d\<lparr>v_info_status := (v_info_status d)(q_i0 r := 0),
     v_used_ring := (v_used_ring d)(unat (v_used_idx d) mod NUM := of_nat (q_i0 r)), v_used_idx := v_used_idx d + 1\<rparr>"

lemma ring_slots_differ:
  fixes v :: u16
  assumes "a < b" and "b < NUM"
  shows "unat (v + of_nat a) mod NUM \<noteq> unat (v + of_nat b) mod NUM"
proof -
  have "unat (v + of_nat n) mod NUM = (unat v + n) mod 8" if "n < NUM" for n
  proof -
    have "unat (of_nat n :: u16) = n" using that by (simp add: NUM_def unat_of_nat)
    then have "unat (v + of_nat n) = (unat v + n) mod 65536" by (simp add: unat_word_ariths)
    then show ?thesis by (simp add: NUM_def mod_mod_cancel)
  qed
  moreover have "(unat v + a) mod 8 \<noteq> (unat v + b) mod 8"
  proof
    assume "(unat v + a) mod 8 = (unat v + b) mod 8"
    then have "8 dvd (unat v + b) - (unat v + a)" using assms(1) mod_eq_dvd_iff_nat [of "unat v + a" "unat v + b" 8] by simp
    then show False using assms dvd_imp_le [of 8 "b - a"] by (simp add: NUM_def)
  qed
  ultimately show ?thesis using assms by simp
qed

lemma vq_inv_serve:
  assumes "vq_inv d bd (P1 @ r # P2) U D"
  shows "vq_inv (served r d) bd (P1 @ P2) (U @ [r]) D"
proof -
  have few: "length U < NUM" using vq_inv_few [OF assms] by (simp add: NUM_def)
  have ring: "v_used_ring (served r d) (unat (v_seen d + of_nat k) mod NUM) = of_nat (q_i0 ((U @ [r]) ! k))" if "k < Suc (length U)" for k
  proof (cases "k = length U")
    case True
    then show ?thesis using assms by (simp add: served_def vq_inv_def)
  next
    case False
    then have "k < length U" using that by simp
    then show ?thesis using assms ring_slots_differ [of k "length U" "v_seen d"] few
      by (auto simp: served_def vq_inv_def nth_append)
  qed
  have "reqs_ok d (P1 @ P2 @ (U @ [r]) @ D)"
    by (rule reqs_ok_perm [of _ "(P1 @ r # P2) @ U @ D"]) (use assms in \<open>auto simp: vq_inv_def\<close>)
  then have "reqs_ok (served r d) ((P1 @ P2) @ (U @ [r]) @ D)" by (simp add: reqs_ok_def req_ok_def chain_ok_def served_def)
  then show ?thesis using assms ring by (auto simp: vq_inv_def served_def add.assoc)
qed


section \<open>Submission\<close>

definition free_set :: "vdisk \<Rightarrow> nat set" where
  "free_set d = {i. i < NUM \<and> v_free d i}"

lemma free_set_finite [simp]: "finite (free_set d)"
  by (simp add: free_set_def)

definition take1 :: "nat \<Rightarrow> vdisk \<Rightarrow> vdisk" where
  "take1 i d = d\<lparr>v_free := (v_free d)(i := False)\<rparr>"

lemma alloc_desc_some:
  assumes "0 < card (free_set d)"
  shows "\<exists>i. i \<in> free_set d \<and> alloc_desc d = (Some i, take1 i d) \<and> free_set (take1 i d) = free_set d - {i} \<and>
    card (free_set (take1 i d)) = card (free_set d) - 1"
proof -
  have "free_set d \<noteq> {}" using assms by auto
  then obtain i where "find (v_free d) [0..<NUM] = Some i"
    by (cases "find (v_free d) [0..<NUM]") (auto simp: free_set_def find_None_iff)
  moreover from this have "i \<in> free_set d" by (auto simp: free_set_def find_Some_iff)
  moreover have "free_set (take1 i d) = free_set d - {i}" by (auto simp: free_set_def take1_def)
  ultimately show ?thesis by (auto simp: alloc_desc_def take1_def)
qed

lemma alloc_desc_none: "free_set d = {} \<Longrightarrow> alloc_desc d = (None, d)"
  by (auto simp: alloc_desc_def free_set_def find_Some_iff split: option.splits)

lemma alloc3_some:
  assumes "3 \<le> card (free_set (vdisk s))"
  shows "\<exists>i j k. distinct [i, j, k] \<and> {i, j, k} \<subseteq> free_set (vdisk s) \<and>
    alloc3_desc h (entered h LVdisk s) = Ok (Some (i, j, k)) (entered h LVdisk (vd_at (\<lambda>d. take1 k (take1 j (take1 i d))) s))"
proof -
  let ?d = "vdisk s"
  have "0 < card (free_set ?d)" using assms by linarith
  from alloc_desc_some [OF this] obtain i where i: "i \<in> free_set ?d" "alloc_desc ?d = (Some i, take1 i ?d)"
    "free_set (take1 i ?d) = free_set ?d - {i}" "card (free_set (take1 i ?d)) = card (free_set ?d) - 1" by blast
  let ?e = "take1 i ?d"
  have "0 < card (free_set ?e)" using assms i(4) by linarith
  from alloc_desc_some [OF this] obtain j where j: "j \<in> free_set ?e" "alloc_desc ?e = (Some j, take1 j ?e)"
    "free_set (take1 j ?e) = free_set ?e - {j}" "card (free_set (take1 j ?e)) = card (free_set ?e) - 1" by blast
  let ?f = "take1 j ?e"
  have "0 < card (free_set ?f)" using assms i(4) j(4) by linarith
  from alloc_desc_some [OF this] obtain k where k: "k \<in> free_set ?f" "alloc_desc ?f = (Some k, take1 k ?f)" by blast
  have "distinct [i, j, k]" "{i, j, k} \<subseteq> free_set ?d" using i(1,3) j(1,3) k(1) by auto
  then show ?thesis using i(2) j(2) k(2)
    by (intro exI [of _ i] exI [of _ j] exI [of _ k]) (simp add: alloc3_desc_def vd_at_def)
qed

lemma alloc3_two:
  fixes s :: "'a kvirt_scheme"
  assumes "card (free_set (vdisk s)) = 2" and "cpu_wf h s" and "proc_locks_free s"
  shows "\<exists>i j t. i \<noteq> j \<and> free_set (vdisk s) = {i, j} \<and> alloc3_desc h (entered h LVdisk s) = Ok None (entered h LVdisk t) \<and>
    vdisk t = clear_desc j (clear_desc i (take1 j (take1 i (vdisk s)))) \<and> b_disk t = b_disk s \<and> bufs t = bufs s \<and> disk t = disk s \<and>
    locks t = locks s \<and> cpus t = cpus s \<and> sie t = sie s"
proof -
  let ?d = "vdisk s"
  have "0 < card (free_set ?d)" using assms(1) by linarith
  from alloc_desc_some [OF this] obtain i where i: "i \<in> free_set ?d" "alloc_desc ?d = (Some i, take1 i ?d)"
    "free_set (take1 i ?d) = free_set ?d - {i}" "card (free_set (take1 i ?d)) = card (free_set ?d) - 1" by blast
  let ?e = "take1 i ?d"
  have "0 < card (free_set ?e)" using assms(1) i(4) by linarith
  from alloc_desc_some [OF this] obtain j where j: "j \<in> free_set ?e" "alloc_desc ?e = (Some j, take1 j ?e)"
    "free_set (take1 j ?e) = free_set ?e - {j}" "card (free_set (take1 j ?e)) = card (free_set ?e) - 1" by blast
  have ij: "i \<noteq> j" using j(1) i(3) by auto
  have "card (free_set (take1 j ?e)) = 0" using assms(1) i(4) j(4) by linarith
  then have none: "free_set (take1 j ?e) = {}" by simp
  then have two: "free_set ?d = {i, j}" using i(1,3) j(1,3) by auto
  have lt: "i < NUM" "j < NUM" using i(1) j(1) by (auto simp: free_set_def)
  let ?s = "vd_at (\<lambda>d. take1 j (take1 i d)) s"
  let ?t = "roused h ChVdisk (vd_at (clear_desc i) ?s)"
  let ?u = "roused h ChVdisk (vd_at (clear_desc j) ?t)"
  have "free_desc h i (entered h LVdisk ?s) = Ok () (entered h LVdisk ?t)"
    by (rule free_desc_ok) (use assms(2,3) lt in \<open>simp_all add: take1_def\<close>)
  moreover have "free_desc h j (entered h LVdisk ?t) = Ok () (entered h LVdisk ?u)"
    by (rule free_desc_ok) (use assms(2,3) lt ij in \<open>simp_all add: take1_def clear_desc_def\<close>)
  ultimately have "alloc3_desc h (entered h LVdisk s) = Ok None (entered h LVdisk ?u)"
    using i(2) j(2) alloc_desc_none [OF none] by (simp add: alloc3_desc_def vd_at_def)
  moreover have "cpus (vd_at f v) = cpus v" for f and v :: "'a kvirt_scheme" by (simp add: vd_at_def)
  ultimately show ?thesis using ij two by (intro exI [of _ i] exI [of _ j] exI [of _ ?u]) simp
qed

lemma vq_inv_room:
  assumes "vq_inv d bd P U D"
  shows "card (free_set d) = NUM - 3 * length (P @ U @ D)"
proof -
  let ?xs = "concat (map q_descs (P @ U @ D))"
  have xs: "distinct ?xs" "set ?xs = {i. i < NUM \<and> \<not> v_free d i}" using assms unfolding vq_inv_def reqs_ok_def by blast+
  have "length (concat (map q_descs rs)) = 3 * length rs" for rs :: "dreq list" by (induction rs) auto
  then have "card (set ?xs) = 3 * length (P @ U @ D)" using distinct_card [OF xs(1)] by metis
  moreover have "free_set d = {..<NUM} - set ?xs" unfolding xs(2) by (auto simp: free_set_def)
  moreover have "set ?xs \<subseteq> {..<NUM}" unfolding xs(2) by auto
  ultimately show ?thesis using card_Diff_subset [of "set ?xs" "{..<NUM}"] by simp
qed

lemma vq_inv_submit:
  assumes "vq_inv d bd P U D" and "distinct [i, j, k]" and "{i, j, k} \<subseteq> free_set d" and "b \<notin> q_b ` set (P @ U @ D)"
  shows "vq_inv (format_req w b blk i j k (take1 k (take1 j (take1 i d)))) (bd(b := True))
    (P @ [\<lparr>q_i0 = i, q_i1 = j, q_i2 = k, q_b = b, q_write = w, q_blk = blk\<rparr>]) U D"
proof -
  let ?r = "\<lparr>q_i0 = i, q_i1 = j, q_i2 = k, q_b = b, q_write = w, q_blk = blk\<rparr>"
  let ?d = "format_req w b blk i j k (take1 k (take1 j (take1 i d)))"
  let ?rs = "P @ U @ D"
  have ok: "reqs_ok d ?rs" using assms(1) by (simp add: vq_inv_def)
  have used: "set (concat (map q_descs ?rs)) = {i. i < NUM \<and> \<not> v_free d i}" using ok unfolding reqs_ok_def by blast
  have free: "i < NUM" "j < NUM" "k < NUM" "v_free d i" "v_free d j" "v_free d k" using assms(3) by (auto simp: free_set_def)
  have "v_free ?d x \<longleftrightarrow> v_free d x \<and> x \<noteq> i \<and> x \<noteq> j \<and> x \<noteq> k" for x
    by (simp add: format_req_def take1_def Let_def)
  then have set': "set (concat (map q_descs (?r # ?rs))) = {i. i < NUM \<and> \<not> v_free ?d i}"
    using used free by (auto simp: q_descs_def)
  have dist: "distinct (concat (map q_descs (?r # ?rs)))"
    using ok used free assms(2) unfolding reqs_ok_def by (auto simp: q_descs_def)
  have new: "req_ok ?d ?r"
    using assms(2) by (simp add: req_ok_def chain_ok_def format_req_def Let_def)
  have old: "req_ok ?d x" if "x \<in> set ?rs" for x
  proof -
    have "set (q_descs x) \<subseteq> {i. i < NUM \<and> \<not> v_free d i}" using that used by auto
    then have "q_i0 x \<notin> {i, j, k}" "q_i1 x \<notin> {i, j, k}" "q_i2 x \<notin> {i, j, k}" using free by (auto simp: q_descs_def)
    moreover have "req_ok d x" using ok that unfolding reqs_ok_def by blast
    ultimately show ?thesis by (simp add: req_ok_def chain_ok_def format_req_def take1_def Let_def)
  qed
  have "distinct (map q_b (?r # ?rs))" using ok assms(4) by (auto simp: reqs_ok_def)
  then have "reqs_ok ?d (?r # ?rs)" using dist set' new old unfolding reqs_ok_def by simp
  then have R: "reqs_ok ?d ((P @ [?r]) @ U @ D)" by (rule reqs_ok_perm) simp
  have st: "v_info_status ?d (q_i0 x) = 0" if "x \<in> set U" for x
  proof -
    have "q_i0 x \<in> set (concat (map q_descs ?rs))" using that by force
    then have "q_i0 x \<noteq> i" using used free by auto
    then show ?thesis using that assms(1) by (simp add: format_req_def take1_def Let_def vq_inv_def)
  qed
  have same: "v_used_idx ?d = v_used_idx d" "v_seen ?d = v_seen d" "v_used_ring ?d = v_used_ring d"
    by (simp_all add: format_req_def take1_def Let_def)
  have "b \<noteq> q_b x" if "x \<in> set ?rs" for x using assms(4) that by blast
  then show ?thesis using R st same assms(1) unfolding vq_inv_def by auto
qed

lemma vq_inv_untake:
  assumes "vq_inv d bd P U D" and "{i, j} \<subseteq> free_set d"
  shows "vq_inv (clear_desc j (clear_desc i (take1 j (take1 i d)))) bd P U D"
proof -
  let ?d = "clear_desc j (clear_desc i (take1 j (take1 i d)))" and ?rs = "P @ U @ D"
  have ok: "reqs_ok d ?rs" using assms(1) by (simp add: vq_inv_def)
  have free: "i < NUM" "j < NUM" "v_free d i" "v_free d j" using assms(2) by (auto simp: free_set_def)
  have fr: "v_free ?d = v_free d" using free by (auto simp: clear_desc_def take1_def fun_eq_iff)
  have "req_ok ?d x" if "x \<in> set ?rs" for x
  proof -
    have "q_i0 x \<notin> {i, j}" "q_i1 x \<notin> {i, j}" "q_i2 x \<notin> {i, j}" using reqs_okD(3) [OF ok that] free by (auto simp: q_descs_def)
    then show ?thesis using reqs_okD(1) [OF ok that] by (simp add: req_ok_def chain_ok_def clear_desc_def take1_def)
  qed
  then have "reqs_ok ?d ?rs" using ok fr unfolding reqs_ok_def by metis
  then show ?thesis using assms(1) unfolding vq_inv_def by (simp add: clear_desc_def take1_def)
qed

definition asleep :: "nat \<Rightarrow> nat \<Rightarrow> chan \<Rightarrow> 'a kproc_scheme \<Rightarrow> 'a kproc_scheme" where
  "asleep h p ch u = proc_at p (\<lambda>q. q\<lparr>p_chan := ch, p_state := SLEEPING, p_kintena := sie u h\<rparr>) (entered h (LProc p) u)"

lemma asleep_view:
  fixes u :: "'a kvirt_scheme"
  shows "vdisk (asleep h p ch u) = vdisk u" "b_disk (asleep h p ch u) = b_disk u" "bufs (asleep h p ch u) = bufs u"
    "disk (asleep h p ch u) = disk u" "p_state (procs (asleep h p ch u) p) = SLEEPING" "p_chan (procs (asleep h p ch u) p) = ch"
    "l \<noteq> LProc p \<Longrightarrow> locks (asleep h p ch u) l = locks u l"
  by (simp_all add: asleep_def proc_at_def entered_def push_off_def intr_off_def Let_def)

text \<open>
  submission of a request.  A process that reads or writes a buffer which is not already under way sleeps.  While fewer than two requests
  are under way, the request is put into the queue first: its three descriptors form the chain the device expects, its head is in the available ring at the
  old index, the index is advanced, the device is notified once, and the process sleeps on the buffer.  With two requests under way there are
  not three free descriptors: nothing is submitted, the two descriptors taken in between are given back, and the process sleeps until descriptors
  are freed.  The queue is consistent in both cases, and no lock but that of the sleeping process is held.
\<close>

theorem vdisk_rw_submits:
  fixes s :: "'a kvirt_scheme"
  assumes "noff h s = 0" and "c_proc (cpus s h) = Some p" and "p < NPROC" and "proc_locks_free s" and "lock_free LVdisk s"
    and "vq_inv (vdisk s) (b_disk s) P U D" and "b \<notin> q_b ` set (P @ U @ D)"
  shows "\<exists>t. vdisk_rw h b w s = Switch t \<and> p_state (procs t p) = SLEEPING \<and> bufs t = bufs s \<and> disk t = disk s \<and>
    (\<forall>l. l \<noteq> LProc p \<longrightarrow> locks t l = locks s l) \<and>
    (if length (P @ U @ D) < 2
     then p_chan (procs t p) = ChBuf b \<and> v_avail_idx (vdisk t) = v_avail_idx (vdisk s) + 1 \<and>
       v_notify (vdisk t) = Suc (v_notify (vdisk s)) \<and>
       (\<exists>r. q_b r = b \<and> q_write r = w \<and> q_blk r = b_blockno (bufs s b) \<and>
          v_avail_ring (vdisk t) (unat (v_avail_idx (vdisk s)) mod NUM) = of_nat (q_i0 r) \<and>
          vq_inv (vdisk t) (b_disk t) (P @ [r]) U D)
     else p_chan (procs t p) = ChVdisk \<and> v_avail_idx (vdisk t) = v_avail_idx (vdisk s) \<and>
       v_notify (vdisk t) = v_notify (vdisk s) \<and> vq_inv (vdisk t) (b_disk t) P U D)"
proof -
  have wf: "cpu_wf h s" and pfree: "lock_free (LProc p) s" using assms by (simp_all add: cpu_wf_def proc_locks_free_def)
  have slept: "sleep h ch LVdisk (entered h LVdisk u) = Switch (asleep h p ch u)"
    if "cpus u = cpus s" "locks u = locks s" "sie u = sie s" for ch and u :: "'a kvirt_scheme"
    unfolding asleep_def by (rule sleep_ok) (use that assms(1,2,5) pfree in \<open>simp_all add: lock_free_def cpu_wf_def\<close>)
  show ?thesis
  proof (cases "length (P @ U @ D) < 2")
    case True
    then have "3 \<le> card (free_set (vdisk s))" using vq_inv_room [OF assms(6)] by (simp add: NUM_def)
    from alloc3_some [OF this, of h] obtain i j k where ijk: "distinct [i, j, k]" "{i, j, k} \<subseteq> free_set (vdisk s)"
      "alloc3_desc h (entered h LVdisk s) = Ok (Some (i, j, k)) (entered h LVdisk (vd_at (\<lambda>d. take1 k (take1 j (take1 i d))) s))" by blast
    let ?d = "format_req w b (b_blockno (bufs s b)) i j k (take1 k (take1 j (take1 i (vdisk s))))"
    let ?u = "s\<lparr>vdisk := ?d, b_disk := (b_disk s)(b := True)\<rparr>"
    have "vdisk_rw h b w s = sleep h (ChBuf b) LVdisk (entered h LVdisk ?u)"
      using ijk(3) assms(5) by (simp add: vdisk_rw_def vdisk_start_def vdisk_wait_def acquire_free vd_at_def Let_def)
    also have "\<dots> = Switch (asleep h p (ChBuf b) ?u)" by (rule slept) simp_all
    finally have run: "vdisk_rw h b w s = Switch (asleep h p (ChBuf b) ?u)" .
    have "v_avail_idx ?d = v_avail_idx (vdisk s) + 1" "v_notify ?d = Suc (v_notify (vdisk s))"
      "v_avail_ring ?d (unat (v_avail_idx (vdisk s)) mod NUM) = of_nat i"
      by (simp_all add: format_req_def take1_def Let_def)
    moreover note vq_inv_submit [OF assms(6) ijk(1,2) assms(7), of w "b_blockno (bufs s b)"]
    ultimately show ?thesis using True run
      by (intro exI [of _ "asleep h p (ChBuf b) ?u"]) (auto simp: asleep_view intro!: exI [of _ "\<lparr>q_i0 = i, q_i1 = j, q_i2 = k, q_b = b, q_write = w, q_blk = b_blockno (bufs s b)\<rparr>"])
  next
    case False
    then have "card (free_set (vdisk s)) = 2" using vq_inv_room [OF assms(6)] vq_inv_few [OF assms(6)] by (simp add: NUM_def)
    from alloc3_two [OF this wf assms(4)] obtain i j u where u: "free_set (vdisk s) = {i, j}"
      "alloc3_desc h (entered h LVdisk s) = Ok None (entered h LVdisk u)"
      "vdisk u = clear_desc j (clear_desc i (take1 j (take1 i (vdisk s))))" "b_disk u = b_disk s" "bufs u = bufs s" "disk u = disk s"
      "locks u = locks s" "cpus u = cpus s" "sie u = sie s" by blast
    have "vdisk_rw h b w s = Switch (asleep h p ChVdisk u)"
      using u(2) assms(5) slept [OF u(8,7,9)] by (simp add: vdisk_rw_def vdisk_start_def acquire_free)
    moreover have "vq_inv (vdisk u) (b_disk u) P U D" using vq_inv_untake [OF assms(6), of i j] u(1,3,4) by simp
    moreover have "v_avail_idx (vdisk u) = v_avail_idx (vdisk s)" "v_notify (vdisk u) = v_notify (vdisk s)"
      using u(3) by (simp_all add: clear_desc_def take1_def)
    ultimately show ?thesis using False u(5-7) by (intro exI [of _ "asleep h p ChVdisk u"]) (auto simp: asleep_view)
  qed
qed

section \<open>Concrete runs\<close>

definition req0 :: dreq where
  "req0 = \<lparr>q_i0 = 0, q_i1 = 1, q_i2 = 2, q_b = 0, q_write = False, q_blk = 0\<rparr>"

definition queued :: ktrap where
  "queued = (demo_kernel 0 0)\<lparr>vdisk := format_req False 0 0 0 1 2 (take1 2 (take1 1 (take1 0 (vdisk (demo_kernel 0 0))))),
     b_disk := (\<lambda>_. False)(0 := True)\<rparr>"

lemma demo_vq_inv: "vq_inv (vdisk (demo_kernel n a)) (b_disk (demo_kernel n a)) [] [] []"
  by (simp add: vq_inv_def reqs_ok_def demo_kernel_def)

lemma queued_inv: "vq_inv (vdisk queued) (b_disk queued) [req0] [] []"
proof -
  have "{0, 1, 2} \<subseteq> free_set (vdisk (demo_kernel 0 0))" by (simp add: free_set_def demo_kernel_def NUM_def)
  moreover have "b_disk (demo_kernel 0 0) = (\<lambda>_. False)" by (simp add: demo_kernel_def)
  ultimately show ?thesis
    using vq_inv_submit [OF demo_vq_inv, of 0 1 2 0 0 0 False 0] by (simp add: queued_def req0_def)
qed

lemma queued_simps [simp]:
  "cpu_wf h queued" "proc_locks_free queued" "lock_free l queued" "b_blockno (bufs queued b) = 0"
  by (simp_all add: queued_def) (simp add: demo_kernel_def)

lemma req0_simps [simp]: "q_i0 req0 = 0" "q_b req0 = 0" "q_write req0 = False" "q_blk req0 = 0" "q_descs req0 = [0, 1, 2]"
  by (simp_all add: req0_def q_descs_def)

theorem vdisk_rw_submits_witness: "\<exists>t. vdisk_rw 0 0 False (demo_kernel 0 0) = Switch t \<and> p_chan (procs t 1) = ChBuf 0"
proof -
  have "1 < NPROC" by (simp add: NPROC_def)
  then show ?thesis using vdisk_rw_submits [where s = "demo_kernel 0 0" and h = 0 and p = 1 and b = 0 and w = False, OF _ _ _ _ _ demo_vq_inv] by auto
qed

theorem virtio_disk_intr_completes_witness:
  "\<exists>t. virtio_disk_intr 0 (queued\<lparr>vdisk := served req0 (vdisk queued)\<rparr>) = Ok () t \<and> \<not> b_disk t 0"
proof -
  have "vq_inv (served req0 (vdisk queued)) (b_disk queued) [] [req0] []"
    using vq_inv_serve [of _ _ "[]" req0 "[]" "[]"] queued_inv by simp
  then show ?thesis
    using virtio_disk_intr_completes [where s = "queued\<lparr>vdisk := served req0 (vdisk queued)\<rparr>" and h = 0 and P = "[]" and U = "[req0]" and D = "[]"]
    by auto
qed

theorem vdisk_wait_frees_request_witness:
  "\<exists>t. vdisk_wait 0 0 0 (entered 0 LVdisk ((demo_kernel 0 0)\<lparr>vdisk := (served req0 (vdisk queued))\<lparr>v_seen := 1\<rparr>\<rparr>)) = Ok () t \<and>
     v_free (vdisk t) 0"
proof -
  let ?d = "served req0 (vdisk queued)"
  have "vq_inv ?d (b_disk queued) [] [req0] []"
    using vq_inv_serve [of _ _ "[]" req0 "[]" "[]"] queued_inv by simp
  from vq_inv_complete [OF this] have "vq_inv (?d\<lparr>v_seen := v_seen ?d + 1\<rparr>) ((b_disk queued)(q_b req0 := False)) [] [] [req0]" by simp
  moreover have "v_seen ?d = 0" by (simp add: served_def queued_def format_req_def take1_def demo_kernel_def Let_def)
  moreover have "(b_disk queued)(q_b req0 := False) = b_disk (demo_kernel 0 0)" by (auto simp: queued_def demo_kernel_def)
  ultimately have "vq_inv (?d\<lparr>v_seen := 1\<rparr>) (b_disk (demo_kernel 0 0)) [] [] ([] @ req0 # [])" by simp
  then show ?thesis
    using vdisk_wait_frees_request [where s = "(demo_kernel 0 0)\<lparr>vdisk := ?d\<lparr>v_seen := 1\<rparr>\<rparr>" and h = 0 and P = "[]" and U = "[]" and ?D1.0 = "[]" and ?D2.0 = "[]" and r = req0]
    by (auto simp: NUM_def)
qed

definition demo_device :: "nat \<Rightarrow> 'a kvirt_scheme \<Rightarrow> 'a kvirt_scheme" where
  "demo_device i s =
     (let d = vdisk s; blk = ucast (r_sector (v_ops d i) div 2)
      in case d_addr (v_desc d (unat (d_next (v_desc d i)))) of
           DData b \<Rightarrow>
             (if r_type (v_ops d i) = VIRTIO_BLK_T_OUT
              then s\<lparr>disk := (disk s)(blk := b_data (bufs s b)), disk_writes := disk_writes s @ [(blk, b_data (bufs s b))]\<rparr>
              else buf_at b (\<lambda>x. x\<lparr>b_data := disk s blk\<rparr>) s)
             \<lparr>vdisk := d\<lparr>v_info_status := (v_info_status d)(i := 0),
                v_used_ring := (v_used_ring d)(unat (v_used_idx d) mod NUM := of_nat i), v_used_idx := v_used_idx d + 1\<rparr>\<rparr>
         | _ \<Rightarrow> s)"

lemma demo_device_ok: "block_device demo_device"
proof -
  have blk: "ucast (sec div 2) = blk" if "unat sec = 2 * unat blk" for sec :: u64 and blk :: u32
  proof -
    have "unat (sec div 2) = unat blk" using that by (simp add: unat_div_distrib)
    moreover have "unat blk < 2 ^ 32" using unsigned_less [of blk] by simp
    ultimately show ?thesis by (simp add: word_unat_eq_iff unsigned_ucast_eq take_bit_nat_eq_self)
  qed
  then show ?thesis by (simp add: block_device_def demo_device_def Let_def)
qed


end
