(* ===== verification/Sh.thy ===== *)
theory Sh
  imports Ulib Sysfile "HOL-Library.Sublist"
begin

text \<open>
  The command parser of the shell, \<^verbatim>\<open>user/sh.c\<close>.  A pointer into the command line is the suffix of the line it
  points at, so the null that ends the line is the empty suffix, and a pair of pointers \<^verbatim>\<open>q\<close>, \<^verbatim>\<open>eq\<close> is a pair of suffixes.
  The parser is total and proved to come to an end on every line; printing a command and parsing it gives the command back;
  and the zeros that \<^verbatim>\<open>nulterminate\<close> writes into the line make every word of the command a string of its own.
\<close>

section \<open>Commands\<close>

definition MAXARGS :: nat where "MAXARGS = 10"

datatype 'w cmd =
    EXEC "'w list"
  | REDIR "'w cmd" 'w u32 int
  | PIPE "'w cmd" "'w cmd"
  | LIST "'w cmd" "'w cmd"
  | BACK "'w cmd"

type_synonym ptrs = "string \<times> string"

text \<open>What a parsing function comes back with: a result and the new \<^verbatim>\<open>*ps\<close>, the \<^verbatim>\<open>panic\<close> that ends the process, or, in
  the model alone, no fuel.\<close>

datatype 'a parse = Parsed 'a string | Syntax string | NoFuel

fun pbind :: "'a parse \<Rightarrow> ('a \<Rightarrow> string \<Rightarrow> 'b parse) \<Rightarrow> 'b parse" where
  "pbind (Parsed x s) f = f x s"
| "pbind (Syntax e) f = Syntax e"
| "pbind NoFuel f = NoFuel"

section \<open>Tokens\<close>

definition whitespace :: string where
  "whitespace = [CHR '' '', CHR 0x09, CHR 0x0D, CHR 0x0A, CHR 0x0B]"

definition symbols :: string where
  "symbols = ''<|>&;()''"

definition is_space :: "char \<Rightarrow> bool" where
  "is_space c \<longleftrightarrow> strchr whitespace c \<noteq> None"

definition is_symbol :: "char \<Rightarrow> bool" where
  "is_symbol c \<longleftrightarrow> strchr symbols c \<noteq> None"

definition skip :: "string \<Rightarrow> string" where
  "skip s = dropWhile is_space s"

text \<open>The token, \<^verbatim>\<open>*q\<close>, \<^verbatim>\<open>*eq\<close> and the new \<^verbatim>\<open>*ps\<close>.\<close>

definition gettoken :: "string \<Rightarrow> char \<times> string \<times> string \<times> string" where
  "gettoken s =
     (let s = skip s; c = chd s;
          (ret, e) =
            (if c = NUL then (c, s)
             else if c \<in> set ''|();&<'' then (c, tl s)
             else if c = CHR ''>'' then (if chd (tl s) = CHR ''>'' then (CHR ''+'', tl (tl s)) else (c, tl s))
             else (CHR ''a'', dropWhile (\<lambda>c. \<not> is_space c \<and> \<not> is_symbol c) s))
      in (ret, s, e, skip e))"

definition peek :: "string \<Rightarrow> string \<Rightarrow> bool \<times> string" where
  "peek s toks = (let s = skip s in (chd s \<noteq> NUL \<and> strchr toks (chd s) \<noteq> None, s))"

lemma skip_length: "length (skip s) \<le> length s"
  by (simp add: skip_def length_dropWhile_le)

lemma skip_skip [simp]: "skip (skip s) = skip s"
  by (induction s) (auto simp: skip_def)

lemma chd_skip: "skip s = [] \<or> \<not> is_space (chd (skip s))"
  by (induction s) (auto simp: skip_def)

lemma chd_NUL: "NUL \<notin> set s \<Longrightarrow> chd s = NUL \<longleftrightarrow> s = []"
  by (cases s) auto

text \<open>A token that is not the end makes the line shorter.\<close>

lemma gettoken_shorter:
  assumes "gettoken s = (ret, q, e, s')"
  shows "length s' \<le> length s" "ret \<noteq> NUL \<Longrightarrow> length s' < length s"
proof -
  have le: "length (skip x) \<le> length x" for x by (rule skip_length)
  have dw: "length (dropWhile P x) \<le> length x" for P and x :: string by (rule length_dropWhile_le)
  have tl: "length (tl x) \<le> length x" for x :: string by simp
  show "length s' \<le> length s"
    using assms le [of s] le [of "skip s"] le [of "tl (skip s)"] le [of "tl (tl (skip s))"]
      le [of "dropWhile (\<lambda>c. \<not> is_space c \<and> \<not> is_symbol c) (skip s)"]
      dw [of "\<lambda>c. \<not> is_space c \<and> \<not> is_symbol c" "skip s"]
    by (auto simp: gettoken_def Let_def split: if_splits)
  show "length s' < length s" if "ret \<noteq> NUL"
  proof -
    from that assms obtain c t where t: "skip s = c # t"
      by (cases "skip s") (auto simp: gettoken_def Let_def)
    have ns: "\<not> is_space c" using chd_skip [of s] t by auto
    have "length s' \<le> length t"
    proof (cases "is_symbol c")
      case True
      with assms t le [of t] le [of "tl t"] show ?thesis
        by (auto simp: gettoken_def Let_def is_symbol_def symbols_def split: if_splits)
    next
      case False
      then have "\<not> is_space c \<and> \<not> is_symbol c" using ns by simp
      with assms that t le [of t] le [of "tl t"] le [of "dropWhile (\<lambda>c. \<not> is_space c \<and> \<not> is_symbol c) t"]
        dw [of "\<lambda>c. \<not> is_space c \<and> \<not> is_symbol c" t] show ?thesis
        by (auto simp: gettoken_def Let_def split: if_splits)
    qed
    then show ?thesis using le [of s] t by simp
  qed
qed

lemma peek_shorter: "peek s toks = (b, s') \<Longrightarrow> length s' \<le> length s"
  using skip_length by (auto simp: peek_def Let_def)

lemma redirection_shorter:
  assumes "(b, s1) = peek s toks" and "(tok, q1, e1, s2) = gettoken s1" and "(CHR ''a'', q, e, s3) = gettoken s2"
  shows "length s3 < length s"
  using peek_shorter [OF assms(1) [symmetric]] gettoken_shorter(1) [OF assms(2) [symmetric]] gettoken_shorter(2) [OF assms(3) [symmetric]] by simp

lemma peek_token:
  assumes "peek s toks = (True, s1)" and "gettoken s1 = (tok, q, e, s2)"
  shows "tok \<noteq> NUL" "length s2 < length s"
proof -
  have "chd s1 \<noteq> NUL" "s1 = skip s" using assms(1) by (auto simp: peek_def Let_def)
  then show "tok \<noteq> NUL" using assms(2) by (auto simp: gettoken_def Let_def split: if_splits)
  then show "length s2 < length s" using gettoken_shorter(2) [OF assms(2)] peek_shorter [OF assms(1)] by simp
qed

section \<open>The parser\<close>

definition redircmd :: "char \<Rightarrow> 'w cmd \<Rightarrow> 'w \<Rightarrow> 'w cmd" where
  "redircmd tok c f =
     (if tok = CHR ''<'' then REDIR c f O_RDONLY 0
      else if tok = CHR ''>'' then REDIR c f (O_WRONLY OR O_CREATE OR O_TRUNC) 1
      else if tok = CHR ''+'' then REDIR c f (O_WRONLY OR O_CREATE) 1
      else c)"

function parseredirs :: "ptrs cmd \<Rightarrow> string \<Rightarrow> ptrs cmd parse" where
  "parseredirs c s =
     (case peek s ''<>'' of (b, s1) \<Rightarrow>
        if \<not> b then Parsed c s1
        else case gettoken s1 of (tok, _, _, s2) \<Rightarrow>
          (case gettoken s2 of (t, q, e, s3) \<Rightarrow>
             if t \<noteq> CHR ''a'' then Syntax ''missing file for redirection''
             else parseredirs (redircmd tok c (q, e)) s3))"
  by pat_completeness auto
termination
  by (relation "measure (\<lambda>(c, s). length s)") (auto intro: redirection_shorter)

text \<open>\<open>add_arg\<close> stores through the pointer \<^verbatim>\<open>cmd\<close>, which stays at the \<^verbatim>\<open>execcmd\<close> inside the redirections around it.\<close>

primrec add_arg :: "'w \<Rightarrow> 'w cmd \<Rightarrow> 'w cmd" where
  "add_arg w (EXEC ws) = EXEC (ws @ [w])"
| "add_arg w (REDIR c f m fd) = REDIR (add_arg w c) f m fd"
| "add_arg w (PIPE l r) = PIPE l r"
| "add_arg w (LIST l r) = LIST l r"
| "add_arg w (BACK c) = BACK c"

lemma pbind_cong [fundef_cong]:
  "m = m' \<Longrightarrow> (\<And>x s. m' = Parsed x s \<Longrightarrow> f x s = g x s) \<Longrightarrow> pbind m f = pbind m' g"
  by (cases m') auto

lemma parseredirs_shorter: "parseredirs c s = Parsed c' s' \<Longrightarrow> length s' \<le> length s"
proof (induction c s rule: parseredirs.induct)
  case (1 c s)
  obtain b s1 where p: "peek s ''<>'' = (b, s1)" by fastforce
  show ?case
  proof (cases b)
    case False
    then show ?thesis using "1.prems" p peek_shorter [OF p] by (subst (asm) parseredirs.simps) simp
  next
    case True
    obtain tok r1 r2 s2 where g: "gettoken s1 = (tok, r1, r2, s2)" by (metis prod_cases4)
    obtain t q e s3 where g2: "gettoken s2 = (t, q, e, s3)" by (metis prod_cases4)
    have "t = CHR ''a''" "parseredirs (redircmd tok c (q, e)) s3 = Parsed c' s'"
      using "1.prems" p g g2 True by (auto simp: parseredirs.simps [of c s] split: if_splits)
    then have "length s' \<le> length s3" using "1.IH" [OF p [symmetric]] True g g2 by simp
    then show ?thesis using peek_shorter [OF p] gettoken_shorter(1) [OF g] gettoken_shorter(1) [OF g2] by simp
  qed
qed

declare parseredirs.simps [simp del]

lemma argument_shorter:
  assumes "(b, s1) = peek s toks" and "(CHR ''a'', q, e, s2) = gettoken s1" and "parseredirs c s2 = Parsed c' s3"
  shows "length s3 < length s"
  using peek_shorter [OF assms(1) [symmetric]] gettoken_shorter(2) [OF assms(2) [symmetric]] parseredirs_shorter [OF assms(3)] by simp

function exec_loop :: "nat \<Rightarrow> ptrs cmd \<Rightarrow> string \<Rightarrow> ptrs cmd parse" where
  "exec_loop argc ret s =
     (case peek s ''|)&;'' of (b, s1) \<Rightarrow>
        if b then Parsed ret s1
        else case gettoken s1 of (tok, q, e, s2) \<Rightarrow>
          if tok = NUL then Parsed ret s2
          else if tok \<noteq> CHR ''a'' then Syntax ''syntax''
          else if argc + 1 \<ge> MAXARGS then Syntax ''too many args''
          else pbind (parseredirs (add_arg (q, e) ret) s2) (\<lambda>ret s. exec_loop (argc + 1) ret s))"
  by pat_completeness auto
termination
  by (relation "measure (\<lambda>(n, c, s). length s)") (auto intro: argument_shorter)

declare exec_loop.simps [simp del]

function backs :: "ptrs cmd \<Rightarrow> string \<Rightarrow> ptrs cmd \<times> string" where
  "backs c s =
     (case peek s ''&'' of (b, s1) \<Rightarrow>
        if b then case gettoken s1 of (_, _, _, s2) \<Rightarrow> backs (BACK c) s2 else (c, s1))"
  by pat_completeness auto
termination
  by (relation "measure (\<lambda>(c, s). length s)") (auto intro: peek_token(2) [OF sym sym])

declare backs.simps [simp del]

text \<open>
  The four functions that call each other.  Between two calls of the same function on the same pointer there are at most
  three others, so \<open>parsecmd\<close> gives them four units of fuel for every character; that this is enough is proved below.
\<close>

fun parseline :: "nat \<Rightarrow> string \<Rightarrow> ptrs cmd parse"
  and parsepipe :: "nat \<Rightarrow> string \<Rightarrow> ptrs cmd parse"
  and parseexec :: "nat \<Rightarrow> string \<Rightarrow> ptrs cmd parse"
  and parseblock :: "nat \<Rightarrow> string \<Rightarrow> ptrs cmd parse" where
  "parseline 0 s = NoFuel"
| "parseline (Suc n) s =
     pbind (parsepipe n s) (\<lambda>c s.
     case backs c s of (c, s) \<Rightarrow>
       (case peek s '';'' of (b, s) \<Rightarrow>
          if b then case gettoken s of (_, _, _, s) \<Rightarrow> pbind (parseline n s) (\<lambda>r s. Parsed (LIST c r) s)
          else Parsed c s))"
| "parsepipe 0 s = NoFuel"
| "parsepipe (Suc n) s =
     pbind (parseexec n s) (\<lambda>c s.
     case peek s ''|'' of (b, s) \<Rightarrow>
       if b then case gettoken s of (_, _, _, s) \<Rightarrow> pbind (parsepipe n s) (\<lambda>r s. Parsed (PIPE c r) s)
       else Parsed c s)"
| "parseblock 0 s = NoFuel"
| "parseblock (Suc n) s =
     (case peek s ''('' of (b, s) \<Rightarrow>
        if \<not> b then Syntax ''parseblock''
        else case gettoken s of (_, _, _, s) \<Rightarrow>
          pbind (parseline n s) (\<lambda>c s.
          case peek s '')'' of (b, s) \<Rightarrow>
            if \<not> b then Syntax ''syntax - missing )''
            else case gettoken s of (_, _, _, s) \<Rightarrow> parseredirs c s))"
| "parseexec 0 s = NoFuel"
| "parseexec (Suc n) s =
     (case peek s ''('' of (b, s) \<Rightarrow>
        if b then parseblock n s
        else pbind (parseredirs (EXEC []) s) (\<lambda>ret s. exec_loop 0 ret s))"

text \<open>The message for what is left over is printed before that of the \<^verbatim>\<open>panic\<close>.\<close>

definition parsecmd :: "string \<Rightarrow> ptrs cmd parse" where
  "parsecmd s =
     pbind (parseline (4 * length s + 4) s) (\<lambda>c s.
     case peek s [] of (_, s) \<Rightarrow>
       if s \<noteq> [] then Syntax (''leftovers: '' @ s @ [CHR 0x0A] @ ''syntax'') else Parsed c s)"

section \<open>Zeros at the ends of the words\<close>

fun nulterminate :: "string \<Rightarrow> ptrs cmd \<Rightarrow> string \<Rightarrow> string" where
  "nulterminate s (EXEC ws) buf = fold (\<lambda>(q, e) buf. buf[length s - length e := NUL]) ws buf"
| "nulterminate s (REDIR c (q, e) m fd) buf = (nulterminate s c buf)[length s - length e := NUL]"
| "nulterminate s (PIPE l r) buf = nulterminate s r (nulterminate s l buf)"
| "nulterminate s (LIST l r) buf = nulterminate s r (nulterminate s l buf)"
| "nulterminate s (BACK c) buf = nulterminate s c buf"

section \<open>The parser comes to an end\<close>

lemma pbind_Parsed: "pbind m f = Parsed y t \<longleftrightarrow> (\<exists>x s. m = Parsed x s \<and> f x s = Parsed y t)"
  by (cases m) auto

lemma pbind_NoFuel: "pbind m f = NoFuel \<longleftrightarrow> m = NoFuel \<or> (\<exists>x s. m = Parsed x s \<and> f x s = NoFuel)"
  by (cases m) auto

lemma exec_loop_shorter: "exec_loop n c s = Parsed c' s' \<Longrightarrow> length s' \<le> length s"
proof (induction n c s rule: exec_loop.induct)
  case (1 argc ret s)
  obtain b s1 where p: "peek s ''|)&;'' = (b, s1)" by fastforce
  obtain tok q e s2 where g: "gettoken s1 = (tok, q, e, s2)" by (metis prod_cases4)
  note le = peek_shorter [OF p] gettoken_shorter(1) [OF g]
  from "1.prems" p g consider "s' = s1" | "s' = s2"
    | r s3 where "\<not> b" "tok = CHR ''a''" "\<not> argc + 1 \<ge> MAXARGS" "parseredirs (add_arg (q, e) ret) s2 = Parsed r s3" "exec_loop (argc + 1) r s3 = Parsed c' s'"
    by (subst (asm) exec_loop.simps) (auto simp: pbind_Parsed split: if_splits)
  then show ?case
  proof cases
    case 3
    then have "length s' \<le> length s3" using "1.IH" [OF p [symmetric] _ g [symmetric]] by simp
    then show ?thesis using parseredirs_shorter [OF 3(4)] le by simp
  qed (use le in auto)
qed

lemma backs_shorter: "backs c s = (c', s') \<Longrightarrow> length s' \<le> length s"
proof (induction c s rule: backs.induct)
  case (1 c s)
  obtain b s1 where p: "peek s ''&'' = (b, s1)" by fastforce
  obtain tok q e s2 where g: "gettoken s1 = (tok, q, e, s2)" by (metis prod_cases4)
  show ?case
  proof (cases b)
    case True
    then have "backs (BACK c) s2 = (c', s')" using "1.prems" p g by (subst (asm) backs.simps) simp
    then have "length s' \<le> length s2" using "1.IH" [OF p [symmetric] True g [symmetric]] by simp
    then show ?thesis using peek_shorter [OF p] gettoken_shorter(1) [OF g] by simp
  next
    case False
    then show ?thesis using "1.prems" p peek_shorter [OF p] by (subst (asm) backs.simps) simp
  qed
qed

abbreviation rest_of :: "char \<times> string \<times> string \<times> string \<Rightarrow> string" where
  "rest_of r \<equiv> snd (snd (snd r))"

lemma shorter:
  "length (snd (peek s toks)) \<le> length s" "length (snd (backs c s)) \<le> length s" "length (rest_of (gettoken s)) \<le> length s"
  "fst (peek s toks) \<Longrightarrow> length (rest_of (gettoken (snd (peek s toks)))) < length s"
  using peek_shorter [of s toks] backs_shorter [of c s] gettoken_shorter(1) [of s] peek_token(2) [of s toks]
  by (metis prod.collapse)+

text \<open>What is left of the line is never longer than the line.\<close>

lemma parse_shorter:
  "(\<forall>s c s'. parseline n s = Parsed c s' \<longrightarrow> length s' \<le> length s) \<and>
   (\<forall>s c s'. parsepipe n s = Parsed c s' \<longrightarrow> length s' \<le> length s) \<and>
   (\<forall>s c s'. parseexec n s = Parsed c s' \<longrightarrow> length s' \<le> length s) \<and>
   (\<forall>s c s'. parseblock n s = Parsed c s' \<longrightarrow> length s' \<le> length s)"
proof (induction n)
  case (Suc n)
  then have l: "\<And>s c s'. parseline n s = Parsed c s' \<Longrightarrow> length s' \<le> length s"
    and p: "\<And>s c s'. parsepipe n s = Parsed c s' \<Longrightarrow> length s' \<le> length s"
    and e: "\<And>s c s'. parseexec n s = Parsed c s' \<Longrightarrow> length s' \<le> length s"
    and b: "\<And>s c s'. parseblock n s = Parsed c s' \<Longrightarrow> length s' \<le> length s" by blast+
  note d = l p e b exec_loop_shorter parseredirs_shorter
  have "length s' \<le> length s" if "parseline (Suc n) s = Parsed c s'" for s c s'
    using that by (auto simp: pbind_Parsed case_prod_beta split: if_splits dest!: d intro!: shorter(1-3) [THEN order_trans] elim!: order_trans)
  moreover have "length s' \<le> length s" if "parsepipe (Suc n) s = Parsed c s'" for s c s'
    using that by (auto simp: pbind_Parsed case_prod_beta split: if_splits dest!: d intro!: shorter(1-3) [THEN order_trans] elim!: order_trans)
  moreover have "length s' \<le> length s" if "parseexec (Suc n) s = Parsed c s'" for s c s'
    using that by (auto simp: pbind_Parsed case_prod_beta split: if_splits dest!: d intro!: shorter(1-3) [THEN order_trans] elim!: order_trans)
  moreover have "length s' \<le> length s" if "parseblock (Suc n) s = Parsed c s'" for s c s'
    using that by (auto simp: pbind_Parsed case_prod_beta split: if_splits dest!: d intro!: shorter(1-3) [THEN order_trans] elim!: order_trans)
  ultimately show ?case by blast
qed auto

lemma loops_have_fuel: "parseredirs c s \<noteq> NoFuel" "exec_loop n c s \<noteq> NoFuel"
proof -
  have r: "parseredirs c s \<noteq> NoFuel" for c s
  proof (induction c s rule: parseredirs.induct)
    case (1 c s)
    then show ?case by (subst parseredirs.simps) (auto split: prod.splits)
  qed
  show "parseredirs c s \<noteq> NoFuel" by (rule r)
  show "exec_loop n c s \<noteq> NoFuel"
  proof (induction n c s rule: exec_loop.induct)
    case (1 argc ret s)
    then show ?case by (subst exec_loop.simps) (auto simp: pbind_NoFuel r split: prod.splits)
  qed
qed

lemma parse_has_fuel:
  "(\<forall>s. 4 * length s + 4 \<le> n \<longrightarrow> parseline n s \<noteq> NoFuel) \<and> (\<forall>s. 4 * length s + 3 \<le> n \<longrightarrow> parsepipe n s \<noteq> NoFuel) \<and>
   (\<forall>s. 4 * length s + 2 \<le> n \<longrightarrow> parseexec n s \<noteq> NoFuel) \<and> (\<forall>s. 4 * length s + 1 \<le> n \<longrightarrow> parseblock n s \<noteq> NoFuel)"
proof (induction n)
  case (Suc n)
  note sh = parse_shorter [of n]
  have l: "parseline (Suc n) s \<noteq> NoFuel" if "4 * length s + 4 \<le> Suc n" for s
  proof
    assume "parseline (Suc n) s = NoFuel"
    with Suc that obtain c s1 where r: "parsepipe n s = Parsed c s1" "fst (peek (snd (backs c s1)) '';'')"
      "parseline n (rest_of (gettoken (snd (peek (snd (backs c s1)) '';'')))) = NoFuel"
      by (auto simp: pbind_NoFuel case_prod_beta split: if_splits)
    have "length s1 \<le> length s" using sh r(1) by blast
    then show False using Suc r(3) that shorter(4) [OF r(2)] shorter(2) [of c s1] by auto
  qed
  have p: "parsepipe (Suc n) s \<noteq> NoFuel" if "4 * length s + 3 \<le> Suc n" for s
  proof
    assume "parsepipe (Suc n) s = NoFuel"
    with Suc that obtain c s1 where r: "parseexec n s = Parsed c s1" "fst (peek s1 ''|'')"
      "parsepipe n (rest_of (gettoken (snd (peek s1 ''|'')))) = NoFuel"
      by (auto simp: pbind_NoFuel case_prod_beta split: if_splits)
    have "length s1 \<le> length s" using sh r(1) by blast
    then show False using Suc r(3) that shorter(4) [OF r(2)] by auto
  qed
  have b: "parseblock (Suc n) s \<noteq> NoFuel" if "4 * length s + 1 \<le> Suc n" for s
  proof
    assume "parseblock (Suc n) s = NoFuel"
    then have "fst (peek s ''('')" "parseline n (rest_of (gettoken (snd (peek s ''('')))) = NoFuel"
      by (auto simp: pbind_NoFuel loops_have_fuel case_prod_beta split: if_splits)
    then show False using Suc that shorter(4) [of s "''(''"] by auto
  qed
  have e: "parseexec (Suc n) s \<noteq> NoFuel" if "4 * length s + 2 \<le> Suc n" for s
  proof (cases "peek s ''(''")
    case (Pair b s1)
    then show ?thesis using Suc that peek_shorter [OF Pair] by (auto simp: pbind_NoFuel loops_have_fuel)
  qed
  from l p b e show ?case by blast
qed auto

section \<open>Printing and parsing\<close>

definition word_text :: "ptrs \<Rightarrow> string" where
  "word_text p = (case p of (q, e) \<Rightarrow> take (length q - length e) q)"

abbreviation texts :: "ptrs cmd \<Rightarrow> string cmd" where
  "texts \<equiv> map_cmd word_text"

definition words_line :: "string list \<Rightarrow> string" where
  "words_line ws = concat (map (\<lambda>w. w @ '' '') ws)"

definition redir_op :: "u32 \<Rightarrow> string" where
  "redir_op m = (if m = O_RDONLY then ''<'' else if m = O_WRONLY OR O_CREATE OR O_TRUNC then ''>'' else ''>>'')"

definition redir_line :: "string \<Rightarrow> u32 \<Rightarrow> string" where
  "redir_line f m = redir_op m @ f @ '' ''"

text \<open>\<open>forms c\<close>: the command as an operand of a redirection or pipe, as a pipe, as a line up to its last \<^verbatim>\<open>&\<close>, and as a line.\<close>

primrec forms :: "string cmd \<Rightarrow> string \<times> string \<times> string \<times> string" where
  "forms (EXEC ws) = (let t = words_line ws in (t, t, t, t))"
| "forms (REDIR c f m fd) = (let t = fst (forms c) @ redir_line f m in (t, t, t, t))"
| "forms (PIPE l r) = (let t = fst (forms l) @ ''|'' @ fst (snd (forms r)) in (''('' @ t @ '')'', t, t, t))"
| "forms (BACK c) = (let t = fst (snd (snd (forms c))) @ ''&'' in (''('' @ t @ '')'', ''('' @ t @ '')'', t, t))"
| "forms (LIST l r) =
     (let t = fst (snd (snd (forms l))) @ '';'' @ snd (snd (snd (forms r)))
      in (''('' @ t @ '')'', ''('' @ t @ '')'', ''('' @ t @ '')'', t))"

abbreviation "form_e c \<equiv> fst (forms c)"
abbreviation "form_p c \<equiv> fst (snd (forms c))"
abbreviation "form_b c \<equiv> fst (snd (snd (forms c)))"

definition show_cmd :: "string cmd \<Rightarrow> string" where
  "show_cmd c = snd (snd (snd (forms c)))"

definition ok_word :: "string \<Rightarrow> bool" where
  "ok_word w \<longleftrightarrow> w \<noteq> [] \<and> (\<forall>c\<in>set w. \<not> is_space c \<and> \<not> is_symbol c \<and> c \<noteq> NUL)"

primrec ok_cmd :: "string cmd \<Rightarrow> bool" where
  "ok_cmd (EXEC ws) \<longleftrightarrow> (\<forall>w\<in>set ws. ok_word w) \<and> length ws < MAXARGS"
| "ok_cmd (REDIR c f m fd) \<longleftrightarrow> ok_cmd c \<and> ok_word f \<and>
     ((m, fd) = (O_RDONLY, 0) \<or> (m, fd) = (O_WRONLY OR O_CREATE OR O_TRUNC, 1) \<or> (m, fd) = (O_WRONLY OR O_CREATE, 1))"
| "ok_cmd (PIPE l r) \<longleftrightarrow> ok_cmd l \<and> ok_cmd r"
| "ok_cmd (LIST l r) \<longleftrightarrow> ok_cmd l \<and> ok_cmd r"
| "ok_cmd (BACK c) \<longleftrightarrow> ok_cmd c"

definition nospace :: "string \<Rightarrow> bool" where
  "nospace s \<longleftrightarrow> s = [] \<or> \<not> is_space (hd s)"

lemma skip_nospace [simp]: "nospace s \<Longrightarrow> skip s = s"
  by (cases s) (auto simp: nospace_def skip_def)

lemma nospace_simps [simp]: "nospace []" "nospace (c # s) \<longleftrightarrow> \<not> is_space c" "skip (CHR '' '' # s) = skip s"
  by (auto simp: nospace_def skip_def is_space_def whitespace_def)

lemma symbols_not_space [simp]: "\<not> is_space (CHR ''<'')" "\<not> is_space (CHR ''>'')" "\<not> is_space (CHR ''|'')" "\<not> is_space (CHR ''&'')"
  "\<not> is_space (CHR '';'')" "\<not> is_space (CHR ''('')" "\<not> is_space (CHR '')'')"
  by (simp_all add: is_space_def whitespace_def)

lemma ok_word_nospace: "ok_word w \<Longrightarrow> nospace (w @ s)"
  by (cases w) (auto simp: ok_word_def nospace_def)

lemma gettoken_word:
  assumes "ok_word w"
  shows "gettoken (w @ CHR '' '' # rest) = (CHR ''a'', w @ CHR '' '' # rest, CHR '' '' # rest, skip rest)"
proof -
  obtain c w' where w: "w = c # w'" and c: "\<not> is_symbol c" "c \<noteq> NUL" using assms by (cases w) (auto simp: ok_word_def)
  then have nc: "c \<notin> set ''|();&<''" "c \<noteq> CHR ''>''" by (auto simp: is_symbol_def symbols_def)
  have "is_space (CHR '' '')" by (simp add: is_space_def whitespace_def)
  moreover have "dropWhile P (w @ CHR '' '' # rest) = dropWhile P (CHR '' '' # rest)" if "\<forall>c\<in>set w. P c" for P
    using that by (rule dropWhile_append2 [OF bspec])
  ultimately have "dropWhile (\<lambda>c. \<not> is_space c \<and> \<not> is_symbol c) (w @ CHR '' '' # rest) = CHR '' '' # rest"
    using assms by (simp add: ok_word_def)
  then show ?thesis using ok_word_nospace [OF assms] w nc c(2) by (simp add: gettoken_def Let_def)
qed

lemma gettoken_symbol:
  "gettoken (CHR ''|'' # s) = (CHR ''|'', CHR ''|'' # s, s, skip s)" "gettoken (CHR ''&'' # s) = (CHR ''&'', CHR ''&'' # s, s, skip s)"
  "gettoken (CHR '';'' # s) = (CHR '';'', CHR '';'' # s, s, skip s)" "gettoken (CHR ''('' # s) = (CHR ''('', CHR ''('' # s, s, skip s)"
  "gettoken (CHR '')'' # s) = (CHR '')'', CHR '')'' # s, s, skip s)"
  by (simp_all add: gettoken_def Let_def)

lemma peek_nospace: "nospace s \<Longrightarrow> peek s toks = (s \<noteq> [] \<and> hd s \<noteq> NUL \<and> strchr toks (hd s) \<noteq> None, s)"
  by (cases s) (auto simp: peek_def Let_def)

declare parseline.simps [simp del] parsepipe.simps [simp del] parseexec.simps [simp del] parseblock.simps [simp del]

lemma fuel_more:
  "(\<forall>s c s'. parseline n s = Parsed c s' \<longrightarrow> parseline (Suc n) s = Parsed c s') \<and>
   (\<forall>s c s'. parsepipe n s = Parsed c s' \<longrightarrow> parsepipe (Suc n) s = Parsed c s') \<and>
   (\<forall>s c s'. parseexec n s = Parsed c s' \<longrightarrow> parseexec (Suc n) s = Parsed c s') \<and>
   (\<forall>s c s'. parseblock n s = Parsed c s' \<longrightarrow> parseblock (Suc n) s = Parsed c s')"
proof (induction n)
  case (Suc n)
  note IH = Suc.IH [THEN conjunct1, rule_format] Suc.IH [THEN conjunct2, THEN conjunct1, rule_format]
    Suc.IH [THEN conjunct2, THEN conjunct2, THEN conjunct1, rule_format] Suc.IH [THEN conjunct2, THEN conjunct2, THEN conjunct2, rule_format]
  have "parseline (Suc (Suc n)) s = Parsed c s'" if "parseline (Suc n) s = Parsed c s'" for s c s'
    using that unfolding parseline.simps(2) [of "Suc n" s] parseline.simps(2) [of n s]
    by (auto simp: pbind_Parsed case_prod_beta split: if_splits dest!: IH)
  moreover have "parsepipe (Suc (Suc n)) s = Parsed c s'" if "parsepipe (Suc n) s = Parsed c s'" for s c s'
    using that unfolding parsepipe.simps(2) [of "Suc n" s] parsepipe.simps(2) [of n s]
    by (auto simp: pbind_Parsed case_prod_beta split: if_splits dest!: IH)
  moreover have "parseexec (Suc (Suc n)) s = Parsed c s'" if "parseexec (Suc n) s = Parsed c s'" for s c s'
    using that unfolding parseexec.simps(2) [of "Suc n" s] parseexec.simps(2) [of n s]
    by (auto simp: pbind_Parsed case_prod_beta split: if_splits dest!: IH)
  moreover have "parseblock (Suc (Suc n)) s = Parsed c s'" if "parseblock (Suc n) s = Parsed c s'" for s c s'
    using that unfolding parseblock.simps(2) [of "Suc n" s] parseblock.simps(2) [of n s]
    by (auto simp: pbind_Parsed case_prod_beta split: if_splits dest!: IH)
  ultimately show ?case by blast
qed (simp add: parseline.simps parsepipe.simps parseexec.simps parseblock.simps)

lemma pbind_Syntax: "pbind m f = Syntax e \<longleftrightarrow> m = Syntax e \<or> (\<exists>x s. m = Parsed x s \<and> f x s = Syntax e)"
  by (cases m) auto

lemma fuel_more_error:
  "(\<forall>s e. parseline n s = Syntax e \<longrightarrow> parseline (Suc n) s = Syntax e) \<and>
   (\<forall>s e. parsepipe n s = Syntax e \<longrightarrow> parsepipe (Suc n) s = Syntax e) \<and>
   (\<forall>s e. parseexec n s = Syntax e \<longrightarrow> parseexec (Suc n) s = Syntax e) \<and>
   (\<forall>s e. parseblock n s = Syntax e \<longrightarrow> parseblock (Suc n) s = Syntax e)"
proof (induction n)
  case (Suc n)
  note IH = Suc.IH [THEN conjunct1, rule_format] Suc.IH [THEN conjunct2, THEN conjunct1, rule_format]
    Suc.IH [THEN conjunct2, THEN conjunct2, THEN conjunct1, rule_format] Suc.IH [THEN conjunct2, THEN conjunct2, THEN conjunct2, rule_format]
  note more = fuel_more [of n, THEN conjunct1, rule_format] fuel_more [of n, THEN conjunct2, THEN conjunct1, rule_format]
    fuel_more [of n, THEN conjunct2, THEN conjunct2, THEN conjunct1, rule_format] fuel_more [of n, THEN conjunct2, THEN conjunct2, THEN conjunct2, rule_format]
  have "parseline (Suc (Suc n)) s = Syntax e" if "parseline (Suc n) s = Syntax e" for s e
    using that unfolding parseline.simps(2) [of "Suc n" s] parseline.simps(2) [of n s]
    by (auto simp: pbind_Syntax case_prod_beta split: if_splits dest!: IH more)
  moreover have "parsepipe (Suc (Suc n)) s = Syntax e" if "parsepipe (Suc n) s = Syntax e" for s e
    using that unfolding parsepipe.simps(2) [of "Suc n" s] parsepipe.simps(2) [of n s]
    by (auto simp: pbind_Syntax case_prod_beta split: if_splits dest!: IH more)
  moreover have "parseexec (Suc (Suc n)) s = Syntax e" if "parseexec (Suc n) s = Syntax e" for s e
    using that unfolding parseexec.simps(2) [of "Suc n" s] parseexec.simps(2) [of n s]
    by (auto simp: pbind_Syntax case_prod_beta split: if_splits dest!: IH more)
  moreover have "parseblock (Suc (Suc n)) s = Syntax e" if "parseblock (Suc n) s = Syntax e" for s e
    using that unfolding parseblock.simps(2) [of "Suc n" s] parseblock.simps(2) [of n s]
    by (auto simp: pbind_Syntax case_prod_beta split: if_splits dest!: IH more)
  ultimately show ?case by blast
qed (simp add: parseline.simps parsepipe.simps parseexec.simps parseblock.simps)

lemma parseredirs_stop: "nospace s \<Longrightarrow> s = [] \<or> hd s \<notin> {CHR ''<'', CHR ''>''} \<Longrightarrow> parseredirs c s = Parsed c s"
  by (subst parseredirs.simps) (cases s; auto simp: peek_nospace)

lemma parseredirs_one:
  assumes "ok_word f" and "ok_cmd (REDIR (EXEC []) f m fd)" and "nospace rest"
  shows "\<exists>p. word_text p = f \<and> parseredirs c (redir_line f m @ rest) = parseredirs (REDIR c p m fd) rest"
proof -
  let ?p = "(f @ CHR '' '' # rest, CHR '' '' # rest)"
  obtain d f' where f: "f = d # f'" "\<not> is_symbol d" using assms(1) by (cases f) (auto simp: ok_word_def)
  then have d: "d \<noteq> CHR ''>''" by (auto simp: is_symbol_def symbols_def)
  have ns: "skip (f @ CHR '' '' # rest) = f @ CHR '' '' # rest" using ok_word_nospace [OF assms(1)] by simp
  have w: "word_text ?p = f" by (simp add: word_text_def)
  have distinct_modes: "O_RDONLY \<noteq> O_WRONLY OR O_CREATE OR O_TRUNC" "O_RDONLY \<noteq> O_WRONLY OR O_CREATE"
      "O_WRONLY OR O_CREATE OR O_TRUNC \<noteq> O_WRONLY OR O_CREATE"
    by (simp_all add: O_RDONLY_def O_WRONLY_def O_CREATE_def O_TRUNC_def)
  have "parseredirs c (redir_line f m @ rest) = parseredirs (REDIR c ?p m fd) rest"
    using assms(2,3) d f(1) distinct_modes gettoken_word [OF assms(1), of rest] ns
    by (subst parseredirs.simps)
       (auto simp: redir_line_def redir_op_def peek_nospace redircmd_def gettoken_def [of "CHR ''<'' # _"] gettoken_def [of "CHR ''>'' # _"] Let_def)
  with w show ?thesis by blast
qed

primrec argc_of :: "'w cmd \<Rightarrow> nat option" where
  "argc_of (EXEC ws) = Some (length ws)"
| "argc_of (REDIR c f m fd) = argc_of c"
| "argc_of (PIPE l r) = None"
| "argc_of (LIST l r) = None"
| "argc_of (BACK c) = None"

text \<open>What happens after an operand has been read: redirections, and for a simple command more arguments.\<close>

definition after_operand :: "nat option \<Rightarrow> ptrs cmd \<Rightarrow> string \<Rightarrow> ptrs cmd parse" where
  "after_operand k c s =
     (case k of Some n \<Rightarrow> pbind (parseredirs c s) (\<lambda>c s. exec_loop n c s) | None \<Rightarrow> parseredirs c s)"

definition stops :: "string \<Rightarrow> string \<Rightarrow> bool" where
  "stops cs s \<longleftrightarrow> s = [] \<or> hd s \<in> set cs"

lemma stops_simps [simp]: "stops cs []" "stops cs (c # s) \<longleftrightarrow> c \<in> set cs"
  by (simp_all add: stops_def)

lemma stops_nospace: "stops cs s \<Longrightarrow> set cs \<subseteq> set ''<>|)&;'' \<Longrightarrow> nospace s"
  by (cases s) auto

lemma after_operand_stop:
  assumes "stops ''|)&;'' s"
  shows "after_operand k c s = Parsed c s"
proof -
  have ns: "nospace s" using stops_nospace [OF assms] by simp
  have "parseredirs c s = Parsed c s" using assms ns by (intro parseredirs_stop) (auto simp: stops_def)
  moreover have "exec_loop n c s = Parsed c s" for n
    using assms ns by (subst exec_loop.simps) (cases s; auto simp: peek_nospace gettoken_def Let_def)
  ultimately show ?thesis by (simp add: after_operand_def split: option.split)
qed

lemma texts_add_arg: "texts (add_arg p c) = add_arg (word_text p) (texts c)"
  by (induction c) auto

lemma words_line_nospace: "\<forall>w\<in>set ws. ok_word w \<Longrightarrow> nospace rest \<Longrightarrow> nospace (words_line ws @ rest)"
  by (cases ws) (auto simp: words_line_def ok_word_nospace)

lemma word_start:
  assumes "ok_word w"
  shows "hd (w @ s) \<noteq> NUL" "w @ s \<noteq> []" "\<not> is_symbol (hd (w @ s))"
  using assms by (cases w; auto simp: ok_word_def)+

lemma not_symbol: "\<not> is_symbol c \<Longrightarrow> c \<noteq> CHR ''<'' \<and> c \<noteq> CHR ''>'' \<and> c \<noteq> CHR ''('' \<and> c \<noteq> CHR ''|'' \<and> c \<noteq> CHR '')'' \<and> c \<noteq> CHR ''&'' \<and> c \<noteq> CHR '';''"
  by (auto simp: is_symbol_def symbols_def)

lemma peek_word:
  assumes "ok_word w"
  shows "peek (w @ s) ''<>'' = (False, w @ s)" "peek (w @ s) ''|)&;'' = (False, w @ s)" "peek (w @ s) ''('' = (False, w @ s)"
  unfolding peek_nospace [OF ok_word_nospace [OF assms]]
  using not_symbol [OF word_start(3) [OF assms, of s]] by auto

lemma arguments_read:
  assumes "\<forall>w\<in>set ws. ok_word w" and "k + length ws < MAXARGS" and "nospace rest"
  shows "\<exists>c'. texts c' = fold add_arg ws (texts c) \<and>
    after_operand (Some k) c (words_line ws @ rest) = after_operand (Some (k + length ws)) c' rest"
  using assms
proof (induction ws arbitrary: k c)
  case Nil
  then show ?case by (intro exI [of _ c]) (simp add: words_line_def)
next
  case (Cons w ws)
  let ?s = "words_line ws @ rest" and ?l = "words_line (w # ws) @ rest"
  have w: "ok_word w" and l: "?l = w @ CHR '' '' # ?s" using Cons.prems by (simp_all add: words_line_def)
  have ns: "nospace ?s" using Cons.prems by (intro words_line_nospace) simp_all
  let ?p = "(w @ CHR '' '' # ?s, CHR '' '' # ?s)"
  have "parseredirs c ?l = Parsed c ?l" unfolding l by (subst parseredirs.simps) (simp add: peek_word [OF w])
  then have "after_operand (Some k) c ?l = exec_loop k c ?l" by (simp add: after_operand_def)
  also have "\<dots> = after_operand (Some (Suc k)) (add_arg ?p c) ?s"
    using ns Cons.prems(2) gettoken_word [OF w, of ?s] unfolding l
    by (subst exec_loop.simps) (simp add: peek_word [OF w] after_operand_def)
  finally have step: "after_operand (Some k) c ?l = after_operand (Some (Suc k)) (add_arg ?p c) ?s" .
  have "word_text ?p = w" by (simp add: word_text_def)
  with Cons.IH [of "Suc k" "add_arg ?p c"] Cons.prems step show ?case by (auto simp: texts_add_arg)
qed

definition parses_e :: "string cmd \<Rightarrow> bool" where
  "parses_e c \<longleftrightarrow> (\<forall>rest. stops ''<>|)&;'' rest \<longrightarrow>
     (\<exists>n c'. texts c' = c \<and> parseexec n (form_e c @ rest) = after_operand (argc_of c) c' rest))"

definition parses_p :: "string cmd \<Rightarrow> bool" where
  "parses_p c \<longleftrightarrow> (\<forall>rest. stops '')&;'' rest \<longrightarrow> (\<exists>n c'. texts c' = c \<and> parsepipe n (form_p c @ rest) = Parsed c' rest))"

definition parses_b :: "string cmd \<Rightarrow> bool" where
  "parses_b c \<longleftrightarrow> (\<forall>rest. stops '')&;'' rest \<longrightarrow>
     (\<exists>n c0 s0 c'. texts c' = c \<and> parsepipe n (form_b c @ rest) = Parsed c0 s0 \<and> backs c0 s0 = backs c' rest))"

definition parses_l :: "string cmd \<Rightarrow> bool" where
  "parses_l c \<longleftrightarrow> (\<forall>rest. stops '')'' rest \<longrightarrow> (\<exists>n c'. texts c' = c \<and> parseline n (show_cmd c @ rest) = Parsed c' rest))"

lemma fuel_mono:
  "parseline n s = Parsed c s' \<Longrightarrow> n \<le> m \<Longrightarrow> parseline m s = Parsed c s'"
  "parsepipe n s = Parsed c s' \<Longrightarrow> n \<le> m \<Longrightarrow> parsepipe m s = Parsed c s'"
  "parseexec n s = Parsed c s' \<Longrightarrow> n \<le> m \<Longrightarrow> parseexec m s = Parsed c s'"
proof -
  have "parseline n s = Parsed c s' \<Longrightarrow> parseline (n + k) s = Parsed c s'" for k by (induction k) (use fuel_more in auto)
  then show "parseline n s = Parsed c s' \<Longrightarrow> n \<le> m \<Longrightarrow> parseline m s = Parsed c s'" by (metis le_iff_add)
  have "parsepipe n s = Parsed c s' \<Longrightarrow> parsepipe (n + k) s = Parsed c s'" for k by (induction k) (use fuel_more in auto)
  then show "parsepipe n s = Parsed c s' \<Longrightarrow> n \<le> m \<Longrightarrow> parsepipe m s = Parsed c s'" by (metis le_iff_add)
  have "parseexec n s = Parsed c s' \<Longrightarrow> parseexec (n + k) s = Parsed c s'" for k by (induction k) (use fuel_more in auto)
  then show "parseexec n s = Parsed c s' \<Longrightarrow> n \<le> m \<Longrightarrow> parseexec m s = Parsed c s'" by (metis le_iff_add)
qed

lemma redir_line_nospace: "nospace (redir_line f m @ s)"
  by (simp add: redir_line_def redir_op_def)

lemma forms_nospace:
  "ok_cmd c \<Longrightarrow> nospace rest \<Longrightarrow> nospace (form_e c @ rest) \<and> nospace (form_p c @ rest) \<and> nospace (form_b c @ rest) \<and> nospace (show_cmd c @ rest)"
  by (induction c arbitrary: rest) (auto simp: Let_def words_line_nospace redir_line_nospace show_cmd_def)

lemma e_then_p:
  assumes "parses_e c" and "form_p c = form_e c"
  shows "parses_p c"
  unfolding parses_p_def
proof (intro allI impI)
  fix rest
  assume st: "stops '')&;'' rest"
  then have "stops ''<>|)&;'' rest" "stops ''|)&;'' rest" by (auto simp: stops_def)
  then obtain n c' where "texts c' = c" "parseexec n (form_e c @ rest) = Parsed c' rest"
    using assms(1) after_operand_stop unfolding parses_e_def by metis
  moreover have "peek rest ''|'' = (False, rest)" using st stops_nospace [OF st] by (cases rest) (auto simp: peek_nospace)
  ultimately show "\<exists>n c'. texts c' = c \<and> parsepipe n (form_p c @ rest) = Parsed c' rest"
    using assms(2) by (intro exI [of _ "Suc n"] exI [of _ c']) (simp add: parsepipe.simps)
qed

lemma p_then_b: "parses_p c \<Longrightarrow> form_b c = form_p c \<Longrightarrow> parses_b c"
  unfolding parses_p_def parses_b_def by metis

lemma b_then_l:
  assumes "parses_b c" and "show_cmd c = form_b c"
  shows "parses_l c"
  unfolding parses_l_def
proof (intro allI impI)
  fix rest
  assume st: "stops '')'' rest"
  then have "stops '')&;'' rest" by (auto simp: stops_def)
  then obtain n c0 s0 c' where r: "texts c' = c" "parsepipe n (form_b c @ rest) = Parsed c0 s0" "backs c0 s0 = backs c' rest"
    using assms(1) unfolding parses_b_def by metis
  have "peek rest ''&'' = (False, rest)" "peek rest '';'' = (False, rest)" using st stops_nospace [OF st] by (cases rest; auto simp: peek_nospace)+
  moreover from this have "backs c' rest = (c', rest)" by (subst backs.simps) simp
  ultimately show "\<exists>n c'. texts c' = c \<and> parseline n (show_cmd c @ rest) = Parsed c' rest"
    using r assms(2) by (intro exI [of _ "Suc n"] exI [of _ c']) (simp add: parseline.simps)
qed

lemma l_then_e:
  assumes "parses_l c" and "form_e c = ''('' @ show_cmd c @ '')''" and "argc_of c = None" and "ok_cmd c"
  shows "parses_e c"
  unfolding parses_e_def
proof (intro allI impI)
  fix rest
  assume st: "stops ''<>|)&;'' rest"
  have "stops '')'' (CHR '')'' # rest)" by simp
  then obtain n c' where r: "texts c' = c" "parseline n (show_cmd c @ CHR '')'' # rest) = Parsed c' (CHR '')'' # rest)"
    using assms(1) unfolding parses_l_def by metis
  have "nospace (show_cmd c @ CHR '')'' # rest)" using forms_nospace [OF assms(4), of "CHR '')'' # rest"] by simp
  moreover have "nospace rest" using stops_nospace [OF st] by simp
  ultimately have "parseexec (Suc (Suc n)) (form_e c @ rest) = parseredirs c' rest"
    using r(2) assms(2) by (simp add: parseexec.simps parseblock.simps peek_nospace gettoken_symbol)
  then show "\<exists>n c'. texts c' = c \<and> parseexec n (form_e c @ rest) = after_operand (argc_of c) c' rest"
    using r(1) assms(3) by (intro exI [of _ "Suc (Suc n)"] exI [of _ c']) (simp add: after_operand_def)
qed

lemma fold_add_arg: "fold add_arg ws (EXEC us) = EXEC (us @ ws)"
  by (induction ws arbitrary: us) auto

lemma exec_parses: "ok_cmd (EXEC ws) \<Longrightarrow> parses_e (EXEC ws)"
  unfolding parses_e_def
proof (intro allI impI)
  fix rest
  assume ok: "ok_cmd (EXEC ws)" and st: "stops ''<>|)&;'' rest"
  have ns: "nospace rest" using stops_nospace [OF st] by simp
  obtain c' where c': "texts c' = EXEC ws" "after_operand (Some 0) (EXEC []) (words_line ws @ rest) = after_operand (Some (length ws)) c' rest"
    using arguments_read [of ws 0 rest "EXEC []"] ok ns by (auto simp: fold_add_arg)
  have "peek (words_line ws @ rest) ''('' = (False, words_line ws @ rest)"
  proof (cases ws)
    case Nil
    then show ?thesis using st ns by (cases rest) (auto simp: words_line_def peek_nospace)
  next
    case (Cons w ws')
    then show ?thesis using ok peek_word(3) [of w] by (simp add: words_line_def)
  qed
  then have "parseexec 1 (words_line ws @ rest) = after_operand (Some 0) (EXEC []) (words_line ws @ rest)"
    by (simp add: parseexec.simps after_operand_def)
  with c' show "\<exists>n c'. texts c' = EXEC ws \<and> parseexec n (form_e (EXEC ws) @ rest) = after_operand (argc_of (EXEC ws)) c' rest"
    by (intro exI [of _ 1] exI [of _ c']) (simp add: Let_def)
qed

lemma redir_parses:
  assumes "parses_e c" and "ok_cmd (REDIR c f m fd)"
  shows "parses_e (REDIR c f m fd)"
  unfolding parses_e_def
proof (intro allI impI)
  fix rest
  assume st: "stops ''<>|)&;'' rest"
  have "stops ''<>|)&;'' (redir_line f m @ rest)" by (simp add: redir_line_def redir_op_def stops_def)
  then obtain n c' where r: "texts c' = c" "parseexec n (form_e c @ redir_line f m @ rest) = after_operand (argc_of c) c' (redir_line f m @ rest)"
    using assms(1) unfolding parses_e_def by metis
  obtain p where p: "word_text p = f" "parseredirs c' (redir_line f m @ rest) = parseredirs (REDIR c' p m fd) rest"
    using parseredirs_one [of f m fd rest c'] assms(2) stops_nospace [OF st] by (auto simp: MAXARGS_def)
  show "\<exists>n c'. texts c' = REDIR c f m fd \<and>
      parseexec n (form_e (REDIR c f m fd) @ rest) = after_operand (argc_of (REDIR c f m fd)) c' rest"
    using r p by (intro exI [of _ n] exI [of _ "REDIR c' p m fd"]) (auto simp: Let_def after_operand_def split: option.split)
qed

lemma pipe_parses:
  assumes "parses_e l" and "parses_p r" and "ok_cmd r"
  shows "parses_p (PIPE l r)"
  unfolding parses_p_def
proof (intro allI impI)
  fix rest
  assume st: "stops '')&;'' rest"
  let ?s = "CHR ''|'' # form_p r @ rest"
  have "stops ''<>|)&;'' ?s" "stops ''|)&;'' ?s" by simp_all
  then obtain n l' where l: "texts l' = l" "parseexec n (form_e l @ ?s) = Parsed l' ?s"
    using assms(1) after_operand_stop unfolding parses_e_def by metis
  obtain k r' where r: "texts r' = r" "parsepipe k (form_p r @ rest) = Parsed r' rest"
    using assms(2) st unfolding parses_p_def by blast
  have ns: "nospace (form_p r @ rest)" using forms_nospace [OF assms(3)] stops_nospace [OF st] by simp
  have "parsepipe (Suc (max n k)) (form_p (PIPE l r) @ rest) = Parsed (PIPE l' r') rest"
    using fuel_mono(3) [OF l(2), of "max n k"] fuel_mono(2) [OF r(2), of "max n k"] ns
    by (simp add: parsepipe.simps Let_def peek_nospace gettoken_symbol)
  then show "\<exists>n c'. texts c' = PIPE l r \<and> parsepipe n (form_p (PIPE l r) @ rest) = Parsed c' rest"
    using l(1) r(1) by (intro exI [of _ "Suc (max n k)"] exI [of _ "PIPE l' r'"]) simp
qed

lemma back_parses:
  assumes "parses_b c"
  shows "parses_b (BACK c)"
  unfolding parses_b_def
proof (intro allI impI)
  fix rest
  assume st: "stops '')&;'' rest"
  have "stops '')&;'' (CHR ''&'' # rest)" by simp
  then obtain n c0 s0 c' where r: "texts c' = c" "parsepipe n (form_b c @ CHR ''&'' # rest) = Parsed c0 s0" "backs c0 s0 = backs c' (CHR ''&'' # rest)"
    using assms unfolding parses_b_def by metis
  have "backs c' (CHR ''&'' # rest) = backs (BACK c') rest"
    using stops_nospace [OF st] by (subst backs.simps) (simp add: peek_nospace gettoken_symbol)
  then show "\<exists>n c0 s0 c'. texts c' = BACK c \<and> parsepipe n (form_b (BACK c) @ rest) = Parsed c0 s0 \<and> backs c0 s0 = backs c' rest"
    using r by (intro exI [of _ n] exI [of _ c0] exI [of _ s0] exI [of _ "BACK c'"]) (simp add: Let_def)
qed

lemma list_parses:
  assumes "parses_b l" and "parses_l r" and "ok_cmd r"
  shows "parses_l (LIST l r)"
  unfolding parses_l_def
proof (intro allI impI)
  fix rest
  assume st: "stops '')'' rest"
  let ?s = "CHR '';'' # show_cmd r @ rest"
  have "stops '')&;'' ?s" by simp
  then obtain n c0 s0 l' where l: "texts l' = l" "parsepipe n (form_b l @ ?s) = Parsed c0 s0" "backs c0 s0 = backs l' ?s"
    using assms(1) unfolding parses_b_def by metis
  obtain k r' where r: "texts r' = r" "parseline k (show_cmd r @ rest) = Parsed r' rest"
    using assms(2) st unfolding parses_l_def by blast
  have ns: "nospace (show_cmd r @ rest)" using forms_nospace [OF assms(3)] stops_nospace [OF st] by simp
  have "backs l' ?s = (l', ?s)" by (subst backs.simps) (simp add: peek_nospace)
  then have "parseline (Suc (max n k)) (show_cmd (LIST l r) @ rest) = Parsed (LIST l' r') rest"
    using fuel_mono(2) [OF l(2), of "max n k"] fuel_mono(1) [OF r(2), of "max n k"] ns l(3)
    by (simp add: parseline.simps Let_def peek_nospace gettoken_symbol show_cmd_def)
  then show "\<exists>n c'. texts c' = LIST l r \<and> parseline n (show_cmd (LIST l r) @ rest) = Parsed c' rest"
    using l(1) r(1) by (intro exI [of _ "Suc (max n k)"] exI [of _ "LIST l' r'"]) simp
qed

lemma forms_parse: "ok_cmd c \<Longrightarrow> parses_e c \<and> parses_p c \<and> parses_b c \<and> parses_l c"
proof (induction c)
  case (EXEC ws)
  note e = exec_parses [OF EXEC]
  note p = e_then_p [OF e] p_then_b b_then_l
  then show ?case using e by (simp add: Let_def show_cmd_def)
next
  case (REDIR c f m fd)
  then have e: "parses_e (REDIR c f m fd)" using redir_parses by simp
  note p = e_then_p [OF e] p_then_b b_then_l
  then show ?case using e by (simp add: Let_def show_cmd_def)
next
  case (PIPE l r)
  then have p: "parses_p (PIPE l r)" using pipe_parses by simp
  then have b: "parses_b (PIPE l r)" by (rule p_then_b) (simp add: Let_def)
  then have l: "parses_l (PIPE l r)" by (rule b_then_l) (simp add: Let_def show_cmd_def)
  then have "parses_e (PIPE l r)" by (rule l_then_e) (use PIPE.prems in \<open>simp_all add: Let_def show_cmd_def\<close>)
  then show ?case using p b l by blast
next
  case (LIST l r)
  then have l: "parses_l (LIST l r)" using list_parses by simp
  then have e: "parses_e (LIST l r)" by (rule l_then_e) (use LIST.prems in \<open>simp_all add: Let_def show_cmd_def\<close>)
  then have p: "parses_p (LIST l r)" by (rule e_then_p) (simp add: Let_def)
  then have "parses_b (LIST l r)" by (rule p_then_b) (simp add: Let_def)
  then show ?case using e p l by blast
next
  case (BACK c)
  then have b: "parses_b (BACK c)" using back_parses by simp
  then have l: "parses_l (BACK c)" by (rule b_then_l) (simp add: Let_def show_cmd_def)
  then have e: "parses_e (BACK c)" by (rule l_then_e) (use BACK.prems in \<open>simp_all add: Let_def show_cmd_def\<close>)
  then have "parses_p (BACK c)" by (rule e_then_p) (simp add: Let_def)
  then show ?case using b l e by blast
qed

lemma error_mono: "parseline n s = Syntax e \<Longrightarrow> parseline (n + k) s = Syntax e"
  by (induction k) (use fuel_more_error in auto)

lemma enough_fuel:
  assumes "parseline n s = Parsed c s'"
  shows "parseline (4 * length s + 4) s = Parsed c s'"
proof (cases "n \<le> 4 * length s + 4")
  case True
  then show ?thesis using fuel_mono(1) [OF assms] by simp
next
  case False
  let ?f = "4 * length s + 4"
  obtain k where k: "n = ?f + k" using False by (metis le_iff_add nle_le)
  have err: "parseline ?f s \<noteq> Syntax e" for e using error_mono [of ?f s e k] assms unfolding k by auto
  have "parseline ?f s \<noteq> NoFuel" using parse_has_fuel [of ?f] by blast
  with err obtain d s2 where d: "parseline ?f s = Parsed d s2" by (cases "parseline ?f s") auto
  then show ?thesis using fuel_mono(1) [OF d, of n] assms False by simp
qed

lemma parse_show:
  assumes "ok_cmd c"
  shows "\<exists>c'. parsecmd (show_cmd c) = Parsed c' [] \<and> map_cmd word_text c' = c"
proof -
  have "stops '')'' []" by simp
  then obtain n c' where "texts c' = c" "parseline n (show_cmd c @ []) = Parsed c' []"
    using forms_parse [OF assms] unfolding parses_l_def by blast
  then show ?thesis using enough_fuel [of n "show_cmd c" c' "[]"] by (simp add: parsecmd_def peek_def Let_def skip_def)
qed

text \<open>
  C17: printing and parsing.  For every command whose words are non-empty and free of blanks and shell symbols, whose commands have fewer than ten
  arguments and whose redirections are of the three kinds the shell knows, parsing the printed command gives it back: nesting of pipes, lists,
  background jobs, blocks and redirections included.
\<close>

theorem parse_show_roundtrip:
  assumes "ok_cmd c"
  shows "\<exists>c'. parsecmd (show_cmd c) = Parsed c' [] \<and> map_cmd word_text c' = c"
  using assms by (rule parse_show)

theorem parse_show_roundtrip_witness:
  "\<exists>c'. parsecmd (show_cmd (LIST (BACK (PIPE (EXEC [''cat'']) (REDIR (EXEC [''wc'', ''-l'']) ''out'' (O_WRONLY OR O_CREATE) 1))) (EXEC [''ls'']))) = Parsed c' [] \<and>
     map_cmd word_text c' = LIST (BACK (PIPE (EXEC [''cat'']) (REDIR (EXEC [''wc'', ''-l'']) ''out'' (O_WRONLY OR O_CREATE) 1))) (EXEC [''ls''])"
  by (rule parse_show_roundtrip) (simp add: ok_word_def is_space_def is_symbol_def whitespace_def symbols_def MAXARGS_def)

section \<open>The words of a parsed command\<close>

definition plain :: "char \<Rightarrow> bool" where
  "plain c \<longleftrightarrow> \<not> is_space c \<and> \<not> is_symbol c"

definition wf_word :: "string \<Rightarrow> ptrs \<Rightarrow> bool" where
  "wf_word s p \<longleftrightarrow> (\<exists>pre w e. p = (w @ e, e) \<and> s = pre @ w @ e \<and> (\<forall>c\<in>set w. plain c) \<and> (e = [] \<or> \<not> plain (hd e)))"

lemma suffix_skip: "suffix (skip s) s"
  by (simp add: skip_def suffix_dropWhile)

lemma gettoken_suffix:
  assumes "gettoken s1 = (tok, q, e, s2)"
  shows "suffix s2 s1" "tok = CHR ''a'' \<Longrightarrow> suffix s1 s \<Longrightarrow> wf_word s (q, e)"
proof -
  have tls: "suffix (tl x) x" for x :: string by (cases x) (auto simp: suffix_def)
  have "suffix e (skip s1)" "q = skip s1"
    using assms tls [of "skip s1"] suffix_order.trans [OF tls [of "tl (skip s1)"] tls [of "skip s1"]]
    by (auto simp: gettoken_def Let_def suffix_dropWhile split: if_splits)
  moreover have "s2 = skip e" using assms by (auto simp: gettoken_def Let_def split: if_splits)
  ultimately show "suffix s2 s1" using suffix_skip suffix_order.trans by metis
  assume a: "tok = CHR ''a''" "suffix s1 s"
  let ?P = "\<lambda>c. \<not> is_space c \<and> \<not> is_symbol c"
  have e: "e = dropWhile ?P (skip s1)" "q = skip s1" using assms a(1) by (auto simp: gettoken_def Let_def split: if_splits)
  obtain pre where s: "s = pre @ skip s1" using suffix_order.trans [OF suffix_skip a(2)] by (auto simp: suffix_def)
  have "skip s1 = takeWhile ?P (skip s1) @ e" using e(1) by simp
  moreover have "\<forall>c\<in>set (takeWhile ?P (skip s1)). plain c" by (auto simp: plain_def dest: set_takeWhileD)
  moreover have "e = [] \<or> \<not> plain (hd e)" using hd_dropWhile [of ?P "skip s1"] unfolding e(1) plain_def by blast
  ultimately show "wf_word s (q, e)" using e(2) s unfolding wf_word_def
    by (intro exI [of _ pre] exI [of _ "takeWhile ?P (skip s1)"] exI [of _ e]) simp
qed

lemma peek_suffix: "peek s toks = (b, s1) \<Longrightarrow> suffix s1 s"
  using suffix_skip by (auto simp: peek_def Let_def)

lemma parseredirs_words:
  "parseredirs c s1 = Parsed c' s2 \<Longrightarrow> suffix s1 s \<Longrightarrow> set_cmd c \<subseteq> Collect (wf_word s) \<Longrightarrow>
   set_cmd c' \<subseteq> Collect (wf_word s) \<and> suffix s2 s"
proof (induction c s1 rule: parseredirs.induct)
  case (1 c s1)
  obtain b s3 where p: "peek s1 ''<>'' = (b, s3)" by fastforce
  have s3: "suffix s3 s" using peek_suffix [OF p] "1.prems"(2) suffix_order.trans by blast
  show ?case
  proof (cases b)
    case False
    then show ?thesis using "1.prems" p s3 by (subst (asm) parseredirs.simps) simp
  next
    case True
    obtain tok r1 r2 s4 where g: "gettoken s3 = (tok, r1, r2, s4)" by (metis prod_cases4)
    obtain t q e s5 where g2: "gettoken s4 = (t, q, e, s5)" by (metis prod_cases4)
    have t: "t = CHR ''a''" "parseredirs (redircmd tok c (q, e)) s5 = Parsed c' s2"
      using "1.prems" p g g2 True by (auto simp: parseredirs.simps [of c s1] split: if_splits)
    have s4: "suffix s4 s" and s5: "suffix s5 s"
      using gettoken_suffix(1) [OF g] gettoken_suffix(1) [OF g2] s3 suffix_order.trans by blast+
    have "set_cmd (redircmd tok c (q, e)) \<subseteq> Collect (wf_word s)"
      using "1.prems"(3) gettoken_suffix(2) [OF g2 t(1) s4] by (auto simp: redircmd_def)
    then show ?thesis using "1.IH" [OF p [symmetric] _ g [symmetric] _ _ g2 [symmetric]] True t s5 by simp
  qed
qed

lemma set_add_arg: "set_cmd (add_arg w c) \<subseteq> insert w (set_cmd c)"
  by (induction c) auto

lemma exec_loop_words:
  "exec_loop n c s1 = Parsed c' s2 \<Longrightarrow> suffix s1 s \<Longrightarrow> set_cmd c \<subseteq> Collect (wf_word s) \<Longrightarrow>
   set_cmd c' \<subseteq> Collect (wf_word s) \<and> suffix s2 s"
proof (induction n c s1 rule: exec_loop.induct)
  case (1 argc ret s1)
  obtain b s3 where p: "peek s1 ''|)&;'' = (b, s3)" by fastforce
  obtain tok q e s4 where g: "gettoken s3 = (tok, q, e, s4)" by (metis prod_cases4)
  have s3: "suffix s3 s" using peek_suffix [OF p] "1.prems"(2) suffix_order.trans by blast
  have s4: "suffix s4 s" using gettoken_suffix(1) [OF g] s3 suffix_order.trans by blast
  from "1.prems"(1) p g consider "s2 = s3" "c' = ret" | "s2 = s4" "c' = ret"
    | r s5 where "\<not> b" "tok = CHR ''a''" "\<not> argc + 1 \<ge> MAXARGS" "parseredirs (add_arg (q, e) ret) s4 = Parsed r s5" "exec_loop (argc + 1) r s5 = Parsed c' s2"
    by (subst (asm) exec_loop.simps) (auto simp: pbind_Parsed split: if_splits)
  then show ?case
  proof cases
    case 3
    have "set_cmd (add_arg (q, e) ret) \<subseteq> Collect (wf_word s)"
      using set_add_arg [of "(q, e)" ret] gettoken_suffix(2) [OF g 3(2) s3] "1.prems"(3) by auto
    then have "set_cmd r \<subseteq> Collect (wf_word s)" "suffix s5 s" using parseredirs_words [OF 3(4) s4] by auto
    then show ?thesis using "1.IH" [OF p [symmetric] _ g [symmetric]] 3 by simp
  qed (use s3 s4 "1.prems"(3) in auto)
qed

lemma backs_words: "backs c s1 = (c', s2) \<Longrightarrow> suffix s1 s \<Longrightarrow> set_cmd c' = set_cmd c \<and> suffix s2 s"
proof (induction c s1 rule: backs.induct)
  case (1 c s1)
  obtain b s3 where p: "peek s1 ''&'' = (b, s3)" by fastforce
  obtain tok q e s4 where g: "gettoken s3 = (tok, q, e, s4)" by (metis prod_cases4)
  have s3: "suffix s3 s" using peek_suffix [OF p] "1.prems"(2) suffix_order.trans by blast
  have s4: "suffix s4 s" using gettoken_suffix(1) [OF g] s3 suffix_order.trans by blast
  show ?case
  proof (cases b)
    case True
    then have "backs (BACK c) s4 = (c', s2)" using "1.prems" p g by (subst (asm) backs.simps) simp
    then show ?thesis using "1.IH" [OF p [symmetric] True g [symmetric]] s4 by simp
  next
    case False
    then show ?thesis using "1.prems" p s3 by (subst (asm) backs.simps) simp
  qed
qed

lemma token_suffixes:
  "suffix s1 s \<Longrightarrow> suffix (snd (peek s1 toks)) s" "suffix s1 s \<Longrightarrow> suffix (rest_of (gettoken s1)) s"
  "suffix s1 s \<Longrightarrow> suffix (snd (backs c s1)) s" "set_cmd (fst (backs c s1)) = set_cmd c"
  using peek_suffix [of s1 toks] gettoken_suffix(1) [of s1] backs_words [of c s1] suffix_order.trans suffix_order.refl
  by (metis prod.collapse)+

definition words_in :: "string \<Rightarrow> (nat \<Rightarrow> string \<Rightarrow> ptrs cmd parse) \<Rightarrow> nat \<Rightarrow> bool" where
  "words_in s f n \<longleftrightarrow> (\<forall>s1 c s2. f n s1 = Parsed c s2 \<longrightarrow> suffix s1 s \<longrightarrow> set_cmd c \<subseteq> Collect (wf_word s) \<and> suffix s2 s)"

lemma words_inD: "words_in s f n \<Longrightarrow> f n s1 = Parsed c s2 \<Longrightarrow> suffix s1 s \<Longrightarrow> set_cmd c \<subseteq> Collect (wf_word s) \<and> suffix s2 s"
  by (auto simp: words_in_def)

lemma parse_words: "words_in s parseline n \<and> words_in s parsepipe n \<and> words_in s parseexec n \<and> words_in s parseblock n"
proof (induction n)
  case 0
  then show ?case by (simp add: words_in_def parseline.simps parsepipe.simps parseexec.simps parseblock.simps)
next
  case (Suc n)
  then have l: "words_in s parseline n" and p: "words_in s parsepipe n" and e: "words_in s parseexec n" and b: "words_in s parseblock n" by auto
  have L: "words_in s parseline (Suc n)"
    unfolding words_in_def parseline.simps
    by (auto simp: pbind_Parsed case_prod_beta token_suffixes split: if_splits dest!: words_inD [OF p] words_inD [OF l] dest: subsetD)
  have P: "words_in s parsepipe (Suc n)"
    unfolding words_in_def parsepipe.simps
    by (auto simp: pbind_Parsed case_prod_beta token_suffixes split: if_splits dest!: words_inD [OF e] words_inD [OF p] dest: subsetD)
  have B: "words_in s parseblock (Suc n)"
    unfolding words_in_def parseblock.simps
    by (auto simp: pbind_Parsed case_prod_beta token_suffixes split: if_splits dest!: words_inD [OF l] parseredirs_words [where s = s] dest: subsetD)
  have E: "words_in s parseexec (Suc n)"
    unfolding words_in_def parseexec.simps
    by (auto simp: pbind_Parsed case_prod_beta token_suffixes split: if_splits dest!: words_inD [OF b] parseredirs_words [where s = s] exec_loop_words [where s = s] dest: subsetD)
  from L P B E show ?case by blast
qed

lemma nulterminate_length [simp]: "length (nulterminate s c buf) = length buf"
proof (induction s c buf rule: nulterminate.induct)
  case (1 s ws buf)
  show ?case by (induction ws arbitrary: buf) auto
qed auto

lemma nulterminate_nth:
  "i < length buf \<Longrightarrow> nulterminate s c buf ! i = (if \<exists>p\<in>set_cmd c. i = length s - length (snd p) then NUL else buf ! i)"
proof (induction s c buf rule: nulterminate.induct)
  case (1 s ws buf)
  then show ?case
  proof (induction ws arbitrary: buf)
    case (Cons p ws)
    then show ?case using Cons.IH [of "buf[length s - length (snd p) := NUL]"] by (auto simp: nth_list_update case_prod_beta)
  qed simp
next
  case (2 s c q e m fd buf)
  then show ?case by (cases "i = length s - length e") (simp_all add: bex_Un)
qed (simp_all add: bex_Un disj_commute)

lemma words_cut:
  assumes "parsecmd s = Parsed c s'" and "NUL \<notin> set s" and "p \<in> set_cmd c"
  shows "cstr (drop (length s - length (fst p)) (nulterminate s c (s @ [NUL]))) = word_text p"
proof -
  obtain n s1 where "parseline n s = Parsed c s1" using assms(1) by (auto simp: parsecmd_def pbind_Parsed case_prod_beta split: if_splits)
  then have wf: "set_cmd c \<subseteq> Collect (wf_word s)" using words_inD [OF parse_words [THEN conjunct1], of n s c s1 s] by auto
  then have "wf_word s p" using assms(3) by blast
  then obtain pre w e where p: "p = (w @ e, e)" "s = pre @ w @ e" "\<forall>c\<in>set w. plain c" unfolding wf_word_def by blast
  let ?b = "nulterminate s c (s @ [NUL])"
  have ch: "?b ! (length pre + i) = w ! i" if "i < length w" for i
  proof -
    have "length pre + i \<noteq> length s - length (snd p')" if p': "p' \<in> set_cmd c" for p'
    proof
      assume eq: "length pre + i = length s - length (snd p')"
      have "wf_word s p'" using wf p' by blast
      then obtain pre' w' e' where q: "p' = (w' @ e', e')" "s = pre' @ w' @ e'" "e' = [] \<or> \<not> plain (hd e')" unfolding wf_word_def by blast
      have len: "length (pre' @ w') = length pre + i" using eq q by simp
      have "length pre + i < length s" using p(2) \<open>i < length w\<close> by simp
      then have "e' \<noteq> []" using len q(2) by auto
      then have "s ! (length pre + i) = hd e'" using len q(2) by (metis append.assoc hd_conv_nth nth_append_length_plus add.right_neutral)
      moreover have "s ! (length pre + i) = w ! i" using p(2) \<open>i < length w\<close> by (simp add: nth_append)
      ultimately show False using q(3) \<open>e' \<noteq> []\<close> p(3) \<open>i < length w\<close> by (metis nth_mem)
    qed
    then show ?thesis using that p(2) nulterminate_nth [of "length pre + i" "s @ [NUL]" s c] by (auto simp: nth_append)
  qed
  have z: "?b ! (length pre + length w) = NUL"
    using p assms(3) nulterminate_nth [of "length pre + length w" "s @ [NUL]" s c] by (auto intro!: bexI [of _ p])
  have "length ?b = length pre + length w + 1 + length e" using p(2) by simp
  then have "drop (length pre) ?b = w @ NUL # drop (length pre + length w + 1) ?b"
    using ch z by (intro nth_equalityI) (auto simp: nth_append nth_Cons' ac_simps)
  moreover have "NUL \<notin> set w" using assms(2) p(2) by simp
  moreover have "cstr (w @ NUL # v) = w" if "NUL \<notin> set w" for v using that by (induction w) auto
  ultimately have "cstr (drop (length pre) ?b) = w" by simp
  then show ?thesis using p by (simp add: word_text_def)
qed

text \<open>
  C18: words become strings.  When a line is parsed, the zeros that \<^verbatim>\<open>nulterminate\<close> writes into it make every word of the command, argument or
  file name, a C string of its own: read from the pointer \<^verbatim>\<open>q\<close> up to the next zero, the changed line gives exactly the characters from \<^verbatim>\<open>q\<close> to
  \<^verbatim>\<open>eq\<close> of the line as it was typed.  No zero meant for one word cuts another.
\<close>

theorem nulterminate_cuts_words:
  assumes "parsecmd s = Parsed c s'" and "NUL \<notin> set s" and "p \<in> set_cmd c"
  shows "cstr (drop (length s - length (fst p)) (nulterminate s c (s @ [NUL]))) = word_text p"
  using assms by (rule words_cut)

theorem nulterminate_cuts_words_witness:
  "cstr (drop 5 (nulterminate ''echo hi>out'' (REDIR (EXEC [(''echo hi>out'', '' hi>out''), (''hi>out'', ''>out'')]) (''out'', []) (O_WRONLY OR O_CREATE OR O_TRUNC) 1)
     (''echo hi>out'' @ [NUL]))) = ''hi''"
proof -
  let ?c = "REDIR (EXEC [(''echo hi>out'', '' hi>out''), (''hi>out'', ''>out'')]) (''out'', []) (O_WRONLY OR O_CREATE OR O_TRUNC) 1"
  have "parsecmd ''echo hi>out'' = Parsed ?c []" by code_simp
  from nulterminate_cuts_words [OF this, of "(''hi>out'', ''>out'')"] show ?thesis by (simp add: word_text_def)
qed

definition messages :: "string set" where
  "messages = {''missing file for redirection'', ''syntax'', ''too many args'', ''syntax - missing )''}"

lemma loop_errors: "parseredirs c s = Syntax e \<Longrightarrow> e \<in> messages" "exec_loop n c s = Syntax e \<Longrightarrow> e \<in> messages"
proof -
  have r: "parseredirs c s = Syntax e \<Longrightarrow> e \<in> messages" for c s
  proof (induction c s rule: parseredirs.induct)
    case (1 c s)
    obtain b s1 where p: "peek s ''<>'' = (b, s1)" by fastforce
    obtain tok r1 r2 s2 where g: "gettoken s1 = (tok, r1, r2, s2)" by (metis prod_cases4)
    obtain t q e' s3 where g2: "gettoken s2 = (t, q, e', s3)" by (metis prod_cases4)
    from "1.prems" p g g2 consider "e = ''missing file for redirection''" | "b" "t = CHR ''a''" "parseredirs (redircmd tok c (q, e')) s3 = Syntax e"
      by (auto simp: parseredirs.simps [of c s] split: if_splits)
    then show ?case
      using "1.IH" [OF p [symmetric] _ g [symmetric] _ _ g2 [symmetric]] by cases (simp_all add: messages_def)
  qed
  show "parseredirs c s = Syntax e \<Longrightarrow> e \<in> messages" by (rule r)
  show "exec_loop n c s = Syntax e \<Longrightarrow> e \<in> messages"
  proof (induction n c s rule: exec_loop.induct)
    case (1 argc ret s)
    obtain b s1 where p: "peek s ''|)&;'' = (b, s1)" by fastforce
    obtain tok q e' s2 where g: "gettoken s1 = (tok, q, e', s2)" by (metis prod_cases4)
    show ?case
    proof (cases "b \<or> tok = NUL \<or> tok \<noteq> CHR ''a'' \<or> argc + 1 \<ge> MAXARGS")
      case True
      then show ?thesis using "1.prems" p g by (auto simp: exec_loop.simps [of argc ret s] messages_def split: if_splits)
    next
      case False
      then have b: "\<not> b" "tok \<noteq> NUL" "\<not> tok \<noteq> CHR ''a''" "\<not> argc + 1 \<ge> MAXARGS" by simp_all
      then have "pbind (parseredirs (add_arg (q, e') ret) s2) (\<lambda>ret s. exec_loop (argc + 1) ret s) = Syntax e"
        using "1.prems" p g by (simp add: exec_loop.simps [of argc ret s])
      then consider "parseredirs (add_arg (q, e') ret) s2 = Syntax e"
        | r s3 where "parseredirs (add_arg (q, e') ret) s2 = Parsed r s3" "exec_loop (argc + 1) r s3 = Syntax e"
        unfolding pbind_Syntax by blast
      then show ?thesis using "1.IH" [OF p [symmetric] b(1) g [symmetric] refl refl b(2-4)] r by cases blast+
    qed
  qed
qed

lemma peek_peek: "peek (snd (peek s toks)) toks = peek s toks"
  by (simp add: peek_def Let_def)

lemma parse_errors:
  "(\<forall>s e. parseline n s = Syntax e \<longrightarrow> e \<in> messages) \<and> (\<forall>s e. parsepipe n s = Syntax e \<longrightarrow> e \<in> messages) \<and>
   (\<forall>s e. parseexec n s = Syntax e \<longrightarrow> e \<in> messages) \<and> (\<forall>s e. fst (peek s ''('') \<longrightarrow> parseblock n s = Syntax e \<longrightarrow> e \<in> messages)"
proof (induction n)
  case (Suc n)
  then have IH: "\<And>s e. parseline n s = Syntax e \<Longrightarrow> e \<in> messages" "\<And>s e. parsepipe n s = Syntax e \<Longrightarrow> e \<in> messages"
    "\<And>s e. parseexec n s = Syntax e \<Longrightarrow> e \<in> messages" "\<And>s e. fst (peek s ''('') \<Longrightarrow> parseblock n s = Syntax e \<Longrightarrow> e \<in> messages" by blast+
  have "e \<in> messages" if "parseline (Suc n) s = Syntax e" for s e
    using that IH unfolding parseline.simps(2) by (auto simp: pbind_Syntax case_prod_beta split: if_splits)
  moreover have "e \<in> messages" if "parsepipe (Suc n) s = Syntax e" for s e
    using that IH unfolding parsepipe.simps(2) by (auto simp: pbind_Syntax case_prod_beta split: if_splits)
  moreover have "e \<in> messages" if "parseexec (Suc n) s = Syntax e" for s e
    using that IH(4) [of "snd (peek s ''('')"] loop_errors unfolding parseexec.simps(2)
    by (auto simp: pbind_Syntax case_prod_beta peek_peek split: if_splits)
  moreover have "e \<in> messages" if "fst (peek s ''('')" "parseblock (Suc n) s = Syntax e" for s e
    using that IH(1) loop_errors(1) unfolding parseblock.simps(2)
    by (auto simp: pbind_Syntax case_prod_beta messages_def [symmetric] split: if_splits) (simp_all add: messages_def)
  ultimately show ?case by blast
qed (simp add: parseline.simps parsepipe.simps parseexec.simps parseblock.simps)

text \<open>
  C16: the parser always answers.  On every line, however malformed, the parser comes to an end, either with a command and the whole line used up or
  with one of four complaints or with the part of the line that is left over; the message \<^verbatim>\<open>parseblock\<close> of the source cannot occur.
\<close>

theorem parsecmd_terminates:
  "(\<exists>c. parsecmd s = Parsed c []) \<or>
   (\<exists>e. parsecmd s = Syntax e \<and> e \<in> {''missing file for redirection'', ''syntax'', ''too many args'', ''syntax - missing )''}) \<or>
   (\<exists>r. parsecmd s = Syntax (''leftovers: '' @ r @ [CHR 0x0A] @ ''syntax'') \<and> r \<noteq> [] \<and> suffix r s)"
proof (cases "parseline (4 * length s + 4) s")
  case (Parsed c s')
  then have "suffix (snd (peek s' [])) s"
    using words_inD [OF parse_words [THEN conjunct1] Parsed suffix_order.refl] token_suffixes(1) by blast
  then show ?thesis using Parsed by (simp add: parsecmd_def case_prod_beta)
next
  case (Syntax e)
  then have "e \<in> messages" using parse_errors by blast
  then show ?thesis using Syntax by (simp add: parsecmd_def messages_def)
next
  case NoFuel
  then show ?thesis using parse_has_fuel [of "4 * length s + 4"] by blast
qed

section \<open>Parsed commands are well formed\<close>

lemma no_NUL_suffix: "suffix s2 s1 \<Longrightarrow> NUL \<notin> set s1 \<Longrightarrow> NUL \<notin> set s2"
  by (auto simp: suffix_def)

lemma gettoken_ok:
  assumes "gettoken s1 = (CHR ''a'', q, e, s2)" and "NUL \<notin> set s1"
  shows "ok_word (word_text (q, e))"
proof -
  let ?P = "\<lambda>c. \<not> is_space c \<and> \<not> is_symbol c"
  have e: "e = dropWhile ?P (skip s1)" "q = skip s1" and c: "chd (skip s1) \<notin> set ''|();&<''" "chd (skip s1) \<noteq> CHR ''>''" "chd (skip s1) \<noteq> NUL"
    using assms(1) by (auto simp: gettoken_def Let_def split: if_splits)
  have no: "NUL \<notin> set (skip s1)" using no_NUL_suffix [OF suffix_skip assms(2)] .
  have "word_text (q, e) = take (length (skip s1) - length (dropWhile ?P (skip s1))) (takeWhile ?P (skip s1) @ dropWhile ?P (skip s1))"
    by (simp add: word_text_def e)
  moreover have "length (skip s1) = length (takeWhile ?P (skip s1)) + length (dropWhile ?P (skip s1))"
    by (metis length_append takeWhile_dropWhile_id)
  ultimately have "word_text (q, e) = takeWhile ?P (skip s1)" by (simp add: takeWhile_eq_take [symmetric])
  moreover have "takeWhile ?P (skip s1) \<noteq> []"
  proof -
    have "\<not> is_symbol (chd (skip s1))" using c by (auto simp: is_symbol_def symbols_def)
    moreover have "\<not> is_space (chd (skip s1))" using chd_skip [of s1] c(3) by auto
    ultimately show ?thesis using c(3) by (cases "skip s1") auto
  qed
  moreover have "\<forall>c\<in>set (takeWhile ?P (skip s1)). ?P c \<and> c \<noteq> NUL" using no set_takeWhileD [of _ ?P "skip s1"] by metis
  ultimately show ?thesis unfolding ok_word_def by metis
qed

lemma redircmd_ok:
  "ok_cmd (texts c) \<Longrightarrow> ok_word (word_text p) \<Longrightarrow> ok_cmd (texts (redircmd tok c p)) \<and> argc_of (redircmd tok c p) = argc_of c"
  by (simp add: redircmd_def)

lemma parseredirs_ok:
  "parseredirs c s1 = Parsed c' s2 \<Longrightarrow> NUL \<notin> set s1 \<Longrightarrow> ok_cmd (texts c) \<Longrightarrow>
   ok_cmd (texts c') \<and> argc_of c' = argc_of c \<and> NUL \<notin> set s2"
proof (induction c s1 rule: parseredirs.induct)
  case (1 c s1)
  obtain b s3 where p: "peek s1 ''<>'' = (b, s3)" by fastforce
  have s3: "NUL \<notin> set s3" using no_NUL_suffix [OF peek_suffix [OF p]] "1.prems"(2) .
  show ?case
  proof (cases b)
    case False
    then show ?thesis using "1.prems" p s3 by (subst (asm) parseredirs.simps) simp
  next
    case True
    obtain tok r1 r2 s4 where g: "gettoken s3 = (tok, r1, r2, s4)" by (metis prod_cases4)
    obtain t q e s5 where g2: "gettoken s4 = (t, q, e, s5)" by (metis prod_cases4)
    have t: "t = CHR ''a''" "parseredirs (redircmd tok c (q, e)) s5 = Parsed c' s2"
      using "1.prems" p g g2 True by (auto simp: parseredirs.simps [of c s1] split: if_splits)
    have s4: "NUL \<notin> set s4" using no_NUL_suffix [OF gettoken_suffix(1) [OF g] s3] .
    have s5: "NUL \<notin> set s5" using no_NUL_suffix [OF gettoken_suffix(1) [OF g2] s4] .
    note ok = redircmd_ok [OF "1.prems"(3) gettoken_ok [OF g2 [unfolded t(1)] s4], of tok]
    show ?thesis using "1.IH" [OF p [symmetric] _ g [symmetric] _ _ g2 [symmetric]] True t s5 ok by simp
  qed
qed

lemma add_arg_ok:
  "ok_cmd (texts c) \<Longrightarrow> ok_word (word_text p) \<Longrightarrow> argc_of c = Some n \<Longrightarrow> Suc n < MAXARGS \<Longrightarrow>
   ok_cmd (texts (add_arg p c)) \<and> argc_of (add_arg p c) = Some (Suc n)"
  by (induction c) auto

lemma exec_loop_ok:
  "exec_loop n c s1 = Parsed c' s2 \<Longrightarrow> NUL \<notin> set s1 \<Longrightarrow> ok_cmd (texts c) \<Longrightarrow> argc_of c = Some n \<Longrightarrow>
   ok_cmd (texts c') \<and> NUL \<notin> set s2"
proof (induction n c s1 rule: exec_loop.induct)
  case (1 argc ret s1)
  obtain b s3 where p: "peek s1 ''|)&;'' = (b, s3)" by fastforce
  obtain tok q e s4 where g: "gettoken s3 = (tok, q, e, s4)" by (metis prod_cases4)
  have s3: "NUL \<notin> set s3" using no_NUL_suffix [OF peek_suffix [OF p]] "1.prems"(2) .
  have s4: "NUL \<notin> set s4" using no_NUL_suffix [OF gettoken_suffix(1) [OF g] s3] .
  from "1.prems"(1) p g consider "s2 = s3" "c' = ret" | "s2 = s4" "c' = ret"
    | r s5 where "\<not> b" "tok = CHR ''a''" "\<not> argc + 1 \<ge> MAXARGS" "parseredirs (add_arg (q, e) ret) s4 = Parsed r s5" "exec_loop (argc + 1) r s5 = Parsed c' s2"
    by (subst (asm) exec_loop.simps) (auto simp: pbind_Parsed split: if_splits)
  then show ?case
  proof cases
    case 3
    have "ok_cmd (texts (add_arg (q, e) ret)) \<and> argc_of (add_arg (q, e) ret) = Some (Suc argc)"
      using add_arg_ok [OF "1.prems"(3) gettoken_ok [OF g [unfolded 3(2)] s3] "1.prems"(4)] 3(3) by simp
    then have "ok_cmd (texts r)" "argc_of r = Some (argc + 1)" "NUL \<notin> set s5" using parseredirs_ok [OF 3(4) s4] by auto
    then show ?thesis using "1.IH" [OF p [symmetric] _ g [symmetric]] 3 by simp
  qed (use s3 s4 "1.prems"(3) in auto)
qed

lemma backs_ok: "backs c s1 = (c', s2) \<Longrightarrow> ok_cmd (texts c) \<Longrightarrow> ok_cmd (texts c')"
proof (induction c s1 rule: backs.induct)
  case (1 c s1)
  obtain b s3 where p: "peek s1 ''&'' = (b, s3)" by fastforce
  obtain tok q e s4 where g: "gettoken s3 = (tok, q, e, s4)" by (metis prod_cases4)
  show ?case
  proof (cases b)
    case True
    then have "backs (BACK c) s4 = (c', s2)" using "1.prems" p g by (subst (asm) backs.simps) simp
    then show ?thesis using "1.IH" [OF p [symmetric] True g [symmetric]] "1.prems"(2) by simp
  next
    case False
    then show ?thesis using "1.prems" p by (subst (asm) backs.simps) simp
  qed
qed

lemma tokens_no_NUL:
  "NUL \<notin> set s1 \<Longrightarrow> NUL \<notin> set (snd (peek s1 toks))" "NUL \<notin> set s1 \<Longrightarrow> NUL \<notin> set (rest_of (gettoken s1))"
  "NUL \<notin> set s1 \<Longrightarrow> NUL \<notin> set (snd (backs c s1))"
  by (rule no_NUL_suffix [OF token_suffixes(1) [OF suffix_order.refl]] no_NUL_suffix [OF token_suffixes(2) [OF suffix_order.refl]]
      no_NUL_suffix [OF token_suffixes(3) [OF suffix_order.refl]]; assumption)+

lemma backs_fst_ok: "ok_cmd (texts c) \<Longrightarrow> ok_cmd (texts (fst (backs c s1)))"
  using backs_ok [of c s1] by (metis prod.collapse)

definition ok_in :: "(nat \<Rightarrow> string \<Rightarrow> ptrs cmd parse) \<Rightarrow> nat \<Rightarrow> bool" where
  "ok_in f n \<longleftrightarrow> (\<forall>s1 c s2. f n s1 = Parsed c s2 \<longrightarrow> NUL \<notin> set s1 \<longrightarrow> ok_cmd (texts c) \<and> NUL \<notin> set s2)"

lemma ok_inD: "ok_in f n \<Longrightarrow> f n s1 = Parsed c s2 \<Longrightarrow> NUL \<notin> set s1 \<Longrightarrow> ok_cmd (texts c) \<and> NUL \<notin> set s2"
  by (auto simp: ok_in_def)

lemma parse_ok: "ok_in parseline n \<and> ok_in parsepipe n \<and> ok_in parseexec n \<and> ok_in parseblock n"
proof (induction n)
  case 0
  then show ?case by (simp add: ok_in_def parseline.simps parsepipe.simps parseexec.simps parseblock.simps)
next
  case (Suc n)
  then have l: "ok_in parseline n" and p: "ok_in parsepipe n" and e: "ok_in parseexec n" and b: "ok_in parseblock n" by auto
  have L: "ok_in parseline (Suc n)"
    unfolding ok_in_def parseline.simps
    by (auto simp: pbind_Parsed case_prod_beta tokens_no_NUL backs_fst_ok split: if_splits dest!: ok_inD [OF p] ok_inD [OF l])
  have P: "ok_in parsepipe (Suc n)"
    unfolding ok_in_def parsepipe.simps
    by (auto simp: pbind_Parsed case_prod_beta tokens_no_NUL split: if_splits dest!: ok_inD [OF e] ok_inD [OF p])
  have B: "ok_in parseblock (Suc n)"
    unfolding ok_in_def parseblock.simps
    by (auto simp: pbind_Parsed case_prod_beta tokens_no_NUL split: if_splits dest!: ok_inD [OF l] parseredirs_ok)
  have empty: "ok_cmd (texts (EXEC []))" by (simp add: MAXARGS_def)
  have "ok_cmd (texts c) \<and> NUL \<notin> set s2"
    if "parseredirs (EXEC []) s1 = Parsed r s3" "exec_loop 0 r s3 = Parsed c s2" "NUL \<notin> set s1" for s1 s3 r c s2
    using parseredirs_ok [OF that(1,3) empty] exec_loop_ok [OF that(2)] by simp
  then have E: "ok_in parseexec (Suc n)"
    unfolding ok_in_def parseexec.simps
    by (auto simp: pbind_Parsed case_prod_beta tokens_no_NUL split: if_splits dest!: ok_inD [OF b])
  from L P B E show ?case by blast
qed

text \<open>
  C19: every parsed command is well formed.  A command that the parser accepts has at most nine words per program, so that the
  null after the last one is inside \<^verbatim>\<open>argv\<close>; each word and each file name is non-empty and free of blanks and symbols; and
  each redirection opens its file in one of the three known modes on the right descriptor.
\<close>

theorem parsed_commands_well_formed:
  assumes "parsecmd s = Parsed c s'" and "NUL \<notin> set s"
  shows "ok_cmd (map_cmd word_text c)"
proof -
  obtain s1 where "parseline (4 * length s + 4) s = Parsed c s1"
    using assms(1) by (auto simp: parsecmd_def pbind_Parsed case_prod_beta split: if_splits)
  then show ?thesis using ok_inD [OF parse_ok [THEN conjunct1]] assms(2) by blast
qed

theorem parsed_commands_well_formed_witness:
  "ok_cmd (map_cmd word_text (REDIR (EXEC [(''echo>f'', ''>f'')]) (''f'', '''') (O_WRONLY OR O_CREATE OR O_TRUNC) 1))"
proof (rule parsed_commands_well_formed)
  show "parsecmd ''echo>f'' = Parsed (REDIR (EXEC [(''echo>f'', ''>f'')]) (''f'', '''') (O_WRONLY OR O_CREATE OR O_TRUNC) 1) []"
    by code_simp
  show "NUL \<notin> set ''echo>f''" by simp
qed

end
