(* ===== verification/Shell.thy ===== *)
theory Shell
  imports Sh Lines
begin

text \<open>
  How the shell runs commands, \<^verbatim>\<open>runcmd\<close>, \<^verbatim>\<open>getcmd\<close> and \<^verbatim>\<open>main\<close> of \<^verbatim>\<open>user/sh.c\<close>.  A user program is the tree of its system calls:
  each node is a call, with the rest of the program for every result the call can have, and \<^verbatim>\<open>fork\<close> has the child and the parent.
  \<open>SRouter\<close> is the call of \<^verbatim>\<open>router_loop\<close> of \<^verbatim>\<open>user/init.c\<close>, and \<open>SMore\<close> is where a program that never ends is cut off.
\<close>

section \<open>Programs\<close>

datatype prog =
    SExit int
  | SFork prog "int \<Rightarrow> prog"
  | SWait "int \<Rightarrow> prog"
  | SExec string "string list" prog
  | SOpen string u32 "int \<Rightarrow> prog"
  | SClose int prog
  | SDup int "int \<Rightarrow> prog"
  | SPipe "(int \<times> int) option \<Rightarrow> prog"
  | SChdir string "int \<Rightarrow> prog"
  | SWrite int string prog
  | SMknod string int int prog
  | SRouter int int prog
  | SMore

definition sh_panic :: "string \<Rightarrow> prog" where
  "sh_panic s = SWrite 2 (s @ [Lines.NL]) (SExit 1)"

definition fork1 :: "prog \<Rightarrow> prog \<Rightarrow> prog" where
  "fork1 kid par = SFork kid (\<lambda>pid. if pid = -1 then sh_panic ''fork'' else par)"

text \<open>A command that has been parsed and terminated has its words as strings.  \<^verbatim>\<open>exec\<close> and \<^verbatim>\<open>runcmd\<close> do not return on success.\<close>

fun runcmd :: "string cmd \<Rightarrow> prog" where
  "runcmd (EXEC []) = SExit 1"
| "runcmd (EXEC (a # as)) = SExec a (a # as) (SWrite 2 (''exec '' @ a @ '' failed'' @ [Lines.NL]) (SExit 0))"
| "runcmd (REDIR c f m fd) =
     SClose fd (SOpen f m (\<lambda>r. if r < 0 then SWrite 2 (''open '' @ f @ '' failed'' @ [Lines.NL]) (SExit 1) else runcmd c))"
| "runcmd (LIST l r) = fork1 (runcmd l) (SWait (\<lambda>_. runcmd r))"
| "runcmd (PIPE l r) =
     SPipe (\<lambda>p. case p of
         None \<Rightarrow> sh_panic ''pipe''
       | Some (p0, p1) \<Rightarrow>
           fork1 (SClose 1 (SDup p1 (\<lambda>_. SClose p0 (SClose p1 (runcmd l)))))
             (fork1 (SClose 0 (SDup p0 (\<lambda>_. SClose p0 (SClose p1 (runcmd r)))))
               (SClose p0 (SClose p1 (SWait (\<lambda>_. SWait (\<lambda>_. SExit 0)))))))"
| "runcmd (BACK c) = fork1 (runcmd c) (SExit 0)"

section \<open>The main loop\<close>

text \<open>\<^verbatim>\<open>getcmd\<close>: the line read into the buffer of 100 bytes and the input left; no line at the end of the input.\<close>

definition getcmd :: "string \<Rightarrow> string \<times> string" where
  "getcmd inp = (case gets (replicate 100 NUL) 100 inp of (buf, rest) \<Rightarrow> (cstr buf, rest))"

definition skip_blank :: "string \<Rightarrow> string" where
  "skip_blank s = dropWhile (\<lambda>c. c = CHR '' '' \<or> c = CHR 0x09) s"

definition run_line :: "string \<Rightarrow> prog" where
  "run_line s =
     (case parsecmd s of
        Parsed c _ \<Rightarrow> runcmd (map_cmd (\<lambda>p. cstr (drop (length s - length (fst p)) (nulterminate s c (s @ [NUL])))) c)
      | Syntax e \<Rightarrow> sh_panic e
      | NoFuel \<Rightarrow> SExit 1)"

lemma gets_loop_shorter: "gets_loop k inp = (l, rest) \<Longrightarrow> length rest + length l = length inp"
proof (induction k inp arbitrary: l rule: gets_loop.induct)
  case (3 k c inp)
  then show ?case by (auto split: if_splits prod.splits)
qed auto

lemma getcmd_shorter:
  assumes "getcmd inp = (l, rest)" and "l \<noteq> []"
  shows "length rest < length inp"
proof -
  obtain g where g: "gets_loop 99 inp = (g, rest)" "l = cstr (g @ NUL # drop (Suc (length g)) (replicate 100 NUL))"
    using assms(1) by (auto simp: getcmd_def gets_def split: prod.splits)
  then have "g \<noteq> []" using assms(2) by auto
  then show ?thesis using gets_loop_shorter [OF g(1)] by (cases g) auto
qed

text \<open>The loop of \<^verbatim>\<open>main\<close>, after the three descriptors have been opened.\<close>

function sh_loop :: "string \<Rightarrow> prog" where
  "sh_loop inp =
     SWrite 2 ''$ ''
       (case getcmd inp of (buf, rest) \<Rightarrow>
          if buf = [] then SExit 0
          else
            let cmd = skip_blank buf
            in if chd cmd = Lines.NL then sh_loop rest
               else if take 3 cmd = ''cd '' then
                 let dir = drop 3 (butlast cmd)
                 in SChdir dir (\<lambda>r. if r < 0 then SWrite 2 (''cannot cd '' @ dir @ [Lines.NL]) (sh_loop rest) else sh_loop rest)
               else fork1 (run_line cmd) (SWait (\<lambda>_. sh_loop rest)))"
  by pat_completeness auto
termination
  by (relation "measure length") (auto intro: getcmd_shorter [OF sym])

declare sh_loop.simps [simp del]

text \<open>
  The whole of \<^verbatim>\<open>main\<close>.  Every \<^verbatim>\<open>open\<close> that gives a descriptor below three uses one of them up, so four rounds are enough, as is proved below.
\<close>

primrec open_console :: "nat \<Rightarrow> prog \<Rightarrow> prog" where
  "open_console 0 p = SExit 1"
| "open_console (Suc n) p =
     SOpen ''console'' O_RDWR (\<lambda>fd. if fd \<ge> 0 then (if fd \<ge> 3 then SClose fd p else open_console n p) else p)"

definition sh_main :: "string \<Rightarrow> prog" where
  "sh_main inp = open_console 4 (sh_loop inp)"

section \<open>What the programs that are run see\<close>

text \<open>
  The descriptor table of a process, and what the system calls do to it when they succeed: \<^verbatim>\<open>open\<close>, \<^verbatim>\<open>dup\<close> and
  \<^verbatim>\<open>pipe\<close> take the lowest free descriptors.  \<open>execs p t k\<close> lists the programs that are started by \<open>p\<close>, in the order of the forks, each
  with its arguments and its table; \<open>k\<close> is the number of the next pipe.
\<close>

datatype fdobj = Given nat | PipeR nat | PipeW nat | FileObj string u32

type_synonym fdt = "nat \<Rightarrow> fdobj option"

text \<open>A program that was started with its arguments, or the router with its two descriptors, and the table of the process.\<close>

datatype started = Started string "string list" fdt | Routing int int fdt

definition fd_low :: "fdt \<Rightarrow> nat option" where
  "fd_low t = find (\<lambda>i. t i = None) [0..<NOFILE]"

primrec execs :: "prog \<Rightarrow> fdt \<Rightarrow> nat \<Rightarrow> started list \<times> nat" where
  "execs (SExit n) t k = ([], k)"
| "execs (SFork c p) t k = (case execs c t k of (xs, k) \<Rightarrow> case execs (p 1) t k of (ys, k) \<Rightarrow> (xs @ ys, k))"
| "execs (SWait p) t k = execs (p 1) t k"
| "execs (SExec f args p) t k = ([Started f args t], k)"
| "execs (SOpen f m p) t k =
     (case fd_low t of None \<Rightarrow> execs (p (-1)) t k | Some i \<Rightarrow> execs (p (int i)) (t(i \<mapsto> FileObj f m)) k)"
| "execs (SClose fd p) t k = execs p (t(nat fd := None)) k"
| "execs (SDup fd p) t k =
     (case (t (nat fd), fd_low t) of (Some f, Some i) \<Rightarrow> execs (p (int i)) (t(i \<mapsto> f)) k | _ \<Rightarrow> execs (p (-1)) t k)"
| "execs (SPipe p) t k =
     (case fd_low t of
        None \<Rightarrow> execs (p None) t k
      | Some i \<Rightarrow> (case fd_low (t(i \<mapsto> PipeR k)) of
          None \<Rightarrow> execs (p None) t k
        | Some j \<Rightarrow> execs (p (Some (int i, int j))) (t(i \<mapsto> PipeR k, j \<mapsto> PipeW k)) (Suc k)))"
| "execs (SChdir d p) t k = execs (p 0) t k"
| "execs (SWrite fd s p) t k = execs p t k"
| "execs (SMknod f mj mn p) t k = execs p t k"
| "execs (SRouter a b p) t k = ([Routing a b t], k)"
| "execs SMore t k = ([], k)"

text \<open>What the command means: which program is to run with which standard input, output and error, and nothing else open.\<close>

definition std :: "fdobj \<Rightarrow> fdobj \<Rightarrow> fdobj \<Rightarrow> fdt" where
  "std i out e = [0 \<mapsto> i, Suc 0 \<mapsto> out, 2 \<mapsto> e]"

fun wired :: "string cmd \<Rightarrow> fdobj \<Rightarrow> fdobj \<Rightarrow> fdobj \<Rightarrow> nat \<Rightarrow> started list \<times> nat" where
  "wired (EXEC []) i out e k = ([], k)"
| "wired (EXEC (a # as)) i out e k = ([Started a (a # as) (std i out e)], k)"
| "wired (REDIR c f m fd) i out e k = (if fd = 0 then wired c (FileObj f m) out e k else wired c i (FileObj f m) e k)"
| "wired (LIST l r) i out e k = (case wired l i out e k of (xs, k) \<Rightarrow> case wired r i out e k of (ys, k) \<Rightarrow> (xs @ ys, k))"
| "wired (PIPE l r) i out e k =
     (case wired l i (PipeW k) e (Suc k) of (xs, k') \<Rightarrow> case wired r (PipeR k) out e k' of (ys, k') \<Rightarrow> (xs @ ys, k'))"
| "wired (BACK c) i out e k = wired c i out e k"

lemma fd_low_eval:
  "fd_low (std i out e) = Some 3" "fd_low ((std i out e)(3 \<mapsto> x)) = Some 4" "fd_low ((std i out e)(0 := None)) = Some 0"
  "fd_low ((std i out e)(Suc 0 := None)) = Some 1" "fd_low ((std i out e)(3 \<mapsto> x, 4 \<mapsto> y, 0 := None)) = Some 0"
  "fd_low ((std i out e)(3 \<mapsto> x, 4 \<mapsto> y, Suc 0 := None)) = Some 1"
  by (simp_all add: fd_low_def NOFILE_def upt_rec std_def)

lemma execs_fork1 [simp]: "execs (fork1 c p) t k = (case execs c t k of (xs, k) \<Rightarrow> case execs p t k of (ys, k) \<Rightarrow> (xs @ ys, k))"
  by (simp add: fork1_def)

lemma std_upd [simp]: "(std i out e)(0 \<mapsto> x) = std x out e" "(std i out e)(Suc 0 \<mapsto> x) = std i x e"
  by (auto simp: std_def fun_eq_iff)

text \<open>The table after each side of a pipe has connected its end and closed the rest.\<close>

lemma std_pipe:
  "(std i out e)(3 := None, 4 := None) = std i out e"
  "(std i out e)(3 \<mapsto> x, 4 \<mapsto> y, Suc 0 \<mapsto> y, 3 := None, 4 := None) = std i y e"
  "(std i out e)(3 \<mapsto> x, 4 \<mapsto> y, 0 \<mapsto> x, 3 := None, 4 := None) = std x out e"
  "((std i out e)(3 \<mapsto> x, 4 \<mapsto> y, Suc 0 := None)) 4 = Some y" "((std i out e)(3 \<mapsto> x, 4 \<mapsto> y, 0 := None)) 3 = Some x"
  by (auto simp: std_def fun_eq_iff)

lemma runcmd_wired: "ok_cmd c \<Longrightarrow> execs (runcmd c) (std i out e) k = wired c i out e k"
proof (induction c i out e k rule: wired.induct)
  case (3 c f m fd i out e k)
  then show ?case by (auto simp: fd_low_eval)
next
  case (5 l r i out e k)
  then show ?case by (simp add: fd_low_eval std_pipe split: prod.splits)
qed (auto split: prod.splits)

lemma show_no_NUL: "ok_cmd c \<Longrightarrow> NUL \<notin> set (form_e c) \<and> NUL \<notin> set (form_p c) \<and> NUL \<notin> set (form_b c) \<and> NUL \<notin> set (show_cmd c)"
  by (induction c) (auto simp: Let_def show_cmd_def words_line_def redir_line_def redir_op_def ok_word_def)

text \<open>The line that was printed from a command runs that command.\<close>

lemma run_line_show:
  assumes "ok_cmd c"
  shows "run_line (show_cmd c) = runcmd c"
proof -
  let ?s = "show_cmd c"
  obtain c' where c': "parsecmd ?s = Parsed c' []" "map_cmd word_text c' = c" using parse_show [OF assms] by blast
  have "map_cmd (\<lambda>p. cstr (drop (length ?s - length (fst p)) (nulterminate ?s c' (?s @ [NUL])))) c' = map_cmd word_text c'"
    using words_cut [OF c'(1)] show_no_NUL [OF assms] by (intro cmd.map_cong) auto
  then show ?thesis using c' by (simp add: run_line_def)
qed

text \<open>
  C14: the shell connects the programs it runs as the command says.  A line typed for a command, parsed and run in a shell whose standard input, output and error
  are open, starts exactly the programs of the command in order, each with its own arguments and with exactly three descriptors: both sides
  of a pipe are joined by a fresh pipe, a redirection replaces the standard input or output by the file, and no other end of any
  pipe stays open in any program (a reader would otherwise never see the end of its input).
\<close>

theorem shell_runs_line:
  assumes "ok_cmd c"
  shows "execs (run_line (show_cmd c)) (std i out e) k = wired c i out e k"
  using run_line_show [OF assms] runcmd_wired [OF assms] by simp

theorem shell_runs_line_witness:
  "execs (run_line (show_cmd (PIPE (EXEC [''cat'', ''f'']) (REDIR (EXEC [''wc'']) ''n'' (O_WRONLY OR O_CREATE) 1)))) (std (Given 0) (Given 1) (Given 2)) 7 =
     ([Started ''cat'' [''cat'', ''f''] (std (Given 0) (PipeW 7) (Given 2)),
       Started ''wc'' [''wc''] (std (PipeR 7) (FileObj ''n'' (O_WRONLY OR O_CREATE)) (Given 2))], 8)"
  by (subst shell_runs_line) (simp_all add: ok_word_def is_space_def is_symbol_def whitespace_def symbols_def MAXARGS_def)

section \<open>The descriptors of the shell itself\<close>

lemma fd_low_first:
  "fd_low t = (if t 0 = None then Some 0 else if t 1 = None then Some 1 else if t 2 = None then Some 2
     else find (\<lambda>i. t i = None) [3..<NOFILE])"
proof -
  have "[0..<NOFILE] = 0 # 1 # 2 # [3..<NOFILE]" by (simp add: NOFILE_def upt_rec)
  then show ?thesis by (simp add: fd_low_def)
qed

lemma find_high: "find (\<lambda>i. t i = None) [3..<NOFILE] = Some i \<Longrightarrow> 3 \<le> i \<and> t i = None"
  by (auto simp: find_Some_iff)

definition with_console :: "fdt \<Rightarrow> fdt" where
  "with_console t i = (if i < 3 \<and> t i = None then Some (FileObj ''console'' O_RDWR) else t i)"

lemma open_console_full:
  assumes "t 0 \<noteq> None" and "t 1 \<noteq> None" and "t 2 \<noteq> None"
  shows "execs (open_console (Suc n) p) t k = execs p t k"
proof (cases "find (\<lambda>i. t i = None) [3..<NOFILE]")
  case (Some i)
  then have "3 \<le> i" "t(i := None) = t" using find_high [OF Some] by auto
  moreover have "fd_low t = Some i" using Some assms unfolding fd_low_first by auto
  ultimately show ?thesis by simp
next
  case None
  then have "fd_low t = None" using assms unfolding fd_low_first by auto
  then show ?thesis by simp
qed

lemma with_console_full: "t 0 \<noteq> None \<Longrightarrow> t 1 \<noteq> None \<Longrightarrow> t 2 \<noteq> None \<Longrightarrow> with_console t = t"
  by (rule ext) (auto simp: with_console_def less_Suc_eq numeral_eq_Suc)

lemma open_console_step:
  assumes "i < 3" and "t i = None" and "\<forall>j<i. t j \<noteq> None"
  shows "execs (open_console (Suc n) p) t k = execs (open_console n p) (t(i \<mapsto> FileObj ''console'' O_RDWR)) k"
    "with_console (t(i \<mapsto> FileObj ''console'' O_RDWR)) = with_console t"
  using assms by (auto simp: fd_low_first with_console_def fun_eq_iff less_Suc_eq numeral_eq_Suc)

text \<open>The number of free descriptors among the first three bounds the rounds.\<close>

lemma open_console_fills:
  "card {i. i < 3 \<and> t i = None} < n \<Longrightarrow> execs (open_console n p) t k = execs p (with_console t) k"
proof (induction n arbitrary: t)
  case (Suc n)
  show ?case
  proof (cases "\<exists>i<3. t i = None")
    case False
    then have "t 0 \<noteq> None" "t 1 \<noteq> None" "t 2 \<noteq> None" by auto
    then show ?thesis using open_console_full with_console_full by metis
  next
    case True
    define i where "i = (LEAST i. i < 3 \<and> t i = None)"
    have i: "i < 3" "t i = None" using LeastI_ex [OF True] by (auto simp: i_def)
    have least: "\<forall>j<i. t j \<noteq> None" using i(1) not_less_Least [of _ "\<lambda>i. i < 3 \<and> t i = None"] by (auto simp: i_def)
    let ?t = "t(i \<mapsto> FileObj ''console'' O_RDWR)"
    have "{j. j < 3 \<and> ?t j = None} \<subset> {j. j < 3 \<and> t j = None}" using i by auto
    then have "card {j. j < 3 \<and> ?t j = None} < card {j. j < 3 \<and> t j = None}" by (intro psubset_card_mono) auto
    then have "card {j. j < 3 \<and> ?t j = None} < n" using Suc.prems by linarith
    then have "execs (open_console n p) ?t k = execs p (with_console ?t) k" by (rule Suc.IH)
    then show ?thesis unfolding open_console_step [OF i least] .
  qed
qed simp

text \<open>
  the shell makes sure that three descriptors are open.  Whatever descriptors a shell is started with, the loop at the start of \<^verbatim>\<open>main\<close>
  ends, opens the console on exactly those of 0, 1 and 2 that were free, and leaves every other descriptor as it was,
  so that the first file opened by any command is not taken for the standard error.
\<close>

theorem shell_opens_standard_descriptors:
  "execs (sh_main inp) t k =
     execs (sh_loop inp) (\<lambda>i. if i < 3 \<and> t i = None then Some (FileObj ''console'' O_RDWR) else t i) k"
proof -
  have "card {i. i < 3 \<and> t i = None} \<le> card {i. i < (3::nat)}" by (intro card_mono) auto
  then have "execs (sh_main inp) t k = execs (sh_loop inp) (with_console t) k"
    by (simp add: sh_main_def open_console_fills)
  moreover have "with_console t = (\<lambda>i. if i < 3 \<and> t i = None then Some (FileObj ''console'' O_RDWR) else t i)"
    by (rule ext) (rule with_console_def)
  ultimately show ?thesis by simp
qed

end
