(* ===== verification/Argv.thy ===== *)
theory Argv
  imports Exec UserMem
begin

text \<open>
  The arguments of a new program, \<^verbatim>\<open>kexec\<close> of \<^verbatim>\<open>kernel/exec.c\<close>: where the argument strings and the array of pointers to them go on the
  new user stack, that \<^verbatim>\<open>main\<close> finds them there, and that none of the arrays involved is overrun.
\<close>

section \<open>The layout\<close>

text \<open>The addresses of the strings below \<open>hi\<close>, and the address of \<^verbatim>\<open>argv\<close> below them, each a multiple of sixteen.\<close>

primrec arg_addrs :: "nat \<Rightarrow> u8 list list \<Rightarrow> nat list" where
  "arg_addrs hi [] = []"
| "arg_addrs hi (a # as) = (let x = (hi - (length a + 1)) div 16 * 16 in x # arg_addrs x as)"

definition argv_addr :: "nat \<Rightarrow> u8 list list \<Rightarrow> nat" where
  "argv_addr hi argv = (last (hi # arg_addrs hi argv) - 8 * (length argv + 1)) div 16 * 16"

text \<open>The addresses from \<open>base\<close> to \<open>hi\<close> are different bytes of writable user pages.\<close>

definition stack_pages :: "mem \<Rightarrow> u64 \<Rightarrow> u64 set \<Rightarrow> nat \<Rightarrow> nat \<Rightarrow> bool" where
  "stack_pages m pt F base hi \<longleftrightarrow>
     pt_tree m pt F \<and> hi < 2 ^ 64 \<and> (\<forall>v\<in>{base..<hi}. user_page m pt F (of_nat v)) \<and>
     inj_on (\<lambda>v. phys m pt (of_nat v)) {base..<hi}"

lemma arg_addrs_length [simp]: "length (arg_addrs hi as) = length as"
  by (induction as arbitrary: hi) (auto simp: Let_def)

lemma unat_below: "n < 2 ^ 64 \<Longrightarrow> unat (of_nat n :: u64) = n"
  by (simp add: unat_of_nat take_bit_nat_eq_self)

lemma unat_lt64: "unat (x :: u64) < 2 ^ 64"
  using unsigned_less [of x] by simp

lemma align16_of_nat:
  assumes "n < 2 ^ 64"
  shows "align16 (of_nat n) = of_nat (n div 16 * 16)"
proof -
  have "(of_nat n :: u64) mod 16 = of_nat (n mod 16)"
    using assms by (simp add: word_unat_eq_iff unat_mod unat_below)
  moreover have "n = n div 16 * 16 + n mod 16" by simp
  ultimately show ?thesis unfolding align16_def by (metis add_diff_cancel_right' of_nat_add)
qed

lemma of_nat_below:
  "x < 2 ^ 64 \<Longrightarrow> y < 2 ^ 64 \<Longrightarrow> (of_nat x :: u64) < of_nat y \<longleftrightarrow> x < y"
  by (simp add: word_less_nat_alt unat_below)

text \<open>The next stack pointer, when the string fits.\<close>

lemma next_sp:
  assumes "n \<le> p" and "p < 2 ^ 64"
  shows "align16 (of_nat p - of_nat n) = of_nat ((p - n) div 16 * 16)"
  using align16_of_nat [of "p - n"] assms by (simp add: of_nat_diff)

section \<open>Writing to the stack\<close>

lemma stack_copyout:
  assumes "stack_pages (pmem s) pt F base hi" and "base \<le> x" and "x + length src \<le> hi" and "same_tables (pmem s) pt F m"
  obtains m' where "copyout h pt (of_nat x) src (s\<lparr>pmem := m\<rparr>) = Ok 0 (s\<lparr>pmem := m'\<rparr>)" and "same_tables (pmem s) pt F m'"
    and "\<And>k. k < length src \<Longrightarrow> m' (phys (pmem s) pt (of_nat (x + k))) = src ! k"
    and "\<And>v. base \<le> v \<Longrightarrow> v < x \<or> x + length src \<le> v \<Longrightarrow> v < hi \<Longrightarrow> m' (phys (pmem s) pt (of_nat v)) = m (phys (pmem s) pt (of_nat v))"
proof -
  let ?m0 = "pmem s" and ?n = "length src"
  let ?m' = "write_user ?m0 pt (of_nat x) src m"
  have pt: "pt_tree ?m0 pt F" and inj: "inj_on (\<lambda>v. phys ?m0 pt (of_nat v)) {base..<hi}" and t: "hi < 2 ^ 64"
    and up: "\<forall>v\<in>{base..<hi}. user_page ?m0 pt F (of_nat v)" using assms(1) by (auto simp: stack_pages_def)
  have ix: "inj_on (\<lambda>k. phys ?m0 pt (of_nat x + of_nat k)) {..<?n}"
  proof (rule inj_onI)
    fix k l
    assume kl: "k \<in> {..<?n}" "l \<in> {..<?n}" "phys ?m0 pt (of_nat x + of_nat k) = phys ?m0 pt (of_nat x + of_nat l)"
    then have "phys ?m0 pt (of_nat (x + k)) = phys ?m0 pt (of_nat (x + l))" by simp
    then show "k = l" using inj_onD [OF inj, of "x + k" "x + l"] kl assms(2,3) by simp
  qed
  have uw: "user_writable ?m0 pt F (of_nat x) ?n"
    using up assms(2,3) t by (auto simp: user_writable_def unat_below simp flip: of_nat_add)
  show thesis
  proof (rule that [of ?m'])
    show "copyout h pt (of_nat x) src (s\<lparr>pmem := m\<rparr>) = Ok 0 (s\<lparr>pmem := ?m'\<rparr>)" by (rule copyout_ok [OF pt uw assms(4)])
    show "same_tables ?m0 pt F ?m'" by (rule write_user_same_tables [OF pt uw assms(4)])
    show "?m' (phys ?m0 pt (of_nat (x + k))) = src ! k" if "k < ?n" for k
      using write_user_apply(1) [OF ix that] by simp
    show "?m' (phys ?m0 pt (of_nat v)) = m (phys ?m0 pt (of_nat v))"
      if "base \<le> v" "v < x \<or> x + ?n \<le> v" "v < hi" for v
    proof (rule write_user_apply(2) [OF ix], rule notI)
      assume "phys ?m0 pt (of_nat v) \<in> (\<lambda>k. phys ?m0 pt (of_nat x + of_nat k)) ` {..<?n}"
      then obtain k where k: "k < ?n" "phys ?m0 pt (of_nat v) = phys ?m0 pt (of_nat (x + k))" by auto
      then have "v = x + k" using inj_onD [OF inj k(2)] that assms(2,3) by simp
      then show False using k(1) that by simp
    qed
  qed
qed

lemma stack_copyin:
  assumes "stack_pages (pmem s) pt F base hi" and "base \<le> x" and "x + n \<le> hi" and "same_tables (pmem s) pt F m"
  shows "copyin h pt (of_nat x) n (s\<lparr>pmem := m\<rparr>) = Ok (Some (map (\<lambda>k. m (phys (pmem s) pt (of_nat (x + k)))) [0..<n])) (s\<lparr>pmem := m\<rparr>)"
proof -
  have pt: "pt_tree (pmem s) pt F" and t: "hi < 2 ^ 64"
    and up: "\<forall>v\<in>{base..<hi}. user_page (pmem s) pt F (of_nat v)" using assms(1) by (auto simp: stack_pages_def)
  note sp = same_tables_props [OF assms(4) pt]
  have "translate m pt (PGROUNDDOWN (of_nat x + of_nat k)) \<noteq> 0" if "k < n" for k
    using bspec [OF up, of "x + k"] sp(3) that assms(2,3) by (auto simp: user_page_def Let_def)
  then have "user_mapped m pt (of_nat x) n" using t assms(3) by (simp add: user_mapped_def unat_below)
  moreover have "user_bytes m pt (of_nat x) n = map (\<lambda>k. m (phys (pmem s) pt (of_nat (x + k)))) [0..<n]"
    using sp(3) by (simp add: user_bytes_def user_byte_def phys_def)
  ultimately show ?thesis using copyin_ok [of "s\<lparr>pmem := m\<rparr>" pt F "of_nat x" n h] sp(1) by simp
qed

lemma arg_addrs_Cons:
  assumes "0 < base"
  obtains x where "x = (p - (length a + 1)) div 16 * 16" and "arg_addrs p (a # as) = x # arg_addrs x as"
    and "base \<le> x \<Longrightarrow> x + length a + 1 \<le> p"
proof (rule that)
  show "base \<le> (p - (length a + 1)) div 16 * 16 \<Longrightarrow> (p - (length a + 1)) div 16 * 16 + length a + 1 \<le> p"
    using assms div_times_less_eq_dividend [of "p - (length a + 1)" 16] by linarith
qed (simp_all add: Let_def)

declare arg_addrs.simps(2) [simp del]

lemma arg_addrs_bounds:
  assumes "0 < base"
  shows "\<forall>x\<in>set (arg_addrs p as). base \<le> x \<Longrightarrow>
    last (p # arg_addrs p as) \<le> p \<and>
    (\<forall>i<length as. last (p # arg_addrs p as) \<le> arg_addrs p as ! i \<and> arg_addrs p as ! i + length (as ! i) + 1 \<le> p)"
proof (induction as arbitrary: p)
  case (Cons a as)
  obtain x where xs: "arg_addrs p (a # as) = x # arg_addrs x as" and le: "base \<le> x \<Longrightarrow> x + length a + 1 \<le> p"
    using arg_addrs_Cons [OF assms] by metis
  note IH = Cons.IH [of x]
  have l: "last (p # x # arg_addrs x as) = last (x # arg_addrs x as)" by simp
  have "last (x # arg_addrs x as) \<le> (x # arg_addrs x as) ! i \<and> (x # arg_addrs x as) ! i + length ((a # as) ! i) + 1 \<le> p"
    if "i < length (a # as)" for i
  proof (cases i)
    case 0
    then show ?thesis using IH le Cons.prems xs by simp
  next
    case (Suc j)
    then have "arg_addrs x as ! j + length (as ! j) + 1 \<le> x" "last (x # arg_addrs x as) \<le> arg_addrs x as ! j" "x \<le> p"
      using IH le Cons.prems xs that by simp_all
    then show ?thesis using Suc by simp
  qed
  moreover have "last (x # arg_addrs x as) \<le> p" using IH le Cons.prems xs by simp
  ultimately show ?case unfolding xs l by (intro conjI allI impI) (simp_all only:)
qed simp

section \<open>The argument strings\<close>

lemma push_args_layout:
  assumes "stack_pages (pmem s) pt F base hi" and "0 < base"
  shows "p \<le> hi \<Longrightarrow> length us + length as \<le> MAXARG \<Longrightarrow> \<forall>x\<in>set (arg_addrs p as). base \<le> x \<Longrightarrow> same_tables (pmem s) pt F m \<Longrightarrow>
    \<exists>m'. push_args h pt (of_nat base) as us (of_nat p) (s\<lparr>pmem := m\<rparr>) =
        Ok (Some (of_nat (last (p # arg_addrs p as)), us @ map of_nat (arg_addrs p as))) (s\<lparr>pmem := m'\<rparr>) \<and>
      same_tables (pmem s) pt F m' \<and>
      (\<forall>i<length as. \<forall>k\<le>length (as ! i). m' (phys (pmem s) pt (of_nat (arg_addrs p as ! i + k))) = (as ! i @ [0]) ! k) \<and>
      (\<forall>v. p \<le> v \<longrightarrow> v < hi \<longrightarrow> m' (phys (pmem s) pt (of_nat v)) = m (phys (pmem s) pt (of_nat v)))"
proof (induction as arbitrary: p us m)
  case (Cons a as)
  let ?m0 = "pmem s"
  obtain x where xd: "x = (p - (length a + 1)) div 16 * 16" and xs: "arg_addrs p (a # as) = x # arg_addrs x as"
    and l: "base \<le> x \<Longrightarrow> x + length a + 1 \<le> p" using arg_addrs_Cons [OF assms(2)] by metis
  have x: "base \<le> x" and r: "\<forall>y\<in>set (arg_addrs x as). base \<le> y" using Cons.prems(3) xs by simp_all
  have le: "x + length (a @ [0]) \<le> p" and hx: "x + length (a @ [0]) \<le> hi" "x \<le> hi" using l [OF x] Cons.prems(1) by simp_all
  have t: "hi < 2 ^ 64" using assms(1) by (simp add: stack_pages_def)
  obtain m1 where m1: "copyout h pt (of_nat x) (a @ [0]) (s\<lparr>pmem := m\<rparr>) = Ok 0 (s\<lparr>pmem := m1\<rparr>)" "same_tables ?m0 pt F m1"
    "\<And>k. k < length (a @ [0]) \<Longrightarrow> m1 (phys ?m0 pt (of_nat (x + k))) = (a @ [0]) ! k"
    "\<And>v. base \<le> v \<Longrightarrow> v < x \<or> x + length (a @ [0]) \<le> v \<Longrightarrow> v < hi \<Longrightarrow> m1 (phys ?m0 pt (of_nat v)) = m (phys ?m0 pt (of_nat v))"
    using stack_copyout [OF assms(1) x hx(1) Cons.prems(4), of h] by metis
  obtain m' where m': "push_args h pt (of_nat base) as (us @ [of_nat x]) (of_nat x) (s\<lparr>pmem := m1\<rparr>) =
        Ok (Some (of_nat (last (x # arg_addrs x as)), (us @ [of_nat x]) @ map of_nat (arg_addrs x as))) (s\<lparr>pmem := m'\<rparr>)"
      "same_tables ?m0 pt F m'"
      "\<forall>i<length as. \<forall>k\<le>length (as ! i). m' (phys ?m0 pt (of_nat (arg_addrs x as ! i + k))) = (as ! i @ [0]) ! k"
      "\<forall>v. x \<le> v \<longrightarrow> v < hi \<longrightarrow> m' (phys ?m0 pt (of_nat v)) = m1 (phys ?m0 pt (of_nat v))"
    using Cons.IH [OF hx(2) _ r m1(2), of "us @ [of_nat x]"] Cons.prems(2) by auto
  have sp: "align16 (of_nat p - of_nat (length a + 1)) = of_nat x" "\<not> (of_nat x :: u64) < of_nat base"
    using next_sp [of "length a + 1" p] of_nat_below [of x base] l [OF x] t x Cons.prems(1) by (simp_all add: xd)
  have "push_args h pt (of_nat base) (a # as) us (of_nat p) (s\<lparr>pmem := m\<rparr>) =
      push_args h pt (of_nat base) as (us @ [of_nat x]) (of_nat x) (s\<lparr>pmem := m1\<rparr>)"
    using sp m1(1) Cons.prems(2) by (simp add: Let_def xd)
  moreover have "m' (phys ?m0 pt (of_nat ((x # arg_addrs x as) ! i + k))) = ((a # as) ! i @ [0]) ! k"
    if "i < length (a # as)" "k \<le> length ((a # as) ! i)" for i k
  proof (cases i)
    case 0
    then have "m' (phys ?m0 pt (of_nat (x + k))) = m1 (phys ?m0 pt (of_nat (x + k)))" using spec [OF m'(4), of "x + k"] 0 that hx by simp
    then show ?thesis using m1(3) [of k] 0 that by simp
  next
    case (Suc j)
    then show ?thesis using m'(3) that by simp
  qed
  moreover have "m' (phys ?m0 pt (of_nat v)) = m (phys ?m0 pt (of_nat v))" if "p \<le> v" "v < hi" for v
  proof -
    have "x \<le> v" "base \<le> v" "x + length (a @ [0]) \<le> v" using le x that by simp_all
    then show ?thesis using m'(4) m1(4) [of v] that by simp
  qed
  ultimately show ?case using m'(1,2) unfolding xs by (intro exI [of _ m']) (simp del: push_args.simps)
qed (auto intro: exI)

section \<open>The array of pointers\<close>

lemma ustack_length [simp]: "length (concat (map le64_bytes us)) = 8 * length us"
  by (induction us) (auto simp: le64_bytes_def)

lemma push_ustack_layout:
  assumes "stack_pages (pmem s) pt F base hi" and "0 < base" and "p \<le> hi" and "length us < MAXARG"
    and "base \<le> (p - 8 * (length us + 1)) div 16 * 16" and "same_tables (pmem s) pt F m"
  obtains x m' where "x = (p - 8 * (length us + 1)) div 16 * 16" and "x + 8 * (length us + 1) \<le> p"
    and "push_ustack h pt (of_nat base) us (of_nat p) (s\<lparr>pmem := m\<rparr>) = Ok (Some (of_nat x)) (s\<lparr>pmem := m'\<rparr>)"
    and "same_tables (pmem s) pt F m'"
    and "\<forall>k<8 * (length us + 1). m' (phys (pmem s) pt (of_nat (x + k))) = concat (map le64_bytes (us @ [0])) ! k"
    and "\<forall>v. p \<le> v \<longrightarrow> v < hi \<longrightarrow> m' (phys (pmem s) pt (of_nat v)) = m (phys (pmem s) pt (of_nat v))"
proof -
  let ?src = "concat (map le64_bytes (us @ [0]))"
  define n where "n = 8 * (length us + 1)"
  define x where "x = (p - n) div 16 * 16"
  have x: "base \<le> x" using assms(5) by (simp add: x_def n_def)
  have le: "x + n \<le> p" using x assms(2) div_times_less_eq_dividend [of "p - n" 16] unfolding x_def by linarith
  have ln: "length ?src = n" by (simp add: n_def del: map_append concat_append)
  have hx: "x + length ?src \<le> hi" unfolding ln using le assms(3) by simp
  obtain m' where m': "copyout h pt (of_nat x) ?src (s\<lparr>pmem := m\<rparr>) = Ok 0 (s\<lparr>pmem := m'\<rparr>)" "same_tables (pmem s) pt F m'"
    "\<And>k. k < length ?src \<Longrightarrow> m' (phys (pmem s) pt (of_nat (x + k))) = ?src ! k"
    "\<And>v. base \<le> v \<Longrightarrow> v < x \<or> x + length ?src \<le> v \<Longrightarrow> v < hi \<Longrightarrow> m' (phys (pmem s) pt (of_nat v)) = m (phys (pmem s) pt (of_nat v))"
    using stack_copyout [OF assms(1) x hx assms(6), of h] by metis
  have t: "hi < 2 ^ 64" using assms(1) by (simp add: stack_pages_def)
  have sp: "align16 (of_nat p - of_nat n) = of_nat x" "\<not> (of_nat x :: u64) < of_nat base"
    using next_sp [of n p] of_nat_below [of x base] le t x assms(3) by (simp_all add: x_def)
  have nn: "(length us + 1) * 8 = n" by (simp add: n_def)
  show thesis
  proof (rule that [of x m'])
    show "push_ustack h pt (of_nat base) us (of_nat p) (s\<lparr>pmem := m\<rparr>) = Ok (Some (of_nat x)) (s\<lparr>pmem := m'\<rparr>)"
      unfolding push_ustack_def nn Let_def sp(1) using sp(2) m'(1) assms(4) by (simp del: map_append concat_append)
    show "\<forall>v. p \<le> v \<longrightarrow> v < hi \<longrightarrow> m' (phys (pmem s) pt (of_nat v)) = m (phys (pmem s) pt (of_nat v))"
      using m'(4) le x unfolding ln by simp
  qed (use m'(2,3) le ln in \<open>simp_all add: x_def n_def del: map_append concat_append\<close>)
qed

text \<open>
  C13: a new program finds its arguments.  If the pages of the stack are mapped and the strings and the pointers fit between \<open>base\<close> and the top
  of the stack, \<^verbatim>\<open>kexec\<close> lays them out so that the strings and the array are all there, complete and apart from each other: reading
  \<^verbatim>\<open>argc + 1\<close> pointers at the new stack pointer gives the addresses of the strings in order and a null, and reading
  at each of them gives the argument and its terminating zero; the stack pointer is a multiple of sixteen.
\<close>

theorem exec_stack_holds_arguments:
  assumes "stack_pages (pmem s) pt F base hi" and "0 < base" and "base \<le> hi" and "length argv < MAXARG"
    and "\<forall>x\<in>set (arg_addrs hi argv). base \<le> x" and "base \<le> argv_addr hi argv"
  shows "\<exists>sp us t sp' u. push_args h pt (of_nat base) argv [] (of_nat hi) s = Ok (Some (sp, us)) t \<and>
    push_ustack h pt (of_nat base) us sp t = Ok (Some sp') u \<and> length us = length argv \<and> sp' mod 16 = 0 \<and>
    copyin h pt sp' (8 * (length argv + 1)) u = Ok (Some (concat (map le64_bytes (us @ [0])))) u \<and>
    (\<forall>i<length argv. copyin h pt (us ! i) (length (argv ! i) + 1) u = Ok (Some (argv ! i @ [0])) u)"
proof -
  let ?m0 = "pmem s" and ?as = "arg_addrs hi argv" and ?us = "map of_nat (arg_addrs hi argv) :: u64 list"
  define p where "p = last (hi # ?as)"
  have b: "p \<le> hi" "\<And>i. i < length argv \<Longrightarrow> p \<le> ?as ! i \<and> ?as ! i + length (argv ! i) + 1 \<le> hi"
    using arg_addrs_bounds [OF assms(2,5)] unfolding p_def by blast+
  obtain m where m: "push_args h pt (of_nat base) argv [] (of_nat hi) s = Ok (Some (of_nat p, ?us)) (s\<lparr>pmem := m\<rparr>)"
      "same_tables ?m0 pt F m"
      "\<And>i k. i < length argv \<Longrightarrow> k \<le> length (argv ! i) \<Longrightarrow> m (phys ?m0 pt (of_nat (?as ! i + k))) = (argv ! i @ [0]) ! k"
    using push_args_layout [OF assms(1,2) order_refl, of "[]" argv ?m0 h] assms(4,5) by (auto simp: p_def)
  have ap: "base \<le> (p - 8 * (length ?us + 1)) div 16 * 16" using assms(6) by (simp add: argv_addr_def p_def)
  have lu: "length ?us < MAXARG" using assms(4) by simp
  obtain x m' where x: "x = (p - 8 * (length ?us + 1)) div 16 * 16" "x + 8 * (length ?us + 1) \<le> p"
      "push_ustack h pt (of_nat base) ?us (of_nat p) (s\<lparr>pmem := m\<rparr>) = Ok (Some (of_nat x)) (s\<lparr>pmem := m'\<rparr>)"
      "same_tables ?m0 pt F m'"
      "\<forall>k<8 * (length ?us + 1). m' (phys ?m0 pt (of_nat (x + k))) = concat (map le64_bytes (?us @ [0])) ! k"
      "\<forall>v. p \<le> v \<longrightarrow> v < hi \<longrightarrow> m' (phys ?m0 pt (of_nat v)) = m (phys ?m0 pt (of_nat v))"
    by (rule push_ustack_layout [where h = h, OF assms(1,2) b(1) lu ap m(2)])
  have xb: "base \<le> x" "x + 8 * (length argv + 1) \<le> hi" using ap x(1,2) b by simp_all
  have "copyin h pt (of_nat x) (8 * (length argv + 1)) (s\<lparr>pmem := m'\<rparr>) = Ok (Some (concat (map le64_bytes (?us @ [0])))) (s\<lparr>pmem := m'\<rparr>)"
    by (subst stack_copyin [OF assms(1) xb x(4)]) (use x(5) in \<open>auto intro!: nth_equalityI simp del: map_append concat_append\<close>)
  moreover have "copyin h pt (?us ! i) (length (argv ! i) + 1) (s\<lparr>pmem := m'\<rparr>) = Ok (Some (argv ! i @ [0])) (s\<lparr>pmem := m'\<rparr>)"
    if i: "i < length argv" for i
  proof -
    have bi: "p \<le> ?as ! i" "?as ! i + length (argv ! i) + 1 \<le> hi" using b(2) [OF i] by simp_all
    have "base \<le> ?as ! i" using assms(5) i by simp
    then have "copyin h pt (of_nat (?as ! i)) (length (argv ! i) + 1) (s\<lparr>pmem := m'\<rparr>) =
        Ok (Some (map (\<lambda>k. m' (phys ?m0 pt (of_nat (?as ! i + k)))) [0..<length (argv ! i) + 1])) (s\<lparr>pmem := m'\<rparr>)"
      using bi by (intro stack_copyin [OF assms(1) _ _ x(4)]) simp_all
    moreover have "map (\<lambda>k. m' (phys ?m0 pt (of_nat (?as ! i + k)))) [0..<length (argv ! i) + 1] = argv ! i @ [0]"
      by (rule nth_equalityI) (use bi x(6) m(3) [OF i] in \<open>auto simp del: of_nat_add upt_Suc\<close>)
    ultimately show ?thesis using i by simp
  qed
  moreover have "(of_nat x :: u64) mod 16 = 0"
    using align16_of_nat [of x] xb assms(1) by (simp add: align16_def x(1) stack_pages_def)
  ultimately show ?thesis using m(1) x(3)
    by (intro exI [of _ "of_nat p"] exI [of _ ?us] exI [of _ "s\<lparr>pmem := m\<rparr>"] exI [of _ "of_nat x"] exI [of _ "s\<lparr>pmem := m'\<rparr>"] conjI allI impI) simp_all
qed

text \<open>A stack of one page, as an example.\<close>

lemma stack_example:
  "\<exists>(s :: kimage) qs. stack_pages (pmem s) 0x87ffd000 (set qs) 0x1000 0x1800"
proof -
  obtain v :: kvm and qs where v: "vm_inv 0 v 0x87ffd000 qs" "user_writable (pmem v) 0x87ffd000 (set qs) 0x1000 4096"
    "\<forall>k<4096. phys (pmem v) 0x87ffd000 (0x1000 + of_nat k) = 0x80050000 + of_nat k"
    using writable_page by blast
  have off: "(of_nat x :: u64) = 0x1000 + of_nat (x - 0x1000)" if "x \<in> {0x1000..<0x1800}" for x
    using that by (simp add: of_nat_diff)
  have up: "user_page (pmem v) 0x87ffd000 (set qs) (of_nat x)" if "x \<in> {0x1000..<0x1800}" for x
  proof -
    have "x - 0x1000 < 4096" using that by auto
    then show ?thesis unfolding off [OF that] using v(2) unfolding user_writable_def by blast
  qed
  have ph: "phys (pmem v) 0x87ffd000 (of_nat x) = 0x80050000 + of_nat (x - 0x1000)" if "x \<in> {0x1000..<0x1800}" for x
  proof -
    have "x - 0x1000 < 4096" using that by auto
    then show ?thesis unfolding off [OF that] using v(3) by blast
  qed
  have "inj_on (\<lambda>x. phys (pmem v) 0x87ffd000 (of_nat x)) {0x1000..<0x1800}"
  proof (rule inj_onI)
    fix x y
    assume xy: "x \<in> {0x1000..<0x1800}" "y \<in> {0x1000..<0x1800}" "phys (pmem v) 0x87ffd000 (of_nat x) = phys (pmem v) 0x87ffd000 (of_nat y)"
    then have "(of_nat (x - 0x1000) :: u64) = of_nat (y - 0x1000)" using ph by simp
    moreover have "x - 0x1000 < 2 ^ 64" "y - 0x1000 < 2 ^ 64" using xy(1,2) by auto
    ultimately have "x - 0x1000 = y - 0x1000" using unat_below by metis
    then show "x = y" using xy(1,2) by auto
  qed
  then have "stack_pages (pmem v) 0x87ffd000 (set qs) 0x1000 0x1800"
    using v(1) up by (auto simp: stack_pages_def vm_inv_def)
  then show ?thesis by (intro exI [of _ "(undefined :: kimage)\<lparr>pmem := pmem v\<rparr>"] exI [of _ qs]) simp
qed

lemma example_addrs: "arg_addrs 0x1800 [[108, 115], [47]] = [0x17f0, 0x17e0]" "argv_addr 0x1800 [[108, 115], [47]] = 0x17c0"
  by (simp_all add: argv_addr_def arg_addrs.simps)

theorem exec_stack_holds_arguments_witness:
  "\<exists>(s :: kimage) sp us t sp' u. push_args 0 0x87ffd000 0x1000 [[108, 115], [47]] [] 0x1800 s = Ok (Some (sp, us)) t \<and>
     push_ustack 0 0x87ffd000 0x1000 us sp t = Ok (Some sp') u \<and>
     copyin 0 0x87ffd000 (us ! 0) 3 u = Ok (Some [108, 115, 0]) u \<and> copyin 0 0x87ffd000 (us ! 1) 2 u = Ok (Some [47, 0]) u"
proof -
  obtain s :: kimage and qs where s: "stack_pages (pmem s) 0x87ffd000 (set qs) 0x1000 0x1800" using stack_example by blast
  have few: "length [[108, 115], [47 :: u8]] < MAXARG" "\<forall>x\<in>set (arg_addrs 0x1800 [[108, 115], [47]]). 0x1000 \<le> x"
    "0x1000 \<le> argv_addr 0x1800 [[108, 115], [47]]" "(0 :: nat) < 0x1000" "(0x1000 :: nat) \<le> 0x1800" unfolding example_addrs by (simp_all add: MAXARG_def)
  obtain sp us t sp' u where r: "push_args 0 0x87ffd000 (of_nat 0x1000) [[108, 115], [47]] [] (of_nat 0x1800) s = Ok (Some (sp, us)) t"
    "push_ustack 0 0x87ffd000 (of_nat 0x1000) us sp t = Ok (Some sp') u"
    "\<forall>i<length [[108, 115], [47 :: u8]]. copyin 0 0x87ffd000 (us ! i) (length ([[108, 115], [47 :: u8]] ! i) + 1) u = Ok (Some ([[108, 115], [47]] ! i @ [0])) u"
    using exec_stack_holds_arguments [where h = 0, OF s few(4,5) few(1-3)] by blast
  have "copyin 0 0x87ffd000 (us ! 0) 3 u = Ok (Some [108, 115, 0]) u" "copyin 0 0x87ffd000 (us ! 1) 2 u = Ok (Some [47, 0]) u"
    using spec [OF r(3), of 0] spec [OF r(3), of 1] by (simp_all add: numeral_3_eq_3 numeral_2_eq_2)
  then show ?thesis using r(1,2) by (simp only: of_nat_numeral) blast
qed

section \<open>Bounds\<close>

lemma align16_mod: "align16 x mod 16 = 0"
proof -
  have "align16 x = of_nat (unat x div 16 * 16)" using align16_of_nat [of "unat x"] unat_lt64 [of x] by simp
  moreover have "unat x div 16 * 16 < 2 ^ 64" using unat_lt64 [of x] div_times_less_eq_dividend le_less_trans by blast
  ultimately have "unat (align16 x) = unat x div 16 * 16" by (simp only: unat_below)
  then show ?thesis by (simp add: word_unat_eq_iff unat_mod)
qed

lemma push_args_bounds:
  assumes "4096 \<le> base"
  shows "push_args h pt base as us sp s = Ok (Some (sp', vs)) t \<Longrightarrow> \<forall>a\<in>set as. length a < 4096 \<Longrightarrow> base \<le> sp \<Longrightarrow> length us \<le> MAXARG \<Longrightarrow>
    \<exists>ws. vs = us @ ws \<and> length ws = length as \<and> length vs \<le> MAXARG \<and> base \<le> sp' \<and>
      (\<forall>i<length as. base \<le> ws ! i \<and> ws ! i mod 16 = 0 \<and> unat (ws ! i) + length (as ! i) + 1 \<le> unat ((sp # ws) ! i))"
proof (induction as arbitrary: us sp s)
  case (Cons a as)
  define x where "x = align16 (sp - of_nat (length a + 1))"
  from Cons.prems(1) obtain s' where rest: "\<not> x < base" "length us < MAXARG"
    "push_args h pt base as (us @ [x]) x s' = Ok (Some (sp', vs)) t"
    by (auto simp: x_def Let_def simp flip: not_le split: if_splits res.splits elim!: kbind_OkE)
  have n: "length a + 1 \<le> unat sp" using Cons.prems(2,3) assms by (simp add: word_le_nat_alt)
  define y where "y = (unat sp - (length a + 1)) div 16 * 16"
  have le: "y \<le> unat sp - (length a + 1)" unfolding y_def by (rule div_times_less_eq_dividend)
  have "x = of_nat y" using next_sp [OF n unat_lt64] unfolding x_def y_def by simp
  moreover have "y < 2 ^ 64" using le unat_lt64 [of sp] by linarith
  ultimately have "unat x = y" using unat_below by simp
  then have x: "unat x + length a + 1 \<le> unat sp" using le n by linarith
  obtain ws where ws: "vs = (us @ [x]) @ ws" "length ws = length as" "length vs \<le> MAXARG" "base \<le> sp'"
    "\<forall>i<length as. base \<le> ws ! i \<and> ws ! i mod 16 = 0 \<and> unat (ws ! i) + length (as ! i) + 1 \<le> unat ((x # ws) ! i)"
    using Cons.IH [OF rest(3)] Cons.prems(2) rest(1,2) by (auto simp: not_less)
  have "base \<le> (x # ws) ! i \<and> (x # ws) ! i mod 16 = 0 \<and> unat ((x # ws) ! i) + length ((a # as) ! i) + 1 \<le> unat ((sp # x # ws) ! i)"
    if "i < length (a # as)" for i
    using that ws(5) x rest(1) align16_mod [of "sp - of_nat (length a + 1)", folded x_def] by (cases i) auto
  then show ?case using ws by (intro exI [of _ "x # ws"]) simp
qed simp

text \<open>What \<^verbatim>\<open>sys_exec\<close> hands on: fewer strings than the array has slots, each shorter than its page.\<close>

lemma scan_nul_length: "length (fst (scan_nul m p n)) \<le> n" "snd (scan_nul m p n) \<Longrightarrow> length (fst (scan_nul m p n)) < n"
proof -
  have "length (fst (scan_nul m p n)) \<le> n \<and> (snd (scan_nul m p n) \<longrightarrow> length (fst (scan_nul m p n)) < n)"
  proof (induction n arbitrary: p)
    case (Suc n)
    show ?case using Suc [of "p + 1"] by (cases "scan_nul m (p + 1) n") auto
  qed simp
  then show "length (fst (scan_nul m p n)) \<le> n" "snd (scan_nul m p n) \<Longrightarrow> length (fst (scan_nul m p n)) < n" by auto
qed

lemma copyinstr_short: "copyinstr h pt va n s = Ok (Some bs) t \<Longrightarrow> length bs < n"
proof (induction n arbitrary: va s bs t rule: less_induct)
  case (less n)
  let ?k = "in_page_len va n"
  have n: "n \<noteq> 0" using less.prems by (subst (asm) copyinstr.simps) (auto split: if_splits)
  have k: "0 < ?k" "?k \<le> n" using n in_page_len_pos [of n va] by (simp_all add: in_page_len_eq(1))
  obtain p u where w: "walkaddr h pt (PGROUNDDOWN va) s = Ok p u" "p \<noteq> 0"
    using less.prems n by (subst (asm) copyinstr.simps) (auto simp: Let_def kbind_Ok_iff split: if_splits)
  let ?r = "scan_nul (pmem u) (p + (va - PGROUNDDOWN va)) ?k"
  show ?case
  proof (cases "snd ?r")
    case True
    then have "bs = fst ?r" using less.prems n w by (subst (asm) copyinstr.simps) (auto simp: Let_def)
    then show ?thesis using scan_nul_length(2) [OF True] k by simp
  next
    case False
    then obtain cs v where c: "copyinstr h pt (PGROUNDDOWN va + PGSIZE) (n - ?k) u = Ok (Some cs) v" "bs = fst ?r @ cs"
      using less.prems n w by (subst (asm) copyinstr.simps) (auto simp: Let_def kbind_Ok_iff)
    have "length cs < n - ?k" using less.IH [OF _ c(1)] k by simp
    then show ?thesis using c(2) scan_nul_length(1) [of "pmem u" "p + (va - PGROUNDDOWN va)" ?k] by simp
  qed
qed

lemma fetchstr_short: "fetchstr h va n s = Ok (Some (l, bs)) t \<Longrightarrow> length bs < n"
  by (auto simp: fetchstr_def elim!: kbind_OkE dest!: copyinstr_short)

lemma exec_args_bounds:
  "exec_args h k ua acc s = Ok (ok, args) t \<Longrightarrow> \<forall>a\<in>set acc. length (snd a) < 4096 \<Longrightarrow>
   length args \<le> length acc + k \<and> (ok \<longrightarrow> length args < length acc + k) \<and> (\<forall>a\<in>set args. length (snd a) < 4096)"
proof (induction k arbitrary: ua acc s)
  case (Suc k)
  from Suc.prems(1) consider "args = acc" | pg where "args = acc @ [(pg, [])]" "\<not> ok"
    | pg bs u where "length bs < 4096" "exec_args h k (ua + 8) (acc @ [(pg, bs)]) u = Ok (ok, args) t"
    by (auto elim!: kbind_OkE split: option.split_asm if_split_asm prod.split_asm dest!: fetchstr_short)
  then show ?case
  proof cases
    case 3
    then show ?thesis using Suc.IH [OF 3(2)] Suc.prems(2) by auto
  qed (use Suc.prems(2) in auto)
qed simp

lemma exec_arguments_in_bounds:
  assumes "exec_args h MAXARG ua [] s = Ok (True, args) t" and "push_args h pt base (map snd args) [] sz u = Ok (Some (sp, us)) v"
    and "4096 \<le> base" and "base \<le> sz"
  shows "length us = length args \<and> length us < MAXARG"
proof -
  have a: "length args < MAXARG" "\<forall>a\<in>set args. length (snd a) < 4096" using exec_args_bounds [OF assms(1)] by simp_all
  then show ?thesis using push_args_bounds [OF assms(3,2) _ assms(4)] by auto
qed



end
