(* ===== verification/Boot.thy ===== *)
theory Boot
  imports Shell Init
begin

text \<open>
  The first program, \<^verbatim>\<open>main\<close> of \<^verbatim>\<open>user/init.c\<close>, as the tree of its system calls: it connects the router, \<^verbatim>\<open>llmhelper\<close> and the shell with two pipes and
  starts the shell again whenever it exits.  The number \<open>n\<close> is fuel: the rounds of the two loops, which never end, that the tree has.
\<close>

section \<open>The program\<close>

definition say :: "string \<Rightarrow> arg list \<Rightarrow> prog \<Rightarrow> prog" where
  "say fmt as p = SWrite 1 (uprintf (fmt @ [Lines.NL]) as) p"

definition sh_kid :: "int \<Rightarrow> int \<Rightarrow> prog" where
  "sh_kid sh0 llm0 =
     SClose 0 (SDup sh0 (\<lambda>_. SClose sh0 (SClose llm0
       (SExec ''sh'' [''sh''] (say ''init: exec sh failed'' [] (SExit 1))))))"

fun init_sh :: "nat \<Rightarrow> int \<Rightarrow> int \<Rightarrow> prog"
  and init_wait :: "nat \<Rightarrow> int \<Rightarrow> int \<Rightarrow> int \<Rightarrow> prog" where
  "init_sh 0 sh0 llm0 = SMore"
| "init_sh (Suc n) sh0 llm0 =
     say ''init: starting sh'' []
       (SFork (sh_kid sh0 llm0) (\<lambda>shpid.
          if shpid < 0 then say ''init: fork sh failed'' [] (SExit 1)
          else say ''init: started sh (pid=%d)'' [AWord (of_int shpid)] (init_wait n sh0 llm0 shpid)))"
| "init_wait 0 sh0 llm0 shpid = SMore"
| "init_wait (Suc n) sh0 llm0 shpid =
     SWait (\<lambda>wpid.
       if wpid = shpid then init_sh n sh0 llm0
       else if wpid < 0 then say ''init: wait returned an error'' [] (SExit 1)
       else init_wait n sh0 llm0 shpid)"

definition llm_kid :: "int \<Rightarrow> int \<Rightarrow> prog" where
  "llm_kid sh0 llm0 =
     SClose 0 (SDup llm0 (\<lambda>_. SClose llm0 (SClose sh0
       (SExec ''llmhelper'' [''llmhelper''] (say ''init: exec llmhelper failed'' [] (SExit 1))))))"

text \<open>From the second \<^verbatim>\<open>fork\<close> on, in the parent.\<close>

definition init_llm :: "nat \<Rightarrow> int \<Rightarrow> int \<Rightarrow> prog" where
  "init_llm n sh0 llm0 =
     SFork (llm_kid sh0 llm0) (\<lambda>pid.
       let rest = say ''init: started llmhelper (pid=%d)'' [AWord (of_int pid)] (init_sh n sh0 llm0)
       in if pid < 0 then say ''init: fork llmhelper failed'' [] rest else rest)"

text \<open>From the first \<^verbatim>\<open>fork\<close> on.\<close>

definition init_pipes :: "nat \<Rightarrow> int \<times> int \<Rightarrow> int \<times> int \<Rightarrow> prog" where
  "init_pipes n shpipe llmpipe =
     SFork (SClose (fst shpipe) (SClose (fst llmpipe) (SRouter (snd shpipe) (snd llmpipe) (SExit 0)))) (\<lambda>pid.
       if pid < 0 then say ''init: fork router failed'' [] (SExit 1)
       else SClose (snd shpipe) (SClose (snd llmpipe) (init_llm n (fst shpipe) (fst llmpipe))))"

definition init_main :: "nat \<Rightarrow> prog" where
  "init_main n =
     (let bad = say ''init: pipe failed'' [] (SExit 1);
          rest = SDup 0 (\<lambda>_. SDup 0 (\<lambda>_.
            SPipe (\<lambda>p. case p of None \<Rightarrow> bad | Some shpipe \<Rightarrow>
            SPipe (\<lambda>q. case q of None \<Rightarrow> bad | Some llmpipe \<Rightarrow> init_pipes n shpipe llmpipe))))
      in SOpen ''console'' O_RDWR (\<lambda>fd.
           if fd < 0 then SMknod ''console'' (int CONSOLE) 0 (SOpen ''console'' O_RDWR (\<lambda>_. rest)) else rest))"

section \<open>Who is connected to what\<close>

abbreviation con :: fdobj where
  "con \<equiv> FileObj ''console'' O_RDWR"

text \<open>The descriptors of \<^verbatim>\<open>init\<close> once it holds only the read ends of the two pipes.\<close>

definition init_fds :: "nat \<Rightarrow> fdt" where
  "init_fds k = (std con con con)(3 \<mapsto> PipeR k, 5 \<mapsto> PipeR (Suc k))"

lemma execs_say [simp]: "execs (say fmt as p) t k = execs p t k"
  by (simp add: say_def)

lemma kid_fds:
  "fd_low ((init_fds k)(0 := None)) = Some 0" "init_fds k 3 = Some (PipeR k)" "init_fds k 5 = Some (PipeR (Suc k))"
  "(init_fds k)(0 \<mapsto> x, 3 := None, 5 := None) = std x con con" "(init_fds k)(0 \<mapsto> x, 5 := None, 3 := None) = std x con con"
  by (auto simp: fd_low_def NOFILE_def upt_rec init_fds_def std_def fun_eq_iff)

lemma execs_sh_kid: "execs (sh_kid 3 5) (init_fds k) j = ([Started ''sh'' [''sh''] (std (PipeR k) con con)], j)"
  by (simp add: sh_kid_def kid_fds)

lemma execs_llm_kid: "execs (llm_kid 3 5) (init_fds k) j = ([Started ''llmhelper'' [''llmhelper''] (std (PipeR (Suc k)) con con)], j)"
  by (simp add: llm_kid_def kid_fds)

lemma execs_init_sh:
  "execs (init_sh (2 * n) 3 5) (init_fds k) j = (replicate n (Started ''sh'' [''sh''] (std (PipeR k) con con)), j)"
  by (induction n) (auto simp: execs_sh_kid)

lemma boot_fds:
  "fd_low Map.empty = Some 0" "fd_low [0 \<mapsto> a] = Some 1" "fd_low [0 \<mapsto> a, Suc 0 \<mapsto> b] = Some 2"
  "fd_low [0 \<mapsto> a, Suc 0 \<mapsto> b, 2 \<mapsto> c] = Some 3" "fd_low [0 \<mapsto> a, Suc 0 \<mapsto> b, 2 \<mapsto> c, 3 \<mapsto> d] = Some 4"
  "fd_low [0 \<mapsto> a, Suc 0 \<mapsto> b, 2 \<mapsto> c, 3 \<mapsto> d, 4 \<mapsto> e] = Some 5"
  "fd_low [0 \<mapsto> a, Suc 0 \<mapsto> b, 2 \<mapsto> c, 3 \<mapsto> d, 4 \<mapsto> e, 5 \<mapsto> f] = Some 6"
  by (simp_all add: fd_low_def NOFILE_def upt_rec)

lemma parent_fds:
  "(init_fds k)(4 := None, 6 := None) = init_fds k"
  "[0 \<mapsto> con, Suc 0 \<mapsto> con, 2 \<mapsto> con, 3 \<mapsto> PipeR k, 5 \<mapsto> PipeR (Suc k)] = init_fds k"
  by (auto simp: init_fds_def std_def fun_eq_iff)


end
