(* ===== verification/Umalloc.thy ===== *)
theory Umalloc
  imports Prelude
begin

text \<open>
  The memory allocator of the user library, \<^verbatim>\<open>user/umalloc.c\<close>.  A pointer is an address; the header at an address is kept apart from the data, in two maps, and
  \<^verbatim>\<open>sizeof(Header)\<close> is 16.  The two loops follow the circular list of free blocks and are partial functions: a loop that does not come to an
  end has no result, and it is proved that on a well-formed list both end.
\<close>

section \<open>The code\<close>

record uheap =
  h_ptr :: "nat \<Rightarrow> nat"
  h_size :: "nat \<Rightarrow> u32"
  freep :: nat
  u_brk :: nat

text \<open>The search of \<^verbatim>\<open>free\<close> for the block after which \<open>bp\<close> belongs.\<close>

partial_function (option) free_find :: "uheap \<Rightarrow> nat \<Rightarrow> nat \<Rightarrow> nat option" where
  "free_find s bp p =
     (if bp > p \<and> bp < h_ptr s p then Some p
      else if p \<ge> h_ptr s p \<and> (bp > p \<or> bp < h_ptr s p) then Some p
      else free_find s bp (h_ptr s p))"

definition join_upper :: "nat \<Rightarrow> nat \<Rightarrow> uheap \<Rightarrow> uheap" where
  "join_upper bp p s =
     (if bp + 16 * unat (h_size s bp) = h_ptr s p
      then s\<lparr>h_size := (h_size s)(bp := h_size s bp + h_size s (h_ptr s p)), h_ptr := (h_ptr s)(bp := h_ptr s (h_ptr s p))\<rparr>
      else s\<lparr>h_ptr := (h_ptr s)(bp := h_ptr s p)\<rparr>)"

definition join_lower :: "nat \<Rightarrow> nat \<Rightarrow> uheap \<Rightarrow> uheap" where
  "join_lower bp p s =
     (if p + 16 * unat (h_size s p) = bp
      then s\<lparr>h_size := (h_size s)(p := h_size s p + h_size s bp), h_ptr := (h_ptr s)(p := h_ptr s bp)\<rparr>
      else s\<lparr>h_ptr := (h_ptr s)(p := bp)\<rparr>)"

definition ufree :: "nat \<Rightarrow> uheap \<Rightarrow> uheap option" where
  "ufree ap s =
     (let bp = ap - 16
      in map_option (\<lambda>p. (join_lower bp p (join_upper bp p s))\<lparr>freep := p\<rparr>) (free_find s bp (freep s)))"

text \<open>
  \<^verbatim>\<open>sbrk\<close>: the old break, or nothing for \<^verbatim>\<open>SBRK_ERROR\<close>.  Whether there is memory to grow is up to the kernel; shrinking below zero does nothing
  and succeeds, as in \<^verbatim>\<open>growproc\<close>.
\<close>

definition usbrk :: "(nat \<Rightarrow> nat \<Rightarrow> bool) \<Rightarrow> int \<Rightarrow> uheap \<Rightarrow> nat option \<times> uheap" where
  "usbrk avail n s =
     (if n \<ge> 0 then (if avail (u_brk s) (nat n) then (Some (u_brk s), s\<lparr>u_brk := u_brk s + nat n\<rparr>) else (None, s))
      else (Some (u_brk s), if - n \<le> int (u_brk s) then s\<lparr>u_brk := u_brk s - nat (- n)\<rparr> else s))"

definition morecore :: "(nat \<Rightarrow> nat \<Rightarrow> bool) \<Rightarrow> u32 \<Rightarrow> uheap \<Rightarrow> (nat \<times> uheap) option" where
  "morecore avail nu s =
     (let nu = (if nu < 4096 then 4096 else nu)
      in case usbrk avail (sint (ucast (ucast nu * 16 :: u64) :: u32)) s of
           (None, s) \<Rightarrow> Some (0, s)
         | (Some p, s) \<Rightarrow> map_option (\<lambda>s. (freep s, s)) (ufree (p + 16) (s\<lparr>h_size := (h_size s)(p := nu)\<rparr>)))"

text \<open>What is done with a block \<open>p\<close> that is large enough, \<open>prevp\<close> being the block before it.\<close>

definition take_block :: "u32 \<Rightarrow> nat \<Rightarrow> nat \<Rightarrow> uheap \<Rightarrow> nat \<times> uheap" where
  "take_block nunits prevp p s =
     (if h_size s p = nunits
      then (p + 16, s\<lparr>h_ptr := (h_ptr s)(prevp := h_ptr s p), freep := prevp\<rparr>)
      else let rest = h_size s p - nunits; q = p + 16 * unat rest
           in (q + 16, s\<lparr>h_size := (h_size s)(p := rest, q := nunits), freep := prevp\<rparr>))"

partial_function (option) malloc_loop :: "(nat \<Rightarrow> nat \<Rightarrow> bool) \<Rightarrow> u32 \<Rightarrow> nat \<Rightarrow> nat \<Rightarrow> uheap \<Rightarrow> (nat \<times> uheap) option" where
  "malloc_loop avail nunits prevp p s =
     (if h_size s p \<ge> nunits then Some (take_block nunits prevp p s)
      else if p = freep s then
        Option.bind (morecore avail nunits s) (\<lambda>(p, s).
          if p = 0 then Some (0, s) else malloc_loop avail nunits p (h_ptr s p) s)
      else malloc_loop avail nunits p (h_ptr s p) s)"

definition units_for :: "u32 \<Rightarrow> u32" where
  "units_for nbytes = ucast ((ucast nbytes + 16 - 1 :: u64) div 16 + 1)"

text \<open>The first call makes a circle of the static header \<^verbatim>\<open>base\<close>, whose address is \<open>b\<close>.\<close>

definition set_up :: "nat \<Rightarrow> uheap \<Rightarrow> uheap" where
  "set_up b s = (if freep s = 0 then s\<lparr>h_ptr := (h_ptr s)(b := b), h_size := (h_size s)(b := 0), freep := b\<rparr> else s)"

definition malloc :: "(nat \<Rightarrow> nat \<Rightarrow> bool) \<Rightarrow> nat \<Rightarrow> u32 \<Rightarrow> uheap \<Rightarrow> (nat \<times> uheap) option" where
  "malloc avail b nbytes s =
     (let nunits = units_for nbytes; s = set_up b s
      in malloc_loop avail nunits (freep s) (h_ptr s (freep s)) s)"

declare free_find.simps [code] malloc_loop.simps [code]

section \<open>The list of free blocks\<close>

abbreviation span :: "uheap \<Rightarrow> nat \<Rightarrow> nat" where
  "span s p \<equiv> 16 * unat (h_size s p)"

definition spans :: "uheap \<Rightarrow> nat list \<Rightarrow> nat set" where
  "spans s ps = (\<Union>p\<in>set ps. {p..<p + span s p})"

text \<open>The list is a circle, and in order of addresses from the static header on no two blocks touch.\<close>

definition circle :: "(nat \<Rightarrow> nat) \<Rightarrow> nat list \<Rightarrow> bool" where
  "circle nx ps \<longleftrightarrow> ps \<noteq> [] \<and> successively (\<lambda>p q. nx p = q) ps \<and> nx (last ps) = hd ps"

definition apart :: "uheap \<Rightarrow> nat list \<Rightarrow> bool" where
  "apart s ps \<longleftrightarrow> sorted_wrt (\<lambda>p q. p + span s p < q) ps"

definition heap_ok :: "nat \<Rightarrow> uheap \<Rightarrow> nat list \<Rightarrow> bool" where
  "heap_ok b s qs \<longleftrightarrow>
     0 < b \<and> b < u_brk s \<and> u_brk s \<le> 2 ^ 36 \<and> circle (h_ptr s) (b # qs) \<and> apart s (b # qs) \<and> freep s \<in> set (b # qs) \<and>
     h_size s b = 0 \<and> (\<forall>q\<in>set qs. h_size s q \<noteq> 0 \<and> q + span s q \<le> u_brk s)"

lemma circle_rotate: "circle nx (xs @ ys) \<Longrightarrow> circle nx (ys @ xs)"
  by (cases "xs = []"; cases "ys = []") (auto simp: circle_def successively_append_iff)

lemma circle_next: "circle nx (xs @ p # q # ys) \<Longrightarrow> nx p = q"
  by (auto simp: circle_def successively_append_iff)

lemma circle_last: "circle nx (xs @ [p]) \<Longrightarrow> nx p = hd (xs @ [p])"
  by (simp add: circle_def)

lemma circle_cong: "(\<And>p. p \<in> set ps \<Longrightarrow> nx p = nx' p) \<Longrightarrow> circle nx ps = circle nx' ps"
  unfolding circle_def by (intro conj_cong refl successively_cong) auto

lemma apart_mono: "apart s ps \<Longrightarrow> p \<in> set ps \<Longrightarrow> q \<in> set ps \<Longrightarrow> p < q \<Longrightarrow> p + span s p < q"
  by (induction ps) (auto simp: apart_def)

lemma apart_sorted: "apart s ps \<Longrightarrow> sorted_wrt (<) ps"
  by (auto simp: apart_def elim: sorted_wrt_mono_rel [rotated])

lemma apart_append: "apart s (xs @ ys) \<longleftrightarrow> apart s xs \<and> apart s ys \<and> (\<forall>p\<in>set xs. \<forall>q\<in>set ys. p + span s p < q)"
  by (simp add: apart_def sorted_wrt_append)

lemma apart_cong: "(\<And>p. p \<in> set ps \<Longrightarrow> h_size s p = h_size s' p) \<Longrightarrow> apart s ps = apart s' ps"
  unfolding apart_def by (induction ps) auto

text \<open>A walk around a circle that stops only at one element gets there from everywhere.\<close>

lemma circle_walk:
  assumes "circle nx (xs @ k # ys)" and "\<And>p. p \<in> set xs \<union> set ys \<Longrightarrow> f p = f (nx p)" and "p \<in> set (xs @ k # ys)"
  shows "f p = f k"
proof -
  have line: "f p = f (last zs)" if "successively (\<lambda>p q. nx p = q) zs" "set (butlast zs) \<subseteq> set xs \<union> set ys" "p \<in> set zs" for zs p
    using that
  proof (induction zs arbitrary: p rule: induct_list012)
    case (3 a b zs)
    have ih: "f q = f (last (b # zs))" if "q \<in> set (b # zs)" for q using 3(2) [OF _ _ that] "3.prems"(1,2) by simp
    have "f a = f b" using assms(2) [of a] "3.prems"(1,2) by simp
    then have "f p = f (last (b # zs))" using ih [of p] ih [of b] "3.prems"(3) by (cases "p = a") simp_all
    then show ?case by simp
  qed simp_all
  let ?zs = "ys @ xs @ [k]"
  have c: "circle nx ?zs" using circle_rotate [of nx "xs @ [k]" ys] assms(1) by simp
  moreover have "butlast ?zs = ys @ xs" by (simp add: butlast_append)
  ultimately have "f p = f (last ?zs)" using line [of ?zs p] assms(3) by (auto simp: circle_def)
  then show ?thesis by simp
qed

section \<open>Freeing\<close>

text \<open>A block \<open>bp\<close> that is in use: behind the static header, and not in any free block.\<close>

definition in_use :: "nat \<Rightarrow> uheap \<Rightarrow> nat list \<Rightarrow> nat \<Rightarrow> bool" where
  "in_use b s qs bp \<longleftrightarrow> b < bp \<and> h_size s bp \<noteq> 0 \<and> bp + span s bp \<le> u_brk s \<and> {bp..<bp + span s bp} \<inter> spans s (b # qs) = {}"

text \<open>The place of the block: everything in \<open>xs\<close> ends before it, everything in \<open>ys\<close> begins after it.\<close>

lemma place:
  assumes "heap_ok b s qs" and "in_use b s qs bp"
  obtains xs p ys where "b # qs = xs @ p # ys" and "\<forall>q\<in>set (xs @ [p]). q < bp \<and> q + span s q \<le> bp" and "\<forall>q\<in>set ys. bp + span s bp \<le> q"
proof -
  have ap: "apart s (b # qs)" and sz: "h_size s b = 0" "\<forall>q\<in>set qs. h_size s q \<noteq> 0" using assms(1) by (auto simp: heap_ok_def)
  have bp: "b < bp" "h_size s bp \<noteq> 0" "{bp..<bp + span s bp} \<inter> spans s (b # qs) = {}" using assms(2) by (auto simp: in_use_def)
  let ?us = "takeWhile (\<lambda>q. q < bp) (b # qs)" and ?ys = "dropWhile (\<lambda>q. q < bp) (b # qs)"
  have us: "?us \<noteq> []" using bp(1) by simp
  have split: "b # qs = butlast ?us @ last ?us # ?ys" using us by (metis append.assoc append_Cons append_Nil append_butlast_last_id takeWhile_dropWhile_id)
  have lo: "q < bp \<and> q + span s q \<le> bp" if "q \<in> set ?us" for q
  proof -
    have q: "q < bp" "q \<in> set (b # qs)" using that by (auto dest: set_takeWhileD)
    have "bp \<notin> {q..<q + span s q}" using bp(2,3) q(2) by (auto simp: spans_def unat_gt_0 dest!: equalityD1 [THEN subsetD, of _ _ bp])
    then show ?thesis using q(1) by auto
  qed
  have hi: "bp + span s bp \<le> q" if "q \<in> set ?ys" for q
  proof -
    have "sorted_wrt (<) ?ys" using apart_sorted [OF ap] split by (metis sorted_wrt_append takeWhile_dropWhile_id)
    moreover have "\<not> hd ?ys < bp" using that hd_dropWhile [of "\<lambda>q. q < bp" "b # qs"] by fastforce
    ultimately have q: "bp \<le> q" using that by (cases ?ys) auto
    have "q \<in> set (b # qs)" using that by (rule set_dropWhileD)
    then have qs: "q \<in> set qs" using q bp(1) by auto
    then have "0 < span s q" using sz(2) by (simp add: unat_gt_0)
    then have "q \<in> spans s (b # qs)" using qs unfolding spans_def by (intro UN_I [of q]) auto
    then have "q \<notin> {bp..<bp + span s bp}" using bp(3) by blast
    then show ?thesis using q by simp
  qed
  show thesis
  proof (rule that [OF split])
    show "\<forall>q\<in>set (butlast ?us @ [last ?us]). q < bp \<and> q + span s q \<le> bp"
      unfolding append_butlast_last_id [OF us] using lo by blast
    show "\<forall>q\<in>set ?ys. bp + span s bp \<le> q" using hi by blast
  qed
qed

lemma chain_cong:
  "successively (\<lambda>p q. nx p = q) xs \<Longrightarrow> (\<And>q. q \<in> set xs \<Longrightarrow> nx' q = nx q) \<Longrightarrow> successively (\<lambda>p q. nx' p = q) xs"
  by (induction xs rule: induct_list012) auto

lemma circle_splice:
  assumes "circle nx (xs @ p # ys)" and "ys1 = ys \<or> ys1 = tl ys" and "\<And>q. q \<in> set xs \<union> set ys1 \<Longrightarrow> nx' q = nx q"
    and "successively (\<lambda>p q. nx' p = q) (p # zs)" and "nx' (last (p # zs)) = hd (ys1 @ [hd (xs @ [p])])"
  shows "circle nx' (xs @ p # zs @ ys1)"
proof -
  have ys: "successively (\<lambda>p q. nx p = q) ys" "ys \<noteq> [] \<Longrightarrow> nx (last ys) = hd (xs @ [p])"
    using assms(1) by (cases xs; auto simp: circle_def successively_append_iff successively_Cons)+
  have "successively (\<lambda>p q. nx p = q) ys1" "ys1 \<noteq> [] \<Longrightarrow> nx (last ys1) = hd (xs @ [p])"
    using assms(2) ys by (cases ys; auto simp: successively_Cons)+
  then have y1: "successively (\<lambda>p q. nx' p = q) ys1" "ys1 \<noteq> [] \<Longrightarrow> nx' (last ys1) = hd (xs @ [p])"
    using assms(3) chain_cong [of nx ys1 nx'] by simp_all
  have "successively (\<lambda>p q. nx p = q) xs" "xs \<noteq> [] \<Longrightarrow> nx (last xs) = p"
    using assms(1) by (auto simp: circle_def successively_append_iff)
  then have x1: "successively (\<lambda>p q. nx' p = q) xs" "xs \<noteq> [] \<Longrightarrow> nx' (last xs) = p"
    using assms(3) chain_cong [of nx xs nx'] by simp_all
  have "successively (\<lambda>p q. nx' p = q) ((p # zs) @ ys1)"
    using assms(4,5) y1(1) unfolding successively_append_iff by (cases ys1) simp_all
  then have "successively (\<lambda>p q. nx' p = q) (xs @ p # zs @ ys1)"
    using x1 by (cases "xs = []") (simp_all add: successively_append_iff)
  moreover have "nx' (last (xs @ p # zs @ ys1)) = hd (xs @ p # zs @ ys1)"
    using assms(5) y1(2) by (cases "ys1 = []"; cases xs) auto
  ultimately show ?thesis by (simp add: circle_def)
qed

text \<open>The successor in an ordered circle.\<close>

lemma circle_order:
  assumes "circle nx ps" and "sorted_wrt (<) ps" and "q \<in> set ps"
  shows "q < nx q \<and> nx q \<in> set ps \<or> q = last ps \<and> nx q = hd ps"
proof -
  obtain as cs where ps: "ps = as @ q # cs" using assms(3) by (metis split_list)
  show ?thesis
  proof (cases cs)
    case Nil
    then show ?thesis using circle_last assms(1) ps by auto
  next
    case (Cons c ds)
    then show ?thesis using circle_next assms(1,2) ps by (force simp: sorted_wrt_append)
  qed
qed

lemma free_find_place:
  assumes "heap_ok b s qs" and "b < bp" and "h_size s bp \<noteq> 0" and "b # qs = xs @ p # ys"
    and "\<forall>q\<in>set (xs @ [p]). q < bp \<and> q + span s q \<le> bp" and "\<forall>q\<in>set ys. bp + span s bp \<le> q"
  shows "free_find s bp (freep s) = Some p" and "h_ptr s p = hd (ys @ [b])"
proof -
  have c: "circle (h_ptr s) (xs @ p # ys)" and so: "sorted_wrt (<) (xs @ p # ys)" and fp: "freep s \<in> set (xs @ p # ys)"
    using assms(1) apart_sorted unfolding heap_ok_def assms(4) by blast+
  have "0 < span s bp" using assms(3) by (simp add: unat_gt_0)
  then have ys: "bp < q" if "q \<in> set ys" for q using assms(6) that by fastforce
  have hd: "hd (xs @ p # ys) = b" using assms(4) by (metis list.sel(1))
  have go: "free_find s bp q = free_find s bp (h_ptr s q)" if q: "q \<in> set xs \<union> set ys" for q
  proof -
    from q have "\<not> (bp > q \<and> bp < h_ptr s q) \<and> \<not> (q \<ge> h_ptr s q \<and> (bp > q \<or> bp < h_ptr s q))"
    proof
      assume "q \<in> set xs"
      then obtain as cs where xs: "xs = as @ q # cs" by (metis split_list)
      have "h_ptr s q = hd (cs @ [p])" using c circle_next [of "h_ptr s" as q] xs by (cases cs) auto
      then have "h_ptr s q \<in> set (cs @ [p])" by (cases cs) auto
      then have "q < h_ptr s q" "h_ptr s q < bp" using assms(5) so xs by (auto simp: sorted_wrt_append)
      then show ?thesis by simp
    next
      assume "q \<in> set ys"
      then show ?thesis using circle_order [OF c so, of q] ys [of q] assms(2) hd by auto
    qed
    then show ?thesis by (subst free_find.simps) auto
  qed
  show n: "h_ptr s p = hd (ys @ [b])"
  proof (cases ys)
    case Nil
    then show ?thesis using circle_last [of "h_ptr s" xs p] c hd by simp
  next
    case (Cons y zs)
    then show ?thesis using circle_next [of "h_ptr s" xs p] c by simp
  qed
  have "free_find s bp (freep s) = free_find s bp p" by (rule circle_walk [where f = "free_find s bp", OF c go fp])
  also have "\<dots> = Some p"
  proof (cases ys)
    case Nil
    then show ?thesis using n assms(2,5) so hd by (subst free_find.simps) (cases xs; auto)
  next
    case (Cons y zs)
    then show ?thesis using n assms(5) ys [of y] by (subst free_find.simps) auto
  qed
  finally show "free_find s bp (freep s) = Some p" .
qed

lemma unat_sum: "unat (a :: u32) + unat c < 2 ^ 32 \<Longrightarrow> unat (a + c) = unat a + unat c"
  by (simp add: unat_add_lem [where 'a = 32, simplified])

text \<open>After \<^verbatim>\<open>join_upper\<close> the block, with the free block above it if it touched it, ends before the free blocks \<open>ys1\<close> that are left.\<close>

lemma join_upper_spec:
  assumes "heap_ok b s qs" and "b < bp" and "h_size s bp \<noteq> 0" and "bp + span s bp \<le> u_brk s" and "b # qs = xs @ p # ys"
    and "\<forall>q\<in>set (xs @ [p]). q < bp \<and> q + span s q \<le> bp" and "\<forall>q\<in>set ys. bp + span s bp \<le> q"
  obtains ys1 where "ys1 = ys \<or> ys1 = tl ys" and "h_ptr (join_upper bp p s) bp = hd (ys1 @ [b])"
    and "\<forall>q\<in>set ys1. bp + span (join_upper bp p s) bp < q"
    and "{bp..<bp + span (join_upper bp p s) bp} \<union> spans s ys1 = {bp..<bp + span s bp} \<union> spans s ys"
    and "bp + span (join_upper bp p s) bp \<le> u_brk s" and "h_size (join_upper bp p s) bp \<noteq> 0"
proof (cases "bp + span s bp = h_ptr s p")
  case False
  have n: "h_ptr s p = hd (ys @ [b])" by (rule free_find_place(2) [OF assms(1-3,5-7)])
  have so: "sorted_wrt (<) ys" using apart_sorted [of s "b # qs"] assms(1) unfolding heap_ok_def assms(5) by (simp add: sorted_wrt_append)
  have ne: "bp + span s bp \<noteq> hd ys" if "ys \<noteq> []" using False n that by (cases ys) auto
  have "bp + span s bp < q" if "q \<in> set ys" for q
    using assms(7) that so ne by (cases ys) (auto simp: le_less)
  then show thesis using that [of ys] n assms(3,4) False by (simp add: join_upper_def)
next
  case True
  have n: "h_ptr s p = hd (ys @ [b])" by (rule free_find_place(2) [OF assms(1-3,5-7)])
  obtain y zs where ys: "ys = y # zs" using True n assms(2) by (cases ys) auto
  then have y: "bp + span s bp = y" using True n by simp
  have "y \<in> set (b # qs)" unfolding assms(5) ys by simp
  then have yq: "y \<in> set qs" using y assms(2) by simp
  have h: "circle (h_ptr s) (xs @ p # y # zs)" "apart s (xs @ p # y # zs)" "u_brk s \<le> 2 ^ 36"
    using assms(1,2,5) ys y unfolding heap_ok_def by simp_all
  have yb: "y + span s y \<le> u_brk s" using assms(1) yq by (simp add: heap_ok_def)
  have "unat (h_size s bp) + unat (h_size s y) < 2 ^ 32" using y yb h(3) assms(2) by simp
  then have sz: "span (join_upper bp p s) bp = span s bp + span s y" "h_size (join_upper bp p s) bp \<noteq> 0"
    using True n ys unat_sum [of "h_size s bp" "h_size s y"] assms(3) by (auto simp: join_upper_def unat_eq_0 [symmetric])
  have nx: "h_ptr s y = hd (zs @ [b])"
  proof (cases zs)
    case Nil
    then show ?thesis using circle_last [of "h_ptr s" "xs @ [p]" y] h(1) assms(5) by (cases xs) auto
  next
    case (Cons z ws)
    then show ?thesis using circle_next [of "h_ptr s" "xs @ [p]" y z ws] h(1) by simp
  qed
  have above: "\<forall>q\<in>set zs. y + span s y < q" using h(2) by (simp add: apart_def sorted_wrt_append)
  have iv: "{bp..<bp + (span s bp + span s y)} = {bp..<bp + span s bp} \<union> {y..<y + span s y}" using y by auto
  show thesis
  proof (rule that [of zs])
    show "h_ptr (join_upper bp p s) bp = hd (zs @ [b])" using True n ys nx by (simp add: join_upper_def)
    show "\<forall>q\<in>set zs. bp + span (join_upper bp p s) bp < q" unfolding sz(1) add.assoc [symmetric] y using above .
    show "{bp..<bp + span (join_upper bp p s) bp} \<union> spans s zs = {bp..<bp + span s bp} \<union> spans s ys"
      unfolding sz(1) iv ys by (auto simp: spans_def)
    show "bp + span (join_upper bp p s) bp \<le> u_brk s" unfolding sz(1) add.assoc [symmetric] y using yb .
  qed (use ys sz(2) in simp_all)
qed

lemma join_upper_frame:
  "q \<noteq> bp \<Longrightarrow> h_ptr (join_upper bp p s) q = h_ptr s q" "q \<noteq> bp \<Longrightarrow> h_size (join_upper bp p s) q = h_size s q"
  "u_brk (join_upper bp p s) = u_brk s"
  by (simp_all add: join_upper_def)

lemma join_lower_frame:
  "q \<noteq> p \<Longrightarrow> h_ptr (join_lower bp p s) q = h_ptr s q" "q \<noteq> p \<Longrightarrow> h_size (join_lower bp p s) q = h_size s q"
  "u_brk (join_lower bp p s) = u_brk s"
  by (simp_all add: join_lower_def)

lemma spans_cong: "(\<And>p. p \<in> set ps \<Longrightarrow> h_size s p = h_size s' p) \<Longrightarrow> spans s ps = spans s' ps"
  by (simp add: spans_def)

lemma spans_append: "spans s (xs @ ys) = spans s xs \<union> spans s ys"
  by (simp add: spans_def)

lemma spans_Cons: "spans s (p # ys) = {p..<p + span s p} \<union> spans s ys"
  by (simp add: spans_def)

text \<open>
  The invariant in terms of the place: what has to be shown of the list after a block, and its neighbours, have been put in.
\<close>

lemma heap_okI:
  assumes "heap_ok b s qs" and "b # qs = xs @ p # ys" and "circle (h_ptr t) (xs @ p # zs)" and "u_brk t = u_brk s" and "freep t = p"
    and "\<forall>q\<in>set xs. h_size t q = h_size s q" and "apart t (p # zs)" and "p = b \<longrightarrow> h_size t p = 0"
    and "\<forall>q\<in>set (p # zs). q \<noteq> b \<longrightarrow> h_size t q \<noteq> 0 \<and> q + span t q \<le> u_brk s" and "\<forall>q\<in>set zs. p < q"
  shows "heap_ok b t (tl (xs @ p # zs))" and "b # tl (xs @ p # zs) = xs @ p # zs"
proof -
  show eq: "b # tl (xs @ p # zs) = xs @ p # zs" using assms(2) by (cases xs) auto
  have ap: "apart s (xs @ p # ys)" using assms(1,2) by (simp add: heap_ok_def)
  have "apart t xs" using ap assms(6) apart_cong [of xs s t] by (simp add: apart_append)
  moreover have "q + span t q < r" if "q \<in> set xs" "r \<in> set (p # zs)" for q r
    using ap assms(6,10) that by (auto simp: apart_append) (meson less_trans)
  ultimately have "apart t (b # tl (xs @ p # zs))" unfolding eq using assms(7) by (simp add: apart_append)
  moreover have sz: "h_size t b = 0" using assms(1,2,6,8) by (cases xs) (auto simp: heap_ok_def)
  moreover have "h_size t q \<noteq> 0 \<and> q + span t q \<le> u_brk t" if q: "q \<in> set (tl (xs @ p # zs))" for q
  proof -
    have "b < q" using apart_sorted [OF calculation(1)] q by simp
    moreover have "q \<in> set xs \<or> q \<in> set (p # zs)" using q eq by (metis Un_iff list.set_intros(2) set_append)
    moreover have "q \<in> set qs" if "q \<in> set xs" "q \<noteq> b" using that assms(2) by (metis Un_iff set_ConsD set_append)
    ultimately show ?thesis using assms(1,4,6,9) by (auto simp: heap_ok_def)
  qed
  ultimately show "heap_ok b t (tl (xs @ p # zs))"
    using assms(1,3,4,5) eq unfolding heap_ok_def by simp
qed

text \<open>The block has its place, and \<^verbatim>\<open>join_upper\<close> has left the free blocks \<open>ys1\<close> above it.\<close>

definition placed :: "nat \<Rightarrow> uheap \<Rightarrow> nat list \<Rightarrow> nat \<Rightarrow> nat list \<Rightarrow> nat \<Rightarrow> nat list \<Rightarrow> nat list \<Rightarrow> bool" where
  "placed b s qs bp xs p ys ys1 \<longleftrightarrow>
     heap_ok b s qs \<and> b < bp \<and> h_size s bp \<noteq> 0 \<and> b # qs = xs @ p # ys \<and>
     (\<forall>q\<in>set (xs @ [p]). q < bp \<and> q + span s q \<le> bp) \<and> (\<forall>q\<in>set ys. bp + span s bp \<le> q) \<and>
     (ys1 = ys \<or> ys1 = tl ys) \<and> h_ptr (join_upper bp p s) bp = hd (ys1 @ [b]) \<and>
     (\<forall>q\<in>set ys1. bp + span (join_upper bp p s) bp < q) \<and>
     {bp..<bp + span (join_upper bp p s) bp} \<union> spans s ys1 = {bp..<bp + span s bp} \<union> spans s ys \<and>
     bp + span (join_upper bp p s) bp \<le> u_brk s \<and> h_size (join_upper bp p s) bp \<noteq> 0"

lemma placed_ex:
  assumes "heap_ok b s qs" and "in_use b s qs bp"
  obtains xs p ys ys1 where "placed b s qs bp xs p ys ys1"
proof -
  obtain xs p ys where pl: "b # qs = xs @ p # ys" "\<forall>q\<in>set (xs @ [p]). q < bp \<and> q + span s q \<le> bp" "\<forall>q\<in>set ys. bp + span s bp \<le> q"
    using place [OF assms] by blast
  have bp: "b < bp" "h_size s bp \<noteq> 0" "bp + span s bp \<le> u_brk s" using assms(2) by (auto simp: in_use_def)
  obtain ys1 where y: "ys1 = ys \<or> ys1 = tl ys" "h_ptr (join_upper bp p s) bp = hd (ys1 @ [b])"
      "\<forall>q\<in>set ys1. bp + span (join_upper bp p s) bp < q"
      "{bp..<bp + span (join_upper bp p s) bp} \<union> spans s ys1 = {bp..<bp + span s bp} \<union> spans s ys"
      "bp + span (join_upper bp p s) bp \<le> u_brk s" "h_size (join_upper bp p s) bp \<noteq> 0"
    using join_upper_spec [OF assms(1) bp pl] .
  show thesis by (rule that [of xs p ys ys1], unfold placed_def, intro conjI) (fact assms(1) bp pl y)+
qed

abbreviation freed :: "nat \<Rightarrow> nat \<Rightarrow> uheap \<Rightarrow> uheap" where
  "freed bp p s \<equiv> (join_lower bp p (join_upper bp p s))\<lparr>freep := p\<rparr>"

lemma placed_facts:
  assumes "placed b s qs bp xs p ys ys1"
  shows "p < bp" and "hd (xs @ [p]) = b" and "b \<le> p" and "set ys1 \<subseteq> set ys"
    and "q \<in> set xs \<union> set ys1 \<Longrightarrow> q \<noteq> p \<and> q \<noteq> bp"
    and "q \<in> set (p # ys1) \<Longrightarrow> q \<noteq> b \<Longrightarrow> h_size s q \<noteq> 0 \<and> q + span s q \<le> u_brk s"
    and "circle (h_ptr s) (xs @ p # ys)" and "apart s ys1" and "span s bp \<le> span (join_upper bp p s) bp"
proof -
  have ok: "heap_ok b s qs" and sp: "b # qs = xs @ p # ys" and lo: "\<forall>q\<in>set (xs @ [p]). q < bp \<and> q + span s q \<le> bp"
    and y1: "ys1 = ys \<or> ys1 = tl ys" "\<forall>q\<in>set ys1. bp + span (join_upper bp p s) bp < q"
    and un: "{bp..<bp + span (join_upper bp p s) bp} \<union> spans s ys1 = {bp..<bp + span s bp} \<union> spans s ys"
    using assms unfolding placed_def by blast+
  have ap: "apart s (xs @ p # ys)" and c: "circle (h_ptr s) (xs @ p # ys)" using ok unfolding heap_ok_def sp by blast+
  note so = apart_sorted [OF ap]
  show "circle (h_ptr s) (xs @ p # ys)" by (rule c)
  show "p < bp" using lo by simp
  show hx: "hd (xs @ [p]) = b" using sp by (cases xs) auto
  show "b \<le> p" using so hx by (cases xs) auto
  show sub: "set ys1 \<subseteq> set ys" using y1(1) by (cases ys) auto
  show "q \<noteq> p \<and> q \<noteq> bp" if "q \<in> set xs \<union> set ys1" using that so sub lo y1(2) by (fastforce simp: sorted_wrt_append)
  show "h_size s q \<noteq> 0 \<and> q + span s q \<le> u_brk s" if q: "q \<in> set (p # ys1)" "q \<noteq> b"
  proof -
    have "q \<in> set (b # qs)" unfolding sp using q(1) sub by auto
    then show ?thesis using q(2) ok by (simp add: heap_ok_def)
  qed
  have "apart s ys" using ap by (simp add: apart_def sorted_wrt_append)
  then show "apart s ys1" using y1(1) by (cases ys) (auto simp: apart_def)
  show "span s bp \<le> span (join_upper bp p s) bp"
  proof (rule ccontr)
    assume "\<not> ?thesis"
    then have "bp + span (join_upper bp p s) bp \<in> {bp..<bp + span (join_upper bp p s) bp} \<union> spans s ys1" unfolding un by simp
    then show False using y1(2) by (auto simp: spans_def)
  qed
qed

lemma freed_frame:
  "q \<noteq> p \<Longrightarrow> q \<noteq> bp \<Longrightarrow> h_ptr (freed bp p s) q = h_ptr s q" "q \<noteq> p \<Longrightarrow> q \<noteq> bp \<Longrightarrow> h_size (freed bp p s) q = h_size s q"
  "u_brk (freed bp p s) = u_brk s"
  by (simp_all add: join_upper_frame join_lower_frame)

text \<open>What is left to show, once the list \<open>zs\<close> of the free blocks above \<open>p\<close> is known.\<close>

lemma freed_ok:
  assumes pl: "placed b s qs bp xs p ys ys1" and ci: "circle (h_ptr (freed bp p s)) (xs @ p # zs)" and ap: "apart (freed bp p s) (p # zs)"
    and sz: "p = b \<longrightarrow> h_size (freed bp p s) p = 0" and lt: "\<forall>q\<in>set zs. p < q"
    and en: "\<forall>q\<in>set (p # zs). q \<noteq> b \<longrightarrow> h_size (freed bp p s) q \<noteq> 0 \<and> q + span (freed bp p s) q \<le> u_brk s"
    and sp: "spans (freed bp p s) (p # zs) = {p..<p + span s p} \<union> ({bp..<bp + span (join_upper bp p s) bp} \<union> spans s ys1)"
    and k: "k \<in> set (p # zs)" "k \<noteq> b"
  obtains rs where "heap_ok b (freed bp p s) rs" and "spans (freed bp p s) (b # rs) = spans s (b # qs) \<union> {bp..<bp + span s bp}" and "k \<in> set rs"
proof -
  note f = placed_facts [OF pl]
  have ok: "heap_ok b s qs" and qs: "b # qs = xs @ p # ys"
    and un: "{bp..<bp + span (join_upper bp p s) bp} \<union> spans s ys1 = {bp..<bp + span s bp} \<union> spans s ys"
    using pl unfolding placed_def by blast+
  have xs: "\<forall>q\<in>set xs. h_size (freed bp p s) q = h_size s q" using f(5) freed_frame(2) by (metis UnI1)
  note I = heap_okI [OF ok qs ci freed_frame(3) _ xs ap sz en lt]
  have rs: "b # tl (xs @ p # zs) = xs @ p # zs" by (rule I(2)) simp
  have "spans (freed bp p s) xs = spans s xs" by (rule spans_cong) (use xs in simp)
  then have "spans (freed bp p s) (b # tl (xs @ p # zs)) = spans s xs \<union> ({p..<p + span s p} \<union> ({bp..<bp + span s bp} \<union> spans s ys))"
    unfolding rs spans_append sp un by simp
  also have "\<dots> = spans s (b # qs) \<union> {bp..<bp + span s bp}" unfolding qs spans_append spans_Cons by (simp add: ac_simps)
  finally have "spans (freed bp p s) (b # tl (xs @ p # zs)) = spans s (b # qs) \<union> {bp..<bp + span s bp}" .
  moreover have "k \<in> set (b # tl (xs @ p # zs))" unfolding rs using k(1) by auto
  ultimately show thesis using that [OF I(1)] k(2) by simp
qed

lemma freed_spec:
  assumes pl: "placed b s qs bp xs p ys ys1"
  obtains rs k where "heap_ok b (freed bp p s) rs" and "spans (freed bp p s) (b # rs) = spans s (b # qs) \<union> {bp..<bp + span s bp}"
    and "k \<in> set rs" and "{bp..<bp + span s bp} \<subseteq> {k..<k + span (freed bp p s) k}"
proof -
  note give = that and f = placed_facts [OF pl] and ok = freed_ok [OF pl]
  let ?s1 = "join_upper bp p s" and ?t = "freed bp p s"
  have h: "heap_ok b s qs" "b < bp" "\<forall>q\<in>set (xs @ [p]). q < bp \<and> q + span s q \<le> bp" "ys1 = ys \<or> ys1 = tl ys" "h_ptr ?s1 bp = hd (ys1 @ [b])"
      "\<forall>q\<in>set ys1. bp + span ?s1 bp < q" "bp + span ?s1 bp \<le> u_brk s" "h_size ?s1 bp \<noteq> 0"
    using pl unfolding placed_def by blast+
  have fr: "h_ptr ?t q = h_ptr s q" "h_size ?t q = h_size s q" if "q \<in> set xs \<union> set ys1" for q
    using f(5) [OF that] freed_frame(1,2) [of q p bp s] by blast+
  have p1: "h_size ?s1 p = h_size s p" using f(1) join_upper_frame(2) by (metis less_irrefl)
  have apt: "apart ?t ys1" using f(8) fr(2) apart_cong [of ys1 s ?t] by simp
  have sy: "spans ?t ys1 = spans s ys1" by (rule spans_cong) (use fr(2) in simp)
  have szb: "p = b \<Longrightarrow> h_size s p = 0" and b0: "0 < b" "u_brk s \<le> 2 ^ 36" using h(1) by (simp_all add: heap_ok_def)
  show thesis
  proof (cases "p + span ?s1 p = bp")
    case True
    have pb: "p \<noteq> b" using True szb p1 f(1) by auto
    have "p + span s p + span ?s1 bp \<le> u_brk s" using True p1 h(7) by simp
    then have "unat (h_size s p) + unat (h_size ?s1 bp) < 2 ^ 32" using b0 f(3) by simp
    then have sz: "span ?t p = span s p + span ?s1 bp" using True p1 unat_sum [of "h_size s p"] by (simp add: join_lower_def)
    have ends: "p + span ?t p = bp + span ?s1 bp" using sz True p1 by simp
    have iv: "{p..<p + span ?t p} = {p..<p + span s p} \<union> {bp..<bp + span ?s1 bp}" using ends True p1 f(1) by auto
    have "h_ptr ?t p = hd (ys1 @ [b])" using True h(5) by (simp add: join_lower_def)
    then have ci: "circle (h_ptr ?t) (xs @ p # ys1)" using circle_splice [OF f(7) h(4), of "h_ptr ?t" "[]"] fr(1) f(2) by simp
    have nz: "h_size ?t p \<noteq> 0" using sz h(8) by (auto simp: unat_eq_0)
    have en: "\<forall>q\<in>set (p # ys1). q \<noteq> b \<longrightarrow> h_size ?t q \<noteq> 0 \<and> q + span ?t q \<le> u_brk s" using nz ends h(7) f(6) fr(2) by auto
    have ap: "apart ?t (p # ys1)" using apt h(6) ends by (simp add: apart_def)
    have ob: "p = b \<longrightarrow> h_size ?t p = 0" using pb by simp
    have lt: "\<forall>q\<in>set ys1. p < q" using h(6) f(1) by auto
    have sp: "spans ?t (p # ys1) = {p..<p + span s p} \<union> ({bp..<bp + span ?s1 bp} \<union> spans s ys1)"
      unfolding spans_Cons sy iv by (rule Un_assoc)
    have "{bp..<bp + span s bp} \<subseteq> {p..<p + span ?t p}" unfolding ends atLeastLessThan_subset_iff using f(1,9) by simp
    moreover obtain rs where "heap_ok b ?t rs" "spans ?t (b # rs) = spans s (b # qs) \<union> {bp..<bp + span s bp}" "p \<in> set rs"
      by (rule ok [OF ci ap ob lt en sp list.set_intros(1) pb])
    ultimately show ?thesis using give by blast
  next
    case False
    have tp: "h_ptr ?t p = bp" "h_size ?t p = h_size s p" "h_ptr ?t bp = hd (ys1 @ [b])" "h_size ?t bp = h_size ?s1 bp"
      using False h(5) f(1) p1 by (simp_all add: join_lower_def)
    have ci: "circle (h_ptr ?t) (xs @ p # bp # ys1)" using circle_splice [OF f(7) h(4), of "h_ptr ?t" "[bp]"] fr(1) f(2) tp by simp
    have "p + span s p < bp" using False p1 h(3) by (simp add: le_less)
    then have ap: "apart ?t (p # bp # ys1)" using apt h(6) tp by (auto simp: apart_def)
    have en: "\<forall>q\<in>set (p # bp # ys1). q \<noteq> b \<longrightarrow> h_size ?t q \<noteq> 0 \<and> q + span ?t q \<le> u_brk s" using tp h(7,8) f(6) fr(2) by auto
    have sp: "spans ?t (p # bp # ys1) = {p..<p + span s p} \<union> ({bp..<bp + span ?s1 bp} \<union> spans s ys1)"
      unfolding spans_Cons sy tp by (rule refl)
    have ob: "p = b \<longrightarrow> h_size ?t p = 0" unfolding tp(2) using szb by blast
    have lt: "\<forall>q\<in>set (bp # ys1). p < q" using h(6) f(1) by auto
    have nb: "bp \<noteq> b" using h(2) by simp
    have "{bp..<bp + span s bp} \<subseteq> {bp..<bp + span ?t bp}" unfolding tp(4) atLeastLessThan_subset_iff using f(9) by simp
    moreover obtain rs where "heap_ok b ?t rs" "spans ?t (b # rs) = spans s (b # qs) \<union> {bp..<bp + span s bp}" "bp \<in> set rs"
      by (rule ok [OF ci ap ob lt en sp list.set_intros(2) [OF list.set_intros(1)] nb])
    ultimately show ?thesis using give by blast
  qed
qed

lemma ufree_spec:
  assumes ok: "heap_ok b s qs" and use: "in_use b s qs bp"
  obtains t rs q where "ufree (bp + 16) s = Some t" and "heap_ok b t rs" and "u_brk t = u_brk s"
    and "spans t (b # rs) = spans s (b # qs) \<union> {bp..<bp + span s bp}"
    and "\<forall>r. r \<notin> spans t (b # rs) \<longrightarrow> r \<noteq> b \<longrightarrow> h_size t r = h_size s r"
    and "q \<in> set rs" and "{bp..<bp + span s bp} \<subseteq> {q..<q + span t q}"
proof -
  obtain xs p ys ys1 where pl: "placed b s qs bp xs p ys ys1" using placed_ex [OF ok use] .
  note f = placed_facts [OF pl]
  have h: "b < bp" "h_size s bp \<noteq> 0" "b # qs = xs @ p # ys" "\<forall>q\<in>set (xs @ [p]). q < bp \<and> q + span s q \<le> bp" "\<forall>q\<in>set ys. bp + span s bp \<le> q"
    using pl unfolding placed_def by blast+
  obtain rs k where rs: "heap_ok b (freed bp p s) rs" "spans (freed bp p s) (b # rs) = spans s (b # qs) \<union> {bp..<bp + span s bp}"
      "k \<in> set rs" "{bp..<bp + span s bp} \<subseteq> {k..<k + span (freed bp p s) k}"
    using freed_spec [OF pl] .
  have find: "ufree (bp + 16) s = Some (freed bp p s)" using free_find_place(1) [OF ok h] by (simp add: ufree_def)
  have "p \<in> spans s (b # qs)" if "p \<noteq> b" using f(6) [of p] that unfolding h(3) by (auto simp: spans_def unat_gt_0)
  moreover have "bp \<in> spans s (b # qs) \<union> {bp..<bp + span s bp}" using h(2) by (simp add: unat_gt_0)
  ultimately have "r \<noteq> p \<and> r \<noteq> bp" if "r \<notin> spans s (b # qs) \<union> {bp..<bp + span s bp}" "r \<noteq> b" for r using that by blast
  then have "\<forall>r. r \<notin> spans (freed bp p s) (b # rs) \<longrightarrow> r \<noteq> b \<longrightarrow> h_size (freed bp p s) r = h_size s r"
    unfolding rs(2) using freed_frame(2) by (intro allI impI) simp
  then show thesis using that [OF find rs(1) freed_frame(3) rs(2) _ rs(3,4)] by blast
qed

section \<open>Taking a block\<close>

lemma circle_pred:
  assumes "circle nx ps" and "a \<in> set ps" and "nx a = p" and "p \<noteq> hd ps"
  obtains xs ys where "ps = xs @ a # p # ys"
proof -
  obtain xs zs where ps: "ps = xs @ a # zs" using assms(2) by (metis split_list)
  show thesis
  proof (cases zs)
    case Nil
    then show ?thesis using circle_last [of nx xs a] assms ps by simp
  next
    case (Cons z ys)
    then show ?thesis using circle_next [of nx xs a z ys] assms(1,3) ps that by simp
  qed
qed

lemma spans_base: "heap_ok b s qs \<Longrightarrow> spans s (b # qs) = spans s qs"
  by (simp add: spans_def heap_ok_def)

lemma take_whole:
  assumes ok: "heap_ok b s qs" and pl: "b # qs = xs @ a # p # ys" and t: "t = s\<lparr>h_ptr := (h_ptr s)(a := h_ptr s p), freep := a\<rparr>"
  obtains rs where "heap_ok b t rs" and "b # rs = xs @ a # ys"
proof -
  have c: "circle (h_ptr s) (xs @ a # p # ys)" and so: "sorted_wrt (<) (xs @ a # p # ys)" and ap: "apart s (xs @ a # p # ys)"
    using ok apart_sorted unfolding heap_ok_def pl by blast+
  have hx: "hd (xs @ [a]) = b" using pl by (cases xs) auto
  have "h_ptr s p = hd (ys @ [b])"
  proof (cases ys)
    case Nil
    then show ?thesis using circle_last [of "h_ptr s" "xs @ [a]" p] c hx by (cases xs) auto
  next
    case (Cons y zs)
    then show ?thesis using circle_next [of "h_ptr s" "xs @ [a]" p y zs] c by simp
  qed
  moreover have "h_ptr t q = h_ptr s q" if "q \<in> set xs \<union> set ys" for q
    using that so by (auto simp: t sorted_wrt_append)
  ultimately have ci: "circle (h_ptr t) (xs @ a # ys)"
    using circle_splice [OF c, of ys "h_ptr t" "[]"] hx by (simp add: t)
  have in_qs: "q \<in> set qs" if "q \<in> set (a # ys)" "q \<noteq> b" for q
  proof -
    have "q \<in> set (b # qs)" unfolding pl using that(1) by auto
    then show ?thesis using that(2) by simp
  qed
  have "\<forall>q\<in>set (a # ys). q \<noteq> b \<longrightarrow> h_size t q \<noteq> 0 \<and> q + span t q \<le> u_brk s" using in_qs ok by (auto simp: t heap_ok_def)
  moreover have "a = b \<longrightarrow> h_size t a = 0" using ok by (simp add: t heap_ok_def)
  moreover have "apart t (a # ys)" using ap by (simp add: t apart_def sorted_wrt_append)
  ultimately have "heap_ok b t (tl (xs @ a # ys))" "b # tl (xs @ a # ys) = xs @ a # ys"
    using heap_okI [OF ok pl ci] so by (simp_all add: t sorted_wrt_append)
  then show thesis using that by blast
qed

lemma take_part:
  assumes ok: "heap_ok b s qs" and p: "p \<in> set qs" and a: "a \<in> set (b # qs)" and n: "n \<noteq> 0" "n < h_size s p"
    and q: "q = p + 16 * unat (h_size s p - n)" and t: "t = s\<lparr>h_size := (h_size s)(p := h_size s p - n, q := n), freep := a\<rparr>"
  shows "heap_ok b t qs" and "q + 16 * unat n = p + span s p" and "p < q" and "q \<notin> set (b # qs)" and "b < p"
proof -
  have un: "unat (h_size s p - n) = unat (h_size s p) - unat n" using n by (simp add: unat_sub)
  have lt: "unat n < unat (h_size s p)" "0 < unat n" using n by (simp_all add: word_less_nat_alt unat_gt_0)
  show qe: "q + 16 * unat n = p + span s p" using lt by (simp add: q un)
  show pq: "p < q" using lt by (simp add: q un)
  have ap: "apart s (b # qs)" using ok by (simp add: heap_ok_def)
  show bp: "b < p" using apart_sorted [OF ap] p by simp
  have out: "r = p \<or> r < p \<or> p + span s p < r" if "r \<in> set (b # qs)" for r
    using apart_mono [OF ap _ that, of p] p by force
  show qn: "q \<notin> set (b # qs)" using out [of q] pq qe lt by auto
  have sz: "h_size t r = h_size s r" if "r \<in> set (b # qs)" "r \<noteq> p" for r using that qn by (auto simp: t)
  have tp: "h_size t p = h_size s p - n" "span t p < span s p" using pq lt by (simp_all add: t un)
  have le: "span t r \<le> span s r" if "r \<in> set (b # qs)" for r using sz [OF that] tp(2) by (cases "r = p") simp_all
  have "r + span t r < u" if "r \<in> set (b # qs)" "r + span s r < u" for r u using le [OF that(1)] that(2) by linarith
  then have "apart t (b # qs)" unfolding apart_def by (rule sorted_wrt_mono_rel [OF _ ap [unfolded apart_def]])
  moreover have "h_size t r \<noteq> 0 \<and> r + span t r \<le> u_brk t" if r: "r \<in> set qs" for r
  proof -
    have "h_size s r \<noteq> 0" "r + span s r \<le> u_brk s" using ok r by (simp_all add: heap_ok_def)
    moreover have "h_size t p \<noteq> 0" using tp(1) n(2) by auto
    ultimately show ?thesis using sz [of r] le [of r] r by (cases "r = p") (auto simp: t)
  qed
  moreover have "h_size t b = 0" using sz [of b] bp ok by (simp add: heap_ok_def)
  ultimately show "heap_ok b t qs" using ok a by (simp add: heap_ok_def t)
qed

lemma apart_disjoint:
  assumes "apart s ps" and "p \<in> set ps" and "q \<in> set ps" and "p \<noteq> q"
  shows "{p..<p + span s p} \<inter> {q..<q + span s q} = {}"
proof (cases "p < q")
  case True
  then show ?thesis using apart_mono [OF assms(1-3)] by auto
next
  case False
  then show ?thesis using apart_mono [OF assms(1,3,2)] assms(4) by auto
qed

lemma spans_remove:
  assumes "apart s ps" and "p \<in> set ps"
  shows "spans s ps - {p..<p + span s p} = (\<Union>q\<in>set ps - {p}. {q..<q + span s q})"
  using apart_disjoint [OF assms] assms(2) unfolding spans_def by blast

lemma take_block_spec:
  assumes ok: "heap_ok b s qs" and a: "a \<in> set (b # qs)" "h_ptr s a = p" "p \<in> set (b # qs)" and n: "n \<noteq> 0" "n \<le> h_size s p"
  obtains t rs bp where "take_block n a p s = (bp + 16, t)" and "heap_ok b t rs" and "h_size t bp = n" and "b < bp" and "u_brk t = u_brk s"
    and "{bp..<bp + 16 * unat n} \<subseteq> spans s qs" and "spans t rs = spans s qs - {bp..<bp + 16 * unat n}"
    and "\<forall>r. r \<notin> spans s qs \<longrightarrow> h_size t r = h_size s r"
proof -
  note give = that
  have ap: "apart s (b # qs)" and c: "circle (h_ptr s) (b # qs)" and sb: "h_size s b = 0" using ok by (simp_all add: heap_ok_def)
  have pb: "p \<noteq> b" using n sb by auto
  then have p: "p \<in> set qs" "b < p" using a(3) apart_sorted [OF ap] by auto
  have sub: "{p..<p + span s p} \<subseteq> spans s qs" using p(1) by (auto simp: spans_def)
  show thesis
  proof (cases "h_size s p = n")
    case True
    obtain xs ys where pl: "b # qs = xs @ a # p # ys" using circle_pred [OF c a(1,2)] pb by auto
    let ?t = "s\<lparr>h_ptr := (h_ptr s)(a := h_ptr s p), freep := a\<rparr>"
    obtain rs where rs: "heap_ok b ?t rs" "b # rs = xs @ a # ys" using take_whole [OF ok pl refl] .
    have so: "sorted_wrt (<) (xs @ a # p # ys)" using apart_sorted [OF ap] unfolding pl .
    have "set (b # rs) = set (b # qs) - {p}" unfolding rs(2) pl using so by (auto simp: sorted_wrt_append)
    then have "spans ?t (b # rs) = spans s (b # qs) - {p..<p + span s p}"
      using spans_remove [OF ap] a(3) by (simp add: spans_def)
    then have "spans ?t rs = spans s qs - {p..<p + span s p}" unfolding spans_base [OF ok] spans_base [OF rs(1)] .
    moreover have "take_block n a p s = (p + 16, ?t)" using True by (simp add: take_block_def)
    ultimately show thesis using give [of p ?t rs] rs(1) True p sub by simp
  next
    case False
    define q where "q = p + 16 * unat (h_size s p - n)"
    let ?t = "s\<lparr>h_size := (h_size s)(p := h_size s p - n, q := n), freep := a\<rparr>"
    note tk = take_part [OF ok p(1) a(1) n(1) _ q_def refl]
    have lt: "n < h_size s p" using n(2) False by simp
    note tk = tk [OF lt]
    have iv: "{q..<q + 16 * unat n} = {p..<p + span s p} - {p..<q}" using tk(2,3) by auto
    have tp: "p + span ?t p = q" using tk(3) by (simp add: q_def)
    have "{r..<r + span ?t r} = {r..<r + span s r} - {q..<q + 16 * unat n}" if r: "r \<in> set qs" for r
    proof (cases "r = p")
      case True
      then show ?thesis unfolding True tp using tk(2,3) by auto
    next
      case ne: False
      then have "{r..<r + span s r} \<inter> {p..<p + span s p} = {}" using apart_disjoint [OF ap, of r p] r p by simp
      moreover have "h_size ?t r = h_size s r" using ne r tk(4) by auto
      ultimately show ?thesis unfolding iv by auto
    qed
    then have "spans ?t qs = spans s qs - {q..<q + 16 * unat n}" by (auto simp: spans_def)
    moreover have "{q..<q + 16 * unat n} \<subseteq> spans s qs" unfolding iv using sub by blast
    moreover have "p \<in> spans s qs" "q \<in> spans s qs"
      using sub tk(2,3) n(1) unat_gt_0 [of n] by (auto simp: subset_iff)
    moreover have "take_block n a p s = (q + 16, ?t)" using False by (simp add: take_block_def Let_def q_def)
    ultimately show thesis using give [of q ?t qs] tk(1,3,5) by auto
  qed
qed

section \<open>The search\<close>

lemma malloc_scan:
  "successively (\<lambda>p q. h_ptr s p = q) zs \<Longrightarrow> zs \<noteq> [] \<Longrightarrow> last zs = freep s \<Longrightarrow> freep s \<notin> set (butlast zs) \<Longrightarrow> h_ptr s prevp = hd zs \<Longrightarrow>
   (\<exists>a p. (a = prevp \<or> a \<in> set zs) \<and> p \<in> set zs \<and> h_ptr s a = p \<and> n \<le> h_size s p \<and>
      malloc_loop av n prevp (hd zs) s = Some (take_block n a p s)) \<or>
   (\<forall>p\<in>set zs. \<not> n \<le> h_size s p) \<and>
      malloc_loop av n prevp (hd zs) s =
        Option.bind (morecore av n s) (\<lambda>(p, s). if p = 0 then Some (0, s) else malloc_loop av n p (h_ptr s p) s)"
proof (induction zs arbitrary: prevp rule: induct_list012)
  case (2 z)
  then show ?case by (subst malloc_loop.simps, subst (2) malloc_loop.simps) auto
next
  case (3 y z zs)
  show ?case
  proof (cases "n \<le> h_size s y")
    case True
    then show ?thesis using "3.prems"(5) by (intro disjI1 exI [of _ prevp] exI [of _ y]) (subst malloc_loop.simps, simp)
  next
    case False
    have "malloc_loop av n prevp (hd (y # z # zs)) s = malloc_loop av n y (hd (z # zs)) s"
      using False "3.prems" by (subst malloc_loop.simps) auto
    then show ?thesis using "3.IH"(2) [of y] False "3.prems" by auto
  qed
qed simp

lemma malloc_search:
  assumes ok: "heap_ok b s qs"
  shows "(\<exists>a p. a \<in> set (b # qs) \<and> p \<in> set (b # qs) \<and> h_ptr s a = p \<and> n \<le> h_size s p \<and>
      malloc_loop av n (freep s) (h_ptr s (freep s)) s = Some (take_block n a p s)) \<or>
    (\<forall>p\<in>set (b # qs). \<not> n \<le> h_size s p) \<and>
      malloc_loop av n (freep s) (h_ptr s (freep s)) s =
        Option.bind (morecore av n s) (\<lambda>(p, s). if p = 0 then Some (0, s) else malloc_loop av n p (h_ptr s p) s)"
proof -
  have c: "circle (h_ptr s) (b # qs)" and f: "freep s \<in> set (b # qs)" and "apart s (b # qs)" using ok by (simp_all add: heap_ok_def)
  then have d: "distinct (b # qs)" using apart_sorted strict_sorted_iff by blast
  obtain xs ys where ps: "b # qs = xs @ freep s # ys" using f by (metis split_list)
  let ?zs = "ys @ xs @ [freep s]"
  have cz: "circle (h_ptr s) ?zs" using circle_rotate [of "h_ptr s" "xs @ [freep s]" ys] c ps by simp
  then have su: "successively (\<lambda>p q. h_ptr s p = q) ?zs" and hd: "h_ptr s (freep s) = hd ?zs" by (simp_all add: circle_def)
  have fr: "freep s \<notin> set (butlast ?zs)" using d unfolding ps by (auto simp: butlast_append)
  have st: "set ?zs = set (b # qs)" unfolding ps by auto
  have "?zs \<noteq> []" "last ?zs = freep s" by simp_all
  from malloc_scan [OF su this fr hd, of n av] show ?thesis unfolding st hd [symmetric] using f by blast
qed

lemma usbrk_grow:
  "usbrk av (int k) s = (if av (u_brk s) k then (Some (u_brk s), s\<lparr>u_brk := u_brk s + k\<rparr>) else (None, s))"
  by (simp add: usbrk_def)

lemma sbrk_argument:
  assumes "16 * unat nu < 2 ^ 31"
  shows "sint (ucast (ucast nu * 16 :: u64) :: u32) = int (16 * unat nu)"
proof -
  define k where "k = 16 * unat nu"
  have k: "k < 2 ^ 31" using assms by (simp add: k_def)
  have "(ucast nu * 16 :: u64) = of_nat k" by (simp add: k_def)
  then have "(ucast (ucast nu * 16 :: u64) :: u32) = of_nat k"
    by (simp add: word_unat_eq_iff unsigned_ucast_eq unat_of_nat take_bit_eq_mod mod_mod_cancel)
  moreover have "sint (of_nat k :: u32) = int k"
    using k by (simp add: signed_of_nat signed_take_bit_int_eq_self)
  ultimately show ?thesis by (simp add: k_def)
qed

lemma heap_ok_below:
  assumes "heap_ok b s qs" and "q \<in> set (b # qs)"
  shows "q < u_brk s \<and> q + span s q \<le> u_brk s"
proof (cases "q = b")
  case False
  then have "h_size s q \<noteq> 0" "q + span s q \<le> u_brk s" using assms by (auto simp: heap_ok_def)
  moreover from this have "0 < span s q" by (simp add: unat_gt_0)
  ultimately show ?thesis by linarith
qed (use assms(1) in \<open>simp add: heap_ok_def\<close>)

lemma morecore_spec:
  assumes ok: "heap_ok b s qs" and nu: "nu = (if n < 4096 then 4096 else n)" "16 * unat nu < 2 ^ 31"
    and av: "av (u_brk s) (16 * unat nu) \<longrightarrow> u_brk s + 16 * unat nu \<le> 2 ^ 36"
  shows "\<not> av (u_brk s) (16 * unat nu) \<and> morecore av n s = Some (0, s) \<or>
    (\<exists>t rs. morecore av n s = Some (freep t, t) \<and> freep t \<noteq> 0 \<and> heap_ok b t rs \<and> u_brk t = u_brk s + 16 * unat nu \<and>
       spans t rs = spans s qs \<union> {u_brk s..<u_brk t} \<and> (\<forall>r. r \<notin> spans t rs \<longrightarrow> r \<noteq> b \<longrightarrow> h_size t r = h_size s r) \<and>
       (\<exists>q\<in>set rs. n \<le> h_size t q))"
proof (cases "av (u_brk s) (16 * unat nu)")
  case False
  then have "morecore av n s = Some (0, s)"
    unfolding morecore_def Let_def nu(1) [symmetric] sbrk_argument [OF nu(2)] usbrk_grow using False by simp
  then show ?thesis using False by blast
next
  case True
  let ?k = "u_brk s"
  let ?s = "s\<lparr>u_brk := ?k + 16 * unat nu, h_size := (h_size s)(?k := nu)\<rparr>"
  have nz: "nu \<noteq> 0" "n \<le> nu" using nu(1) by (auto simp: not_less dest: less_imp_le)
  have ap: "apart s (b # qs)" using ok by (simp add: heap_ok_def)
  have lo: "q < ?k" "q + span s q \<le> ?k" if "q \<in> set (b # qs)" for q
    using heap_ok_below [OF ok that] by simp_all
  then have sz: "h_size ?s q = h_size s q" if "q \<in> set (b # qs)" for q using that by fastforce
  have "apart ?s (b # qs)" using ap apart_cong [of "b # qs" s ?s] sz by simp
  then have ok': "heap_ok b ?s qs" using ok sz av True by (auto simp: heap_ok_def)
  have sp: "spans ?s (b # qs) = spans s (b # qs)" by (rule spans_cong) (rule sz)
  have "spans s (b # qs) \<inter> {?k..} = {}" using lo by (fastforce simp: spans_def)
  then have use: "in_use b ?s qs ?k" using ok nz unfolding in_use_def sp by (auto simp: heap_ok_def)
  obtain t rs q where t: "ufree (?k + 16) ?s = Some t" "heap_ok b t rs" "u_brk t = u_brk ?s"
      "spans t (b # rs) = spans ?s (b # qs) \<union> {?k..<?k + span ?s ?k}"
      "\<forall>r. r \<notin> spans t (b # rs) \<longrightarrow> r \<noteq> b \<longrightarrow> h_size t r = h_size ?s r" "q \<in> set rs" "{?k..<?k + span ?s ?k} \<subseteq> {q..<q + span t q}"
    using ufree_spec [OF ok' use] .
  have "morecore av n s = Some (freep t, t)"
    unfolding morecore_def Let_def nu(1) [symmetric] sbrk_argument [OF nu(2)] usbrk_grow using True t(1) by simp
  moreover have "freep t \<noteq> 0" using t(2) apart_sorted [of t "b # rs"] by (auto simp: heap_ok_def)
  moreover have eq: "spans t rs = spans s qs \<union> {?k..<u_brk t}"
    using t(3,4) unfolding sp spans_base [OF ok] spans_base [OF t(2)] by simp
  moreover have "\<forall>r. r \<notin> spans t rs \<longrightarrow> r \<noteq> b \<longrightarrow> h_size t r = h_size s r"
    using t(3,5) eq nz(1) unfolding spans_base [OF t(2)] by (auto simp: unat_gt_0)
  moreover have "n \<le> h_size t q"
  proof -
    have "16 * unat nu \<le> span t q" using t(7) nz(1) by (auto simp: unat_gt_0)
    then show ?thesis using nz(2) by (simp add: word_le_nat_alt)
  qed
  ultimately show ?thesis using t(2,3,6) by auto
qed

section \<open>Blocks in use\<close>

text \<open>The blocks in \<open>A\<close> are in use: disjoint from the free blocks and from each other.\<close>

definition blocks_ok :: "nat \<Rightarrow> uheap \<Rightarrow> nat list \<Rightarrow> nat set \<Rightarrow> bool" where
  "blocks_ok b s qs A \<longleftrightarrow> heap_ok b s qs \<and> (\<forall>p\<in>A. in_use b s qs p) \<and>
     (\<forall>p\<in>A. \<forall>q\<in>A. p \<noteq> q \<longrightarrow> {p..<p + span s p} \<inter> {q..<q + span s q} = {})"

lemma in_use_iff:
  "heap_ok b s qs \<Longrightarrow> in_use b s qs p \<longleftrightarrow> b < p \<and> h_size s p \<noteq> 0 \<and> p + span s p \<le> u_brk s \<and> {p..<p + span s p} \<inter> spans s qs = {}"
  by (simp add: in_use_def spans_base)

lemma in_use_self: "in_use b s qs p \<Longrightarrow> p \<in> {p..<p + span s p}"
  by (simp add: in_use_def unat_gt_0)

lemma malloc_loop_spec:
  assumes ok: "heap_ok b s qs" and n: "n \<noteq> 0" and nu: "nu = (if n < 4096 then 4096 else n)" "16 * unat nu < 2 ^ 31"
    and av: "\<forall>k m. av k m \<longrightarrow> k + m \<le> 2 ^ 36"
  shows "\<not> av (u_brk s) (16 * unat nu) \<and> malloc_loop av n (freep s) (h_ptr s (freep s)) s = Some (0, s) \<or>
    (\<exists>bp t rs. malloc_loop av n (freep s) (h_ptr s (freep s)) s = Some (bp + 16, t) \<and> heap_ok b t rs \<and> h_size t bp = n \<and> b < bp \<and>
       u_brk s \<le> u_brk t \<and> {bp..<bp + 16 * unat n} \<subseteq> spans s qs \<union> {u_brk s..<u_brk t} \<and>
       spans t rs = (spans s qs \<union> {u_brk s..<u_brk t}) - {bp..<bp + 16 * unat n} \<and>
       (\<forall>r. r \<notin> spans s qs \<union> {u_brk s..<u_brk t} \<longrightarrow> r \<noteq> b \<longrightarrow> h_size t r = h_size s r))"
    (is "?no \<or> ?yes")
proof -
  let ?l = "\<lambda>s. malloc_loop av n (freep s) (h_ptr s (freep s)) s"
  have fit: "\<exists>bp t rs. ?l u = Some (bp + 16, t) \<and> heap_ok b t rs \<and> h_size t bp = n \<and> b < bp \<and> u_brk t = u_brk u \<and>
      {bp..<bp + 16 * unat n} \<subseteq> spans u us \<and> spans t rs = spans u us - {bp..<bp + 16 * unat n} \<and> (\<forall>r. r \<notin> spans u us \<longrightarrow> h_size t r = h_size u r)"
    if u: "heap_ok b u us" and a: "a \<in> set (b # us)" "h_ptr u a = p" "p \<in> set (b # us)" "n \<le> h_size u p" "?l u = Some (take_block n a p u)" for u us a p
    using take_block_spec [OF u a(1-3) n a(4)] a(5) by metis
  from malloc_search [OF ok, of n av] show ?thesis
  proof
    assume "\<exists>a p. a \<in> set (b # qs) \<and> p \<in> set (b # qs) \<and> h_ptr s a = p \<and> n \<le> h_size s p \<and> ?l s = Some (take_block n a p s)"
    then obtain bp t rs where "?l s = Some (bp + 16, t)" "heap_ok b t rs" "h_size t bp = n" "b < bp" "u_brk t = u_brk s"
      "{bp..<bp + 16 * unat n} \<subseteq> spans s qs" "spans t rs = spans s qs - {bp..<bp + 16 * unat n}" "\<forall>r. r \<notin> spans s qs \<longrightarrow> h_size t r = h_size s r"
      using fit [OF ok] by metis
    then have ?yes by (intro exI [of _ bp] exI [of _ t] exI [of _ rs]) auto
    then show ?thesis ..
  next
    assume go: "(\<forall>p\<in>set (b # qs). \<not> n \<le> h_size s p) \<and>
      ?l s = Option.bind (morecore av n s) (\<lambda>(p, s). if p = 0 then Some (0, s) else malloc_loop av n p (h_ptr s p) s)"
    from av have av': "av (u_brk s) (16 * unat nu) \<longrightarrow> u_brk s + 16 * unat nu \<le> 2 ^ 36" by blast
    from morecore_spec [where av = av, OF ok nu av'] show ?thesis
    proof
      assume "\<not> av (u_brk s) (16 * unat nu) \<and> morecore av n s = Some (0, s)"
      then show ?thesis using go by simp
    next
      assume "\<exists>t rs. morecore av n s = Some (freep t, t) \<and> freep t \<noteq> 0 \<and> heap_ok b t rs \<and> u_brk t = u_brk s + 16 * unat nu \<and>
        spans t rs = spans s qs \<union> {u_brk s..<u_brk t} \<and> (\<forall>r. r \<notin> spans t rs \<longrightarrow> r \<noteq> b \<longrightarrow> h_size t r = h_size s r) \<and> (\<exists>q\<in>set rs. n \<le> h_size t q)"
      then obtain u us where u: "morecore av n s = Some (freep u, u)" "freep u \<noteq> 0" "heap_ok b u us" "u_brk u = u_brk s + 16 * unat nu"
        "spans u us = spans s qs \<union> {u_brk s..<u_brk u}" "\<forall>r. r \<notin> spans u us \<longrightarrow> r \<noteq> b \<longrightarrow> h_size u r = h_size s r" "\<exists>q\<in>set us. n \<le> h_size u q"
        by blast
      have l: "?l s = ?l u" using go u(1,2) by simp
      from malloc_search [OF u(3), of n av] u(7) obtain a p where "a \<in> set (b # us)" "h_ptr u a = p" "p \<in> set (b # us)" "n \<le> h_size u p"
        "?l u = Some (take_block n a p u)" by auto
      from fit [OF u(3) this] obtain bp t rs where "?l u = Some (bp + 16, t)" "heap_ok b t rs" "h_size t bp = n" "b < bp" "u_brk t = u_brk u"
        "{bp..<bp + 16 * unat n} \<subseteq> spans u us" "spans t rs = spans u us - {bp..<bp + 16 * unat n}" "\<forall>r. r \<notin> spans u us \<longrightarrow> h_size t r = h_size u r"
        by blast
      then have ?yes using l u(4,5,6) by (intro exI [of _ bp] exI [of _ t] exI [of _ rs]) auto
      then show ?thesis ..
    qed
  qed
qed

lemma blocks_grow:
  assumes "blocks_ok b s qs A" and "heap_ok b t rs" and "h_size t bp = n" and "b < bp" and "u_brk s \<le> u_brk t"
    and "{bp..<bp + span t bp} \<subseteq> spans s qs \<union> {u_brk s..<u_brk t}" and "spans t rs = (spans s qs \<union> {u_brk s..<u_brk t}) - {bp..<bp + span t bp}"
    and "\<forall>r. r \<notin> spans s qs \<union> {u_brk s..<u_brk t} \<longrightarrow> r \<noteq> b \<longrightarrow> h_size t r = h_size s r" and "n \<noteq> 0"
  shows "blocks_ok b t rs (insert bp A) \<and> bp \<notin> A \<and> (\<forall>p\<in>A. h_size t p = h_size s p)"
proof -
  have ok: "heap_ok b s qs" using assms(1) by (simp add: blocks_ok_def)
  have old: "b < p" "h_size s p \<noteq> 0" "p + span s p \<le> u_brk s" "{p..<p + span s p} \<inter> spans s qs = {}" "p \<in> {p..<p + span s p}" if "p \<in> A" for p
    using assms(1) that in_use_iff [OF ok, of p] in_use_self [of b s qs p] by (auto simp: blocks_ok_def)
  have out: "{p..<p + span s p} \<inter> (spans s qs \<union> {u_brk s..<u_brk t}) = {}" if "p \<in> A" for p using old [OF that] by auto
  then have sz: "h_size t p = h_size s p" if "p \<in> A" for p using old [OF that] assms(8) that by blast
  have far: "{p..<p + span t p} \<inter> {bp..<bp + span t bp} = {}" if "p \<in> A" for p using out [OF that] assms(6) unfolding sz [OF that] by blast
  have self: "bp \<in> {bp..<bp + span t bp}" using assms(3,9) by (simp add: unat_gt_0)
  have clear: "{p..<p + span t p} \<inter> spans t rs = {}" if "p \<in> A" for p using out [OF that] unfolding sz [OF that] assms(7) by blast
  have "in_use b t rs p" if "p \<in> A" for p
    using clear [OF that] old(1-3) [OF that] assms(5) unfolding in_use_iff [OF assms(2)] sz [OF that] by simp
  moreover have "in_use b t rs bp"
  proof -
    have "x < u_brk t" if "x \<in> {bp..<bp + span t bp}" for x
    proof (cases "x \<in> spans s qs")
      case True
      then show ?thesis using heap_ok_below [OF ok] assms(5) by (fastforce simp: spans_def)
    qed (use assms(6) that in auto)
    from this [of "bp + span t bp - 1"] have "bp + span t bp \<le> u_brk t" using self by simp linarith
    then show ?thesis using in_use_iff [OF assms(2), of bp] assms(3,4,7,9) by auto
  qed
  moreover have "bp \<notin> A" using far [of bp] self by blast
  moreover have "{p..<p + span t p} \<inter> {q..<q + span t q} = {}" if pq: "p \<in> insert bp A" "q \<in> insert bp A" "p \<noteq> q" for p q
  proof -
    consider "p = bp" "q \<in> A" | "p \<in> A" "q = bp" | "p \<in> A" "q \<in> A" using pq by blast
    then show ?thesis
    proof cases
      case 1
      then show ?thesis using far [of q] by (simp add: Int_commute)
    next
      case 2
      then show ?thesis using far [of p] by simp
    next
      case 3
      then show ?thesis using assms(1) pq(3) unfolding sz [OF 3(1)] sz [OF 3(2)] by (simp add: blocks_ok_def)
    qed
  qed
  ultimately show ?thesis unfolding blocks_ok_def using assms(2) sz by (intro conjI ballI impI) auto
qed

lemma unat_inv: "of_nat (unat w) = (w :: u64)"
  by simp

lemma units_for_bounds:
  assumes "unat nbytes < 2 ^ 31 - 32"
  shows "unat nbytes + 16 \<le> 16 * unat (units_for nbytes)" and "16 * unat (units_for nbytes) \<le> unat nbytes + 31" and "units_for nbytes \<noteq> 0"
proof -
  define k where "k = (unat nbytes + 15) div 16 + 1"
  have k: "k < 2 ^ 32" using assms by (simp add: k_def)
  have e: "(ucast nbytes + 16 - 1 :: u64) = of_nat (unat nbytes + 15)" by simp
  have "unat (of_nat (unat nbytes + 15) :: u64) = unat nbytes + 15" using assms by (simp add: unat_of_nat take_bit_nat_eq_self del: of_nat_add)
  then have "unat ((ucast nbytes + 16 - 1 :: u64) div 16) = (unat nbytes + 15) div 16" unfolding unat_div e by simp
  then have "(ucast nbytes + 16 - 1 :: u64) div 16 = of_nat ((unat nbytes + 15) div 16)" using unat_inv by metis
  then have "(ucast nbytes + 16 - 1 :: u64) div 16 + 1 = of_nat k" by (simp only: k_def of_nat_add of_nat_1)
  then have "units_for nbytes = ucast (of_nat k :: u64)" by (simp add: units_for_def)
  then have u: "unat (units_for nbytes) = k" using k by (simp add: unsigned_ucast_eq unat_of_nat take_bit_nat_eq_self)
  show "unat nbytes + 16 \<le> 16 * unat (units_for nbytes)" "16 * unat (units_for nbytes) \<le> unat nbytes + 31"
    unfolding u k_def by presburger+
  show "units_for nbytes \<noteq> 0" using u by (auto simp: k_def)
qed

lemma set_up_fresh:
  assumes "freep s = 0" and "0 < b" and "b < u_brk s" and "u_brk s \<le> 2 ^ 36"
  shows "blocks_ok b (set_up b s) [] {}"
  using assms by (simp add: blocks_ok_def heap_ok_def set_up_def circle_def apart_def)

text \<open>
  C21: \<^verbatim>\<open>malloc\<close> gives a block of its own.  From any state of the heap in which the blocks in use and the free blocks are disjoint, \<^verbatim>\<open>malloc\<close> comes to an end.
  Either the kernel refused to grow the heap, and the result is null and the heap as it was; or
  the result is a new block with room for the bytes asked for and the header, disjoint from every block in use, which all keep
  their size, and the free blocks are again in order, none touching another.  Requests are below two gigabytes and the heap ends below \<open>2 ^ 36\<close>.
\<close>

theorem malloc_gives_new_block:
  assumes "blocks_ok b (set_up b s) qs A" and "unat nbytes < 2 ^ 31 - 32" and "\<forall>k m. av k m \<longrightarrow> k + m \<le> 2 ^ 36"
  shows "\<exists>ap t rs. malloc av b nbytes s = Some (ap, t) \<and>
    (if ap = 0 then \<not> av (u_brk s) (16 * unat (max 4096 (units_for nbytes))) \<and> t = set_up b s
     else blocks_ok b t rs (insert (ap - 16) A) \<and> ap - 16 \<notin> A \<and> unat nbytes + 16 \<le> 16 * unat (h_size t (ap - 16)) \<and>
       (\<forall>p\<in>A. h_size t p = h_size (set_up b s) p))"
proof -
  let ?s = "set_up b s" and ?n = "units_for nbytes"
  have ok: "heap_ok b ?s qs" and use: "\<forall>p\<in>A. in_use b ?s qs p"
    and dis: "\<forall>p\<in>A. \<forall>q\<in>A. p \<noteq> q \<longrightarrow> {p..<p + span ?s p} \<inter> {q..<q + span ?s q} = {}"
    using assms(1) by (auto simp: blocks_ok_def)
  note ub = units_for_bounds [OF assms(2)]
  have mx: "max 4096 ?n = (if ?n < 4096 then 4096 else ?n)" by (simp add: max_def not_le [symmetric])
  have nu: "16 * unat (max 4096 ?n) < 2 ^ 31" using ub(2) assms(2) by (simp add: max_def)
  have m: "malloc av b nbytes s = malloc_loop av ?n (freep ?s) (h_ptr ?s (freep ?s)) ?s" by (simp add: malloc_def Let_def)
  have brk: "u_brk ?s = u_brk s" by (simp add: set_up_def)
  from malloc_loop_spec [OF ok ub(3) mx nu assms(3)] show ?thesis
  proof
    assume "\<not> av (u_brk ?s) (16 * unat (max 4096 ?n)) \<and> malloc_loop av ?n (freep ?s) (h_ptr ?s (freep ?s)) ?s = Some (0, ?s)"
    then show ?thesis using m brk by (intro exI [of _ 0] exI [of _ ?s]) simp
  next
    assume "\<exists>bp t rs. malloc_loop av ?n (freep ?s) (h_ptr ?s (freep ?s)) ?s = Some (bp + 16, t) \<and> heap_ok b t rs \<and> h_size t bp = ?n \<and> b < bp \<and>
       u_brk ?s \<le> u_brk t \<and> {bp..<bp + 16 * unat ?n} \<subseteq> spans ?s qs \<union> {u_brk ?s..<u_brk t} \<and>
       spans t rs = (spans ?s qs \<union> {u_brk ?s..<u_brk t}) - {bp..<bp + 16 * unat ?n} \<and>
       (\<forall>r. r \<notin> spans ?s qs \<union> {u_brk ?s..<u_brk t} \<longrightarrow> r \<noteq> b \<longrightarrow> h_size t r = h_size ?s r)"
    then obtain bp t rs where r: "malloc av b nbytes s = Some (bp + 16, t)" "heap_ok b t rs" "h_size t bp = ?n" "b < bp" "u_brk ?s \<le> u_brk t"
       "{bp..<bp + span t bp} \<subseteq> spans ?s qs \<union> {u_brk ?s..<u_brk t}" "spans t rs = (spans ?s qs \<union> {u_brk ?s..<u_brk t}) - {bp..<bp + span t bp}"
       "\<forall>r. r \<notin> spans ?s qs \<union> {u_brk ?s..<u_brk t} \<longrightarrow> r \<noteq> b \<longrightarrow> h_size t r = h_size ?s r"
      unfolding m by auto
    have "blocks_ok b t rs (insert bp A) \<and> bp \<notin> A \<and> (\<forall>p\<in>A. h_size t p = h_size ?s p)"
      by (rule blocks_grow [OF assms(1) r(2-8) ub(3)])
    then show ?thesis using r(1,3) ub(1) by (intro exI [of _ "bp + 16"] exI [of _ t] exI [of _ rs]) simp
  qed
qed

theorem malloc_gives_new_block_witness:
  "\<exists>ap t rs. malloc (\<lambda>k m. k + m \<le> 2 ^ 36) 0x2000 100 \<lparr>h_ptr = (\<lambda>_. 0), h_size = (\<lambda>_. 0), freep = 0, u_brk = 0x3000\<rparr> = Some (ap, t) \<and>
     ap \<noteq> 0 \<and> blocks_ok 0x2000 t rs {ap - 16} \<and> 116 \<le> 16 * unat (h_size t (ap - 16))"
proof -
  let ?s = "\<lparr>h_ptr = (\<lambda>_. 0), h_size = (\<lambda>_. 0), freep = 0, u_brk = 0x3000\<rparr>"
  have "blocks_ok 0x2000 (set_up 0x2000 ?s) [] {}" by (rule set_up_fresh) simp_all
  from malloc_gives_new_block [where av = "\<lambda>k m. k + m \<le> 2 ^ 36" and nbytes = 100, OF this] obtain ap t rs where
    r: "malloc (\<lambda>k m. k + m \<le> 2 ^ 36) 0x2000 100 ?s = Some (ap, t)"
      "if ap = 0 then \<not> u_brk ?s + 16 * unat (max 4096 (units_for 100)) \<le> 2 ^ 36 \<and> t = set_up 0x2000 ?s
       else blocks_ok 0x2000 t rs (insert (ap - 16) {}) \<and> ap - 16 \<notin> {} \<and> unat (100 :: u32) + 16 \<le> 16 * unat (h_size t (ap - 16)) \<and>
         (\<forall>p\<in>{}. h_size t p = h_size (set_up 0x2000 ?s) p)" by auto
  have "units_for 100 = 8" by (simp add: units_for_def)
  then have "unat (max 4096 (units_for 100)) = 4096" by (simp add: max_def)
  then have "ap \<noteq> 0" using r(2) by (cases "ap = 0") simp_all
  then show ?thesis using r by (intro exI [of _ ap] exI [of _ t] exI [of _ rs]) simp
qed

text \<open>
  C22: \<^verbatim>\<open>free\<close> takes a block back.  For any block in use \<^verbatim>\<open>free\<close> comes to an end, and afterwards the bytes of the block, and no others, have been added to the free ones,
  joined with the free blocks that touch it on either side, so that again no two free blocks touch; the other blocks
  in use keep their size and stay apart.
\<close>

theorem free_returns_block:
  assumes "blocks_ok b s qs A" and "p \<in> A"
  shows "\<exists>t rs. ufree (p + 16) s = Some t \<and> blocks_ok b t rs (A - {p}) \<and>
    spans t rs = spans s qs \<union> {p..<p + 16 * unat (h_size s p)} \<and> (\<forall>q\<in>A - {p}. h_size t q = h_size s q)"
proof -
  have ok: "heap_ok b s qs" and use: "\<And>q. q \<in> A \<Longrightarrow> in_use b s qs q"
    and dis: "\<And>q r. q \<in> A \<Longrightarrow> r \<in> A \<Longrightarrow> q \<noteq> r \<Longrightarrow> {q..<q + span s q} \<inter> {r..<r + span s r} = {}"
    using assms(1) by (auto simp: blocks_ok_def)
  obtain t rs k where t: "ufree (p + 16) s = Some t" "heap_ok b t rs" "u_brk t = u_brk s"
      "spans t (b # rs) = spans s (b # qs) \<union> {p..<p + span s p}"
      "\<forall>r. r \<notin> spans t (b # rs) \<longrightarrow> r \<noteq> b \<longrightarrow> h_size t r = h_size s r" "k \<in> set rs" "{p..<p + span s p} \<subseteq> {k..<k + span t k}"
    using ufree_spec [OF ok use [OF assms(2)]] .
  have sp: "spans t rs = spans s qs \<union> {p..<p + span s p}" using t(4) unfolding spans_base [OF ok] spans_base [OF t(2)] .
  have away: "{q..<q + span s q} \<inter> spans t rs = {}" "b < q" "h_size s q \<noteq> 0" "q + span s q \<le> u_brk s" if "q \<in> A - {p}" for q
    using use [of q] dis [of q p] that assms(2) unfolding sp in_use_iff [OF ok] by auto
  have sz: "h_size t q = h_size s q" if "q \<in> A - {p}" for q
    using t(5) away [OF that] in_use_self [OF use, of q] that unfolding spans_base [OF t(2)] by blast
  have "in_use b t rs q" if "q \<in> A - {p}" for q
    unfolding in_use_iff [OF t(2)] sz [OF that] t(3) using away [OF that] by blast
  moreover have "{q..<q + span t q} \<inter> {r..<r + span t r} = {}" if "q \<in> A - {p}" "r \<in> A - {p}" "q \<noteq> r" for q r
    unfolding sz [OF that(1)] sz [OF that(2)] using dis that by blast
  ultimately have "blocks_ok b t rs (A - {p})" using t(2) by (simp add: blocks_ok_def)
  then show ?thesis using t(1) sp sz by blast
qed

theorem free_returns_block_witness:
  "\<exists>t rs. ufree 0x3010 \<lparr>h_ptr = (\<lambda>_. 0x2000), h_size = (\<lambda>p. if p = 0x3000 then 256 else 0), freep = 0x2000, u_brk = 0x4000\<rparr> = Some t \<and>
     blocks_ok 0x2000 t rs {} \<and> spans t rs = {0x3000..<0x4000}"
proof -
  let ?s = "\<lparr>h_ptr = (\<lambda>_. 0x2000), h_size = (\<lambda>p. if p = 0x3000 then 256 else 0), freep = 0x2000, u_brk = 0x4000\<rparr>"
  have "blocks_ok 0x2000 ?s [] {0x3000}"
    by (simp add: blocks_ok_def heap_ok_def in_use_def circle_def apart_def spans_def)
  from free_returns_block [OF this insertI1] show ?thesis by (simp add: spans_def)
qed


end
