(* ===== verification/Spec2Isabelle.thy ===== *)
theory Spec2Isabelle
  imports Utils Init Refs Handlers Diskq Shell Argv Boot Umalloc
begin

text \<open>
  A verification library for the xv6 kernel and its first user programs, in the version whose scheduler takes advice from
  outside (\<^verbatim>\<open>src/xv6\<close>).

  \<^bold>\<open>The program.\<close>  The kernel runs processes on several harts.  Every hundred clock ticks it prints its process table on the console;
  an agent outside reads that and types lines \<^verbatim>\<open>ADVICE:PID=n\<close> back.  \<^verbatim>\<open>init\<close> routes the lines typed on
  the console to the shell or to \<^verbatim>\<open>llmhelper\<close>, which passes the number to the kernel by the system call \<^verbatim>\<open>set_llm_advice\<close>, and the scheduler dispatches that
  process next if the advice is fresh and the process is runnable.  Below that are the parts of a Unix kernel: locks, physical and virtual memory, traps, pipes,
  a disk driver, a buffer cache, a log, inodes, directories, open files, the loader, the console.

  \<^bold>\<open>How the code is modelled.\<close>  A C function is a HOL function of the state that it reads and writes, in the style of the code: the guards, early
  returns and calls are in the order of the source.  The result type \<open>res\<close> of \<open>Prelude\<close> has three outcomes: \<open>Ok\<close> with a value and a new
  state, \<open>Panic\<close> with the message of \<^verbatim>\<open>panic\<close>, and \<open>Switch\<close> for a call that gives up the processor and will be resumed, at which point the
  definition \<open>f_resume\<close> of a function \<open>f\<close> goes on.  The state is one record that each theory extends with the
  globals of its file: \<open>kspin\<close> (locks, harts), \<open>kuart\<close>, \<open>kmem\<close>, \<open>kproc\<close>, \<open>kvm\<close>, \<open>kpipe\<close>, \<open>ksleep\<close>, \<open>kbio\<close>, \<open>klog\<close>, \<open>kfs\<close>, \<open>kcons\<close>, \<open>kfile\<close>, \<open>kimage\<close>, \<open>kvirt\<close>, \<open>ktrap\<close>; every definition
  is polymorphic in the rest, so it applies unchanged at the top.  Machine integers are words of their width.  Physical memory is a map from addresses to bytes, in which
  the free list, the page tables and the trap frames lie as in the code.

  \<^bold>\<open>The theories.\<close>
  \<^item> \<open>Prelude\<close>: results, their monad, loops, invariants of results (\<open>kpost\<close>), word lemmas.  \<open>CString\<close>, \<open>Riscv\<close>, \<open>Block\<close>, \<open>Lines\<close>, \<open>Ring\<close>: C strings and
    \<^verbatim>\<open>kernel/string.c\<close>; \<^verbatim>\<open>kernel/riscv.h\<close> and \<^verbatim>\<open>memlayout.h\<close> with little-endian access to memory; disk blocks; streams cut into lines; the ring buffers shared by pipes and the console.
  \<^item> \<open>Spinlock\<close> (\<^verbatim>\<open>spinlock.c\<close>): the operations, the nesting of interrupt disabling, and the protocol between the harts as a step relation, for which mutual
    exclusion is proved.  \<open>Printf\<close>: both \<^verbatim>\<open>printf.c\<close>.  \<open>Kalloc\<close> (\<^verbatim>\<open>kalloc.c\<close>): the free list threaded through the pages, refined to a stack of pages.
  \<^item> \<open>Proc\<close> (\<^verbatim>\<open>proc.c\<close>): the process table, the scheduler with and without advice, sleep and wakeup, the statistics and the log.
    \<open>VM\<close> and \<open>UserMem\<close> (\<^verbatim>\<open>vm.c\<close>): page tables as trees, their operations, copying to and from user space.  \<open>ProcMem\<close>, \<open>Life\<close>: creation, fork, exit and wait.
  \<^item> \<open>Sysproc\<close> (\<^verbatim>\<open>syscall.c\<close>, \<^verbatim>\<open>sysproc.c\<close>), \<open>Pipe\<close> (\<^verbatim>\<open>pipe.c\<close>), \<open>Sleeplock\<close>, \<open>Bio\<close> (\<^verbatim>\<open>bio.c\<close>), \<open>Log\<close> and \<open>Tx\<close> (\<^verbatim>\<open>log.c\<close>, transactions and crash safety),
    \<open>Balloc\<close>, \<open>Inode\<close>, \<open>Fdata\<close>, \<open>Dir\<close> (the layers of \<^verbatim>\<open>fs.c\<close>), \<open>Console\<close> (\<^verbatim>\<open>console.c\<close>, \<^verbatim>\<open>uart.c\<close>), \<open>File\<close> (\<^verbatim>\<open>file.c\<close>), \<open>Sysfile\<close>, \<open>Exec\<close> and \<open>Argv\<close>
    (\<^verbatim>\<open>exec.c\<close>), \<open>Virtio\<close> and \<open>Diskq\<close> (\<^verbatim>\<open>virtio_disk.c\<close>), \<open>Trap\<close> and \<open>Handlers\<close> (\<^verbatim>\<open>trap.c\<close>, \<^verbatim>\<open>plic.c\<close>, the table of system calls).
  \<^item> \<open>Frame\<close> and \<open>Refs\<close>: what every system call keeps.
  \<^item> The user side: \<open>Ulib\<close> (\<^verbatim>\<open>ulib.c\<close>), \<open>Grep\<close>, \<open>Llmhelper\<close>, \<open>Init\<close> and \<open>Boot\<close> (\<^verbatim>\<open>init.c\<close>), \<open>Sh\<close> (the parser of \<^verbatim>\<open>sh.c\<close>), \<open>Shell\<close> (the rest of it), \<open>Umalloc\<close> (\<^verbatim>\<open>umalloc.c\<close>), \<open>Utils\<close> (\<^verbatim>\<open>cat.c\<close>, \<^verbatim>\<open>wc.c\<close>, \<^verbatim>\<open>echo.c\<close>),
    and in this theory the whole way from a typed line to the scheduler.

  \<^bold>\<open>Interfaces.\<close>  \<open>mutex\<close> (\<open>Spinlock\<close>) is what users of a lock rely on; \<open>page_pool\<close> (\<open>Kalloc\<close>) the contract of a page allocator; \<open>ring\<close> (\<open>Ring\<close>) the arithmetic of
  a ring buffer with running indices, for \<^verbatim>\<open>pipe.c\<close> and \<^verbatim>\<open>console.c\<close>; \<open>destination\<close> (\<open>Fdata\<close>) where \<^verbatim>\<open>readi\<close> puts its bytes, kernel or user memory;
  \<open>kernel_inv\<close> and \<open>kernel_inv_any\<close> (\<open>Frame\<close>) a predicate that is kept by the primitive operations, for which it is proved once that all
  functions up to the system calls keep it.  \<open>Refs\<close> interprets these for the stored advice and for the tables of descriptors and files.
  Each is interpreted on the definitions of the code.

  \<^bold>\<open>What is shown.\<close>
  Scheduling: advice is followed exactly when it is fresh and its process runnable, otherwise the choice is round robin, which reaches every runnable process; the stored
  advice is changed by its system call alone; a wakeup is not lost.
  Memory: the allocator refines a stack of pages; mapping and then looking up gives the page; copying out and in is a round trip.
  Storage: a cached read returns the block; a crash at any point of a commit leaves either the old or the new contents; reading a file returns the
  bytes that its inode describes; the disk driver, on a device that follows its contract \<open>block_device\<close>, performs the transfer that the buffer
  cache assumes, and its interrupt handler completes exactly the requests served.
  Programs: \<^verbatim>\<open>kexec\<close> lays out the arguments so that \<^verbatim>\<open>main\<close> finds them; the shell parses every line to an end, its parser inverts a printer, and a command
  runs with exactly its descriptors; \<^verbatim>\<open>malloc\<close> and \<^verbatim>\<open>free\<close> keep the blocks in use apart; \<^verbatim>\<open>init\<close> connects router, helper and shell; lines are routed, split and matched as specified.
  Reference counts of open files are exact after every system call.

  \<^bold>\<open>Loops.\<close>  Loops whose measure is in the arguments are total functions.  Fuel is used where a loop follows pointers or may not end: 3 levels for \<^verbatim>\<open>freewalk\<close>, \<^verbatim>\<open>NBUF\<close> for the
  list of buffers, \<^verbatim>\<open>NUM + 1\<close> for a chain of descriptors, the distance of the indices for \<^verbatim>\<open>C('U')\<close>, the length of the input for the receive interrupt, four units per
  character for the parser (\<open>parsecmd_terminates\<close> shows that they suffice), four rounds for the shell's console (\<open>shell_opens_standard_descriptors\<close>), and the number of shell restarts for \<^verbatim>\<open>init\<close>.
  The two loops of the allocator are partial functions, which are shown to have a result.

  \<^bold>\<open>Not modelled.\<close>  Assembly (\<^verbatim>\<open>entry.S\<close>, \<^verbatim>\<open>swtch.S\<close>, \<^verbatim>\<open>kernelvec.S\<close>, \<^verbatim>\<open>trampoline.S\<close>) and the register accessors of \<^verbatim>\<open>riscv.h\<close>, which are single instructions; \<^verbatim>\<open>start.c\<close> and \<^verbatim>\<open>main.c\<close>,
  which set up machine mode and call the initialisers; the register handshakes of \<^verbatim>\<open>uartinit\<close> and \<^verbatim>\<open>virtio_disk_init\<close>; the remaining simple utilities and the test programs under
  \<^verbatim>\<open>user/\<close>; the host programs \<^verbatim>\<open>mkfs\<close> and \<^verbatim>\<open>agent/\<close>.
  Interleavings inside a kernel function are modelled for the spinlock protocol and at the points where a function gives up the processor, not between any two instructions: what a lock protects is
  read and written as if the harts took turns.
\<close>

section \<open>From the console to the scheduler\<close>

text \<open>
  The user side of the call, as \<^verbatim>\<open>usys.pl\<close> generates it: the argument is in \<^verbatim>\<open>a0\<close>, the number goes to \<^verbatim>\<open>a7\<close>,
  and \<^verbatim>\<open>ecall\<close> enters \<^verbatim>\<open>usertrap\<close> from user mode with cause 8; the result is what \<^verbatim>\<open>a0\<close> holds on return.  \<open>i\<close> is the
  process of \<^verbatim>\<open>llmhelper\<close>, running on hart \<open>h\<close>.  A call that does not come back does not happen in the states
  below (\<open>set_llm_advice_ok\<close>).
\<close>

definition set_llm_advice :: "nat \<Rightarrow> nat \<Rightarrow> ('a ktrap_scheme) advise" where
  "set_llm_advice h i pid s =
     (let s = tf_set tf_a7 (of_nat SYS_set_llm_advice) i (tf_set tf_a0 (scast pid) i s);
          s = s\<lparr>scause := (scause s)(h := 8), spp := (spp s)(h := False)\<rparr>
      in case usertrap h s of
           Ok _ t \<Rightarrow> (sint (ucast (tf_get tf_a0 i t) :: u32), t)
         | _ \<Rightarrow> (-1, s))"

definition same_kernel :: "'a ktrap_scheme \<Rightarrow> 'a ktrap_scheme \<Rightarrow> bool" where
  "same_kernel s t \<longleftrightarrow> procs t = procs s \<and> locks t = locks s \<and> ticks t = ticks s \<and>
     (\<forall>h. noff h t = noff h s \<and> c_proc (cpus t h) = c_proc (cpus s h))"

lemma set_llm_advice_ok:
  fixes s :: "'a ktrap_scheme"
  assumes "noff h s = 0" and "c_proc (cpus s h) = Some i" and "p_killed (procs s i) = 0"
    and "lock_free LLlm s" and "lock_free (LProc i) s" and "0 < sint pid"
  shows "\<exists>t. set_llm_advice h i pid s = (0, t) \<and> same_kernel s t \<and>
    llm_recommended_pid t = pid \<and> llm_advice_valid t = 1 \<and> llm_advice_timestamp t = ticks s"
proof -
  let ?s = "tf_set tf_a7 22 i (tf_set tf_a0 (scast pid) i s)"
  let ?u = "?s\<lparr>scause := (scause ?s)(h := 8), spp := (spp ?s)(h := False)\<rparr>"
  have regs: "tf_get off i (u\<lparr>scause := c\<rparr>) = tf_get off i u" for off c and u :: "'a ktrap_scheme" by (simp add: tf_get_def)
  have a0: "tf_get tf_a0 i ?s = scast pid"
    by (simp add: tf_get_set_apart tf_get_set tf_a0_def tf_a7_def)
  have pid: "pid = ucast (scast pid :: u64)" by (rule bit_eqI) (auto simp: bit_simps)
  have "noff h ?u = 0" "c_proc (cpus ?u h) = Some i" "\<not> spp ?u h" "scause ?u h = 8" "p_killed (procs ?u i) = 0"
      "lock_free LLlm ?u" "lock_free (LProc i) ?u" "tf_get tf_a7 i ?u = 22" "pid = ucast (tf_get tf_a0 i ?u)"
    using assms(1-5) pid by (simp_all add: lock_free_def regs a0 tf_get_set)
  from usertrap_advice [OF this] assms(6) obtain v t where "usertrap h ?u = Ok v t" "tf_get tf_a0 i t = 0"
      "procs t = procs ?u" "locks t = locks ?u" "ticks t = ticks ?u"
      "\<forall>h'. noff h' t = noff h' ?u \<and> c_proc (cpus t h') = c_proc (cpus ?u h')"
      "llm_recommended_pid t = pid" "llm_advice_valid t = 1" "llm_advice_timestamp t = ticks ?u" by auto
  then show ?thesis by (simp add: set_llm_advice_def same_kernel_def SYS_set_llm_advice_def Let_def)
qed

lemma same_kernel_refl [simp]: "same_kernel s s"
  by (simp add: same_kernel_def)

lemma same_kernel_trans: "same_kernel s t \<Longrightarrow> same_kernel t u \<Longrightarrow> same_kernel s u"
  by (simp add: same_kernel_def)

lemma handle_line_ok:
  assumes "noff h s = 0" and "c_proc (cpus s h) = Some i" and "p_killed (procs s i) = 0"
    and "lock_free LLlm s" and "lock_free (LProc i) s" and "same_kernel s t"
  shows "\<exists>u out'. handle_line (set_llm_advice h i) l (t, out) = (u, out') \<and> same_kernel s u \<and>
    (\<forall>n. parse_advice l = Some n \<longrightarrow>
       llm_recommended_pid u = n \<and> llm_advice_valid u = 1 \<and> llm_advice_timestamp u = ticks s)"
proof (cases "parse_advice l")
  case (Some n)
  then have "0 < sint n" by (auto simp: parse_advice_def Let_def split: if_splits)
  moreover have "noff h t = 0" "c_proc (cpus t h) = Some i" "p_killed (procs t i) = 0" "lock_free LLlm t" "lock_free (LProc i) t"
      "ticks t = ticks s"
    using assms by (simp_all add: same_kernel_def lock_free_def)
  ultimately show ?thesis
    using set_llm_advice_ok [where s = t and h = h and i = i and pid = n] Some same_kernel_trans [OF assms(6)] by (auto simp: handle_line_def)
qed (use assms(6) in \<open>simp add: handle_line_def\<close>)

lemma handle_lines_ok:
  assumes "noff h s = 0" and "c_proc (cpus s h) = Some i" and "p_killed (procs s i) = 0"
    and "lock_free LLlm s" and "lock_free (LProc i) s" and "same_kernel s t"
  shows "\<exists>u out'. fold (handle_line (set_llm_advice h i)) ls (t, out) = (u, out') \<and> same_kernel s u"
  using assms(6)
proof (induction ls arbitrary: t out)
  case (Cons l ls)
  obtain u out' where "handle_line (set_llm_advice h i) l (t, out) = (u, out')" "same_kernel s u"
    using handle_line_ok [OF assms(1-5) Cons.prems] by blast
  then show ?case using Cons.IH [of u out'] by simp
qed simp

text \<open>The lines that reach \<^verbatim>\<open>llmhelper\<close> are the advice lines typed on the console, cut at 511 characters.\<close>

lemma lines_of_router:
  assumes "0 \<le> sh_fd" and "0 \<le> llm_fd"
  shows "lines_of (rt_llm (router_loop sh_fd llm_fd inp \<lparr>rt_buf = [], rt_sh = [], rt_llm = []\<rparr>)) =
    filter advice_line (map (take 511) (lines_of (enter_to_newline inp)))"
proof -
  have "\<forall>l\<in>set (lines_of (enter_to_newline inp)). Lines.NL \<notin> set l" by (rule lines_no_newline) simp
  then have "\<forall>l\<in>set (filter advice_line (map (take 511) (lines_of (enter_to_newline inp)))). Lines.NL \<notin> set l"
    by (auto dest: in_set_takeD)
  then show ?thesis
    using lines_of_unlines router_loop_sorts [OF assms, of "\<lparr>rt_buf = [], rt_sh = [], rt_llm = []\<rparr>" "[]" inp]
    by (simp add: Let_def)
qed

text \<open>
  C3: advice typed on the console decides the next scheduling decision.  When the last line typed is
  \<^verbatim>\<open>ADVICE:PID=<n>\<close> for the pid of a runnable process, then, however the pipe cuts the stream the router sends and whatever
  was typed before, once \<^verbatim>\<open>llmhelper\<close> has read the stream the next iteration of the scheduler, on any idle hart and
  up to 199 ticks later, dispatches a process with that pid by advice and spends the advice.
\<close>

theorem typed_advice_is_followed:
  fixes s :: ktrap
  assumes "inp = pre @ advice_prefix @ printint kdigits (scast n) 10 True @ rest @ [Lines.NL]"
    and "rest_from [] (enter_to_newline pre) = []" and "0 < sint n" and "digit_free rest" and "Lines.NL \<notin> set rest" and "CHR 0x0D \<notin> set rest"
    and "0 \<le> sh_fd" and "0 \<le> llm_fd" and "[] \<notin> set chunks"
    and "concat chunks = rt_llm (router_loop sh_fd llm_fd inp \<lparr>rt_buf = [], rt_sh = [], rt_llm = []\<rparr>)"
    and "line_bound 510 [] (concat chunks)"
    and "noff h s = 0" and "c_proc (cpus s h) = Some i" and "p_killed (procs s i) = 0"
    and "lock_free LLlm s" and "proc_locks_free s" and "i < NPROC"
    and "k < NPROC" and "p_state (procs s k) = RUNNABLE" and "p_pid (procs s k) = n"
    and "noff h' s = 0" and "d < ADVICE_TIMEOUT_TICKS"
  shows "\<exists>j t u. fst (llm_main (set_llm_advice h i) chunks s) = t \<and>
    scheduler_iter h' (t\<lparr>ticks := ticks t + d\<rparr>) = Ok (RunAdvised j) u \<and> j \<le> k \<and> p_pid (procs s j) = n \<and>
    procs u = (procs s)(j := (procs s j)\<lparr>p_state := RUNNING\<rparr>) \<and> c_proc (cpus u h') = Some j \<and> llm_advice_valid u = 0"
proof -
  let ?num = "printint kdigits (scast n) 10 True"
  let ?line = "advice_prefix @ ?num @ rest" and ?r0 = "\<lparr>rt_buf = [], rt_sh = [], rt_llm = []\<rparr>"
  have "set ?num = set (rev (buf_digits kdigits 10 (unat n)))" using printint_nonneg [of n] assms(3) by simp
  then have digits: "\<forall>c\<in>set ?num. is_digit c" using buf_digits_digits [of "unat n"] by simp
  then have plain: "Lines.NL \<notin> set ?line" "CHR 0x0D \<notin> set ?line"
    using assms(5,6) by (auto simp: advice_prefix_def is_digit_def)
  then have "enter_to_newline ?line = ?line" by (auto simp: enter_to_newline_def intro!: map_idI)
  then have "lines_of (enter_to_newline inp) = lines_of (enter_to_newline pre) @ [?line]"
    using assms(1,2) plain(1) no_newline_lines [of ?line "[]"]
    by (simp add: enter_to_newline_def lines_from_append rest_from_append)
  then obtain L where L: "lines_of (concat chunks) = L @ filter advice_line [take 511 ?line]"
    using lines_of_router [OF assms(7,8), of inp] assms(10) by simp
  have "advice_line (take 511 ?line)" by (auto simp: advice_line_def advice_prefix_def)
  moreover from this have "length (take 511 ?line) \<le> 510" using assms(11) L by (simp add: line_bound_def)
  ultimately have lines: "lines_of (concat chunks) = L @ [?line]" using L by simp
  let ?x = "(s, ''llmhelper: started, waiting for LLM advice on stdin...'' @ [Lines.NL])"
  have free: "lock_free (LProc i) s" using assms(16,17) by (simp add: proc_locks_free_def)
  obtain v out where v: "fold (handle_line (set_llm_advice h i)) L ?x = (v, out)" "same_kernel s v"
    using handle_lines_ok [OF assms(12-15) free same_kernel_refl] by blast
  obtain t out' where t: "handle_line (set_llm_advice h i) ?line (v, out) = (t, out')" "same_kernel s t"
      "llm_recommended_pid t = n" "llm_advice_valid t = 1" "llm_advice_timestamp t = ticks s"
    using handle_line_ok [OF assms(12-15) free v(2)] parse_advice_line [of "[]" n rest] assms(3,4) by force
  have "llm_main (set_llm_advice h i) chunks s = (t, out' @ ''llmhelper: exiting (input closed)'' @ [Lines.NL])"
    using llm_loop_lines [of "[]" "\<lparr>lb_buf = replicate BUF_SZ NUL, lb_start = 0, lb_end = 0\<rparr>" chunks "set_llm_advice h i" ?x] assms(9,11) lines v(1) t(1)
    by (simp add: llm_main_def llm_wf_def)
  moreover have "\<exists>j u. scheduler_iter h' (t\<lparr>ticks := ticks t + d\<rparr>) = Ok (RunAdvised j) u \<and> j \<le> k \<and> p_pid (procs s j) = n \<and>
      procs u = (procs s)(j := (procs s j)\<lparr>p_state := RUNNING\<rparr>) \<and> c_proc (cpus u h') = Some j \<and> llm_advice_valid u = 0"
    using scheduler_iter_advised [where h = h' and s = "t\<lparr>ticks := ticks t + d\<rparr>" and k = k] t(2-5) assms(15-22)
    by (fastforce simp: same_kernel_def proc_locks_free_def lock_free_def)
  ultimately show ?thesis by simp
qed

theorem typed_advice_is_followed_witness:
  "\<exists>j u. scheduler_iter 1 (fst (llm_main (set_llm_advice 0 1) [''ADVICE:PI'', ''D=3'' @ [Lines.NL]] (demo_kernel 0 0))) =
     Ok (RunAdvised j) u \<and> llm_advice_valid u = 0"
proof -
  let ?inp = "(''ls'' @ [Lines.NL]) @ advice_prefix @ printint kdigits (scast (3 :: u32)) 10 True @ [] @ [Lines.NL]"
  let ?cs = "[''ADVICE:PI'', ''D=3'' @ [Lines.NL]]"
  have num: "printint kdigits (scast (3 :: u32)) 10 True = ''3''" by code_simp
  have route: "rt_llm (router_loop 4 6 ?inp \<lparr>rt_buf = [], rt_sh = [], rt_llm = []\<rparr>) = concat ?cs"
    unfolding num by code_simp
  have pids: "p_state (procs (demo_kernel 0 0) 2) = RUNNABLE" "p_pid (procs (demo_kernel 0 0) 2) = 3" "p_killed (procs (demo_kernel 0 0) 1) = 0"
    by (simp_all add: demo_proc_def slot_def)
  show ?thesis
    using typed_advice_is_followed [OF refl, where pre = "''ls'' @ [Lines.NL]" and n = 3 and rest = "[]"
        and sh_fd = 4 and llm_fd = 6 and chunks = ?cs and h = 0 and s = "demo_kernel 0 0" and i = 1 and k = 2 and h' = 1 and d = 0] route pids
    by (simp add: enter_to_newline_def sint32 digit_free_def is_digit_def line_bound_def NPROC_def ADVICE_TIMEOUT_TICKS_def) blast
qed

end
